(* ===== verification/BB_Prelude.thy ===== *)
theory BB_Prelude
  imports Main "HOL-Library.Word"
begin

text \<open>
  Shared vocabulary of the development: the machine integers of the C code, the values a C
  function can end with, byte images of integers (the host is little endian, as every platform
  the makefile targets), and byte addressed memory with the three accesses the code makes to
  it (\<^verbatim>\<open>memcpy\<close> out of it, \<^verbatim>\<open>memcpy\<close> into it, \<^verbatim>\<open>memset\<close>).
\<close>

unbundle bit_operations_syntax

section \<open>Integers, faults, results\<close>

type_synonym u8 = "8 word"
type_synonym u16 = "16 word"
type_synonym u32 = "32 word"
type_synonym u64 = "64 word"
type_synonym bytes = "u8 list"

text \<open>
  How a C function can fail to return: an access outside mapped memory, \<^verbatim>\<open>abort()\<close>,
  \<^verbatim>\<open>exit()\<close>, a failed \<^verbatim>\<open>assert\<close>, a division by zero, or waiting forever for a packet.
\<close>

datatype fault = Segv | Abort | Exit | Assertion | Fpe | Blocked

type_synonym 'a res = "fault + 'a"

definition bindE :: "'a res \<Rightarrow> ('a \<Rightarrow> 'b res) \<Rightarrow> 'b res" where
  "bindE m f = (case m of Inl e \<Rightarrow> Inl e | Inr x \<Rightarrow> f x)"

definition guardE :: "fault \<Rightarrow> 'a option \<Rightarrow> 'a res" where
  "guardE e r = (case r of None \<Rightarrow> Inl e | Some x \<Rightarrow> Inr x)"

text \<open>Collections the component proofs draw on.\<close>

named_theorems mem_simps \<open>reads and writes of byte addressed memory\<close>
named_theorems layout_simps \<open>lengths and offsets of byte images\<close>

lemma bindE_simps [simp]:
  "bindE (Inl e) f = Inl e"
  "bindE (Inr x) f = f x"
  by (simp_all add: bindE_def)

lemma bindE_eq_Inr [simp]: "bindE m f = Inr y \<longleftrightarrow> (\<exists>x. m = Inr x \<and> f x = Inr y)"
  by (cases m) simp_all

lemma bindE_assoc: "bindE (bindE m f) g = bindE m (\<lambda>x. bindE (f x) g)"
  by (cases m) simp_all

lemma guardE_simps [simp]:
  "guardE e None = Inl e"
  "guardE e (Some x) = Inr x"
  by (simp_all add: guardE_def)

lemma guardE_eq_Inr [simp]: "guardE e r = Inr x \<longleftrightarrow> r = Some x"
  by (cases r) simp_all

section \<open>Byte images of integers\<close>

definition le_bytes :: "nat \<Rightarrow> 'a::len word \<Rightarrow> bytes" where
  "le_bytes n w = map (\<lambda>i. ucast (drop_bit (8 * i) w)) [0..<n]"

primrec le_word :: "bytes \<Rightarrow> 'a::len word" where
  "le_word [] = 0"
| "le_word (b # bs) = ucast b OR push_bit 8 (le_word bs)"

lemma length_le_bytes [simp, layout_simps]: "length (le_bytes n w) = n"
  by (simp add: le_bytes_def)

lemma le_bytes_nth [simp]: "i < n \<Longrightarrow> le_bytes n w ! i = ucast (drop_bit (8 * i) w)"
  by (simp add: le_bytes_def)

lemma bit_le_word:
  "bit (le_word bs :: 'a::len word) n \<longleftrightarrow>
     n < LENGTH('a) \<and> n div 8 < length bs \<and> bit (bs ! (n div 8)) (n mod 8)"
proof (induction bs arbitrary: n)
  case Nil
  then show ?case by simp
next
  case (Cons b bs)
  show ?case
  proof (cases "n < 8")
    case True
    then show ?thesis
      by (auto simp: bit_or_iff bit_push_bit_iff bit_ucast_iff)
  next
    case False
    then have n: "n div 8 = Suc ((n - 8) div 8)" "(n - 8) mod 8 = n mod 8"
      by (simp_all add: le_div_geq le_mod_geq)
    have "\<not> bit b n"
      using False by (auto dest: bit_imp_le_length)
    with False show ?thesis
      by (auto simp: bit_or_iff bit_push_bit_iff bit_ucast_iff Cons.IH n)
  qed
qed

text \<open>Reading back the bytes of an integer of \<open>8 n\<close> bits gives the integer.\<close>

lemma le_word_le_bytes:
  assumes "LENGTH('a) = 8 * n"
  shows "le_word (le_bytes n w) = (w :: 'a::len word)"
proof (rule bit_word_eqI)
  fix k assume k: "k < LENGTH('a)"
  then have "k div 8 < n" "8 * (k div 8) + k mod 8 = k"
    using assms by (auto simp: less_mult_imp_div_less mult.commute)
  with k show "bit (le_word (le_bytes n w) :: 'a word) k \<longleftrightarrow> bit w k"
    by (simp add: bit_le_word bit_ucast_iff bit_drop_bit_eq)
qed

lemma le_word_le_bytes_sized [simp]:
  "le_word (le_bytes 2 w16) = (w16 :: u16)"
  "le_word (le_bytes 4 w32) = (w32 :: u32)"
  "le_word (le_bytes 8 w64) = (w64 :: u64)"
  by (simp_all add: le_word_le_bytes)

lemma le_bytes_le_word:
  assumes "length bs = n" "LENGTH('a) = 8 * n"
  shows "le_bytes n (le_word bs :: 'a::len word) = bs"
proof (rule nth_equalityI)
  show "length (le_bytes n (le_word bs :: 'a word)) = length bs"
    using assms by simp
  fix i assume "i < length (le_bytes n (le_word bs :: 'a word))"
  then have i: "i < n" by simp
  show "le_bytes n (le_word bs :: 'a word) ! i = bs ! i"
  proof (rule bit_word_eqI)
    fix k assume "k < LENGTH(8)"
    then have k: "k < 8" by simp
    then have "8 * i + k < LENGTH('a)" "(8 * i + k) div 8 = i" "(8 * i + k) mod 8 = k"
      using assms i by simp_all
    then show "bit (le_bytes n (le_word bs :: 'a word) ! i) k \<longleftrightarrow> bit (bs ! i) k"
      using assms i k by (simp add: bit_ucast_iff bit_drop_bit_eq bit_le_word)
  qed
qed

lemma le_bytes_le_word_sized [simp]:
  "length bs = 2 \<Longrightarrow> le_bytes 2 (le_word bs :: u16) = bs"
  "length bs = 4 \<Longrightarrow> le_bytes 4 (le_word bs :: u32) = bs"
  "length bs = 8 \<Longrightarrow> le_bytes 8 (le_word bs :: u64) = bs"
  by (simp_all add: le_bytes_le_word)

text \<open>\<^verbatim>\<open>htons\<close> and \<^verbatim>\<open>ntohs\<close>, \<^verbatim>\<open>htonl\<close> and \<^verbatim>\<open>ntohl\<close>: byte reversal on a little endian host.\<close>

definition htons :: "u16 \<Rightarrow> u16" where
  "htons w = le_word (rev (le_bytes 2 w))"

definition htonl :: "u32 \<Rightarrow> u32" where
  "htonl w = le_word (rev (le_bytes 4 w))"

lemma htons_htons [simp]: "htons (htons w) = w"
  by (simp add: htons_def)

lemma htonl_htonl [simp]: "htonl (htonl w) = w"
  by (simp add: htonl_def)

lemma unat_u8_lt: "unat (b :: u8) < 256"
  using unsigned_less [of b] by simp

text \<open>Narrowing to sixteen bits.\<close>

lemma ucast_u32_eq_iff: "(ucast (x :: u32) :: u16) = ucast y \<longleftrightarrow> take_bit 16 x = take_bit 16 y"
proof
  assume *: "(ucast x :: u16) = ucast y"
  have "bit x n = bit y n" if "n < 16" for n
    using arg_cong [OF *, of "\<lambda>w. bit w n"] that by (simp add: bit_ucast_iff)
  then show "take_bit 16 x = take_bit 16 y"
    by (intro bit_word_eqI) (auto simp: bit_take_bit_iff)
next
  assume *: "take_bit 16 x = take_bit 16 y"
  have "bit x n = bit y n" if "n < 16" for n
    using arg_cong [OF *, of "\<lambda>w. bit w n"] that by (simp add: bit_take_bit_iff)
  then show "(ucast x :: u16) = ucast y"
    by (intro bit_word_eqI) (auto simp: bit_ucast_iff)
qed

lemma ucast_u16_u32 [simp]: "ucast (ucast (w :: u16) :: u32) = w"
  by (rule bit_word_eqI) (simp add: bit_ucast_iff)
section \<open>Slices of byte buffers\<close>

text \<open>
  \<open>blit buf off bs\<close> is the buffer after \<^verbatim>\<open>memcpy(buf + off, bs, length bs)\<close>, for a destination
  range inside the buffer.
\<close>

definition blit :: "'a list \<Rightarrow> nat \<Rightarrow> 'a list \<Rightarrow> 'a list" where
  "blit buf off bs = take off buf @ bs @ drop (off + length bs) buf"

definition slice :: "'a list \<Rightarrow> nat \<Rightarrow> nat \<Rightarrow> 'a list" where
  "slice buf off n = take n (drop off buf)"

lemma length_blit [simp, layout_simps]:
  "off + length bs \<le> length buf \<Longrightarrow> length (blit buf off bs) = length buf"
  by (simp add: blit_def)

lemma length_slice [simp, layout_simps]:
  "off + n \<le> length buf \<Longrightarrow> length (slice buf off n) = n"
  by (simp add: slice_def)

lemma nth_blit:
  assumes "off + length bs \<le> length buf" "i < length buf"
  shows "blit buf off bs ! i =
    (if off \<le> i \<and> i < off + length bs then bs ! (i - off) else buf ! i)"
  using assms by (auto simp: blit_def nth_append)

lemma slice_append: "slice buf off n @ slice buf (off + n) k = slice buf off (n + k)"
  by (simp add: slice_def take_add add.commute [of off])

lemma slice_all: "length buf \<le> n \<Longrightarrow> slice buf 0 n = buf"
  by (simp add: slice_def)

lemma slice_join:
  "off' = off + n \<Longrightarrow> k' = n + k \<Longrightarrow> slice buf off n @ slice buf off' k = slice buf off k'"
  by (simp add: slice_append)

lemma slice_slice: "i + k \<le> n \<Longrightarrow> slice (slice buf off n) i k = slice buf (off + i) k"
  by (simp add: slice_def drop_take min_def add.commute [of off])

lemma slice_blit_same [layout_simps]:
  "off + length bs \<le> length buf \<Longrightarrow> n = length bs \<Longrightarrow> slice (blit buf off bs) off n = bs"
  by (simp add: slice_def blit_def)

lemma slice_blit_other [layout_simps]:
  assumes "off + length bs \<le> length buf" "i + n \<le> off \<or> off + length bs \<le> i" "i + n \<le> length buf"
  shows "slice (blit buf off bs) i n = slice buf i n"
proof (rule nth_equalityI)
  show "length (slice (blit buf off bs) i n) = length (slice buf i n)"
    using assms by simp
  fix k assume "k < length (slice (blit buf off bs) i n)"
  then have "k < n" using assms by simp
  then show "slice (blit buf off bs) i n ! k = slice buf i n ! k"
    using assms by (auto simp: slice_def nth_blit)
qed

section \<open>Byte addressed memory\<close>

type_synonym mem = "u64 \<rightharpoonup> u8"

text \<open>\<^verbatim>\<open>memcpy\<close> from and to memory: \<open>None\<close> when the range leaves mapped memory.\<close>

fun load :: "mem \<Rightarrow> u64 \<Rightarrow> nat \<Rightarrow> bytes option" where
  "load m a 0 = Some []"
| "load m a (Suc n) =
     (case m a of None \<Rightarrow> None
      | Some b \<Rightarrow> (case load m (a + 1) n of None \<Rightarrow> None | Some bs \<Rightarrow> Some (b # bs)))"

fun store :: "mem \<Rightarrow> u64 \<Rightarrow> bytes \<Rightarrow> mem option" where
  "store m a [] = Some m"
| "store m a (b # bs) =
     (case m a of None \<Rightarrow> None | Some _ \<Rightarrow> store (m(a \<mapsto> b)) (a + 1) bs)"

text \<open>The bytes a range occupies, and memory after a write that stays inside mapped memory.\<close>

definition in_range :: "u64 \<Rightarrow> nat \<Rightarrow> u64 \<Rightarrow> bool" where
  "in_range a n x \<longleftrightarrow> unat (x - a) < n"

definition mapped :: "mem \<Rightarrow> u64 \<Rightarrow> nat \<Rightarrow> bool" where
  "mapped m a n \<longleftrightarrow> (\<forall>i<n. m (a + of_nat i) \<noteq> None)"

definition overwrite :: "mem \<Rightarrow> u64 \<Rightarrow> bytes \<Rightarrow> mem" where
  "overwrite m a bs = (\<lambda>x. if in_range a (length bs) x then Some (bs ! unat (x - a)) else m x)"

lemma unat_of_nat_u64: "i < 2 ^ 64 \<Longrightarrow> unat (of_nat i :: u64) = i"
  by (simp add: unat_of_nat take_bit_eq_mod)

lemma unat_u64_lt: "unat (x :: u64) < 2 ^ 64"
  using unsigned_less [of x] by simp

lemma unat_diff_Suc:
  assumes "(x :: u64) \<noteq> a"
  shows "unat (x - a) = Suc (unat (x - (a + 1)))"
proof -
  have "unat (x - a - 1) = unat (x - a) - 1"
    using assms by (intro unat_minus_one) simp
  moreover have "unat (x - a) \<noteq> 0"
    using assms by (simp add: unat_eq_0)
  ultimately show ?thesis by (simp add: diff_diff_eq)
qed

lemma in_range_offset [simp]: "n \<le> 2 ^ 64 \<Longrightarrow> i < n \<Longrightarrow> in_range a n (a + of_nat i)"
  by (simp add: in_range_def unat_of_nat_u64)

lemma in_range_iff: "in_range a n x \<longleftrightarrow> (\<exists>i. i < n \<and> i < 2 ^ 64 \<and> x = a + of_nat i)"
proof
  assume "in_range a n x"
  then show "\<exists>i. i < n \<and> i < 2 ^ 64 \<and> x = a + of_nat i"
    using unat_u64_lt [of "x - a"]
    by (intro exI [of _ "unat (x - a)"]) (simp add: in_range_def)
next
  assume "\<exists>i. i < n \<and> i < 2 ^ 64 \<and> x = a + of_nat i"
  then show "in_range a n x"
    by (auto simp: in_range_def unat_of_nat_u64)
qed

lemma in_range_0 [simp]: "\<not> in_range a 0 x"
  by (simp add: in_range_def)

lemma mapped_0 [simp]: "mapped m a 0"
  by (simp add: mapped_def)

lemma mapped_Suc: "mapped m a (Suc n) \<longleftrightarrow> m a \<noteq> None \<and> mapped m (a + 1) n"
proof -
  have "(\<forall>i<Suc n. m (a + of_nat i) \<noteq> None) \<longleftrightarrow>
      m a \<noteq> None \<and> (\<forall>i<n. m (a + of_nat (Suc i)) \<noteq> None)"
    by (auto simp: All_less_Suc2)
  then show ?thesis
    by (simp add: mapped_def add.assoc [symmetric] add.commute [of _ 1])
qed

lemma mapped_in_range: "mapped m a n \<Longrightarrow> in_range a n x \<Longrightarrow> m x \<noteq> None"
  by (auto simp: mapped_def in_range_iff)

lemma mapped_mono: "mapped m a n \<Longrightarrow> k \<le> n \<Longrightarrow> mapped m a k"
  by (simp add: mapped_def)

lemma load_eq_Some [mem_simps]:
  "load m a n = Some bs \<longleftrightarrow> mapped m a n \<and> bs = map (\<lambda>i. the (m (a + of_nat i))) [0..<n]"
proof (induction n arbitrary: a bs)
  case 0
  then show ?case by auto
next
  case (Suc n)
  have "map (\<lambda>i. the (m (a + of_nat i))) [0..<Suc n] =
      the (m a) # map (\<lambda>i. the (m (a + 1 + of_nat i))) [0..<n]"
    by (simp add: map_upt_Suc add.assoc del: upt_Suc)
  then show ?case
    using Suc.IH [of "a + 1"]
    by (cases "m a"; cases "load m (a + 1) n") (auto simp: mapped_Suc simp del: upt_Suc)
qed

lemma load_mapped [mem_simps]:
  "mapped m a n \<Longrightarrow> load m a n = Some (map (\<lambda>i. the (m (a + of_nat i))) [0..<n])"
  by (simp add: load_eq_Some)

lemma load_eq_None [mem_simps]: "load m a n = None \<longleftrightarrow> \<not> mapped m a n"
  by (metis load_eq_Some option.exhaust option.distinct(1))

lemma load_unmapped: "m a = None \<Longrightarrow> 0 < n \<Longrightarrow> load m a n = None"
  by (cases n) simp_all

lemma store_eq_Some [mem_simps]:
  assumes "length bs \<le> 2 ^ 64"
  shows "store m a bs = Some m' \<longleftrightarrow> mapped m a (length bs) \<and> m' = overwrite m a bs"
  using assms
proof (induction bs arbitrary: m a)
  case Nil
  then show ?case by (auto simp: overwrite_def)
next
  case (Cons b bs)
  show ?case
  proof (cases "m a")
    case None
    then show ?thesis by (simp add: mapped_Suc)
  next
    case (Some c)
    have "mapped (m(a \<mapsto> b)) (a + 1) (length bs) \<longleftrightarrow> mapped m (a + 1) (length bs)"
      unfolding mapped_def using Some by (metis fun_upd_apply option.distinct(1))
    moreover have "overwrite (m(a \<mapsto> b)) (a + 1) bs = overwrite m a (b # bs)"
    proof
      fix x
      show "overwrite (m(a \<mapsto> b)) (a + 1) bs x = overwrite m a (b # bs) x"
      proof (cases "x = a")
        case True
        have "unat (- 1 :: u64) = 2 ^ 64 - 1" by (simp add: unsigned_minus_1_eq_mask mask_eq_exp_minus_1)
        with True Cons.prems show ?thesis
          by (simp add: overwrite_def in_range_def)
      next
        case False
        then have "unat (x - a) = Suc (unat (x - (a + 1)))"
          by (rule unat_diff_Suc)
        with False show ?thesis
          by (simp add: overwrite_def in_range_def)
      qed
    qed
    ultimately show ?thesis
      using Cons Some by (simp add: mapped_Suc)
  qed
qed

lemma store_mapped [mem_simps]:
  "length bs \<le> 2 ^ 64 \<Longrightarrow> mapped m a (length bs) \<Longrightarrow> store m a bs = Some (overwrite m a bs)"
  by (simp add: store_eq_Some)

lemma load_length: "load m a n = Some bs \<Longrightarrow> length bs = n"
  by (simp add: load_eq_Some)

lemma mapped_overwrite [simp]: "mapped m a n \<Longrightarrow> mapped (overwrite m b bs) a n"
  by (simp add: mapped_def overwrite_def)

lemma overwrite_outside [mem_simps]: "\<not> in_range a (length bs) x \<Longrightarrow> overwrite m a bs x = m x"
  by (simp add: overwrite_def)

lemma overwrite_inside [mem_simps]:
  "length bs \<le> 2 ^ 64 \<Longrightarrow> i < length bs \<Longrightarrow> overwrite m a bs (a + of_nat i) = Some (bs ! i)"
  by (simp add: overwrite_def unat_of_nat_u64)

lemma overwrite_Nil [simp]: "overwrite m a [] = m"
  by (simp add: overwrite_def)

lemma overwrite_append:
  assumes "length (xs @ ys) \<le> 2 ^ 64"
  shows "overwrite (overwrite m a xs) (a + of_nat (length xs)) ys = overwrite m a (xs @ ys)"
proof
  fix x
  show "overwrite (overwrite m a xs) (a + of_nat (length xs)) ys x = overwrite m a (xs @ ys) x"
  proof (cases "unat (x - a) < length xs")
    case True
    have "\<not> in_range (a + of_nat (length xs)) (length ys) x"
    proof
      assume "in_range (a + of_nat (length xs)) (length ys) x"
      then obtain i where i: "i < length ys" "x = a + of_nat (length xs) + of_nat i"
        by (auto simp: in_range_iff)
      then have "x - a = of_nat (length xs + i)" by simp
      then have "unat (x - a) = length xs + i"
        using i(1) assms by (simp only: unat_of_nat_u64 length_append)
      with True show False by simp
    qed
    with True show ?thesis by (simp add: overwrite_def in_range_def nth_append)
  next
    case False
    have "unat (x - (a + of_nat (length xs))) = unat (x - a) - length xs"
    proof -
      have le: "(of_nat (length xs) :: u64) \<le> x - a"
        using False by (simp add: word_le_nat_alt unat_of_nat take_bit_nat_less_eq_self le_trans not_less)
      have lt: "length xs < 2 ^ 64" using False unat_u64_lt [of "x - a"] by simp
      have "x - (a + of_nat (length xs)) = (x - a) - of_nat (length xs)" by simp
      then show ?thesis by (simp only: unat_sub [OF le] unat_of_nat_u64 [OF lt])
    qed
    with False show ?thesis by (auto simp: overwrite_def in_range_def nth_append)
  qed
qed

lemma mapped_add: "mapped m a (n + k) \<longleftrightarrow> mapped m a n \<and> mapped m (a + of_nat n) k"
proof (induction n arbitrary: a)
  case (Suc n)
  then show ?case by (simp add: mapped_Suc add.assoc)
qed simp

lemma load_cong:
  assumes "\<And>i. i < n \<Longrightarrow> m' (a + of_nat i) = m (a + of_nat i)"
  shows "load m' a n = load m a n"
proof (cases "mapped m a n")
  case True
  then have "mapped m' a n" using assms by (simp add: mapped_def)
  with True show ?thesis using assms by (simp add: load_mapped)
next
  case False
  then have "\<not> mapped m' a n" using assms by (simp add: mapped_def)
  with False show ?thesis by (metis load_eq_None)
qed

text \<open>A range that was just written reads back; a disjoint one reads as before.\<close>

lemma load_overwrite_same [mem_simps]:
  "mapped m a (length bs) \<Longrightarrow> length bs \<le> 2 ^ 64 \<Longrightarrow>
     load (overwrite m a bs) a (length bs) = Some bs"
  unfolding load_eq_Some
  by (intro conjI mapped_overwrite nth_equalityI) (simp_all add: overwrite_inside del: power_numeral)

definition disjoint_ranges :: "u64 \<Rightarrow> nat \<Rightarrow> u64 \<Rightarrow> nat \<Rightarrow> bool" where
  "disjoint_ranges a n b k \<longleftrightarrow> (\<forall>i<n. \<not> in_range b k (a + of_nat i))"

lemma load_overwrite_other [mem_simps]:
  "disjoint_ranges a n b (length bs) \<Longrightarrow> load (overwrite m b bs) a n = load m a n"
  by (intro load_cong overwrite_outside) (simp add: disjoint_ranges_def)

lemma in_range_shift:
  assumes "in_range (a + of_nat i) n x" "i + n \<le> 2 ^ 64"
  shows "i \<le> unat (x - a)" "unat (x - a) < i + n"
proof -
  obtain j where j: "j < n" "x = a + of_nat i + of_nat j"
    using assms(1) by (auto simp: in_range_iff)
  then have "x - a = of_nat (i + j)" by simp
  moreover have "unat (of_nat (i + j) :: u64) = i + j"
    using j(1) assms(2) by (intro unat_of_nat_u64) linarith
  ultimately have "unat (x - a) = i + j" by simp
  with j(1) show "i \<le> unat (x - a)" "unat (x - a) < i + n" by simp_all
qed

lemma ranges_apart:
  assumes "i + n \<le> j \<or> j + n \<le> i" "i + n \<le> 2 ^ 64" "j + n \<le> 2 ^ 64"
  shows "disjoint_ranges (a + of_nat i) n (a + of_nat j) n"
  unfolding disjoint_ranges_def
proof (intro allI impI notI)
  fix k assume k: "k < n" "in_range (a + of_nat j) n (a + of_nat i + of_nat k)"
  let ?x = "a + of_nat i + of_nat k"
  have "in_range (a + of_nat i) n ?x" using k(1) assms(2) by simp
  from in_range_shift [OF this assms(2)] in_range_shift [OF k(2) assms(3)] assms(1)
  show False by linarith
qed

end
