(* ===== verification/BB_Types.thy ===== *)
theory BB_Types
  imports BB_Prelude
begin

text \<open>
  The types and constants of \<^verbatim>\<open>ip6/lib/types.h\<close>. An \<^verbatim>\<open>ip6_memaddr\<close> is a 128 bit IPv6 address
  read as a remote memory pointer, and the code casts freely between the two: the record below
  is the struct, \<open>memaddr_bytes\<close> and \<open>bytes_memaddr\<close> are the cast to and from the sixteen bytes
  that travel in the IPv6 header (the struct has no padding).
\<close>

record ip6_memaddr =
  subid :: u16
  cmd :: u16
  args :: u32
  paddr :: u64

record ip6_memaddr_block =
  memaddr :: ip6_memaddr
  blk_length :: u64
  blk_offset :: u64

text \<open>
  A packet request: \<open>data\<close> stands for the \<^verbatim>\<open>datalen\<close> bytes behind the \<^verbatim>\<open>data\<close> pointer at the
  time of the send.
\<close>

record pkt_rqst =
  dst_addr :: ip6_memaddr
  dst_port :: u16
  data :: bytes

text \<open>The part of \<^verbatim>\<open>struct sockaddr_in6\<close> the code uses.\<close>

record sockaddr_in6 =
  sin6_addr :: ip6_memaddr
  sin6_port :: u16

text \<open>The configuration of \<^verbatim>\<open>config.h\<close>; ports are in network byte order, as in the code.\<close>

record config =
  interface :: string
  server_port :: string
  src_port :: u16
  src_addr :: ip6_memaddr
  debug :: int
  num_hosts :: nat
  hosts :: "ip6_memaddr list"

definition ETH_HDRLEN :: nat where "ETH_HDRLEN = 14"

definition IP6_HDRLEN :: nat where "IP6_HDRLEN = 40"

definition UDP_HDRLEN :: nat where "UDP_HDRLEN = 8"

definition IPV6_SIZE :: nat where "IPV6_SIZE = 16"

definition BLOCK_SIZE :: nat where "BLOCK_SIZE = 1"

definition POINTER_SIZE :: nat where "POINTER_SIZE = 8"

definition ALLOC_CMD :: u16 where "ALLOC_CMD = 1"

definition WRITE_CMD :: u16 where "WRITE_CMD = 2"

definition READ_CMD :: u16 where "READ_CMD = 3"

definition FREE_CMD :: u16 where "FREE_CMD = 4"

definition ALLOC_BULK_CMD :: u16 where "ALLOC_BULK_CMD = 5"

definition WRITE_BULK_CMD :: u16 where "WRITE_BULK_CMD = 6"

definition READ_BULK_CMD :: u16 where "READ_BULK_CMD = 7"

definition TRIM_CMD :: u16 where "TRIM_CMD = 8"

lemmas hdr_defs = ETH_HDRLEN_def IP6_HDRLEN_def UDP_HDRLEN_def IPV6_SIZE_def POINTER_SIZE_def

lemmas cmd_defs = ALLOC_CMD_def WRITE_CMD_def READ_CMD_def FREE_CMD_def
  ALLOC_BULK_CMD_def WRITE_BULK_CMD_def READ_BULK_CMD_def TRIM_CMD_def

lemma BLOCK_SIZE_pos [simp]: "0 < BLOCK_SIZE"
  by (simp add: BLOCK_SIZE_def)

section \<open>The address as sixteen bytes\<close>

definition memaddr_bytes :: "ip6_memaddr \<Rightarrow> bytes" where
  "memaddr_bytes a =
     le_bytes 2 (subid a) @ le_bytes 2 (cmd a) @ le_bytes 4 (args a) @ le_bytes 8 (paddr a)"

definition bytes_memaddr :: "bytes \<Rightarrow> ip6_memaddr" where
  "bytes_memaddr bs =
     \<lparr>subid = le_word (slice bs 0 2), cmd = le_word (slice bs 2 2),
      args = le_word (slice bs 4 4), paddr = le_word (slice bs 8 8)\<rparr>"

lemma length_memaddr_bytes [simp, layout_simps]: "length (memaddr_bytes a) = 16"
  by (simp add: memaddr_bytes_def)

lemma bytes_memaddr_bytes [simp]: "bytes_memaddr (memaddr_bytes a) = a"
  by (simp add: bytes_memaddr_def memaddr_bytes_def slice_def)

lemma memaddr_bytes_memaddr [simp]:
  assumes "length bs = 16"
  shows "memaddr_bytes (bytes_memaddr bs) = bs"
proof -
  have "bs = slice bs 0 2 @ slice bs 2 2 @ slice bs 4 4 @ slice bs 8 8"
    using assms slice_append [of bs 4 4 8] slice_append [of bs 2 2 12] slice_append [of bs 0 2 14]
    by (simp add: slice_all flip: numeral_2_eq_2)
  then show ?thesis
    using assms by (simp add: memaddr_bytes_def bytes_memaddr_def)
qed

end
