(* ===== verification/BB_Server.thy ===== *)
theory BB_Server
  imports BB_Types
begin

text \<open>
  The memory server of \<^verbatim>\<open>ip6/lib/server_lib.c\<close> (the \<^verbatim>\<open>DEFAULT\<close> build): the C heap it hands
  out and one definition per handler, up to the dispatch in \<^verbatim>\<open>process_request\<close>. A handler
  takes the requester (\<^verbatim>\<open>target_ip\<close>), the address in the request (\<^verbatim>\<open>r_addr\<close>) and the received
  payload, and gives the new heap, the requester with the fields the handler overwrote, and
  the replies sent, or the fault that kills the process.
\<close>

section \<open>The heap behind calloc and free\<close>

text \<open>
  \<open>hmem\<close> is the memory of the live blocks and \<open>hblocks\<close> the size of each live block. Where a
  new block is placed is not determined by the C standard: the model takes the choice as a
  function \<open>pick\<close>, and \<^verbatim>\<open>calloc\<close> returns \<^verbatim>\<open>NULL\<close> when the choice is not a free region, so that
  no assumption on \<open>pick\<close> is needed.
\<close>

record heap =
  hmem :: mem
  hblocks :: "u64 \<rightharpoonup> nat"

type_synonym placement = "heap \<Rightarrow> nat \<Rightarrow> u64"

definition empty_heap :: heap where
  "empty_heap = \<lparr>hmem = (\<lambda>_. None), hblocks = (\<lambda>_. None)\<rparr>"

definition region_free :: "heap \<Rightarrow> u64 \<Rightarrow> nat \<Rightarrow> bool" where
  "region_free h a n \<longleftrightarrow> a \<noteq> 0 \<and> unat a + n \<le> 2 ^ 64 \<and> (\<forall>i<n. hmem h (a + of_nat i) = None)"

definition calloc :: "placement \<Rightarrow> heap \<Rightarrow> nat \<Rightarrow> u64 \<times> heap" where
  "calloc pick h n =
     (let a = pick h n in
      if 0 < n \<and> region_free h a n
      then (a, \<lparr>hmem = (\<lambda>x. if in_range a n x then Some 0 else hmem h x),
                hblocks = (hblocks h)(a \<mapsto> n)\<rparr>)
      else (0, h))"

definition cfree :: "heap \<Rightarrow> u64 \<Rightarrow> heap res" where
  "cfree h p =
     (if p = 0 then Inr h
      else case hblocks h p of
        None \<Rightarrow> Inl Abort
      | Some n \<Rightarrow> Inr \<lparr>hmem = (\<lambda>x. if in_range p n x then None else hmem h x),
                       hblocks = (hblocks h)(p := None)\<rparr>)"

definition memcpy_in :: "heap \<Rightarrow> u64 \<Rightarrow> bytes \<Rightarrow> nat \<Rightarrow> heap res" where
  "memcpy_in h dst buf n =
     (if length buf < n then Inl Segv
      else bindE (guardE Segv (store (hmem h) dst (take n buf))) (\<lambda>m. Inr (h\<lparr>hmem := m\<rparr>)))"

section \<open>The request handlers\<close>

text \<open>
  The reply of a handler goes through \<^verbatim>\<open>send_udp_raw\<close> of \<^verbatim>\<open>network.c\<close>, which wraps its
  arguments in a packet request for the backend.
\<close>

definition send_udp_raw :: "bytes \<Rightarrow> ip6_memaddr \<Rightarrow> u16 \<Rightarrow> pkt_rqst" where
  "send_udp_raw tx_buf remote_addr port = \<lparr>dst_addr = remote_addr, dst_port = port, data = tx_buf\<rparr>"

type_synonym served = "heap \<times> sockaddr_in6 \<times> pkt_rqst list"

definition reply :: "heap \<Rightarrow> sockaddr_in6 \<Rightarrow> bytes \<Rightarrow> served res" where
  "reply h tgt bs = Inr (h, tgt, [send_udp_raw bs (sin6_addr tgt) (sin6_port tgt)])"

definition set_return_id :: "sockaddr_in6 \<Rightarrow> u16 \<Rightarrow> u64 \<Rightarrow> sockaddr_in6" where
  "set_return_id tgt c p = tgt\<lparr>sin6_addr := (sin6_addr tgt)\<lparr>cmd := c, paddr := p\<rparr>\<rparr>"

definition allocate_mem :: "placement \<Rightarrow> heap \<Rightarrow> sockaddr_in6 \<Rightarrow> served res" where
  "allocate_mem pick h tgt =
     (let (allocated, h') = calloc pick h BLOCK_SIZE
      in reply h' (set_return_id tgt ALLOC_CMD allocated) [])"

definition allocate_mem_bulk :: "placement \<Rightarrow> heap \<Rightarrow> sockaddr_in6 \<Rightarrow> u64 \<Rightarrow> served res" where
  "allocate_mem_bulk pick h tgt size0 =
     (let msize = (if size0 = 0 then 1 else size0);
          (allocated, h') = calloc pick h (unat msize)
      in reply h' (set_return_id tgt ALLOC_BULK_CMD allocated) [])"

definition read_mem :: "heap \<Rightarrow> sockaddr_in6 \<Rightarrow> ip6_memaddr \<Rightarrow> served res" where
  "read_mem h tgt r_addr =
     (let tgt' = set_return_id tgt (cmd r_addr) (paddr r_addr);
          len = ucast (args r_addr) :: u16
      in bindE (guardE Segv (load (hmem h) (paddr r_addr) (unat len)))
           (\<lambda>bs. reply h tgt' bs))"

definition read_mem_ptr :: "heap \<Rightarrow> bytes \<Rightarrow> sockaddr_in6 \<Rightarrow> ip6_memaddr \<Rightarrow> served res" where
  "read_mem_ptr h rcv_buffer tgt r_addr =
     (if length rcv_buffer < POINTER_SIZE then Inl Segv
      else let tgt' = set_return_id tgt (cmd r_addr) (le_word (take POINTER_SIZE rcv_buffer));
               len = ucast (args r_addr) :: u16
           in bindE (guardE Segv (load (hmem h) (paddr r_addr) (unat len)))
                (\<lambda>bs. reply h tgt' bs))"

definition write_mem :: "heap \<Rightarrow> bytes \<Rightarrow> sockaddr_in6 \<Rightarrow> ip6_memaddr \<Rightarrow> u16 \<Rightarrow> served res" where
  "write_mem h rcv_buffer tgt r_addr msize =
     bindE (memcpy_in h (paddr r_addr) rcv_buffer (unat msize))
       (\<lambda>h'. reply h' (set_return_id tgt (cmd r_addr) (paddr r_addr)) [])"

definition batch_complete :: "u32 \<Rightarrow> bool" where
  "batch_complete a \<longleftrightarrow> a AND 0x0000ffff = drop_bit 16 (a AND 0xffff0000)"

definition write_mem_bulk :: "heap \<Rightarrow> bytes \<Rightarrow> sockaddr_in6 \<Rightarrow> ip6_memaddr \<Rightarrow> u16 \<Rightarrow> served res" where
  "write_mem_bulk h rcv_buffer tgt r_addr msize =
     bindE (memcpy_in h (paddr r_addr) rcv_buffer (unat msize))
       (\<lambda>h'. if batch_complete (args r_addr)
             then reply h' (set_return_id tgt (cmd r_addr) (paddr r_addr)) []
             else Inr (h', tgt, []))"

definition free_mem :: "heap \<Rightarrow> sockaddr_in6 \<Rightarrow> ip6_memaddr \<Rightarrow> served res" where
  "free_mem h tgt r_addr =
     bindE (cfree h (paddr r_addr))
       (\<lambda>h'. reply h' (set_return_id tgt (cmd r_addr) (paddr r_addr)) [])"

definition trim_mem :: "heap \<Rightarrow> sockaddr_in6 \<Rightarrow> ip6_memaddr \<Rightarrow> u64 \<Rightarrow> served res" where
  "trim_mem h tgt r_addr msize =
     bindE (guardE Segv (store (hmem h) (paddr r_addr) (replicate (unat msize) 0)))
       (\<lambda>m. reply (h\<lparr>hmem := m\<rparr>) (set_return_id tgt (cmd r_addr) (paddr r_addr)) [])"

text \<open>The eight byte operand that bulk allocation and trimming read from the payload.\<close>

definition payload_u64 :: "bytes \<Rightarrow> u64 res" where
  "payload_u64 buf = (if length buf < 8 then Inl Segv else Inr (le_word (take 8 buf)))"

definition process_request ::
  "placement \<Rightarrow> sockaddr_in6 \<Rightarrow> ip6_memaddr \<Rightarrow> bytes \<Rightarrow> u16 \<Rightarrow> heap \<Rightarrow> served res" where
  "process_request pick tgt remote_addr rcv_buffer msize h =
     (if cmd remote_addr = WRITE_CMD then write_mem h rcv_buffer tgt remote_addr msize
      else if cmd remote_addr = WRITE_BULK_CMD then write_mem_bulk h rcv_buffer tgt remote_addr msize
      else if cmd remote_addr = READ_CMD then read_mem h tgt remote_addr
      else if cmd remote_addr = READ_BULK_CMD then read_mem_ptr h rcv_buffer tgt remote_addr
      else if cmd remote_addr = FREE_CMD then free_mem h tgt remote_addr
      else if cmd remote_addr = ALLOC_CMD then allocate_mem pick h tgt
      else if cmd remote_addr = ALLOC_BULK_CMD
      then bindE (payload_u64 rcv_buffer) (allocate_mem_bulk pick h tgt)
      else if cmd remote_addr = TRIM_CMD
      then bindE (payload_u64 rcv_buffer) (trim_mem h tgt remote_addr)
      else Inr (h, tgt, []))"

text \<open>
  The receive loop handles one request after another; \<open>serve\<close> is the loop over the requests
  received so far, with the replies it sent.
\<close>

type_synonym request = "sockaddr_in6 \<times> ip6_memaddr \<times> bytes \<times> u16"

fun serve :: "placement \<Rightarrow> request list \<Rightarrow> heap \<Rightarrow> (heap \<times> pkt_rqst list) res" where
  "serve pick [] h = Inr (h, [])"
| "serve pick ((tgt, r, buf, sz) # rs) h =
     bindE (process_request pick tgt r buf sz h)
       (\<lambda>(h', tgt', ps). bindE (serve pick rs h') (\<lambda>(h'', qs). Inr (h'', ps @ qs)))"

section \<open>What the properties speak of\<close>

text \<open>Well formed heaps, and the four ways a handler can move the heap.\<close>

definition heap_ok :: "heap \<Rightarrow> bool" where
  "heap_ok h \<longleftrightarrow>
     (\<forall>a n. hblocks h a = Some n \<longrightarrow> 0 < n \<and> a \<noteq> 0 \<and> unat a + n \<le> 2 ^ 64) \<and>
     (\<forall>a n b k x. hblocks h a = Some n \<longrightarrow> hblocks h b = Some k \<longrightarrow>
        in_range a n x \<longrightarrow> in_range b k x \<longrightarrow> a = b) \<and>
     (\<forall>x. hmem h x \<noteq> None \<longleftrightarrow> (\<exists>a n. hblocks h a = Some n \<and> in_range a n x))"

inductive heap_step :: "heap \<Rightarrow> heap \<Rightarrow> bool" where
  step_skip: "heap_step h h"
| step_alloc: "0 < n \<Longrightarrow> region_free h a n \<Longrightarrow>
    heap_step h \<lparr>hmem = (\<lambda>x. if in_range a n x then Some 0 else hmem h x),
                 hblocks = (hblocks h)(a \<mapsto> n)\<rparr>"
| step_free: "p \<noteq> 0 \<Longrightarrow> hblocks h p = Some n \<Longrightarrow>
    heap_step h \<lparr>hmem = (\<lambda>x. if in_range p n x then None else hmem h x),
                 hblocks = (hblocks h)(p := None)\<rparr>"
| step_fill: "length bs \<le> 2 ^ 64 \<Longrightarrow> mapped (hmem h) a (length bs) \<Longrightarrow>
    heap_step h (h\<lparr>hmem := overwrite (hmem h) a bs\<rparr>)"

text \<open>The addresses whose contents a request may change.\<close>

definition touches :: "ip6_memaddr \<Rightarrow> bytes \<Rightarrow> u16 \<Rightarrow> heap \<Rightarrow> u64 \<Rightarrow> bool" where
  "touches r buf sz h x \<longleftrightarrow>
     (cmd r = WRITE_CMD \<or> cmd r = WRITE_BULK_CMD) \<and> in_range (paddr r) (unat sz) x \<or>
     cmd r = TRIM_CMD \<and> in_range (paddr r) (unat (le_word (take 8 buf) :: u64)) x \<or>
     cmd r = FREE_CMD \<and>
       (case hblocks h (paddr r) of None \<Rightarrow> False | Some n \<Rightarrow> in_range (paddr r) n x)"

text \<open>No request of the session changes the byte at \<open>x\<close>.\<close>

fun leaves_alone :: "placement \<Rightarrow> request list \<Rightarrow> heap \<Rightarrow> u64 \<Rightarrow> bool" where
  "leaves_alone pick [] h x \<longleftrightarrow> True"
| "leaves_alone pick ((tgt, r, buf, sz) # rs) h x \<longleftrightarrow>
     \<not> touches r buf sz h x \<and>
     (case process_request pick tgt r buf sz h of
        Inl e \<Rightarrow> True
      | Inr (h', tgt', ps) \<Rightarrow> leaves_alone pick rs h' x)"

section \<open>Heap lemmas\<close>

lemma heap_okD:
  assumes "heap_ok h"
  shows heap_ok_block: "hblocks h a = Some n \<Longrightarrow> 0 < n \<and> a \<noteq> 0 \<and> unat a + n \<le> 2 ^ 64"
    and heap_ok_disj: "hblocks h a = Some n \<Longrightarrow> hblocks h b = Some k \<Longrightarrow>
          in_range a n x \<Longrightarrow> in_range b k x \<Longrightarrow> a = b"
    and heap_ok_dom: "hmem h x \<noteq> None \<longleftrightarrow> (\<exists>a n. hblocks h a = Some n \<and> in_range a n x)"
  using assms unfolding heap_ok_def by blast+

lemma heap_okI:
  assumes "\<And>a n. hblocks h a = Some n \<Longrightarrow> 0 < n \<and> a \<noteq> 0 \<and> unat a + n \<le> 2 ^ 64"
    and "\<And>a n b k x. hblocks h a = Some n \<Longrightarrow> hblocks h b = Some k \<Longrightarrow>
          in_range a n x \<Longrightarrow> in_range b k x \<Longrightarrow> a = b"
    and "\<And>x. hmem h x \<noteq> None \<longleftrightarrow> (\<exists>a n. hblocks h a = Some n \<and> in_range a n x)"
  shows "heap_ok h"
  using assms unfolding heap_ok_def by blast

lemma empty_heap_ok: "heap_ok empty_heap"
  by (simp add: heap_ok_def empty_heap_def)

lemma region_free_in_range: "region_free h a n \<Longrightarrow> in_range a n x \<Longrightarrow> hmem h x = None"
  by (auto simp: region_free_def in_range_iff)

lemma in_range_first: "0 < n \<Longrightarrow> in_range a n a"
  by (simp add: in_range_def)

lemma heap_ok_fresh:
  assumes ok: "heap_ok h" and n: "0 < n" and free: "region_free h a n"
  shows "hblocks h a = None"
proof (rule ccontr)
  assume "hblocks h a \<noteq> None"
  then obtain k where k: "hblocks h a = Some k" by auto
  then have "in_range a k a" using heap_ok_block [OF ok] in_range_first by blast
  with k have "hmem h a \<noteq> None" using heap_ok_dom [OF ok] by blast
  with region_free_in_range [OF free in_range_first [OF n]] show False by simp
qed

lemma heap_ok_alloc:
  assumes ok: "heap_ok h" and n: "0 < n" and free: "region_free h a n"
  shows "heap_ok \<lparr>hmem = (\<lambda>x. if in_range a n x then Some 0 else hmem h x),
                  hblocks = (hblocks h)(a \<mapsto> n)\<rparr>" (is "heap_ok ?h")
proof (rule heap_okI)
  have new: "\<not> in_range a n x" if "hblocks h b = Some k" "in_range b k x" for b k x
    using region_free_in_range [OF free, of x] heap_ok_dom [OF ok, of x] that by blast
  note fresh = heap_ok_fresh [OF assms]
  show "0 < k \<and> b \<noteq> 0 \<and> unat b + k \<le> 2 ^ 64" if "hblocks ?h b = Some k" for b k
    using that n free heap_ok_block [OF ok, of b k]
    by (auto simp: region_free_def split: if_splits)
  show "b = c" if "hblocks ?h b = Some k" "hblocks ?h c = Some l" "in_range b k x" "in_range c l x"
    for b k c l x
    using that new heap_ok_disj [OF ok, of b k c l x] by (auto split: if_splits)
  show "hmem ?h x \<noteq> None \<longleftrightarrow> (\<exists>b k. hblocks ?h b = Some k \<and> in_range b k x)" for x
  proof (cases "in_range a n x")
    case True
    then show ?thesis by auto
  next
    case False
    then have "(\<exists>b k. hblocks ?h b = Some k \<and> in_range b k x) \<longleftrightarrow>
        (\<exists>b k. hblocks h b = Some k \<and> in_range b k x)"
      using fresh by (metis fun_upd_apply heap.select_convs(2) option.distinct(1) option.sel)
    with False show ?thesis using heap_ok_dom [OF ok, of x] by simp
  qed
qed

lemma heap_ok_free:
  assumes ok: "heap_ok h" and p: "hblocks h p = Some n"
  shows "heap_ok \<lparr>hmem = (\<lambda>x. if in_range p n x then None else hmem h x),
                  hblocks = (hblocks h)(p := None)\<rparr>" (is "heap_ok ?h")
proof (rule heap_okI)
  show "0 < k \<and> b \<noteq> 0 \<and> unat b + k \<le> 2 ^ 64" if "hblocks ?h b = Some k" for b k
    using that heap_ok_block [OF ok, of b k] by (auto split: if_splits)
  show "b = c" if "hblocks ?h b = Some k" "hblocks ?h c = Some l" "in_range b k x" "in_range c l x"
    for b k c l x
    using that heap_ok_disj [OF ok, of b k c l x] by (auto split: if_splits)
  show "hmem ?h x \<noteq> None \<longleftrightarrow> (\<exists>b k. hblocks ?h b = Some k \<and> in_range b k x)" for x
  proof (cases "in_range p n x")
    case True
    then show ?thesis using heap_ok_disj [OF ok p] by auto
  next
    case False
    then have "(\<exists>b k. hblocks ?h b = Some k \<and> in_range b k x) \<longleftrightarrow>
        (\<exists>b k. hblocks h b = Some k \<and> in_range b k x)"
      using p by (metis fun_upd_apply heap.select_convs(2) option.distinct(1) option.sel)
    with False show ?thesis using heap_ok_dom [OF ok, of x] by simp
  qed
qed

lemma overwrite_None_iff:
  "length bs \<le> 2 ^ 64 \<Longrightarrow> mapped m a (length bs) \<Longrightarrow> overwrite m a bs x = None \<longleftrightarrow> m x = None"
  using mapped_in_range [of m a "length bs" x] by (auto simp: overwrite_def)

lemma heap_step_ok: "heap_step h h' \<Longrightarrow> heap_ok h \<Longrightarrow> heap_ok h'"
proof (induction rule: heap_step.induct)
  case (step_fill bs h a)
  have "\<And>x. hmem (h\<lparr>hmem := overwrite (hmem h) a bs\<rparr>) x = None \<longleftrightarrow> hmem h x = None"
    using step_fill by (simp add: overwrite_None_iff)
  then show ?case
    using step_fill.prems by (simp add: heap_ok_def)
qed (auto intro: heap_ok_alloc heap_ok_free)

text \<open>Every handler moves the heap by one such step.\<close>

lemma calloc_step: "calloc pick h n = (a, h') \<Longrightarrow> heap_step h h'"
  by (auto simp: calloc_def Let_def intro: heap_step.intros split: if_splits)

lemma cfree_step: "cfree h p = Inr h' \<Longrightarrow> heap_step h h'"
  by (auto simp: cfree_def intro: heap_step.intros split: if_splits option.splits)

lemma unat_u16_small: "unat (w :: u16) < 2 ^ 16"
  using unsigned_less [of w] by simp

lemma memcpy_in_eq:
  "n \<le> 2 ^ 64 \<Longrightarrow> memcpy_in h dst buf n = Inr h' \<longleftrightarrow>
     n \<le> length buf \<and> mapped (hmem h) dst n \<and>
     h' = h\<lparr>hmem := overwrite (hmem h) dst (take n buf)\<rparr>"
  by (auto simp: memcpy_in_def store_eq_Some min_def)

lemma memcpy_in_step: "memcpy_in h dst buf (unat (sz :: u16)) = Inr h' \<Longrightarrow> heap_step h h'"
  using unat_u16_small [of sz] step_fill [of "take (unat sz) buf" h dst]
  by (auto simp: memcpy_in_eq min_def)

lemma trim_step:
  "store (hmem h) a (replicate (unat (n :: u64)) 0) = Some m \<Longrightarrow> heap_step h (h\<lparr>hmem := m\<rparr>)"
  using step_fill [of "replicate (unat n) 0" h a] unat_u64_lt [of n] by (simp add: store_eq_Some)

lemmas handler_defs = write_mem_def write_mem_bulk_def read_mem_def read_mem_ptr_def
  free_mem_def allocate_mem_def allocate_mem_bulk_def trim_mem_def

lemma calloc_frame: "calloc pick h n = (a, h') \<Longrightarrow> hmem h x \<noteq> None \<Longrightarrow> hmem h' x = hmem h x"
  using region_free_in_range [of h "pick h n" n x]
  by (auto simp: calloc_def Let_def split: if_splits)

lemma memcpy_in_frame:
  "memcpy_in h dst buf (unat (sz :: u16)) = Inr h' \<Longrightarrow> \<not> in_range dst (unat sz) x \<Longrightarrow>
     hmem h' x = hmem h x"
  using unat_u16_small [of sz] by (auto simp: memcpy_in_eq overwrite_def min_def)

lemma trim_frame:
  "store m a (replicate (unat (n :: u64)) 0) = Some m' \<Longrightarrow> \<not> in_range a (unat n) x \<Longrightarrow> m' x = m x"
  using unat_u64_lt [of n] by (simp add: store_eq_Some overwrite_def)

lemma payload_u64_eq [simp]:
  "payload_u64 buf = Inr n \<longleftrightarrow> 8 \<le> length buf \<and> n = le_word (take 8 buf)"
  by (auto simp: payload_u64_def)

lemma cmds_distinct [simp]:
  "WRITE_CMD \<noteq> WRITE_BULK_CMD" "WRITE_CMD \<noteq> READ_CMD" "WRITE_CMD \<noteq> READ_BULK_CMD"
  "WRITE_CMD \<noteq> FREE_CMD" "WRITE_CMD \<noteq> ALLOC_CMD" "WRITE_CMD \<noteq> ALLOC_BULK_CMD"
  "WRITE_CMD \<noteq> TRIM_CMD" "WRITE_BULK_CMD \<noteq> READ_CMD" "WRITE_BULK_CMD \<noteq> READ_BULK_CMD"
  "WRITE_BULK_CMD \<noteq> FREE_CMD" "WRITE_BULK_CMD \<noteq> ALLOC_CMD" "WRITE_BULK_CMD \<noteq> ALLOC_BULK_CMD"
  "WRITE_BULK_CMD \<noteq> TRIM_CMD" "READ_CMD \<noteq> READ_BULK_CMD" "READ_CMD \<noteq> FREE_CMD"
  "READ_CMD \<noteq> ALLOC_CMD" "READ_CMD \<noteq> ALLOC_BULK_CMD" "READ_CMD \<noteq> TRIM_CMD"
  "READ_BULK_CMD \<noteq> FREE_CMD" "READ_BULK_CMD \<noteq> ALLOC_CMD" "READ_BULK_CMD \<noteq> ALLOC_BULK_CMD"
  "READ_BULK_CMD \<noteq> TRIM_CMD" "FREE_CMD \<noteq> ALLOC_CMD" "FREE_CMD \<noteq> ALLOC_BULK_CMD"
  "FREE_CMD \<noteq> TRIM_CMD" "ALLOC_CMD \<noteq> ALLOC_BULK_CMD" "ALLOC_CMD \<noteq> TRIM_CMD"
  "ALLOC_BULK_CMD \<noteq> TRIM_CMD"
  by (simp_all add: cmd_defs)

lemmas cmds_distinct_sym [simp] = cmds_distinct [symmetric]

lemma process_request_cmd:
  "cmd r = WRITE_CMD \<Longrightarrow> process_request pick tgt r buf sz h = write_mem h buf tgt r sz"
  "cmd r = WRITE_BULK_CMD \<Longrightarrow> process_request pick tgt r buf sz h = write_mem_bulk h buf tgt r sz"
  "cmd r = READ_CMD \<Longrightarrow> process_request pick tgt r buf sz h = read_mem h tgt r"
  "cmd r = READ_BULK_CMD \<Longrightarrow> process_request pick tgt r buf sz h = read_mem_ptr h buf tgt r"
  "cmd r = FREE_CMD \<Longrightarrow> process_request pick tgt r buf sz h = free_mem h tgt r"
  "cmd r = ALLOC_CMD \<Longrightarrow> process_request pick tgt r buf sz h = allocate_mem pick h tgt"
  "cmd r = ALLOC_BULK_CMD \<Longrightarrow> process_request pick tgt r buf sz h =
     bindE (payload_u64 buf) (allocate_mem_bulk pick h tgt)"
  "cmd r = TRIM_CMD \<Longrightarrow> process_request pick tgt r buf sz h =
     bindE (payload_u64 buf) (trim_mem h tgt r)"
  by (simp_all add: process_request_def)

lemma cmd_cases:
  obtains "c = WRITE_CMD" | "c = WRITE_BULK_CMD" | "c = READ_CMD" | "c = READ_BULK_CMD"
  | "c = FREE_CMD" | "c = ALLOC_CMD" | "c = ALLOC_BULK_CMD" | "c = TRIM_CMD"
  | "c \<notin> {WRITE_CMD, WRITE_BULK_CMD, READ_CMD, READ_BULK_CMD, FREE_CMD, ALLOC_CMD, ALLOC_BULK_CMD, TRIM_CMD}"
  by blast

lemma process_request_unknown:
  "cmd r \<notin> {WRITE_CMD, WRITE_BULK_CMD, READ_CMD, READ_BULK_CMD, FREE_CMD, ALLOC_CMD, ALLOC_BULK_CMD,
     TRIM_CMD} \<Longrightarrow> process_request pick tgt r buf sz h = Inr (h, tgt, [])"
  by (simp add: process_request_def)

lemma reply_eq [simp]:
  "reply h tgt bs = Inr (h', tgt', ps) \<longleftrightarrow>
     h' = h \<and> tgt' = tgt \<and> ps = [\<lparr>dst_addr = sin6_addr tgt, dst_port = sin6_port tgt, data = bs\<rparr>]"
  by (auto simp: reply_def send_udp_raw_def)

lemma set_return_id_simps [simp]:
  "sin6_addr (set_return_id tgt c p) = (sin6_addr tgt)\<lparr>cmd := c, paddr := p\<rparr>"
  "sin6_port (set_return_id tgt c p) = sin6_port tgt"
  by (simp_all add: set_return_id_def)

lemma process_request_step:
  assumes "process_request pick tgt r buf sz h = Inr (h', tgt', ps)"
  shows "heap_step h h'"
  using assms
  by (cases "cmd r" rule: cmd_cases)
    (auto simp: process_request_cmd process_request_unknown handler_defs Let_def
      intro: step_skip calloc_step cfree_step memcpy_in_step trim_step
      split: if_splits prod.splits)

lemma process_request_frame:
  assumes "process_request pick tgt r buf sz h = Inr (h', tgt', ps)"
    and "hmem h x \<noteq> None" "\<not> touches r buf sz h x"
  shows "hmem h' x = hmem h x"
  using assms
  by (cases "cmd r" rule: cmd_cases)
    (auto simp: process_request_cmd process_request_unknown handler_defs Let_def touches_def cfree_def
      dest: calloc_frame memcpy_in_frame trim_frame
      split: if_splits prod.splits option.splits)

lemma serve_ok: "serve pick rs h = Inr (h', ps) \<Longrightarrow> heap_ok h \<Longrightarrow> heap_ok h'"
  by (induction pick rs h arbitrary: ps rule: serve.induct)
    (auto dest!: process_request_step dest: heap_step_ok)

lemma serve_frame:
  "serve pick rs h = Inr (h', ps) \<Longrightarrow> leaves_alone pick rs h x \<Longrightarrow> hmem h x \<noteq> None \<Longrightarrow>
     hmem h' x = hmem h x"
proof (induction pick rs h arbitrary: ps rule: serve.induct)
  case (2 pick tgt r buf sz rs h)
  then obtain h1 t1 p1 p2 where step: "process_request pick tgt r buf sz h = Inr (h1, t1, p1)"
    and rest: "serve pick rs h1 = Inr (h', p2)"
    by auto
  have "hmem h1 x = hmem h x"
    using process_request_frame [OF step] "2.prems" by simp
  with "2.IH" [OF rest] "2.prems" step show ?case by simp
qed simp

lemma serve_load:
  assumes "serve pick rs h = Inr (h', ps)" "load (hmem h) a n = Some bs"
    and "\<And>i. i < n \<Longrightarrow> leaves_alone pick rs h (a + of_nat i)"
  shows "load (hmem h') a n = Some bs"
proof -
  have "load (hmem h') a n = load (hmem h) a n"
    using assms by (intro load_cong serve_frame [OF assms(1)]) (auto simp: load_eq_Some mapped_def)
  with assms(2) show ?thesis by simp
qed

lemma memcpy_in_load:
  assumes "memcpy_in h dst buf (unat (sz :: u16)) = Inr h'"
  shows "load (hmem h') dst (unat sz) = Some (take (unat sz) buf)"
proof -
  have le: "unat sz \<le> 2 ^ 64" using unat_u16_small [of sz] by simp
  then have "length (take (unat sz) buf) = unat sz" "mapped (hmem h) dst (unat sz)"
    "hmem h' = overwrite (hmem h) dst (take (unat sz) buf)"
    using assms by (simp_all add: memcpy_in_eq)
  then show ?thesis
    using le load_overwrite_same [of "hmem h" dst "take (unat sz) buf"] by simp
qed

lemma calloc_fresh:
  assumes "heap_ok h" "calloc pick h n = (p, h')"
  shows "p = 0 \<and> h' = h \<or>
    p \<noteq> 0 \<and> hblocks h p = None \<and> hblocks h' p = Some n \<and>
    load (hmem h') p n = Some (replicate n 0) \<and> (\<forall>i<n. hmem h (p + of_nat i) = None)"
proof (cases "0 < n \<and> region_free h (pick h n) n")
  case True
  then have p: "p = pick h n" and n: "n \<le> 2 ^ 64" and free: "region_free h p n" "p \<noteq> 0"
    and h': "h' = \<lparr>hmem = (\<lambda>x. if in_range p n x then Some 0 else hmem h x),
                  hblocks = (hblocks h)(p \<mapsto> n)\<rparr>"
    using assms(2) by (auto simp: calloc_def Let_def region_free_def)
  have "load (hmem h') p n = Some (replicate n 0)"
  proof -
    have "map (\<lambda>i. the (hmem h' (p + of_nat i))) [0..<n] = map (\<lambda>i. 0) [0..<n]"
      using n by (intro map_cong) (simp_all add: h')
    moreover have "mapped (hmem h') p n"
      using n by (simp add: mapped_def h')
    ultimately show ?thesis by (simp add: load_eq_Some map_replicate_const)
  qed
  moreover have "hblocks h p = None"
    using heap_ok_fresh [OF assms(1)] True free(1) by blast
  ultimately show ?thesis using free by (simp add: h' region_free_def)
next
  case False
  then show ?thesis using assms(2) by (auto simp: calloc_def Let_def)
qed

lemma batch_complete_iff: "batch_complete a \<longleftrightarrow> (ucast a :: u16) = ucast (drop_bit 16 a)"
proof -
  have "(0xffff :: u32) = mask 16" "drop_bit 16 (0xffff0000 :: u32) = mask 16"
    by (simp_all add: mask_eq_exp_minus_1 drop_bit_eq_div)
  then have "batch_complete a \<longleftrightarrow> take_bit 16 a = take_bit 16 (drop_bit 16 a)"
    by (simp only: batch_complete_def drop_bit_and take_bit_eq_mask)
  then show ?thesis
    by (simp add: ucast_u32_eq_iff)
qed

section \<open>Sample requests\<close>

text \<open>One client, one server whose allocator always proposes the same address, two bytes live.\<close>

definition sample_place :: placement where
  "sample_place h n = 0x1000"

definition sample_client :: sockaddr_in6 where
  "sample_client = \<lparr>sin6_addr = \<lparr>subid = 2, cmd = 0, args = 0, paddr = 0\<rparr>, sin6_port = 5\<rparr>"

definition sample_addr :: "u16 \<Rightarrow> u32 \<Rightarrow> ip6_memaddr" where
  "sample_addr c n = \<lparr>subid = 1, cmd = c, args = n, paddr = 0x1000\<rparr>"

definition sample_alloc :: request where
  "sample_alloc = (sample_client, sample_addr ALLOC_BULK_CMD 0, [2, 0, 0, 0, 0, 0, 0, 0], 8)"

definition sample_write :: request where
  "sample_write = (sample_client, sample_addr WRITE_CMD 0, [7, 9], 2)"

definition sample_heap :: heap where
  "sample_heap = \<lparr>hmem = (\<lambda>x. if in_range 0x1000 2 x then Some 0 else None),
                  hblocks = (\<lambda>_. None)(0x1000 \<mapsto> 2)\<rparr>"

lemmas sample_defs = sample_place_def sample_client_def sample_addr_def sample_alloc_def
  sample_write_def sample_heap_def

lemma sample_addr_simps [simp]:
  "cmd (sample_addr c n) = c" "args (sample_addr c n) = n" "paddr (sample_addr c n) = 0x1000"
  by (simp_all add: sample_addr_def)

lemma sample_heap_ok: "heap_ok sample_heap"
  by (rule heap_okI) (auto simp: sample_heap_def split: if_splits)

lemma sample_run_alloc:
  "process_request sample_place sample_client (sample_addr ALLOC_BULK_CMD 0) [2, 0, 0, 0, 0, 0, 0, 0] 8
     empty_heap =
   Inr (sample_heap, set_return_id sample_client ALLOC_BULK_CMD 0x1000,
     [\<lparr>dst_addr = (sin6_addr sample_client)\<lparr>cmd := ALLOC_BULK_CMD, paddr := 0x1000\<rparr>,
       dst_port = 5, data = []\<rparr>])"
  by (simp add: sample_defs process_request_cmd handler_defs calloc_def empty_heap_def Let_def
      region_free_def in_range_def reply_def send_udp_raw_def payload_u64_def cong: if_cong)

lemma sample_run_full:
  "process_request sample_place sample_client (sample_addr ALLOC_BULK_CMD 0) [2, 0, 0, 0, 0, 0, 0, 0] 8
     (sample_heap\<lparr>hmem := overwrite (hmem sample_heap) 0x1000 [7, 9]\<rparr>) =
   Inr (sample_heap\<lparr>hmem := overwrite (hmem sample_heap) 0x1000 [7, 9]\<rparr>,
     set_return_id sample_client ALLOC_BULK_CMD 0,
     [\<lparr>dst_addr = (sin6_addr sample_client)\<lparr>cmd := ALLOC_BULK_CMD, paddr := 0\<rparr>,
       dst_port = 5, data = []\<rparr>])"
proof -
  have "\<not> region_free (sample_heap\<lparr>hmem := overwrite (hmem sample_heap) 0x1000 [7, 9]\<rparr>) 0x1000 2"
    by (auto simp: region_free_def overwrite_def in_range_def intro!: exI [of _ 0])
  then show ?thesis
    by (simp add: sample_place_def sample_client_def sample_addr_def process_request_cmd handler_defs
        calloc_def Let_def reply_def send_udp_raw_def payload_u64_def)
qed

lemma sample_run_write:
  "process_request sample_place sample_client (sample_addr WRITE_CMD 0) [7, 9] 2 sample_heap =
   Inr (sample_heap\<lparr>hmem := overwrite (hmem sample_heap) 0x1000 [7, 9]\<rparr>,
     set_return_id sample_client WRITE_CMD 0x1000,
     [\<lparr>dst_addr = (sin6_addr sample_client)\<lparr>cmd := WRITE_CMD, paddr := 0x1000\<rparr>,
       dst_port = 5, data = []\<rparr>])"
proof -
  have "mapped (hmem sample_heap) 0x1000 2"
    by (simp add: mapped_def sample_heap_def in_range_def All_less_Suc numeral_2_eq_2)
  then have "store (hmem sample_heap) 0x1000 [7, 9] = Some (overwrite (hmem sample_heap) 0x1000 [7, 9])"
    using store_mapped [of "[7, 9]" "hmem sample_heap" "0x1000"]
    by (simp del: store.simps flip: numeral_2_eq_2)
  then show ?thesis
    by (simp add: sample_client_def sample_addr_def process_request_cmd write_mem_def memcpy_in_def
        reply_def send_udp_raw_def del: store.simps)
qed

lemma sample_run_free:
  "process_request sample_place sample_client (sample_addr FREE_CMD 0) [] 0 sample_heap =
   Inr (empty_heap, set_return_id sample_client FREE_CMD 0x1000,
     [\<lparr>dst_addr = (sin6_addr sample_client)\<lparr>cmd := FREE_CMD, paddr := 0x1000\<rparr>,
       dst_port = 5, data = []\<rparr>])"
  by (simp add: sample_defs process_request_cmd free_mem_def cfree_def empty_heap_def
      reply_def send_udp_raw_def cong: if_cong)

section \<open>Properties of the server\<close>



text \<open>
  what a client writes stays: after a write request, and after any further requests that do
  not write, trim or free those bytes (allocations included), a read request of the same range
  is answered with exactly the bytes written, and reading changes nothing.
\<close>

theorem write_read_session:
  assumes "process_request pick t w buf sz h = Inr (h1, t1, p1)"
    and "cmd w = WRITE_CMD \<or> cmd w = WRITE_BULK_CMD"
    and "serve pick rs h1 = Inr (h2, p2)"
    and "\<And>i. i < unat sz \<Longrightarrow> leaves_alone pick rs h1 (paddr w + of_nat i)"
    and "cmd r = READ_CMD" "paddr r = paddr w" "args r = ucast sz"
  shows "process_request pick t' r buf' sz' h2 =
    Inr (h2, set_return_id t' READ_CMD (paddr w),
      [\<lparr>dst_addr = (sin6_addr t')\<lparr>cmd := READ_CMD, paddr := paddr w\<rparr>,
        dst_port = sin6_port t', data = take (unat sz) buf\<rparr>])"
proof -
  have "memcpy_in h (paddr w) buf (unat sz) = Inr h1"
    using assms(1,2) by (auto simp: process_request_cmd handler_defs split: if_splits)
  then have "load (hmem h1) (paddr w) (unat sz) = Some (take (unat sz) buf)"
    by (rule memcpy_in_load)
  then have "load (hmem h2) (paddr w) (unat sz) = Some (take (unat sz) buf)"
    using serve_load [OF assms(3)] assms(4) by blast
  then show ?thesis
    using assms(5-7)
    by (simp add: process_request_cmd read_mem_def Let_def)
qed

theorem write_read_session_witness:
  "process_request sample_place sample_client (sample_addr READ_CMD 2) [] 0
     (sample_heap\<lparr>hmem := overwrite (hmem sample_heap) 0x1000 [7, 9]\<rparr>) =
   Inr (sample_heap\<lparr>hmem := overwrite (hmem sample_heap) 0x1000 [7, 9]\<rparr>,
     set_return_id sample_client READ_CMD 0x1000,
     [\<lparr>dst_addr = (sin6_addr sample_client)\<lparr>cmd := READ_CMD, paddr := 0x1000\<rparr>,
       dst_port = sin6_port sample_client, data = [7, 9]\<rparr>])"
proof -
  let ?h = "sample_heap\<lparr>hmem := overwrite (hmem sample_heap) 0x1000 [7, 9]\<rparr>"
  have "\<exists>ps. serve sample_place [sample_alloc] ?h = Inr (?h, ps)"
    by (simp add: sample_alloc_def sample_run_full)
  moreover have "leaves_alone sample_place [sample_alloc] ?h (0x1000 + of_nat i)" for i
    by (simp add: sample_alloc_def sample_run_full touches_def)
  ultimately show ?thesis
    using write_read_session [OF sample_run_write, of "[sample_alloc]" ?h _ "sample_addr READ_CMD 2"
        sample_client "[]" 0]
    by auto
qed

text \<open>
  C15: isolation: a request changes no mapped byte outside the range its command targets.
\<close>

theorem request_isolation:
  assumes "process_request pick tgt r buf sz h = Inr (h', tgt', ps)"
    and "hmem h x = Some b" "\<not> touches r buf sz h x"
  shows "hmem h' x = Some b"
  using process_request_frame [OF assms(1) _ assms(3)] assms(2) by simp

theorem request_isolation_witness:
  "hmem (sample_heap\<lparr>hmem := overwrite (hmem sample_heap) 0x1000 [7]\<rparr>) 0x1001 = Some 0"
proof -
  have "mapped (hmem sample_heap) 0x1000 1"
    by (simp add: mapped_def sample_heap_def in_range_def)
  then have "process_request sample_place sample_client (sample_addr WRITE_CMD 0) [7, 9] 1 sample_heap =
      Inr (sample_heap\<lparr>hmem := overwrite (hmem sample_heap) 0x1000 [7]\<rparr>,
        set_return_id sample_client WRITE_CMD 0x1000,
        [\<lparr>dst_addr = (sin6_addr sample_client)\<lparr>cmd := WRITE_CMD, paddr := 0x1000\<rparr>,
          dst_port = 5, data = []\<rparr>])"
    by (simp add: sample_client_def sample_addr_def process_request_cmd write_mem_def memcpy_in_def
        store_mapped reply_def send_udp_raw_def del: store.simps)
  moreover have "hmem sample_heap 0x1001 = Some 0"
    by (simp add: sample_heap_def in_range_def)
  moreover have "\<not> touches (sample_addr WRITE_CMD 0) [7, 9] 1 sample_heap 0x1001"
    by (simp add: touches_def in_range_def)
  ultimately show ?thesis
    by (rule request_isolation)
qed

text \<open>
  A bulk allocation either answers with the null pointer and leaves the heap as
  it was, or answers with a block of the requested size (one byte for zero) that overlaps nothing
  live, reads as zeros, and is now the server's to free.
\<close>

theorem allocation_fresh:
  assumes "heap_ok h" "cmd r = ALLOC_BULK_CMD"
    and "process_request pick tgt r buf sz h = Inr (h', tgt', ps)"
    and "p = paddr (sin6_addr tgt')"
    and "n = unat (if le_word (take 8 buf) = (0 :: u64) then 1 else le_word (take 8 buf) :: u64)"
  shows "ps = [\<lparr>dst_addr = (sin6_addr tgt)\<lparr>cmd := ALLOC_BULK_CMD, paddr := p\<rparr>,
                dst_port = sin6_port tgt, data = []\<rparr>] \<and>
    (p = 0 \<and> h' = h \<or>
     p \<noteq> 0 \<and> hblocks h p = None \<and> hblocks h' p = Some n \<and>
     load (hmem h') p n = Some (replicate n 0) \<and> (\<forall>i<n. hmem h (p + of_nat i) = None))"
proof -
  obtain q h1 where c: "calloc pick h n = (q, h1)" by (cases "calloc pick h n")
  then have "q = p" "h1 = h'"
    and ps: "ps = [\<lparr>dst_addr = (sin6_addr tgt)\<lparr>cmd := ALLOC_BULK_CMD, paddr := p\<rparr>,
               dst_port = sin6_port tgt, data = []\<rparr>]"
    using assms(2-5) by (simp_all add: process_request_cmd allocate_mem_bulk_def)
  with calloc_fresh [OF assms(1), of pick n p h'] c show ?thesis by simp
qed

theorem allocation_fresh_witness:
  "hblocks empty_heap 0x1000 = None \<and> hblocks sample_heap 0x1000 = Some 2 \<and>
   load (hmem sample_heap) 0x1000 2 = Some (replicate 2 0)"
  using allocation_fresh [OF empty_heap_ok _ sample_run_alloc, of "0x1000" 2]
  by simp

text \<open>
  replies: every command but a bulk write is answered by exactly one packet, a bulk write
  exactly when the two halves of its \<^verbatim>\<open>args\<close> field agree, an unknown command by none; and each
  answer goes back to the requester's address and port with the command of the request, carrying
  data only for reads, and then as many bytes as the low half of \<^verbatim>\<open>args\<close> asks for.
\<close>

theorem reply_discipline:
  assumes "process_request pick tgt r buf sz h = Inr (h', tgt', ps)"
  shows "length ps =
      (if cmd r = WRITE_BULK_CMD then if ucast (args r) = (ucast (drop_bit 16 (args r)) :: u16) then 1 else 0
       else if cmd r \<in> {ALLOC_CMD, WRITE_CMD, READ_CMD, FREE_CMD, ALLOC_BULK_CMD, READ_BULK_CMD, TRIM_CMD}
       then 1 else 0) \<and>
    (\<forall>p \<in> set ps. dst_port p = sin6_port tgt \<and> subid (dst_addr p) = subid (sin6_addr tgt) \<and>
       args (dst_addr p) = args (sin6_addr tgt) \<and> cmd (dst_addr p) = cmd r \<and>
       length (data p) = (if cmd r = READ_CMD \<or> cmd r = READ_BULK_CMD
                          then unat (ucast (args r) :: u16) else 0))"
  using assms
  by (cases "cmd r" rule: cmd_cases)
    (auto simp: process_request_cmd process_request_unknown handler_defs Let_def
      batch_complete_iff load_length split: prod.splits if_splits)

theorem reply_discipline_witness:
  "length [\<lparr>dst_addr = (sin6_addr sample_client)\<lparr>cmd := WRITE_CMD, paddr := 0x1000\<rparr>,
       dst_port = 5, data = ([] :: bytes)\<rparr>] = 1 \<and>
   (5 :: u16) = sin6_port sample_client"
  using reply_discipline [OF sample_run_write] by simp

text \<open>
  a freed block is gone: after a successful free of a non-null pointer, freeing it again
  aborts the server, and reading any non-zero number of bytes from it is a segmentation fault.
\<close>

theorem use_after_free_faults:
  assumes "heap_ok h" "cmd f = FREE_CMD" "paddr f \<noteq> 0"
    and "process_request pick tgt f buf sz h = Inr (h', tgt', ps)"
    and "cmd r = READ_CMD" "paddr r = paddr f" "(ucast (args r) :: u16) \<noteq> 0"
  shows "process_request pick t f buf' sz' h' = Inl Abort \<and>
    process_request pick t r buf' sz' h' = Inl Segv"
proof -
  obtain n where n: "hblocks h (paddr f) = Some n"
    and h': "h' = \<lparr>hmem = (\<lambda>x. if in_range (paddr f) n x then None else hmem h x),
                  hblocks = (hblocks h)(paddr f := None)\<rparr>"
    using assms(2-4) by (auto simp: process_request_cmd free_mem_def cfree_def split: option.splits)
  have "hmem h' (paddr f) = None" "hblocks h' (paddr f) = None"
    using heap_ok_block [OF assms(1) n] in_range_first by (simp_all add: h')
  moreover then have "load (hmem h') (paddr f) (unat (ucast (args r) :: u16)) = None"
    using assms(7) by (simp add: load_unmapped unat_gt_0)
  ultimately show ?thesis
    using assms(2,3,5,6) by (simp add: process_request_cmd free_mem_def read_mem_def cfree_def)
qed

theorem use_after_free_faults_witness:
  "process_request sample_place sample_client (sample_addr FREE_CMD 0) [] 0 empty_heap = Inl Abort \<and>
   process_request sample_place sample_client (sample_addr READ_CMD 2) [] 0 empty_heap = Inl Segv"
  using use_after_free_faults [OF sample_heap_ok _ _ sample_run_free, of "sample_addr READ_CMD 2"]
  by simp

end
