(* ===== verification/BB_Packet.thy ===== *)
theory BB_Packet
  imports BB_Types
begin

text \<open>
  The raw socket backend, \<^verbatim>\<open>ip6/lib/raw_backend\<close>: the frame template set up by
  \<^verbatim>\<open>configure_tx\<close>, the frame built in it by \<^verbatim>\<open>prepare_packet\<close>, the transmit ring shared with
  the kernel (\<^verbatim>\<open>send_mmap\<close>, \<^verbatim>\<open>flush_buffer\<close>, single and batched send), the receive ring, and
  the Internet checksum. Rings and frames are byte buffers at the offsets the C structs have
  on a 64 bit little endian host.
\<close>

section \<open>Ring geometry\<close>

definition C_RING_FRAMES :: nat where "C_RING_FRAMES = 2048"

definition RX_RING_BLOCKS :: nat where "RX_RING_BLOCKS = 4"

definition TX_RING_BLOCKS :: nat where "TX_RING_BLOCKS = 1"

definition C_FRAMESIZE :: nat where "C_FRAMESIZE = 8192"

definition IP_MAXPACKET :: nat where "IP_MAXPACKET = 65535"

text \<open>
  Linux's \<^verbatim>\<open>struct tpacket_hdr\<close>: \<^verbatim>\<open>tp_status\<close> (8 bytes) at 0, \<^verbatim>\<open>tp_len\<close> (4 bytes) at 8, \<^verbatim>\<open>tp_mac\<close>
  (2 bytes) at 16, and packet data at \<^verbatim>\<open>TPACKET_HDRLEN - sizeof(struct sockaddr_ll)\<close>, 32.
\<close>

definition TP_DATA_OFF :: nat where "TP_DATA_OFF = 32"

definition TP_STATUS_KERNEL :: u64 where "TP_STATUS_KERNEL = 0"

definition TP_STATUS_COPY :: u64 where "TP_STATUS_COPY = 2"

definition TP_STATUS_LOSING :: u64 where "TP_STATUS_LOSING = 4"

definition TP_STATUS_SEND_REQUEST :: u64 where "TP_STATUS_SEND_REQUEST = 1"

lemmas ring_defs = C_RING_FRAMES_def RX_RING_BLOCKS_def TX_RING_BLOCKS_def C_FRAMESIZE_def
  IP_MAXPACKET_def TP_DATA_OFF_def TP_STATUS_KERNEL_def TP_STATUS_COPY_def TP_STATUS_LOSING_def
  TP_STATUS_SEND_REQUEST_def

text \<open>A copy into a fixed buffer; running over its end is a fault.\<close>

definition put :: "bytes \<Rightarrow> nat \<Rightarrow> bytes \<Rightarrow> bytes res" where
  "put buf off bs = (if off + length bs \<le> length buf then Inr (blit buf off bs) else Inl Segv)"

section \<open>Transmit side\<close>

record tx_state =
  ether_frame :: bytes
  ring_tx :: bytes
  ring_offset :: nat
  thread_id_tx :: nat

record sockaddr_ll =
  sll_ifindex :: nat
  sll_addr :: bytes
  sll_halen :: nat

text \<open>
  \<open>ifindex\<close> is what \<^verbatim>\<open>if_nametoindex\<close> answers. The two header structs are stack variables that
  are only partly initialised: \<open>ip0\<close> and \<open>udp0\<close> are their contents before.
\<close>

definition configure_tx ::
  "nat \<Rightarrow> bytes \<Rightarrow> bytes \<Rightarrow> config \<Rightarrow> tx_state \<Rightarrow> (sockaddr_ll \<times> tx_state) res" where
  "configure_tx ifindex ip0 udp0 cfg st =
     (if ifindex = 0 then Inl Exit
      else
        let src_mac = [0xa0, 0x36, 0x9f, 0x45, 0xd8, 0x74];
            dst_mac = [0xff, 0xff, 0xff, 0xff, 0xff, 0xff];
            iface = \<lparr>sll_ifindex = ifindex, sll_addr = src_mac, sll_halen = 6\<rparr>;
            f1 = blit (blit (ether_frame st) 0 dst_mac) 6 src_mac;
            f2 = f1[12 := 0x86, 13 := 0xdd];
            iphdr1 = blit ip0 8 (memaddr_bytes (src_addr cfg));
            iphdr2 = blit iphdr1 0 (le_bytes 4 (htonl (push_bit 28 6)));
            iphdr = iphdr2[6 := 17, 7 := 255];
            udphdr = blit udp0 0 (le_bytes 2 (htons (htons (src_port cfg) + of_nat (thread_id_tx st))));
            f3 = blit f2 ETH_HDRLEN iphdr;
            f4 = blit f3 (ETH_HDRLEN + IP6_HDRLEN) udphdr
        in Inr (iface, st\<lparr>ether_frame := f4\<rparr>))"

definition send_mmap :: "bytes \<Rightarrow> tx_state \<Rightarrow> tx_state res" where
  "send_mmap pkt st =
     (let header = ring_offset st * C_FRAMESIZE in
      bindE (put (ring_tx st) (header + TP_DATA_OFF) pkt) (\<lambda>r1.
      bindE (put r1 (header + 8) (le_bytes 4 (of_nat (length pkt) :: u32))) (\<lambda>r2.
      bindE (put r2 header (le_bytes 8 TP_STATUS_SEND_REQUEST)) (\<lambda>r3.
        Inr (st\<lparr>ring_tx := r3, ring_offset := (ring_offset st + 1) AND (C_RING_FRAMES - 1)\<rparr>)))))"

definition prepare_packet :: "pkt_rqst \<Rightarrow> tx_state \<Rightarrow> tx_state res" where
  "prepare_packet pkt st =
     (let datalen = length (data pkt);
          ulen = htons (of_nat (UDP_HDRLEN + datalen)) :: u16;
          ip_hdr = ETH_HDRLEN;
          udp_hdr = ETH_HDRLEN + IP6_HDRLEN;
          f1 = blit (ether_frame st) (ip_hdr + 24) (memaddr_bytes (dst_addr pkt));
          f2 = blit f1 (ip_hdr + 4) (le_bytes 2 ulen);
          f3 = blit f2 (udp_hdr + 2) (le_bytes 2 (dst_port pkt));
          f4 = blit f3 (udp_hdr + 4) (le_bytes 2 ulen);
          f5 = blit f4 (udp_hdr + 6) (le_bytes 2 (0xFFAA :: u16))
      in bindE (put f5 (ETH_HDRLEN + IP6_HDRLEN + UDP_HDRLEN) (data pkt)) (\<lambda>f6.
           send_mmap (take (ETH_HDRLEN + IP6_HDRLEN + UDP_HDRLEN + datalen) f6)
             (st\<lparr>ether_frame := f6\<rparr>)))"

text \<open>
  The kernel behind \<^verbatim>\<open>sendto\<close> on the packet socket is a parameter: from its state and the ring
  it gives a return code, its new state, and the ring as it leaves it.
\<close>

type_synonym 'k kernel_tx = "'k \<Rightarrow> bytes \<Rightarrow> int \<times> 'k \<times> bytes"

partial_function (option) flush_buffer ::
  "'k kernel_tx \<Rightarrow> 'k \<Rightarrow> bytes \<Rightarrow> ('k \<times> bytes) option" where
  "flush_buffer sendto k ring =
     (case sendto k ring of (rc, k', ring') \<Rightarrow>
        if rc < 0 then flush_buffer sendto k' ring' else Some (k', ring'))"

definition flush_tx :: "'k kernel_tx \<Rightarrow> 'k \<times> tx_state \<Rightarrow> ('k \<times> tx_state) res" where
  "flush_tx sendto = (\<lambda>(k, st).
     case flush_buffer sendto k (ring_tx st) of
       None \<Rightarrow> Inl Blocked
     | Some (k', ring') \<Rightarrow> Inr (k', st\<lparr>ring_tx := ring'\<rparr>))"

definition cooked_send :: "'k kernel_tx \<Rightarrow> pkt_rqst \<Rightarrow> 'k \<times> tx_state \<Rightarrow> ('k \<times> tx_state) res" where
  "cooked_send sendto pkt = (\<lambda>(k, st).
     bindE (prepare_packet pkt st) (\<lambda>st'. flush_tx sendto (k, st')))"

text \<open>
  \<open>sub_ids\<close> counts the packets of the batch per subnet; the count goes in the upper half of
  \<^verbatim>\<open>args\<close>. The array has \<^verbatim>\<open>USHRT_MAX\<close> entries, so subnet 65535 is outside it.
\<close>

definition USHRT_MAX :: nat where "USHRT_MAX = 65535"

definition sub_id_at :: "(u16 \<Rightarrow> u32) \<Rightarrow> u16 \<Rightarrow> u32 res" where
  "sub_id_at sub_ids s = (if unat s < USHRT_MAX then Inr (sub_ids s) else Inl Segv)"

definition stamp_args :: "pkt_rqst \<Rightarrow> u32 \<Rightarrow> pkt_rqst" where
  "stamp_args pkt n =
     pkt\<lparr>dst_addr := (dst_addr pkt)\<lparr>args := args (dst_addr pkt) OR push_bit 16 n\<rparr>\<rparr>"

fun batched_loop ::
  "'k kernel_tx \<Rightarrow> (u16 \<Rightarrow> u32) \<Rightarrow> nat \<Rightarrow> pkt_rqst list \<Rightarrow> 'k \<times> tx_state \<Rightarrow> ('k \<times> tx_state) res" where
  "batched_loop sendto sub_ids i [] kst = Inr kst"
| "batched_loop sendto sub_ids i (pkt # pkts) (k, st) =
     bindE (sub_id_at sub_ids (subid (dst_addr pkt))) (\<lambda>n.
     bindE (prepare_packet (stamp_args pkt n) st) (\<lambda>st1.
     bindE (if TX_RING_BLOCKS * C_RING_FRAMES \<le> i then flush_tx sendto (k, st1) else Inr (k, st1))
       (\<lambda>kst2. batched_loop sendto sub_ids (Suc i) pkts kst2)))"

definition cooked_batched_send ::
  "'k kernel_tx \<Rightarrow> pkt_rqst list \<Rightarrow> (u16 \<Rightarrow> u32) \<Rightarrow> 'k \<times> tx_state \<Rightarrow> ('k \<times> tx_state) res" where
  "cooked_batched_send sendto pkts sub_ids kst =
     bindE (batched_loop sendto sub_ids 0 pkts kst) (flush_tx sendto)"

section \<open>Receive side\<close>

record rx_state =
  ring_rx :: bytes
  tpacket_i :: nat

definition get_packet :: "rx_state \<Rightarrow> nat" where
  "get_packet st = tpacket_i st * C_FRAMESIZE"

definition next_packet :: "rx_state \<Rightarrow> rx_state" where
  "next_packet st = st\<lparr>tpacket_i := (tpacket_i st + 1) mod (C_RING_FRAMES * RX_RING_BLOCKS)\<rparr>"

text \<open>
  What the receivers read from a frame: the two addresses, the source port, the message size the
  UDP header announces, and the bytes from the payload pointer on.
\<close>

record rx_frame =
  rf_src :: ip6_memaddr
  rf_dst :: ip6_memaddr
  rf_sport :: u16
  rf_size :: u16
  rf_payload :: bytes

definition rx_frame_at :: "bytes \<Rightarrow> nat \<Rightarrow> rx_frame res" where
  "rx_frame_at ring hdr =
     (let eth_hdr = hdr + unat (le_word (slice ring (hdr + 16) 2) :: u16);
          ip_hdr = eth_hdr + ETH_HDRLEN;
          udp_hdr = eth_hdr + ETH_HDRLEN + IP6_HDRLEN;
          payload = eth_hdr + ETH_HDRLEN + IP6_HDRLEN + UDP_HDRLEN
      in if payload \<le> length ring
         then Inr \<lparr>rf_src = bytes_memaddr (slice ring (ip_hdr + 8) 16),
                   rf_dst = bytes_memaddr (slice ring (ip_hdr + 24) 16),
                   rf_sport = le_word (slice ring udp_hdr 2),
                   rf_size = htons (le_word (slice ring (udp_hdr + 4) 2)) - of_nat UDP_HDRLEN,
                   rf_payload = drop payload ring\<rparr>
         else Inl Segv)"

text \<open>One turn of a receive loop after \<^verbatim>\<open>EPOLLIN\<close>: the guards on the slot's status, then the frame.\<close>

definition rx_turn :: "rx_state \<Rightarrow> (rx_frame option \<times> rx_state) res" where
  "rx_turn st =
     (let hdr = get_packet st;
          tp_status = le_word (slice (ring_rx st) hdr 8) :: u64
      in if (ucast tp_status :: u32) = ucast TP_STATUS_KERNEL then Inr (None, st)
         else if tp_status AND TP_STATUS_COPY \<noteq> 0 then Inr (None, next_packet st)
         else if tp_status AND TP_STATUS_LOSING \<noteq> 0 then Inr (None, next_packet st)
         else bindE (rx_frame_at (ring_rx st) hdr) (\<lambda>f.
                Inr (Some f, next_packet
                  (st\<lparr>ring_rx := blit (ring_rx st) hdr (le_bytes 8 TP_STATUS_KERNEL)\<rparr>))))"

text \<open>
  The kernel side of the receive ring: at each \<^verbatim>\<open>epoll_wait\<close> it reports for each ready descriptor
  whether \<^verbatim>\<open>EPOLLIN\<close> is set, having written to the ring in between. A list of such answers drives
  the loops; when it runs out, the caller is still waiting.
\<close>

type_synonym epoll_answer = "bool list \<times> (bytes \<Rightarrow> bytes)"

fun rx_events :: "bool list \<Rightarrow> rx_state \<Rightarrow> (rx_frame option \<times> rx_state) res" where
  "rx_events [] st = Inr (None, st)"
| "rx_events (epollin # evs) st =
     (if epollin
      then bindE (rx_turn st) (\<lambda>(r, st').
             case r of None \<Rightarrow> rx_events evs st' | Some f \<Rightarrow> Inr (Some f, st'))
      else rx_events evs st)"

text \<open>Copying a received payload to the address the caller gave.\<close>

definition copy_payload :: "rx_frame \<Rightarrow> u64 \<Rightarrow> mem \<Rightarrow> mem res" where
  "copy_payload f a m =
     (if length (rf_payload f) < unat (rf_size f) then Inl Segv
      else guardE Segv (store m a (take (unat (rf_size f)) (rf_payload f))))"

fun simple_epoll_rcv ::
  "u64 option \<Rightarrow> epoll_answer list \<Rightarrow> rx_state \<Rightarrow> mem \<Rightarrow> (rx_frame \<times> epoll_answer list \<times> rx_state \<times> mem) res"
where
  "simple_epoll_rcv rcv_buf [] st m = Inl Blocked"
| "simple_epoll_rcv rcv_buf ((evs, kern) # ws) st m =
     bindE (rx_events evs (st\<lparr>ring_rx := kern (ring_rx st)\<rparr>)) (\<lambda>(r, st').
       case r of
         None \<Rightarrow> simple_epoll_rcv rcv_buf ws st' m
       | Some f \<Rightarrow>
           bindE (case rcv_buf of None \<Rightarrow> Inr m | Some a \<Rightarrow> copy_payload f a m)
             (\<lambda>m'. Inr (f, ws, st', m')))"

text \<open>
  \<^verbatim>\<open>write_packets\<close> keeps one event variable across its turns, so an \<^verbatim>\<open>epoll_wait\<close> that reports
  nothing leaves the previous flag in place (\<open>ev\<close>).
\<close>

fun write_packets ::
  "bool \<Rightarrow> nat \<Rightarrow> epoll_answer list \<Rightarrow> rx_state \<Rightarrow> mem \<Rightarrow> (epoll_answer list \<times> rx_state \<times> mem) res"
where
  "write_packets ev 0 ws st m = Inr (ws, st, m)"
| "write_packets ev (Suc n) [] st m = Inl Blocked"
| "write_packets ev (Suc n) ((evs, kern) # ws) st m =
     (let ev' = (case evs of [] \<Rightarrow> ev | e # _ \<Rightarrow> e);
          st0 = st\<lparr>ring_rx := kern (ring_rx st)\<rparr>
      in if ev'
         then bindE (rx_turn st0) (\<lambda>(r, st').
                case r of
                  None \<Rightarrow> write_packets ev' (Suc n) ws st' m
                | Some f \<Rightarrow>
                    bindE (copy_payload f (paddr (rf_dst f)) m)
                      (\<lambda>m'. write_packets ev' n ws st' m'))
         else write_packets ev' (Suc n) ws st0 m)"

section \<open>What the properties speak of\<close>

text \<open>
  Buffers of the sizes the code allocates; the frame a packet request amounts to over a header
  template; a slot of the transmit ring as the kernel reads it.
\<close>

definition tx_ok :: "tx_state \<Rightarrow> bool" where
  "tx_ok st \<longleftrightarrow> length (ether_frame st) = IP_MAXPACKET \<and>
     length (ring_tx st) = C_RING_FRAMES * C_FRAMESIZE \<and> ring_offset st < C_RING_FRAMES"

definition frame_image :: "bytes \<Rightarrow> pkt_rqst \<Rightarrow> bytes" where
  "frame_image ef pkt =
     slice ef 0 18 @ le_bytes 2 (htons (of_nat (8 + length (data pkt))) :: u16) @ slice ef 20 18 @
     memaddr_bytes (dst_addr pkt) @ slice ef 54 2 @ le_bytes 2 (dst_port pkt) @
     le_bytes 2 (htons (of_nat (8 + length (data pkt))) :: u16) @ le_bytes 2 (0xFFAA :: u16) @ data pkt"

definition slot_bytes :: "bytes \<Rightarrow> nat \<Rightarrow> bytes" where
  "slot_bytes ring i = slice ring (i * C_FRAMESIZE) C_FRAMESIZE"

definition slot_status :: "bytes \<Rightarrow> u64" where
  "slot_status sb = le_word (slice sb 0 8)"

definition slot_frame :: "bytes \<Rightarrow> bytes" where
  "slot_frame sb = slice sb TP_DATA_OFF (unat (le_word (slice sb 8 4) :: u32))"

definition pkt_fits :: "pkt_rqst \<Rightarrow> bool" where
  "pkt_fits pkt \<longleftrightarrow> 62 + length (data pkt) + TP_DATA_OFF \<le> C_FRAMESIZE"

text \<open>The ring after a batch: slot by slot from the old offset on.\<close>

definition holds_frames :: "bytes \<Rightarrow> nat \<Rightarrow> bytes list \<Rightarrow> bool" where
  "holds_frames ring off frs \<longleftrightarrow>
     (\<forall>j<length frs. slot_status (slot_bytes ring ((off + j) mod C_RING_FRAMES)) = TP_STATUS_SEND_REQUEST \<and>
        slot_frame (slot_bytes ring ((off + j) mod C_RING_FRAMES)) = frs ! j)"

definition stamped :: "(u16 \<Rightarrow> u32) \<Rightarrow> pkt_rqst \<Rightarrow> pkt_rqst" where
  "stamped sub_ids pkt = stamp_args pkt (sub_ids (subid (dst_addr pkt)))"

text \<open>The kernel after \<open>n\<close> calls of \<^verbatim>\<open>sendto\<close>.\<close>

fun kernel_after :: "'k kernel_tx \<Rightarrow> nat \<Rightarrow> 'k \<times> bytes \<Rightarrow> 'k \<times> bytes" where
  "kernel_after sendto 0 kr = kr"
| "kernel_after sendto (Suc n) (k, ring) = kernel_after sendto n (snd (sendto k ring))"

definition accepts :: "'k kernel_tx \<Rightarrow> 'k \<times> bytes \<Rightarrow> bool" where
  "accepts sendto = (\<lambda>(k, ring). 0 \<le> fst (sendto k ring))"

definition RX_FRAMES :: nat where "RX_FRAMES = C_RING_FRAMES * RX_RING_BLOCKS"

text \<open>Slot \<open>i\<close> of a receive ring is ready and holds the frame of \<open>pkt\<close>.\<close>

definition rx_holds :: "bytes \<Rightarrow> nat \<Rightarrow> bytes \<times> pkt_rqst \<Rightarrow> bool" where
  "rx_holds ring i = (\<lambda>(ef, pkt).
     let hdr = i * C_FRAMESIZE; mac = unat (le_word (slice ring (hdr + 16) 2) :: u16);
         status = le_word (slice ring hdr 8) :: u64
     in (ucast status :: u32) \<noteq> 0 \<and> status AND TP_STATUS_COPY = 0 \<and> status AND TP_STATUS_LOSING = 0 \<and>
        18 \<le> mac \<and> mac + 62 + length (data pkt) \<le> C_FRAMESIZE \<and>
        length ef = IP_MAXPACKET \<and> pkt_fits pkt \<and>
        slice ring (hdr + mac) (62 + length (data pkt)) = frame_image ef pkt)"

definition rx_ok :: "rx_state \<Rightarrow> bool" where
  "rx_ok st \<longleftrightarrow> length (ring_rx st) = RX_FRAMES * C_FRAMESIZE \<and> tpacket_i st < RX_FRAMES"

fun deliver_all :: "pkt_rqst list \<Rightarrow> mem \<Rightarrow> mem res" where
  "deliver_all [] m = Inr m"
| "deliver_all (p # ps) m =
     bindE (guardE Segv (store m (paddr (dst_addr p)) (data p))) (deliver_all ps)"

section \<open>Lemmas\<close>

lemma put_ok: "off + length bs \<le> length buf \<Longrightarrow> put buf off bs = Inr (blit buf off bs)"
  by (simp add: put_def)

lemma take_split9:
  "take (62 + n) f = slice f 0 18 @ slice f 18 2 @ slice f 20 18 @ slice f 38 16 @ slice f 54 2 @
     slice f 56 2 @ slice f 58 2 @ slice f 60 2 @ slice f 62 n"
proof -
  have "slice f 60 2 @ slice f 62 n = slice f 60 (2 + n)"
    "slice f 58 2 @ slice f 60 (2 + n) = slice f 58 (4 + n)"
    "slice f 56 2 @ slice f 58 (4 + n) = slice f 56 (6 + n)"
    "slice f 54 2 @ slice f 56 (6 + n) = slice f 54 (8 + n)"
    "slice f 38 16 @ slice f 54 (8 + n) = slice f 38 (24 + n)"
    "slice f 20 18 @ slice f 38 (24 + n) = slice f 20 (42 + n)"
    "slice f 18 2 @ slice f 20 (42 + n) = slice f 18 (44 + n)"
    "slice f 0 18 @ slice f 18 (44 + n) = slice f 0 (62 + n)"
    by (rule slice_join; simp)+
  then show ?thesis by (simp only: slice_def drop_0)
qed

lemma prepare_frame:
  assumes len: "length f = IP_MAXPACKET" "62 + length (data pkt) \<le> IP_MAXPACKET"
  obtains f' where "length f' = IP_MAXPACKET"
    and "\<And>st. ether_frame st = f \<Longrightarrow> prepare_packet pkt st =
          send_mmap (frame_image f pkt) (st\<lparr>ether_frame := f'\<rparr>)"
    and "\<And>pkt'. frame_image f' pkt' = frame_image f pkt'"
proof -
  let ?u = "htons (of_nat (8 + length (data pkt))) :: u16"
  let ?f1 = "blit f 38 (memaddr_bytes (dst_addr pkt))"
  let ?f2 = "blit ?f1 18 (le_bytes 2 ?u)"
  let ?f3 = "blit ?f2 56 (le_bytes 2 (dst_port pkt))"
  let ?f4 = "blit ?f3 58 (le_bytes 2 ?u)"
  let ?f5 = "blit ?f4 60 (le_bytes 2 (0xFFAA :: u16))"
  let ?f6 = "blit ?f5 62 (data pkt)"
  note [simp] = IP_MAXPACKET_def
  have l: "length ?f6 = IP_MAXPACKET" using len by simp
  have img: "take (62 + length (data pkt)) ?f6 = frame_image f pkt"
    unfolding take_split9 frame_image_def using len
    by (simp add: slice_blit_same slice_blit_other)
  have same: "frame_image ?f6 pkt' = frame_image f pkt'" for pkt'
    unfolding frame_image_def using len by (simp add: slice_blit_other)
  show ?thesis
  proof (rule that [OF l _ same])
    fix st :: tx_state assume "ether_frame st = f"
    then show "prepare_packet pkt st = send_mmap (frame_image f pkt) (st\<lparr>ether_frame := ?f6\<rparr>)"
      using len img by (simp add: prepare_packet_def Let_def hdr_defs put_ok)
  qed
qed


lemma slot_mult: "i < C_RING_FRAMES \<Longrightarrow> i * C_FRAMESIZE + C_FRAMESIZE \<le> C_RING_FRAMES * C_FRAMESIZE"
  by (simp add: ring_defs)

lemma slot_disjoint: "i \<noteq> j \<Longrightarrow> i * C_FRAMESIZE + C_FRAMESIZE \<le> j * C_FRAMESIZE \<or>
    j * C_FRAMESIZE + C_FRAMESIZE \<le> i * C_FRAMESIZE"
  by (auto simp: ring_defs)

lemma offset_wrap: "n AND (C_RING_FRAMES - Suc 0) = n mod C_RING_FRAMES"
proof -
  have "n AND mask 11 = n mod 2 ^ 11" by (simp only: take_bit_eq_mask [symmetric] take_bit_eq_mod)
  then show ?thesis by (simp add: C_RING_FRAMES_def mask_eq_exp_minus_1)
qed

lemma send_mmap_ok:
  assumes ok: "tx_ok st" and len: "length pkt + TP_DATA_OFF \<le> C_FRAMESIZE"
  obtains r where "send_mmap pkt st =
      Inr (st\<lparr>ring_tx := r, ring_offset := Suc (ring_offset st) mod C_RING_FRAMES\<rparr>)"
    and "length r = C_RING_FRAMES * C_FRAMESIZE"
    and "slot_status (slot_bytes r (ring_offset st)) = TP_STATUS_SEND_REQUEST"
    and "slot_frame (slot_bytes r (ring_offset st)) = pkt"
    and "\<And>i. i < C_RING_FRAMES \<Longrightarrow> i \<noteq> ring_offset st \<Longrightarrow> slot_bytes r i = slot_bytes (ring_tx st) i"
proof -
  let ?h = "ring_offset st * C_FRAMESIZE"
  let ?r1 = "blit (ring_tx st) (?h + TP_DATA_OFF) pkt"
  let ?r2 = "blit ?r1 (?h + 8) (le_bytes 4 (of_nat (length pkt) :: u32))"
  let ?r3 = "blit ?r2 ?h (le_bytes 8 TP_STATUS_SEND_REQUEST)"
  have h: "?h + C_FRAMESIZE \<le> length (ring_tx st)"
    using slot_mult ok by (simp add: tx_ok_def)
  have l: "?h + TP_DATA_OFF + length pkt \<le> length (ring_tx st)"
    "?h + 8 + 4 \<le> length (ring_tx st)" "?h + 8 \<le> length (ring_tx st)"
    using h len by (simp_all add: ring_defs)
  have 1: "send_mmap pkt st =
      Inr (st\<lparr>ring_tx := ?r3, ring_offset := Suc (ring_offset st) mod C_RING_FRAMES\<rparr>)"
    using l by (simp add: send_mmap_def Let_def put_ok offset_wrap)
  have 2: "length ?r3 = C_RING_FRAMES * C_FRAMESIZE"
    using l ok by (simp add: tx_ok_def)
  have st: "slice ?r3 ?h 8 = le_bytes 8 TP_STATUS_SEND_REQUEST"
    using l by (simp add: slice_blit_same)
  have ln: "slice ?r3 (?h + 8) 4 = le_bytes 4 (of_nat (length pkt) :: u32)"
    using l by (simp add: slice_blit_same slice_blit_other)
  have fr: "slice ?r3 (?h + TP_DATA_OFF) (length pkt) = pkt"
    using l by (simp add: slice_blit_same slice_blit_other TP_DATA_OFF_def)
  have n: "unat (of_nat (length pkt) :: u32) = length pkt"
    using len by (simp add: unat_of_nat take_bit_eq_mod ring_defs)
  have 3: "slot_status (slot_bytes ?r3 (ring_offset st)) = TP_STATUS_SEND_REQUEST"
    using st by (simp add: slot_status_def slot_bytes_def slice_slice C_FRAMESIZE_def)
  have 4: "slot_frame (slot_bytes ?r3 (ring_offset st)) = pkt"
    using ln fr n len by (simp add: slot_frame_def slot_bytes_def slice_slice ring_defs)
  have 5: "slot_bytes ?r3 i = slot_bytes (ring_tx st) i" if "i < C_RING_FRAMES" "i \<noteq> ring_offset st" for i
    using slot_disjoint [OF that(2)] slot_mult [OF that(1)] l len ok unfolding slot_bytes_def
    by (intro slice_blit_other [THEN trans]) (auto simp: tx_ok_def ring_defs)
  show ?thesis by (rule that [OF 1 2 3 4 5])
qed
lemma pkt_fits_small: "pkt_fits pkt \<Longrightarrow> length (data pkt) \<le> 8098"
  by (simp add: pkt_fits_def ring_defs)

lemma length_frame_image:
  "length ef = IP_MAXPACKET \<Longrightarrow> length (frame_image ef pkt) = 62 + length (data pkt)"
  by (simp add: frame_image_def IP_MAXPACKET_def)

lemma prepare_packet_ok:
  assumes ok: "tx_ok st" and fits: "pkt_fits pkt"
  obtains st' where "prepare_packet pkt st = Inr st'" "tx_ok st'"
    and "ring_offset st' = Suc (ring_offset st) mod C_RING_FRAMES"
    and "\<And>q. frame_image (ether_frame st') q = frame_image (ether_frame st) q"
    and "slot_status (slot_bytes (ring_tx st') (ring_offset st)) = TP_STATUS_SEND_REQUEST"
    and "slot_frame (slot_bytes (ring_tx st') (ring_offset st)) = frame_image (ether_frame st) pkt"
    and "\<And>i. i < C_RING_FRAMES \<Longrightarrow> i \<noteq> ring_offset st \<Longrightarrow>
          slot_bytes (ring_tx st') i = slot_bytes (ring_tx st) i"
proof -
  have ef: "length (ether_frame st) = IP_MAXPACKET" using ok by (simp add: tx_ok_def)
  have "62 + length (data pkt) \<le> IP_MAXPACKET" using fits by (simp add: pkt_fits_def ring_defs)
  from prepare_frame [OF ef this] obtain f' where f': "length f' = IP_MAXPACKET"
    and prep: "prepare_packet pkt st =
        send_mmap (frame_image (ether_frame st) pkt) (st\<lparr>ether_frame := f'\<rparr>)"
    and same: "\<And>q. frame_image f' q = frame_image (ether_frame st) q"
    by metis
  have ok': "tx_ok (st\<lparr>ether_frame := f'\<rparr>)" using ok f' by (simp add: tx_ok_def)
  have len: "length (frame_image (ether_frame st) pkt) + TP_DATA_OFF \<le> C_FRAMESIZE"
    using fits ef by (simp add: length_frame_image pkt_fits_def)
  from send_mmap_ok [OF ok' len] obtain r where r:
    "send_mmap (frame_image (ether_frame st) pkt) (st\<lparr>ether_frame := f'\<rparr>) =
       Inr (st\<lparr>ether_frame := f', ring_tx := r, ring_offset := Suc (ring_offset st) mod C_RING_FRAMES\<rparr>)"
    "length r = C_RING_FRAMES * C_FRAMESIZE"
    "slot_status (slot_bytes r (ring_offset st)) = TP_STATUS_SEND_REQUEST"
    "slot_frame (slot_bytes r (ring_offset st)) = frame_image (ether_frame st) pkt"
    "\<And>i. i < C_RING_FRAMES \<Longrightarrow> i \<noteq> ring_offset st \<Longrightarrow> slot_bytes r i = slot_bytes (ring_tx st) i"
    by auto
  show ?thesis
    by (rule that [of "st\<lparr>ether_frame := f', ring_tx := r,
        ring_offset := Suc (ring_offset st) mod C_RING_FRAMES\<rparr>"])
      (use r f' prep same in \<open>simp_all add: tx_ok_def C_RING_FRAMES_def\<close>)
qed

lemma stamped_simps [simp]:
  "data (stamped s pkt) = data pkt" "dst_port (stamped s pkt) = dst_port pkt"
  "pkt_fits (stamped s pkt) = pkt_fits pkt"
  by (simp_all add: stamped_def stamp_args_def pkt_fits_def)

lemma mod_offset_neq:
  assumes "j < C_RING_FRAMES" "0 < j" "off < C_RING_FRAMES"
  shows "(off + j) mod C_RING_FRAMES \<noteq> off"
  using assms by (cases "off + j < C_RING_FRAMES") (simp_all add: le_mod_geq not_less)

lemma batched_loop_ok:
  assumes "tx_ok st" "\<forall>p\<in>set pkts. pkt_fits p \<and> unat (subid (dst_addr p)) < USHRT_MAX"
    and "i + length pkts \<le> C_RING_FRAMES"
  shows "\<exists>st'. batched_loop sendto sub_ids i pkts (k, st) = Inr (k, st') \<and> tx_ok st' \<and>
    ring_offset st' = (ring_offset st + length pkts) mod C_RING_FRAMES \<and>
    (\<forall>q. frame_image (ether_frame st') q = frame_image (ether_frame st) q) \<and>
    holds_frames (ring_tx st') (ring_offset st)
      (map (\<lambda>p. frame_image (ether_frame st) (stamped sub_ids p)) pkts) \<and>
    (\<forall>s<C_RING_FRAMES. (\<forall>j<length pkts. s \<noteq> (ring_offset st + j) mod C_RING_FRAMES) \<longrightarrow>
       slot_bytes (ring_tx st') s = slot_bytes (ring_tx st) s)"
  using assms
proof (induction pkts arbitrary: i st)
  case Nil
  then show ?case by (simp add: holds_frames_def tx_ok_def)
next
  case (Cons p pkts)
  let ?off = "ring_offset st"
  have off: "?off < C_RING_FRAMES" using Cons.prems(1) by (simp add: tx_ok_def)
  have "pkt_fits (stamped sub_ids p)" using Cons.prems(2) by simp
  from prepare_packet_ok [OF Cons.prems(1) this] obtain st1 where st1:
    "prepare_packet (stamped sub_ids p) st = Inr st1" "tx_ok st1"
    "ring_offset st1 = Suc ?off mod C_RING_FRAMES"
    "\<And>q. frame_image (ether_frame st1) q = frame_image (ether_frame st) q"
    "slot_status (slot_bytes (ring_tx st1) ?off) = TP_STATUS_SEND_REQUEST"
    "slot_frame (slot_bytes (ring_tx st1) ?off) = frame_image (ether_frame st) (stamped sub_ids p)"
    "\<And>i. i < C_RING_FRAMES \<Longrightarrow> i \<noteq> ?off \<Longrightarrow> slot_bytes (ring_tx st1) i = slot_bytes (ring_tx st) i"
    by metis
  have shift: "(Suc ?off mod C_RING_FRAMES + j) mod C_RING_FRAMES = Suc (?off + j) mod C_RING_FRAMES" for j
    by (simp add: mod_simps)
  from Cons.IH [OF st1(2), of "Suc i"] Cons.prems obtain st2 where st2:
    "batched_loop sendto sub_ids (Suc i) pkts (k, st1) = Inr (k, st2)" "tx_ok st2"
    "ring_offset st2 = Suc (?off + length pkts) mod C_RING_FRAMES"
    "\<And>q. frame_image (ether_frame st2) q = frame_image (ether_frame st) q"
    "holds_frames (ring_tx st2) (Suc ?off mod C_RING_FRAMES)
       (map (\<lambda>p. frame_image (ether_frame st) (stamped sub_ids p)) pkts)"
    "\<And>s. s < C_RING_FRAMES \<Longrightarrow> (\<And>j. j < length pkts \<Longrightarrow> s \<noteq> Suc (?off + j) mod C_RING_FRAMES) \<Longrightarrow>
       slot_bytes (ring_tx st2) s = slot_bytes (ring_tx st1) s"
    by (auto simp: st1(3,4) shift)
  have "slot_bytes (ring_tx st2) ?off = slot_bytes (ring_tx st1) ?off"
  proof (rule st2(6) [OF off])
    fix j assume "j < length pkts"
    then show "?off \<noteq> Suc (?off + j) mod C_RING_FRAMES"
      using mod_offset_neq [of "Suc j" ?off] off Cons.prems(3) by simp
  qed
  then have "holds_frames (ring_tx st2) ?off
      (map (\<lambda>p. frame_image (ether_frame st) (stamped sub_ids p)) (p # pkts))"
    using st2(5) st1(5,6) off
    by (simp add: holds_frames_def All_less_Suc2 shift mod_less)
  moreover have "slot_bytes (ring_tx st2) s = slot_bytes (ring_tx st) s"
    if "s < C_RING_FRAMES" "\<forall>j<length (p # pkts). s \<noteq> (?off + j) mod C_RING_FRAMES" for s
    using that off st2(6) [of s] st1(7) [of s] by (auto simp: All_less_Suc2)
  ultimately show ?case
    using Cons.prems st1 st2
    by (auto simp: sub_id_at_def stamped_def TX_RING_BLOCKS_def)
qed

lemma frame_image_slices:
  assumes "length ef = IP_MAXPACKET"
  shows "slice (frame_image ef pkt) 22 16 = slice ef 22 16"
    and "slice (frame_image ef pkt) 38 16 = memaddr_bytes (dst_addr pkt)"
    and "slice (frame_image ef pkt) 54 2 = slice ef 54 2"
    and "slice (frame_image ef pkt) 56 2 = le_bytes 2 (dst_port pkt)"
    and "slice (frame_image ef pkt) 58 2 = le_bytes 2 (htons (of_nat (8 + length (data pkt))) :: u16)"
    and "slice (frame_image ef pkt) 62 (length (data pkt)) = data pkt"
  using assms
  by (simp_all add: frame_image_def slice_def drop_take IP_MAXPACKET_def)

lemma blit_list_update:
  "i < length f \<Longrightarrow> k + n \<le> i \<or> i < k \<Longrightarrow> slice (f[i := x]) k n = slice f k n"
  by (auto simp: slice_def drop_update_swap drop_update_cancel)

lemma configure_tx_template:
  assumes "configure_tx ifindex ip0 udp0 cfg st = Inr (iface, st')"
    and "length (ether_frame st) = IP_MAXPACKET" "length ip0 = 40" "length udp0 = 8"
  shows "length (ether_frame st') = IP_MAXPACKET"
    and "slice (ether_frame st') 22 16 = memaddr_bytes (src_addr cfg)"
    and "slice (ether_frame st') 54 2 =
      le_bytes 2 (htons (htons (src_port cfg) + of_nat (thread_id_tx st)))"
    and "ring_tx st' = ring_tx st" "ring_offset st' = ring_offset st"
proof -
  let ?f = "(blit (blit (ether_frame st) 0 [0xff, 0xff, 0xff, 0xff, 0xff, 0xff]) 6
      [0xa0, 0x36, 0x9f, 0x45, 0xd8, 0x74])[12 := 0x86, 13 := 0xdd]"
  let ?ip = "(blit (blit ip0 8 (memaddr_bytes (src_addr cfg))) 0
      (le_bytes 4 (htonl (push_bit 28 6))))[6 := 17, 7 := 255]"
  let ?udp = "blit udp0 0 (le_bytes 2 (htons (htons (src_port cfg) + of_nat (thread_id_tx st))))"
  have st': "st' = st\<lparr>ether_frame := blit (blit ?f 14 ?ip) 54 ?udp\<rparr>"
    using assms(1) by (auto simp: configure_tx_def Let_def hdr_defs split: if_splits)
  have l: "length ?f = IP_MAXPACKET" "length ?ip = 40" "length ?udp = 8"
    using assms by (simp_all add: IP_MAXPACKET_def)
  show "length (ether_frame st') = IP_MAXPACKET"
    using l by (simp add: st' IP_MAXPACKET_def)
  have "slice (ether_frame st') 22 16 = slice (slice (blit ?f 14 ?ip) 14 40) 8 16"
    using l by (simp add: st' slice_blit_other slice_slice IP_MAXPACKET_def)
  also have "\<dots> = slice ?ip 8 16"
    using l by (simp add: slice_blit_same IP_MAXPACKET_def)
  also have "\<dots> = memaddr_bytes (src_addr cfg)"
    using assms by (simp add: blit_list_update slice_blit_same slice_blit_other)
  finally show "slice (ether_frame st') 22 16 = memaddr_bytes (src_addr cfg)" .
  have "slice (ether_frame st') 54 2 = slice (slice (ether_frame st') 54 8) 0 2"
    by (simp add: slice_slice)
  also have "slice (ether_frame st') 54 8 = ?udp"
    using l by (simp add: st' slice_blit_same IP_MAXPACKET_def)
  also have "slice ?udp 0 2 = le_bytes 2 (htons (htons (src_port cfg) + of_nat (thread_id_tx st)))"
    using assms by (simp add: slice_blit_same)
  finally show "slice (ether_frame st') 54 2 =
      le_bytes 2 (htons (htons (src_port cfg) + of_nat (thread_id_tx st)))" .
qed (use assms(1) in \<open>auto simp: configure_tx_def Let_def split: if_splits\<close>)

lemma rx_frame_of_image:
  assumes ef: "length ef = IP_MAXPACKET" and fits: "pkt_fits pkt"
    and eth: "eth = hdr + unat (le_word (slice ring (hdr + 16) 2) :: u16)"
    and img: "slice ring eth (62 + length (data pkt)) = frame_image ef pkt"
  obtains f where "rx_frame_at ring hdr = Inr f"
    and "rf_src f = bytes_memaddr (slice ef 22 16)" "rf_dst f = dst_addr pkt"
    and "rf_sport f = le_word (slice ef 54 2)" "unat (rf_size f) = length (data pkt)"
    and "take (length (data pkt)) (rf_payload f) = data pkt"
    and "length (data pkt) \<le> length (rf_payload f)"
proof -
  have "length (slice ring eth (62 + length (data pkt))) = 62 + length (data pkt)"
    using img ef by (simp add: length_frame_image)
  then have room: "eth + 62 + length (data pkt) \<le> length ring"
    by (auto simp: slice_def)
  have sub: "slice ring (eth + i) k = slice (frame_image ef pkt) i k"
    if "i + k \<le> 62 + length (data pkt)" for i k
    using slice_slice [OF that, of ring eth] img by simp
  have n: "unat (of_nat (length (data pkt)) :: u16) = length (data pkt)"
    using pkt_fits_small [OF fits] by (simp add: unat_of_nat take_bit_eq_mod)
  have sz: "htons (le_word (slice ring (eth + 58) 2)) - of_nat UDP_HDRLEN = (of_nat (length (data pkt)) :: u16)"
    using sub [of 58 2] ef by (simp add: frame_image_slices hdr_defs)
  have pl: "take (length (data pkt)) (drop (eth + 62) ring) = data pkt"
    using sub [of 62 "length (data pkt)"] frame_image_slices(6) [OF ef, of pkt]
    by (simp add: slice_def)
  show ?thesis
    by (rule that [of "\<lparr>rf_src = bytes_memaddr (slice ef 22 16), rf_dst = dst_addr pkt,
            rf_sport = le_word (slice ef 54 2), rf_size = of_nat (length (data pkt)),
            rf_payload = drop (eth + 62) ring\<rparr>"])
      (use room n sz pl sub [of 22 16] sub [of 38 16] sub [of 54 2] ef eth in
        \<open>simp_all add: rx_frame_at_def Let_def hdr_defs frame_image_slices add.assoc\<close>)
qed

lemma flush_buffer_step:
  "flush_buffer sendto k ring =
     (if accepts sendto (k, ring) then Some (snd (sendto k ring))
      else case snd (sendto k ring) of (k', ring') \<Rightarrow> flush_buffer sendto k' ring')"
  by (subst flush_buffer.simps) (auto simp: accepts_def split: prod.splits)

lemma flush_buffer_retries:
  assumes "accepts sendto (kernel_after sendto n (k, ring))"
  shows "\<exists>i\<le>n. accepts sendto (kernel_after sendto i (k, ring)) \<and>
    flush_buffer sendto k ring = Some (kernel_after sendto (Suc i) (k, ring))"
  using assms
proof (induction n arbitrary: k ring)
  case 0
  then show ?case by (simp add: flush_buffer_step)
next
  case (Suc n)
  obtain k' ring' where s: "snd (sendto k ring) = (k', ring')" by (cases "snd (sendto k ring)")
  show ?case
  proof (cases "accepts sendto (k, ring)")
    case True
    then show ?thesis by (intro exI [of _ 0]) (simp add: flush_buffer_step)
  next
    case False
    from Suc.IH [of k' ring'] Suc.prems s obtain i where "i \<le> n"
      "accepts sendto (kernel_after sendto i (k', ring'))"
      "flush_buffer sendto k' ring' = Some (kernel_after sendto (Suc i) (k', ring'))" by auto
    with False s show ?thesis
      by (intro exI [of _ "Suc i"]) (simp add: flush_buffer_step [of sendto k])
  qed
qed

lemma flush_buffer_Some:
  assumes "flush_buffer sendto k ring = Some r"
  shows "\<exists>n. accepts sendto (kernel_after sendto n (k, ring))"
proof (rule flush_buffer.raw_induct
    [of "\<lambda>sendto k ring r. \<exists>n. accepts sendto (kernel_after sendto n (k, ring))", OF _ assms])
  fix flush :: "'a kernel_tx \<Rightarrow> 'a \<Rightarrow> bytes \<Rightarrow> ('a \<times> bytes) option"
  fix sendto :: "'a kernel_tx" and k ring r
  assume IH: "\<And>sendto k ring r. flush sendto k ring = Some r \<Longrightarrow>
      \<exists>n. accepts sendto (kernel_after sendto n (k, ring))"
    and step: "(case sendto k ring of (rc, k', ring') \<Rightarrow>
        if rc < 0 then flush sendto k' ring' else Some (k', ring')) = Some r"
  obtain rc k' ring' where s: "sendto k ring = (rc, k', ring')" by (cases "sendto k ring")
  show "\<exists>n. accepts sendto (kernel_after sendto n (k, ring))"
  proof (cases "rc < 0")
    case True
    with step s IH [of sendto k' ring' r] obtain n where
      "accepts sendto (kernel_after sendto n (k', ring'))" by auto
    with s show ?thesis by (intro exI [of _ "Suc n"]) simp
  next
    case False
    with s show ?thesis by (intro exI [of _ 0]) (simp add: accepts_def)
  qed
qed

lemma batched_loop_append:
  "batched_loop sendto sub_ids i (xs @ ys) kst =
     bindE (batched_loop sendto sub_ids i xs kst) (batched_loop sendto sub_ids (i + length xs) ys)"
proof (induction xs arbitrary: i kst)
  case Nil
  then show ?case by simp
next
  case (Cons x xs)
  have "batched_loop sendto sub_ids (Suc i) (xs @ ys) = (\<lambda>kst.
      bindE (batched_loop sendto sub_ids (Suc i) xs kst)
        (batched_loop sendto sub_ids (Suc i + length xs) ys))"
    using Cons.IH by (intro ext)
  then show ?case by (cases kst) (simp add: bindE_assoc)
qed

lemma rx_holds_slot:
  assumes "slot_bytes r i = slot_bytes ring i"
  shows "rx_holds r i x = rx_holds ring i x"
proof -
  have sub: "slice r (i * C_FRAMESIZE + o') k = slice ring (i * C_FRAMESIZE + o') k"
    if "o' + k \<le> C_FRAMESIZE" for o' k
    using assms slice_slice [OF that, of r "i * C_FRAMESIZE"]
      slice_slice [OF that, of ring "i * C_FRAMESIZE"]
    by (simp add: slot_bytes_def)
  have "slice r (i * C_FRAMESIZE) 8 = slice ring (i * C_FRAMESIZE) 8"
    "slice r (i * C_FRAMESIZE + 16) 2 = slice ring (i * C_FRAMESIZE + 16) 2"
    using sub [of 0 8] sub [of 16 2] by (simp_all add: C_FRAMESIZE_def)
  then show ?thesis
    using sub by (cases x) (auto simp: rx_holds_def Let_def add.assoc)
qed

lemma rx_turn_holds:
  assumes ok: "rx_ok st" and h: "rx_holds (ring_rx st) (tpacket_i st) (ef, pkt)"
  obtains f st' where "rx_turn st = Inr (Some f, st')" "rx_ok st'"
    and "rf_dst f = dst_addr pkt"
    and "\<And>a m. copy_payload f a m = guardE Segv (store m a (data pkt))"
    and "tpacket_i st' = Suc (tpacket_i st) mod RX_FRAMES"
    and "\<And>i. i < RX_FRAMES \<Longrightarrow> i \<noteq> tpacket_i st \<Longrightarrow>
          slot_bytes (ring_rx st') i = slot_bytes (ring_rx st) i"
proof -
  let ?hdr = "tpacket_i st * C_FRAMESIZE"
  let ?mac = "unat (le_word (slice (ring_rx st) (?hdr + 16) 2) :: u16)"
  have facts: "length ef = IP_MAXPACKET" "pkt_fits pkt"
    "slice (ring_rx st) (?hdr + ?mac) (62 + length (data pkt)) = frame_image ef pkt"
    using h by (simp_all add: rx_holds_def Let_def)
  obtain f where f: "rx_frame_at (ring_rx st) ?hdr = Inr f" "rf_dst f = dst_addr pkt"
    "unat (rf_size f) = length (data pkt)" "take (length (data pkt)) (rf_payload f) = data pkt"
    "length (data pkt) \<le> length (rf_payload f)"
    using rx_frame_of_image [OF facts(1,2) refl facts(3)] by metis
  let ?st' = "next_packet (st\<lparr>ring_rx := blit (ring_rx st) ?hdr (le_bytes 8 TP_STATUS_KERNEL)\<rparr>)"
  have turn: "rx_turn st = Inr (Some f, ?st')"
    using h f(1) by (simp add: rx_turn_def rx_holds_def Let_def get_packet_def TP_STATUS_KERNEL_def)
  have room: "?hdr + C_FRAMESIZE \<le> length (ring_rx st)"
    using ok by (auto simp: rx_ok_def C_FRAMESIZE_def RX_FRAMES_def RX_RING_BLOCKS_def C_RING_FRAMES_def)
  then have room8: "?hdr + 8 \<le> length (ring_rx st)" by (simp add: C_FRAMESIZE_def)
  have ok': "rx_ok ?st'"
    using ok room8 by (simp add: rx_ok_def next_packet_def RX_FRAMES_def ring_defs)
  have other: "slot_bytes (ring_rx ?st') i = slot_bytes (ring_rx st) i"
    if "i < RX_FRAMES" "i \<noteq> tpacket_i st" for i
  proof -
    have "i * C_FRAMESIZE + C_FRAMESIZE \<le> length (ring_rx st)"
      using that(1) ok by (auto simp: rx_ok_def C_FRAMESIZE_def RX_FRAMES_def RX_RING_BLOCKS_def C_RING_FRAMES_def)
    with slot_disjoint [OF that(2)] room8 show ?thesis
      by (auto simp: slot_bytes_def next_packet_def C_FRAMESIZE_def intro!: slice_blit_other)
  qed
  have copy: "copy_payload f a m = guardE Segv (store m a (data pkt))" for a m
    using f by (simp add: copy_payload_def)
  have nxt: "tpacket_i ?st' = Suc (tpacket_i st) mod RX_FRAMES"
    by (simp add: next_packet_def RX_FRAMES_def)
  show ?thesis by (rule that [OF turn ok' f(2) copy nxt other])
qed

lemma write_packets_ready:
  assumes "rx_ok st" "length xs \<le> RX_FRAMES"
    and "\<And>j. j < length xs \<Longrightarrow> rx_holds (ring_rx st) ((tpacket_i st + j) mod RX_FRAMES) (xs ! j)"
  shows "bindE (write_packets ev (length xs) (replicate (length xs) ([True], \<lambda>r. r)) st m)
      (\<lambda>(ws, st', m'). Inr m') = deliver_all (map snd xs) m"
  using assms
proof (induction xs arbitrary: st m ev)
  case Nil
  then show ?case by simp
next
  case (Cons x xs)
  obtain ef pkt where x: "x = (ef, pkt)" by (cases x)
  have i: "tpacket_i st < RX_FRAMES" using Cons.prems(1) by (simp add: rx_ok_def)
  then have "rx_holds (ring_rx st) (tpacket_i st) (ef, pkt)"
    using Cons.prems(3) [of 0] x by simp
  from rx_turn_holds [OF Cons.prems(1) this] obtain f st' where f:
    "rx_turn st = Inr (Some f, st')" "rx_ok st'" "rf_dst f = dst_addr pkt"
    "\<And>a m. copy_payload f a m = guardE Segv (store m a (data pkt))"
    "tpacket_i st' = Suc (tpacket_i st) mod RX_FRAMES"
    "\<And>i. i < RX_FRAMES \<Longrightarrow> i \<noteq> tpacket_i st \<Longrightarrow>
          slot_bytes (ring_rx st') i = slot_bytes (ring_rx st) i"
    by metis
  have "rx_holds (ring_rx st') ((tpacket_i st' + j) mod RX_FRAMES) (xs ! j)" if "j < length xs" for j
  proof -
    let ?i = "Suc (tpacket_i st + j) mod RX_FRAMES"
    have "?i \<noteq> tpacket_i st"
      using that i Cons.prems(2) by (cases "Suc (tpacket_i st + j) < RX_FRAMES") (simp_all add: le_mod_geq not_less)
    moreover have "rx_holds (ring_rx st) ?i (xs ! j)"
      using Cons.prems(3) [of "Suc j"] that by simp
    moreover have "?i < RX_FRAMES" using i by simp
    ultimately have "rx_holds (ring_rx st') ?i (xs ! j)"
      using rx_holds_slot [OF f(6)] by blast
    then show ?thesis by (simp add: f(5) mod_simps)
  qed
  then have IH: "\<And>m ev. bindE (write_packets ev (length xs) (replicate (length xs) ([True], \<lambda>r. r)) st' m)
      (\<lambda>(ws, st', m'). Inr m') = deliver_all (map snd xs) m"
    using Cons.IH [OF f(2)] Cons.prems(2) by simp
  show ?case
    using IH f(1,3,4) by (cases "store m (paddr (dst_addr pkt)) (data pkt)") (simp_all add: x bindE_assoc)
qed

section \<open>Sample node\<close>

definition sample_cfg :: config where
  "sample_cfg = \<lparr>interface = [], server_port = [], src_port = 0x3412,
     src_addr = \<lparr>subid = 1, cmd = 0, args = 0, paddr = 0\<rparr>, debug = 0, num_hosts = 0, hosts = []\<rparr>"

definition sample_tx :: tx_state where
  "sample_tx = \<lparr>ether_frame = replicate IP_MAXPACKET 0,
     ring_tx = replicate (C_RING_FRAMES * C_FRAMESIZE) 0, ring_offset = 0, thread_id_tx = 0\<rparr>"

definition sample_pkt :: pkt_rqst where
  "sample_pkt = \<lparr>dst_addr = \<lparr>subid = 2, cmd = WRITE_BULK_CMD, args = 1, paddr = 0x1000\<rparr>,
     dst_port = 7, data = [1, 2]\<rparr>"

definition sample_ring :: bytes where
  "sample_ring = blit (replicate (RX_FRAMES * C_FRAMESIZE) 0) 0
     (le_bytes 8 (1 :: u64) @ replicate 8 0 @ [18, 0] @ frame_image (ether_frame sample_tx) sample_pkt)"

lemma sample_tx_ok: "tx_ok sample_tx"
  by (simp add: tx_ok_def sample_tx_def C_RING_FRAMES_def)

lemma sample_pkt_fits: "pkt_fits sample_pkt"
  by (simp add: pkt_fits_def sample_pkt_def ring_defs)

lemma sample_pkt_subid: "unat (subid (dst_addr sample_pkt)) < USHRT_MAX"
  by (simp add: sample_pkt_def USHRT_MAX_def)

lemma sample_ring_slot:
  "length sample_ring = RX_FRAMES * C_FRAMESIZE"
  "slice sample_ring 0 8 = le_bytes 8 (1 :: u64)"
  "slice sample_ring 16 2 = [18, 0]"
  "slice sample_ring 18 64 = frame_image (ether_frame sample_tx) sample_pkt"
proof -
  let ?bs = "le_bytes 8 (1 :: u64) @ replicate 8 0 @ [18, 0] @
    frame_image (ether_frame sample_tx) sample_pkt"
  let ?z = "replicate (RX_FRAMES * C_FRAMESIZE) 0 :: bytes"
  have f: "length (frame_image (ether_frame sample_tx) sample_pkt) = 64"
    by (simp add: length_frame_image sample_tx_def sample_pkt_def)
  then have l: "0 + length ?bs \<le> length ?z"
    by (simp add: RX_FRAMES_def ring_defs)
  then show "length sample_ring = RX_FRAMES * C_FRAMESIZE"
    unfolding sample_ring_def by (subst length_blit) simp_all
  have all: "slice sample_ring 0 82 = ?bs"
    unfolding sample_ring_def using l f by (intro slice_blit_same) simp_all
  have sub: "slice sample_ring i k = slice ?bs i k" if "i + k \<le> 82" for i k
    using slice_slice [OF that, of sample_ring 0] all by simp
  show "slice sample_ring 0 8 = le_bytes 8 (1 :: u64)" "slice sample_ring 16 2 = [18, 0]"
    "slice sample_ring 18 64 = frame_image (ether_frame sample_tx) sample_pkt"
    using sub [of 0 8] sub [of 16 2] sub [of 18 64] f by (simp_all add: slice_def)
qed

lemma sample_ring_holds: "rx_holds sample_ring 0 (ether_frame sample_tx, sample_pkt)"
  using sample_ring_slot sample_pkt_fits
  by (simp add: rx_holds_def sample_pkt_def sample_tx_def ring_defs)

section \<open>Properties of the packet layer\<close>

text \<open>
  C12: what one node sends is what another receives: after \<^verbatim>\<open>configure_tx\<close>, whatever was in the
  uninitialised header structs, \<^verbatim>\<open>prepare_packet\<close> leaves in the next slot of the transmit ring,
  marked for sending, a frame of 62 bytes plus the data; and a receiver that finds this frame
  anywhere in a receive slot (where the slot's \<^verbatim>\<open>tp_mac\<close> points) reads back the sender's address
  and port, the destination, the message size and the data.
\<close>

theorem wire_roundtrip:
  assumes "configure_tx ifindex ip0 udp0 cfg st0 = Inr (iface, st)"
    and "tx_ok st0" "length ip0 = 40" "length udp0 = 8" "pkt_fits pkt"
  shows "\<exists>st' frame. prepare_packet pkt st = Inr st' \<and> tx_ok st' \<and>
    slot_status (slot_bytes (ring_tx st') (ring_offset st)) = TP_STATUS_SEND_REQUEST \<and>
    slot_frame (slot_bytes (ring_tx st') (ring_offset st)) = frame \<and>
    length frame = 62 + length (data pkt) \<and>
    (\<forall>ring hdr. slice ring (hdr + unat (le_word (slice ring (hdr + 16) 2) :: u16)) (length frame) = frame \<longrightarrow>
      (\<exists>f. rx_frame_at ring hdr = Inr f \<and> rf_src f = src_addr cfg \<and> rf_dst f = dst_addr pkt \<and>
        rf_sport f = htons (htons (src_port cfg) + of_nat (thread_id_tx st0)) \<and>
        unat (rf_size f) = length (data pkt) \<and>
        take (unat (rf_size f)) (rf_payload f) = data pkt))"
proof -
  have ef: "length (ether_frame st0) = IP_MAXPACKET" using assms(2) by (simp add: tx_ok_def)
  note cfg = configure_tx_template [OF assms(1) ef assms(3,4)]
  have ok: "tx_ok st" using assms(2) cfg(1,4,5) by (simp add: tx_ok_def)
  obtain st' where st': "prepare_packet pkt st = Inr st'" "tx_ok st'"
    "slot_status (slot_bytes (ring_tx st') (ring_offset st)) = TP_STATUS_SEND_REQUEST"
    "slot_frame (slot_bytes (ring_tx st') (ring_offset st)) = frame_image (ether_frame st) pkt"
    using prepare_packet_ok [OF ok assms(5)] by metis
  have "\<exists>f. rx_frame_at ring hdr = Inr f \<and> rf_src f = src_addr cfg \<and> rf_dst f = dst_addr pkt \<and>
        rf_sport f = htons (htons (src_port cfg) + of_nat (thread_id_tx st0)) \<and>
        unat (rf_size f) = length (data pkt) \<and> take (unat (rf_size f)) (rf_payload f) = data pkt"
    if "slice ring (hdr + unat (le_word (slice ring (hdr + 16) 2) :: u16))
          (62 + length (data pkt)) = frame_image (ether_frame st) pkt" for ring hdr
    using rx_frame_of_image [OF cfg(1) assms(5) refl that] cfg(2,3) by (metis bytes_memaddr_bytes le_word_le_bytes_sized(1))
  with st' show ?thesis
    by (intro exI [of _ st'] exI [of _ "frame_image (ether_frame st) pkt"])
      (simp add: length_frame_image [OF cfg(1)])
qed

theorem wire_roundtrip_witness:
  "\<exists>st st' f iface. configure_tx 1 (replicate 40 0xcc) (replicate 8 0xcc) sample_cfg sample_tx = Inr (iface, st) \<and>
     prepare_packet sample_pkt st = Inr st' \<and>
     rx_frame_at (replicate 16 0 @ [18, 0] @ slot_frame (slot_bytes (ring_tx st') (ring_offset st))) 0 = Inr f \<and>
     rf_src f = src_addr sample_cfg \<and> rf_dst f = dst_addr sample_pkt \<and>
     take (unat (rf_size f)) (rf_payload f) = [1, 2]"
proof -
  obtain iface st where cfg: "configure_tx 1 (replicate 40 0xcc) (replicate 8 0xcc) sample_cfg sample_tx =
      Inr (iface, st)"
    by (simp add: configure_tx_def Let_def)
  from wire_roundtrip [OF cfg sample_tx_ok length_replicate length_replicate sample_pkt_fits]
  obtain st' frame where w: "prepare_packet sample_pkt st = Inr st'"
    "slot_frame (slot_bytes (ring_tx st') (ring_offset st)) = frame"
    "\<forall>ring hdr. slice ring (hdr + unat (le_word (slice ring (hdr + 16) 2) :: u16)) (length frame) = frame \<longrightarrow>
      (\<exists>f. rx_frame_at ring hdr = Inr f \<and> rf_src f = src_addr sample_cfg \<and> rf_dst f = dst_addr sample_pkt \<and>
        rf_sport f = htons (htons (src_port sample_cfg) + of_nat (thread_id_tx sample_tx)) \<and>
        unat (rf_size f) = length (data sample_pkt) \<and>
        take (unat (rf_size f)) (rf_payload f) = data sample_pkt)"
    by blast
  have "\<exists>f. rx_frame_at (replicate 16 0 @ [18, 0] @ frame) 0 = Inr f \<and>
      rf_src f = src_addr sample_cfg \<and> rf_dst f = dst_addr sample_pkt \<and>
      take (unat (rf_size f)) (rf_payload f) = data sample_pkt"
    using w(3) [rule_format, of "replicate 16 0 @ [18, 0] @ frame" 0] by (auto simp: slice_def)
  with cfg w(1,2) show ?thesis by (auto simp: sample_pkt_def)
qed

text \<open>
  C16: a batched send of at most a ring of packets calls the kernel once, when the slots from the
  old ring offset on hold the frames of all packets, in order, each marked for sending and with
  the number of packets of its subnet in the upper half of \<^verbatim>\<open>args\<close>; no other slot is touched.
\<close>

theorem batched_send_in_order:
  assumes "tx_ok st" "\<forall>p\<in>set pkts. pkt_fits p \<and> unat (subid (dst_addr p)) < USHRT_MAX"
    and "length pkts \<le> C_RING_FRAMES"
  shows "\<exists>st'. cooked_batched_send sendto pkts sub_ids (k, st) = flush_tx sendto (k, st') \<and> tx_ok st' \<and>
    ring_offset st' = (ring_offset st + length pkts) mod C_RING_FRAMES \<and>
    holds_frames (ring_tx st') (ring_offset st)
      (map (\<lambda>p. frame_image (ether_frame st) (stamped sub_ids p)) pkts) \<and>
    (\<forall>s<C_RING_FRAMES. (\<forall>j<length pkts. s \<noteq> (ring_offset st + j) mod C_RING_FRAMES) \<longrightarrow>
       slot_bytes (ring_tx st') s = slot_bytes (ring_tx st) s)"
  using batched_loop_ok [OF assms(1,2), of 0 sendto sub_ids k] assms(3)
  by (auto simp: cooked_batched_send_def)

theorem batched_send_in_order_witness:
  "\<exists>st'. cooked_batched_send (\<lambda>k r. (0, k @ [r], r)) [sample_pkt, sample_pkt] (\<lambda>s. 2) ([], sample_tx) =
       flush_tx (\<lambda>k r. (0, k @ [r], r)) ([], st') \<and>
     holds_frames (ring_tx st') 0 (map (\<lambda>p. frame_image (ether_frame sample_tx) (stamped (\<lambda>s. 2) p))
       [sample_pkt, sample_pkt])"
  using batched_send_in_order [OF sample_tx_ok, of "[sample_pkt, sample_pkt]"
      "\<lambda>k r. (0, k @ [r], r)" "\<lambda>s. 2" "[]"] sample_pkt_fits sample_pkt_subid
  by (auto simp: C_RING_FRAMES_def sample_tx_def)



text \<open>
  C34: \<^verbatim>\<open>flush_buffer\<close> returns exactly when the kernel accepts one of the successive \<^verbatim>\<open>sendto\<close> calls;
  with a kernel that never does, the retry loop does not end.
\<close>

theorem flush_returns_iff_accepted:
  "(\<exists>r. flush_buffer sendto k ring = Some r) \<longleftrightarrow>
     (\<exists>n. accepts sendto (kernel_after sendto n (k, ring)))"
  using flush_buffer_retries [of sendto _ k ring] flush_buffer_Some [of sendto k ring] by blast


text \<open>
  C33: a bulk receive copies the frames waiting in the receive ring, in ring order and each once,
  to the addresses their destination names: with \<open>n\<close> ready slots from the ring's index on, and as
  many \<^verbatim>\<open>epoll\<close> wake-ups, \<^verbatim>\<open>write_packets\<close> ends with the memory that delivering the \<open>n\<close> messages one
  after the other gives, or faults as that would.
\<close>

theorem write_packets_delivers:
  assumes "rx_ok st" "length xs \<le> RX_FRAMES"
    and "\<And>j. j < length xs \<Longrightarrow> rx_holds (ring_rx st) ((tpacket_i st + j) mod RX_FRAMES) (xs ! j)"
  shows "bindE (write_packets ev (length xs) (replicate (length xs) ([True], \<lambda>r. r)) st m)
      (\<lambda>(ws, st', m'). Inr m') = deliver_all (map snd xs) m"
  using write_packets_ready [OF assms] .

theorem write_packets_delivers_witness:
  "bindE (write_packets False 1 [([True], \<lambda>r. r)] \<lparr>ring_rx = sample_ring, tpacket_i = 0\<rparr>
       (\<lambda>a. if in_range 0x1000 2 a then Some 0 else None))
      (\<lambda>(ws, st', m'). Inr m') =
   deliver_all [sample_pkt] (\<lambda>a. if in_range 0x1000 2 a then Some 0 else None)"
  using write_packets_delivers [of "\<lparr>ring_rx = sample_ring, tpacket_i = 0\<rparr>"
      "[(ether_frame sample_tx, sample_pkt)]" False
      "\<lambda>a. if in_range 0x1000 2 a then Some 0 else None"] sample_ring_holds
  by (simp add: rx_ok_def RX_FRAMES_def ring_defs sample_ring_slot(1) [unfolded RX_FRAMES_def])

end
