(* ===== verification/BB_Checksum.thy ===== *)
theory BB_Checksum
  imports BB_Prelude
begin

text \<open>
  The Internet checksum of \<^verbatim>\<open>raw_backend/udp_raw_send.c\<close> (\<^verbatim>\<open>checksum\<close>, \<^verbatim>\<open>udp6_checksum\<close>): the word sum
  with its 32 bit accumulator, the folding loop with its termination, and the pseudo header.
  \<^verbatim>\<open>prepare_packet\<close> sends a constant instead; the routines stand in the file as alternatives.
\<close>

section \<open>The Internet checksum\<close>

text \<open>The sum loop reads sixteen bit words in host order and a last single byte as it is.\<close>

fun checksum_sum :: "u32 \<Rightarrow> bytes \<Rightarrow> u32" where
  "checksum_sum sm (a # b # bs) = checksum_sum (sm + ucast (le_word [a, b] :: u16)) bs"
| "checksum_sum sm [a] = sm + ucast a"
| "checksum_sum sm [] = sm"

function checksum_fold :: "u32 \<Rightarrow> u32" where
  "checksum_fold sm =
     (if drop_bit 16 sm \<noteq> 0 then checksum_fold ((sm AND 0xffff) + drop_bit 16 sm) else sm)"
  by pat_completeness auto

text \<open>Arithmetic of one folding round.\<close>

lemma unat_and_ffff: "unat (w AND 0xffff :: u32) = unat w mod 65536"
proof -
  have "(0xffff :: u32) = mask 16" by (simp add: mask_eq_exp_minus_1)
  then have "w AND 0xffff = take_bit 16 w" by (simp only: take_bit_eq_mask)
  then show ?thesis by (simp add: take_bit_eq_mod unat_mod)
qed

lemma unat_drop_16: "unat (drop_bit 16 w :: u32) = unat w div 65536"
  by (simp add: unsigned_drop_bit_eq drop_bit_eq_div take_bit_eq_mod unat_div)

lemma unat_fold_step:
  "unat ((w AND 0xffff) + drop_bit 16 w :: u32) = unat w mod 65536 + unat w div 65536"
proof -
  have "unat w < 2 ^ 32" using unsigned_less [of w] by simp
  then have "unat w div 65536 < 65536" by (simp add: less_mult_imp_div_less)
  moreover have "unat w mod 65536 < 65536" by simp
  ultimately have "unat (w AND 0xffff) + unat (drop_bit 16 w) < 2 ^ 32"
    unfolding unat_and_ffff unat_drop_16 by (simp del: mod_less_divisor)
  then show ?thesis
    by (simp add: unat_word_ariths unat_and_ffff unat_drop_16)
qed

lemma drop_16_nz: "drop_bit 16 (w :: u32) \<noteq> 0 \<longleftrightarrow> 65536 \<le> unat w"
  by (metis unat_drop_16 unat_eq_0 div_eq_0_iff not_less zero_neq_numeral)

lemma fold_nat_less:
  assumes "65536 \<le> n"
  shows "n mod 65536 + n div 65536 < (n :: nat)"
proof -
  have "1 \<le> n div 65536" using div_le_mono [OF assms, of 65536] by simp
  then show ?thesis using div_mult_mod_eq [of n 65536] by linarith
qed

lemma fold_nat_mod: "(n mod 65536 + n div 65536) mod 65535 = n mod (65535 :: nat)"
proof -
  have "n = n div 65536 * 65535 + (n mod 65536 + n div 65536)"
    using div_mult_mod_eq [of n 65536] by linarith
  then show ?thesis by (metis mod_mult_self3)
qed

termination checksum_fold
proof (relation "measure unat")
  show "wf (measure (unat :: u32 \<Rightarrow> nat))" by simp
  fix sm :: u32
  assume "drop_bit 16 sm \<noteq> 0"
  then have "65536 \<le> unat sm" by (simp add: drop_16_nz)
  then have "unat sm mod 65536 + unat sm div 65536 < unat sm" by (rule fold_nat_less)
  then show "((sm AND 0xffff) + drop_bit 16 sm, sm) \<in> measure unat"
    by (simp only: in_measure unat_fold_step)
qed

declare checksum_fold.simps [simp del]

definition checksum :: "bytes \<Rightarrow> u16" where
  "checksum bs =
     (let answer = ucast (NOT (checksum_fold (checksum_sum 0 bs))) :: u16
      in if answer = 0 then 0xffff else answer)"

definition udp6_checksum ::
  "bytes \<Rightarrow> bytes \<Rightarrow> u8 \<Rightarrow> u16 \<Rightarrow> u16 \<Rightarrow> u16 \<Rightarrow> bytes \<Rightarrow> u16" where
  "udp6_checksum ip6_src ip6_dst ip6_nxt usource udest ulen payload =
     checksum (ip6_src @ ip6_dst @ le_bytes 2 ulen @ [0, 0, 0] @ [ip6_nxt] @
       le_bytes 2 usource @ le_bytes 2 udest @ le_bytes 2 ulen @ [0, 0] @
       payload @ replicate (length payload mod 2) 0)"

text \<open>
  The image RFC 2460, section 8.1, sums over: addresses, a 32 bit length, three zero bytes and
  the next header, then the UDP header with a zero checksum and the payload.
\<close>

definition rfc2460_image ::
  "bytes \<Rightarrow> bytes \<Rightarrow> u8 \<Rightarrow> u16 \<Rightarrow> u16 \<Rightarrow> u16 \<Rightarrow> bytes \<Rightarrow> bytes" where
  "rfc2460_image ip6_src ip6_dst ip6_nxt usource udest ulen payload =
     ip6_src @ ip6_dst @ [0, 0] @ le_bytes 2 ulen @ [0, 0, 0, ip6_nxt] @
     le_bytes 2 usource @ le_bytes 2 udest @ le_bytes 2 ulen @ [0, 0] @ payload"

text \<open>The sum in unbounded arithmetic.\<close>

fun word_sum :: "bytes \<Rightarrow> nat" where
  "word_sum (a # b # bs) = unat a + 256 * unat b + word_sum bs"
| "word_sum [a] = unat a"
| "word_sum [] = 0"

lemma checksum_fold_spec:
  "unat (checksum_fold w) < 65536 \<and> unat (checksum_fold w) mod 65535 = unat w mod 65535"
proof (induction w rule: checksum_fold.induct)
  case (1 w)
  show ?case
  proof (cases "drop_bit 16 w = 0")
    case True
    then show ?thesis
      using drop_16_nz [of w] by (simp add: checksum_fold.simps [of w])
  next
    case False
    with fold_nat_mod [of "unat w"] 1 [OF False] False show ?thesis
      by (simp only: checksum_fold.simps [of w] if_True not_False_eq_True unat_fold_step)
  qed
qed

lemma le_word_2: "unat (le_word [a, b] :: u16) = unat a + 256 * unat b"
proof -
  have "(le_word [a, b] :: u16) = ucast a + push_bit 8 (ucast b)"
    by (simp, rule disjunctive_add_eq_or [symmetric])
       (auto simp: bit_eq_iff bit_and_iff bit_ucast_iff bit_push_bit_iff dest: bit_imp_le_length)
  moreover have "unat (push_bit 8 (ucast b) :: u16) = 256 * unat b"
    using unat_u8_lt [of b] by (simp add: push_bit_eq_mult unat_word_ariths unsigned_ucast_eq take_bit_eq_mod)
  moreover note unat_u8_lt [of a] unat_u8_lt [of b]
  ultimately show ?thesis
    by (simp add: unat_word_ariths unsigned_ucast_eq take_bit_eq_mod)
qed

lemma word_sum_bound: "word_sum bs \<le> 65535 * (Suc (length bs) div 2)"
proof (induction bs rule: word_sum.induct)
  case (1 a b bs)
  moreover note unat_u8_lt [of a] unat_u8_lt [of b]
  ultimately show ?case by simp
next
  case (2 a)
  then show ?case using unat_u8_lt [of a] by simp
qed simp

lemma checksum_sum_nat:
  "unat sm + word_sum bs < 2 ^ 32 \<Longrightarrow> unat (checksum_sum sm bs) = unat sm + word_sum bs"
proof (induction sm bs rule: checksum_sum.induct)
  case (1 sm a b bs)
  have "unat (sm + ucast (le_word [a, b] :: u16)) = unat sm + (unat a + 256 * unat b)"
    using "1.prems" le_word_2 [of a b]
    by (simp add: unat_word_ariths unsigned_ucast_eq take_bit_eq_mod del: le_word.simps)
  with 1 show ?case by (simp del: le_word.simps)
next
  case (2 sm a)
  then show ?case by (simp add: unat_word_ariths unsigned_ucast_eq take_bit_eq_mod)
qed simp

lemma ucast_not_u32: "(ucast (NOT w :: u32) :: u16) = NOT (ucast w)"
  by (rule bit_word_eqI) (simp add: bit_ucast_iff bit_not_iff)

lemma unat_not_u16: "unat (NOT w :: u16) = 65535 - unat w"
proof -
  have "NOT w = - 1 - w" by (simp add: not_eq_complement)
  moreover have "w \<le> - 1" by (rule word_order.extremum)
  ultimately have "unat (NOT w) = unat (- 1 :: u16) - unat w" by (metis unat_sub)
  then show ?thesis by (simp add: unsigned_minus_1_eq_mask mask_eq_exp_minus_1)
qed

lemma checksum_sum_append:
  "even (length xs) \<Longrightarrow> checksum_sum sm (xs @ ys) = checksum_sum (checksum_sum sm xs) ys"
  by (induction sm xs rule: checksum_sum.induct) simp_all

lemma ucast_u8_u16_u32: "(ucast (ucast (b :: u8) :: u16) :: u32) = ucast b"
  by (rule bit_word_eqI) (auto simp: bit_ucast_iff dest: bit_imp_le_length)

lemma checksum_sum_pad: "checksum_sum sm (xs @ replicate (length xs mod 2) 0) = checksum_sum sm xs"
  by (induction sm xs rule: checksum_sum.induct) (simp_all add: ucast_u8_u16_u32)

section \<open>Properties of the checksum\<close>

text \<open>
  the checksum of up to 65535 bytes is never zero, and added to the sum of the sixteen bit
  words of the data it gives zero in one's complement arithmetic (modulo 65535): a receiver that
  sums data and checksum finds the packet intact. The 32 bit accumulator does not overflow.
\<close>

theorem checksum_complements:
  assumes "length bs \<le> 65535"
  shows "checksum bs \<noteq> 0 \<and> (word_sum bs + unat (checksum bs)) mod 65535 = 0"
proof -
  let ?f = "checksum_fold (checksum_sum 0 bs)"
  have "Suc (length bs) div 2 \<le> 32768" using assms by simp
  then have "word_sum bs < 2 ^ 32" using word_sum_bound [of bs] by simp
  then have "unat (checksum_sum 0 bs) = word_sum bs" using checksum_sum_nat [of 0 bs] by simp
  then have f: "unat ?f < 65536" "unat ?f mod 65535 = word_sum bs mod 65535"
    using checksum_fold_spec [of "checksum_sum 0 bs"] by simp_all
  have ans: "unat (ucast (NOT ?f) :: u16) = 65535 - unat ?f"
    using f(1) by (simp add: ucast_not_u32 unat_not_u16 unsigned_ucast_eq take_bit_eq_mod)
  have sum0: "(word_sum bs + (65535 - unat ?f)) mod 65535 = 0"
  proof -
    have "(word_sum bs + (65535 - unat ?f)) mod 65535 = (unat ?f + (65535 - unat ?f)) mod 65535"
      using f(2) by (metis mod_add_left_eq)
    also have "unat ?f + (65535 - unat ?f) = 65535" using f(1) by simp
    finally show ?thesis by simp
  qed
  show ?thesis
  proof (cases "unat ?f = 65535")
    case True
    then have "checksum bs = 0xffff"
      using ans by (simp add: checksum_def unat_eq_0)
    with sum0 True show ?thesis by (simp add: mod_eq_0_iff_dvd)
  next
    case False
    then have "unat (ucast (NOT ?f) :: u16) \<noteq> 0"
      unfolding ans using f(1) by linarith
    then have "(ucast (NOT ?f) :: u16) \<noteq> 0"
      by (simp only: unat_eq_0 not_False_eq_True)
    with sum0 ans show ?thesis by (simp add: checksum_def)
  qed
qed

theorem checksum_complements_witness:
  "checksum [1, 2, 3] \<noteq> 0 \<and> (word_sum [1, 2, 3] + unat (checksum [1, 2, 3])) mod 65535 = 0"
  using checksum_complements [of "[1, 2, 3]"] by simp



end
