(* ===== verification/BB_Client.thy ===== *)
theory BB_Client
  imports BB_Packet BB_Server
begin

text \<open>
  The client library, \<^verbatim>\<open>ip6/lib/client_lib.c\<close>, over the message interface of \<^verbatim>\<open>network.c\<close>: a send
  of one packet request and a blocking receive. The interface is a record of two functions, so
  that the same client runs over any network; the packet layer of \<^verbatim>\<open>BB_Packet\<close> is what the raw
  backend puts behind it, and \<^verbatim>\<open>BB_Cluster\<close> a lossless network of servers.
\<close>

section \<open>The network interface\<close>

record msg =
  m_src :: ip6_memaddr
  m_sport :: u16
  m_dst :: ip6_memaddr
  m_data :: bytes

record 'n netif =
  nif_send :: "pkt_rqst \<Rightarrow> 'n \<Rightarrow> 'n res"
  nif_recv :: "'n \<Rightarrow> (msg \<times> 'n) res"

text \<open>
  The client process: its memory (for the receive buffers), the network, and the thread local
  table \<^verbatim>\<open>sub_ids\<close>.
\<close>

record 'n client =
  cl_mem :: mem
  cl_net :: 'n
  cl_sub_ids :: "u16 \<Rightarrow> u32"

definition c_send :: "'n netif \<Rightarrow> pkt_rqst \<Rightarrow> 'n client \<Rightarrow> 'n client res" where
  "c_send nif pkt c = bindE (nif_send nif pkt (cl_net c)) (\<lambda>n. Inr (c\<lparr>cl_net := n\<rparr>))"

text \<open>
  \<^verbatim>\<open>rcv_udp6_raw\<close>: the payload goes to \<open>rx_buf\<close> unless that is \<^verbatim>\<open>NULL\<close>; the sender replaces the
  target, and the destination of the packet is what a caller may store as remote address.
\<close>

definition rcv_udp6_raw ::
  "'n netif \<Rightarrow> u64 option \<Rightarrow> 'n client \<Rightarrow> (nat \<times> sockaddr_in6 \<times> ip6_memaddr \<times> 'n client) res" where
  "rcv_udp6_raw nif rx_buf c =
     bindE (nif_recv nif (cl_net c)) (\<lambda>(msg, n).
     bindE (case rx_buf of None \<Rightarrow> Inr (cl_mem c) | Some a \<Rightarrow> guardE Segv (store (cl_mem c) a (m_data msg)))
       (\<lambda>m. Inr (length (m_data msg), \<lparr>sin6_addr = m_src msg, sin6_port = m_sport msg\<rparr>, m_dst msg,
                 c\<lparr>cl_net := n, cl_mem := m\<rparr>)))"

fun rcv_udp6_raw_bulk :: "'n netif \<Rightarrow> nat \<Rightarrow> 'n client \<Rightarrow> 'n client res" where
  "rcv_udp6_raw_bulk nif 0 c = Inr c"
| "rcv_udp6_raw_bulk nif (Suc n) c =
     bindE (nif_recv nif (cl_net c)) (\<lambda>(msg, net).
     bindE (guardE Segv (store (cl_mem c) (paddr (m_dst msg)) (m_data msg)))
       (\<lambda>m. rcv_udp6_raw_bulk nif n (c\<lparr>cl_net := net, cl_mem := m\<rparr>)))"

fun send_udp_raw_batched :: "'n netif \<Rightarrow> pkt_rqst list \<Rightarrow> 'n client \<Rightarrow> 'n client res" where
  "send_udp_raw_batched nif [] c = Inr c"
| "send_udp_raw_batched nif (p # ps) c =
     bindE (sub_id_at (cl_sub_ids c) (subid (dst_addr p))) (\<lambda>n.
     bindE (c_send nif (stamp_args p n) c) (send_udp_raw_batched nif ps))"

section \<open>The host list\<close>

record host_list =
  hostList :: "ip6_memaddr list"
  nhosts :: int

definition set_host_list :: "ip6_memaddr list \<Rightarrow> int \<Rightarrow> host_list" where
  "set_host_list host_addrs n = \<lparr>hostList = host_addrs, nhosts = n\<rparr>"

definition get_num_hosts :: "host_list \<Rightarrow> int" where
  "get_num_hosts hl = nhosts hl"

definition get_ip6_target :: "host_list \<Rightarrow> u8 \<Rightarrow> ip6_memaddr res" where
  "get_ip6_target hl i =
     (if unat i < length (hostList hl) then Inr (hostList hl ! unat i) else Inl Segv)"

text \<open>\<open>r\<close> is the value of \<^verbatim>\<open>rand()\<close>, which is never negative.\<close>

definition gen_rdm_ip6_target :: "host_list \<Rightarrow> nat \<Rightarrow> ip6_memaddr res" where
  "gen_rdm_ip6_target hl r =
     (if nhosts hl = 0 then Inl Fpe
      else get_ip6_target hl (of_int (int r mod \<bar>nhosts hl\<bar>)))"

section \<open>Allocation\<close>

definition set_cmd :: "sockaddr_in6 \<Rightarrow> u16 \<Rightarrow> sockaddr_in6" where
  "set_cmd tgt c = tgt\<lparr>sin6_addr := (sin6_addr tgt)\<lparr>cmd := c\<rparr>\<rparr>"

definition allocate_rmem ::
  "'n netif \<Rightarrow> sockaddr_in6 \<Rightarrow> 'n client \<Rightarrow> (ip6_memaddr \<times> sockaddr_in6 \<times> 'n client) res" where
  "allocate_rmem nif tgt c =
     (let tgt1 = set_cmd tgt ALLOC_CMD in
      bindE (c_send nif (send_udp_raw [] (sin6_addr tgt1) (sin6_port tgt1)) c) (\<lambda>c1.
      bindE (rcv_udp6_raw nif None c1) (\<lambda>(n, tgt2, retAddr, c2).
        Inr (retAddr\<lparr>subid := subid (sin6_addr tgt2)\<rparr>, tgt2, c2))))"

definition request_blocks ::
  "'n netif \<Rightarrow> sockaddr_in6 \<Rightarrow> u64 \<Rightarrow> 'n client \<Rightarrow> (ip6_memaddr \<times> sockaddr_in6 \<times> 'n client) res" where
  "request_blocks nif tgt num_blocks c =
     (let tgt1 = set_cmd tgt ALLOC_BULK_CMD in
      bindE (c_send nif (send_udp_raw (le_bytes 8 num_blocks) (sin6_addr tgt1) (sin6_port tgt1)) c) (\<lambda>c1.
      bindE (rcv_udp6_raw nif None c1) (\<lambda>(n, tgt2, retAddr, c2).
        Inr (retAddr\<lparr>subid := subid (sin6_addr tgt2)\<rparr>, tgt2, c2))))"

definition block_addr :: "ip6_memaddr \<Rightarrow> nat \<Rightarrow> ip6_memaddr" where
  "block_addr a i = a\<lparr>paddr := paddr a + of_nat (i * BLOCK_SIZE)\<rparr>"

definition allocate_bulk_rmem ::
  "'n netif \<Rightarrow> sockaddr_in6 \<Rightarrow> u64 \<Rightarrow> 'n client \<Rightarrow> (ip6_memaddr list \<times> sockaddr_in6 \<times> 'n client) res" where
  "allocate_bulk_rmem nif tgt num_blocks c =
     bindE (request_blocks nif tgt num_blocks c) (\<lambda>(retAddr, tgt', c').
       Inr (map (block_addr retAddr) [0..<unat num_blocks], tgt', c'))"

definition allocate_uniform_rmem ::
  "'n netif \<Rightarrow> sockaddr_in6 \<Rightarrow> u64 \<Rightarrow> 'n client \<Rightarrow> (ip6_memaddr_block \<times> sockaddr_in6 \<times> 'n client) res" where
  "allocate_uniform_rmem nif tgt num_blocks c =
     bindE (request_blocks nif tgt num_blocks c) (\<lambda>(retAddr, tgt', c').
       Inr (\<lparr>memaddr = retAddr, blk_length = num_blocks, blk_offset = 0\<rparr>, tgt', c'))"

section \<open>Single transfers\<close>

definition read_rmem ::
  "'n netif \<Rightarrow> sockaddr_in6 \<Rightarrow> ip6_memaddr \<Rightarrow> u64 \<Rightarrow> u16 \<Rightarrow> 'n client \<Rightarrow>
     (nat \<times> sockaddr_in6 \<times> ip6_memaddr \<times> 'n client) res" where
  "read_rmem nif tgt remote_addr rx_buf len c =
     (let ra = remote_addr\<lparr>cmd := READ_CMD, args := ucast len\<rparr> in
      bindE (c_send nif (send_udp_raw [] ra (sin6_port tgt)) c) (\<lambda>c1.
      bindE (rcv_udp6_raw nif (Some rx_buf) c1) (\<lambda>(numBytes, tgt', _, c2).
        Inr (numBytes, tgt', ra, c2))))"

definition write_rmem ::
  "'n netif \<Rightarrow> sockaddr_in6 \<Rightarrow> ip6_memaddr \<Rightarrow> bytes \<Rightarrow> 'n client \<Rightarrow>
     (sockaddr_in6 \<times> ip6_memaddr \<times> 'n client) res" where
  "write_rmem nif tgt remote_addr payload c =
     (let ra = remote_addr\<lparr>cmd := WRITE_CMD\<rparr> in
      bindE (c_send nif (send_udp_raw payload ra (sin6_port tgt)) c) (\<lambda>c1.
      bindE (rcv_udp6_raw nif None c1) (\<lambda>(_, tgt', _, c2).
        Inr (tgt', ra, c2))))"

definition free_rmem ::
  "'n netif \<Rightarrow> sockaddr_in6 \<Rightarrow> ip6_memaddr \<Rightarrow> 'n client \<Rightarrow>
     (sockaddr_in6 \<times> ip6_memaddr \<times> 'n client) res" where
  "free_rmem nif tgt remote_addr c =
     (let ra = remote_addr\<lparr>cmd := FREE_CMD\<rparr> in
      bindE (c_send nif (send_udp_raw [] ra (sin6_port tgt)) c) (\<lambda>c1.
      bindE (rcv_udp6_raw nif None c1) (\<lambda>(_, tgt', ra', c2).
        Inr (tgt', ra', c2))))"

definition trim_bulk_rmem ::
  "'n netif \<Rightarrow> sockaddr_in6 \<Rightarrow> ip6_memaddr \<Rightarrow> u64 \<Rightarrow> 'n client \<Rightarrow>
     (sockaddr_in6 \<times> ip6_memaddr \<times> 'n client) res" where
  "trim_bulk_rmem nif tgt remote_addr sz c =
     (let ra = remote_addr\<lparr>cmd := TRIM_CMD\<rparr> in
      bindE (c_send nif (send_udp_raw (le_bytes 8 sz) ra (sin6_port tgt)) c) (\<lambda>c1.
      bindE (rcv_udp6_raw nif None c1) (\<lambda>(_, tgt', ra', c2).
        Inr (tgt', ra', c2))))"

section \<open>Batched transfers\<close>

definition BATCH_SIZE :: nat where "BATCH_SIZE = 40"

text \<open>\<open>sub_array xs k n\<close> is the part of an array a callee sees that is handed \<^verbatim>\<open>&xs[k]\<close> and uses \<open>n\<close> entries.\<close>

definition sub_array :: "'a list \<Rightarrow> nat \<Rightarrow> nat \<Rightarrow> 'a list res" where
  "sub_array xs k n = (if k + n \<le> length xs then Inr (take n (drop k xs)) else Inl Segv)"

text \<open>
  The packets of a batch. A write packet carries in \<^verbatim>\<open>args\<close> its position among the packets to the
  same subnet, counted from one; a read packet the length to read, and as payload the client
  address the answer is to be written to.
\<close>

fun write_pkts ::
  "u16 \<Rightarrow> bytes \<Rightarrow> nat \<Rightarrow> nat \<Rightarrow> ip6_memaddr list \<Rightarrow> (u16 \<Rightarrow> u32) \<Rightarrow> (pkt_rqst list \<times> (u16 \<Rightarrow> u32)) res"
where
  "write_pkts port payload chunk_len i [] sub_ids = Inr ([], sub_ids)"
| "write_pkts port payload chunk_len i (a # as) sub_ids =
     bindE (sub_id_at sub_ids (subid a)) (\<lambda>k.
     bindE (sub_array payload (chunk_len * i) chunk_len) (\<lambda>chunk.
     bindE (write_pkts port payload chunk_len (Suc i) as (sub_ids(subid a := k + 1))) (\<lambda>(ps, sub_ids').
       Inr (\<lparr>dst_addr = a\<lparr>args := k + 1, cmd := WRITE_BULK_CMD\<rparr>, dst_port = port, data = chunk\<rparr> # ps,
            sub_ids'))))"

fun read_pkts ::
  "u16 \<Rightarrow> u64 \<Rightarrow> nat \<Rightarrow> nat \<Rightarrow> ip6_memaddr list \<Rightarrow> (u16 \<Rightarrow> u32) \<Rightarrow> (pkt_rqst list \<times> (u16 \<Rightarrow> u32)) res"
where
  "read_pkts port buffer chunk_len i [] sub_ids = Inr ([], sub_ids)"
| "read_pkts port buffer chunk_len i (a # as) sub_ids =
     bindE (sub_id_at sub_ids (subid a)) (\<lambda>k.
     bindE (read_pkts port buffer chunk_len (Suc i) as (sub_ids(subid a := k + 1))) (\<lambda>(ps, sub_ids').
       Inr (\<lparr>dst_addr = a\<lparr>cmd := READ_BULK_CMD, args := of_nat chunk_len\<rparr>, dst_port = port,
             data = le_bytes 8 (buffer + of_nat (i * chunk_len))\<rparr> # ps,
            sub_ids')))"

text \<open>One acknowledgement is awaited for every subnet the batch addressed.\<close>

fun wait_acks :: "'n netif \<Rightarrow> nat list \<Rightarrow> sockaddr_in6 \<Rightarrow> 'n client \<Rightarrow> (sockaddr_in6 \<times> 'n client) res" where
  "wait_acks nif [] tgt c = Inr (tgt, c)"
| "wait_acks nif (i # is) tgt c =
     (if cl_sub_ids c (of_nat i) \<noteq> 0
      then bindE (rcv_udp6_raw nif None c) (\<lambda>(_, tgt', _, c'). wait_acks nif is tgt' c')
      else wait_acks nif is tgt c)"

definition batch_write ::
  "'n netif \<Rightarrow> sockaddr_in6 \<Rightarrow> ip6_memaddr list \<Rightarrow> bytes \<Rightarrow> nat \<Rightarrow> 'n client \<Rightarrow> (sockaddr_in6 \<times> 'n client) res"
where
  "batch_write nif tgt remote_addrs payload chunk_len c =
     bindE (write_pkts (sin6_port tgt) payload chunk_len 0 remote_addrs (\<lambda>_. 0)) (\<lambda>(pkts, sub_ids).
     bindE (send_udp_raw_batched nif pkts (c\<lparr>cl_sub_ids := sub_ids\<rparr>)) (\<lambda>c1.
       wait_acks nif [0..<USHRT_MAX] tgt c1))"

definition batch_read ::
  "'n netif \<Rightarrow> sockaddr_in6 \<Rightarrow> ip6_memaddr list \<Rightarrow> u64 \<Rightarrow> nat \<Rightarrow> 'n client \<Rightarrow> 'n client res"
where
  "batch_read nif tgt remote_addrs buffer chunk_len c =
     bindE (read_pkts (sin6_port tgt) buffer chunk_len 0 remote_addrs (\<lambda>_. 0)) (\<lambda>(pkts, sub_ids).
     bindE (send_udp_raw_batched nif pkts (c\<lparr>cl_sub_ids := sub_ids\<rparr>)) (\<lambda>c1.
       rcv_udp6_raw_bulk nif (length remote_addrs) c1))"

text \<open>The loops over full batches, from batch \<open>i\<close> on.\<close>

fun write_batches ::
  "'n netif \<Rightarrow> ip6_memaddr list \<Rightarrow> bytes \<Rightarrow> nat \<Rightarrow> nat \<Rightarrow> sockaddr_in6 \<Rightarrow> 'n client \<Rightarrow>
     (sockaddr_in6 \<times> 'n client) res"
where
  "write_batches nif addrs payload i 0 tgt c = Inr (tgt, c)"
| "write_batches nif addrs payload i (Suc n) tgt c =
     bindE (sub_array addrs (i * BATCH_SIZE) BATCH_SIZE) (\<lambda>as.
     bindE (batch_write nif tgt as (drop (BLOCK_SIZE * i * BATCH_SIZE) payload) BLOCK_SIZE c)
       (\<lambda>(tgt', c'). write_batches nif addrs payload (Suc i) n tgt' c'))"

text \<open>In the reading loop the index is a 32 bit integer, and so are the products.\<close>

fun read_batches ::
  "'n netif \<Rightarrow> ip6_memaddr list \<Rightarrow> u64 \<Rightarrow> nat \<Rightarrow> nat \<Rightarrow> sockaddr_in6 \<Rightarrow> 'n client \<Rightarrow> 'n client res"
where
  "read_batches nif addrs rx_buf i 0 tgt c = Inr c"
| "read_batches nif addrs rx_buf i (Suc n) tgt c =
     bindE (sub_array addrs (i * BATCH_SIZE mod 2 ^ 32) BATCH_SIZE) (\<lambda>as.
     bindE (batch_read nif tgt as (rx_buf + of_nat (BLOCK_SIZE * i * BATCH_SIZE mod 2 ^ 32)) BLOCK_SIZE c)
       (\<lambda>c'. read_batches nif addrs rx_buf (Suc i) n tgt c'))"

text \<open>
  The bulk transfers return \<^verbatim>\<open>EXIT_SUCCESS\<close> (0) or \<^verbatim>\<open>EXIT_FAILURE\<close> (1), and the address array,
  whose first entry a single transfer updates.
\<close>

definition write_bulk_rmem ::
  "'n netif \<Rightarrow> sockaddr_in6 \<Rightarrow> ip6_memaddr list \<Rightarrow> nat \<Rightarrow> bytes \<Rightarrow> nat \<Rightarrow> 'n client \<Rightarrow>
     (int \<times> ip6_memaddr list \<times> sockaddr_in6 \<times> 'n client) res"
where
  "write_bulk_rmem nif tgt addrs num_addrs payload sz c =
     (if sz \<le> BLOCK_SIZE
      then bindE (sub_array addrs 0 1) (\<lambda>as.
           bindE (sub_array payload 0 sz) (\<lambda>bs.
           bindE (write_rmem nif tgt (hd as) bs c) (\<lambda>(tgt', ra, c'). Inr (0, addrs[0 := ra], tgt', c'))))
      else
        let num_chunks = sz div BLOCK_SIZE;
            chunk_residual = (sz mod BLOCK_SIZE) mod 2 ^ 16
        in if num_addrs < num_chunks then Inr (1, addrs, tgt, c)
           else
             let batches = num_chunks div BATCH_SIZE;
                 batch_residual = num_chunks mod BATCH_SIZE;
                 offset = num_chunks - batch_residual
             in bindE (write_batches nif addrs payload 0 batches tgt c) (\<lambda>(tgt1, c1).
                bindE (sub_array addrs offset batch_residual) (\<lambda>as.
                bindE (batch_write nif tgt1 as (drop (BLOCK_SIZE * offset) payload) BLOCK_SIZE c1) (\<lambda>(tgt2, c2).
                  if chunk_residual = 0 then Inr (0, addrs, tgt2, c2)
                  else
                    bindE (sub_array addrs 0 1) (\<lambda>as.
                    bindE (sub_array payload (BLOCK_SIZE * (offset + 1)) chunk_residual) (\<lambda>bs.
                    bindE (write_rmem nif tgt2 (hd as) bs c2) (\<lambda>(tgt', ra, c').
                      Inr (0, addrs[0 := ra], tgt', c'))))))))"

definition read_bulk_rmem ::
  "'n netif \<Rightarrow> sockaddr_in6 \<Rightarrow> ip6_memaddr list \<Rightarrow> nat \<Rightarrow> u64 \<Rightarrow> nat \<Rightarrow> 'n client \<Rightarrow>
     (int \<times> ip6_memaddr list \<times> sockaddr_in6 \<times> 'n client) res"
where
  "read_bulk_rmem nif tgt addrs num_addrs rx_buf sz c =
     (if sz \<le> BLOCK_SIZE
      then bindE (sub_array addrs 0 1) (\<lambda>as.
           bindE (read_rmem nif tgt (hd as) rx_buf (of_nat sz) c) (\<lambda>(_, tgt', ra, c').
             Inr (0, addrs[0 := ra], tgt', c')))
      else
        let num_chunks = sz div BLOCK_SIZE;
            chunk_residual = (sz mod BLOCK_SIZE) mod 2 ^ 16
        in if num_addrs < num_chunks then Inr (1, addrs, tgt, c)
           else
             let batches = (num_chunks div BATCH_SIZE) mod 2 ^ 32;
                 batch_residual = num_chunks mod BATCH_SIZE;
                 offset = num_chunks - batch_residual
             in bindE (read_batches nif addrs rx_buf 0 batches tgt c) (\<lambda>c1.
                bindE (sub_array addrs offset batch_residual) (\<lambda>as.
                bindE (batch_read nif tgt as (rx_buf + of_nat (BLOCK_SIZE * offset)) BLOCK_SIZE c1) (\<lambda>c2.
                  if chunk_residual = 0 then Inr (0, addrs, tgt, c2)
                  else
                    bindE (sub_array addrs 0 1) (\<lambda>as.
                    bindE (read_rmem nif tgt (hd as) (rx_buf + of_nat (BLOCK_SIZE * (offset + 1)))
                        (of_nat chunk_residual) c2) (\<lambda>(_, tgt', ra, c').
                      Inr (0, addrs[0 := ra], tgt', c')))))))"

text \<open>The uniform transfers expand a block into the addresses of its remaining units.\<close>

definition expand_block :: "ip6_memaddr_block \<Rightarrow> ip6_memaddr list" where
  "expand_block b = map (block_addr (memaddr b)) [unat (blk_offset b)..<unat (blk_length b)]"

definition write_uniform_rmem ::
  "'n netif \<Rightarrow> sockaddr_in6 \<Rightarrow> ip6_memaddr_block \<Rightarrow> bytes \<Rightarrow> nat \<Rightarrow> 'n client \<Rightarrow>
     (int \<times> sockaddr_in6 \<times> 'n client) res"
where
  "write_uniform_rmem nif tgt b payload sz c =
     bindE (write_bulk_rmem nif tgt (expand_block b) (unat (blk_length b - blk_offset b)) payload sz c)
       (\<lambda>(_, _, tgt', c'). Inr (0, tgt', c'))"

definition read_uniform_rmem ::
  "'n netif \<Rightarrow> sockaddr_in6 \<Rightarrow> ip6_memaddr_block \<Rightarrow> u64 \<Rightarrow> nat \<Rightarrow> 'n client \<Rightarrow>
     (int \<times> sockaddr_in6 \<times> 'n client) res"
where
  "read_uniform_rmem nif tgt b rx_buf sz c =
     bindE (read_bulk_rmem nif tgt (expand_block b) (unat (blk_length b - blk_offset b)) rx_buf sz c)
       (\<lambda>(_, _, tgt', c'). Inr (0, tgt', c'))"

section \<open>Striped transfers\<close>

text \<open>
  The transfers behind the striped memory of \<^verbatim>\<open>vmem/rrmem.c\<close>: one request per host, then one answer
  per host, filed by the fifth byte of the answering host's address. The answer is received in a
  local buffer of \<^verbatim>\<open>BLOCK_SIZE\<close> bytes (\<open>rx_buf\<close>, uninitialised at first). A receive here always
  yields a message, so the branches for a result of \<^verbatim>\<open>-1\<close> (a timeout) are never taken.
\<close>

definition MAX_HOSTS :: nat where "MAX_HOSTS = 5"

definition rcv_local ::
  "'n netif \<Rightarrow> bytes \<Rightarrow> 'n client \<Rightarrow> (bytes \<times> sockaddr_in6 \<times> 'n client) res" where
  "rcv_local nif rx_buf c =
     bindE (nif_recv nif (cl_net c)) (\<lambda>(msg, n).
     bindE (put rx_buf 0 (m_data msg)) (\<lambda>rx_buf'.
       Inr (rx_buf', \<lparr>sin6_addr = m_src msg, sin6_port = m_sport msg\<rparr>, c\<lparr>cl_net := n\<rparr>)))"

definition raid_host :: "sockaddr_in6 \<Rightarrow> nat res" where
  "raid_host tgt =
     (let b = unat (memaddr_bytes (sin6_addr tgt) ! 5)
      in if 2 \<le> b \<and> b - 2 < MAX_HOSTS then Inr (b - 2) else Inl Segv)"

fun raid_requests ::
  "'n netif \<Rightarrow> u16 \<Rightarrow> u16 \<Rightarrow> bytes list \<Rightarrow> ip6_memaddr list \<Rightarrow> 'n client \<Rightarrow> (ip6_memaddr list \<times> 'n client) res" where
  "raid_requests nif c0 port (bs # bss) (a # as) c =
     (let a' = a\<lparr>cmd := c0\<rparr> in
      bindE (c_send nif (send_udp_raw bs a' port) c) (\<lambda>c1.
      bindE (raid_requests nif c0 port bss as c1) (\<lambda>(as', c2). Inr (a' # as', c2))))"
| "raid_requests nif c0 port [] as c = Inr (as, c)"
| "raid_requests nif c0 port (bs # bss) [] c = Inl Segv"

fun raid_answers ::
  "'n netif \<Rightarrow> nat \<Rightarrow> bytes \<Rightarrow> bytes list \<Rightarrow> bool list \<Rightarrow> sockaddr_in6 \<Rightarrow> 'n client \<Rightarrow>
     (bytes list \<times> bool list \<times> sockaddr_in6 \<times> 'n client) res" where
  "raid_answers nif 0 rx_buf bufs found tgt c = Inr (bufs, found, tgt, c)"
| "raid_answers nif (Suc n) rx_buf bufs found tgt c =
     bindE (rcv_local nif rx_buf c) (\<lambda>(rx_buf', tgt', c').
     bindE (raid_host tgt') (\<lambda>host.
       raid_answers nif n rx_buf' (bufs[host := take BLOCK_SIZE rx_buf']) (found[host := True]) tgt' c'))"

text \<open>The result is the index of a host that did not answer, or \<^verbatim>\<open>-1\<close>.\<close>

definition read_raid_mem ::
  "'n netif \<Rightarrow> bytes \<Rightarrow> sockaddr_in6 \<Rightarrow> nat \<Rightarrow> bytes list \<Rightarrow> ip6_memaddr list \<Rightarrow> 'n client \<Rightarrow>
     (int \<times> bytes list \<times> ip6_memaddr list \<times> sockaddr_in6 \<times> 'n client) res" where
  "read_raid_mem nif rx_buf tgt nh bufs addrs c =
     bindE (raid_requests nif READ_CMD (sin6_port tgt) (replicate nh []) addrs c) (\<lambda>(addrs', c1).
     bindE (raid_answers nif nh rx_buf bufs (replicate MAX_HOSTS False) tgt c1) (\<lambda>(bufs', found, tgt', c2).
       Inr (case filter (\<lambda>i. \<not> found ! i) [0..<nh] of [] \<Rightarrow> - 1 | i # _ \<Rightarrow> int i,
            bufs', addrs', tgt', c2)))"

definition write_raid_mem ::
  "'n netif \<Rightarrow> bytes \<Rightarrow> sockaddr_in6 \<Rightarrow> nat \<Rightarrow> bytes list \<Rightarrow> ip6_memaddr list \<Rightarrow> 'n client \<Rightarrow>
     (bytes list \<times> ip6_memaddr list \<times> sockaddr_in6 \<times> 'n client) res" where
  "write_raid_mem nif rx_buf tgt nh payload addrs c =
     bindE (sub_array payload 0 nh) (\<lambda>stripes.
     bindE (raid_requests nif WRITE_CMD (sin6_port tgt) stripes addrs c) (\<lambda>(addrs', c1).
     bindE (raid_answers nif nh rx_buf payload (replicate MAX_HOSTS False) tgt c1)
       (\<lambda>(payload', _, tgt', c2). Inr (payload', addrs', tgt', c2))))"

end
