(* ===== verification/BB_Remote.thy ===== *)
theory BB_Remote
  imports BB_Client
begin

text \<open>
  What the client library promises of remote memory, over any network that offers the service
  of a memory server: the contract of such a network is the locale \<open>memory_service\<close>, and the
  lemmas proved in it say what single, batched and bulk transfers of \<^verbatim>\<open>client_lib.c\<close> do to the
  remote memory and to the client's buffers.
\<close>

section \<open>Remote memory as the client sees it\<close>

type_synonym rview = "u16 \<Rightarrow> mem"

definition MAX_DATA :: nat where "MAX_DATA = 8098"

definition put_chunk :: "rview \<Rightarrow> ip6_memaddr \<times> bytes \<Rightarrow> rview" where
  "put_chunk v = (\<lambda>(a, bs). v(subid a := overwrite (v (subid a)) (paddr a) bs))"

definition put_chunks :: "rview \<Rightarrow> (ip6_memaddr \<times> bytes) list \<Rightarrow> rview" where
  "put_chunks v xs = foldl put_chunk v xs"

definition chunks :: "bytes \<Rightarrow> nat \<Rightarrow> bytes list" where
  "chunks payload n = map (\<lambda>i. slice payload (BLOCK_SIZE * i) BLOCK_SIZE) [0..<n]"

definition rmapped :: "rview \<Rightarrow> ip6_memaddr \<Rightarrow> nat \<Rightarrow> bool" where
  "rmapped v a n \<longleftrightarrow> mapped (v (subid a)) (paddr a) n"

definition rload :: "rview \<Rightarrow> nat \<Rightarrow> ip6_memaddr \<Rightarrow> bytes" where
  "rload v n a = the (load (v (subid a)) (paddr a) n)"

text \<open>
  An allocation at \<open>p\<close>: a null pointer changes nothing; otherwise \<open>k\<close> bytes that were free are
  now mapped and zero, and the range does not wrap.
\<close>

definition alloc_len :: "u64 \<Rightarrow> nat" where
  "alloc_len sz = unat (if sz = 0 then 1 else sz)"

definition alloc_view :: "rview \<Rightarrow> u16 \<Rightarrow> u64 \<Rightarrow> nat \<Rightarrow> rview \<Rightarrow> bool" where
  "alloc_view v s p k v' \<longleftrightarrow>
     (if p = 0 then v' = v
      else unat p + k \<le> 2 ^ 64 \<and> (\<forall>x. in_range p k x \<longrightarrow> v s x = None) \<and>
        v' = v(s := \<lambda>x. if in_range p k x then Some 0 else v s x))"

text \<open>The packets and counts of a batch, as lists.\<close>

fun tally :: "ip6_memaddr list \<Rightarrow> (u16 \<Rightarrow> nat) \<Rightarrow> u16 \<Rightarrow> nat" where
  "tally [] k = k"
| "tally (a # as) k = tally as (k(subid a := Suc (k (subid a))))"

fun wpkts :: "u16 \<Rightarrow> bytes \<Rightarrow> nat \<Rightarrow> nat \<Rightarrow> ip6_memaddr list \<Rightarrow> (u16 \<Rightarrow> nat) \<Rightarrow> pkt_rqst list" where
  "wpkts port payload cl i [] k = []"
| "wpkts port payload cl i (a # as) k =
     \<lparr>dst_addr = a\<lparr>args := of_nat (Suc (k (subid a))), cmd := WRITE_BULK_CMD\<rparr>, dst_port = port,
      data = slice payload (cl * i) cl\<rparr> # wpkts port payload cl (Suc i) as (k(subid a := Suc (k (subid a))))"

fun rpkts :: "u16 \<Rightarrow> u64 \<Rightarrow> nat \<Rightarrow> nat \<Rightarrow> ip6_memaddr list \<Rightarrow> pkt_rqst list" where
  "rpkts port buffer cl i [] = []"
| "rpkts port buffer cl i (a # as) =
     \<lparr>dst_addr = a\<lparr>cmd := READ_BULK_CMD, args := of_nat cl\<rparr>, dst_port = port,
      data = le_bytes 8 (buffer + of_nat (i * cl))\<rparr> # rpkts port buffer cl (Suc i) as"

definition in_table :: "ip6_memaddr \<Rightarrow> bool" where
  "in_table a \<longleftrightarrow> unat (subid a) < USHRT_MAX"

text \<open>A write to \<open>b\<close> leaves the block at \<open>a\<close> alone; a list of addresses of separate blocks.\<close>

definition chunk_sep :: "ip6_memaddr \<Rightarrow> ip6_memaddr \<Rightarrow> bool" where
  "chunk_sep a b \<longleftrightarrow> subid a \<noteq> subid b \<or> disjoint_ranges (paddr a) BLOCK_SIZE (paddr b) BLOCK_SIZE"

definition separate :: "ip6_memaddr list \<Rightarrow> bool" where
  "separate as \<longleftrightarrow> sorted_wrt chunk_sep as"

section \<open>Batches\<close>

lemma tally_step:
  assumes "k' = k(x := Suc (k x))"
  shows "(\<lambda>s. of_nat (k s) :: u32)(x := of_nat (k x) + 1) = (\<lambda>s. of_nat (k' s))"
  using assms by auto

lemma write_pkts_eq:
  assumes "\<forall>a\<in>set as. in_table a" "cl * (i + length as) \<le> length payload"
  shows "write_pkts port payload cl i as (\<lambda>s. of_nat (k s)) =
    Inr (wpkts port payload cl i as k, \<lambda>s. of_nat (tally as k s))"
  using assms
proof (induction as arbitrary: i k)
  case (Cons a as)
  have "cl * i + cl \<le> length payload"
  proof -
    have "cl * (i + 1) \<le> cl * (i + length (a # as))" by (intro mult_le_mono2) simp
    with Cons.prems(2) show ?thesis by (simp add: distrib_left)
  qed
  moreover define k' where "k' = k(subid a := Suc (k (subid a)))"
  ultimately show ?case
    using Cons.prems Cons.IH [of "Suc i" k'] tally_step [OF k'_def]
    by (simp add: sub_id_at_def in_table_def sub_array_def slice_def add.commute flip: k'_def)
qed simp

lemma read_pkts_eq:
  assumes "\<forall>a\<in>set as. in_table a"
  shows "read_pkts port buffer cl i as (\<lambda>s. of_nat (k s)) =
    Inr (rpkts port buffer cl i as, \<lambda>s. of_nat (tally as k s))"
  using assms
proof (induction as arbitrary: i k)
  case (Cons a as)
  define k' where "k' = k(subid a := Suc (k (subid a)))"
  show ?case
    using Cons.prems Cons.IH [of "Suc i" k'] tally_step [OF k'_def]
    by (simp add: sub_id_at_def in_table_def add.commute flip: k'_def)
qed simp

lemma tally_count: "tally as k s = k s + count_list (map subid as) s"
  by (induction as arbitrary: k) auto

lemma stamp_complete:
  assumes "a < 65536" "b < 65536"
  shows "batch_complete (of_nat a OR push_bit 16 (of_nat b)) \<longleftrightarrow> a = b"
proof -
  have w: "take_bit 16 (of_nat x :: u32) = of_nat x" if "x < 65536" for x
    using that by (simp add: take_bit_of_nat take_bit_nat_eq_self)
  have "take_bit 16 (of_nat a OR push_bit 16 (of_nat b) :: u32) = of_nat a"
    using w [OF assms(1)] by (simp add: take_bit_or take_bit_push_bit)
  moreover have "drop_bit 16 (of_nat a OR push_bit 16 (of_nat b) :: u32) = of_nat b"
  proof (rule bit_word_eqI)
    fix n assume "n < LENGTH(32)"
    have "\<not> bit (of_nat a :: u32) (n + 16)"
      using w [OF assms(1)] by (metis bit_take_bit_iff not_add_less2)
    moreover have "bit (of_nat b :: u32) n \<Longrightarrow> n < 16"
      using w [OF assms(2)] by (metis bit_take_bit_iff)
    ultimately show "bit (drop_bit 16 (of_nat a OR push_bit 16 (of_nat b)) :: u32) n = bit (of_nat b :: u32) n"
      by (auto simp: bit_drop_bit_eq bit_or_iff bit_push_bit_iff add.commute)
  qed
  ultimately have "batch_complete (of_nat a OR push_bit 16 (of_nat b)) \<longleftrightarrow> (of_nat a :: u32) = of_nat b"
    using w [OF assms(2)] by (simp add: batch_complete_iff ucast_u32_eq_iff)
  also have "\<dots> \<longleftrightarrow> a = b"
    using assms by (simp add: word_of_nat_eq_iff take_bit_nat_eq_self)
  finally show ?thesis .
qed

lemma put_chunk_addr [simp]:
  "put_chunk v (a\<lparr>args := x\<rparr>, bs) = put_chunk v (a, bs)"
  "put_chunk v (a\<lparr>cmd := y\<rparr>, bs) = put_chunk v (a, bs)"
  by (simp_all add: put_chunk_def)

lemma put_chunks_simps [simp]:
  "put_chunks v [] = v"
  "put_chunks v (x # xs) = put_chunks (put_chunk v x) xs"
  by (simp_all add: put_chunks_def)

lemma put_chunks_append: "put_chunks v (xs @ ys) = put_chunks (put_chunks v xs) ys"
  by (simp add: put_chunks_def)

lemma rmapped_put_chunk: "rmapped v a n \<Longrightarrow> rmapped (put_chunk v x) a n"
  by (cases x) (auto simp: rmapped_def put_chunk_def)

lemma ack_count:
  assumes "\<forall>a\<in>set as. in_table a" "length as < 65536"
  shows "length (filter (\<lambda>i. (of_nat (tally as (\<lambda>_. 0) (of_nat i)) :: u32) \<noteq> 0) [0..<USHRT_MAX]) =
    length (remdups (map subid as))"
proof -
  let ?S = "set (map subid as)"
  have nz: "(of_nat (tally as (\<lambda>_. 0) s) :: u32) \<noteq> 0 \<longleftrightarrow> s \<in> ?S" for s
  proof -
    have "tally as (\<lambda>_. 0) s < 2 ^ 32"
      using assms(2) count_le_length [of "map subid as" s] by (simp add: tally_count)
    then have "(of_nat (tally as (\<lambda>_. 0) s) :: u32) = 0 \<longleftrightarrow> tally as (\<lambda>_. 0) s = 0"
      using word_of_nat_eq_0_iff [of "tally as (\<lambda>_. 0) s", where 'a = 32] by (auto dest: dvd_imp_le)
    then show ?thesis by (simp add: tally_count count_list_0_iff)
  qed
  have "length (filter (\<lambda>i. of_nat i \<in> ?S) [0..<USHRT_MAX]) = card {i \<in> {0..<USHRT_MAX}. of_nat i \<in> ?S}"
    by (simp add: distinct_length_filter Int_def conj_commute)
  also have "\<dots> = card ?S"
  proof (rule bij_betw_same_card [of of_nat], rule bij_betw_byWitness [where f' = unat])
    show "unat ` ?S \<subseteq> {i \<in> {0..<USHRT_MAX}. (of_nat i :: u16) \<in> ?S}"
      using assms(1) by (auto simp: in_table_def)
  qed (auto simp: USHRT_MAX_def unat_of_nat take_bit_nat_eq_self)
  finally show ?thesis by (simp add: nz length_remdups_card_conv)
qed

lemma length_rload: "rmapped v a n \<Longrightarrow> length (rload v n a) = n"
  by (simp add: rload_def rmapped_def load_mapped)

lemma length_chunks [simp]: "length (chunks payload n) = n"
  by (simp add: chunks_def)

lemma nth_chunks: "i < n \<Longrightarrow> chunks payload n ! i = slice payload (BLOCK_SIZE * i) BLOCK_SIZE"
  by (simp add: chunks_def)

lemma length_chunk:
  assumes "BLOCK_SIZE * n \<le> length payload" "c \<in> set (chunks payload n)"
  shows "length c = BLOCK_SIZE"
proof -
  obtain i where i: "i < n" "c = slice payload (BLOCK_SIZE * i) BLOCK_SIZE"
    using assms(2) by (auto simp: chunks_def)
  have "BLOCK_SIZE * i + BLOCK_SIZE \<le> BLOCK_SIZE * n"
    using i(1) mult_le_mono2 [of "Suc i" n BLOCK_SIZE] by simp
  with i(2) assms(1) show ?thesis by simp
qed

lemma chunks_add: "chunks payload (k + m) = chunks payload k @ chunks (drop (BLOCK_SIZE * k) payload) m"
proof (rule nth_equalityI)
  fix i assume "i < length (chunks payload (k + m))"
  then show "chunks payload (k + m) ! i = (chunks payload k @ chunks (drop (BLOCK_SIZE * k) payload) m) ! i"
    by (auto simp: nth_append nth_chunks slice_def not_less simp flip: add_mult_distrib2)
qed simp

lemma concat_chunks: "BLOCK_SIZE * n \<le> length payload \<Longrightarrow> concat (chunks payload n) = take (BLOCK_SIZE * n) payload"
proof (induction n)
  case (Suc n)
  have "chunks payload (Suc n) = chunks payload n @ [slice payload (BLOCK_SIZE * n) BLOCK_SIZE]"
    by (simp add: chunks_def)
  with Suc show ?case by (simp add: slice_def take_add add.commute [of BLOCK_SIZE])
qed (simp add: chunks_def)

lemma put_chunks_step:
  assumes "k + m \<le> length addrs"
  shows "put_chunks (put_chunks v (zip (take k addrs) (chunks payload k)))
      (zip (take m (drop k addrs)) (chunks (drop (BLOCK_SIZE * k) payload) m)) =
    put_chunks v (zip (take (k + m) addrs) (chunks payload (k + m)))"
  using assms by (simp add: chunks_add take_add zip_append put_chunks_append)

lemma rmapped_put_chunks: "rmapped v a n \<Longrightarrow> rmapped (put_chunks v xs) a n"
  by (induction xs arbitrary: v) (simp_all add: rmapped_put_chunk)

lemma put_chunk_empty [simp]: "put_chunk v (a, []) = v"
  by (simp add: put_chunk_def overwrite_def)

lemma rload_put_chunk_same:
  assumes "rmapped v a (length bs)" "length bs \<le> 2 ^ 64"
  shows "rload (put_chunk v (a, bs)) (length bs) a = bs"
  using assms by (simp add: rload_def put_chunk_def rmapped_def load_overwrite_same)

lemma rload_put_chunks_other:
  assumes "\<forall>(b, bs)\<in>set xs. chunk_sep a b \<and> length bs = BLOCK_SIZE"
  shows "rload (put_chunks v xs) BLOCK_SIZE a = rload v BLOCK_SIZE a"
  using assms
proof (induction xs arbitrary: v)
  case (Cons x xs)
  obtain b bs where x: "x = (b, bs)" by (cases x)
  have "rload (put_chunk v (b, bs)) BLOCK_SIZE a = rload v BLOCK_SIZE a"
    using Cons.prems x by (auto simp: rload_def put_chunk_def chunk_sep_def load_overwrite_other)
  with Cons x show ?case by simp
qed simp

lemma rload_put_chunks:
  assumes "separate as" "length cs = length as" "\<forall>a\<in>set as. rmapped v a BLOCK_SIZE"
    and "\<forall>c\<in>set cs. length c = BLOCK_SIZE"
  shows "map (rload (put_chunks v (zip as cs)) BLOCK_SIZE) as = cs"
  using assms
proof (induction as arbitrary: cs v)
  case (Cons a as)
  then obtain c cs' where cs: "cs = c # cs'" "length cs' = length as" by (cases cs) auto
  have "rload (put_chunks (put_chunk v (a, c)) (zip as cs')) BLOCK_SIZE a = rload (put_chunk v (a, c)) BLOCK_SIZE a"
    using Cons.prems cs by (intro rload_put_chunks_other) (auto simp: separate_def dest: set_zip_leftD set_zip_rightD)
  moreover have "rload (put_chunk v (a, c)) BLOCK_SIZE a = c"
    using Cons.prems cs rload_put_chunk_same [of v a c] by (auto simp: BLOCK_SIZE_def)
  moreover have "map (rload (put_chunks (put_chunk v (a, c)) (zip as cs')) BLOCK_SIZE) as = cs'"
    using Cons.prems cs by (intro Cons.IH) (auto simp: separate_def rmapped_put_chunk)
  ultimately show ?case using cs by simp
qed simp

lemma BLOCK_SIZE_le_MAX: "BLOCK_SIZE \<le> MAX_DATA"
  by (simp add: BLOCK_SIZE_def MAX_DATA_def)

lemma mod_BLOCK_SIZE [simp]: "n mod BLOCK_SIZE = 0"
  by (simp add: BLOCK_SIZE_def)

lemma div_BLOCK_SIZE [simp]: "BLOCK_SIZE * (n div BLOCK_SIZE) = n"
  by (simp add: BLOCK_SIZE_def)

lemma length_concat_rload:
  assumes "\<forall>a\<in>set as. rmapped v a n"
  shows "length (concat (map (rload v n) as)) = n * length as"
  using assms by (induction as) (simp_all add: length_rload)

section \<open>The contract of the network\<close>

text \<open>
  \<open>view\<close> is the memory of each server, \<open>pending\<close> the messages on their way to the client, \<open>host\<close>
  the subnets with a server. A request to mapped memory is carried out and answered as
  \<^verbatim>\<open>server_lib.c\<close> answers it; receiving takes the pending messages in order.
\<close>

locale memory_service =
  fixes nif :: "'n netif" and ok :: "'n \<Rightarrow> bool" and view :: "'n \<Rightarrow> rview"
    and pending :: "'n \<Rightarrow> msg list" and port :: u16 and host :: "u16 \<Rightarrow> bool"
  assumes recv_pending:
    "ok n \<Longrightarrow> pending n = m # ms \<Longrightarrow>
       \<exists>n'. nif_recv nif n = Inr (m, n') \<and> ok n' \<and> view n' = view n \<and> pending n' = ms"
  and send_write:
    "ok n \<Longrightarrow> cmd a = WRITE_CMD \<Longrightarrow> host (subid a) \<Longrightarrow> rmapped (view n) a (length bs) \<Longrightarrow> length bs \<le> MAX_DATA \<Longrightarrow>
       \<exists>n' ack. nif_send nif \<lparr>dst_addr = a, dst_port = port, data = bs\<rparr> n = Inr n' \<and> ok n' \<and>
         view n' = put_chunk (view n) (a, bs) \<and> pending n' = pending n @ [ack] \<and> m_sport ack = port"
  and send_write_bulk:
    "ok n \<Longrightarrow> cmd a = WRITE_BULK_CMD \<Longrightarrow> host (subid a) \<Longrightarrow> rmapped (view n) a (length bs) \<Longrightarrow> length bs \<le> MAX_DATA \<Longrightarrow>
       \<exists>n' ack. nif_send nif \<lparr>dst_addr = a, dst_port = port, data = bs\<rparr> n = Inr n' \<and> ok n' \<and>
         view n' = put_chunk (view n) (a, bs) \<and>
         pending n' = pending n @ (if batch_complete (args a) then [ack] else []) \<and> m_sport ack = port"
  and send_read:
    "ok n \<Longrightarrow> cmd a = READ_CMD \<Longrightarrow> k = unat (ucast (args a) :: u16) \<Longrightarrow> host (subid a) \<Longrightarrow> rmapped (view n) a k \<Longrightarrow> k \<le> MAX_DATA \<Longrightarrow>
       \<exists>n' ans. nif_send nif \<lparr>dst_addr = a, dst_port = port, data = []\<rparr> n = Inr n' \<and> ok n' \<and>
         view n' = view n \<and> pending n' = pending n @ [ans] \<and> m_sport ans = port \<and> m_data ans = rload (view n) k a"
  and send_read_bulk:
    "ok n \<Longrightarrow> cmd a = READ_BULK_CMD \<Longrightarrow> k = unat (ucast (args a) :: u16) \<Longrightarrow> host (subid a) \<Longrightarrow> rmapped (view n) a k \<Longrightarrow> k \<le> MAX_DATA \<Longrightarrow>
       \<exists>n' ans. nif_send nif \<lparr>dst_addr = a, dst_port = port, data = le_bytes 8 (p :: u64)\<rparr> n = Inr n' \<and> ok n' \<and>
         view n' = view n \<and> pending n' = pending n @ [ans] \<and> m_sport ans = port \<and>
         m_data ans = rload (view n) k a \<and> paddr (m_dst ans) = p"
  and send_alloc_bulk:
    "ok n \<Longrightarrow> cmd a = ALLOC_BULK_CMD \<Longrightarrow> host (subid a) \<Longrightarrow>
       \<exists>n' ans. nif_send nif \<lparr>dst_addr = a, dst_port = port, data = le_bytes 8 sz\<rparr> n = Inr n' \<and> ok n' \<and>
         pending n' = pending n @ [ans] \<and> m_sport ans = port \<and> subid (m_src ans) = subid a \<and>
         alloc_view (view n) (subid a) (paddr (m_dst ans)) (alloc_len sz) (view n')"
begin

definition ready :: "'n client \<Rightarrow> bool" where
  "ready c \<longleftrightarrow> ok (cl_net c) \<and> pending (cl_net c) = []"

lemma rcv_pending:
  assumes "ok (cl_net c)" "pending (cl_net c) = m # ms"
    and "case rx_buf of None \<Rightarrow> m' = cl_mem c | Some a \<Rightarrow> store (cl_mem c) a (m_data m) = Some m'"
  obtains n' where "rcv_udp6_raw nif rx_buf c =
      Inr (length (m_data m), \<lparr>sin6_addr = m_src m, sin6_port = m_sport m\<rparr>, m_dst m,
        c\<lparr>cl_net := n', cl_mem := m'\<rparr>)"
    and "ok n'" "view n' = view (cl_net c)" "pending n' = ms"
  using recv_pending [OF assms(1,2)] assms(3)
  by (auto simp: rcv_udp6_raw_def split: option.splits)

lemma write_rmem_ok:
  assumes "ready c" "sin6_port tgt = port" "host (subid a)" "rmapped (view (cl_net c)) a (length bs)" "length bs \<le> MAX_DATA"
  shows "\<exists>tgt' c'. write_rmem nif tgt a bs c = Inr (tgt', a\<lparr>cmd := WRITE_CMD\<rparr>, c') \<and>
    sin6_port tgt' = port \<and> ready c' \<and> cl_mem c' = cl_mem c \<and>
    view (cl_net c') = put_chunk (view (cl_net c)) (a, bs)"
proof -
  let ?a = "a\<lparr>cmd := WRITE_CMD\<rparr>"
  obtain n1 ack where n1: "nif_send nif \<lparr>dst_addr = ?a, dst_port = port, data = bs\<rparr> (cl_net c) = Inr n1"
    "ok n1" "view n1 = put_chunk (view (cl_net c)) (a, bs)" "pending n1 = [ack]" "m_sport ack = port"
    using send_write [of "cl_net c" ?a bs] assms by (auto simp: ready_def rmapped_def put_chunk_def)
  obtain n2 where "rcv_udp6_raw nif None (c\<lparr>cl_net := n1\<rparr>) =
      Inr (length (m_data ack), \<lparr>sin6_addr = m_src ack, sin6_port = port\<rparr>, m_dst ack, c\<lparr>cl_net := n2\<rparr>)"
    "ok n2" "view n2 = view n1" "pending n2 = []"
    using rcv_pending [of "c\<lparr>cl_net := n1\<rparr>" ack "[]" "cl_mem c" None] n1 by auto
  with n1 assms(2) show ?thesis
    by (simp add: write_rmem_def Let_def c_send_def send_udp_raw_def ready_def)
qed

lemma read_rmem_ok:
  assumes "ready c" "sin6_port tgt = port" "host (subid a)" "rmapped (view (cl_net c)) a (unat len)" "unat len \<le> MAX_DATA"
    and "mapped (cl_mem c) rx_buf (unat len)"
  shows "\<exists>tgt' c'. read_rmem nif tgt a rx_buf len c =
      Inr (unat len, tgt', a\<lparr>cmd := READ_CMD, args := ucast len\<rparr>, c') \<and>
    sin6_port tgt' = port \<and> ready c' \<and> view (cl_net c') = view (cl_net c) \<and>
    cl_mem c' = overwrite (cl_mem c) rx_buf (rload (view (cl_net c)) (unat len) a)"
proof -
  let ?a = "a\<lparr>cmd := READ_CMD, args := ucast len\<rparr>"
  let ?bs = "rload (view (cl_net c)) (unat len) a"
  obtain n1 ans where n1: "nif_send nif \<lparr>dst_addr = ?a, dst_port = port, data = []\<rparr> (cl_net c) = Inr n1"
    "ok n1" "view n1 = view (cl_net c)" "pending n1 = [ans]" "m_sport ans = port" "m_data ans = ?bs"
    using send_read [of "cl_net c" ?a "unat len"] assms by (auto simp: ready_def rmapped_def rload_def)
  have len: "length ?bs = unat len"
    using assms(4) by (simp add: rload_def rmapped_def load_mapped)
  then have "store (cl_mem c) rx_buf ?bs = Some (overwrite (cl_mem c) rx_buf ?bs)"
    using assms(6) unat_u16_small [of len] by (intro store_mapped) simp_all
  then obtain n2 where "rcv_udp6_raw nif (Some rx_buf) (c\<lparr>cl_net := n1\<rparr>) =
      Inr (unat len, \<lparr>sin6_addr = m_src ans, sin6_port = port\<rparr>, m_dst ans,
        c\<lparr>cl_net := n2, cl_mem := overwrite (cl_mem c) rx_buf ?bs\<rparr>)"
    "ok n2" "view n2 = view n1" "pending n2 = []"
    using rcv_pending [of "c\<lparr>cl_net := n1\<rparr>" ans "[]" "overwrite (cl_mem c) rx_buf ?bs" "Some rx_buf"] n1 len by auto
  with n1 assms(2) show ?thesis
    by (simp add: read_rmem_def Let_def c_send_def send_udp_raw_def ready_def)
qed

lemma request_blocks_ok:
  assumes "ready c" "sin6_port tgt = port" "host (subid (sin6_addr tgt))"
  shows "\<exists>ra tgt' c'. request_blocks nif tgt sz c = Inr (ra, tgt', c') \<and> subid ra = subid (sin6_addr tgt) \<and>
    sin6_port tgt' = port \<and> ready c' \<and> cl_mem c' = cl_mem c \<and>
    alloc_view (view (cl_net c)) (subid ra) (paddr ra) (alloc_len sz) (view (cl_net c'))"
proof -
  let ?a = "(sin6_addr tgt)\<lparr>cmd := ALLOC_BULK_CMD\<rparr>"
  obtain n1 ans where n1: "nif_send nif \<lparr>dst_addr = ?a, dst_port = port, data = le_bytes 8 sz\<rparr> (cl_net c) = Inr n1"
    "ok n1" "pending n1 = [ans]" "m_sport ans = port" "subid (m_src ans) = subid ?a"
    "alloc_view (view (cl_net c)) (subid ?a) (paddr (m_dst ans)) (alloc_len sz) (view n1)"
    using send_alloc_bulk [of "cl_net c" ?a sz] assms by (auto simp: ready_def)
  obtain n2 where "rcv_udp6_raw nif None (c\<lparr>cl_net := n1\<rparr>) =
      Inr (length (m_data ans), \<lparr>sin6_addr = m_src ans, sin6_port = port\<rparr>, m_dst ans, c\<lparr>cl_net := n2\<rparr>)"
    "ok n2" "view n2 = view n1" "pending n2 = []"
    using rcv_pending [of "c\<lparr>cl_net := n1\<rparr>" ans "[]" "cl_mem c" None] n1 by auto
  with n1 assms(2) show ?thesis
    by (simp add: request_blocks_def Let_def c_send_def send_udp_raw_def ready_def set_cmd_def)
qed

lemma wait_acks_ok:
  assumes "ok (cl_net c)" "pending (cl_net c) = acks" "\<forall>m\<in>set acks. m_sport m = port"
    and "length acks = length (filter (\<lambda>i. cl_sub_ids c (of_nat i) \<noteq> 0) is)" "sin6_port tgt = port"
  shows "\<exists>tgt' n'. wait_acks nif is tgt c = Inr (tgt', c\<lparr>cl_net := n'\<rparr>) \<and> sin6_port tgt' = port \<and>
    ok n' \<and> pending n' = [] \<and> view n' = view (cl_net c)"
  using assms
proof (induction "is" arbitrary: c acks tgt)
  case Nil
  then show ?case by (auto intro: exI [of _ "cl_net c"])
next
  case (Cons i "is")
  show ?case
  proof (cases "cl_sub_ids c (of_nat i) \<noteq> 0")
    case True
    with Cons.prems obtain m ms where acks: "acks = m # ms" by (cases acks) auto
    obtain n1 where n1: "rcv_udp6_raw nif None c =
        Inr (length (m_data m), \<lparr>sin6_addr = m_src m, sin6_port = port\<rparr>, m_dst m, c\<lparr>cl_net := n1\<rparr>)"
      "ok n1" "view n1 = view (cl_net c)" "pending n1 = ms"
      using rcv_pending [of c m ms "cl_mem c" None] Cons.prems acks by auto
    from Cons.IH [of "c\<lparr>cl_net := n1\<rparr>" ms "\<lparr>sin6_addr = m_src m, sin6_port = port\<rparr>"]
      n1 Cons.prems acks True show ?thesis by auto
  next
    case False
    with Cons.IH [of c acks tgt] Cons.prems show ?thesis by simp
  qed
qed

lemma send_wpkts_ok:
  assumes "ok (cl_net c)" "\<forall>a\<in>set as. in_table a \<and> host (subid a) \<and> rmapped (view (cl_net c)) a cl" "cl \<le> MAX_DATA"
    and "cl * (i + length as) \<le> length payload"
    and "cl_sub_ids c = (\<lambda>s. of_nat (tally as k s))" "\<And>s. tally as k s < 65536"
  shows "\<exists>n' acks. send_udp_raw_batched nif (wpkts port payload cl i as k) c = Inr (c\<lparr>cl_net := n'\<rparr>) \<and>
    ok n' \<and> pending n' = pending (cl_net c) @ acks \<and> (\<forall>m\<in>set acks. m_sport m = port) \<and>
    length acks = length (remdups (map subid as)) \<and>
    view n' = put_chunks (view (cl_net c))
      (zip as (map (\<lambda>j. slice payload (cl * (i + j)) cl) [0..<length as]))"
  using assms
proof (induction as arbitrary: i k c)
  case Nil
  then show ?case by (auto intro: exI [of _ "cl_net c"])
next
  case (Cons a as)
  define k' where "k' = k(subid a := Suc (k (subid a)))"
  let ?bs = "slice payload (cl * i) cl"
  let ?T = "tally as k' (subid a)"
  let ?a = "a\<lparr>cmd := WRITE_BULK_CMD, args := of_nat (Suc (k (subid a))) OR push_bit 16 (of_nat ?T)\<rparr>"
  have T: "?T = Suc (k (subid a)) + count_list (map subid as) (subid a)"
    by (simp add: tally_count k'_def)
  have bound: "?T < 65536" using Cons.prems(6) [of "subid a"] by (simp add: k'_def)
  then have complete: "batch_complete (args ?a) \<longleftrightarrow> subid a \<notin> subid ` set as"
    using T stamp_complete [of "Suc (k (subid a))" ?T] by (auto simp: count_list_0_iff)
  have "cl * i + cl \<le> length payload"
  proof -
    have "cl * (i + 1) \<le> cl * (i + length (a # as))" by (intro mult_le_mono2) simp
    with Cons.prems(4) show ?thesis by (simp add: distrib_left)
  qed
  then have len: "length ?bs = cl" by simp
  obtain n1 ack where n1: "nif_send nif \<lparr>dst_addr = ?a, dst_port = port, data = ?bs\<rparr> (cl_net c) = Inr n1"
    "ok n1" "view n1 = put_chunk (view (cl_net c)) (a, ?bs)"
    "pending n1 = pending (cl_net c) @ (if subid a \<notin> subid ` set as then [ack] else [])" "m_sport ack = port"
    using send_write_bulk [of "cl_net c" ?a ?bs] Cons.prems(1,2,3) len complete
    by (auto simp: rmapped_def)
  have stamp: "c_send nif (stamp_args \<lparr>dst_addr = a\<lparr>args := of_nat (Suc (k (subid a))), cmd := WRITE_BULK_CMD\<rparr>,
      dst_port = port, data = ?bs\<rparr> (of_nat ?T)) c = Inr (c\<lparr>cl_net := n1\<rparr>)"
    using n1(1) by (simp add: c_send_def stamp_args_def)
  have "\<forall>b\<in>set as. in_table b \<and> host (subid b) \<and> rmapped (view n1) b cl"
    using Cons.prems(2) n1(3) rmapped_put_chunk by simp
  then obtain n2 acks where n2:
    "send_udp_raw_batched nif (wpkts port payload cl (Suc i) as k') (c\<lparr>cl_net := n1\<rparr>) = Inr (c\<lparr>cl_net := n2\<rparr>)"
    "ok n2" "pending n2 = pending n1 @ acks" "\<forall>m\<in>set acks. m_sport m = port"
    "length acks = length (remdups (map subid as))"
    "view n2 = put_chunks (view n1) (zip as (map (\<lambda>j. slice payload (cl * (Suc i + j)) cl) [0..<length as]))"
    using Cons.IH [of "c\<lparr>cl_net := n1\<rparr>" "Suc i" k'] n1(2) Cons.prems(3-6)
    by (auto simp flip: k'_def)
  have upt: "map (\<lambda>j. slice payload (cl * (i + j)) cl) [0..<length (a # as)] =
      ?bs # map (\<lambda>j. slice payload (cl * (Suc i + j)) cl) [0..<length as]"
    by (simp add: map_upt_Suc del: upt_Suc)
  let ?acks = "(if subid a \<notin> subid ` set as then [ack] else []) @ acks"
  have "send_udp_raw_batched nif (wpkts port payload cl i (a # as) k) c = Inr (c\<lparr>cl_net := n2\<rparr>)"
    using stamp n2(1) Cons.prems(2,5) by (simp add: sub_id_at_def in_table_def flip: k'_def)
  moreover have "pending n2 = pending (cl_net c) @ ?acks" using n1(4) n2(3) by simp
  moreover have "\<forall>m\<in>set ?acks. m_sport m = port" "length ?acks = length (remdups (map subid (a # as)))"
    using n1(5) n2(4,5) by auto
  moreover have "view n2 = put_chunks (view (cl_net c))
      (zip (a # as) (map (\<lambda>j. slice payload (cl * (i + j)) cl) [0..<length (a # as)]))"
    using n1(3) n2(6) by (simp only: upt zip_Cons_Cons put_chunks_simps)
  ultimately show ?case using n2(2) by blast
qed

lemma batch_write_ok:
  assumes "ready c" "sin6_port tgt = port" "\<forall>a\<in>set as. in_table a \<and> host (subid a) \<and> rmapped (view (cl_net c)) a BLOCK_SIZE"
    and "BLOCK_SIZE \<le> MAX_DATA" "BLOCK_SIZE * length as \<le> length payload" "length as < 65536"
  shows "\<exists>tgt' c'. batch_write nif tgt as payload BLOCK_SIZE c = Inr (tgt', c') \<and> sin6_port tgt' = port \<and>
    ready c' \<and> cl_mem c' = cl_mem c \<and>
    view (cl_net c') = put_chunks (view (cl_net c)) (zip as (chunks payload (length as)))"
proof -
  let ?sub = "\<lambda>s. of_nat (tally as (\<lambda>_. 0) s) :: u32"
  let ?c = "c\<lparr>cl_sub_ids := ?sub\<rparr>"
  have pk: "write_pkts port payload BLOCK_SIZE 0 as (\<lambda>_. 0) =
      Inr (wpkts port payload BLOCK_SIZE 0 as (\<lambda>_. 0), ?sub)"
    using write_pkts_eq [of as BLOCK_SIZE 0 payload port "\<lambda>_. 0"] assms(3,5) by simp
  have cnt: "tally as (\<lambda>_. 0) s < 65536" for s
    using count_le_length [of "map subid as" s] assms(6) by (simp add: tally_count)
  obtain n1 acks where n1: "send_udp_raw_batched nif (wpkts port payload BLOCK_SIZE 0 as (\<lambda>_. 0)) ?c =
      Inr (?c\<lparr>cl_net := n1\<rparr>)" "ok n1" "pending n1 = acks" "\<forall>m\<in>set acks. m_sport m = port"
    "length acks = length (remdups (map subid as))"
    "view n1 = put_chunks (view (cl_net c)) (zip as (chunks payload (length as)))"
    using send_wpkts_ok [of ?c as BLOCK_SIZE 0 payload "\<lambda>_. 0"] assms cnt
    by (auto simp: ready_def chunks_def)
  have "length acks = length (filter (\<lambda>i. cl_sub_ids (?c\<lparr>cl_net := n1\<rparr>) (of_nat i) \<noteq> 0) [0..<USHRT_MAX])"
    using n1(5) ack_count [of as] assms(3,6) by simp
  from wait_acks_ok [OF _ _ n1(4) this assms(2)] n1(2,3) obtain tgt' n2 where
    "wait_acks nif [0..<USHRT_MAX] tgt (?c\<lparr>cl_net := n1\<rparr>) = Inr (tgt', ?c\<lparr>cl_net := n2\<rparr>)"
    "sin6_port tgt' = port" "ok n2" "pending n2 = []" "view n2 = view n1"
    by auto
  with pk n1(1,6) assms(2) show ?thesis
    by (simp add: batch_write_def ready_def del: upt_rec_numeral)
qed

lemma send_rpkts_ok:
  assumes "ok (cl_net c)" "\<forall>a\<in>set as. in_table a \<and> host (subid a) \<and> rmapped (view (cl_net c)) a cl" "cl \<le> MAX_DATA"
  shows "\<exists>n' ans. send_udp_raw_batched nif (rpkts port buffer cl i as) c = Inr (c\<lparr>cl_net := n'\<rparr>) \<and>
    ok n' \<and> view n' = view (cl_net c) \<and> pending n' = pending (cl_net c) @ ans \<and>
    map m_data ans = map (rload (view (cl_net c)) cl) as \<and>
    map (\<lambda>m. paddr (m_dst m)) ans = map (\<lambda>j. buffer + of_nat ((i + j) * cl)) [0..<length as]"
  using assms
proof (induction as arbitrary: i c)
  case Nil
  then show ?case by (auto intro: exI [of _ "cl_net c"])
next
  case (Cons a as)
  let ?n = "cl_sub_ids c (subid a)"
  let ?a = "a\<lparr>cmd := READ_BULK_CMD, args := of_nat cl OR push_bit 16 ?n\<rparr>"
  have len: "cl = unat (ucast (args ?a) :: u16)"
  proof -
    have "(ucast (of_nat cl OR push_bit 16 ?n :: u32) :: u16) = of_nat cl"
      by (rule bit_word_eqI) (auto simp: bit_ucast_iff bit_or_iff bit_push_bit_iff bit_of_nat_iff)
    then show ?thesis
      using Cons.prems(3) by (simp add: MAX_DATA_def unat_of_nat take_bit_nat_eq_self)
  qed
  obtain n1 an where n1: "nif_send nif \<lparr>dst_addr = ?a, dst_port = port,
        data = le_bytes 8 (buffer + of_nat (i * cl))\<rparr> (cl_net c) = Inr n1"
    "ok n1" "view n1 = view (cl_net c)" "pending n1 = pending (cl_net c) @ [an]"
    "m_data an = rload (view (cl_net c)) cl a" "paddr (m_dst an) = buffer + of_nat (i * cl)"
    using send_read_bulk [OF Cons.prems(1) _ len, of "buffer + of_nat (i * cl)"] Cons.prems(2,3)
    by (auto simp: rmapped_def rload_def)
  obtain n2 ans where n2:
    "send_udp_raw_batched nif (rpkts port buffer cl (Suc i) as) (c\<lparr>cl_net := n1\<rparr>) = Inr (c\<lparr>cl_net := n2\<rparr>)"
    "ok n2" "view n2 = view n1" "pending n2 = pending n1 @ ans"
    "map m_data ans = map (rload (view n1) cl) as"
    "map (\<lambda>m. paddr (m_dst m)) ans = map (\<lambda>j. buffer + of_nat ((Suc i + j) * cl)) [0..<length as]"
    using Cons.IH [of "c\<lparr>cl_net := n1\<rparr>" "Suc i"] n1(2,3) Cons.prems(2,3) by auto
  have upt: "map (\<lambda>j. buffer + of_nat ((i + j) * cl)) [0..<length (a # as)] =
      (buffer + of_nat (i * cl)) # map (\<lambda>j. buffer + of_nat ((Suc i + j) * cl)) [0..<length as]"
    by (simp add: map_upt_Suc del: upt_Suc of_nat_mult of_nat_add)
  have "send_udp_raw_batched nif (rpkts port buffer cl i (a # as)) c = Inr (c\<lparr>cl_net := n2\<rparr>)"
    using n1(1) n2(1) Cons.prems(2)
    by (simp add: sub_id_at_def in_table_def c_send_def stamp_args_def del: of_nat_mult)
  with n1 n2 upt show ?case
    by (intro exI [of _ n2] exI [of _ "an # ans"]) (simp del: of_nat_mult of_nat_add upt_Suc)
qed

lemma rcv_bulk_ok:
  assumes "ok (cl_net c)" "pending (cl_net c) = ans" "map m_data ans = ds" "\<forall>d\<in>set ds. length d = cl"
    and "map (\<lambda>m. paddr (m_dst m)) ans = map (\<lambda>j. buffer + of_nat ((i + j) * cl)) [0..<length ds]"
    and "mapped (cl_mem c) (buffer + of_nat (i * cl)) (cl * length ds)" "cl * length ds \<le> 2 ^ 64"
  shows "\<exists>n'. rcv_udp6_raw_bulk nif (length ds) c =
      Inr (c\<lparr>cl_net := n', cl_mem := overwrite (cl_mem c) (buffer + of_nat (i * cl)) (concat ds)\<rparr>) \<and>
    ok n' \<and> pending n' = [] \<and> view n' = view (cl_net c)"
  using assms
proof (induction ds arbitrary: ans c i)
  case Nil
  then show ?case by (auto simp: overwrite_def intro: exI [of _ "cl_net c"])
next
  case (Cons d ds)
  let ?b = "buffer + of_nat (i * cl)"
  obtain m ms where ans: "ans = m # ms" "m_data m = d" "map m_data ms = ds"
    using Cons.prems(3) by auto
  have upt: "map (\<lambda>j. buffer + of_nat ((i + j) * cl)) [0..<length (d # ds)] =
      ?b # map (\<lambda>j. buffer + of_nat ((Suc i + j) * cl)) [0..<length ds]"
    by (simp add: map_upt_Suc del: upt_Suc of_nat_mult of_nat_add)
  have ptr: "paddr (m_dst m) = ?b"
    "map (\<lambda>m. paddr (m_dst m)) ms = map (\<lambda>j. buffer + of_nat ((Suc i + j) * cl)) [0..<length ds]"
    using Cons.prems(5) unfolding upt ans(1) by (simp_all del: of_nat_mult of_nat_add)
  have d: "length d = cl" using Cons.prems(4) by simp
  have next_ptr: "buffer + of_nat (Suc i * cl) = ?b + of_nat cl" by (simp add: algebra_simps)
  have mp: "mapped (cl_mem c) ?b cl" "mapped (cl_mem c) (buffer + of_nat (Suc i * cl)) (cl * length ds)"
    using Cons.prems(6) unfolding next_ptr by (simp_all add: mapped_add)
  have lens: "length (concat ds) = cl * length ds" "cl + cl * length ds \<le> 2 ^ 64"
    using Cons.prems(4,7) by (induction ds) auto
  then have st: "store (cl_mem c) ?b d = Some (overwrite (cl_mem c) ?b d)"
    using mp(1) d by (intro store_mapped) simp_all
  obtain n1 where n1: "nif_recv nif (cl_net c) = Inr (m, n1)" "ok n1" "view n1 = view (cl_net c)" "pending n1 = ms"
    using recv_pending [OF Cons.prems(1)] Cons.prems(2) ans(1) by blast
  let ?c = "c\<lparr>cl_net := n1, cl_mem := overwrite (cl_mem c) ?b d\<rparr>"
  obtain n2 where n2: "rcv_udp6_raw_bulk nif (length ds) ?c =
      Inr (?c\<lparr>cl_net := n2, cl_mem := overwrite (overwrite (cl_mem c) ?b d) (buffer + of_nat (Suc i * cl)) (concat ds)\<rparr>)"
    "ok n2" "pending n2 = []" "view n2 = view n1"
    using Cons.IH [of ?c ms "Suc i"] n1 ans(3) ptr(2) mp(2) Cons.prems(4) lens(2)
    by (auto simp del: of_nat_mult)
  have "overwrite (overwrite (cl_mem c) ?b d) (buffer + of_nat (Suc i * cl)) (concat ds) =
      overwrite (cl_mem c) ?b (concat (d # ds))"
    unfolding next_ptr using overwrite_append [of d "concat ds" "cl_mem c" ?b] d lens by simp
  with n1 n2 st ptr(1) ans(2) show ?case by (auto simp del: of_nat_mult)
qed

lemma batch_read_ok:
  assumes "ready c" "sin6_port tgt = port" "\<forall>a\<in>set as. in_table a \<and> host (subid a) \<and> rmapped (view (cl_net c)) a BLOCK_SIZE"
    and "BLOCK_SIZE \<le> MAX_DATA" "mapped (cl_mem c) buffer (BLOCK_SIZE * length as)" "BLOCK_SIZE * length as \<le> 2 ^ 64"
  shows "\<exists>c'. batch_read nif tgt as buffer BLOCK_SIZE c = Inr c' \<and> ready c' \<and>
    view (cl_net c') = view (cl_net c) \<and>
    cl_mem c' = overwrite (cl_mem c) buffer (concat (map (rload (view (cl_net c)) BLOCK_SIZE) as))"
proof -
  let ?c = "c\<lparr>cl_sub_ids := \<lambda>s. of_nat (tally as (\<lambda>_. 0) s)\<rparr>"
  have pk: "read_pkts port buffer BLOCK_SIZE 0 as (\<lambda>_. 0) =
      Inr (rpkts port buffer BLOCK_SIZE 0 as, \<lambda>s. of_nat (tally as (\<lambda>_. 0) s))"
    using read_pkts_eq [of as port buffer BLOCK_SIZE 0 "\<lambda>_. 0"] assms(3) by simp
  obtain n1 ans where n1: "send_udp_raw_batched nif (rpkts port buffer BLOCK_SIZE 0 as) ?c = Inr (?c\<lparr>cl_net := n1\<rparr>)"
    "ok n1" "view n1 = view (cl_net c)" "pending n1 = ans"
    "map m_data ans = map (rload (view (cl_net c)) BLOCK_SIZE) as"
    "map (\<lambda>m. paddr (m_dst m)) ans = map (\<lambda>j. buffer + of_nat ((0 + j) * BLOCK_SIZE)) [0..<length as]"
    using send_rpkts_ok [of ?c as BLOCK_SIZE buffer 0] assms by (auto simp: ready_def)
  have "\<forall>d\<in>set (map (rload (view (cl_net c)) BLOCK_SIZE) as). length d = BLOCK_SIZE"
    using assms(3) length_rload by auto
  from rcv_bulk_ok [of "?c\<lparr>cl_net := n1\<rparr>", OF _ _ n1(5) this, of buffer 0] n1 assms(5,6) obtain n2 where
    "rcv_udp6_raw_bulk nif (length as) (?c\<lparr>cl_net := n1\<rparr>) = Inr (?c\<lparr>cl_net := n2,
       cl_mem := overwrite (cl_mem c) buffer (concat (map (rload (view (cl_net c)) BLOCK_SIZE) as))\<rparr>)"
    "ok n2" "pending n2 = []" "view n2 = view n1"
    by auto
  with pk n1(1,3) assms(2) show ?thesis by (simp add: batch_read_def ready_def)
qed

definition addrs_ok :: "rview \<Rightarrow> ip6_memaddr list \<Rightarrow> bool" where
  "addrs_ok v as \<longleftrightarrow> (\<forall>a\<in>set as. in_table a \<and> host (subid a) \<and> rmapped v a BLOCK_SIZE)"

lemma addrs_ok_put: "addrs_ok v as \<Longrightarrow> addrs_ok (put_chunks v xs) as"
  by (simp add: addrs_ok_def rmapped_put_chunks)

lemma addrs_ok_sub: "addrs_ok v as \<Longrightarrow> addrs_ok v (take n (drop k as))"
  by (auto simp: addrs_ok_def dest!: in_set_takeD in_set_dropD)

lemma write_batch_at:
  assumes "ready c" "sin6_port tgt = port" "addrs_ok v addrs"
    and "view (cl_net c) = put_chunks v (zip (take k addrs) (chunks payload k))"
    and "k + m \<le> length addrs" "BLOCK_SIZE * (k + m) \<le> length payload" "m < 65536"
  shows "\<exists>tgt' c'. batch_write nif tgt (take m (drop k addrs)) (drop (BLOCK_SIZE * k) payload) BLOCK_SIZE c =
      Inr (tgt', c') \<and> sin6_port tgt' = port \<and> ready c' \<and> cl_mem c' = cl_mem c \<and>
    view (cl_net c') = put_chunks v (zip (take (k + m) addrs) (chunks payload (k + m)))"
proof -
  have len: "length (take m (drop k addrs)) = m" using assms(5) by simp
  have ok: "\<forall>a\<in>set (take m (drop k addrs)). in_table a \<and> host (subid a) \<and> rmapped (view (cl_net c)) a BLOCK_SIZE"
    using addrs_ok_sub [OF addrs_ok_put [OF assms(3)]] unfolding assms(4) addrs_ok_def by blast
  have "BLOCK_SIZE * length (take m (drop k addrs)) \<le> length (drop (BLOCK_SIZE * k) payload)"
    using assms(6) by (simp only: len length_drop) (simp add: algebra_simps)
  from batch_write_ok [OF assms(1,2) ok BLOCK_SIZE_le_MAX this] assms(7)
  show ?thesis unfolding len assms(4) put_chunks_step [OF assms(5)] by simp
qed

lemma write_batches_ok:
  assumes "ready c" "sin6_port tgt = port" "addrs_ok v addrs"
    and "view (cl_net c) = put_chunks v (zip (take (i * BATCH_SIZE) addrs) (chunks payload (i * BATCH_SIZE)))"
    and "(i + n) * BATCH_SIZE \<le> length addrs" "BLOCK_SIZE * ((i + n) * BATCH_SIZE) \<le> length payload"
  shows "\<exists>tgt' c'. write_batches nif addrs payload i n tgt c = Inr (tgt', c') \<and>
    sin6_port tgt' = port \<and> ready c' \<and> cl_mem c' = cl_mem c \<and>
    view (cl_net c') = put_chunks v (zip (take ((i + n) * BATCH_SIZE) addrs) (chunks payload ((i + n) * BATCH_SIZE)))"
  using assms
proof (induction n arbitrary: i tgt c)
  case 0
  then show ?case by simp
next
  case (Suc n)
  have le: "i * BATCH_SIZE + BATCH_SIZE \<le> (i + Suc n) * BATCH_SIZE" by simp
  have pl: "BLOCK_SIZE * (i * BATCH_SIZE + BATCH_SIZE) \<le> length payload"
    by (rule le_trans [OF mult_le_mono2 [OF le] Suc.prems(6)])
  have ad: "i * BATCH_SIZE + BATCH_SIZE \<le> length addrs" by (rule le_trans [OF le Suc.prems(5)])
  have "BATCH_SIZE < 65536" by (simp add: BATCH_SIZE_def)
  from write_batch_at [OF Suc.prems(1-4) ad pl this] obtain tgt1 c1 where c1:
    "batch_write nif tgt (take BATCH_SIZE (drop (i * BATCH_SIZE) addrs)) (drop (BLOCK_SIZE * (i * BATCH_SIZE)) payload)
       BLOCK_SIZE c = Inr (tgt1, c1)" "sin6_port tgt1 = port" "ready c1" "cl_mem c1 = cl_mem c"
    "view (cl_net c1) = put_chunks v (zip (take (Suc i * BATCH_SIZE) addrs) (chunks payload (Suc i * BATCH_SIZE)))"
    by (auto simp: add.commute)
  from Suc.IH [OF c1(3,2) Suc.prems(3) c1(5)] Suc.prems(5,6) c1(1,4) ad show ?case
    by (auto simp: sub_array_def mult.assoc)
qed

lemma write_bulk_ok:
  assumes "ready c" "sin6_port tgt = port" "addrs_ok (view (cl_net c)) addrs"
    and "addrs \<noteq> []" "sz div BLOCK_SIZE \<le> length addrs" "sz \<le> length payload"
  shows "\<exists>addrs' tgt' c'. write_bulk_rmem nif tgt addrs (length addrs) payload sz c = Inr (0, addrs', tgt', c') \<and>
    sin6_port tgt' = port \<and> ready c' \<and> cl_mem c' = cl_mem c \<and>
    view (cl_net c') = put_chunks (view (cl_net c))
      (zip (take (sz div BLOCK_SIZE) addrs) (chunks payload (sz div BLOCK_SIZE)))"
proof (cases "sz \<le> BLOCK_SIZE")
  case True
  let ?bs = "take sz payload"
  have hs: "host (subid (hd addrs))"
    using assms(3,4) by (simp add: addrs_ok_def)
  have a: "rmapped (view (cl_net c)) (hd addrs) (length ?bs)"
    using assms(3,4) True mapped_mono unfolding addrs_ok_def rmapped_def
    by (metis assms(6) hd_in_set length_take min.absorb2)
  have l: "length ?bs \<le> MAX_DATA" using True BLOCK_SIZE_le_MAX by simp
  obtain tgt' c' where w: "write_rmem nif tgt (hd addrs) ?bs c = Inr (tgt', (hd addrs)\<lparr>cmd := WRITE_CMD\<rparr>, c')"
    "sin6_port tgt' = port" "ready c'" "cl_mem c' = cl_mem c"
    "view (cl_net c') = put_chunk (view (cl_net c)) (hd addrs, ?bs)"
    using write_rmem_ok [OF assms(1,2) hs a l] by auto
  have "put_chunk (view (cl_net c)) (hd addrs, ?bs) =
      put_chunks (view (cl_net c)) (zip (take (sz div BLOCK_SIZE) addrs) (chunks payload (sz div BLOCK_SIZE)))"
  proof (cases "sz = 0")
    case False
    then have "sz = BLOCK_SIZE" using True by (simp add: BLOCK_SIZE_def)
    with assms(4) show ?thesis
      by (cases addrs) (simp_all add: chunks_def slice_def)
  qed simp
  with w True assms(4,6) show ?thesis
    by (cases addrs) (auto simp: write_bulk_rmem_def sub_array_def)
next
  case False
  let ?N = "sz div BLOCK_SIZE"
  let ?k = "?N div BATCH_SIZE * BATCH_SIZE"
  let ?m = "?N mod BATCH_SIZE"
  have N: "?k + ?m = ?N" by simp
  have k: "?N - ?m = ?k" using N by linarith
  have pl: "BLOCK_SIZE * ?k \<le> length payload" "BLOCK_SIZE * (?k + ?m) \<le> length payload"
    using assms(6) mult_le_mono2 [of ?k ?N BLOCK_SIZE] N by simp_all
  have ad: "?k \<le> length addrs" "?k + ?m \<le> length addrs" using assms(5) N by linarith+
  have m: "?m < 65536"
    using mod_less_divisor [of BATCH_SIZE ?N] by (simp add: BATCH_SIZE_def)
  obtain tgt1 c1 where c1: "write_batches nif addrs payload 0 (?N div BATCH_SIZE) tgt c = Inr (tgt1, c1)"
    "sin6_port tgt1 = port" "ready c1" "cl_mem c1 = cl_mem c"
    "view (cl_net c1) = put_chunks (view (cl_net c)) (zip (take ?k addrs) (chunks payload ?k))"
    using write_batches_ok [OF assms(1-3), of 0 payload "?N div BATCH_SIZE"] pl(1) ad(1) by (auto simp: chunks_def)
  obtain tgt2 c2 where "batch_write nif tgt1 (take ?m (drop ?k addrs)) (drop (BLOCK_SIZE * ?k) payload) BLOCK_SIZE c1 =
      Inr (tgt2, c2)" "sin6_port tgt2 = port" "ready c2" "cl_mem c2 = cl_mem c1"
    "view (cl_net c2) = put_chunks (view (cl_net c)) (zip (take (?k + ?m) addrs) (chunks payload (?k + ?m)))"
    using write_batch_at [OF c1(3,2) assms(3) c1(5) ad(2) pl(2) m] by auto
  with c1 False assms(5) ad(2) show ?thesis
    by (simp add: write_bulk_rmem_def Let_def sub_array_def k N)
qed

lemma read_batch_at:
  assumes "ready c" "sin6_port tgt = port" "addrs_ok v addrs" "view (cl_net c) = v"
    and "cl_mem c = overwrite m rx_buf (concat (map (rload v BLOCK_SIZE) (take k addrs)))"
    and "k + n \<le> length addrs" "mapped m rx_buf (BLOCK_SIZE * (k + n))" "BLOCK_SIZE * (k + n) \<le> 2 ^ 64"
  shows "\<exists>c'. batch_read nif tgt (take n (drop k addrs)) (rx_buf + of_nat (BLOCK_SIZE * k)) BLOCK_SIZE c = Inr c' \<and>
    ready c' \<and> view (cl_net c') = v \<and>
    cl_mem c' = overwrite m rx_buf (concat (map (rload v BLOCK_SIZE) (take (k + n) addrs)))"
proof -
  let ?as = "take n (drop k addrs)"
  have len: "length ?as = n" using assms(6) by simp
  have rm: "\<forall>a\<in>set addrs. rmapped v a BLOCK_SIZE" using assms(3) by (simp add: addrs_ok_def)
  have l1: "length (concat (map (rload v BLOCK_SIZE) (take k addrs))) = BLOCK_SIZE * k"
    using rm assms(6) by (subst length_concat_rload) (auto dest: in_set_takeD simp: min_def)
  have l2: "length (concat (map (rload v BLOCK_SIZE) ?as)) = BLOCK_SIZE * n"
    using rm len by (subst length_concat_rload) (auto dest!: in_set_takeD in_set_dropD)
  have ok: "\<forall>a\<in>set ?as. in_table a \<and> host (subid a) \<and> rmapped (view (cl_net c)) a BLOCK_SIZE"
    using addrs_ok_sub [OF assms(3)] unfolding assms(4) addrs_ok_def by blast
  have "mapped m (rx_buf + of_nat (BLOCK_SIZE * k)) (BLOCK_SIZE * n)"
    using assms(7) by (simp only: distrib_left mapped_add)
  then have mp: "mapped (cl_mem c) (rx_buf + of_nat (BLOCK_SIZE * k)) (BLOCK_SIZE * length ?as)"
    unfolding len assms(5) by (rule mapped_overwrite)
  have le: "BLOCK_SIZE * length ?as \<le> 2 ^ 64" using assms(8) unfolding len distrib_left by simp
  obtain c' where c': "batch_read nif tgt ?as (rx_buf + of_nat (BLOCK_SIZE * k)) BLOCK_SIZE c = Inr c'"
    "ready c'" "view (cl_net c') = v"
    "cl_mem c' = overwrite (cl_mem c) (rx_buf + of_nat (BLOCK_SIZE * k)) (concat (map (rload v BLOCK_SIZE) ?as))"
    using batch_read_ok [OF assms(1,2) ok BLOCK_SIZE_le_MAX mp le] unfolding assms(4) by blast
  have "cl_mem c' = overwrite m rx_buf (concat (map (rload v BLOCK_SIZE) (take k addrs)) @
      concat (map (rload v BLOCK_SIZE) ?as))"
    unfolding c'(4) assms(5)
    by (subst overwrite_append [symmetric]) (use l1 l2 assms(8) in \<open>simp_all add: distrib_left\<close>)
  with c' show ?thesis by (simp add: take_add)
qed

lemma read_batches_ok:
  assumes "ready c" "sin6_port tgt = port" "addrs_ok v addrs" "view (cl_net c) = v"
    and "cl_mem c = overwrite m rx_buf (concat (map (rload v BLOCK_SIZE) (take (i * BATCH_SIZE) addrs)))"
    and "(i + n) * BATCH_SIZE \<le> length addrs" "mapped m rx_buf (BLOCK_SIZE * ((i + n) * BATCH_SIZE))"
    and "BLOCK_SIZE * ((i + n) * BATCH_SIZE) \<le> 2 ^ 32"
  shows "\<exists>c'. read_batches nif addrs rx_buf i n tgt c = Inr c' \<and> ready c' \<and> view (cl_net c') = v \<and>
    cl_mem c' = overwrite m rx_buf (concat (map (rload v BLOCK_SIZE) (take ((i + n) * BATCH_SIZE) addrs)))"
  using assms
proof (induction n arbitrary: i c)
  case 0
  then show ?case by simp
next
  case (Suc n)
  have le: "i * BATCH_SIZE + BATCH_SIZE \<le> (i + Suc n) * BATCH_SIZE" by simp
  note le' = mult_le_mono2 [OF le, of BLOCK_SIZE]
  have ad: "i * BATCH_SIZE + BATCH_SIZE \<le> length addrs" by (rule le_trans [OF le Suc.prems(6)])
  have mp: "mapped m rx_buf (BLOCK_SIZE * (i * BATCH_SIZE + BATCH_SIZE))"
    by (rule mapped_mono [OF Suc.prems(7) le'])
  have b32: "BLOCK_SIZE * (i * BATCH_SIZE + BATCH_SIZE) \<le> 2 ^ 32"
    by (rule le_trans [OF le' Suc.prems(8)])
  then have b64: "BLOCK_SIZE * (i * BATCH_SIZE + BATCH_SIZE) \<le> 2 ^ 64" by simp
  have nowrap: "i * BATCH_SIZE mod 2 ^ 32 = i * BATCH_SIZE"
    "BLOCK_SIZE * i * BATCH_SIZE mod 2 ^ 32 = BLOCK_SIZE * (i * BATCH_SIZE)"
    using b32 by (simp_all add: BLOCK_SIZE_def BATCH_SIZE_def)
  obtain c1 where c1: "batch_read nif tgt (take BATCH_SIZE (drop (i * BATCH_SIZE) addrs))
      (rx_buf + of_nat (BLOCK_SIZE * (i * BATCH_SIZE))) BLOCK_SIZE c = Inr c1" "ready c1" "view (cl_net c1) = v"
    "cl_mem c1 = overwrite m rx_buf (concat (map (rload v BLOCK_SIZE) (take (Suc i * BATCH_SIZE) addrs)))"
    using read_batch_at [OF Suc.prems(1-5) ad mp b64] by (auto simp: add.commute)
  have "(Suc i + n) * BATCH_SIZE \<le> length addrs" "mapped m rx_buf (BLOCK_SIZE * ((Suc i + n) * BATCH_SIZE))"
    "BLOCK_SIZE * ((Suc i + n) * BATCH_SIZE) \<le> 2 ^ 32"
    using Suc.prems(6-8) by (simp_all only: add_Suc_shift)
  from Suc.IH [OF c1(2) Suc.prems(2,3) c1(3,4) this] c1(1) ad show ?case
    by (simp only: read_batches.simps nowrap) (auto simp: sub_array_def)
qed

lemma read_bulk_ok:
  assumes "ready c" "sin6_port tgt = port" "addrs_ok (view (cl_net c)) addrs"
    and "addrs \<noteq> []" "sz div BLOCK_SIZE \<le> length addrs" "mapped (cl_mem c) rx_buf sz" "sz \<le> 2 ^ 32"
  shows "\<exists>addrs' tgt' c'. read_bulk_rmem nif tgt addrs (length addrs) rx_buf sz c = Inr (0, addrs', tgt', c') \<and>
    sin6_port tgt' = port \<and> ready c' \<and> view (cl_net c') = view (cl_net c) \<and>
    cl_mem c' = overwrite (cl_mem c) rx_buf
      (concat (map (rload (view (cl_net c)) BLOCK_SIZE) (take (sz div BLOCK_SIZE) addrs)))"
proof (cases "sz \<le> BLOCK_SIZE")
  case True
  then have u: "unat (of_nat sz :: u16) = sz"
    by (simp add: BLOCK_SIZE_def unat_of_nat take_bit_nat_eq_self)
  have hs: "host (subid (hd addrs))"
    using assms(3,4) by (simp add: addrs_ok_def)
  have a: "rmapped (view (cl_net c)) (hd addrs) (unat (of_nat sz :: u16))"
    using assms(3,4) True mapped_mono unfolding u addrs_ok_def rmapped_def by (metis hd_in_set)
  have l: "unat (of_nat sz :: u16) \<le> MAX_DATA" using True BLOCK_SIZE_le_MAX u by simp
  have m: "mapped (cl_mem c) rx_buf (unat (of_nat sz :: u16))" using assms(6) u by simp
  obtain tgt' c' where w: "read_rmem nif tgt (hd addrs) rx_buf (of_nat sz) c =
      Inr (sz, tgt', (hd addrs)\<lparr>cmd := READ_CMD, args := ucast (of_nat sz :: u16)\<rparr>, c')"
    "sin6_port tgt' = port" "ready c'" "view (cl_net c') = view (cl_net c)"
    "cl_mem c' = overwrite (cl_mem c) rx_buf (rload (view (cl_net c)) sz (hd addrs))"
    using read_rmem_ok [OF assms(1,2) hs a l m] unfolding u by blast
  have "rload (view (cl_net c)) sz (hd addrs) =
      concat (map (rload (view (cl_net c)) BLOCK_SIZE) (take (sz div BLOCK_SIZE) addrs))"
  proof (cases "sz = 0")
    case True
    then show ?thesis by (simp add: rload_def)
  next
    case False
    then have "sz = BLOCK_SIZE" using True by (simp add: BLOCK_SIZE_def)
    with assms(4) show ?thesis by (cases addrs) simp_all
  qed
  with w True assms(4) show ?thesis
    by (cases addrs) (auto simp: read_bulk_rmem_def sub_array_def)
next
  case False
  let ?N = "sz div BLOCK_SIZE"
  let ?k = "?N div BATCH_SIZE * BATCH_SIZE"
  let ?m = "?N mod BATCH_SIZE"
  let ?v = "view (cl_net c)"
  have N: "?k + ?m = ?N" by simp
  have k: "?N - ?m = ?k" using N by linarith
  have ad: "?k \<le> length addrs" "?k + ?m \<le> length addrs" using assms(5) N by linarith+
  have le: "BLOCK_SIZE * ?k \<le> sz" "BLOCK_SIZE * (?k + ?m) \<le> sz"
    using mult_le_mono2 [of ?k ?N BLOCK_SIZE] N by simp_all
  have mp: "mapped (cl_mem c) rx_buf (BLOCK_SIZE * ?k)" "mapped (cl_mem c) rx_buf (BLOCK_SIZE * (?k + ?m))"
    using mapped_mono [OF assms(6)] le by blast+
  have b: "BLOCK_SIZE * ?k \<le> 2 ^ 32" "BLOCK_SIZE * (?k + ?m) \<le> 2 ^ 64"
    by (rule le_trans [OF le(1) assms(7)], rule le_trans [OF le(2)]) (use assms(7) in simp)
  have small: "?N div BATCH_SIZE mod 4294967296 = ?N div BATCH_SIZE"
    using assms(7) by (intro mod_less) (simp add: BLOCK_SIZE_def BATCH_SIZE_def)
  obtain c1 where c1: "read_batches nif addrs rx_buf 0 (?N div BATCH_SIZE) tgt c = Inr c1" "ready c1"
    "view (cl_net c1) = ?v"
    "cl_mem c1 = overwrite (cl_mem c) rx_buf (concat (map (rload ?v BLOCK_SIZE) (take ?k addrs)))"
    using read_batches_ok [OF assms(1-3) refl, of "cl_mem c" rx_buf 0 "?N div BATCH_SIZE"] mp(1) ad(1) b(1) by auto
  obtain c2 where "batch_read nif tgt (take ?m (drop ?k addrs)) (rx_buf + of_nat (BLOCK_SIZE * ?k)) BLOCK_SIZE c1 = Inr c2"
    "ready c2" "view (cl_net c2) = ?v"
    "cl_mem c2 = overwrite (cl_mem c) rx_buf (concat (map (rload ?v BLOCK_SIZE) (take (?k + ?m) addrs)))"
    using read_batch_at [OF c1(2) assms(2,3) c1(3,4) ad(2) mp(2) b(2)] by blast
  with c1(1) False assms(2,5) ad(2) show ?thesis
    by (simp add: read_bulk_rmem_def Let_def sub_array_def k N small del: of_nat_mult)
qed

lemma bulk_roundtrip:
  assumes "ready c" "sin6_port tgt = port" "addrs_ok (view (cl_net c)) addrs" "separate addrs"
    and "addrs \<noteq> []" "sz div BLOCK_SIZE \<le> length addrs" "sz \<le> length payload"
    and "mapped (cl_mem c) rx_buf sz" "sz \<le> 2 ^ 32"
  shows "\<exists>addrs1 tgt1 c1 addrs2 tgt2 c2.
    write_bulk_rmem nif tgt addrs (length addrs) payload sz c = Inr (0, addrs1, tgt1, c1) \<and>
    read_bulk_rmem nif tgt1 addrs (length addrs) rx_buf sz c1 = Inr (0, addrs2, tgt2, c2) \<and>
    cl_mem c2 = overwrite (cl_mem c) rx_buf (take sz payload) \<and>
    ready c2 \<and> view (cl_net c2) = view (cl_net c1)"
proof -
  let ?N = "sz div BLOCK_SIZE"
  let ?as = "take ?N addrs"
  obtain addrs1 tgt1 c1 where w: "write_bulk_rmem nif tgt addrs (length addrs) payload sz c = Inr (0, addrs1, tgt1, c1)"
    "sin6_port tgt1 = port" "ready c1" "cl_mem c1 = cl_mem c"
    "view (cl_net c1) = put_chunks (view (cl_net c)) (zip ?as (chunks payload ?N))"
    using write_bulk_ok [OF assms(1-3,5-7)] by blast
  have ok: "addrs_ok (view (cl_net c1)) addrs" using addrs_ok_put [OF assms(3)] w(5) by simp
  have pl: "BLOCK_SIZE * ?N \<le> length payload" using assms(7) by simp
  have "map (rload (view (cl_net c1)) BLOCK_SIZE) ?as = chunks payload ?N"
    unfolding w(5) using assms(3,4,6) length_chunk [OF pl]
    by (intro rload_put_chunks) (auto simp: separate_def addrs_ok_def sorted_wrt_take dest: in_set_takeD)
  then have "concat (map (rload (view (cl_net c1)) BLOCK_SIZE) ?as) = take sz payload"
    using concat_chunks [OF pl] by simp
  with read_bulk_ok [OF w(3,2) ok assms(5,6) _ assms(9), of rx_buf] assms(8) w(1,4)
  show ?thesis by (auto; blast)
qed

end

end
