(* ===== verification/BB_Cluster.thy ===== *)
theory BB_Cluster
  imports BB_Remote
begin

text \<open>
  Clients and servers together: one client and a server per subnet on a network that loses,
  duplicates and reorders nothing, each server running \<^verbatim>\<open>process_request\<close> of \<^verbatim>\<open>server_lib.c\<close> on
  its own heap. A packet reaches the server whose subnet is in its destination and whose port it
  names (the packet filter that \<^verbatim>\<open>udp_raw_receive.c\<close> installs); a server that faults is gone. This
  network fulfils the contract \<open>memory_service\<close>, so everything proved of the client there holds
  of client and servers together.
\<close>

section \<open>The network of servers\<close>

record topology =
  t_client :: sockaddr_in6
  t_server :: "u16 \<Rightarrow> ip6_memaddr"
  t_port :: u16

record cluster =
  servers :: "u16 \<Rightarrow> heap option"
  inbox :: "msg list"

definition answer :: "topology \<Rightarrow> u16 \<Rightarrow> pkt_rqst \<Rightarrow> msg" where
  "answer topo s p =
     \<lparr>m_src = (t_server topo s)\<lparr>subid := s\<rparr>, m_sport = t_port topo, m_dst = dst_addr p, m_data = data p\<rparr>"

definition cluster_send :: "topology \<Rightarrow> placement \<Rightarrow> pkt_rqst \<Rightarrow> cluster \<Rightarrow> cluster res" where
  "cluster_send topo pick pkt n =
     (let s = subid (dst_addr pkt) in
      case servers n s of
        None \<Rightarrow> Inr n
      | Some h \<Rightarrow>
          if dst_port pkt \<noteq> t_port topo then Inr n
          else
            (case process_request pick (t_client topo) (dst_addr pkt) (data pkt)
                    (of_nat (length (data pkt))) h of
               Inl e \<Rightarrow> Inr (n\<lparr>servers := (servers n)(s := None)\<rparr>)
             | Inr (h', tgt', ps) \<Rightarrow>
                 Inr (n\<lparr>servers := (servers n)(s \<mapsto> h'), inbox := inbox n @ map (answer topo s) ps\<rparr>)))"

definition cluster_recv :: "cluster \<Rightarrow> (msg \<times> cluster) res" where
  "cluster_recv n = (case inbox n of [] \<Rightarrow> Inl Blocked | m # ms \<Rightarrow> Inr (m, n\<lparr>inbox := ms\<rparr>))"

definition cluster_net :: "topology \<Rightarrow> placement \<Rightarrow> cluster netif" where
  "cluster_net topo pick = \<lparr>nif_send = cluster_send topo pick, nif_recv = cluster_recv\<rparr>"

definition cluster_view :: "cluster \<Rightarrow> rview" where
  "cluster_view n s = (case servers n s of None \<Rightarrow> (\<lambda>_. None) | Some h \<Rightarrow> hmem h)"

definition cluster_ok :: "(u16 \<Rightarrow> bool) \<Rightarrow> cluster \<Rightarrow> bool" where
  "cluster_ok host n \<longleftrightarrow> (\<forall>s. host s \<longrightarrow> (\<exists>h. servers n s = Some h \<and> heap_ok h))"

lemma cluster_send_served:
  assumes "cluster_ok host n" "host (subid a)" "servers n (subid a) = Some h"
    and "process_request pick (t_client topo) a bs (of_nat (length bs)) h = Inr (h', tgt', ps)"
  shows "\<exists>n'. cluster_send topo pick \<lparr>dst_addr = a, dst_port = t_port topo, data = bs\<rparr> n = Inr n' \<and>
    cluster_ok host n' \<and> inbox n' = inbox n @ map (answer topo (subid a)) ps \<and>
    cluster_view n' = (cluster_view n)(subid a := hmem h')"
proof -
  have "heap_ok h'"
    using assms heap_step_ok [OF process_request_step [OF assms(4)]] by (auto simp: cluster_ok_def)
  with assms show ?thesis
    by (auto simp: cluster_send_def cluster_ok_def cluster_view_def fun_eq_iff Let_def)
qed

lemma unat_len: "length bs \<le> MAX_DATA \<Longrightarrow> unat (of_nat (length bs) :: u16) = length bs"
  by (simp add: MAX_DATA_def unat_of_nat take_bit_nat_eq_self)

lemma memcpy_in_mapped:
  assumes "mapped (hmem h) a (length bs)" "length bs \<le> MAX_DATA"
  shows "memcpy_in h a bs (length bs) = Inr (h\<lparr>hmem := overwrite (hmem h) a bs\<rparr>)"
  using assms by (simp add: memcpy_in_def store_mapped MAX_DATA_def)

text \<open>The laws of the contract, one by one.\<close>

lemma cluster_recv_pending:
  "cluster_ok host n \<Longrightarrow> inbox n = m # ms \<Longrightarrow>
     \<exists>n'. nif_recv (cluster_net topo pick) n = Inr (m, n') \<and> cluster_ok host n' \<and>
       cluster_view n' = cluster_view n \<and> inbox n' = ms"
  by (simp add: cluster_net_def cluster_recv_def cluster_ok_def cluster_view_def fun_eq_iff)

lemma cluster_host: "cluster_ok host n \<Longrightarrow> host s \<Longrightarrow> \<exists>h. servers n s = Some h \<and> heap_ok h"
  by (simp add: cluster_ok_def)

lemma cluster_write:
  assumes A: "cluster_ok host n" "cmd a = WRITE_CMD" "host (subid a)"
    "rmapped (cluster_view n) a (length bs)" "length bs \<le> MAX_DATA"
  shows "\<exists>n' ack. nif_send (cluster_net topo pick) \<lparr>dst_addr = a, dst_port = t_port topo, data = bs\<rparr> n = Inr n' \<and>
    cluster_ok host n' \<and> cluster_view n' = put_chunk (cluster_view n) (a, bs) \<and>
    inbox n' = inbox n @ [ack] \<and> m_sport ack = t_port topo"
proof -
  obtain h where h: "servers n (subid a) = Some h" using cluster_host A by blast
  then have "process_request pick (t_client topo) a bs (of_nat (length bs)) h =
      reply (h\<lparr>hmem := overwrite (hmem h) (paddr a) bs\<rparr>) (set_return_id (t_client topo) WRITE_CMD (paddr a)) []"
    using A by (simp add: process_request_cmd write_mem_def unat_len memcpy_in_mapped rmapped_def cluster_view_def)
  from cluster_send_served [OF A(1,3) h this [unfolded reply_def]] h show ?thesis
    by (auto simp: cluster_net_def put_chunk_def cluster_view_def answer_def)
qed

lemma cluster_write_bulk:
  assumes A: "cluster_ok host n" "cmd a = WRITE_BULK_CMD" "host (subid a)"
    "rmapped (cluster_view n) a (length bs)" "length bs \<le> MAX_DATA"
  shows "\<exists>n' ack. nif_send (cluster_net topo pick) \<lparr>dst_addr = a, dst_port = t_port topo, data = bs\<rparr> n = Inr n' \<and>
    cluster_ok host n' \<and> cluster_view n' = put_chunk (cluster_view n) (a, bs) \<and>
    inbox n' = inbox n @ (if batch_complete (args a) then [ack] else []) \<and> m_sport ack = t_port topo"
proof -
  obtain h where h: "servers n (subid a) = Some h" using cluster_host A by blast
  let ?h = "h\<lparr>hmem := overwrite (hmem h) (paddr a) bs\<rparr>"
  let ?t = "set_return_id (t_client topo) WRITE_BULK_CMD (paddr a)"
  have pr: "process_request pick (t_client topo) a bs (of_nat (length bs)) h =
      (if batch_complete (args a) then reply ?h ?t [] else Inr (?h, t_client topo, []))"
    using A h by (simp add: process_request_cmd write_mem_bulk_def unat_len memcpy_in_mapped rmapped_def cluster_view_def)
  show ?thesis
  proof (cases "batch_complete (args a)")
    case True
    with pr cluster_send_served [OF A(1,3) h, of pick topo bs ?h ?t] h show ?thesis
      by (auto simp: cluster_net_def put_chunk_def cluster_view_def answer_def reply_def)
  next
    case False
    have "m_sport (answer topo s p) = t_port topo" for s p by (simp add: answer_def)
    with False pr cluster_send_served [OF A(1,3) h, of pick topo bs ?h "t_client topo" "[]"] h show ?thesis
      by (auto simp: cluster_net_def put_chunk_def cluster_view_def)
  qed
qed

lemma cluster_read:
  assumes A: "cluster_ok host n" "cmd a = READ_CMD" "k = unat (ucast (args a) :: u16)" "host (subid a)"
    "rmapped (cluster_view n) a k" "k \<le> MAX_DATA"
  shows "\<exists>n' ans. nif_send (cluster_net topo pick) \<lparr>dst_addr = a, dst_port = t_port topo, data = []\<rparr> n = Inr n' \<and>
    cluster_ok host n' \<and> cluster_view n' = cluster_view n \<and> inbox n' = inbox n @ [ans] \<and>
    m_sport ans = t_port topo \<and> m_data ans = rload (cluster_view n) k a"
proof -
  obtain h where h: "servers n (subid a) = Some h" using cluster_host A by blast
  then have "load (hmem h) (paddr a) k = Some (rload (cluster_view n) k a)"
    using A(5) by (simp add: rmapped_def cluster_view_def rload_def load_mapped)
  then have "process_request pick (t_client topo) a [] (of_nat (length ([] :: bytes))) h =
      reply h (set_return_id (t_client topo) READ_CMD (paddr a)) (rload (cluster_view n) k a)"
    using A(2,3) by (simp add: process_request_cmd read_mem_def Let_def)
  from cluster_send_served [OF A(1,4) h this [unfolded reply_def]] h show ?thesis
    by (auto simp: cluster_net_def cluster_view_def answer_def send_udp_raw_def fun_upd_idem)
qed

lemma cluster_read_bulk:
  assumes A: "cluster_ok host n" "cmd a = READ_BULK_CMD" "k = unat (ucast (args a) :: u16)" "host (subid a)"
    "rmapped (cluster_view n) a k" "k \<le> MAX_DATA"
  shows "\<exists>n' ans. nif_send (cluster_net topo pick)
      \<lparr>dst_addr = a, dst_port = t_port topo, data = le_bytes 8 (p :: u64)\<rparr> n = Inr n' \<and>
    cluster_ok host n' \<and> cluster_view n' = cluster_view n \<and> inbox n' = inbox n @ [ans] \<and>
    m_sport ans = t_port topo \<and> m_data ans = rload (cluster_view n) k a \<and> paddr (m_dst ans) = p"
proof -
  obtain h where h: "servers n (subid a) = Some h" using cluster_host A by blast
  then have "load (hmem h) (paddr a) k = Some (rload (cluster_view n) k a)"
    using A(5) by (simp add: rmapped_def cluster_view_def rload_def load_mapped)
  then have "process_request pick (t_client topo) a (le_bytes 8 p) (of_nat (length (le_bytes 8 p))) h =
      reply h (set_return_id (t_client topo) READ_BULK_CMD p) (rload (cluster_view n) k a)"
    using A(2,3) by (simp add: process_request_cmd read_mem_ptr_def Let_def POINTER_SIZE_def)
  from cluster_send_served [OF A(1,4) h this [unfolded reply_def]] h show ?thesis
    by (auto simp: cluster_net_def cluster_view_def answer_def send_udp_raw_def fun_upd_idem)
qed

lemma cluster_alloc_bulk:
  assumes A: "cluster_ok host n" "cmd a = ALLOC_BULK_CMD" "host (subid a)"
  shows "\<exists>n' ans. nif_send (cluster_net topo pick)
      \<lparr>dst_addr = a, dst_port = t_port topo, data = le_bytes 8 sz\<rparr> n = Inr n' \<and>
    cluster_ok host n' \<and> inbox n' = inbox n @ [ans] \<and> m_sport ans = t_port topo \<and>
    subid (m_src ans) = subid a \<and>
    alloc_view (cluster_view n) (subid a) (paddr (m_dst ans)) (alloc_len sz) (cluster_view n')"
proof -
  obtain h where h: "servers n (subid a) = Some h" using cluster_host A by blast
  obtain p h' where c: "calloc pick h (alloc_len sz) = (p, h')" by (cases "calloc pick h (alloc_len sz)")
  then have "process_request pick (t_client topo) a (le_bytes 8 sz) (of_nat (length (le_bytes 8 sz))) h =
      reply h' (set_return_id (t_client topo) ALLOC_BULK_CMD p) []"
    using A(2) by (simp add: process_request_cmd payload_u64_def allocate_mem_bulk_def alloc_len_def Let_def)
  note served = cluster_send_served [OF A(1,3) h this [unfolded reply_def]]
  have "alloc_view (cluster_view n) (subid a) p (alloc_len sz) ((cluster_view n)(subid a := hmem h'))"
    using c h region_free_in_range [of h p "alloc_len sz"]
    by (auto simp: calloc_def Let_def alloc_view_def cluster_view_def region_free_def fun_upd_idem
        split: if_splits cong: if_cong)
  with served show ?thesis
    by (auto simp: cluster_net_def answer_def send_udp_raw_def)
qed

interpretation cm: memory_service "cluster_net topo pick" "cluster_ok host" cluster_view inbox "t_port topo" host
  for topo pick host
  by unfold_locales
    (rule cluster_recv_pending cluster_write cluster_write_bulk cluster_read cluster_read_bulk cluster_alloc_bulk;
      assumption)+

lemma block_apart:
  assumes "i < j" "j < m" "m * BLOCK_SIZE \<le> 2 ^ 64"
  shows "chunk_sep (block_addr a i) (block_addr a j)"
proof -
  have "Suc i * BLOCK_SIZE \<le> j * BLOCK_SIZE" "Suc j * BLOCK_SIZE \<le> m * BLOCK_SIZE"
    using assms(1,2) by (simp_all only: mult_le_mono1 Suc_leI)
  then have "i * BLOCK_SIZE + BLOCK_SIZE \<le> j * BLOCK_SIZE" "j * BLOCK_SIZE + BLOCK_SIZE \<le> 2 ^ 64"
    using assms(3) by simp_all
  then show ?thesis
    unfolding chunk_sep_def block_addr_def by (simp add: ranges_apart del: of_nat_mult)
qed

lemma separate_blocks: "m * BLOCK_SIZE \<le> 2 ^ 64 \<Longrightarrow> separate (map (block_addr a) [0..<m])"
  unfolding separate_def sorted_wrt_map
  by (rule sorted_wrt_mono_rel [of _ "(<)"]) (auto intro: block_apart)

lemma put_chunks_outside:
  assumes "\<forall>(a, bs)\<in>set xs. subid a = s \<longrightarrow> \<not> in_range (paddr a) (length bs) x"
  shows "put_chunks v xs s x = v s x"
  using assms by (induction xs arbitrary: v) (auto simp: put_chunk_def overwrite_def)

lemma alloc_blocks:
  assumes "alloc_view v s p (m * BLOCK_SIZE) v'" "p \<noteq> 0" "subid a = s" "paddr a = p" "i < m"
  shows "rmapped v' (block_addr a i) BLOCK_SIZE"
    and "in_range (paddr (block_addr a i)) BLOCK_SIZE x \<Longrightarrow> in_range p (m * BLOCK_SIZE) x"
proof -
  have "Suc i * BLOCK_SIZE \<le> m * BLOCK_SIZE" using assms(5) by (simp only: mult_le_mono1 Suc_leI)
  then have le: "i * BLOCK_SIZE + BLOCK_SIZE \<le> m * BLOCK_SIZE" by simp
  have m: "m * BLOCK_SIZE \<le> 2 ^ 64" using assms(1,2) by (simp add: alloc_view_def)
  show "in_range p (m * BLOCK_SIZE) x" if "in_range (paddr (block_addr a i)) BLOCK_SIZE x" for x
    using in_range_shift [of p "i * BLOCK_SIZE" BLOCK_SIZE x] that le m assms(4)
    by (simp add: block_addr_def in_range_def del: of_nat_mult)
  note this [of "paddr (block_addr a i) + of_nat k" for k]
  moreover have "in_range (paddr (block_addr a i)) BLOCK_SIZE (paddr (block_addr a i) + of_nat k)" if "k < BLOCK_SIZE" for k
    using that by (simp add: BLOCK_SIZE_def in_range_def)
  ultimately show "rmapped v' (block_addr a i) BLOCK_SIZE"
    using assms(1-3) by (simp add: rmapped_def mapped_def alloc_view_def block_addr_def)
qed

text \<open>A client with nothing in flight.\<close>

definition client_idle :: "(u16 \<Rightarrow> bool) \<Rightarrow> cluster client \<Rightarrow> bool" where
  "client_idle host c \<longleftrightarrow> cluster_ok host (cl_net c) \<and> inbox (cl_net c) = []"

lemma client_idle_ready: "client_idle host c = cm.ready host c"
  by (simp add: client_idle_def cm.ready_def)

section \<open>Sample cluster\<close>

text \<open>One server, on subnet 1, with the two bytes of \<open>sample_heap\<close> allocated, and a client buffer.\<close>

definition sample_topo :: topology where
  "sample_topo = \<lparr>t_client = sample_client, t_server = (\<lambda>_. sample_addr 0 0), t_port = 5\<rparr>"

definition sample_host :: "u16 \<Rightarrow> bool" where
  "sample_host s \<longleftrightarrow> s = 1"

definition sample_cluster :: cluster where
  "sample_cluster = \<lparr>servers = (\<lambda>_. None)(1 \<mapsto> sample_heap), inbox = []\<rparr>"

definition sample_process :: "cluster client" where
  "sample_process = \<lparr>cl_mem = (\<lambda>x. if in_range 0x2000 2 x then Some 0 else None),
     cl_net = sample_cluster, cl_sub_ids = (\<lambda>_. 0)\<rparr>"

definition sample_target :: sockaddr_in6 where
  "sample_target = \<lparr>sin6_addr = sample_addr 0 0, sin6_port = 5\<rparr>"

lemmas sample_cluster_defs = sample_topo_def sample_host_def sample_cluster_def sample_process_def
  sample_target_def

lemma sample_idle: "client_idle sample_host sample_process"
  by (simp add: client_idle_def cluster_ok_def sample_cluster_defs sample_heap_ok)

lemma mapped_two: "m a \<noteq> None \<Longrightarrow> m (a + 1) \<noteq> None \<Longrightarrow> mapped m a 2"
  by (simp add: mapped_Suc numeral_2_eq_2)

lemma sample_buffer: "mapped (cl_mem sample_process) 0x2000 2"
  by (rule mapped_two) (simp_all add: sample_process_def in_range_def)

lemma sample_block_mapped:
  "i < 2 \<Longrightarrow> rmapped (cluster_view (cl_net sample_process)) (block_addr (sample_addr 0 0) i) BLOCK_SIZE"
  by (auto simp: rmapped_def cluster_view_def sample_process_def sample_cluster_def block_addr_def
      BLOCK_SIZE_def mapped_Suc sample_heap_def sample_addr_def in_range_def less_2_cases_iff)

section \<open>Properties of client and servers together\<close>

text \<open>
  C2: remote memory is memory: over a network of live servers, a bulk write of \<open>sz\<close> bytes to blocks
  that are mapped on their servers and do not overlap (they may lie on different servers)
  followed by a bulk read of the same blocks puts exactly the bytes written in the client's
  buffer and changes nothing else of the client's memory. Neither call blocks, and no
  acknowledgement is left over: the client awaits exactly one per addressed server.
\<close>

theorem remote_bulk_roundtrip:
  assumes "client_idle host c" "sin6_port tgt = t_port topo"
    and "\<forall>a\<in>set addrs. in_table a \<and> host (subid a) \<and> rmapped (cluster_view (cl_net c)) a BLOCK_SIZE"
    and "separate addrs" "addrs \<noteq> []" "sz div BLOCK_SIZE \<le> length addrs" "sz \<le> length payload"
    and "mapped (cl_mem c) rx_buf sz" "sz \<le> 2 ^ 32"
  shows "\<exists>addrs1 tgt1 c1 addrs2 tgt2 c2.
    write_bulk_rmem (cluster_net topo pick) tgt addrs (length addrs) payload sz c = Inr (0, addrs1, tgt1, c1) \<and>
    read_bulk_rmem (cluster_net topo pick) tgt1 addrs (length addrs) rx_buf sz c1 = Inr (0, addrs2, tgt2, c2) \<and>
    cl_mem c2 = overwrite (cl_mem c) rx_buf (take sz payload) \<and> client_idle host c2"
  using cm.bulk_roundtrip [OF _ assms(2) _ assms(4-9)] assms(1,3)
  unfolding client_idle_ready cm.addrs_ok_def by metis

theorem remote_bulk_roundtrip_witness:
  "\<exists>addrs1 tgt1 c1 addrs2 tgt2 c2.
     write_bulk_rmem (cluster_net sample_topo sample_place) sample_target
       (map (block_addr (sample_addr 0 0)) [0..<2]) 2 [7, 9] 2 sample_process = Inr (0, addrs1, tgt1, c1) \<and>
     read_bulk_rmem (cluster_net sample_topo sample_place) tgt1
       (map (block_addr (sample_addr 0 0)) [0..<2]) 2 0x2000 2 c1 = Inr (0, addrs2, tgt2, c2) \<and>
     cl_mem c2 = overwrite (cl_mem sample_process) 0x2000 [7, 9]"
proof -
  let ?as = "map (block_addr (sample_addr 0 0)) [0..<2]"
  have "\<forall>a\<in>set ?as. in_table a \<and> sample_host (subid a) \<and>
      rmapped (cluster_view (cl_net sample_process)) a BLOCK_SIZE"
    using sample_block_mapped by (auto simp: in_table_def sample_host_def block_addr_def sample_addr_def USHRT_MAX_def)
  moreover have "separate ?as" by (rule separate_blocks) (simp add: BLOCK_SIZE_def)
  moreover have "sin6_port sample_target = t_port sample_topo" by (simp add: sample_cluster_defs)
  ultimately show ?thesis
    using remote_bulk_roundtrip [OF sample_idle, of sample_target sample_topo ?as 2 "[7, 9]" "0x2000" sample_place]
      sample_buffer
    by (auto simp: BLOCK_SIZE_def)
qed

text \<open>
  C14: allocate, write, read: \<^verbatim>\<open>allocate_uniform_rmem\<close> of \<open>sz\<close> bytes on a live server gives a null
  pointer and no change, or a block such that \<^verbatim>\<open>write_uniform_rmem\<close> and then \<^verbatim>\<open>read_uniform_rmem\<close>
  return the data written, while no other byte of any server changes.
\<close>

theorem allocate_write_read:
  assumes "client_idle host c" "sin6_port tgt = t_port topo" "host (subid (sin6_addr tgt))"
    and "in_table (sin6_addr tgt)" "0 < sz" "unat sz \<le> 2 ^ 32" "unat sz \<le> length payload"
    and "mapped (cl_mem c) rx_buf (unat sz)"
  shows "\<exists>b tgt1 c1. allocate_uniform_rmem (cluster_net topo pick) tgt sz c = Inr (b, tgt1, c1) \<and>
    (paddr (memaddr b) = 0 \<and> cluster_view (cl_net c1) = cluster_view (cl_net c) \<or>
     (\<exists>tgt2 c2 tgt3 c3.
       write_uniform_rmem (cluster_net topo pick) tgt1 b payload (unat sz) c1 = Inr (0, tgt2, c2) \<and>
       read_uniform_rmem (cluster_net topo pick) tgt2 b rx_buf (unat sz) c2 = Inr (0, tgt3, c3) \<and>
       cl_mem c3 = overwrite (cl_mem c) rx_buf (take (unat sz) payload) \<and>
       (\<forall>s x. \<not> (s = subid (sin6_addr tgt) \<and> in_range (paddr (memaddr b)) (unat sz) x) \<longrightarrow>
          cluster_view (cl_net c3) s x = cluster_view (cl_net c) s x)))"
proof -
  let ?net = "cluster_net topo pick"
  let ?s = "subid (sin6_addr tgt)"
  have len: "alloc_len sz = unat sz * BLOCK_SIZE"
    using assms(5) by (auto simp: alloc_len_def BLOCK_SIZE_def)
  obtain ra tgt1 c1 where r: "request_blocks ?net tgt sz c = Inr (ra, tgt1, c1)" "subid ra = ?s"
    "sin6_port tgt1 = t_port topo" "cm.ready host c1" "cl_mem c1 = cl_mem c"
    "alloc_view (cluster_view (cl_net c)) (subid ra) (paddr ra) (unat sz * BLOCK_SIZE) (cluster_view (cl_net c1))"
    using cm.request_blocks_ok [OF assms(1) [unfolded client_idle_ready] assms(2,3), of pick sz] len by auto
  let ?b = "\<lparr>memaddr = ra, blk_length = sz, blk_offset = 0\<rparr>"
  have alloc: "allocate_uniform_rmem ?net tgt sz c = Inr (?b, tgt1, c1)"
    by (simp add: allocate_uniform_rmem_def r(1))
  show ?thesis
  proof (cases "paddr ra = 0")
    case True
    with r(6) alloc show ?thesis by (auto simp: alloc_view_def)
  next
    case False
    note blk = alloc_blocks [OF r(6) False refl refl]
    let ?as = "map (block_addr ra) [0..<unat sz]"
    have ex: "expand_block ?b = ?as" by (simp add: expand_block_def)
    have ok: "cm.addrs_ok host (cluster_view (cl_net c1)) ?as"
      using blk(1) assms(3,4) r(2) by (auto simp: cm.addrs_ok_def in_table_def block_addr_def)
    have "unat sz * BLOCK_SIZE \<le> 2 ^ 64" using assms(6) by (simp add: BLOCK_SIZE_def)
    then have sep: "separate ?as" by (rule separate_blocks)
    have ne: "?as \<noteq> []" using assms(5) by (simp add: unat_eq_0)
    have n: "unat sz div BLOCK_SIZE \<le> length ?as" by (simp add: BLOCK_SIZE_def)
    have mp: "mapped (cl_mem c1) rx_buf (unat sz)" using assms(8) r(5) by simp
    obtain addrs2 tgt2 c2 where w: "write_bulk_rmem ?net tgt1 ?as (length ?as) payload (unat sz) c1 =
        Inr (0, addrs2, tgt2, c2)" "cluster_view (cl_net c2) = put_chunks (cluster_view (cl_net c1))
          (zip (take (unat sz div BLOCK_SIZE) ?as) (chunks payload (unat sz div BLOCK_SIZE)))"
      using cm.write_bulk_ok [OF r(4,3) ok ne n assms(7)] by blast
    obtain addrs3 tgt3 c3 where rd: "read_bulk_rmem ?net tgt2 ?as (length ?as) rx_buf (unat sz) c2 =
        Inr (0, addrs3, tgt3, c3)" "cl_mem c3 = overwrite (cl_mem c) rx_buf (take (unat sz) payload)"
      "cluster_view (cl_net c3) = cluster_view (cl_net c2)"
      using cm.bulk_roundtrip [OF r(4,3) ok sep ne n assms(7) mp assms(6), of pick] w(1) r(5) by auto
    have out: "cluster_view (cl_net c3) s x = cluster_view (cl_net c) s x"
      if "\<not> (s = ?s \<and> in_range (paddr ra) (unat sz) x)" for s x
    proof -
      have "cluster_view (cl_net c2) s x = cluster_view (cl_net c1) s x"
        unfolding w(2)
      proof (rule put_chunks_outside, clarify)
        fix a bs assume m: "(a, bs) \<in> set (zip (take (unat sz div BLOCK_SIZE) ?as) (chunks payload (unat sz div BLOCK_SIZE)))"
          and s: "s = subid a" and x: "in_range (paddr a) (length bs) x"
        have "length bs = BLOCK_SIZE"
          using length_chunk [of "unat sz div BLOCK_SIZE" payload bs] set_zip_rightD [OF m] assms(7) by simp
        moreover obtain i where "a = block_addr ra i" "i < unat sz"
          using in_set_takeD [OF set_zip_leftD [OF m]] by auto
        ultimately show False
          using blk(2) [of i x] x s r(2) that by (auto simp: BLOCK_SIZE_def block_addr_def)
      qed
      moreover have "cluster_view (cl_net c1) s x = cluster_view (cl_net c) s x"
        using r(2,6) False that by (auto simp: alloc_view_def BLOCK_SIZE_def)
      ultimately show ?thesis using rd(3) by simp
    qed
    have "write_uniform_rmem ?net tgt1 ?b payload (unat sz) c1 = Inr (0, tgt2, c2)"
      "read_uniform_rmem ?net tgt2 ?b rx_buf (unat sz) c2 = Inr (0, tgt3, c3)"
      using w(1) rd(1) by (simp_all add: write_uniform_rmem_def read_uniform_rmem_def ex)
    with alloc rd(2) out show ?thesis by auto
  qed
qed

theorem allocate_write_read_witness:
  "\<exists>b tgt1 c1. allocate_uniform_rmem (cluster_net sample_topo (\<lambda>h n. 0x3000)) sample_target 2 sample_process =
     Inr (b, tgt1, c1) \<and>
     (paddr (memaddr b) = 0 \<and> cluster_view (cl_net c1) = cluster_view (cl_net sample_process) \<or>
      (\<exists>tgt2 c2 tgt3 c3.
        write_uniform_rmem (cluster_net sample_topo (\<lambda>h n. 0x3000)) tgt1 b [7, 9] 2 c1 = Inr (0, tgt2, c2) \<and>
        read_uniform_rmem (cluster_net sample_topo (\<lambda>h n. 0x3000)) tgt2 b 0x2000 2 c2 = Inr (0, tgt3, c3) \<and>
        cl_mem c3 = overwrite (cl_mem sample_process) 0x2000 [7, 9]))"
proof -
  have "sin6_port sample_target = t_port sample_topo" "sample_host (subid (sin6_addr sample_target))"
    "in_table (sin6_addr sample_target)"
    by (simp_all add: sample_cluster_defs sample_addr_def in_table_def USHRT_MAX_def)
  then show ?thesis
    using allocate_write_read [OF sample_idle, of sample_target sample_topo 2 "[7, 9]" "0x2000" "\<lambda>h n. 0x3000"]
      sample_buffer
    by (simp; blast)
qed

text \<open>
  a batch that addresses subnet 65535 reads and writes past the end of \<^verbatim>\<open>sub_ids\<close>, which has an
  entry less than there are subnets.
\<close>

theorem batch_subnet_overflow:
  assumes "a \<in> set addrs" "subid a = 0xffff"
  shows "batch_write nif tgt addrs payload chunk_len c = Inl Segv \<and> batch_read nif tgt addrs buf chunk_len c = Inl Segv"
proof -
  have w: "write_pkts port payload chunk_len i addrs sub = Inl Segv" for port i sub
    using assms
    by (induction addrs arbitrary: i sub) (auto simp: sub_id_at_def sub_array_def USHRT_MAX_def)
  have "read_pkts port buf chunk_len i addrs sub = Inl Segv" for port i sub
    using assms by (induction addrs arbitrary: i sub) (auto simp: sub_id_at_def USHRT_MAX_def)
  with w show ?thesis by (simp add: batch_write_def batch_read_def)
qed

theorem batch_subnet_overflow_witness:
  "batch_write (cluster_net sample_topo sample_place) sample_target [(sample_addr 0 0)\<lparr>subid := 0xffff\<rparr>] [1] 1
     sample_process = Inl Segv"
  using batch_subnet_overflow [of "(sample_addr 0 0)\<lparr>subid := 0xffff\<rparr>" "[(sample_addr 0 0)\<lparr>subid := 0xffff\<rparr>]"
      "cluster_net sample_topo sample_place" sample_target "[1]" 1 sample_process 0]
  by simp

end
