(* ===== verification/BB_Raid.thy ===== *)
theory BB_Raid
  imports BB_Client
begin

text \<open>
  Striped remote memory, \<^verbatim>\<open>ip6/lib/vmem/rrmem.c\<close>: how a block is cut into stripes over the nh at
  RAID levels 0, 4 and 5, the parity stripe, its check, and the repair of a lost stripe, then the
  reads and writes of a block over the network. The level is a field of the state; the code
  always sets it to 4. Stripe buffers are the rows of \<^verbatim>\<open>wbufs\<close> and \<^verbatim>\<open>rbufs\<close>.
\<close>

section \<open>Striping\<close>

text \<open>
  The copy loops over the hosts. Each target is a pair of buffer index and stripe number: the two
  differ for level 5, where the host of the parity is skipped. \<open>alloc\<close> starts one too high unless
  the stripes are equal, and drops when the stripes get shorter.
\<close>

definition first_alloc :: "nat \<Rightarrow> nat \<Rightarrow> nat" where
  "first_alloc sz n = (if 0 < sz mod n then sz div n + 1 else sz div n)"

fun scatter :: "nat \<Rightarrow> nat \<Rightarrow> bytes \<Rightarrow> (nat \<times> nat) list \<Rightarrow> nat \<Rightarrow> nat \<Rightarrow> bytes list \<Rightarrow> bytes list res" where
  "scatter sz n dat [] alloc base bufs = Inr bufs"
| "scatter sz n dat ((i, k) # is) alloc base bufs =
     (let alloc' = (if sz mod n \<le> k then sz div n else alloc) in
      bindE (sub_array dat base alloc') (\<lambda>bs.
      bindE (if i < length bufs then put (bufs ! i) 0 bs else Inl Segv) (\<lambda>row.
        scatter sz n dat is alloc' (base + alloc') (bufs[i := row]))))"

fun gather :: "nat \<Rightarrow> nat \<Rightarrow> bytes list \<Rightarrow> (nat \<times> nat) list \<Rightarrow> nat \<Rightarrow> nat \<Rightarrow> bytes \<Rightarrow> bytes res" where
  "gather sz n bufs [] alloc base dat = Inr dat"
| "gather sz n bufs ((i, k) # is) alloc base dat =
     (let alloc' = (if sz mod n \<le> k then sz div n else alloc) in
      bindE (if i < length bufs then sub_array (bufs ! i) 0 alloc' else Inl Segv) (\<lambda>bs.
      bindE (put dat base bs) (\<lambda>dat'.
        gather sz n bufs is alloc' (base + alloc') dat')))"

text \<open>The targets of the three levels; \<open>p\<close> is the parity host of level 5.\<close>

definition plain_targets :: "nat \<Rightarrow> (nat \<times> nat) list" where
  "plain_targets n = map (\<lambda>i. (i, i)) [0..<n]"

definition raid5_targets :: "nat \<Rightarrow> nat \<Rightarrow> (nat \<times> nat) list" where
  "raid5_targets nh p =
     map (\<lambda>i. (i, i - (if p < i then 1 else 0))) (filter (\<lambda>i. i \<noteq> p) [0..<nh])"

section \<open>Parity\<close>

text \<open>One parity byte: the inner loop of \<^verbatim>\<open>parity45\<close> walks over the stripes by their lengths.\<close>

fun parity_row :: "bytes \<Rightarrow> nat \<Rightarrow> nat \<Rightarrow> nat \<Rightarrow> nat list \<Rightarrow> nat \<Rightarrow> u8 \<Rightarrow> u8" where
  "parity_row dat alloc rm i [] base acc = acc"
| "parity_row dat alloc rm i (j # js) base acc =
     parity_row dat alloc rm i js (base + alloc + (if j < rm then 1 else 0)) (acc XOR dat ! (i + base))"

fun parity_last :: "bytes \<Rightarrow> nat \<Rightarrow> nat \<Rightarrow> nat \<Rightarrow> u8 \<Rightarrow> u8" where
  "parity_last dat alloc 0 base acc = acc"
| "parity_last dat alloc (Suc k) base acc =
     parity_last dat alloc k (base + alloc + 1) (acc XOR dat ! base)"

definition parity45 :: "bytes \<Rightarrow> nat \<Rightarrow> nat \<Rightarrow> bytes \<Rightarrow> bytes res" where
  "parity45 dat sz n parity =
     (if n = 0 then Inl Fpe
      else if length dat < sz then Inl Segv
      else
        let alloc = sz div n; rm = sz mod n
        in put parity 0
             (map (\<lambda>i. parity_row dat alloc rm i [0..<n] 0 0) [0..<alloc] @
              (if 0 < rm then [parity_last dat alloc rm alloc 0] else [])))"

text \<open>The exclusive or of byte \<open>i\<close> over some of the stripe buffers.\<close>

definition xor_col :: "bytes list \<Rightarrow> nat list \<Rightarrow> nat \<Rightarrow> u8" where
  "xor_col stripes js i = foldl (\<lambda>acc j. acc XOR stripes ! j ! i) 0 js"

definition repairStripeFromParity45 :: "bytes list \<Rightarrow> bytes \<Rightarrow> nat \<Rightarrow> nat \<Rightarrow> nat \<Rightarrow> bytes list" where
  "repairStripeFromParity45 stripes parity missing n sz =
     (let alloc = sz div n; rm = sz mod n;
          repair1 = blit (stripes ! missing) 0
            (map (\<lambda>i. xor_col stripes (filter (\<lambda>j. j \<noteq> missing) [0..<n]) i XOR parity ! i) [0..<alloc]);
          repair2 = (if missing < rm
                     then repair1[alloc := xor_col stripes (filter (\<lambda>j. j \<noteq> missing) [0..<rm]) alloc XOR parity ! alloc]
                     else repair1)
      in stripes[missing := repair2])"

text \<open>
  \<^verbatim>\<open>checkParity45\<close> compares a \<^verbatim>\<open>char\<close> with a \<^verbatim>\<open>uint8_t\<close>: on the platforms of the makefile the former is
  signed, and both are promoted to \<^verbatim>\<open>int\<close>.
\<close>

definition same_as_char :: "u8 \<Rightarrow> u8 \<Rightarrow> bool" where
  "same_as_char paritybyte p \<longleftrightarrow> sint paritybyte = int (unat p)"

definition checkParity45 :: "bytes list \<Rightarrow> nat \<Rightarrow> bytes \<Rightarrow> nat \<Rightarrow> bool" where
  "checkParity45 stripes n parity sz =
     (let alloc = sz div n; rm = sz mod n
      in (\<forall>i<alloc. same_as_char (xor_col stripes [0..<n] i) (parity ! i)) \<and>
         (0 < rm \<longrightarrow> same_as_char (xor_col stripes [0..<rm] alloc) (parity ! alloc)))"

section \<open>Reading and writing a block\<close>

record rrmem =
  rr_target :: sockaddr_in6
  rsmem :: "ip6_memaddr list list"
  raid :: nat
  rr_block_size :: nat
  rr_nblocks :: nat

definition zero_bufs :: "bytes list" where
  "zero_bufs = replicate MAX_HOSTS (replicate BLOCK_SIZE 0)"

text \<open>The stripe buffers of a write at each level.\<close>

definition raid_split :: "nat \<Rightarrow> nat \<Rightarrow> nat \<Rightarrow> nat \<Rightarrow> bytes \<Rightarrow> bytes list \<Rightarrow> bytes list res" where
  "raid_split level nh block sz dat bufs =
     (if level = 0
      then scatter sz nh dat (plain_targets nh) (first_alloc sz nh) 0 bufs
      else
        let n = nh - 1; p = (if level = 4 then n else block mod nh) in
        bindE (parity45 dat sz n (bufs ! p)) (\<lambda>row.
          scatter sz n dat (if level = 4 then plain_targets n else raid5_targets nh p)
            (first_alloc sz n) 0 (bufs[p := row])))"

definition raid_join :: "nat \<Rightarrow> nat \<Rightarrow> nat \<Rightarrow> nat \<Rightarrow> int \<Rightarrow> bytes list \<Rightarrow> bytes \<Rightarrow> bytes res" where
  "raid_join level nh block sz missing bufs dat =
     (if level = 0
      then
        if missing \<noteq> - 1 then Inl Exit
        else gather sz nh bufs (plain_targets nh) (first_alloc sz nh) 0 dat
      else
        let n = nh - 1; p = (if level = 4 then n else block mod nh);
            bufs' = (if missing = - 1 \<or> missing = int p then bufs
                     else repairStripeFromParity45 bufs (bufs ! p) (nat missing) n sz)
        in gather sz n bufs' (if level = 4 then plain_targets n else raid5_targets nh p)
             (first_alloc sz n) 0 dat)"

fun nth_addrs :: "ip6_memaddr list list \<Rightarrow> nat \<Rightarrow> nat \<Rightarrow> ip6_memaddr list res" where
  "nth_addrs ms 0 block = Inr []"
| "nth_addrs [] (Suc k) block = Inl Segv"
| "nth_addrs (m # ms) (Suc k) block =
     bindE (sub_array m block 1) (\<lambda>a. bindE (nth_addrs ms k block) (\<lambda>as. Inr (hd a # as)))"

text \<open>Storing the updated addresses back: the requests are sent through pointers into the lists.\<close>

definition put_addrs :: "ip6_memaddr list list \<Rightarrow> nat \<Rightarrow> ip6_memaddr list \<Rightarrow> ip6_memaddr list list" where
  "put_addrs ms block as = map2 (\<lambda>m a. m[block := a]) (take (length as) ms) as @ drop (length as) ms"

definition rrmem_write ::
  "'n netif \<Rightarrow> nat \<Rightarrow> bytes \<Rightarrow> rrmem \<Rightarrow> int \<Rightarrow> bytes \<Rightarrow> 'n client \<Rightarrow> (rrmem \<times> 'n client) res" where
  "rrmem_write nif nh rx_buf r block dat c =
     (if block < 0 \<or> int (rr_nblocks r) \<le> block then Inl Abort
      else if raid r \<noteq> 0 \<and> raid r \<noteq> 4 \<and> raid r \<noteq> 5 then Inl Exit
      else if \<not> (2 \<le> nh \<and> nh \<le> MAX_HOSTS) then Inl Assertion
      else
        bindE (raid_split (raid r) nh (nat block) (rr_block_size r) dat zero_bufs) (\<lambda>wbufs.
        bindE (nth_addrs (rsmem r) nh (nat block)) (\<lambda>addrs.
        bindE (write_raid_mem nif rx_buf (rr_target r) nh wbufs addrs c) (\<lambda>(_, addrs', tgt', c').
          Inr (r\<lparr>rr_target := tgt', rsmem := put_addrs (rsmem r) (nat block) addrs'\<rparr>, c')))))"

text \<open>An unknown level leaves the destination alone.\<close>

definition rrmem_read ::
  "'n netif \<Rightarrow> nat \<Rightarrow> bytes \<Rightarrow> rrmem \<Rightarrow> int \<Rightarrow> bytes \<Rightarrow> 'n client \<Rightarrow> (bytes \<times> rrmem \<times> 'n client) res" where
  "rrmem_read nif nh rx_buf r block dat c =
     (if block < 0 \<or> int (rr_nblocks r) \<le> block then Inl Abort
      else if raid r \<noteq> 0 \<and> raid r \<noteq> 4 \<and> raid r \<noteq> 5 then Inr (dat, r, c)
      else if \<not> (2 \<le> nh \<and> nh \<le> MAX_HOSTS) then Inl Assertion
      else
        bindE (nth_addrs (rsmem r) nh (nat block)) (\<lambda>addrs.
        bindE (read_raid_mem nif rx_buf (rr_target r) nh zero_bufs addrs c) (\<lambda>(missing, rbufs, addrs', tgt', c').
        bindE (raid_join (raid r) nh (nat block) (rr_block_size r) missing rbufs dat) (\<lambda>dat'.
          Inr (dat', r\<lparr>rr_target := tgt', rsmem := put_addrs (rsmem r) (nat block) addrs'\<rparr>, c')))))"

text \<open>
  \<^verbatim>\<open>fill_rrmem\<close>: a block list on every host.
\<close>

fun fill_hosts ::
  "'n netif \<Rightarrow> ip6_memaddr list \<Rightarrow> sockaddr_in6 \<Rightarrow> nat \<Rightarrow> 'n client \<Rightarrow>
     (ip6_memaddr list list \<times> sockaddr_in6 \<times> 'n client) res" where
  "fill_hosts nif [] tgt nblocks c = Inr ([], tgt, c)"
| "fill_hosts nif (h # hs) tgt nblocks c =
     bindE (allocate_bulk_rmem nif (tgt\<lparr>sin6_addr := h\<rparr>) (of_nat nblocks) c) (\<lambda>(ms, tgt1, c1).
     bindE (fill_hosts nif hs tgt1 nblocks c1) (\<lambda>(rest, tgt2, c2). Inr (ms # rest, tgt2, c2)))"

definition rrmem_allocate ::
  "'n netif \<Rightarrow> ip6_memaddr list \<Rightarrow> sockaddr_in6 \<Rightarrow> nat \<Rightarrow> 'n client \<Rightarrow> (rrmem \<times> 'n client) res" where
  "rrmem_allocate nif nh tgt nblocks c =
     bindE (fill_hosts nif nh tgt nblocks c) (\<lambda>(lists, tgt', c').
       Inr (\<lparr>rr_target = tgt', rsmem = lists, raid = 4, rr_block_size = BLOCK_SIZE, rr_nblocks = nblocks\<rparr>, c'))"

fun rrmem_deallocate :: "'n netif \<Rightarrow> sockaddr_in6 \<Rightarrow> ip6_memaddr list list \<Rightarrow> nat \<Rightarrow> 'n client \<Rightarrow> 'n client res" where
  "rrmem_deallocate nif tgt ms 0 c = Inr c"
| "rrmem_deallocate nif tgt [] (Suc k) c = Inl Segv"
| "rrmem_deallocate nif tgt (m # ms) (Suc k) c =
     bindE (sub_array m 0 1) (\<lambda>a.
     bindE (free_rmem nif tgt (hd a) c) (\<lambda>(tgt', _, c'). rrmem_deallocate nif tgt' ms k c'))"

section \<open>Stripes, parity and repair\<close>

definition stripe_len :: "nat \<Rightarrow> nat \<Rightarrow> nat \<Rightarrow> nat" where
  "stripe_len sz n k = sz div n + (if k < sz mod n then 1 else 0)"

definition stripe_off :: "nat \<Rightarrow> nat \<Rightarrow> nat \<Rightarrow> nat" where
  "stripe_off sz n k = k * (sz div n) + min k (sz mod n)"

text \<open>Buffer \<open>h j\<close> starts with stripe \<open>j\<close> of the block.\<close>

definition holds_stripe :: "nat \<Rightarrow> nat \<Rightarrow> bytes \<Rightarrow> bytes list \<Rightarrow> nat \<Rightarrow> nat \<Rightarrow> bool" where
  "holds_stripe sz n dat bufs i j \<longleftrightarrow>
     i < length bufs \<and> stripe_len sz n j \<le> length (bufs ! i) \<and>
     take (stripe_len sz n j) (bufs ! i) = slice dat (stripe_off sz n j) (stripe_len sz n j)"

lemma stripe_off_0 [simp]: "stripe_off sz n 0 = 0"
  by (simp add: stripe_off_def)

lemma stripe_off_Suc: "stripe_off sz n (Suc k) = stripe_off sz n k + stripe_len sz n k"
  by (auto simp: stripe_off_def stripe_len_def)

lemma stripe_off_n: "0 < n \<Longrightarrow> stripe_off sz n n = sz"
  using mod_less_divisor [of n sz] by (simp add: stripe_off_def min.absorb2 less_imp_le)

lemma stripe_off_mono: "j \<le> k \<Longrightarrow> stripe_off sz n j \<le> stripe_off sz n k"
  by (auto simp: stripe_off_def intro!: add_mono)

lemma stripe_end: "j < n \<Longrightarrow> stripe_off sz n j + stripe_len sz n j \<le> sz"
  using stripe_off_mono [of "Suc j" n sz n] by (simp add: stripe_off_Suc stripe_off_n)

lemma stripe_len_le_first: "stripe_len sz n j \<le> first_alloc sz n"
  by (auto simp: stripe_len_def first_alloc_def)

lemma loop_alloc:
  "k < sz mod n \<longrightarrow> alloc = sz div n + 1 \<Longrightarrow>
   (if sz mod n \<le> k then sz div n else alloc) = stripe_len sz n k"
  by (auto simp: stripe_len_def)

lemma first_alloc_inv: "0 < sz mod n \<longrightarrow> first_alloc sz n = sz div n + 1"
  by (simp add: first_alloc_def)

lemma scatter_ok:
  assumes "k + m = n" "length dat = sz" "k < sz mod n \<longrightarrow> alloc = sz div n + 1"
    and "inj_on h {k..<n}" "h ` {k..<n} \<subseteq> {..<length bufs}"
    and "\<forall>b\<in>set bufs. first_alloc sz n \<le> length b"
  shows "\<exists>bufs'. scatter sz n dat (map (\<lambda>j. (h j, j)) [k..<n]) alloc (stripe_off sz n k) bufs = Inr bufs' \<and>
      length bufs' = length bufs \<and> (\<forall>i<length bufs. length (bufs' ! i) = length (bufs ! i)) \<and>
      (\<forall>j\<in>{k..<n}. holds_stripe sz n dat bufs' (h j) j) \<and>
      (\<forall>i<length bufs. i \<notin> h ` {k..<n} \<longrightarrow> bufs' ! i = bufs ! i)"
  using assms
proof (induction m arbitrary: k alloc bufs)
  case 0
  then show ?case by auto
next
  case (Suc m)
  let ?l = "stripe_len sz n k" and ?o = "stripe_off sz n k"
  let ?row = "blit (bufs ! h k) 0 (slice dat ?o ?l)"
  have kn: "k < n" using Suc.prems(1) by simp
  have hk: "h k < length bufs" using Suc.prems(5) kn by (simp add: image_subset_iff)
  have room: "?l \<le> length (bufs ! h k)"
    using Suc.prems(6) hk stripe_len_le_first order_trans nth_mem by metis
  have fits: "?o + ?l \<le> length dat" using stripe_end [OF kn] Suc.prems(2) by simp
  have len_slice: "length (slice dat ?o ?l) = ?l" using fits by simp
  have step: "scatter sz n dat (map (\<lambda>j. (h j, j)) [k..<n]) alloc ?o bufs =
      scatter sz n dat (map (\<lambda>j. (h j, j)) [Suc k..<n]) ?l (stripe_off sz n (Suc k)) (bufs[h k := ?row])"
    using kn hk room fits len_slice
    by (simp add: upt_conv_Cons loop_alloc [OF Suc.prems(3)] sub_array_def put_def stripe_off_Suc Let_def
        flip: slice_def)
  have hk_notin: "h k \<notin> h ` {Suc k..<n}"
    using inj_onD [OF Suc.prems(4), of k] kn by force
  have ins: "{k..<n} = insert k {Suc k..<n}" using kn by auto
  have row_len: "length ?row = length (bufs ! h k)" using room len_slice by simp
  have km: "Suc k + m = n" using Suc.prems(1) by simp
  have al: "Suc k < sz mod n \<longrightarrow> ?l = sz div n + 1" by (simp add: stripe_len_def)
  have inj: "inj_on h {Suc k..<n}" by (rule inj_on_subset [OF Suc.prems(4)]) auto
  have ran: "h ` {Suc k..<n} \<subseteq> {..<length (bufs[h k := ?row])}"
    using Suc.prems(5) by (auto simp: image_subset_iff)
  have wide: "\<forall>b\<in>set (bufs[h k := ?row]). first_alloc sz n \<le> length b"
    using Suc.prems(6) row_len hk by (auto dest!: set_update_subset_insert [THEN subsetD])
  obtain bufs' where b: "scatter sz n dat (map (\<lambda>j. (h j, j)) [Suc k..<n]) ?l (stripe_off sz n (Suc k)) (bufs[h k := ?row]) = Inr bufs'"
    "length bufs' = length bufs"
    "\<forall>i<length bufs. length (bufs' ! i) = length (bufs[h k := ?row] ! i)"
    "\<forall>j\<in>{Suc k..<n}. holds_stripe sz n dat bufs' (h j) j"
    "\<forall>i<length bufs. i \<notin> h ` {Suc k..<n} \<longrightarrow> bufs' ! i = bufs[h k := ?row] ! i"
    using Suc.IH [OF km Suc.prems(2) al inj ran wide] unfolding length_list_update by blast
  have "bufs' ! h k = ?row" using b(5) hk hk_notin by simp
  then have "holds_stripe sz n dat bufs' (h k) k"
    using b(2) hk room len_slice by (simp add: holds_stripe_def blit_def)
  then have "\<forall>j\<in>{k..<n}. holds_stripe sz n dat bufs' (h j) j"
    using b(4) by (metis atLeastLessThan_iff le_neq_implies_less Suc_leI)
  moreover have "\<forall>i<length bufs. i \<notin> h ` {k..<n} \<longrightarrow> bufs' ! i = bufs ! i"
    using b(5) ins by simp
  moreover have "\<forall>i<length bufs. length (bufs' ! i) = length (bufs ! i)"
    using b(3) row_len hk by (auto simp: nth_list_update)
  ultimately show ?case using step b(1,2) by (intro exI [of _ bufs']) simp
qed

lemma gather_ok:
  assumes "k + m = n" "length dat = sz" "k < sz mod n \<longrightarrow> alloc = sz div n + 1"
    and "\<forall>j\<in>{k..<n}. holds_stripe sz n dat bufs (h j) j"
    and "length d0 = sz" "take (stripe_off sz n k) d0 = take (stripe_off sz n k) dat" "0 < n"
  shows "gather sz n bufs (map (\<lambda>j. (h j, j)) [k..<n]) alloc (stripe_off sz n k) d0 = Inr dat"
  using assms
proof (induction m arbitrary: k alloc d0)
  case 0
  then show ?case by (simp add: stripe_off_n)
next
  case (Suc m)
  let ?l = "stripe_len sz n k" and ?o = "stripe_off sz n k"
  let ?d = "blit d0 ?o (slice dat ?o ?l)"
  have kn: "k < n" using Suc.prems(1) by simp
  have fits: "?o + ?l \<le> length dat" using stripe_end [OF kn] Suc.prems(2) by simp
  have len_slice: "length (slice dat ?o ?l) = ?l" using fits by simp
  have hk: "holds_stripe sz n dat bufs (h k) k" using Suc.prems(4) kn by auto
  then have step: "gather sz n bufs (map (\<lambda>j. (h j, j)) [k..<n]) alloc ?o d0 =
      gather sz n bufs (map (\<lambda>j. (h j, j)) [Suc k..<n]) ?l (stripe_off sz n (Suc k)) ?d"
    using kn fits len_slice Suc.prems(2,5)
    by (simp add: upt_conv_Cons loop_alloc [OF Suc.prems(3)] sub_array_def put_def stripe_off_Suc holds_stripe_def Let_def)
  have "take (?o + ?l) ?d = take ?o d0 @ slice dat ?o ?l"
    using fits Suc.prems(2,5) len_slice by (simp add: blit_def)
  then have "take (stripe_off sz n (Suc k)) ?d = take (stripe_off sz n (Suc k)) dat"
    by (simp add: stripe_off_Suc Suc.prems(6) slice_def take_add)
  then have "gather sz n bufs (map (\<lambda>j. (h j, j)) [Suc k..<n]) ?l (stripe_off sz n (Suc k)) ?d = Inr dat"
    using Suc.IH [of "Suc k" ?l ?d] Suc.prems fits len_slice by (simp add: stripe_len_def)
  then show ?case using step by simp
qed


subsection \<open>Exclusive or over stripes\<close>

lemma foldl_xor: "foldl (\<lambda>acc j. acc XOR f j) a js = a XOR foldl (\<lambda>acc j. acc XOR f j) (0::u8) js"
proof (induction js arbitrary: a)
  case (Cons j js)
  show ?case using Cons.IH [of "a XOR f j"] Cons.IH [of "f j"] by (simp add: xor.assoc)
qed simp

definition xor_sum :: "(nat \<Rightarrow> u8) \<Rightarrow> nat list \<Rightarrow> u8" where
  "xor_sum f js = foldl (\<lambda>acc j. acc XOR f j) 0 js"

lemma xor_sum_simps [simp]: "xor_sum f [] = 0" "xor_sum f (j # js) = f j XOR xor_sum f js"
  unfolding xor_sum_def using foldl_xor [of f "f j" js] by simp_all

lemma xor_sum_cong: "(\<And>j. j \<in> set js \<Longrightarrow> f j = g j) \<Longrightarrow> xor_sum f js = xor_sum g js"
  by (induction js) auto

lemma xor_sum_missing:
  "distinct js \<Longrightarrow> m \<in> set js \<Longrightarrow> xor_sum f (filter (\<lambda>j. j \<noteq> m) js) XOR xor_sum f js = f m"
proof (induction js)
  case (Cons j js)
  show ?case
  proof (cases "j = m")
    case True
    then have "filter (\<lambda>j. j \<noteq> m) js = js" using Cons.prems(1) by (auto intro: filter_True)
    then show ?thesis using True by (simp add: xor.left_commute)
  next
    case False
    then show ?thesis using Cons by (simp add: xor.assoc xor.left_commute)
  qed
qed simp

lemma parity_row_sum:
  "k + m = n \<Longrightarrow> parity_row dat (sz div n) (sz mod n) i [k..<n] (stripe_off sz n k) acc =
   acc XOR xor_sum (\<lambda>j. dat ! (stripe_off sz n j + i)) [k..<n]"
proof (induction m arbitrary: k acc)
  case (Suc m)
  then show ?case
    using Suc.IH [of "Suc k"]
    by (cases "k < sz mod n") (simp_all add: upt_conv_Cons stripe_off_Suc stripe_len_def xor.assoc add.commute add.left_commute)
qed simp

lemma parity_last_sum:
  "k + m = sz mod n \<Longrightarrow> parity_last dat (sz div n) m (stripe_off sz n k + sz div n) acc =
   acc XOR xor_sum (\<lambda>j. dat ! (stripe_off sz n j + sz div n)) [k..<sz mod n]"
proof (induction m arbitrary: k acc)
  case (Suc m)
  then show ?case
    using Suc.IH [of "Suc k"]
    by (simp add: upt_conv_Cons stripe_off_Suc stripe_len_def xor.assoc add.commute add.left_commute)
qed simp

text \<open>The stripes that reach position \<open>i\<close>: all of them, or only the longer ones.\<close>

definition stripes_at :: "nat \<Rightarrow> nat \<Rightarrow> nat \<Rightarrow> nat list" where
  "stripes_at sz n i = (if i < sz div n then [0..<n] else [0..<sz mod n])"

definition parity_byte :: "nat \<Rightarrow> nat \<Rightarrow> bytes \<Rightarrow> nat \<Rightarrow> u8" where
  "parity_byte sz n dat i = xor_sum (\<lambda>j. dat ! (stripe_off sz n j + i)) (stripes_at sz n i)"

lemma parity45_ok:
  assumes "0 < n" "length dat = sz" "first_alloc sz n \<le> length p"
  shows "\<exists>p'. parity45 dat sz n p = Inr p' \<and> length p' = length p \<and>
           (\<forall>i<first_alloc sz n. p' ! i = parity_byte sz n dat i)"
proof -
  let ?bs = "map (parity_byte sz n dat) [0..<first_alloc sz n]"
  have rows: "map (\<lambda>i. parity_row dat (sz div n) (sz mod n) i [0..<n] 0 0) [0..<sz div n] =
      map (parity_byte sz n dat) [0..<sz div n]"
    using parity_row_sum [of 0 n n dat sz] by (simp add: parity_byte_def stripes_at_def)
  have last: "parity_last dat (sz div n) (sz mod n) (sz div n) 0 = parity_byte sz n dat (sz div n)"
    using parity_last_sum [of 0 "sz mod n" sz n dat 0] by (simp add: parity_byte_def stripes_at_def)
  have "parity45 dat sz n p = put p 0 ?bs"
    using assms by (simp add: parity45_def Let_def rows last first_alloc_def)
  then show ?thesis
    using assms(3) by (auto simp: put_def nth_blit)
qed


subsection \<open>The levels\<close>

lemma plain_targets_map: "plain_targets n = map (\<lambda>j. (id j, j)) [0..<n]"
  by (simp add: plain_targets_def)

definition raid5_host :: "nat \<Rightarrow> nat \<Rightarrow> nat" where
  "raid5_host p j = (if j < p then j else Suc j)"

lemma raid5_targets_map:
  assumes "p < nh" shows "raid5_targets nh p = map (\<lambda>j. (raid5_host p j, j)) [0..<nh - 1]"
proof -
  have "[0..<nh] = [0..<p] @ p # [Suc p..<nh]"
    using assms upt_add_eq_append [of 0 p "nh - p"] by (simp add: upt_conv_Cons)
  moreover have "[Suc p..<nh] = map Suc [p..<nh - 1]"
    using assms by (simp add: map_Suc_upt)
  moreover have "[0..<nh - 1] = [0..<p] @ [p..<nh - 1]"
    using assms upt_add_eq_append [of 0 p "nh - 1 - p"] by simp
  ultimately show ?thesis
    by (simp add: raid5_targets_def raid5_host_def)
qed

lemma raid5_host_inj: "inj_on (raid5_host p) A"
  by (auto simp: inj_on_def raid5_host_def split: if_splits)

lemma raid5_host_range: "j < nh - 1 \<Longrightarrow> raid5_host p j < nh \<and> raid5_host p j \<noteq> p"
  by (auto simp: raid5_host_def)

text \<open>Enough equal buffers for the hosts.\<close>

definition bufs_ok :: "nat \<Rightarrow> nat \<Rightarrow> bytes list \<Rightarrow> bool" where
  "bufs_ok nh need bufs \<longleftrightarrow> nh \<le> length bufs \<and> (\<forall>b\<in>set bufs. need \<le> length b)"

lemma split_parity:
  assumes nh: "2 \<le> nh" and dat: "length dat = sz" and bufs: "bufs_ok nh (first_alloc sz (nh - 1)) bufs"
    and level: "level = 4 \<and> p = nh - 1 \<and> h = id \<or> level = 5 \<and> p = block mod nh \<and> h = raid5_host p"
  shows "\<exists>w. raid_split level nh block sz dat bufs = Inr w \<and> length w = length bufs \<and>
      (\<forall>i<length w. length (w ! i) = length (bufs ! i)) \<and>
      (\<forall>j<nh - 1. holds_stripe sz (nh - 1) dat w (h j) j) \<and>
      (\<forall>i<first_alloc sz (nh - 1). w ! p ! i = parity_byte sz (nh - 1) dat i)"
proof -
  let ?n = "nh - 1"
  have p: "p < length bufs" "p < nh"
    using level nh bufs by (auto simp: bufs_ok_def intro: less_le_trans [OF mod_less_divisor])
  have ts: "(if level = 4 then plain_targets ?n else raid5_targets nh p) = map (\<lambda>j. (h j, j)) [0..<?n]"
    using level raid5_targets_map [OF p(2)] by (auto simp: plain_targets_map)
  have h: "inj_on h {0..<?n}" "\<forall>j<?n. h j < nh \<and> h j \<noteq> p"
    using level raid5_host_inj raid5_host_range by auto
  obtain row where row: "parity45 dat sz ?n (bufs ! p) = Inr row" "length row = length (bufs ! p)"
      "\<forall>i<first_alloc sz ?n. row ! i = parity_byte sz ?n dat i"
    using parity45_ok [of ?n dat sz "bufs ! p"] nh dat bufs p(1) by (auto simp: bufs_ok_def)
  let ?b = "bufs[p := row]"
  have wide: "\<forall>b\<in>set ?b. first_alloc sz ?n \<le> length b"
    using bufs row(2) p(1) by (auto simp: bufs_ok_def dest!: set_update_subset_insert [THEN subsetD])
  have inside: "h ` {0..<?n} \<subseteq> {..<length ?b}" using h(2) bufs by (force simp: bufs_ok_def)
  obtain w where w: "scatter sz ?n dat (map (\<lambda>j. (h j, j)) [0..<?n]) (first_alloc sz ?n) 0 ?b = Inr w"
      "length w = length ?b" "\<forall>i<length ?b. length (w ! i) = length (?b ! i)"
      "\<forall>j\<in>{0..<?n}. holds_stripe sz ?n dat w (h j) j"
      "\<forall>i<length ?b. i \<notin> h ` {0..<?n} \<longrightarrow> w ! i = ?b ! i"
    using scatter_ok [of 0 ?n ?n dat sz, OF _ dat first_alloc_inv h(1) inside wide] by auto
  have "p \<notin> h ` {0..<?n}" using h(2) by auto
  then have "w ! p = row" using w(5) p(1) by simp
  then have "\<forall>i<first_alloc sz ?n. w ! p ! i = parity_byte sz ?n dat i" using row(3) by simp
  moreover have "\<forall>i<length w. length (w ! i) = length (bufs ! i)"
    using w(2,3) row(2) p(1) by (auto simp: nth_list_update)
  moreover have "raid_split level nh block sz dat bufs = Inr w"
    using row(1) w(1) level ts by (auto simp: raid_split_def Let_def split: if_splits)
  ultimately show ?thesis using w(2,4) by auto
qed


lemma first_alloc_cases: "i < first_alloc sz n \<Longrightarrow> i < sz div n \<or> i = sz div n \<and> 0 < sz mod n"
  by (auto simp: first_alloc_def split: if_splits)

lemma stripe_reaches: "0 < n \<Longrightarrow> i < first_alloc sz n \<Longrightarrow> j \<in> set (stripes_at sz n i) \<longleftrightarrow> j < n \<and> i < stripe_len sz n j"
  by (auto dest!: first_alloc_cases simp: stripes_at_def stripe_len_def intro: less_trans [OF _ mod_less_divisor])

lemma holds_stripe_nth:
  assumes "holds_stripe sz n dat bufs i j" "k < stripe_len sz n j" "j < n" "length dat = sz"
  shows "bufs ! i ! k = dat ! (stripe_off sz n j + k)"
proof -
  have "take (stripe_len sz n j) (bufs ! i) ! k = slice dat (stripe_off sz n j) (stripe_len sz n j) ! k"
    using assms(1) by (simp add: holds_stripe_def)
  then show ?thesis using assms(2,4) stripe_end [OF assms(3), of sz] by (simp add: slice_def)
qed

lemma xor_col_sum: "xor_col bufs js i = xor_sum (\<lambda>j. bufs ! j ! i) js"
  by (simp add: xor_col_def xor_sum_def)

text \<open>A byte of the missing stripe is the parity byte with the other stripes taken out.\<close>

lemma repair_byte:
  assumes "length dat = sz" "m < n" "i < stripe_len sz n m"
    and others: "\<forall>j<n. j \<noteq> m \<longrightarrow> holds_stripe sz n dat bufs j j"
  shows "xor_col bufs (filter (\<lambda>j. j \<noteq> m) (stripes_at sz n i)) i XOR parity_byte sz n dat i =
         dat ! (stripe_off sz n m + i)"
proof -
  let ?f = "\<lambda>j. dat ! (stripe_off sz n j + i)"
  have i: "i < first_alloc sz n" using assms(3) stripe_len_le_first less_le_trans by blast
  have n: "0 < n" using assms(2) by simp
  have m: "m \<in> set (stripes_at sz n i)" using stripe_reaches [OF n i] assms(2,3) by simp
  have "xor_col bufs (filter (\<lambda>j. j \<noteq> m) (stripes_at sz n i)) i = xor_sum ?f (filter (\<lambda>j. j \<noteq> m) (stripes_at sz n i))"
    unfolding xor_col_sum using others stripe_reaches [OF n i] assms(1)
    by (intro xor_sum_cong) (auto intro: holds_stripe_nth)
  moreover have "distinct (stripes_at sz n i)" by (simp add: stripes_at_def)
  ultimately show ?thesis using xor_sum_missing [OF _ m, of ?f] by (simp add: parity_byte_def)
qed

lemma repair_ok:
  assumes dat: "length dat = sz" and m: "m < n" and room: "stripe_len sz n m \<le> length (bufs ! m)" "m < length bufs"
    and others: "\<forall>j<n. j \<noteq> m \<longrightarrow> holds_stripe sz n dat bufs j j"
    and parity: "\<forall>i<first_alloc sz n. p ! i = parity_byte sz n dat i"
  shows "\<forall>j<n. holds_stripe sz n dat (repairStripeFromParity45 bufs p m n sz) j j"
proof -
  let ?r = "repairStripeFromParity45 bufs p m n sz" and ?a = "sz div n"
  have eq: "?r ! m = blit (bufs ! m) 0 (map (\<lambda>i. xor_col bufs (filter (\<lambda>j. j \<noteq> m) (stripes_at sz n i)) i XOR p ! i) [0..<stripe_len sz n m])"
    (is "_ = ?b")
  proof (cases "m < sz mod n")
    case True
    then have "?a < length (bufs ! m)" using room by (simp add: stripe_len_def)
    then show ?thesis using True room(2)
      by (simp add: repairStripeFromParity45_def Let_def stripe_len_def stripes_at_def blit_def
          list_update_append Cons_nth_drop_Suc [symmetric] cong: map_cong)
  next
    case False
    have "map (\<lambda>i. xor_col bufs (filter (\<lambda>j. j \<noteq> m) (stripes_at sz n i)) i XOR p ! i) [0..<?a] =
        map (\<lambda>i. xor_col bufs (filter (\<lambda>j. j \<noteq> m) [0..<n]) i XOR p ! i) [0..<?a]"
      by (simp add: stripes_at_def)
    from arg_cong [OF this, of "blit (bufs ! m) 0"] show ?thesis using False room(2)
      by (simp add: repairStripeFromParity45_def Let_def stripe_len_def)
  qed
  have "map (\<lambda>i. xor_col bufs (filter (\<lambda>j. j \<noteq> m) (stripes_at sz n i)) i XOR p ! i) [0..<stripe_len sz n m] =
      slice dat (stripe_off sz n m) (stripe_len sz n m)" (is "?l = ?s")
  proof (rule nth_equalityI)
    show "length ?l = length ?s" using stripe_end [OF m, of sz] dat by simp
  next
    fix i assume "i < length ?l"
    then have i: "i < stripe_len sz n m" by simp
    then have "i < first_alloc sz n" using stripe_len_le_first less_le_trans by blast
    then show "?l ! i = ?s ! i"
      using i repair_byte [OF dat m i others] parity stripe_end [OF m, of sz] dat by (simp add: slice_def)
  qed
  then have fixed: "holds_stripe sz n dat ?r m m"
    using eq room stripe_end [OF m, of sz] dat
    by (simp add: holds_stripe_def repairStripeFromParity45_def [of _ _ m] Let_def blit_def)
  have kept: "?r ! j = bufs ! j" "length ?r = length bufs" if "j \<noteq> m" for j
    using that by (auto simp: repairStripeFromParity45_def Let_def)
  show ?thesis
  proof (intro allI impI)
    fix j assume "j < n"
    then show "holds_stripe sz n dat ?r j j"
      using fixed others kept [of j] by (cases "j = m") (simp_all add: holds_stripe_def)
  qed
qed


lemma join_parity:
  assumes nh: "2 \<le> nh" and dat: "length dat = sz" "length d0 = sz"
    and level: "level = 4 \<and> p = nh - 1 \<and> h = id \<or> level = 5 \<and> p = block mod nh \<and> h = raid5_host p"
    and bufs: "bufs' = (if missing = - 1 \<or> missing = int p then r
                 else repairStripeFromParity45 r (r ! p) (nat missing) (nh - 1) sz)"
    and held: "\<forall>j<nh - 1. holds_stripe sz (nh - 1) dat bufs' (h j) j"
  shows "raid_join level nh block sz missing r d0 = Inr dat"
proof -
  let ?n = "nh - 1"
  have p: "p < nh" using level nh by auto
  have ts: "(if level = 4 then plain_targets ?n else raid5_targets nh p) = map (\<lambda>j. (h j, j)) [0..<?n]"
    using level raid5_targets_map [OF p] by (auto simp: plain_targets_map)
  have "gather sz ?n bufs' (map (\<lambda>j. (h j, j)) [0..<?n]) (first_alloc sz ?n) 0 d0 = Inr dat"
    using gather_ok [of 0 ?n ?n dat sz "first_alloc sz ?n" bufs' h d0] nh dat held first_alloc_inv by simp
  then show ?thesis
    using level ts bufs by (auto simp: raid_join_def Let_def split: if_splits)
qed

text \<open>
  C13: At level 4 the memory survives the loss of any one host. Writing a block cuts it into stripe
  buffers; whichever single answer is then missing on the way back (none, a data stripe, or the
  parity), with whatever the buffer of the missing host holds, the block read is the block written.
\<close>

theorem raid4_survives_one_loss:
  assumes "2 \<le> nh" "length dat = sz" "length d0 = sz" "bufs_ok nh (first_alloc sz (nh - 1)) bufs"
    and "- 1 \<le> missing" "missing < int nh"
  shows "\<exists>w. raid_split 4 nh block sz dat bufs = Inr w \<and>
    (\<forall>r. length r = length w \<and> (\<forall>i<length w. length (r ! i) = length (w ! i)) \<and>
         (\<forall>i<nh. int i \<noteq> missing \<longrightarrow> r ! i = w ! i) \<longrightarrow>
       raid_join 4 nh block sz missing r d0 = Inr dat)"
proof -
  let ?n = "nh - 1"
  obtain w where w: "raid_split 4 nh block sz dat bufs = Inr w" "length w = length bufs"
      "\<forall>j<?n. holds_stripe sz ?n dat w j j"
      "\<forall>i<first_alloc sz ?n. w ! ?n ! i = parity_byte sz ?n dat i"
    using split_parity [OF assms(1,2,4), of 4 ?n id block] by auto
  have "raid_join 4 nh block sz missing r d0 = Inr dat"
    if r: "length r = length w" "\<forall>i<length w. length (r ! i) = length (w ! i)"
      "\<forall>i<nh. int i \<noteq> missing \<longrightarrow> r ! i = w ! i" for r
  proof -
    have keep: "holds_stripe sz ?n dat r j j" if "j < ?n" "int j \<noteq> missing" for j
      using w(3) that r by (auto simp: holds_stripe_def)
    have "\<forall>j<?n. holds_stripe sz ?n dat (if missing = - 1 \<or> missing = int ?n then r
                 else repairStripeFromParity45 r (r ! ?n) (nat missing) ?n sz) j j"
    proof (cases "missing = - 1 \<or> missing = int ?n")
      case False
      then obtain m where m: "missing = int m" "m < ?n"
        using assms(5,6) by (cases missing rule: int_cases2) auto
      have "r ! ?n = w ! ?n" using r(3) False assms(1) by auto
      then have "\<forall>j<?n. holds_stripe sz ?n dat (repairStripeFromParity45 r (r ! ?n) m ?n sz) j j"
        using m keep w(3,4) r(1,2) by (intro repair_ok [OF assms(2) m(2)]) (auto simp: holds_stripe_def)
      then show ?thesis using m by simp
    qed (use keep in auto)
    then show ?thesis
      using join_parity [OF assms(1-3), of 4 ?n id, OF _ refl] by simp
  qed
  then show ?thesis using w(1) by auto
qed

theorem raid4_survives_one_loss_witness:
  "raid_join 4 3 7 5 1 [[1, 2, 3], [0, 0, 0], [5, 7, 3]] (replicate 5 0) = Inr [1, 2, 3, 4, 5]"
proof -
  have "raid_split 4 3 7 5 [1, 2, 3, 4, 5] (replicate 3 (replicate 3 0)) = Inr [[1, 2, 3], [4, 5, 0], [5, 7, 3]]"
    by code_simp
  moreover have "bufs_ok 3 (first_alloc 5 (3 - 1)) (replicate 3 (replicate 3 (0 :: u8)))"
    by (simp add: bufs_ok_def first_alloc_def)
  ultimately show ?thesis
    using raid4_survives_one_loss [of 3 "[1, 2, 3, 4, 5]" 5 "replicate 5 0" "replicate 3 (replicate 3 0)" 1 7]
    by (auto simp: numeral_3_eq_3 All_less_Suc2)
qed

text \<open>
  C22: At every level a block written to all hosts and read back from all of them comes back
  unchanged, for every block size and every number of hosts the stripe buffers have room for, also
  when the size is not a multiple of the number of stripes.
\<close>

theorem raid_intact_roundtrip:
  assumes "level \<in> {0, 4, 5}" "2 \<le> nh" "length dat = sz" "length d0 = sz"
    and "bufs_ok nh (first_alloc sz (if level = 0 then nh else nh - 1)) bufs"
  shows "\<exists>w. raid_split level nh block sz dat bufs = Inr w \<and> raid_join level nh block sz (- 1) w d0 = Inr dat"
proof (cases "level = 0")
  case True
  have "\<exists>w. scatter sz nh dat (map (\<lambda>j. (id j, j)) [0..<nh]) (first_alloc sz nh) (stripe_off sz nh 0) bufs = Inr w \<and>
      (\<forall>j\<in>{0..<nh}. holds_stripe sz nh dat w (id j) j)"
    using scatter_ok [of 0 nh nh dat sz "first_alloc sz nh" id bufs] assms True first_alloc_inv
    by (auto simp: bufs_ok_def subset_iff)
  then obtain w where w: "scatter sz nh dat (plain_targets nh) (first_alloc sz nh) 0 bufs = Inr w"
      "\<forall>j\<in>{0..<nh}. holds_stripe sz nh dat w (id j) j"
    by (auto simp: plain_targets_map)
  then have "gather sz nh w (plain_targets nh) (first_alloc sz nh) 0 d0 = Inr dat"
    using gather_ok [of 0 nh nh dat sz "first_alloc sz nh" w id d0] assms first_alloc_inv
    by (simp add: plain_targets_map)
  then show ?thesis using w(1) True by (simp add: raid_split_def raid_join_def)
next
  case False
  define p h where "p = (if level = 4 then nh - 1 else block mod nh)" and "h = (if level = 4 then id else raid5_host p)"
  have level: "level = 4 \<and> p = nh - 1 \<and> h = id \<or> level = 5 \<and> p = block mod nh \<and> h = raid5_host p"
    using assms(1) False by (auto simp: p_def h_def)
  have bufs: "bufs_ok nh (first_alloc sz (nh - 1)) bufs" using assms(5) False by simp
  obtain w where "raid_split level nh block sz dat bufs = Inr w" "\<forall>j<nh - 1. holds_stripe sz (nh - 1) dat w (h j) j"
    using split_parity [OF assms(2,3) bufs level] by auto
  then show ?thesis using join_parity [OF assms(2-4) level, of w "- 1" w] by auto
qed

theorem raid_intact_roundtrip_witness:
  "raid_join 5 3 4 5 (- 1) [[1, 2, 3], [5, 7, 3], [4, 5, 0]] (replicate 5 0) = Inr [1, 2, 3, 4, 5]"
proof -
  have "raid_split 5 3 4 5 [1, 2, 3, 4, 5] (replicate 3 (replicate 3 0)) = Inr [[1, 2, 3], [5, 7, 3], [4, 5, 0]]"
    by code_simp
  moreover have "bufs_ok 3 (first_alloc 5 (3 - 1)) (replicate 3 (replicate 3 (0 :: u8)))"
    by (simp add: bufs_ok_def first_alloc_def)
  ultimately show ?thesis
    using raid_intact_roundtrip [of 5 3 "[1, 2, 3, 4, 5]" 5 "replicate 5 0" "replicate 3 (replicate 3 0)" 4] by simp
qed


lemma same_as_char_iff: "same_as_char b b \<longleftrightarrow> unat b < 128"
proof -
  have "sint b = signed_take_bit 7 (uint b)" by (simp add: sint_uint)
  moreover have "signed_take_bit 7 (uint b) = uint b \<longleftrightarrow> uint b < 128"
    using order_trans [OF _ unsigned_greater_eq, of "- 128 :: int" b] by (simp add: signed_take_bit_int_eq_self_iff)
  moreover have eq: "int (unat b) = uint b" by simp
  moreover have "unat b < 128 \<longleftrightarrow> uint b < 128" unfolding eq [symmetric] by linarith
  ultimately show ?thesis unfolding same_as_char_def by metis
qed

text \<open>
  C40: \<^verbatim>\<open>checkParity45\<close> compares the parity it computes as a signed \<^verbatim>\<open>char\<close> with the unsigned byte
  received. On the stripes and the parity of a block exactly as written it succeeds if and only if
  no parity byte has its top bit set: a correct block with such a byte is reported as corrupt.
\<close>

theorem checkParity45_signed:
  assumes "2 \<le> nh" "length dat = sz" "bufs_ok nh (first_alloc sz (nh - 1)) bufs"
  shows "\<exists>w. raid_split 4 nh block sz dat bufs = Inr w \<and>
    (checkParity45 w (nh - 1) (w ! (nh - 1)) sz \<longleftrightarrow> (\<forall>i<first_alloc sz (nh - 1). unat (w ! (nh - 1) ! i) < 128))"
proof -
  let ?n = "nh - 1"
  obtain w where w: "raid_split 4 nh block sz dat bufs = Inr w"
      "\<forall>j<?n. holds_stripe sz ?n dat w j j"
      "\<forall>i<first_alloc sz ?n. w ! ?n ! i = parity_byte sz ?n dat i"
    using split_parity [OF assms(1-3), of 4 ?n id block] by auto
  have n: "0 < ?n" using assms(1) by simp
  have col: "xor_col w (stripes_at sz ?n i) i = w ! ?n ! i" if i: "i < first_alloc sz ?n" for i
    using w(2,3) i stripe_reaches [OF n i] assms(2)
    by (auto simp: xor_col_sum parity_byte_def intro!: xor_sum_cong holds_stripe_nth)
  have full: "xor_col w [0..<?n] i = w ! ?n ! i" if "i < sz div ?n" for i
    using col [of i] that by (simp add: stripes_at_def first_alloc_def)
  have part: "xor_col w [0..<sz mod ?n] (sz div ?n) = w ! ?n ! (sz div ?n)" if "0 < sz mod ?n"
    using col [of "sz div ?n"] that by (simp add: stripes_at_def first_alloc_def)
  have "checkParity45 w ?n (w ! ?n) sz \<longleftrightarrow> (\<forall>i<first_alloc sz ?n. unat (w ! ?n ! i) < 128)"
    using full part by (auto simp: checkParity45_def Let_def first_alloc_def same_as_char_iff less_Suc_eq)
  then show ?thesis using w(1) by blast
qed

theorem checkParity45_signed_witness:
  "\<not> checkParity45 [[200], [1], [201]] 2 [201] 2"
proof -
  have "raid_split 4 3 0 2 [200, 1] (replicate 3 [0]) = Inr [[200], [1], [201]]"
    by code_simp
  moreover have "bufs_ok 3 (first_alloc 2 (3 - 1)) (replicate 3 [0 :: u8])"
    by (simp add: bufs_ok_def first_alloc_def)
  ultimately show ?thesis
    using checkParity45_signed [of 3 "[200, 1]" 2 "replicate 3 [0]" 0] by (auto simp: first_alloc_def)
qed

end
