(* ===== verification/BB_Pointers.thy ===== *)
theory BB_Pointers
  imports BB_Prelude
begin

text \<open>
  Linked structures of C: one store per struct type, from addresses to nodes, with the three
  things the code does to it (\<^verbatim>\<open>malloc\<close>, \<^verbatim>\<open>free\<close> and accesses through a pointer), and the
  abstraction of singly and doubly linked chains to lists of addresses. The locale \<open>dnode\<close> holds
  for every struct with a next and a previous pointer; its lemmas say what relinking a node does
  to the list it is in.
\<close>

section \<open>Stores\<close>

type_synonym ptr = nat
type_synonym 'a store = "ptr \<Rightarrow> 'a option"

definition deref :: "'a store \<Rightarrow> ptr \<Rightarrow> 'a res" where
  "deref st p = (if p = 0 then Inl Segv else guardE Segv (st p))"

definition assign :: "'a store \<Rightarrow> ptr \<Rightarrow> ('a \<Rightarrow> 'a) \<Rightarrow> 'a store res" where
  "assign st p f = bindE (deref st p) (\<lambda>n. Inr (st(p \<mapsto> f n)))"

text \<open>
  The allocator picks an address. Where it has none left it answers \<^verbatim>\<open>NULL\<close>, which the code
  never checks: the first access through the result faults.
\<close>

definition malloc :: "('a store \<Rightarrow> ptr) \<Rightarrow> 'a \<Rightarrow> 'a store \<Rightarrow> (ptr \<times> 'a store) res" where
  "malloc pick n st =
     (let p = pick st in if p = 0 \<or> st p \<noteq> None then Inl Segv else Inr (p, st(p \<mapsto> n)))"

definition mfree :: "'a store \<Rightarrow> ptr \<Rightarrow> 'a store res" where
  "mfree st p = (if p = 0 then Inr st else if st p = None then Inl Abort else Inr (st(p := None)))"

definition good_pick :: "('a store \<Rightarrow> ptr) \<Rightarrow> bool" where
  "good_pick pick \<longleftrightarrow> (\<forall>st. finite (dom st) \<longrightarrow> pick st \<noteq> 0 \<and> st (pick st) = None)"

text \<open>The allocator of the examples: the first free address.\<close>

definition first_fit :: "'a store \<Rightarrow> ptr" where
  "first_fit st = (LEAST p. 0 < p \<and> st p = None)"

lemma good_first_fit: "good_pick first_fit"
  unfolding good_pick_def
proof (intro allI impI)
  fix st :: "'a store" assume fin: "finite (dom st)"
  then obtain p where "p \<notin> insert 0 (dom st)"
    using ex_new_if_finite [OF infinite_UNIV_nat, of "insert 0 (dom st)"] by auto
  then have "\<exists>p. 0 < p \<and> st p = None" by auto
  then have "0 < first_fit st \<and> st (first_fit st) = None" unfolding first_fit_def by (rule LeastI_ex)
  then show "first_fit st \<noteq> 0 \<and> st (first_fit st) = None" by simp
qed

lemma first_fit_eq:
  assumes "0 < p" "st p = None" "\<And>q. 0 < q \<Longrightarrow> q < p \<Longrightarrow> st q \<noteq> None"
  shows "first_fit st = p"
  unfolding first_fit_def
proof (rule Least_equality)
  fix q assume "0 < q \<and> st q = None"
  then show "p \<le> q" using assms(3) [of q] by (cases "q < p") auto
qed (use assms in simp)

lemma deref_Some [simp]: "p \<noteq> 0 \<Longrightarrow> st p = Some n \<Longrightarrow> deref st p = Inr n"
  by (simp add: deref_def)

lemma deref_eq_Inr: "deref st p = Inr n \<longleftrightarrow> p \<noteq> 0 \<and> st p = Some n"
  by (simp add: deref_def)

lemma assign_Some [simp]: "p \<noteq> 0 \<Longrightarrow> st p = Some n \<Longrightarrow> assign st p f = Inr (st(p \<mapsto> f n))"
  by (simp add: assign_def)

lemma malloc_ok:
  assumes "good_pick pick" "finite (dom st)"
  obtains p where "pick st = p" "p \<noteq> 0" "st p = None" "malloc pick n st = Inr (p, st(p \<mapsto> n))"
  using assms by (auto simp: good_pick_def malloc_def Let_def)

lemma mfree_Some [simp]: "p \<noteq> 0 \<Longrightarrow> st p = Some n \<Longrightarrow> mfree st p = Inr (st(p := None))"
  by (simp add: mfree_def)

lemma same_dom:
  assumes "\<And>r. map_option f (st' r) = map_option f (st r)"
  shows "dom st' = dom st"
proof (rule set_eqI)
  fix r show "r \<in> dom st' \<longleftrightarrow> r \<in> dom st" using assms [of r] by (cases "st' r"; cases "st r") auto
qed

section \<open>Singly linked chains\<close>

fun chain :: "('a \<Rightarrow> ptr) \<Rightarrow> 'a store \<Rightarrow> ptr \<Rightarrow> ptr list \<Rightarrow> bool" where
  "chain nx st p [] \<longleftrightarrow> p = 0"
| "chain nx st p (q # qs) \<longleftrightarrow> p = q \<and> q \<noteq> 0 \<and> (\<exists>n. st q = Some n \<and> chain nx st (nx n) qs)"

lemma chain_null [simp]: "chain nx st 0 qs \<longleftrightarrow> qs = []"
  by (cases qs) auto

lemma chain_unique: "chain nx st p xs \<Longrightarrow> chain nx st p ys \<Longrightarrow> xs = ys"
proof (induction xs arbitrary: p ys)
  case (Cons x xs)
  then show ?case by (cases ys) auto
qed auto

lemma chain_append:
  "chain nx st p (xs @ y # ys) \<Longrightarrow> chain nx st y (y # ys)"
  by (induction xs arbitrary: p) auto

lemma chain_distinct: "chain nx st p xs \<Longrightarrow> distinct xs"
proof (induction xs arbitrary: p)
  case (Cons x xs)
  then obtain n where n: "st x = Some n" "chain nx st (nx n) xs" by auto
  have "x \<notin> set xs"
  proof
    assume "x \<in> set xs"
    then obtain us vs where us: "xs = us @ x # vs" by (auto simp: in_set_conv_decomp)
    then have "chain nx st x (x # vs)" using chain_append [of nx st "nx n" us x vs] n(2) by blast
    moreover have "chain nx st x (x # xs)" using Cons.prems by auto
    ultimately have "x # vs = x # xs" by (rule chain_unique)
    then show False using us by auto
  qed
  then show ?case using Cons.IH n(2) by simp
qed simp

lemma chain_upd_other: "q \<notin> set xs \<Longrightarrow> chain nx (st(q := v)) p xs \<longleftrightarrow> chain nx st p xs"
  by (induction xs arbitrary: p) auto

lemma chain_dom: "chain nx st p xs \<Longrightarrow> set xs \<subseteq> dom st"
  by (induction xs arbitrary: p) auto

lemma chain_nonnull: "chain nx st p xs \<Longrightarrow> 0 \<notin> set xs"
  by (induction xs arbitrary: p) auto

lemma chain_remove:
  assumes "chain nx st p (xs @ a # q # ys)" "st a = Some n" "st q = Some m" "nx n' = nx m"
  shows "chain nx (st(a \<mapsto> n', q := None)) p (xs @ a # ys)" (is "chain nx ?st p _")
  using assms(1)
proof (induction xs arbitrary: p)
  case Nil
  have d: "distinct (a # q # ys)" using chain_distinct [of nx st p "[] @ a # q # ys"] Nil by simp
  then have "chain nx ?st (nx n') ys" using Nil assms by (simp add: chain_upd_other)
  moreover have "?st a = Some n'" using d by simp
  ultimately show ?case using Nil by (simp del: fun_upd_apply)
next
  case (Cons x xs)
  have "distinct (x # xs @ a # q # ys)" using chain_distinct [of nx st p "(x # xs) @ a # q # ys"] Cons.prems by simp
  then have "?st x = st x" by auto
  moreover obtain k where "st x = Some k" "chain nx st (nx k) (xs @ a # q # ys)" "p = x" "x \<noteq> 0"
    using Cons.prems by auto
  ultimately show ?case using Cons.IH [of "nx k"] by (simp del: fun_upd_apply)
qed

lemma chain_snoc:
  assumes "chain nx st p (xs @ [t])" "st t = Some n" "nx n' = y" "nx new = 0" "y \<noteq> 0" "y \<notin> set (xs @ [t])"
  shows "chain nx (st(y \<mapsto> new, t \<mapsto> n')) p (xs @ [t, y])"
  using assms(1,6)
proof (induction xs arbitrary: p)
  case Nil
  then show ?case using assms by auto
next
  case (Cons x xs)
  have "x \<noteq> t" using chain_distinct [OF Cons.prems(1)] by auto
  then show ?case using Cons by auto
qed

lemma chain_head_removed:
  assumes "chain nx st p (x # xs)" "st x = Some n"
  shows "chain nx (st(x := None)) (nx n) xs"
  using assms chain_distinct [OF assms(1)] by (auto simp: chain_upd_other)

section \<open>Doubly linked segments\<close>

definition headp :: "ptr list \<Rightarrow> ptr \<Rightarrow> ptr" where
  "headp xs e = (case xs of [] \<Rightarrow> e | x # _ \<Rightarrow> x)"

definition lastp :: "ptr \<Rightarrow> ptr list \<Rightarrow> ptr" where
  "lastp b xs = (if xs = [] then b else last xs)"

lemma headp_simps [simp]: "headp [] e = e" "headp (x # xs) e = x"
  by (simp_all add: headp_def)

lemma headp_append [simp]: "headp (xs @ ys) e = headp xs (headp ys e)"
  by (cases xs) simp_all

lemma lastp_simps [simp]: "lastp b [] = b" "lastp b (x # xs) = lastp x xs" "lastp b (xs @ [y]) = y"
  by (simp_all add: lastp_def)

lemma lastp_append [simp]: "lastp b (xs @ ys) = lastp (lastp b xs) ys"
  by (induction xs arbitrary: b) simp_all

text \<open>
  The nodes \<open>xs\<close> from \<open>p\<close> on: the first points back to \<open>b\<close>, the last forward to \<open>e\<close>.
\<close>

fun dseg :: "('a \<Rightarrow> ptr) \<Rightarrow> ('a \<Rightarrow> ptr) \<Rightarrow> 'a store \<Rightarrow> ptr \<Rightarrow> ptr list \<Rightarrow> ptr \<Rightarrow> bool" where
  "dseg nx pv st b [] e \<longleftrightarrow> True"
| "dseg nx pv st b (x # xs) e \<longleftrightarrow>
     x \<noteq> 0 \<and> (\<exists>n. st x = Some n \<and> pv n = b \<and> nx n = headp xs e) \<and> dseg nx pv st x xs e"

lemma dseg_append:
  "dseg nx pv st b (xs @ ys) e \<longleftrightarrow> dseg nx pv st b xs (headp ys e) \<and> dseg nx pv st (lastp b xs) ys e"
  by (induction xs arbitrary: b) auto

lemma dseg_upd_other: "q \<notin> set xs \<Longrightarrow> dseg nx pv (st(q := v)) b xs e \<longleftrightarrow> dseg nx pv st b xs e"
  by (induction xs arbitrary: b) auto

lemma dseg_nonnull: "dseg nx pv st b xs e \<Longrightarrow> 0 \<notin> set xs"
  by (induction xs arbitrary: b) auto

lemma dseg_dom: "dseg nx pv st b xs e \<Longrightarrow> set xs \<subseteq> dom st"
  by (induction xs arbitrary: b) auto

lemma dseg_cong:
  "(\<And>x. x \<in> set xs \<Longrightarrow> st x = st' x) \<Longrightarrow> dseg nx pv st b xs e \<longleftrightarrow> dseg nx pv st' b xs e"
  by (induction xs arbitrary: b) auto

lemma dseg_frame:
  "dseg nx pv st b xs e \<Longrightarrow> (\<And>r. r \<notin> A \<Longrightarrow> st' r = st r) \<Longrightarrow> set xs \<inter> A = {} \<Longrightarrow> dseg nx pv st' b xs e"
  by (induction xs arbitrary: b) auto

lemma dseg_node:
  assumes "dseg nx pv st b (xs @ x # ys) e"
  shows "x \<noteq> 0" "\<exists>n. st x = Some n \<and> pv n = lastp b xs \<and> nx n = headp ys e"
  using assms by (auto simp: dseg_append)

lemma dseg_upd_content:
  "st q = Some n \<Longrightarrow> nx n' = nx n \<Longrightarrow> pv n' = pv n \<Longrightarrow> dseg nx pv (st(q \<mapsto> n')) b xs e \<longleftrightarrow> dseg nx pv st b xs e"
  by (induction xs arbitrary: b) auto

lemma headp_zero: "dseg nx pv st b xs e \<Longrightarrow> e = 0 \<Longrightarrow> headp xs e = 0 \<longleftrightarrow> xs = []"
  by (cases xs) auto

lemma lastp_zero: "dseg nx pv st b xs e \<Longrightarrow> b = 0 \<Longrightarrow> lastp b xs = 0 \<longleftrightarrow> xs = []"
  by (metis dseg_nonnull lastp_def last_in_set)

text \<open>Changing the forward pointer of the last node, or the backward pointer of the first.\<close>

lemma dseg_set_next:
  assumes "dseg nx pv st b (xs @ [x]) e" "distinct (xs @ [x])" "st x = Some n" "pv n' = pv n" "nx n' = e'"
  shows "dseg nx pv (st(x \<mapsto> n')) b (xs @ [x]) e'"
  using assms by (auto simp: dseg_append dseg_upd_other)

lemma dseg_set_prev:
  assumes "dseg nx pv st b (x # xs) e" "distinct (x # xs)" "st x = Some n" "pv n' = b'" "nx n' = nx n"
  shows "dseg nx pv (st(x \<mapsto> n')) b' (x # xs) e"
  using assms by (auto simp: dseg_upd_other)

text \<open>
  The two conditional assignments that take a node out of a list, and the same with nothing known
  of the node's neighbours.
\<close>

definition unlink ::
  "('a \<Rightarrow> ptr) \<Rightarrow> ('a \<Rightarrow> ptr) \<Rightarrow> (ptr \<Rightarrow> 'a \<Rightarrow> 'a) \<Rightarrow> (ptr \<Rightarrow> 'a \<Rightarrow> 'a) \<Rightarrow> 'a store \<Rightarrow> ptr \<Rightarrow> 'a store res" where
  "unlink nx pv set_nx set_pv st x =
     bindE (deref st x) (\<lambda>n.
     bindE (if pv n \<noteq> 0 then assign st (pv n) (set_nx (nx n)) else Inr st) (\<lambda>st1.
     bindE (deref st1 x) (\<lambda>n1.
       if nx n1 \<noteq> 0 then assign st1 (nx n1) (set_pv (pv n1)) else Inr st1)))"

locale dnode =
  fixes nx pv :: "'a \<Rightarrow> ptr" and set_nx set_pv :: "ptr \<Rightarrow> 'a \<Rightarrow> 'a" and content :: "'a \<Rightarrow> 'c"
  assumes nx_set_nx: "nx (set_nx y n) = y" and pv_set_nx: "pv (set_nx y n) = pv n"
    and nx_set_pv: "nx (set_pv y n) = nx n" and pv_set_pv: "pv (set_pv y n) = y"
    and content_set_nx: "content (set_nx y n) = content n"
    and content_set_pv: "content (set_pv y n) = content n"
begin

lemmas set_simps [simp] = nx_set_nx pv_set_nx nx_set_pv pv_set_pv content_set_nx content_set_pv

lemma fix_next:
  assumes seg: "dseg nx pv st b xs e" "distinct xs" "b \<noteq> 0 \<longrightarrow> b \<in> dom st \<and> b \<notin> set xs"
  obtains st' where "(if lastp b xs \<noteq> 0 then assign st (lastp b xs) (set_nx e') else Inr st) = Inr st'"
    and "dseg nx pv st' b xs e'" "\<And>r. r \<notin> insert b (set xs) \<Longrightarrow> st' r = st r"
    and "b = 0 \<Longrightarrow> st' 0 = st 0"
    and "\<And>r. map_option content (st' r) = map_option content (st r)"
proof (cases xs rule: rev_cases)
  case Nil
  show ?thesis
  proof (cases "b = 0")
    case True
    then show ?thesis using that [of st] Nil by simp
  next
    case False
    then obtain n where "st b = Some n" using seg(3) by auto
    then show ?thesis using that [of "st(b \<mapsto> set_nx e' n)"] Nil False by auto
  qed
next
  case (snoc ys y)
  obtain n where n: "y \<noteq> 0" "st y = Some n" using seg(1) snoc by (auto simp: dseg_append)
  then have "dseg nx pv (st(y \<mapsto> set_nx e' n)) b xs e'"
    using dseg_set_next [of nx pv st b ys y e n "set_nx e' n" e'] seg snoc by simp
  then show ?thesis using that [of "st(y \<mapsto> set_nx e' n)"] n snoc by auto
qed

lemma fix_prev:
  assumes seg: "dseg nx pv st b xs 0" "distinct xs"
  obtains st' where "(if headp xs 0 \<noteq> 0 then assign st (headp xs 0) (set_pv b') else Inr st) = Inr st'"
    and "dseg nx pv st' b' xs 0" "\<And>r. r \<notin> set xs \<Longrightarrow> st' r = st r"
    and "\<And>r. map_option content (st' r) = map_option content (st r)"
proof (cases xs)
  case Nil
  then show ?thesis using that [of st] by simp
next
  case (Cons y ys)
  obtain n where n: "y \<noteq> 0" "st y = Some n" using seg(1) Cons by auto
  then have "dseg nx pv (st(y \<mapsto> set_pv b' n)) b' xs 0"
    using dseg_set_prev [of nx pv st b y ys 0 n "set_pv b' n" b'] seg Cons by simp
  then show ?thesis using that [of "st(y \<mapsto> set_pv b' n)"] n Cons by simp
qed

text \<open>Unlinking takes the node out of its list and leaves the node itself alone.\<close>

lemma unlink_ok:
  assumes seg: "dseg nx pv st b (xs @ x # ys) 0" and dist: "distinct (xs @ x # ys)"
    and b: "b \<noteq> 0 \<longrightarrow> b \<in> dom st \<and> b \<notin> set (xs @ x # ys)"
  obtains st' where "unlink nx pv set_nx set_pv st x = Inr st'"
    and "dseg nx pv st' b (xs @ ys) 0" "\<And>r. r \<notin> set xs \<union> set ys \<Longrightarrow> b = 0 \<or> r \<noteq> b \<Longrightarrow> st' r = st r"
    and "\<And>r. map_option content (st' r) = map_option content (st r)"
proof -
  obtain n where n: "x \<noteq> 0" "st x = Some n" "pv n = lastp b xs" "nx n = headp ys 0"
    using dseg_node [OF seg] by auto
  have parts: "dseg nx pv st b xs x" "dseg nx pv st x ys 0" using seg by (simp_all add: dseg_append)
  have bx: "b \<noteq> 0 \<longrightarrow> b \<in> dom st \<and> b \<notin> set xs" using b by auto
  obtain st1 where st1: "(if lastp b xs \<noteq> 0 then assign st (lastp b xs) (set_nx (headp ys 0)) else Inr st) = Inr st1"
      "dseg nx pv st1 b xs (headp ys 0)" "\<And>r. r \<notin> insert b (set xs) \<Longrightarrow> st1 r = st r" "b = 0 \<Longrightarrow> st1 0 = st 0"
      "\<And>r. map_option content (st1 r) = map_option content (st r)"
    using fix_next [OF parts(1) _ bx] dist by auto
  have notin: "0 \<notin> set (xs @ x # ys)" by (rule dseg_nonnull [OF seg])
  have "dseg nx pv st1 x ys 0"
    using dseg_frame [OF parts(2), of "insert b (set xs)" st1] st1(3) dist b notin by auto
  then obtain st2 where st2: "(if headp ys 0 \<noteq> 0 then assign st1 (headp ys 0) (set_pv (lastp b xs)) else Inr st1) = Inr st2"
      "dseg nx pv st2 (lastp b xs) ys 0" "\<And>r. r \<notin> set ys \<Longrightarrow> st2 r = st1 r"
      "\<And>r. map_option content (st2 r) = map_option content (st1 r)"
    using fix_prev [of st1 x ys] dist by auto
  have st1x: "st1 x = Some n" using st1(3) [of x] n(1,2) dist b by auto
  have derefs: "deref st x = Inr n" "deref st1 x = Inr n" using n(1,2) st1x by simp_all
  have "unlink nx pv set_nx set_pv st x = Inr st2"
    by (simp only: unlink_def derefs bindE_simps n(3,4) st1(1) st2(1))
  moreover have "dseg nx pv st2 b xs (headp ys 0)"
    using dseg_frame [OF st1(2), of "set ys" st2] st2(3) dist by auto
  moreover have "st2 r = st r" if "r \<notin> set xs \<union> set ys" "b = 0 \<or> r \<noteq> b" for r
    using that st1(3) [of r] st1(4) st2(3) [of r] by (cases "r = b") auto
  ultimately show ?thesis using that [of st2] st1(5) st2(2,4) by (simp add: dseg_append)
qed

text \<open>Putting a new node \<open>p\<close> behind \<open>x\<close>.\<close>

lemma insert_after:
  assumes seg: "dseg nx pv st b (xs @ x # ys) 0" and dist: "distinct (xs @ x # ys)"
    and p: "p \<noteq> 0" "st p = None" and n: "nx n = headp ys 0" "pv n = x"
  obtains st2 st3 where "(if headp ys 0 \<noteq> 0 then assign (st(p \<mapsto> n)) (headp ys 0) (set_pv p) else Inr (st(p \<mapsto> n))) = Inr st2"
    and "assign st2 x (set_nx p) = Inr st3" "dseg nx pv st3 b (xs @ x # p # ys) 0"
    and "\<And>r. r \<noteq> p \<Longrightarrow> map_option content (st3 r) = map_option content (st r)" "st3 p = Some n"
proof -
  let ?st1 = "st(p \<mapsto> n)"
  have pn: "p \<notin> set (xs @ x # ys)" using dseg_dom [OF seg] p(2) by blast
  have parts: "dseg nx pv ?st1 b (xs @ [x]) (headp ys 0)" "dseg nx pv ?st1 x ys 0"
    using seg pn dseg_append [of nx pv ?st1 b "xs @ [x]" ys 0] by (simp_all add: dseg_upd_other dseg_append)
  obtain st2 where st2: "(if headp ys 0 \<noteq> 0 then assign ?st1 (headp ys 0) (set_pv p) else Inr ?st1) = Inr st2"
      "dseg nx pv st2 p ys 0" "\<And>r. r \<notin> set ys \<Longrightarrow> st2 r = ?st1 r"
      "\<And>r. map_option content (st2 r) = map_option content (?st1 r)"
    using fix_prev [OF parts(2)] dist by auto
  have seg2: "dseg nx pv st2 b (xs @ [x]) (headp ys 0)"
    using dseg_frame [OF parts(1), of "set ys" st2] st2(3) dist by auto
  then obtain m where m: "x \<noteq> 0" "st2 x = Some m" by (auto simp: dseg_append)
  let ?st3 = "st2(x \<mapsto> set_nx p m)"
  have seg3: "dseg nx pv ?st3 b (xs @ [x]) p"
    using dseg_set_next [OF seg2 _ m(2), of "set_nx p m" p] dist by simp
  have px: "p \<noteq> x" "x \<notin> set ys" "p \<notin> set ys" using pn dist by auto
  have st3p: "?st3 p = Some n" using px st2(3) by simp
  have "dseg nx pv ?st3 x (p # ys) 0"
    using st3p p(1) n px st2(2) by (simp add: dseg_upd_other)
  then have "dseg nx pv ?st3 b (xs @ x # p # ys) 0"
    using seg3 dseg_append [of nx pv ?st3 b "xs @ [x]" "p # ys" 0] by simp
  moreover have "map_option content (?st3 r) = map_option content (st r)" if "r \<noteq> p" for r
    using st2(4) [of r] m(2) that by (cases "r = x") auto
  ultimately show ?thesis using that [OF st2(1), of ?st3] m st3p by simp
qed

end

end
