(* ===== verification/BB_Hash.thy ===== *)
theory BB_Hash
  imports BB_Pointers
begin

text \<open>
  The hash table of \<^verbatim>\<open>ip6/lib/vmem/page_table.c\<close> that finds the list node of a resident page:
  an array of bucket chains, indexed by the page number modulo the number of frames. The chains
  are modelled as they are, with their nodes in a store; the lemmas show that they implement a map
  from pages to node addresses.
\<close>

section \<open>The code\<close>

record hashNode =
  hkey :: nat
  hnext :: ptr
  listNodePointer :: ptr

record hash =
  bhead :: ptr
  bcount :: int

record hashTable =
  buckets :: "hash list"
  hnodes :: "hashNode store"

definition hashFunction :: "nat \<Rightarrow> nat \<Rightarrow> nat res" where
  "hashFunction nframes key = (if nframes = 0 then Inl Fpe else Inr (key mod nframes))"

definition bucket :: "hashTable \<Rightarrow> nat \<Rightarrow> hash res" where
  "bucket h i = (if i < length (buckets h) then Inr (buckets h ! i) else Inl Segv)"

definition createHashNode ::
  "(hashNode store \<Rightarrow> ptr) \<Rightarrow> nat \<Rightarrow> hashNode store \<Rightarrow> (ptr \<times> hashNode store) res" where
  "createHashNode pick key st = malloc pick \<lparr>hkey = key, hnext = 0, listNodePointer = 0\<rparr> st"

definition insertHashNode ::
  "(hashNode store \<Rightarrow> ptr) \<Rightarrow> nat \<Rightarrow> nat \<Rightarrow> ptr \<Rightarrow> hashTable \<Rightarrow> hashTable res" where
  "insertHashNode pick nframes key lnp h =
     bindE (hashFunction nframes key) (\<lambda>i.
     bindE (createHashNode pick key (hnodes h)) (\<lambda>(new, st1).
     bindE (assign st1 new (listNodePointer_update (\<lambda>_. lnp))) (\<lambda>st2.
     bindE (bucket h i) (\<lambda>b.
       if bhead b = 0
       then Inr (h\<lparr>buckets := (buckets h)[i := \<lparr>bhead = new, bcount = 1\<rparr>], hnodes := st2\<rparr>)
       else
         bindE (assign st2 new (hnext_update (\<lambda>_. bhead b))) (\<lambda>st3.
           Inr (h\<lparr>buckets := (buckets h)[i := \<lparr>bhead = new, bcount = bcount b + 1\<rparr>], hnodes := st3\<rparr>))))))"

text \<open>The loop along a chain: where it stops, with the node before.\<close>

partial_function (option) hash_walk :: "hashNode store \<Rightarrow> nat \<Rightarrow> ptr \<Rightarrow> ptr \<Rightarrow> (ptr \<times> ptr) res option" where
  "hash_walk st key temp my =
     (if my = 0 then Some (Inr (temp, my))
      else case st my of
        None \<Rightarrow> Some (Inl Segv)
      | Some n \<Rightarrow> if hkey n = key then Some (Inr (temp, my)) else hash_walk st key my (hnext n))"

definition find_node :: "hashNode store \<Rightarrow> nat \<Rightarrow> ptr \<Rightarrow> (ptr \<times> ptr) res" where
  "find_node st key p = (case hash_walk st key p p of None \<Rightarrow> Inl Blocked | Some r \<Rightarrow> r)"

definition deleteHashNode :: "nat \<Rightarrow> nat \<Rightarrow> hashTable \<Rightarrow> hashTable res" where
  "deleteHashNode nframes key h =
     bindE (hashFunction nframes key) (\<lambda>i.
     bindE (bucket h i) (\<lambda>b.
       if bhead b = 0 then Inr h
       else
         bindE (find_node (hnodes h) key (bhead b)) (\<lambda>(temp, my).
           if my = 0 then Inr h
           else
             bindE (deref (hnodes h) my) (\<lambda>n.
             bindE (if my = bhead b then Inr (hnodes h) else assign (hnodes h) temp (hnext_update (\<lambda>_. hnext n))) (\<lambda>st1.
             bindE (mfree st1 my) (\<lambda>st2.
               Inr (h\<lparr>buckets := (buckets h)[i :=
                        \<lparr>bhead = (if my = bhead b then hnext n else bhead b), bcount = bcount b - 1\<rparr>],
                      hnodes := st2\<rparr>)))))))"

definition getHashNode :: "nat \<Rightarrow> nat \<Rightarrow> hashTable \<Rightarrow> ptr res" where
  "getHashNode nframes key h =
     bindE (hashFunction nframes key) (\<lambda>i.
     bindE (bucket h i) (\<lambda>b.
       if bhead b = 0 then Inr 0
       else
         bindE (find_node (hnodes h) key (bhead b)) (\<lambda>(_, my).
         bindE (deref (hnodes h) my) (\<lambda>n. Inr (listNodePointer n)))))"

text \<open>\<^verbatim>\<open>calloc(nframes, sizeof(struct hash))\<close>\<close>

definition new_hashTable :: "nat \<Rightarrow> hashTable" where
  "new_hashTable nframes = \<lparr>buckets = replicate nframes \<lparr>bhead = 0, bcount = 0\<rparr>, hnodes = (\<lambda>_. None)\<rparr>"

section \<open>The chains as lists\<close>

text \<open>Bucket \<open>i\<close> is a chain of the addresses \<open>B ! i\<close>; every node is in the bucket of its key.\<close>

definition hash_rep :: "nat \<Rightarrow> hashTable \<Rightarrow> ptr list list \<Rightarrow> bool" where
  "hash_rep nf h B \<longleftrightarrow>
     0 < nf \<and> length (buckets h) = nf \<and> length B = nf \<and> finite (dom (hnodes h)) \<and>
     (\<forall>i<nf. chain hnext (hnodes h) (bhead (buckets h ! i)) (B ! i) \<and>
             bcount (buckets h ! i) = int (length (B ! i))) \<and>
     (\<forall>i<nf. \<forall>p. p \<in> set (B ! i) \<longleftrightarrow> (\<exists>n. hnodes h p = Some n \<and> hkey n mod nf = i))"

text \<open>The map the table stands for.\<close>

definition holds_map :: "hashNode store \<Rightarrow> (nat \<Rightarrow> ptr option) \<Rightarrow> bool" where
  "holds_map st m \<longleftrightarrow>
     (\<forall>p n. st p = Some n \<longrightarrow> m (hkey n) = Some (listNodePointer n)) \<and>
     (\<forall>k. m k \<noteq> None \<longrightarrow> (\<exists>p n. st p = Some n \<and> hkey n = k)) \<and>
     (\<forall>p q n n'. st p = Some n \<longrightarrow> st q = Some n' \<longrightarrow> hkey n = hkey n' \<longrightarrow> p = q)"

definition hash_ok :: "nat \<Rightarrow> hashTable \<Rightarrow> (nat \<Rightarrow> ptr option) \<Rightarrow> bool" where
  "hash_ok nf h m \<longleftrightarrow> (\<exists>B. hash_rep nf h B) \<and> holds_map (hnodes h) m"

lemma new_hash_ok: "0 < nf \<Longrightarrow> hash_ok nf (new_hashTable nf) (\<lambda>_. None)"
  unfolding hash_ok_def hash_rep_def holds_map_def new_hashTable_def
  by (intro conjI exI [of _ "replicate nf []"]) auto

lemma hash_walk_miss:
  "chain hnext st p xs \<Longrightarrow> \<forall>x\<in>set xs. \<forall>n. st x = Some n \<longrightarrow> hkey n \<noteq> key \<Longrightarrow>
   hash_walk st key t p = Some (Inr (lastp t xs, 0))"
proof (induction xs arbitrary: p t)
  case Nil
  then show ?case by (simp add: hash_walk.simps)
next
  case (Cons x xs)
  then show ?case by (subst hash_walk.simps) auto
qed

lemma hash_walk_hit:
  "chain hnext st p (xs @ q # ys) \<Longrightarrow> \<forall>x\<in>set xs. \<forall>n. st x = Some n \<longrightarrow> hkey n \<noteq> key \<Longrightarrow>
   st q = Some m \<Longrightarrow> hkey m = key \<Longrightarrow> hash_walk st key t p = Some (Inr (lastp t xs, q))"
proof (induction xs arbitrary: p t)
  case Nil
  then show ?case by (subst hash_walk.simps) auto
next
  case (Cons x xs)
  then show ?case by (subst hash_walk.simps) auto
qed

section \<open>Every operation implements its map operation\<close>

lemma holds_mapD1: "holds_map st m \<Longrightarrow> st p = Some n \<Longrightarrow> m (hkey n) = Some (listNodePointer n)"
  by (simp add: holds_map_def)

lemma holds_mapD2:
  assumes "holds_map st m" "m k = Some v"
  shows "\<exists>p n. st p = Some n \<and> hkey n = k \<and> listNodePointer n = v"
proof -
  have all: "\<forall>k. m k \<noteq> None \<longrightarrow> (\<exists>p n. st p = Some n \<and> hkey n = k)"
    using assms(1) unfolding holds_map_def by (elim conjE)
  have "m k \<noteq> None" using assms(2) by simp
  from all [rule_format, OF this] obtain p n where "st p = Some n" "hkey n = k" by (elim exE conjE)
  then show ?thesis using holds_mapD1 [OF assms(1)] assms(2) by fastforce
qed

lemma holds_mapD3:
  assumes "holds_map st m" "st p = Some n" "st q = Some n'" "hkey n = hkey n'"
  shows "p = q"
proof -
  have "\<forall>p q n n'. st p = Some n \<longrightarrow> st q = Some n' \<longrightarrow> hkey n = hkey n' \<longrightarrow> p = q"
    using assms(1) unfolding holds_map_def by (elim conjE)
  then show ?thesis using assms(2-4) by blast
qed

lemma holds_mapI:
  assumes "\<And>p n. st p = Some n \<Longrightarrow> m (hkey n) = Some (listNodePointer n)"
    and "\<And>k. m k \<noteq> None \<Longrightarrow> \<exists>p n. st p = Some n \<and> hkey n = k"
    and "\<And>p q n n'. st p = Some n \<Longrightarrow> st q = Some n' \<Longrightarrow> hkey n = hkey n' \<Longrightarrow> p = q"
  shows "holds_map st m"
  using assms unfolding holds_map_def by presburger

lemma holds_map_fresh:
  assumes mp: "holds_map st m" and p: "st p = None" and new: "m (hkey n) = None"
  shows "holds_map (st(p \<mapsto> n)) (m(hkey n \<mapsto> listNodePointer n))"
proof -
  have old: "hkey n' \<noteq> hkey n" if "st q = Some n'" for q n'
    using holds_mapD1 [OF mp that] new by auto
  have ex: "\<exists>q n'. q \<noteq> p \<and> st q = Some n' \<and> hkey n' = k" if some: "m k \<noteq> None" for k
  proof -
    obtain v where "m k = Some v" using some by auto
    from holds_mapD2 [OF mp this] obtain q n' where q: "st q = Some n'" "hkey n' = k" by auto
    then have "q \<noteq> p" using p by auto
    then show ?thesis using q by blast
  qed
  show ?thesis
  proof (rule holds_mapI)
    fix k assume "(m(hkey n \<mapsto> listNodePointer n)) k \<noteq> None"
    then show "\<exists>q n'. (st(p \<mapsto> n)) q = Some n' \<and> hkey n' = k"
      using ex [of k] by (cases "k = hkey n") (auto split: if_splits)
  qed (auto dest: old old [THEN not_sym] holds_mapD1 [OF mp] holds_mapD3 [OF mp] split: if_splits)
qed

lemma holds_map_remove:
  assumes mp: "holds_map st m" and p: "st p = Some n"
  shows "holds_map (st(p := None)) (m(hkey n := None))"
proof -
  have other: "hkey n' \<noteq> hkey n" if "st q = Some n'" "q \<noteq> p" for q n'
    using holds_mapD3 [OF mp that(1) p] that(2) by auto
  have ex: "\<exists>q n'. q \<noteq> p \<and> st q = Some n' \<and> hkey n' = k" if some: "m k \<noteq> None" "k \<noteq> hkey n" for k
  proof -
    obtain v where "m k = Some v" using some by auto
    from holds_mapD2 [OF mp this] obtain q n' where q: "st q = Some n'" "hkey n' = k" by auto
    then have "q \<noteq> p" using p some by auto
    then show ?thesis using q by blast
  qed
  show ?thesis
  proof (rule holds_mapI)
    fix k assume "(m(hkey n := None)) k \<noteq> None"
    then show "\<exists>q n'. (st(p := None)) q = Some n' \<and> hkey n' = k"
      using ex [of k] by (auto split: if_splits)
  qed (auto dest: other holds_mapD1 [OF mp] holds_mapD3 [OF mp] split: if_splits)
qed

lemma holds_map_same:
  assumes mp: "holds_map st m" and p: "st p = Some n" "hkey n' = hkey n" "listNodePointer n' = listNodePointer n"
  shows "holds_map (st(p \<mapsto> n')) m"
proof -
  have ex: "\<exists>q. (q = p \<longrightarrow> hkey n' = k) \<and> (q \<noteq> p \<longrightarrow> (\<exists>n. st q = Some n \<and> hkey n = k))" if some: "m k \<noteq> None" for k
  proof -
    obtain v where "m k = Some v" using some by auto
    from holds_mapD2 [OF mp this] obtain q m' where "st q = Some m'" "hkey m' = k" by auto
    then show ?thesis using p by (intro exI [of _ q]) auto
  qed
  show ?thesis
  proof (rule holds_mapI)
    fix k assume "m k \<noteq> None"
    then show "\<exists>q m'. (st(p \<mapsto> n')) q = Some m' \<and> hkey m' = k"
      using ex [of k] by (auto split: if_splits)
  qed (use p in \<open>auto dest: holds_mapD1 [OF mp] holds_mapD3 [OF mp] split: if_splits\<close>)
qed

lemma hash_rep_bucket:
  assumes "hash_rep nf h B"
  shows "hashFunction nf k = Inr (k mod nf)" "bucket h (k mod nf) = Inr (buckets h ! (k mod nf))"
    "chain hnext (hnodes h) (bhead (buckets h ! (k mod nf))) (B ! (k mod nf))" "k mod nf < nf"
  using assms by (auto simp: hash_rep_def hashFunction_def bucket_def)

lemma hash_rep_insert:
  assumes rep: "hash_rep nf h B" and p: "p \<noteq> 0" "hnodes h p = None"
    and i: "i = k mod nf" and n: "n = \<lparr>hkey = k, hnext = bhead (buckets h ! i), listNodePointer = v\<rparr>"
  shows "hash_rep nf (h\<lparr>buckets := (buckets h)[i := \<lparr>bhead = p, bcount = bcount (buckets h ! i) + 1\<rparr>],
                        hnodes := (hnodes h)(p \<mapsto> n)\<rparr>) (B[i := p # B ! i])"
proof -
  have notin: "p \<notin> set (B ! j)" if "j < nf" for j
    using rep p(2) that by (auto simp: hash_rep_def)
  show ?thesis
    using rep p notin i n by (auto simp: hash_rep_def nth_list_update chain_upd_other)
qed

lemma insert_hash_ok:
  assumes ok: "hash_ok nf h m" and new: "m k = None" and pick: "good_pick pick"
  obtains h' where "insertHashNode pick nf k v h = Inr h'" "hash_ok nf h' (m(k \<mapsto> v))"
proof -
  obtain B where rep: "hash_rep nf h B" and mp: "holds_map (hnodes h) m"
    using ok by (auto simp: hash_ok_def)
  define i where "i = k mod nf"
  let ?b = "buckets h ! i"
  have fin: "finite (dom (hnodes h))" and i: "i < length (buckets h)"
    using rep i_def by (auto simp: hash_rep_def)
  obtain p where p: "p \<noteq> 0" "hnodes h p = None" "pick (hnodes h) = p"
    using malloc_ok [OF pick fin] by metis
  define n where "n = \<lparr>hkey = k, hnext = bhead ?b, listNodePointer = v\<rparr>"
  define h' where "h' = h\<lparr>buckets := (buckets h)[i := \<lparr>bhead = p, bcount = bcount ?b + 1\<rparr>],
      hnodes := (hnodes h)(p \<mapsto> n)\<rparr>"
  have count: "bhead ?b = 0 \<Longrightarrow> bcount ?b = 0"
    using rep i by (auto simp: hash_rep_def)
  have "insertHashNode pick nf k v h = Inr h'"
    using p i count hash_rep_bucket(1,2) [OF rep, of k]
    by (auto simp: insertHashNode_def createHashNode_def malloc_def h'_def n_def i_def [symmetric] hashTable.defs)
  moreover have "hash_ok nf h' (m(k \<mapsto> v))"
    using hash_rep_insert [OF rep p(1,2) i_def n_def] holds_map_fresh [OF mp p(2), of n] new
    by (auto simp: hash_ok_def h'_def n_def)
  ultimately show ?thesis using that by blast
qed

lemma chain_frame:
  "chain nx st p xs \<Longrightarrow> (\<And>r. r \<in> set xs \<Longrightarrow> st' r = st r) \<Longrightarrow> chain nx st' p xs"
  by (induction xs arbitrary: p) auto

lemma chain_start: "chain nx st p (xs @ q # ys) \<Longrightarrow> p \<noteq> 0 \<and> q \<noteq> 0"
  using chain_nonnull [of nx st p "xs @ q # ys"] by (cases xs) auto

lemma hash_rep_update:
  assumes rep: "hash_rep nf h B" and i: "i < nf" and ch: "chain hnext st' hd' L" and fin: "finite (dom st')"
    and others: "\<And>p. p \<notin> set (B ! i) \<Longrightarrow> st' p = hnodes h p"
    and mem: "\<And>p. p \<in> set L \<longleftrightarrow> (\<exists>n. st' p = Some n \<and> hkey n mod nf = i)"
    and stay: "\<And>p n. p \<in> set (B ! i) \<Longrightarrow> st' p = Some n \<Longrightarrow> hkey n mod nf = i"
  shows "hash_rep nf (h\<lparr>buckets := (buckets h)[i := \<lparr>bhead = hd', bcount = int (length L)\<rparr>], hnodes := st'\<rparr>) (B[i := L])"
proof -
  have B: "p \<in> set (B ! j) \<longleftrightarrow> (\<exists>n. hnodes h p = Some n \<and> hkey n mod nf = j)" if "j < nf" for p j
    using rep that by (auto simp: hash_rep_def)
  have apart: "p \<notin> set (B ! i)" if "p \<in> set (B ! j)" "j < nf" "j \<noteq> i" for p j
    using that B [of j] B [OF i] by auto
  have "chain hnext st' (bhead (buckets h ! j)) (B ! j)" if j: "j < nf" "j \<noteq> i" for j
  proof -
    have "chain hnext (hnodes h) (bhead (buckets h ! j)) (B ! j)" using rep j by (simp add: hash_rep_def)
    then show ?thesis using chain_frame others apart j by metis
  qed
  moreover have "p \<in> set (B ! j) \<longleftrightarrow> (\<exists>n. st' p = Some n \<and> hkey n mod nf = j)" if j: "j < nf" "j \<noteq> i" for p j
  proof (cases "p \<in> set (B ! i)")
    case True
    then show ?thesis using apart j stay by blast
  next
    case False
    then show ?thesis using others B j by simp
  qed
  ultimately show ?thesis
    using rep ch fin mem i by (auto simp: hash_rep_def nth_list_update)
qed

lemma hash_rep_mem:
  "hash_rep nf h B \<Longrightarrow> i < nf \<Longrightarrow> p \<in> set (B ! i) \<longleftrightarrow> (\<exists>n. hnodes h p = Some n \<and> hkey n mod nf = i)"
  by (simp add: hash_rep_def)

lemma hash_rep_remove:
  assumes rep: "hash_rep nf h B" and i: "i < nf" and B: "B ! i = xs @ q # ys" and dist: "distinct (xs @ q # ys)"
    and ch: "chain hnext st' hd' (xs @ ys)" and gone: "st' q = None"
    and keys: "\<And>p. p \<noteq> q \<Longrightarrow> map_option hkey (st' p) = map_option hkey (hnodes h p)"
    and others: "\<And>p. p \<notin> set (B ! i) \<Longrightarrow> st' p = hnodes h p"
  shows "hash_rep nf (h\<lparr>buckets := (buckets h)[i := \<lparr>bhead = hd', bcount = int (length (xs @ ys))\<rparr>], hnodes := st'\<rparr>) (B[i := xs @ ys])"
proof (rule hash_rep_update [OF rep i ch _ others])
  have key: "(\<exists>n. st' p = Some n \<and> hkey n mod nf = i) \<longleftrightarrow> (\<exists>n. hnodes h p = Some n \<and> hkey n mod nf = i)" if "p \<noteq> q" for p
    using keys [OF that] by (cases "st' p"; cases "hnodes h p") auto
  show "p \<in> set (xs @ ys) \<longleftrightarrow> (\<exists>n. st' p = Some n \<and> hkey n mod nf = i)" for p
  proof (cases "p = q")
    case False
    then have "p \<in> set (xs @ ys) \<longleftrightarrow> p \<in> set (B ! i)" using B by auto
    then show ?thesis using key [OF False] hash_rep_mem [OF rep i, of p] by simp
  qed (use dist gone in auto)
  show "hkey n mod nf = i" if p: "p \<in> set (B ! i)" "st' p = Some n" for p n
  proof -
    have "p \<noteq> q" using p(2) gone by auto
    then show ?thesis using keys [of p] p hash_rep_mem [OF rep i, of p] by (cases "hnodes h p") auto
  qed
  have "dom st' \<subseteq> dom (hnodes h)"
  proof
    fix p assume p: "p \<in> dom st'"
    then have "p \<noteq> q" using gone by auto
    then show "p \<in> dom (hnodes h)" using keys [of p] p by (cases "hnodes h p") auto
  qed
  then show "finite (dom st')" using rep finite_subset by (auto simp: hash_rep_def)
qed

lemma hash_find:
  assumes rep: "hash_rep nf h B" and mp: "holds_map (hnodes h) m" and k: "m k = Some v"
  obtains xs q ys n where "B ! (k mod nf) = xs @ q # ys" "hnodes h q = Some n" "hkey n = k" "listNodePointer n = v"
    "\<forall>x\<in>set xs. \<forall>n. hnodes h x = Some n \<longrightarrow> hkey n \<noteq> k"
proof -
  obtain q n where q: "hnodes h q = Some n" "hkey n = k" "listNodePointer n = v"
    using holds_mapD2 [OF mp k] by auto
  have "q \<in> set (B ! (k mod nf))" using rep q by (auto simp: hash_rep_def)
  then obtain xs ys where xs: "B ! (k mod nf) = xs @ q # ys" "q \<notin> set xs"
    by (meson split_list_first)
  moreover have "\<forall>x\<in>set xs. \<forall>n. hnodes h x = Some n \<longrightarrow> hkey n \<noteq> k"
    using q(2) xs(2) by (auto dest: holds_mapD3 [OF mp _ q(1)])
  ultimately show ?thesis using that q by blast
qed

lemma get_hash_ok:
  assumes ok: "hash_ok nf h m" and k: "m k = Some v"
  shows "getHashNode nf k h = Inr v"
proof -
  obtain B where rep: "hash_rep nf h B" and mp: "holds_map (hnodes h) m"
    using ok by (auto simp: hash_ok_def)
  obtain xs q ys n where q: "B ! (k mod nf) = xs @ q # ys" "hnodes h q = Some n" "hkey n = k" "listNodePointer n = v"
      "\<forall>x\<in>set xs. \<forall>n. hnodes h x = Some n \<longrightarrow> hkey n \<noteq> k"
    using hash_find [OF rep mp k] .
  let ?p = "bhead (buckets h ! (k mod nf))"
  have ch: "chain hnext (hnodes h) ?p (xs @ q # ys)" using hash_rep_bucket(3) [OF rep, of k] q(1) by simp
  have "hash_walk (hnodes h) k ?p ?p = Some (Inr (lastp ?p xs, q))"
    by (rule hash_walk_hit [OF ch q(5) q(2,3)])
  moreover have "?p \<noteq> 0" "q \<noteq> 0" using chain_start [OF ch] by auto
  ultimately show ?thesis
    using q hash_rep_bucket(1,2) [OF rep, of k] by (simp add: getHashNode_def find_node_def)
qed

lemma hash_chain_miss:
  assumes "hash_rep nf h B" "holds_map (hnodes h) m" "m k = None"
  shows "\<forall>x\<in>set xs. \<forall>n. hnodes h x = Some n \<longrightarrow> hkey n \<noteq> k"
  using holds_mapD1 [OF assms(2)] assms(3) by fastforce

lemma delete_hash_absent:
  assumes rep: "hash_rep nf h B" and mp: "holds_map (hnodes h) m" and k: "m k = None"
  shows "deleteHashNode nf k h = Inr h"
proof -
  let ?p = "bhead (buckets h ! (k mod nf))"
  have "hash_walk (hnodes h) k ?p ?p = Some (Inr (lastp ?p (B ! (k mod nf)), 0))"
    by (rule hash_walk_miss [OF hash_rep_bucket(3) [OF rep]]) (rule hash_chain_miss [OF rep mp k])
  then show ?thesis using hash_rep_bucket(1,2) [OF rep, of k] by (simp add: deleteHashNode_def find_node_def)
qed

lemma delete_hash_present:
  assumes rep: "hash_rep nf h B" and mp: "holds_map (hnodes h) m" and k: "m k = Some v"
  obtains h' where "deleteHashNode nf k h = Inr h'" "hash_ok nf h' (m(k := None))"
proof -
  let ?i = "k mod nf" and ?st = "hnodes h"
  let ?b = "buckets h ! ?i"
  obtain xs q ys n where q: "B ! ?i = xs @ q # ys" "?st q = Some n" "hkey n = k" "listNodePointer n = v"
      "\<forall>x\<in>set xs. \<forall>n. ?st x = Some n \<longrightarrow> hkey n \<noteq> k"
    using hash_find [OF rep mp k] .
  have ch: "chain hnext ?st (bhead ?b) (xs @ q # ys)" using hash_rep_bucket(3) [OF rep, of k] q(1) by simp
  have walk: "hash_walk ?st k (bhead ?b) (bhead ?b) = Some (Inr (lastp (bhead ?b) xs, q))"
    by (rule hash_walk_hit [OF ch q(5) q(2,3)])
  have q0: "q \<noteq> 0" "bhead ?b \<noteq> 0" using chain_start [OF ch] by auto
  have dist: "distinct (xs @ q # ys)" by (rule chain_distinct [OF ch])
  have i: "?i < nf" using rep by (auto simp: hash_rep_def)
  have cnt: "bcount ?b = int (length (xs @ q # ys))" using rep i q(1) by (simp add: hash_rep_def)
  show ?thesis
  proof (cases xs rule: rev_cases)
    case Nil
    let ?st' = "?st(q := None)"
    let ?h' = "h\<lparr>buckets := (buckets h)[?i := \<lparr>bhead = hnext n, bcount = int (length ys)\<rparr>], hnodes := ?st'\<rparr>"
    have "deleteHashNode nf k h = Inr ?h'"
      using hash_rep_bucket(1,2) [OF rep, of k] walk q q0 Nil cnt ch
      by (simp add: deleteHashNode_def find_node_def)
    moreover have "chain hnext ?st' (hnext n) ys"
      using ch Nil q(2) dist by (simp add: chain_upd_other)
    then have "hash_rep nf ?h' (B[?i := ys])"
      using hash_rep_remove [OF rep i q(1) dist, of ?st' "hnext n"] q(1) Nil by auto
    ultimately show ?thesis using that holds_map_remove [OF mp q(2)] q(3) by (auto simp: hash_ok_def)
  next
    case (snoc zs a)
    obtain na where na: "?st a = Some na" "a \<noteq> 0" "a \<noteq> q" "a \<noteq> bhead ?b \<or> zs = []"
      using chain_dom [OF ch] chain_nonnull [OF ch] dist snoc ch by (cases zs) auto
    let ?na = "na\<lparr>hnext := hnext n\<rparr>"
    let ?st' = "?st(a \<mapsto> ?na, q := None)"
    let ?h' = "h\<lparr>buckets := (buckets h)[?i := \<lparr>bhead = bhead ?b, bcount = int (length (xs @ ys))\<rparr>], hnodes := ?st'\<rparr>"
    have "q \<noteq> bhead ?b" using ch dist snoc by (cases zs) auto
    then have "deleteHashNode nf k h = Inr ?h'"
      using hash_rep_bucket(1,2) [OF rep, of k] walk q q0 snoc cnt na
      by (simp add: deleteHashNode_def find_node_def)
    moreover have "chain hnext ?st' (bhead ?b) (xs @ ys)"
      using chain_remove [of hnext ?st "bhead ?b" zs a q ys na n ?na] ch na q(2) snoc by simp
    then have "hash_rep nf ?h' (B[?i := xs @ ys])"
      using hash_rep_remove [OF rep i q(1) dist, of ?st' "bhead ?b"] q(1) na snoc by auto
    moreover have "holds_map ?st' (m(k := None))"
      using holds_map_remove [OF holds_map_same [OF mp na(1), of ?na], of q n] q na by simp
    ultimately show ?thesis using that by (auto simp: hash_ok_def)
  qed
qed

lemma delete_hash_ok:
  assumes ok: "hash_ok nf h m"
  obtains h' where "deleteHashNode nf k h = Inr h'" "hash_ok nf h' (m(k := None))"
proof -
  obtain B where rep: "hash_rep nf h B" and mp: "holds_map (hnodes h) m"
    using ok by (auto simp: hash_ok_def)
  show ?thesis
  proof (cases "m k")
    case None
    then have "m(k := None) = m" by auto
    then show ?thesis using that [of h] delete_hash_absent [OF rep mp None] ok by simp
  next
    case (Some v)
    then show ?thesis using delete_hash_present [OF rep mp] that by blast
  qed
qed

text \<open>Sequences of insertions and deletions, on the table and on the map it stands for.\<close>

datatype hop = Ins nat ptr | Del nat

fun run_hash :: "(hashNode store \<Rightarrow> ptr) \<Rightarrow> nat \<Rightarrow> hop list \<Rightarrow> hashTable \<Rightarrow> hashTable res" where
  "run_hash pick nf [] h = Inr h"
| "run_hash pick nf (Ins k v # ops) h = bindE (insertHashNode pick nf k v h) (run_hash pick nf ops)"
| "run_hash pick nf (Del k # ops) h = bindE (deleteHashNode nf k h) (run_hash pick nf ops)"

fun run_map :: "hop list \<Rightarrow> (nat \<Rightarrow> ptr option) \<Rightarrow> (nat \<Rightarrow> ptr option) option" where
  "run_map [] m = Some m"
| "run_map (Ins k v # ops) m = (if m k = None then run_map ops (m(k \<mapsto> v)) else None)"
| "run_map (Del k # ops) m = run_map ops (m(k := None))"

lemma run_hash_ok:
  assumes "good_pick pick"
  shows "hash_ok nf h m \<Longrightarrow> run_map ops m = Some m' \<Longrightarrow> \<exists>h'. run_hash pick nf ops h = Inr h' \<and> hash_ok nf h' m'"
proof (induction ops arbitrary: h m)
  case (Cons op ops)
  show ?case
  proof (cases op)
    case (Ins k v)
    then have new: "m k = None" and rest: "run_map ops (m(k \<mapsto> v)) = Some m'" using Cons.prems(2) by (auto split: if_splits)
    obtain h1 where "insertHashNode pick nf k v h = Inr h1" "hash_ok nf h1 (m(k \<mapsto> v))"
      using insert_hash_ok [OF Cons.prems(1) new assms] .
    then show ?thesis using Cons.IH rest Ins by simp
  next
    case (Del k)
    obtain h1 where "deleteHashNode nf k h = Inr h1" "hash_ok nf h1 (m(k := None))"
      using delete_hash_ok [OF Cons.prems(1)] .
    then show ?thesis using Cons.IH Cons.prems(2) Del by simp
  qed
qed simp



text \<open>
  A lookup of a page that is not in the table answers \<^verbatim>\<open>NULL\<close> only when its bucket is empty;
  when the bucket holds other pages, the loop ends on \<^verbatim>\<open>NULL\<close> and the final access through it faults.
\<close>

theorem get_absent_faults:
  assumes "hash_ok nf h m" "m k = None"
  shows "getHashNode nf k h = (if bhead (buckets h ! (k mod nf)) = 0 then Inr 0 else Inl Segv)"
proof -
  obtain B where rep: "hash_rep nf h B" and mp: "holds_map (hnodes h) m"
    using assms(1) by (auto simp: hash_ok_def)
  let ?p = "bhead (buckets h ! (k mod nf))"
  have "hash_walk (hnodes h) k ?p ?p = Some (Inr (lastp ?p (B ! (k mod nf)), 0))"
    by (rule hash_walk_miss [OF hash_rep_bucket(3) [OF rep]]) (rule hash_chain_miss [OF rep mp assms(2)])
  then show ?thesis
    using hash_rep_bucket(1,2) [OF rep, of k] by (simp add: getHashNode_def find_node_def deref_def)
qed

theorem get_absent_faults_witness:
  "\<exists>h. insertHashNode first_fit 2 3 7 (new_hashTable 2) = Inr h \<and> getHashNode 2 5 h = Inl Segv \<and> getHashNode 2 4 h = Inr 0"
proof -
  let ?m = "(\<lambda>_. None)(3 \<mapsto> 7)"
  obtain h where h: "insertHashNode first_fit 2 3 7 (new_hashTable 2) = Inr h" "hash_ok 2 h ?m"
    using insert_hash_ok [OF new_hash_ok _ good_first_fit, of 2 3 7] by auto
  have "bhead (buckets h ! 1) \<noteq> 0" "bhead (buckets h ! 0) = 0"
    using h(1) good_first_fit
    by (auto simp: insertHashNode_def hashFunction_def createHashNode_def malloc_def bucket_def new_hashTable_def Let_def
        assign_def deref_def split: if_splits)
  then show ?thesis using h(1) get_absent_faults [OF h(2)] by simp
qed

end
