(* ===== verification/BB_Dll.thy ===== *)
theory BB_Dll
  imports BB_Pointers
begin

text \<open>
  The doubly linked list of \<^verbatim>\<open>ip6/lib/vmem/page_table.c\<close> that orders the resident pages for the
  policies LRU and FFIFO, with its nodes in a store, and what each operation does to the list of
  keys.
\<close>

section \<open>The code\<close>

record dllListNode =
  dkey :: nat
  dnext :: ptr
  dprev :: ptr

record dllList =
  dhead :: ptr
  dtail :: ptr
  dcount :: nat
  dnodes :: "dllListNode store"

abbreviation set_dnext :: "ptr \<Rightarrow> dllListNode \<Rightarrow> dllListNode" where
  "set_dnext y \<equiv> dnext_update (\<lambda>_. y)"

abbreviation set_dprev :: "ptr \<Rightarrow> dllListNode \<Rightarrow> dllListNode" where
  "set_dprev y \<equiv> dprev_update (\<lambda>_. y)"

definition new_dllList :: dllList where
  "new_dllList = \<lparr>dhead = 0, dtail = 0, dcount = 0, dnodes = (\<lambda>_. None)\<rparr>"

definition createdllListNode ::
  "(dllListNode store \<Rightarrow> ptr) \<Rightarrow> nat \<Rightarrow> dllList \<Rightarrow> (ptr \<times> dllList) res" where
  "createdllListNode pick key d =
     bindE (malloc pick \<lparr>dkey = key, dnext = dhead d, dprev = 0\<rparr> (dnodes d)) (\<lambda>(new, st1).
     bindE (if 0 < dcount d then assign st1 (dhead d) (set_dprev new) else Inr st1) (\<lambda>st2.
       Inr (new, d\<lparr>dhead := new, dtail := (if 0 < dcount d then dtail d else new),
                   dcount := dcount d + 1, dnodes := st2\<rparr>)))"

definition moveListNodeToFront :: "ptr \<Rightarrow> dllList \<Rightarrow> dllList res" where
  "moveListNodeToFront node d =
     (if dhead d = node then Inr d
      else
        bindE (unlink dnext dprev set_dnext set_dprev (dnodes d) node) (\<lambda>st1.
        bindE (assign st1 node (set_dnext (dhead d))) (\<lambda>st2.
        bindE (deref st2 node) (\<lambda>n.
        bindE (assign st2 node (set_dprev 0)) (\<lambda>st3.
        bindE (if 1 < dcount d then assign st3 (dhead d) (set_dprev node) else Inr st3) (\<lambda>st4.
          Inr (d\<lparr>dhead := node,
                 dtail := (if 1 < dcount d then if dtail d = node then dprev n else dtail d else node),
                 dnodes := st4\<rparr>)))))))"

definition deletedllListNode :: "ptr \<Rightarrow> dllList \<Rightarrow> dllList res" where
  "deletedllListNode node d =
     bindE (deref (dnodes d) node) (\<lambda>n.
     bindE (unlink dnext dprev set_dnext set_dprev (dnodes d) node) (\<lambda>st1.
     bindE (mfree st1 node) (\<lambda>st2.
       Inr (d\<lparr>dhead := (if node = dhead d then dnext n else dhead d),
              dtail := (if node = dtail d then dprev n else dtail d),
              dcount := dcount d - 1, dnodes := st2\<rparr>))))"

section \<open>The list it stands for\<close>

definition dll_rep :: "dllList \<Rightarrow> ptr list \<Rightarrow> bool" where
  "dll_rep d ns \<longleftrightarrow>
     dseg dnext dprev (dnodes d) 0 ns 0 \<and> distinct ns \<and> dom (dnodes d) = set ns \<and>
     dhead d = headp ns 0 \<and> dtail d = lastp 0 ns \<and> dcount d = length ns"

text \<open>Node \<open>p\<close> holds key \<open>k\<close>.\<close>

definition node_key :: "dllList \<Rightarrow> ptr \<Rightarrow> nat" where
  "node_key d p = dkey (the (dnodes d p))"

interpretation dl: dnode dnext dprev "\<lambda>y. set_dnext y" "\<lambda>y. set_dprev y" dkey
  by unfold_locales simp_all

lemma new_dll_rep: "dll_rep new_dllList []"
  by (simp add: dll_rep_def new_dllList_def)

lemma dll_rep_node:
  "dll_rep d (xs @ x # ys) \<Longrightarrow>
   x \<noteq> 0 \<and> (\<exists>n. dnodes d x = Some n \<and> dprev n = lastp 0 xs \<and> dnext n = headp ys 0 \<and> dkey n = node_key d x)"
  unfolding dll_rep_def using dseg_node [of dnext dprev "dnodes d" 0 xs x ys 0] by (auto simp: node_key_def)

lemma create_dll_ok:
  assumes rep: "dll_rep d ns" and pick: "good_pick pick"
  obtains p d' where "createdllListNode pick k d = Inr (p, d')" "dll_rep d' (p # ns)" "p \<notin> set ns" "p \<noteq> 0"
    "node_key d' p = k" "\<And>q. q \<in> set ns \<Longrightarrow> node_key d' q = node_key d q"
proof -
  let ?st = "dnodes d" and ?n = "\<lparr>dkey = k, dnext = dhead d, dprev = 0\<rparr>"
  have fin: "finite (dom ?st)" using rep by (simp add: dll_rep_def)
  obtain p where p: "p \<noteq> 0" "?st p = None" "malloc pick ?n ?st = Inr (p, ?st(p \<mapsto> ?n))"
    using malloc_ok [OF pick fin] by metis
  have fresh: "p \<notin> set ns" using rep p(2) by (auto simp: dll_rep_def)
  let ?st1 = "?st(p \<mapsto> ?n)"
  have seg: "dseg dnext dprev ?st1 0 ns 0" "distinct ns" and hd: "dhead d = headp ns 0" and cnt: "dcount d = length ns"
    using rep fresh by (auto simp: dll_rep_def dseg_upd_other)
  obtain st2 where st2: "(if headp ns 0 \<noteq> 0 then assign ?st1 (headp ns 0) (set_dprev p) else Inr ?st1) = Inr st2"
      "dseg dnext dprev st2 p ns 0" "\<And>r. r \<notin> set ns \<Longrightarrow> st2 r = ?st1 r"
      "\<And>r. map_option dkey (st2 r) = map_option dkey (?st1 r)"
    using dl.fix_prev [OF seg] by blast
  have nonempty: "0 < dcount d \<longleftrightarrow> headp ns 0 \<noteq> 0" using headp_zero [OF seg(1)] cnt by auto
  let ?d' = "d\<lparr>dhead := p, dtail := (if 0 < dcount d then dtail d else p), dcount := dcount d + 1, dnodes := st2\<rparr>"
  have "(if 0 < dcount d then assign ?st1 (dhead d) (set_dprev p) else Inr ?st1) = Inr st2"
    using st2(1) by (simp only: nonempty hd)
  then have "createdllListNode pick k d = Inr (p, ?d')"
    by (simp only: createdllListNode_def p(3) bindE_simps prod.case)
  moreover have st2p: "st2 p = Some ?n" using st2(3) [OF fresh] by simp
  moreover have "dom st2 = insert p (set ns)"
    using same_dom [of dkey st2 ?st1, OF st2(4)] rep by (auto simp: dll_rep_def)
  then have "dll_rep ?d' (p # ns)"
    using st2p st2(2) rep fresh p(1) by (auto simp: dll_rep_def lastp_def)
  moreover have "node_key ?d' q = node_key d q" if q: "q \<in> set ns" for q
  proof -
    have "q \<noteq> p" using q fresh by auto
    then have "map_option dkey (st2 q) = map_option dkey (?st q)" using st2(4) [of q] by simp
    moreover have "q \<in> dom ?st" using rep q by (auto simp: dll_rep_def)
    ultimately show ?thesis by (cases "st2 q"; cases "?st q") (auto simp: node_key_def)
  qed
  ultimately show ?thesis using that [of p ?d'] p(1) fresh by (simp add: node_key_def)
qed

lemma same_key:
  assumes "map_option dkey (st' r) = map_option dkey (dnodes d r)" "r \<in> dom (dnodes d)"
  shows "dkey (the (st' r)) = node_key d r"
  using assms by (cases "st' r"; cases "dnodes d r") (auto simp: node_key_def)

lemma delete_dll_ok:
  assumes rep: "dll_rep d (xs @ x # ys)"
  obtains d' where "deletedllListNode x d = Inr d'" "dll_rep d' (xs @ ys)"
    "\<And>q. q \<in> set (xs @ ys) \<Longrightarrow> node_key d' q = node_key d q"
proof -
  let ?st = "dnodes d"
  have seg: "dseg dnext dprev ?st 0 (xs @ x # ys) 0" and dist: "distinct (xs @ x # ys)"
    and dom: "dom ?st = set (xs @ x # ys)" and hd: "dhead d = headp (xs @ x # ys) 0"
    and tl: "dtail d = lastp 0 (xs @ x # ys)" and cnt: "dcount d = length (xs @ x # ys)"
    using rep by (auto simp: dll_rep_def)
  obtain n where n: "x \<noteq> 0" "?st x = Some n" "dprev n = lastp 0 xs" "dnext n = headp ys 0"
    using dll_rep_node [OF rep] by auto
  obtain st1 where st1: "unlink dnext dprev set_dnext set_dprev ?st x = Inr st1"
      "dseg dnext dprev st1 0 (xs @ ys) 0" "\<And>r. r \<notin> set xs \<union> set ys \<Longrightarrow> st1 r = ?st r"
      "\<And>r. map_option dkey (st1 r) = map_option dkey (?st r)"
    using dl.unlink_ok [OF seg dist] by auto
  let ?d' = "d\<lparr>dhead := (if x = dhead d then dnext n else dhead d),
      dtail := (if x = dtail d then dprev n else dtail d), dcount := dcount d - 1, dnodes := st1(x := None)\<rparr>"
  have st1x: "st1 x = Some n" using st1(3) n(2) dist by simp
  have "deletedllListNode x d = Inr ?d'"
    using n(1,2) st1(1) st1x by (simp add: deletedllListNode_def)
  moreover have "headp (xs @ ys) 0 = dhead ?d'"
    using hd n(4) dist by (cases xs) auto
  moreover have "lastp 0 (xs @ ys) = dtail ?d'"
    using tl n(3) dist by (cases ys rule: rev_cases) auto
  moreover have "dom (st1(x := None)) = set (xs @ ys)"
    using same_dom [of dkey st1 ?st, OF st1(4)] dom dist by auto
  ultimately have "dll_rep ?d' (xs @ ys)"
    using st1(2) dist cnt by (simp add: dll_rep_def dseg_upd_other)
  moreover have "node_key ?d' q = node_key d q" if q: "q \<in> set (xs @ ys)" for q
  proof -
    have "q \<noteq> x" "q \<in> dom ?st" using q dist dom by auto
    then show ?thesis using same_key [of st1 q d, OF st1(4)] by (simp add: node_key_def)
  qed
  ultimately show ?thesis using that \<open>deletedllListNode x d = Inr ?d'\<close> by blast
qed

lemma move_dll_ok:
  assumes rep: "dll_rep d (xs @ x # ys)"
  obtains d' where "moveListNodeToFront x d = Inr d'" "dll_rep d' (x # xs @ ys)"
    "\<And>q. q \<in> set (xs @ x # ys) \<Longrightarrow> node_key d' q = node_key d q"
proof (cases xs)
  case Nil
  then have "moveListNodeToFront x d = Inr d" using rep by (simp add: moveListNodeToFront_def dll_rep_def)
  then show ?thesis using that rep Nil by simp
next
  case (Cons h zs)
  let ?st = "dnodes d"
  have seg: "dseg dnext dprev ?st 0 (xs @ x # ys) 0" and dist: "distinct (xs @ x # ys)"
    and dom: "dom ?st = set (xs @ x # ys)" and hd: "dhead d = h"
    and tl: "dtail d = lastp 0 (xs @ x # ys)" and cnt: "dcount d = length (xs @ x # ys)"
    using rep Cons by (auto simp: dll_rep_def)
  obtain n where n: "x \<noteq> 0" "?st x = Some n" "dprev n = lastp 0 xs" "dnext n = headp ys 0"
    using dll_rep_node [OF rep] by auto
  obtain st1 where st1: "unlink dnext dprev set_dnext set_dprev ?st x = Inr st1"
      "dseg dnext dprev st1 0 (xs @ ys) 0" "\<And>r. r \<notin> set xs \<union> set ys \<Longrightarrow> st1 r = ?st r"
      "\<And>r. map_option dkey (st1 r) = map_option dkey (?st r)"
    using dl.unlink_ok [OF seg dist] by auto
  have st1x: "st1 x = Some n" using st1(3) n(2) dist by simp
  let ?n = "n\<lparr>dnext := h, dprev := 0\<rparr>"
  let ?st3 = "st1(x \<mapsto> ?n)"
  have seg3: "dseg dnext dprev ?st3 0 (xs @ ys) 0" using st1(2) dist by (simp add: dseg_upd_other)
  then obtain m where m: "h \<noteq> 0" "?st3 h = Some m" using Cons by auto
  let ?st4 = "?st3(h \<mapsto> set_dprev x m)"
  have hx: "h \<noteq> x" using dist Cons by auto
  have seg4: "dseg dnext dprev ?st4 x (xs @ ys) 0"
    using dseg_set_prev [of dnext dprev ?st3 0 h "zs @ ys" 0 m "set_dprev x m" x] seg3 dist m(2) Cons by simp
  let ?d' = "d\<lparr>dhead := x, dtail := (if dtail d = x then dprev n else dtail d), dnodes := ?st4\<rparr>"
  have "moveListNodeToFront x d = Inr ?d'"
    using hd hx st1(1) st1x n(1) m cnt Cons by (simp add: moveListNodeToFront_def)
  moreover have "lastp 0 (x # xs @ ys) = dtail ?d'"
    using tl n(3) dist Cons by (cases ys rule: rev_cases) auto
  moreover have "dom ?st4 = set (x # xs @ ys)"
    using same_dom [of dkey st1 ?st, OF st1(4)] dom Cons by auto
  ultimately have "dll_rep ?d' (x # xs @ ys)"
    using seg4 dist cnt n(1) hx Cons by (simp add: dll_rep_def)
  moreover have "node_key ?d' q = node_key d q" if q: "q \<in> set (xs @ x # ys)" for q
  proof -
    have "map_option dkey (?st4 q) = map_option dkey (?st q)"
      using st1(4) [of q] st1x m(2) hx n(2) by (auto split: if_splits)
    then show ?thesis using same_key [of ?st4 q d] q dom by (simp add: node_key_def)
  qed
  ultimately show ?thesis using that \<open>moveListNodeToFront x d = Inr ?d'\<close> by blast
qed

end
