(* ===== verification/BB_Lfu.thy ===== *)
theory BB_Lfu
  imports BB_Pointers
begin

text \<open>
  The frequency list of \<^verbatim>\<open>ip6/lib/vmem/page_table.c\<close> that orders the resident pages for the policy
  LFU: a doubly linked list of use counts, each with a doubly linked list of its pages and a
  pointer back from every page to its use count. The abstraction is a list of groups.
\<close>

section \<open>The code\<close>

record lfuListNode =
  lkey :: nat
  lnext :: ptr
  lprev :: ptr
  lparent :: ptr

record freqListNode =
  useCount :: nat
  fnext :: ptr
  fprev :: ptr
  fhead :: ptr
  ftail :: ptr

record freqList =
  qhead :: ptr
  qcount :: nat
  fnodes :: "freqListNode store"
  lnodes :: "lfuListNode store"

abbreviation set_lnext :: "ptr \<Rightarrow> lfuListNode \<Rightarrow> lfuListNode" where
  "set_lnext y \<equiv> lnext_update (\<lambda>_. y)"

abbreviation set_lprev :: "ptr \<Rightarrow> lfuListNode \<Rightarrow> lfuListNode" where
  "set_lprev y \<equiv> lprev_update (\<lambda>_. y)"

abbreviation set_fnext :: "ptr \<Rightarrow> freqListNode \<Rightarrow> freqListNode" where
  "set_fnext y \<equiv> fnext_update (\<lambda>_. y)"

abbreviation set_fprev :: "ptr \<Rightarrow> freqListNode \<Rightarrow> freqListNode" where
  "set_fprev y \<equiv> fprev_update (\<lambda>_. y)"

definition new_freqList :: freqList where
  "new_freqList = \<lparr>qhead = 0, qcount = 0, fnodes = (\<lambda>_. None), lnodes = (\<lambda>_. None)\<rparr>"

text \<open>
  A new page starts in the group of use count 0, which is put in front when it does not exist.
\<close>

definition createlfuListNode ::
  "(lfuListNode store \<Rightarrow> ptr) \<Rightarrow> (freqListNode store \<Rightarrow> ptr) \<Rightarrow> nat \<Rightarrow> freqList \<Rightarrow> (ptr \<times> freqList) res" where
  "createlfuListNode pickl pickf key q =
     bindE (malloc pickl \<lparr>lkey = key, lnext = 0, lprev = 0, lparent = 0\<rparr> (lnodes q)) (\<lambda>(new, l1).
     bindE (if qhead q \<noteq> 0 then bindE (deref (fnodes q) (qhead q)) (\<lambda>h. Inr (useCount h = 0)) else Inr False) (\<lambda>zero.
     bindE
       (if zero then
          bindE (deref (fnodes q) (qhead q)) (\<lambda>h.
          bindE (assign l1 new (set_lnext (fhead h))) (\<lambda>l2.
          bindE (assign l2 (fhead h) (set_lprev new)) (\<lambda>l3.
          bindE (assign (fnodes q) (qhead q) (fhead_update (\<lambda>_. new))) (\<lambda>f1.
            Inr (q\<lparr>fnodes := f1, lnodes := l3\<rparr>)))))
        else
          bindE (malloc pickf \<lparr>useCount = 0, fnext = 0, fprev = 0, fhead = new, ftail = new\<rparr> (fnodes q)) (\<lambda>(newf, f1).
          bindE (if qhead q \<noteq> 0
                 then bindE (assign f1 (qhead q) (set_fprev newf)) (\<lambda>f2. assign f2 newf (set_fnext (qhead q)))
                 else Inr f1) (\<lambda>f3.
            Inr (q\<lparr>qhead := newf, fnodes := f3, lnodes := l1\<rparr>)))) (\<lambda>q1.
     bindE (assign (lnodes q1) new (lparent_update (\<lambda>_. qhead q1))) (\<lambda>l4.
       Inr (new, q1\<lparr>qcount := qcount q1 + 1, lnodes := l4\<rparr>)))))"

text \<open>
  \<^verbatim>\<open>moveNodeToNextFreq\<close> in four parts: make the group of the next use count, take the node out of
  its group, put it in front of the next group, and drop the old group when it is empty.
\<close>

definition ensure_next_freq :: "(freqListNode store \<Rightarrow> ptr) \<Rightarrow> ptr \<Rightarrow> freqList \<Rightarrow> freqList res" where
  "ensure_next_freq pickf node q =
     bindE (deref (lnodes q) node) (\<lambda>n.
     bindE (deref (fnodes q) (lparent n)) (\<lambda>pn.
       if fnext pn = 0
       then
         bindE (malloc pickf \<lparr>useCount = useCount pn + 1, fnext = 0, fprev = lparent n, fhead = 0, ftail = 0\<rparr> (fnodes q)) (\<lambda>(new, f1).
         bindE (assign f1 (lparent n) (set_fnext new)) (\<lambda>f2. Inr (q\<lparr>fnodes := f2\<rparr>)))
       else
         bindE (deref (fnodes q) (fnext pn)) (\<lambda>nn.
           if useCount pn + 1 < useCount nn
           then
             bindE (malloc pickf \<lparr>useCount = useCount pn + 1, fnext = fnext pn, fprev = lparent n, fhead = 0, ftail = 0\<rparr> (fnodes q)) (\<lambda>(new, f1).
             bindE (assign f1 (fnext pn) (set_fprev new)) (\<lambda>f2.
             bindE (assign f2 (lparent n) (set_fnext new)) (\<lambda>f3. Inr (q\<lparr>fnodes := f3\<rparr>))))
           else Inr q)))"

definition take_from_freq :: "ptr \<Rightarrow> freqList \<Rightarrow> freqList res" where
  "take_from_freq node q =
     bindE (unlink lnext lprev set_lnext set_lprev (lnodes q) node) (\<lambda>l1.
     bindE (deref l1 node) (\<lambda>n.
     bindE (assign (fnodes q) (lparent n)
             (\<lambda>p. p\<lparr>fhead := (if fhead p = node then lnext n else fhead p),
                    ftail := (if ftail p = node then lprev n else ftail p)\<rparr>)) (\<lambda>f1.
       Inr (q\<lparr>fnodes := f1, lnodes := l1\<rparr>))))"

definition put_in_next_freq :: "ptr \<Rightarrow> freqList \<Rightarrow> (ptr \<times> freqList) res" where
  "put_in_next_freq node q =
     bindE (deref (lnodes q) node) (\<lambda>n.
     bindE (deref (fnodes q) (lparent n)) (\<lambda>pn.
     bindE (assign (lnodes q) node (lparent_update (\<lambda>_. fnext pn))) (\<lambda>l1.
     bindE (deref (fnodes q) (fnext pn)) (\<lambda>nn.
     bindE (if fhead nn \<noteq> 0 then assign l1 (fhead nn) (set_lprev node) else Inr l1) (\<lambda>l2.
     bindE (assign l2 node (\<lambda>m. m\<lparr>lnext := fhead nn, lprev := 0\<rparr>)) (\<lambda>l3.
     bindE (assign (fnodes q) (fnext pn)
             (\<lambda>m. m\<lparr>fhead := node, ftail := (if ftail m = 0 then node else ftail m)\<rparr>)) (\<lambda>f1.
       Inr (lparent n, q\<lparr>fnodes := f1, lnodes := l3\<rparr>))))))))"

definition drop_empty_freq :: "ptr \<Rightarrow> freqList \<Rightarrow> freqList res" where
  "drop_empty_freq temp q =
     bindE (deref (fnodes q) temp) (\<lambda>t.
       if fhead t \<noteq> 0 then Inr q
       else
         bindE (unlink fnext fprev set_fnext set_fprev (fnodes q) temp) (\<lambda>f1.
         bindE (mfree f1 temp) (\<lambda>f2.
           Inr (q\<lparr>qhead := (if temp = qhead q then fnext t else qhead q), fnodes := f2\<rparr>))))"

definition moveNodeToNextFreq :: "(freqListNode store \<Rightarrow> ptr) \<Rightarrow> ptr \<Rightarrow> freqList \<Rightarrow> freqList res" where
  "moveNodeToNextFreq pickf node q =
     bindE (ensure_next_freq pickf node q) (\<lambda>q1.
     bindE (take_from_freq node q1) (\<lambda>q2.
     bindE (put_in_next_freq node q2) (\<lambda>(temp, q3). drop_empty_freq temp q3)))"

text \<open>
  \<^verbatim>\<open>deletelfuListNode\<close> does not free a group that becomes empty, and does not unlink it either: the
  two assignments to its own pointers leave the neighbours alone.
\<close>

definition deletelfuListNode :: "ptr \<Rightarrow> freqList \<Rightarrow> freqList res" where
  "deletelfuListNode node q =
     bindE (deref (lnodes q) node) (\<lambda>n.
     bindE (assign (fnodes q) (lparent n)
             (\<lambda>p. p\<lparr>fhead := (if node = fhead p then lnext n else fhead p),
                    ftail := (if node = ftail p then lprev n else ftail p)\<rparr>)) (\<lambda>f1.
     bindE (unlink lnext lprev set_lnext set_lprev (lnodes q) node) (\<lambda>l1.
     bindE (deref f1 (lparent n)) (\<lambda>p.
     bindE (if fhead p = 0
            then bindE (assign f1 (lparent n) (set_fprev (fnext p))) (\<lambda>f2.
                   assign f2 (lparent n) (\<lambda>m. set_fnext (fprev m) m))
            else Inr f1) (\<lambda>f3.
     bindE (mfree l1 node) (\<lambda>l2.
       Inr (q\<lparr>qhead := (if fhead p = 0 \<and> lparent n = qhead q then fnext p else qhead q),
              qcount := qcount q - 1, fnodes := f3, lnodes := l2\<rparr>)))))))"

section \<open>The groups it stands for\<close>

type_synonym group = "ptr \<times> nat \<times> ptr list"

abbreviation g_ptr :: "group \<Rightarrow> ptr" where "g_ptr g \<equiv> fst g"
abbreviation g_use :: "group \<Rightarrow> nat" where "g_use g \<equiv> fst (snd g)"
abbreviation g_nodes :: "group \<Rightarrow> ptr list" where "g_nodes g \<equiv> snd (snd g)"

definition group_ok :: "freqListNode store \<Rightarrow> lfuListNode store \<Rightarrow> group \<Rightarrow> bool" where
  "group_ok fs ls g \<longleftrightarrow>
     (\<exists>n. fs (g_ptr g) = Some n \<and> useCount n = g_use g \<and> fhead n = headp (g_nodes g) 0 \<and> ftail n = lastp 0 (g_nodes g)) \<and>
     dseg lnext lprev ls 0 (g_nodes g) 0 \<and>
     (\<forall>x\<in>set (g_nodes g). \<exists>n. ls x = Some n \<and> lparent n = g_ptr g)"

definition all_nodes :: "group list \<Rightarrow> ptr list" where
  "all_nodes gs = concat (map (\<lambda>g. g_nodes g) gs)"

text \<open>
  The first group may point back to a group that was dropped by \<^verbatim>\<open>deletelfuListNode\<close>; \<open>b\<close> is that
  pointer.
\<close>

definition groups_ok :: "freqListNode store \<Rightarrow> lfuListNode store \<Rightarrow> ptr \<Rightarrow> group list \<Rightarrow> bool" where
  "groups_ok fs ls b gs \<longleftrightarrow>
     dseg fnext fprev fs b (map (\<lambda>g. g_ptr g) gs) 0 \<and> distinct (map (\<lambda>g. g_ptr g) gs) \<and> distinct (all_nodes gs) \<and>
     (\<forall>g\<in>set gs. group_ok fs ls g) \<and> (b \<noteq> 0 \<longrightarrow> b \<in> dom fs \<and> b \<notin> set (map (\<lambda>g. g_ptr g) gs)) \<and>
     finite (dom fs) \<and> sorted_wrt (<) (map (\<lambda>g. g_use g) gs)"

definition lfu_rep :: "freqList \<Rightarrow> group list \<Rightarrow> bool" where
  "lfu_rep q gs \<longleftrightarrow>
     (\<exists>b. groups_ok (fnodes q) (lnodes q) b gs) \<and> (\<forall>g\<in>set gs. g_nodes g \<noteq> []) \<and>
     qhead q = headp (map (\<lambda>g. g_ptr g) gs) 0 \<and> qcount q = length (all_nodes gs) \<and>
     dom (lnodes q) = set (all_nodes gs)"

definition lfu_key :: "freqList \<Rightarrow> ptr \<Rightarrow> nat" where
  "lfu_key q p = lkey (the (lnodes q p))"

interpretation ll: dnode lnext lprev "\<lambda>y. set_lnext y" "\<lambda>y. set_lprev y" "\<lambda>n. (lkey n, lparent n)"
  by unfold_locales simp_all

interpretation fl: dnode fnext fprev "\<lambda>y. set_fnext y" "\<lambda>y. set_fprev y" "\<lambda>n. (useCount n, fhead n, ftail n)"
  by unfold_locales simp_all

lemma new_lfu_rep: "lfu_rep new_freqList []"
  by (auto simp: lfu_rep_def groups_ok_def new_freqList_def all_nodes_def)

lemma all_nodes_simps [simp]:
  "all_nodes [] = []" "all_nodes (g # gs) = g_nodes g @ all_nodes gs"
  "all_nodes (gs @ gs') = all_nodes gs @ all_nodes gs'"
  by (simp_all add: all_nodes_def)

section \<open>Every operation on the groups\<close>

abbreviation fcont :: "freqListNode \<Rightarrow> nat \<times> ptr \<times> ptr" where
  "fcont \<equiv> \<lambda>n. (useCount n, fhead n, ftail n)"

lemma group_ok_frame:
  assumes "group_ok fs ls g" "map_option fcont (fs' (g_ptr g)) = map_option fcont (fs (g_ptr g))"
    and "\<And>x. x \<in> set (g_nodes g) \<Longrightarrow> ls' x = ls x"
  shows "group_ok fs' ls' g"
proof -
  have "dseg lnext lprev ls' 0 (g_nodes g) 0"
    using assms(1,3) dseg_cong [of "g_nodes g" ls' ls] by (auto simp: group_ok_def)
  moreover obtain n where "fs (g_ptr g) = Some n" "useCount n = g_use g" "fhead n = headp (g_nodes g) 0" "ftail n = lastp 0 (g_nodes g)"
    using assms(1) by (auto simp: group_ok_def)
  ultimately show ?thesis
    using assms by (cases "fs' (g_ptr g)") (auto simp: group_ok_def)
qed

lemma group_node:
  assumes "group_ok fs ls g" "x \<in> set (g_nodes g)"
  shows "x \<noteq> 0" "\<exists>n. ls x = Some n \<and> lparent n = g_ptr g"
proof -
  have "dseg lnext lprev ls 0 (g_nodes g) 0" using assms(1) by (simp add: group_ok_def)
  from dseg_nonnull [OF this] show "x \<noteq> 0" using assms(2) by metis
  show "\<exists>n. ls x = Some n \<and> lparent n = g_ptr g" using assms by (simp add: group_ok_def)
qed

lemma groups_okD:
  assumes "groups_ok fs ls b (as @ g # bs)"
  shows "dseg fnext fprev fs b (map (\<lambda>g. g_ptr g) as @ g_ptr g # map (\<lambda>g. g_ptr g) bs) 0"
    "distinct (map (\<lambda>g. g_ptr g) as @ g_ptr g # map (\<lambda>g. g_ptr g) bs)" "group_ok fs ls g"
    "b \<noteq> 0 \<longrightarrow> b \<in> dom fs \<and> b \<notin> set (map (\<lambda>g. g_ptr g) as @ g_ptr g # map (\<lambda>g. g_ptr g) bs)"
    "distinct (all_nodes as @ g_nodes g @ all_nodes bs)"
  using assms by (auto simp: groups_ok_def)

lemma groups_insert:
  assumes ok: "groups_ok fs ls b (as @ g # bs)" and pick: "good_pick pick"
    and n: "n = \<lparr>useCount = g_use g + 1, fnext = headp (map (\<lambda>g. g_ptr g) bs) 0, fprev = g_ptr g, fhead = 0, ftail = 0\<rparr>"
    and gap: "\<forall>g'\<in>set bs. g_use g + 1 < g_use g'"
  obtains p f1 f2 f3 where "malloc pick n fs = Inr (p, f1)"
    "(if headp (map (\<lambda>g. g_ptr g) bs) 0 \<noteq> 0 then assign f1 (headp (map (\<lambda>g. g_ptr g) bs) 0) (set_fprev p) else Inr f1) = Inr f2"
    "assign f2 (g_ptr g) (set_fnext p) = Inr f3" "groups_ok f3 ls b (as @ g # (p, g_use g + 1, []) # bs)"
proof -
  have fin: "finite (dom fs)" using ok by (simp add: groups_ok_def)
  obtain p where p: "p \<noteq> 0" "fs p = None" "malloc pick n fs = Inr (p, fs(p \<mapsto> n))"
    using malloc_ok [OF pick fin] by metis
  have nn: "fnext n = headp (map (\<lambda>g. g_ptr g) bs) 0" "fprev n = g_ptr g" by (simp_all add: n)
  obtain f2 f3 where f: "(if headp (map (\<lambda>g. g_ptr g) bs) 0 \<noteq> 0 then assign (fs(p \<mapsto> n)) (headp (map (\<lambda>g. g_ptr g) bs) 0) (set_fprev p) else Inr (fs(p \<mapsto> n))) = Inr f2"
      "assign f2 (g_ptr g) (set_fnext p) = Inr f3"
      "dseg fnext fprev f3 b (map (\<lambda>g. g_ptr g) as @ g_ptr g # p # map (\<lambda>g. g_ptr g) bs) 0"
      "\<And>r. r \<noteq> p \<Longrightarrow> map_option fcont (f3 r) = map_option fcont (fs r)" "f3 p = Some n"
    using fl.insert_after [OF groups_okD(1,2) [OF ok] p(1,2) nn] by blast
  have pn: "p \<notin> set (map (\<lambda>g. g_ptr g) as @ g_ptr g # map (\<lambda>g. g_ptr g) bs)"
    using dseg_dom [OF groups_okD(1) [OF ok]] p(2) by blast
  have groups: "group_ok f3 ls g'" if g': "g' \<in> set (as @ g # bs)" for g'
  proof (rule group_ok_frame)
    show "group_ok fs ls g'" using ok g' unfolding groups_ok_def by blast
    have "g_ptr g' \<in> set (map (\<lambda>g. g_ptr g) as @ g_ptr g # map (\<lambda>g. g_ptr g) bs)" using g' by auto
    then have "g_ptr g' \<noteq> p" using pn by auto
    then show "map_option fcont (f3 (g_ptr g')) = map_option fcont (fs (g_ptr g'))" by (rule f(4))
  qed simp
  have new: "group_ok f3 ls (p, g_use g + 1, [])" using f(5) n by (simp add: group_ok_def)
  have same: "r \<in> dom f3 \<longleftrightarrow> r = p \<or> r \<in> dom fs" for r
    using f(4) [of r] f(5) by (cases "r = p"; cases "f3 r"; cases "fs r") auto
  then have dom: "dom f3 = insert p (dom fs)" by blast
  have sorted: "sorted_wrt (<) (map (\<lambda>g. g_use g) (as @ g # (p, g_use g + 1, []) # bs))"
    using ok gap by (auto simp: groups_ok_def sorted_wrt_append)
  have "groups_ok f3 ls b (as @ g # (p, g_use g + 1, []) # bs)"
    using ok f(3) groups new dom sorted pn fin p(2) unfolding groups_ok_def by auto
  then show ?thesis using that p(3) f(1,2) by blast
qed


lemma ensure_ok:
  assumes ok: "groups_ok (fnodes q) (lnodes q) b (as @ (f, c, ns) # bs)" and x: "x \<in> set ns" and pick: "good_pick pickf"
  obtains q' f2 zs bs' where "ensure_next_freq pickf x q = Inr q'" "lnodes q' = lnodes q" "qhead q' = qhead q" "qcount q' = qcount q"
    "groups_ok (fnodes q') (lnodes q) b (as @ (f, c, ns) # (f2, c + 1, zs) # bs')"
    "bs = (f2, c + 1, zs) # bs' \<or> zs = [] \<and> bs = bs'"
proof -
  have gok: "group_ok (fnodes q) (lnodes q) (f, c, ns)" using groups_okD(3) [OF ok] .
  then obtain n where n: "lnodes q x = Some n" "lparent n = f" using x by (auto simp: group_ok_def)
  have "x \<noteq> 0" using group_node(1) [OF gok] x by simp
  then have dx: "deref (lnodes q) x = Inr n" using n(1) by simp
  obtain pn where pn: "f \<noteq> 0" "fnodes q f = Some pn" "useCount pn = c" "fnext pn = headp (map (\<lambda>g. g_ptr g) bs) 0"
    using gok dseg_node [OF groups_okD(1) [OF ok]] by (auto simp: group_ok_def)
  have df: "deref (fnodes q) f = Inr pn" using pn by simp
  let ?new = "\<lparr>useCount = c + 1, fnext = headp (map (\<lambda>g. g_ptr g) bs) 0, fprev = f, fhead = 0, ftail = 0\<rparr>"
  have sorted: "\<forall>g'\<in>set bs. c < g_use g'" using ok by (auto simp: groups_ok_def sorted_wrt_append)
  show ?thesis
  proof (cases bs)
    case Nil
    then have gap: "\<forall>g'\<in>set bs. g_use (f, c, ns) + 1 < g_use g'" by simp
    obtain p f1 f2 f3 where "malloc pickf ?new (fnodes q) = Inr (p, f1)"
        "(if headp (map (\<lambda>g. g_ptr g) bs) 0 \<noteq> 0 then assign f1 (headp (map (\<lambda>g. g_ptr g) bs) 0) (set_fprev p) else Inr f1) = Inr f2"
        "assign f2 f (set_fnext p) = Inr f3" "groups_ok f3 (lnodes q) b (as @ (f, c, ns) # (p, c + 1, []) # bs)"
      by (rule groups_insert [OF ok pick refl gap, unfolded fst_conv snd_conv])
    then show ?thesis
      using that [of "q\<lparr>fnodes := f3\<rparr>" p "[]" bs] dx df n pn Nil by (simp add: ensure_next_freq_def)
  next
    case (Cons g2 bs2)
    have g2: "group_ok (fnodes q) (lnodes q) g2" using ok Cons by (simp add: groups_ok_def)
    have f20: "g_ptr g2 \<noteq> 0" using groups_okD(1) [OF ok] Cons by (auto simp: dseg_append)
    then obtain nn where nn: "deref (fnodes q) (g_ptr g2) = Inr nn" "useCount nn = g_use g2"
      using g2 by (auto simp: group_ok_def)
    show ?thesis
    proof (cases "c + 1 < g_use g2")
      case True
      then have gap: "\<forall>g'\<in>set bs. g_use (f, c, ns) + 1 < g_use g'"
        using ok Cons by (auto simp: groups_ok_def sorted_wrt_append)
      obtain p f1 f2 f3 where "malloc pickf ?new (fnodes q) = Inr (p, f1)"
          "(if headp (map (\<lambda>g. g_ptr g) bs) 0 \<noteq> 0 then assign f1 (headp (map (\<lambda>g. g_ptr g) bs) 0) (set_fprev p) else Inr f1) = Inr f2"
          "assign f2 f (set_fnext p) = Inr f3" "groups_ok f3 (lnodes q) b (as @ (f, c, ns) # (p, c + 1, []) # bs)"
        by (rule groups_insert [OF ok pick refl gap, unfolded fst_conv snd_conv])
      then show ?thesis
        using that [of "q\<lparr>fnodes := f3\<rparr>" p "[]" bs] dx df n pn nn True Cons f20 by (simp add: ensure_next_freq_def)
    next
      case False
      then have "g_use g2 = c + 1" using sorted Cons by auto
      then show ?thesis
        using that [of q "g_ptr g2" "g_nodes g2" bs2] dx df n pn nn Cons f20 ok
        by (cases g2) (simp add: ensure_next_freq_def)
    qed
  qed
qed


lemma groups_change:
  assumes ok: "groups_ok fs ls b (as @ (f, c, ns) # bs)" and f: "fs f = Some pn"
    and pn': "fnext pn' = fnext pn" "fprev pn' = fprev pn" "useCount pn' = c" "fhead pn' = headp ns' 0" "ftail pn' = lastp 0 ns'"
    and seg: "dseg lnext lprev ls' 0 ns' 0" and parent: "\<And>x. x \<in> set ns' \<Longrightarrow> \<exists>n. ls' x = Some n \<and> lparent n = f"
    and others: "\<And>x. x \<in> set (all_nodes as @ all_nodes bs) \<Longrightarrow> ls' x = ls x"
    and dist: "distinct (all_nodes as @ ns' @ all_nodes bs)"
  shows "groups_ok (fs(f \<mapsto> pn')) ls' b (as @ (f, c, ns') # bs)"
proof -
  let ?fs = "fs(f \<mapsto> pn')"
  have ptrs: "f \<notin> set (map (\<lambda>g. g_ptr g) (as @ bs))" using groups_okD(2) [OF ok] by auto
  have "group_ok ?fs ls' g" if g: "g \<in> set (as @ bs)" for g
  proof (rule group_ok_frame)
    show "group_ok fs ls g" using ok g by (auto simp: groups_ok_def)
    have "g_ptr g \<noteq> f" using ptrs g by force
    then show "map_option fcont (?fs (g_ptr g)) = map_option fcont (fs (g_ptr g))" by simp
    show "ls' x = ls x" if "x \<in> set (g_nodes g)" for x
      using others [of x] that g by (auto simp: all_nodes_def)
  qed
  moreover have "group_ok ?fs ls' (f, c, ns')" using pn' seg parent by (simp add: group_ok_def)
  moreover have "dseg fnext fprev ?fs b (map (\<lambda>g. g_ptr g) (as @ (f, c, ns') # bs)) 0"
    using ok dseg_upd_content [of fs f pn fnext pn' fprev, OF f pn'(1,2)] by (simp add: groups_ok_def)
  moreover have "dom ?fs = dom fs" using f by auto
  ultimately show ?thesis using ok dist unfolding groups_ok_def by auto
qed

lemma take_ok:
  assumes ok: "groups_ok (fnodes q) (lnodes q) b (as @ (f, c, xs @ x # ys) # bs)"
  obtains q' n where "take_from_freq x q = Inr q'" "qhead q' = qhead q" "qcount q' = qcount q"
    "groups_ok (fnodes q') (lnodes q') b (as @ (f, c, xs @ ys) # bs)" "lnodes q' x = Some n" "lparent n = f"
    "\<And>r. map_option (\<lambda>n. (lkey n, lparent n)) (lnodes q' r) = map_option (\<lambda>n. (lkey n, lparent n)) (lnodes q r)"
proof -
  have gok: "group_ok (fnodes q) (lnodes q) (f, c, xs @ x # ys)" using groups_okD(3) [OF ok] .
  have dist: "distinct (all_nodes as @ (xs @ x # ys) @ all_nodes bs)" using groups_okD(5) [OF ok] by simp
  have seg: "dseg lnext lprev (lnodes q) 0 (xs @ x # ys) 0" using gok by (simp add: group_ok_def)
  obtain n where n: "x \<noteq> 0" "lnodes q x = Some n" "lparent n = f" using group_node [OF gok, of x] by auto
  have n': "lprev n = lastp 0 xs" "lnext n = headp ys 0" using dseg_node [OF seg] n by auto
  obtain l1 where l1: "unlink lnext lprev set_lnext set_lprev (lnodes q) x = Inr l1"
      "dseg lnext lprev l1 0 (xs @ ys) 0" "\<And>r. r \<notin> set xs \<union> set ys \<Longrightarrow> l1 r = lnodes q r"
      "\<And>r. map_option (\<lambda>n. (lkey n, lparent n)) (l1 r) = map_option (\<lambda>n. (lkey n, lparent n)) (lnodes q r)"
    using ll.unlink_ok [OF seg] dist by auto
  have l1x: "l1 x = Some n" using l1(3) [of x] n(2) dist by auto
  obtain pn where pn: "fnodes q f = Some pn" "f \<noteq> 0" "useCount pn = c" "fhead pn = headp (xs @ x # ys) 0" "ftail pn = lastp 0 (xs @ x # ys)"
    using gok dseg_node(1) [OF groups_okD(1) [OF ok]] by (auto simp: group_ok_def)
  let ?pn = "pn\<lparr>fhead := (if fhead pn = x then lnext n else fhead pn), ftail := (if ftail pn = x then lprev n else ftail pn)\<rparr>"
  let ?q' = "q\<lparr>fnodes := (fnodes q)(f \<mapsto> ?pn), lnodes := l1\<rparr>"
  have "take_from_freq x q = Inr ?q'"
    using l1(1) l1x n pn by (simp add: take_from_freq_def)
  moreover have "groups_ok ((fnodes q)(f \<mapsto> ?pn)) l1 b (as @ (f, c, xs @ ys) # bs)"
  proof (rule groups_change [OF ok pn(1)])
    show "fhead ?pn = headp (xs @ ys) 0" using pn(4) n' dist by (cases xs) auto
    show "ftail ?pn = lastp 0 (xs @ ys)" using pn(5) n' dist by (cases ys rule: rev_cases) auto
    show "\<exists>n. l1 r = Some n \<and> lparent n = f" if "r \<in> set (xs @ ys)" for r
      using group_node(2) [OF gok, of r] that l1(4) [of r] by (cases "l1 r") auto
    show "l1 r = lnodes q r" if "r \<in> set (all_nodes as @ all_nodes bs)" for r
      using l1(3) [of r] that dist by auto
  qed (use pn(3) l1(2) dist in auto)
  ultimately show ?thesis using that [of ?q' n] l1x n(3) l1(4) by simp
qed


lemma put_freq_ok:
  assumes ok: "groups_ok (fnodes q) (lnodes q) b (as @ (f, c, ns) # (f2, c2, zs) # bs)"
    and x: "x \<noteq> 0" "lnodes q x = Some n" "lparent n = f" "x \<notin> set (all_nodes as @ ns @ zs @ all_nodes bs)"
  obtains q' where "put_in_next_freq x q = Inr (f, q')" "qhead q' = qhead q" "qcount q' = qcount q"
    "groups_ok (fnodes q') (lnodes q') b (as @ (f, c, ns) # (f2, c2, x # zs) # bs)"
    "\<And>r. map_option lkey (lnodes q' r) = map_option lkey (lnodes q r)"
proof -
  let ?L = "lnodes q" and ?F = "fnodes q"
  obtain pn where pn: "deref ?F f = Inr pn" "fnext pn = f2"
    using dseg_node [OF groups_okD(1) [OF ok]] by (auto simp: deref_eq_Inr)
  have ok': "groups_ok ?F ?L b ((as @ [(f, c, ns)]) @ (f2, c2, zs) # bs)" using ok by simp
  have gok: "group_ok ?F ?L (f2, c2, zs)" using groups_okD(3) [OF ok'] .
  have dist: "distinct (all_nodes as @ ns @ zs @ all_nodes bs)" using groups_okD(5) [OF ok'] by simp
  obtain nn where nn: "f2 \<noteq> 0" "?F f2 = Some nn" "useCount nn = c2" "fhead nn = headp zs 0" "ftail nn = lastp 0 zs"
    using gok dseg_node(1) [OF groups_okD(1) [OF ok']] by (auto simp: group_ok_def)
  let ?l1 = "?L(x \<mapsto> n\<lparr>lparent := f2\<rparr>)"
  have seg: "dseg lnext lprev ?L 0 zs 0" using gok by (simp add: group_ok_def)
  then have seg1: "dseg lnext lprev ?l1 0 zs 0" using x(4) by (simp add: dseg_upd_other)
  obtain l2 where l2: "(if headp zs 0 \<noteq> 0 then assign ?l1 (headp zs 0) (set_lprev x) else Inr ?l1) = Inr l2"
      "dseg lnext lprev l2 x zs 0" "\<And>r. r \<notin> set zs \<Longrightarrow> l2 r = ?l1 r"
      "\<And>r. map_option (\<lambda>n. (lkey n, lparent n)) (l2 r) = map_option (\<lambda>n. (lkey n, lparent n)) (?l1 r)"
    using ll.fix_prev [OF seg1] dist by auto
  have l2x: "l2 x = Some (n\<lparr>lparent := f2\<rparr>)" using l2(3) [of x] x(4) by simp
  let ?nx = "n\<lparr>lparent := f2, lnext := headp zs 0, lprev := 0\<rparr>"
  let ?l3 = "l2(x \<mapsto> ?nx)"
  let ?nn = "nn\<lparr>fhead := x, ftail := (if ftail nn = 0 then x else ftail nn)\<rparr>"
  let ?q' = "q\<lparr>fnodes := ?F(f2 \<mapsto> ?nn), lnodes := ?l3\<rparr>"
  have dx: "deref ?L x = Inr n" "assign ?L x (lparent_update (\<lambda>_. f2)) = Inr ?l1"
      "deref ?F f2 = Inr nn" "assign l2 x (\<lambda>m. m\<lparr>lnext := headp zs 0, lprev := 0\<rparr>) = Inr ?l3"
      "assign ?F f2 (\<lambda>m. m\<lparr>fhead := x, ftail := (if ftail m = 0 then x else ftail m)\<rparr>) = Inr (?F(f2 \<mapsto> ?nn))"
    using x(1,2) nn(1,2) l2x by simp_all
  have "put_in_next_freq x q = Inr (f, ?q')"
    by (simp only: put_in_next_freq_def dx x(3) pn bindE_simps nn(4) l2(1))
  moreover have "groups_ok (?F(f2 \<mapsto> ?nn)) ?l3 b ((as @ [(f, c, ns)]) @ (f2, c2, x # zs) # bs)"
  proof (rule groups_change [OF ok' nn(2)])
    show "ftail ?nn = lastp 0 (x # zs)" using nn(5) lastp_zero [OF seg refl] by (auto simp: lastp_def)
    show "dseg lnext lprev ?l3 0 (x # zs) 0" using l2(2) x(1,4) by (simp add: dseg_upd_other)
    show "\<exists>n. ?l3 r = Some n \<and> lparent n = f2" if "r \<in> set (x # zs)" for r
      using group_node(2) [OF gok, of r] that l2(4) [of r] x(4) by (cases "r = x"; cases "l2 r") auto
    show "?l3 r = ?L r" if r: "r \<in> set (all_nodes (as @ [(f, c, ns)]) @ all_nodes bs)" for r
    proof -
      have "r \<notin> set zs" "r \<noteq> x" using r dist x(4) by auto
      then show ?thesis using l2(3) by simp
    qed
  qed (use nn(3) dist x(4) in auto)
  moreover have "map_option lkey (?l3 r) = map_option lkey (?L r)" for r
    using l2(4) [of r] x(2) by (cases "r = x"; cases "l2 r"; cases "?L r") auto
  ultimately show ?thesis using that [of ?q'] by simp
qed

lemma drop_ok:
  assumes ok: "groups_ok (fnodes q) (lnodes q) b (as @ (f, c, ns) # bs)"
    and hd: "qhead q = headp (map (\<lambda>g. g_ptr g) (as @ (f, c, ns) # bs)) 0"
  obtains q' where "drop_empty_freq f q = Inr q'" "lnodes q' = lnodes q" "qcount q' = qcount q"
    "groups_ok (fnodes q') (lnodes q) b (as @ (if ns = [] then [] else [(f, c, ns)]) @ bs)"
    "qhead q' = headp (map (\<lambda>g. g_ptr g) (as @ (if ns = [] then [] else [(f, c, ns)]) @ bs)) 0"
proof -
  let ?F = "fnodes q"
  have gok: "group_ok ?F (lnodes q) (f, c, ns)" using groups_okD(3) [OF ok] .
  have seg: "dseg lnext lprev (lnodes q) 0 ns 0" using gok by (simp add: group_ok_def)
  obtain t where t: "?F f = Some t" "f \<noteq> 0" "fhead t = headp ns 0" "fnext t = headp (map (\<lambda>g. g_ptr g) bs) 0"
    using gok dseg_node [OF groups_okD(1) [OF ok]] by (auto simp: group_ok_def)
  show ?thesis
  proof (cases "ns = []")
    case False
    then have "fhead t \<noteq> 0" using t(3) headp_zero [OF seg refl] by simp
    then show ?thesis using that [of q] t ok hd False by (simp add: drop_empty_freq_def)
  next
    case True
    obtain f1 where f1: "unlink fnext fprev set_fnext set_fprev ?F f = Inr f1"
        "dseg fnext fprev f1 b (map (\<lambda>g. g_ptr g) as @ map (\<lambda>g. g_ptr g) bs) 0"
        "\<And>r. r \<notin> set (map (\<lambda>g. g_ptr g) as) \<union> set (map (\<lambda>g. g_ptr g) bs) \<Longrightarrow> b = 0 \<or> r \<noteq> b \<Longrightarrow> f1 r = ?F r"
        "\<And>r. map_option fcont (f1 r) = map_option fcont (?F r)"
      using fl.unlink_ok [OF groups_okD(1,2,4) [OF ok]] by auto
    have notin: "f \<notin> set (map (\<lambda>g. g_ptr g) as @ map (\<lambda>g. g_ptr g) bs)" "b = 0 \<or> f \<noteq> b"
      using groups_okD(2,4) [OF ok] by auto
    have dom: "dom f1 = dom ?F" by (rule same_dom [of fcont f1 ?F, OF f1(4)])
    have f1f: "f1 f \<noteq> None" using dom t(1) by auto
    let ?F' = "f1(f := None)"
    let ?q' = "q\<lparr>qhead := (if f = qhead q then fnext t else qhead q), fnodes := ?F'\<rparr>"
    have "drop_empty_freq f q = Inr ?q'"
      using t True f1(1) f1f by (simp add: drop_empty_freq_def mfree_def)
    moreover have "group_ok ?F' (lnodes q) g" if g: "g \<in> set (as @ bs)" for g
    proof (rule group_ok_frame)
      show "group_ok ?F (lnodes q) g" using ok g by (auto simp: groups_ok_def)
      have "g_ptr g \<noteq> f" using notin(1) g by force
      then show "map_option fcont (?F' (g_ptr g)) = map_option fcont (?F (g_ptr g))" using f1(4) by simp
    qed simp
    moreover have "dseg fnext fprev ?F' b (map (\<lambda>g. g_ptr g) (as @ bs)) 0"
      using f1(2) notin(1) by (simp add: dseg_upd_other)
    ultimately have "groups_ok ?F' (lnodes q) b (as @ bs)"
      using ok dom notin True unfolding groups_ok_def by (auto simp: sorted_wrt_append)
    moreover have "qhead ?q' = headp (map (\<lambda>g. g_ptr g) (as @ bs)) 0"
      using hd t(4) notin(1) by (cases as) auto
    ultimately show ?thesis using that [of ?q'] \<open>drop_empty_freq f q = Inr ?q'\<close> True by simp
  qed
qed


lemma lfu_keys_same:
  assumes "\<And>r. map_option lkey (lnodes q' r) = map_option lkey (lnodes q r)"
  shows "lfu_key q' r = lfu_key q r \<or> lnodes q r = None"
  using assms [of r] by (cases "lnodes q' r"; cases "lnodes q r") (auto simp: lfu_key_def)

lemma map_option_fst:
  assumes "map_option (\<lambda>n. (f n, g n)) x = map_option (\<lambda>n. (f n, g n)) y"
  shows "map_option f x = map_option f y"
  using assms by (cases x; cases y) auto

lemma move_lfu_ok:
  assumes rep: "lfu_rep q (as @ (f, c, xs @ x # ys) # bs)" and pick: "good_pick pickf"
  obtains q' f2 zs bs' where "moveNodeToNextFreq pickf x q = Inr q'"
    "bs = (f2, c + 1, zs) # bs' \<or> zs = [] \<and> bs = bs'"
    "lfu_rep q' (as @ (if xs @ ys = [] then [] else [(f, c, xs @ ys)]) @ (f2, c + 1, x # zs) # bs')"
    "\<And>r. map_option lkey (lnodes q' r) = map_option lkey (lnodes q r)"
proof -
  obtain b where ok: "groups_ok (fnodes q) (lnodes q) b (as @ (f, c, xs @ x # ys) # bs)"
    using rep by (auto simp: lfu_rep_def)
  obtain q1 f2 zs bs' where q1: "ensure_next_freq pickf x q = Inr q1" "lnodes q1 = lnodes q" "qhead q1 = qhead q" "qcount q1 = qcount q"
      "groups_ok (fnodes q1) (lnodes q) b (as @ (f, c, xs @ x # ys) # (f2, c + 1, zs) # bs')"
      "bs = (f2, c + 1, zs) # bs' \<or> zs = [] \<and> bs = bs'"
    by (rule ensure_ok [OF ok _ pick, of x]) simp
  have ok1: "groups_ok (fnodes q1) (lnodes q1) b (as @ (f, c, xs @ x # ys) # (f2, c + 1, zs) # bs')"
    using q1(2,5) by simp
  obtain q2 n where q2: "take_from_freq x q1 = Inr q2" "qhead q2 = qhead q1" "qcount q2 = qcount q1"
      "groups_ok (fnodes q2) (lnodes q2) b (as @ (f, c, xs @ ys) # (f2, c + 1, zs) # bs')" "lnodes q2 x = Some n" "lparent n = f"
      "\<And>r. map_option (\<lambda>n. (lkey n, lparent n)) (lnodes q2 r) = map_option (\<lambda>n. (lkey n, lparent n)) (lnodes q1 r)"
    using take_ok [OF ok1] by blast
  have dist: "distinct (all_nodes as @ (xs @ x # ys) @ zs @ all_nodes bs')" using groups_okD(5) [OF q1(5)] by simp
  have x0: "x \<noteq> 0" using group_node(1) [OF groups_okD(3) [OF ok], of x] by simp
  have xn: "x \<notin> set (all_nodes as @ (xs @ ys) @ zs @ all_nodes bs')" using dist by auto
  obtain q3 where q3: "put_in_next_freq x q2 = Inr (f, q3)" "qhead q3 = qhead q2" "qcount q3 = qcount q2"
      "groups_ok (fnodes q3) (lnodes q3) b (as @ (f, c, xs @ ys) # (f2, c + 1, x # zs) # bs')"
      "\<And>r. map_option lkey (lnodes q3 r) = map_option lkey (lnodes q2 r)"
    using put_freq_ok [OF q2(4) x0 q2(5,6) xn] by blast
  have hd3: "qhead q3 = headp (map (\<lambda>g. g_ptr g) (as @ (f, c, xs @ ys) # (f2, c + 1, x # zs) # bs')) 0"
    using rep q1(3) q2(2) q3(2) by (simp add: lfu_rep_def)
  obtain q4 where q4: "drop_empty_freq f q3 = Inr q4" "lnodes q4 = lnodes q3" "qcount q4 = qcount q3"
      "groups_ok (fnodes q4) (lnodes q3) b (as @ (if xs @ ys = [] then [] else [(f, c, xs @ ys)]) @ (f2, c + 1, x # zs) # bs')"
      "qhead q4 = headp (map (\<lambda>g. g_ptr g) (as @ (if xs @ ys = [] then [] else [(f, c, xs @ ys)]) @ (f2, c + 1, x # zs) # bs')) 0"
    by (rule drop_ok [OF q3(4) hd3])
  have keys: "map_option lkey (lnodes q4 r) = map_option lkey (lnodes q r)" for r
    using q3(5) [of r] map_option_fst [OF q2(7) [of r]] q1(2) q4(2) by simp
  have "moveNodeToNextFreq pickf x q = Inr q4"
    using q1(1) q2(1) q3(1) q4(1) by (simp add: moveNodeToNextFreq_def)
  moreover have "dom (lnodes q4) = set (all_nodes (as @ (f, c, xs @ x # ys) # bs))"
    using same_dom [of lkey "lnodes q4" "lnodes q", OF keys] rep by (simp add: lfu_rep_def)
  then have "lfu_rep q4 (as @ (if xs @ ys = [] then [] else [(f, c, xs @ ys)]) @ (f2, c + 1, x # zs) # bs')"
    unfolding lfu_rep_def q4(2,5) using rep q4(3,4) q3(3) q2(3) q1(4,6) by (auto simp: lfu_rep_def)
  ultimately show ?thesis using that q1(6) keys by blast
qed


text \<open>A new page joins the first group when that has use count 0, and opens one otherwise.\<close>

lemma create_join_ok:
  assumes rep: "lfu_rep q ((f, 0, ns) # bs)" and pick: "good_pick pickl"
  obtains p q' where "createlfuListNode pickl pickf k q = Inr (p, q')" "lfu_rep q' ((f, 0, p # ns) # bs)"
    "p \<notin> set (all_nodes ((f, 0, ns) # bs))" "lfu_key q' p = k"
    "\<And>r. r \<noteq> p \<Longrightarrow> map_option lkey (lnodes q' r) = map_option lkey (lnodes q r)"
proof -
  let ?L = "lnodes q" and ?F = "fnodes q" and ?n0 = "\<lparr>lkey = k, lnext = 0, lprev = 0, lparent = 0\<rparr>"
  obtain b where ok: "groups_ok ?F ?L b ([] @ (f, 0, ns) # bs)" using rep by (auto simp: lfu_rep_def)
  have gok: "group_ok ?F ?L (f, 0, ns)" using groups_okD(3) [OF ok] .
  have dist: "distinct (ns @ all_nodes bs)" using groups_okD(5) [OF ok] by simp
  have dom: "dom ?L = set (ns @ all_nodes bs)" using rep by (simp add: lfu_rep_def)
  obtain p where p: "p \<noteq> 0" "?L p = None" "malloc pickl ?n0 ?L = Inr (p, ?L(p \<mapsto> ?n0))"
    using malloc_ok [OF pick] dom by (metis List.finite_set)
  have pn: "p \<notin> set (ns @ all_nodes bs)" using p(2) dom by auto
  obtain h where h: "f \<noteq> 0" "?F f = Some h" "useCount h = 0" "fhead h = headp ns 0" "ftail h = lastp 0 ns"
    using gok dseg_node(1) [OF groups_okD(1) [OF ok]] by (auto simp: group_ok_def)
  obtain y ys where ns: "ns = y # ys" using rep by (cases ns) (auto simp: lfu_rep_def)
  have seg: "dseg lnext lprev ?L 0 ns 0" using gok by (simp add: group_ok_def)
  let ?n2 = "\<lparr>lkey = k, lnext = y, lprev = 0, lparent = f\<rparr>"
  obtain m where m: "y \<noteq> 0" "?L y = Some m" using seg ns by auto
  have py: "p \<noteq> y" using pn ns by auto
  let ?L' = "?L(y \<mapsto> set_lprev p m, p \<mapsto> ?n2)"
  let ?q' = "q\<lparr>qcount := qcount q + 1, fnodes := ?F(f \<mapsto> h\<lparr>fhead := p\<rparr>), lnodes := ?L'\<rparr>"
  have qh: "qhead q = f" using rep by (simp add: lfu_rep_def)
  have "createlfuListNode pickl pickf k q = Inr (p, ?q')"
    unfolding createlfuListNode_def p(3) using h p(1,2) m py qh ns by (simp add: fun_upd_twist)
  moreover have "groups_ok (?F(f \<mapsto> h\<lparr>fhead := p\<rparr>)) ?L' b ([] @ (f, 0, p # ns) # bs)"
  proof (rule groups_change [OF ok h(2)])
    have "dseg lnext lprev (?L(y \<mapsto> set_lprev p m)) p ns 0"
      using dseg_set_prev [of lnext lprev ?L 0 y ys 0 m "set_lprev p m" p] seg ns dist m(2) by simp
    then show "dseg lnext lprev ?L' 0 (p # ns) 0" using p(1) pn ns by (simp add: dseg_upd_other)
    show "\<exists>n. ?L' r = Some n \<and> lparent n = f" if "r \<in> set (p # ns)" for r
      using group_node(2) [OF gok, of r] that m(2) by (auto split: if_splits)
    show "?L' r = ?L r" if r: "r \<in> set (all_nodes [] @ all_nodes bs)" for r
      using r pn dist ns by auto
  qed (use h ns dist pn in auto)
  then have "lfu_rep ?q' ((f, 0, p # ns) # bs)"
    using rep m(2) dom by (auto simp: lfu_rep_def)
  moreover have "map_option lkey (?L' r) = map_option lkey (?L r)" if "r \<noteq> p" for r
    using that m(2) by simp
  ultimately show ?thesis using that [of p ?q'] pn by (simp add: lfu_key_def)
qed

lemma create_open_ok:
  assumes rep: "lfu_rep q gs" and pick: "good_pick pickl" "good_pick pickf" and first: "\<forall>g\<in>set gs. 0 < g_use g"
  obtains p f q' where "createlfuListNode pickl pickf k q = Inr (p, q')" "lfu_rep q' ((f, 0, [p]) # gs)"
    "p \<notin> set (all_nodes gs)" "lfu_key q' p = k"
    "\<And>r. r \<noteq> p \<Longrightarrow> map_option lkey (lnodes q' r) = map_option lkey (lnodes q r)"
proof -
  let ?L = "lnodes q" and ?F = "fnodes q" and ?n0 = "\<lparr>lkey = k, lnext = 0, lprev = 0, lparent = 0\<rparr>"
  let ?ps = "map (\<lambda>g. g_ptr g) gs"
  obtain b where ok: "groups_ok ?F ?L b gs" using rep by (auto simp: lfu_rep_def)
  have dom: "dom ?L = set (all_nodes gs)" and qh: "qhead q = headp ?ps 0" using rep by (auto simp: lfu_rep_def)
  obtain p where p: "p \<noteq> 0" "?L p = None" "malloc pickl ?n0 ?L = Inr (p, ?L(p \<mapsto> ?n0))"
    using malloc_ok [OF pick(1)] dom by (metis List.finite_set)
  have pn: "p \<notin> set (all_nodes gs)" using p(2) dom by auto
  let ?f0 = "\<lparr>useCount = 0, fnext = 0, fprev = 0, fhead = p, ftail = p\<rparr>"
  have fin: "finite (dom ?F)" using ok by (simp add: groups_ok_def)
  obtain f where f: "f \<noteq> 0" "?F f = None" "malloc pickf ?f0 ?F = Inr (f, ?F(f \<mapsto> ?f0))"
    using malloc_ok [OF pick(2) fin] by metis
  have seg: "dseg fnext fprev ?F b ?ps 0" and dist: "distinct ?ps" using ok by (simp_all add: groups_ok_def)
  have fn: "f \<notin> set ?ps" using dseg_dom [OF seg] f(2) by blast
  have seg1: "dseg fnext fprev (?F(f \<mapsto> ?f0)) b ?ps 0" using seg fn by (simp add: dseg_upd_other)
  obtain f2 where f2: "(if headp ?ps 0 \<noteq> 0 then assign (?F(f \<mapsto> ?f0)) (headp ?ps 0) (set_fprev f) else Inr (?F(f \<mapsto> ?f0))) = Inr f2"
      "dseg fnext fprev f2 f ?ps 0" "\<And>r. r \<notin> set ?ps \<Longrightarrow> f2 r = (?F(f \<mapsto> ?f0)) r"
      "\<And>r. map_option fcont (f2 r) = map_option fcont ((?F(f \<mapsto> ?f0)) r)"
    using fl.fix_prev [OF seg1 dist] by blast
  have f2f: "f2 f = Some ?f0" using f2(3) [OF fn] by simp
  let ?F' = "f2(f \<mapsto> ?f0\<lparr>fnext := headp ?ps 0\<rparr>)" and ?L' = "?L(p \<mapsto> ?n0\<lparr>lparent := f\<rparr>)"
  let ?q' = "q\<lparr>qhead := f, qcount := qcount q + 1, fnodes := ?F', lnodes := ?L'\<rparr>"
  have link: "(if qhead q \<noteq> 0 then bindE (assign (?F(f \<mapsto> ?f0)) (qhead q) (set_fprev f)) (\<lambda>f2. assign f2 f (set_fnext (qhead q)))
      else Inr (?F(f \<mapsto> ?f0))) = Inr ?F'"
    using f2(1) f2f f(1) unfolding qh by (cases "headp ?ps 0 = 0") auto
  have zero: "(if qhead q \<noteq> 0 then bindE (deref ?F (qhead q)) (\<lambda>h. Inr (useCount h = 0)) else Inr False) = Inr False"
    using qh ok first by (cases gs) (auto simp: groups_ok_def group_ok_def)
  have "createlfuListNode pickl pickf k q = Inr (p, ?q')"
    unfolding createlfuListNode_def p(3) bindE_simps prod.case zero if_False f(3) link using p(1) by simp
  moreover have groups: "group_ok ?F' ?L' g" if g: "g \<in> set gs" for g
  proof (rule group_ok_frame)
    show "group_ok ?F ?L g" using ok g by (auto simp: groups_ok_def)
    have "g_ptr g \<noteq> f" using fn g by auto
    then show "map_option fcont (?F' (g_ptr g)) = map_option fcont (?F (g_ptr g))" using f2(4) [of "g_ptr g"] by simp
    show "?L' x = ?L x" if x: "x \<in> set (g_nodes g)" for x
      using pn g x by (auto simp: all_nodes_def)
  qed
  moreover have "group_ok ?F' ?L' (f, 0, [p])" using p(1) by (simp add: group_ok_def)
  moreover have "dseg fnext fprev ?F' 0 (f # ?ps) 0" using f2(2) f(1) fn by (simp add: dseg_upd_other)
  moreover have "dom ?F' = insert f (dom ?F)" using same_dom [of fcont f2 "?F(f \<mapsto> ?f0)", OF f2(4)] by auto
  ultimately have "groups_ok ?F' ?L' 0 ((f, 0, [p]) # gs)"
    using ok fn pn first by (auto simp: groups_ok_def)
  then have "lfu_rep ?q' ((f, 0, [p]) # gs)" using rep by (auto simp: lfu_rep_def)
  then show ?thesis using that [of p ?q' f] \<open>createlfuListNode pickl pickf k q = Inr (p, ?q')\<close> pn
    by (simp add: lfu_key_def)
qed


text \<open>Deleting a page of the first group; a group that becomes empty stays behind unlinked.\<close>

lemma groups_leak:
  assumes ok: "groups_ok fs ls b ((f, c, []) # bs)" and f: "fs f = Some p"
  shows "groups_ok (fs(f \<mapsto> p')) ls f bs"
proof -
  have ok': "groups_ok fs ls b ([] @ (f, c, []) # bs)" using ok by simp
  have fn: "f \<notin> set (map (\<lambda>g. g_ptr g) bs)" "f \<noteq> 0"
    using groups_okD(2) [OF ok'] dseg_node(1) [OF groups_okD(1) [OF ok']] by auto
  have "group_ok (fs(f \<mapsto> p')) ls g" if g: "g \<in> set bs" for g
  proof (rule group_ok_frame)
    show "group_ok fs ls g" using ok g by (auto simp: groups_ok_def)
    have "g_ptr g \<noteq> f" using fn g by auto
    then show "map_option fcont ((fs(f \<mapsto> p')) (g_ptr g)) = map_option fcont (fs (g_ptr g))" by simp
  qed simp
  then show ?thesis using ok fn f by (auto simp: groups_ok_def dseg_upd_other insert_absorb)
qed

lemma delete_lfu_ok:
  assumes rep: "lfu_rep q ((f, c, xs @ x # ys) # bs)"
  obtains q' where "deletelfuListNode x q = Inr q'"
    "lfu_rep q' ((if xs @ ys = [] then [] else [(f, c, xs @ ys)]) @ bs)"
    "\<And>r. r \<noteq> x \<Longrightarrow> map_option lkey (lnodes q' r) = map_option lkey (lnodes q r)"
proof -
  let ?L = "lnodes q" and ?F = "fnodes q"
  obtain b where ok: "groups_ok ?F ?L b ([] @ (f, c, xs @ x # ys) # bs)" using rep by (auto simp: lfu_rep_def)
  have gok: "group_ok ?F ?L (f, c, xs @ x # ys)" using groups_okD(3) [OF ok] .
  have dist: "distinct ((xs @ x # ys) @ all_nodes bs)" using groups_okD(5) [OF ok] by simp
  have seg: "dseg lnext lprev ?L 0 (xs @ x # ys) 0" using gok by (simp add: group_ok_def)
  obtain n where n: "x \<noteq> 0" "?L x = Some n" "lparent n = f" using group_node [OF gok, of x] by auto
  have n': "lprev n = lastp 0 xs" "lnext n = headp ys 0" using dseg_node [OF seg] n by auto
  obtain pn where pn: "?F f = Some pn" "f \<noteq> 0" "useCount pn = c" "fhead pn = headp (xs @ x # ys) 0" "ftail pn = lastp 0 (xs @ x # ys)"
      "fnext pn = headp (map (\<lambda>g. g_ptr g) bs) 0"
    using gok dseg_node [OF groups_okD(1) [OF ok]] by (auto simp: group_ok_def)
  let ?pn = "pn\<lparr>fhead := (if x = fhead pn then lnext n else fhead pn), ftail := (if x = ftail pn then lprev n else ftail pn)\<rparr>"
  obtain l1 where l1: "unlink lnext lprev set_lnext set_lprev ?L x = Inr l1"
      "dseg lnext lprev l1 0 (xs @ ys) 0" "\<And>r. r \<notin> set xs \<union> set ys \<Longrightarrow> l1 r = ?L r"
      "\<And>r. map_option (\<lambda>n. (lkey n, lparent n)) (l1 r) = map_option (\<lambda>n. (lkey n, lparent n)) (?L r)"
    using ll.unlink_ok [OF seg] dist by auto
  have l1x: "l1 x = Some n" using l1(3) [of x] n(2) dist by auto
  let ?L' = "l1(x := None)" and ?F1 = "?F(f \<mapsto> ?pn)"
  have hd': "fhead ?pn = headp (xs @ ys) 0" using pn(4) n' dist by (cases xs) auto
  have tl': "ftail ?pn = lastp 0 (xs @ ys)" using pn(5) n' dist by (cases ys rule: rev_cases) auto
  have ok1: "groups_ok ?F1 ?L' b ([] @ (f, c, xs @ ys) # bs)"
  proof (rule groups_change [OF ok pn(1) _ _ _ hd' tl'])
    show "dseg lnext lprev ?L' 0 (xs @ ys) 0" using l1(2) dist by (simp add: dseg_upd_other)
    show "\<exists>n. ?L' r = Some n \<and> lparent n = f" if "r \<in> set (xs @ ys)" for r
      using group_node(2) [OF gok, of r] that l1(4) [of r] dist by (cases "l1 r") auto
    show "?L' r = ?L r" if r: "r \<in> set (all_nodes [] @ all_nodes bs)" for r
    proof -
      have "r \<notin> set xs \<union> set ys" "r \<noteq> x" using r dist by auto
      then show ?thesis using l1(3) by simp
    qed
  qed (use pn(3) dist in auto)
  have empty: "fhead ?pn = 0 \<longleftrightarrow> xs @ ys = []" unfolding hd' using headp_zero [OF l1(2) refl] by simp
  let ?pn2 = "?pn\<lparr>fprev := fnext pn, fnext := fnext pn\<rparr>"
  let ?F2 = "if xs @ ys = [] then ?F1(f \<mapsto> ?pn2) else ?F1"
  let ?q' = "q\<lparr>qhead := (if xs @ ys = [] then fnext pn else qhead q), qcount := qcount q - 1, fnodes := ?F2, lnodes := ?L'\<rparr>"
  have qh: "qhead q = f" using rep by (simp add: lfu_rep_def)
  have derefs: "deref ?L x = Inr n" "deref ?F1 f = Inr ?pn" "mfree l1 x = Inr ?L'"
      "assign ?F f (\<lambda>p. p\<lparr>fhead := (if x = fhead p then lnext n else fhead p), ftail := (if x = ftail p then lprev n else ftail p)\<rparr>) = Inr ?F1"
      "bindE (assign ?F1 f (set_fprev (fnext ?pn))) (\<lambda>f2. assign f2 f (\<lambda>m. set_fnext (fprev m) m)) = Inr (?F1(f \<mapsto> ?pn2))"
    using n(1,2) pn(1,2) l1x by simp_all
  have del: "deletelfuListNode x q = Inr ?q'"
    unfolding deletelfuListNode_def derefs bindE_simps n(3) l1(1) empty qh
    by (simp add: derefs(5) [simplified] qh)
  have keys: "map_option lkey (lnodes ?q' r) = map_option lkey (?L r)" if "r \<noteq> x" for r
    using map_option_fst [OF l1(4) [of r]] that by simp
  have "dom ?L' = set (xs @ ys) \<union> set (all_nodes bs)"
    using same_dom [of "\<lambda>n. (lkey n, lparent n)" l1 ?L, OF l1(4)] rep dist by (auto simp: lfu_rep_def)
  then have rep': "lfu_rep ?q' ((if xs @ ys = [] then [] else [(f, c, xs @ ys)]) @ bs)"
    using ok1 groups_leak [of ?F1 ?L' b f c bs ?pn ?pn2] rep pn(6) by (auto simp: lfu_rep_def)
  show ?thesis by (rule that [OF del rep' keys])
qed

end
