(* ===== verification/BB_Vmem.thy ===== *)
theory BB_Vmem
  imports BB_Types BB_Hash BB_Dll BB_Lfu BB_Packet
begin

text \<open>
  The page table of \<^verbatim>\<open>ip6/lib/vmem/page_table.c\<close>: the record, its entries, the transfers between
  frames and the backing store, and the three things a fault handler does to it: load a page into
  a free frame, replace a page, and allow writing. The backing store is an interface (\<open>pager\<close>,
  with the locale \<open>block_store\<close> for its laws). The memory a process sees is \<open>vm_view\<close>: the frame of
  a resident page, the backing store otherwise; all three moves leave it alone.

  The state is that of one thread of the process. \<^verbatim>\<open>remap_file_pages\<close> and \<^verbatim>\<open>mprotect\<close> make the
  hardware follow \<^verbatim>\<open>page_mapping\<close> and \<^verbatim>\<open>page_bits\<close>, so these two arrays are the state of the memory
  management unit as well.
\<close>

section \<open>The code\<close>

datatype policy = FIFO | LRU | LFU | RAND | FFIFO

text \<open>The data of the replacement policies.\<close>

record pol_state =
  frameState :: "nat list"
  framePage :: "nat list"
  hashT :: hashTable
  dll :: dllList
  freq :: freqList
  rcount :: nat

record 'b pager =
  pg_read :: "nat \<Rightarrow> 'b \<Rightarrow> (bytes \<times> 'b) res"
  pg_write :: "nat \<Rightarrow> bytes \<Rightarrow> 'b \<Rightarrow> 'b res"

record 'b page_table =
  npages :: nat
  nframes :: nat
  physmem :: bytes
  page_mapping :: "nat list"
  page_bits :: "nat list"
  startFrame :: nat
  endFrame :: nat
  pol :: pol_state
  backing :: 'b
  pageFaults :: nat
  pageReads :: nat
  pageWrites :: nat

definition PROT_READ :: nat where "PROT_READ = 1"
definition PROT_WRITE :: nat where "PROT_WRITE = 2"
definition PROT_RW :: nat where "PROT_RW = 3"

definition page_table_set_entry :: "nat \<Rightarrow> nat \<Rightarrow> nat \<Rightarrow> 'b page_table \<Rightarrow> 'b page_table res" where
  "page_table_set_entry page frame bits s =
     (if npages s \<le> page then Inl Abort
      else if frame < startFrame s \<or> endFrame s \<le> frame then Inl Abort
      else Inr (s\<lparr>page_mapping := (page_mapping s)[page := frame], page_bits := (page_bits s)[page := bits]\<rparr>))"

definition page_table_get_entry :: "nat \<Rightarrow> 'b page_table \<Rightarrow> (nat \<times> nat) res" where
  "page_table_get_entry page s =
     (if npages s \<le> page then Inl Abort else Inr (page_mapping s ! page, page_bits s ! page))"

definition readData :: "'b pager \<Rightarrow> nat \<Rightarrow> nat \<Rightarrow> 'b page_table \<Rightarrow> 'b page_table res" where
  "readData io page frame s =
     bindE (pg_read io page (backing s)) (\<lambda>(bs, b).
     bindE (put (physmem s) (frame * BLOCK_SIZE) bs) (\<lambda>pm.
       Inr (s\<lparr>physmem := pm, backing := b, pageReads := pageReads s + 1\<rparr>)))"

definition writeData :: "'b pager \<Rightarrow> nat \<Rightarrow> nat \<Rightarrow> 'b page_table \<Rightarrow> 'b page_table res" where
  "writeData io page frame s =
     (if frame * BLOCK_SIZE + BLOCK_SIZE \<le> length (physmem s)
      then
        bindE (pg_write io page (slice (physmem s) (frame * BLOCK_SIZE) BLOCK_SIZE) (backing s)) (\<lambda>b.
          Inr (s\<lparr>backing := b, pageWrites := pageWrites s + 1\<rparr>))
      else Inl Segv)"

text \<open>
  The steps every handler takes for a victim: write it back when it is dirty; and bring in the
  new page in its frame.
\<close>

definition write_back :: "'b pager \<Rightarrow> nat \<Rightarrow> nat \<Rightarrow> nat \<Rightarrow> 'b page_table \<Rightarrow> 'b page_table res" where
  "write_back io page frame bits s = (if bits = PROT_RW then writeData io page frame s else Inr s)"

section \<open>What a process sees\<close>

locale block_store =
  fixes io :: "'b pager" and content :: "'b \<Rightarrow> nat \<Rightarrow> bytes" and sinv :: "'b \<Rightarrow> bool" and nb :: nat
  assumes read_ok: "sinv b \<Longrightarrow> p < nb \<Longrightarrow>
      \<exists>b'. pg_read io p b = Inr (content b p, b') \<and> sinv b' \<and> (\<forall>q<nb. content b' q = content b q)"
    and write_ok: "sinv b \<Longrightarrow> p < nb \<Longrightarrow> length d = BLOCK_SIZE \<Longrightarrow>
      \<exists>b'. pg_write io p d b = Inr b' \<and> sinv b' \<and> content b' p = d \<and> (\<forall>q<nb. q \<noteq> p \<longrightarrow> content b' q = content b q)"
    and content_len: "sinv b \<Longrightarrow> p < nb \<Longrightarrow> length (content b p) = BLOCK_SIZE"

definition frame_bytes :: "'b page_table \<Rightarrow> nat \<Rightarrow> bytes" where
  "frame_bytes s f = slice (physmem s) (f * BLOCK_SIZE) BLOCK_SIZE"

definition vm_view :: "('b \<Rightarrow> nat \<Rightarrow> bytes) \<Rightarrow> 'b page_table \<Rightarrow> nat \<Rightarrow> bytes" where
  "vm_view content s page =
     (if page_bits s ! page \<noteq> 0 then frame_bytes s (page_mapping s ! page) else content (backing s) page)"

text \<open>
  The invariant, with the set \<open>A\<close> of resident pages: each has a frame of its own, and the frame of
  a page that may not be written holds what the backing store has.
\<close>

definition vm_core :: "('b \<Rightarrow> nat \<Rightarrow> bytes) \<Rightarrow> ('b \<Rightarrow> bool) \<Rightarrow> 'b page_table \<Rightarrow> nat set \<Rightarrow> bool" where
  "vm_core content sinv s A \<longleftrightarrow>
     length (page_mapping s) = npages s \<and> length (page_bits s) = npages s \<and>
     endFrame s * BLOCK_SIZE \<le> length (physmem s) \<and> endFrame s = startFrame s + nframes s \<and>
     A \<subseteq> {..<npages s} \<and> sinv (backing s) \<and>
     (\<forall>p<npages s. page_bits s ! p \<in> (if p \<in> A then {PROT_READ, PROT_RW} else {0})) \<and>
     inj_on (\<lambda>p. page_mapping s ! p) A \<and>
     (\<forall>p\<in>A. startFrame s \<le> page_mapping s ! p \<and> page_mapping s ! p < endFrame s) \<and>
     (\<forall>p\<in>A. page_bits s ! p = PROT_READ \<longrightarrow> frame_bytes s (page_mapping s ! p) = content (backing s) p)"

definition same_shape :: "'b page_table \<Rightarrow> 'b page_table \<Rightarrow> bool" where
  "same_shape s s' \<longleftrightarrow>
     npages s' = npages s \<and> nframes s' = nframes s \<and> startFrame s' = startFrame s \<and> endFrame s' = endFrame s \<and>
     length (physmem s') = length (physmem s) \<and> pol s' = pol s"

section \<open>The moves of a fault handler\<close>

lemma frame_end: "f < e \<Longrightarrow> e * BLOCK_SIZE \<le> n \<Longrightarrow> f * BLOCK_SIZE + BLOCK_SIZE \<le> n"
  using mult_le_mono1 [of "Suc f" e BLOCK_SIZE] by simp

lemma frame_blit:
  assumes "length d = BLOCK_SIZE" "f * BLOCK_SIZE + BLOCK_SIZE \<le> length pm" "g * BLOCK_SIZE + BLOCK_SIZE \<le> length pm"
  shows "slice (blit pm (f * BLOCK_SIZE) d) (g * BLOCK_SIZE) BLOCK_SIZE = (if g = f then d else slice pm (g * BLOCK_SIZE) BLOCK_SIZE)"
proof (cases "g = f")
  case True
  then show ?thesis using assms by (simp add: slice_blit_same)
next
  case False
  then consider "Suc g \<le> f" | "Suc f \<le> g" by linarith
  then have "g * BLOCK_SIZE + BLOCK_SIZE \<le> f * BLOCK_SIZE \<or> f * BLOCK_SIZE + length d \<le> g * BLOCK_SIZE"
  proof cases
    case 1
    then show ?thesis using mult_le_mono1 [of "Suc g" f BLOCK_SIZE] by simp
  next
    case 2
    then show ?thesis using mult_le_mono1 [of "Suc f" g BLOCK_SIZE] assms(1) by simp
  qed
  then show ?thesis using assms False by (simp add: slice_blit_other)
qed

lemma vm_core_pol [simp]:
  "vm_core content sinv (s\<lparr>pol := P\<rparr>) A \<longleftrightarrow> vm_core content sinv s A"
  "vm_core content sinv (s\<lparr>pageFaults := k\<rparr>) A \<longleftrightarrow> vm_core content sinv s A"
  by (simp_all add: vm_core_def frame_bytes_def)

lemma vm_view_pol [simp]:
  "vm_view content (s\<lparr>pol := P\<rparr>) p = vm_view content s p"
  "vm_view content (s\<lparr>pageFaults := k\<rparr>) p = vm_view content s p"
  by (simp_all add: vm_view_def frame_bytes_def)

lemma same_shape_trans: "same_shape s s' \<Longrightarrow> same_shape s' s'' \<Longrightarrow> same_shape s s''"
  by (simp add: same_shape_def)

lemma vm_coreD:
  assumes "vm_core content sinv s A"
  shows "length (page_mapping s) = npages s" "length (page_bits s) = npages s"
    "endFrame s * BLOCK_SIZE \<le> length (physmem s)" "endFrame s = startFrame s + nframes s"
    "A \<subseteq> {..<npages s}" "sinv (backing s)"
    "p < npages s \<Longrightarrow> p \<notin> A \<Longrightarrow> page_bits s ! p = 0" "p \<in> A \<Longrightarrow> page_bits s ! p \<in> {PROT_READ, PROT_RW}"
    "inj_on (\<lambda>p. page_mapping s ! p) A"
    "p \<in> A \<Longrightarrow> startFrame s \<le> page_mapping s ! p \<and> page_mapping s ! p < endFrame s"
    "p \<in> A \<Longrightarrow> page_bits s ! p = PROT_READ \<Longrightarrow> frame_bytes s (page_mapping s ! p) = content (backing s) p"
proof -
  show "p \<in> A \<Longrightarrow> page_bits s ! p \<in> {PROT_READ, PROT_RW}"
    using assms unfolding vm_core_def by (metis lessThan_iff subsetD)
qed (use assms in \<open>auto simp: vm_core_def split: if_splits\<close>)

lemma prot_simps [simp]: "0 < PROT_READ" "0 < PROT_RW" "PROT_READ \<noteq> 0" "PROT_RW \<noteq> 0" "0 \<noteq> PROT_READ" "0 \<noteq> PROT_RW" "PROT_READ \<noteq> PROT_RW" "PROT_RW \<noteq> PROT_READ"
  by (simp_all add: PROT_READ_def PROT_RW_def)

lemma vm_core_frame:
  assumes "vm_core content sinv s A" "p \<in> A"
  shows "page_mapping s ! p * BLOCK_SIZE + BLOCK_SIZE \<le> length (physmem s)"
  using vm_coreD(3,10) [OF assms(1)] assms(2) frame_end by blast

text \<open>Dropping a page whose frame the backing store has, and adding a page whose frame is its block.\<close>

lemma core_drop:
  assumes core: "vm_core content sinv s A" and v: "v \<in> A" "frame_bytes s (page_mapping s ! v) = content (backing s) v"
  shows "vm_core content sinv (s\<lparr>page_bits := (page_bits s)[v := 0]\<rparr>) (A - {v})"
    "vm_view content (s\<lparr>page_bits := (page_bits s)[v := 0]\<rparr>) p = vm_view content s p"
proof -
  have len: "length (page_bits s) = npages s" using vm_coreD(2) [OF core] .
  have vn: "v < npages s" using vm_coreD(5) [OF core] v(1) by auto
  show "vm_core content sinv (s\<lparr>page_bits := (page_bits s)[v := 0]\<rparr>) (A - {v})"
    using core vn len unfolding vm_core_def frame_bytes_def
    by (auto simp: nth_list_update inj_on_diff split: if_splits)
  show "vm_view content (s\<lparr>page_bits := (page_bits s)[v := 0]\<rparr>) p = vm_view content s p"
    using vm_coreD(8) [OF core v(1)] v(2) len vn by (cases "p = v") (auto simp: vm_view_def frame_bytes_def)
qed

lemma core_add:
  assumes core: "vm_core content sinv s A" and page: "page < npages s" "page \<notin> A"
    and f: "startFrame s \<le> f" "f < endFrame s" "\<forall>p\<in>A. page_mapping s ! p \<noteq> f" "frame_bytes s f = content (backing s) page"
  shows "vm_core content sinv (s\<lparr>page_mapping := (page_mapping s)[page := f], page_bits := (page_bits s)[page := PROT_READ]\<rparr>) (insert page A)"
    "vm_view content (s\<lparr>page_mapping := (page_mapping s)[page := f], page_bits := (page_bits s)[page := PROT_READ]\<rparr>) p = vm_view content s p"
proof -
  have len: "length (page_bits s) = npages s" "length (page_mapping s) = npages s" using vm_coreD(1,2) [OF core] by simp_all
  have inj: "inj_on (\<lambda>p. (page_mapping s)[page := f] ! p) (insert page A)"
    using vm_coreD(9) [OF core] f(3) page len by (auto simp: inj_on_def nth_list_update)
  then have inj': "inj_on (\<lambda>p. page_mapping (s\<lparr>page_mapping := (page_mapping s)[page := f], page_bits := (page_bits s)[page := PROT_READ]\<rparr>) ! p) (insert page A)"
    by (simp del: inj_on_insert)
  show "vm_core content sinv (s\<lparr>page_mapping := (page_mapping s)[page := f], page_bits := (page_bits s)[page := PROT_READ]\<rparr>) (insert page A)"
    unfolding vm_core_def
    by (intro conjI; (rule inj' | use core f page len in \<open>auto simp: vm_core_def frame_bytes_def nth_list_update split: if_splits\<close>))
  show "vm_view content (s\<lparr>page_mapping := (page_mapping s)[page := f], page_bits := (page_bits s)[page := PROT_READ]\<rparr>) p = vm_view content s p"
    using vm_coreD(7) [OF core page] f(4) len page(1) by (cases "p = page") (auto simp: vm_view_def frame_bytes_def)
qed

lemma core_writable:
  assumes core: "vm_core content sinv s A" and page: "page \<in> A"
  shows "vm_core content sinv (s\<lparr>page_bits := (page_bits s)[page := PROT_RW]\<rparr>) A"
    "vm_view content (s\<lparr>page_bits := (page_bits s)[page := PROT_RW]\<rparr>) p = vm_view content s p"
proof -
  have len: "length (page_bits s) = npages s" using vm_coreD(2) [OF core] .
  have pn: "page < npages s" using vm_coreD(5) [OF core] page by auto
  show "vm_core content sinv (s\<lparr>page_bits := (page_bits s)[page := PROT_RW]\<rparr>) A"
    using core page pn len unfolding vm_core_def frame_bytes_def by (auto simp: nth_list_update split: if_splits)
  show "vm_view content (s\<lparr>page_bits := (page_bits s)[page := PROT_RW]\<rparr>) p = vm_view content s p"
    using vm_coreD(8) [OF core page] len pn by (cases "p = page") (auto simp: vm_view_def frame_bytes_def)
qed

lemma set_entry_same:
  assumes "vm_core content sinv s A" "page \<in> A"
  shows "page_table_set_entry page (page_mapping s ! page) bits s = Inr (s\<lparr>page_bits := (page_bits s)[page := bits]\<rparr>)"
proof -
  have "page < npages s" using vm_coreD(5) [OF assms(1)] assms(2) by auto
  then show ?thesis using vm_coreD(10) [OF assms] by (simp add: page_table_set_entry_def)
qed

lemma get_entry_ok: "page < npages s \<Longrightarrow> page_table_get_entry page s = Inr (page_mapping s ! page, page_bits s ! page)"
  by (simp add: page_table_get_entry_def)

lemma readData_bits:
  assumes "readData io p f (s\<lparr>page_bits := B\<rparr>) = Inr s'"
  shows "readData io p f s = Inr (s'\<lparr>page_bits := page_bits s\<rparr>)"
  using assms by (auto simp: readData_def)

context block_store
begin

text \<open>The state after bringing \<open>page\<close> into frame \<open>f\<close>.\<close>

lemma read_into_frame:
  assumes core: "vm_core content sinv s A" and nb: "npages s \<le> nb" and page: "page < npages s" "page \<notin> A"
    and f: "startFrame s \<le> f" "f < endFrame s" "\<forall>p\<in>A. page_mapping s ! p \<noteq> f"
  obtains s' where "readData io page f s = Inr s'" "same_shape s s'"
    "page_mapping s' = page_mapping s" "page_bits s' = page_bits s"
    "frame_bytes s' f = content (backing s') page" "vm_core content sinv s' A"
    "\<And>p. p < npages s \<Longrightarrow> content (backing s') p = content (backing s) p"
    "\<And>g. g \<noteq> f \<Longrightarrow> g < endFrame s \<Longrightarrow> frame_bytes s' g = frame_bytes s g"
proof -
  note D = vm_coreD [OF core]
  obtain b' where b': "pg_read io page (backing s) = Inr (content (backing s) page, b')" "sinv b'"
      "\<forall>q<nb. content b' q = content (backing s) q"
    using read_ok [OF D(6), of page] page nb by auto
  have len: "length (content (backing s) page) = BLOCK_SIZE" using content_len [OF D(6)] page nb by simp
  let ?d = "content (backing s) page"
  let ?s' = "s\<lparr>physmem := blit (physmem s) (f * BLOCK_SIZE) ?d, backing := b', pageReads := pageReads s + 1\<rparr>"
  have room: "f * BLOCK_SIZE + BLOCK_SIZE \<le> length (physmem s)" using frame_end [OF f(2) D(3)] .
  have rd: "readData io page f s = Inr ?s'"
    using b'(1) room len by (simp add: readData_def put_def)
  have fb: "frame_bytes ?s' g = (if g = f then ?d else frame_bytes s g)" if "g < endFrame s" for g
    using frame_blit [OF len room frame_end [OF that D(3)]] by (simp add: frame_bytes_def)
  have cont: "content b' p = content (backing s) p" if "p < npages s" for p using b'(3) that nb by simp
  have AN: "p < npages s" if "p \<in> A" for p using D(5) that by auto
  have "vm_core content sinv ?s' A"
    using core b'(2) room len fb f(3) cont D(10) AN unfolding vm_core_def by auto
  then show ?thesis using that [OF rd] fb f(2) cont page(1) room len by (simp add: same_shape_def)
qed

lemma load_ok:
  assumes core: "vm_core content sinv s A" and nb: "npages s \<le> nb" and page: "page < npages s" "page \<notin> A"
    and f: "startFrame s \<le> f" "f < endFrame s" "\<forall>p\<in>A. page_mapping s ! p \<noteq> f"
  obtains s1 s2 where "page_table_set_entry page f PROT_READ s = Inr s1" "readData io page f s1 = Inr s2"
    "vm_core content sinv s2 (insert page A)" "\<And>p. p < npages s \<Longrightarrow> vm_view content s2 p = vm_view content s p"
    "same_shape s s2" "page_mapping s2 = (page_mapping s)[page := f]" "page_bits s2 = (page_bits s)[page := PROT_READ]"
proof -
  let ?M = "(page_mapping s)[page := f]" and ?B = "(page_bits s)[page := PROT_READ]"
  let ?s1 = "s\<lparr>page_mapping := ?M, page_bits := ?B\<rparr>"
  have set1: "page_table_set_entry page f PROT_READ s = Inr ?s1"
    using page f by (simp add: page_table_set_entry_def)
  obtain s' where s': "readData io page f s = Inr s'" "same_shape s s'" "page_mapping s' = page_mapping s" "page_bits s' = page_bits s"
      "frame_bytes s' f = content (backing s') page" "vm_core content sinv s' A"
      "\<And>p. p < npages s \<Longrightarrow> content (backing s') p = content (backing s) p"
      "\<And>g. g \<noteq> f \<Longrightarrow> g < endFrame s \<Longrightarrow> frame_bytes s' g = frame_bytes s g"
    using read_into_frame [OF core nb page f] by blast
  have shape: "npages s' = npages s" "startFrame s' = startFrame s" "endFrame s' = endFrame s" using s'(2) by (simp_all add: same_shape_def)
  let ?s2 = "s'\<lparr>page_mapping := ?M, page_bits := ?B\<rparr>"
  have rd: "readData io page f ?s1 = Inr ?s2" using s'(1) by (auto simp: readData_def)
  have view': "vm_view content s' p = vm_view content s p" if p: "p < npages s" for p
  proof (cases "p \<in> A")
    case True
    then have "page_mapping s ! p \<noteq> f" "page_mapping s ! p < endFrame s" using f(3) vm_coreD(10) [OF core] by auto
    then show ?thesis using s'(3,4,8) vm_coreD(8) [OF core True] by (auto simp: vm_view_def)
  next
    case False
    then show ?thesis using s'(4,7) vm_coreD(7) [OF core p] p by (simp add: vm_view_def)
  qed
  have "vm_core content sinv ?s2 (insert page A)" "\<And>p. vm_view content ?s2 p = vm_view content s' p"
    using core_add [OF s'(6), of page f] page f s'(3,4,5) shape by simp_all
  then show ?thesis using that [OF set1 rd] view' s'(2) by (simp add: same_shape_def)
qed

lemma write_back_ok:
  assumes core: "vm_core content sinv s A" and nb: "npages s \<le> nb" and v: "v \<in> A"
  obtains s1 where "write_back io v (page_mapping s ! v) (page_bits s ! v) s = Inr s1"
    "vm_core content sinv s1 A" "\<And>p. p < npages s \<Longrightarrow> vm_view content s1 p = vm_view content s p"
    "same_shape s s1" "page_mapping s1 = page_mapping s" "page_bits s1 = page_bits s"
    "frame_bytes s1 (page_mapping s ! v) = content (backing s1) v"
proof (cases "page_bits s ! v = PROT_RW")
  case False
  then have "page_bits s ! v = PROT_READ" using vm_coreD(8) [OF core v] by auto
  then show ?thesis using that [of s] core vm_coreD(11) [OF core v] False by (simp add: write_back_def same_shape_def)
next
  case True
  note D = vm_coreD [OF core]
  have vn: "v < npages s" using D(5) v by auto
  let ?f = "page_mapping s ! v"
  have room: "?f * BLOCK_SIZE + BLOCK_SIZE \<le> length (physmem s)" by (rule vm_core_frame [OF core v])
  let ?d = "slice (physmem s) (?f * BLOCK_SIZE) BLOCK_SIZE"
  obtain b' where b': "pg_write io v ?d (backing s) = Inr b'" "sinv b'" "content b' v = ?d"
      "\<forall>q<nb. q \<noteq> v \<longrightarrow> content b' q = content (backing s) q"
    using write_ok [OF D(6), of v ?d] vn nb room by auto
  let ?s1 = "s\<lparr>backing := b', pageWrites := pageWrites s + 1\<rparr>"
  have wb: "write_back io v ?f (page_bits s ! v) s = Inr ?s1"
    using True b'(1) room by (simp add: write_back_def writeData_def)
  have cont: "content b' p = content (backing s) p" if "p < npages s" "p \<noteq> v" for p using b'(4) that nb by simp
  have AN: "p < npages s" if "p \<in> A" for p using D(5) that by auto
  have clean: "content b' p = content (backing s) p" if "p \<in> A" "page_bits s ! p = PROT_READ" for p
    using cont [OF AN [OF that(1)]] that(2) True by (cases "p = v") auto
  have "vm_core content sinv ?s1 A"
    using core b'(2) clean unfolding vm_core_def frame_bytes_def by auto
  moreover have "vm_view content ?s1 p = vm_view content s p" if "p < npages s" for p
    using cont [OF that] True by (cases "p = v") (auto simp: vm_view_def frame_bytes_def)
  ultimately show ?thesis using that [OF wb] b'(3) by (simp add: same_shape_def frame_bytes_def)
qed

lemma replace_ok:
  assumes core: "vm_core content sinv s A" and nb: "npages s \<le> nb" and v: "v \<in> A" and page: "page < npages s" "page \<notin> A"
  obtains s1 s2 s3 s4 where "write_back io v (page_mapping s ! v) (page_bits s ! v) s = Inr s1"
    "readData io page (page_mapping s ! v) s1 = Inr s2"
    "page_table_set_entry page (page_mapping s ! v) PROT_READ s2 = Inr s3"
    "page_table_set_entry v (page_mapping s ! v) 0 s3 = Inr s4"
    "vm_core content sinv s4 (insert page (A - {v}))" "\<And>p. p < npages s \<Longrightarrow> vm_view content s4 p = vm_view content s p"
    "same_shape s s4" "page_mapping s4 = (page_mapping s)[page := page_mapping s ! v]"
    "page_bits s4 = (page_bits s)[v := 0, page := PROT_READ]"
proof -
  let ?f = "page_mapping s ! v"
  obtain s1 where s1: "write_back io v ?f (page_bits s ! v) s = Inr s1"
      "vm_core content sinv s1 A" "\<And>p. p < npages s \<Longrightarrow> vm_view content s1 p = vm_view content s p"
      "same_shape s s1" "page_mapping s1 = page_mapping s" "page_bits s1 = page_bits s"
      "frame_bytes s1 ?f = content (backing s1) v"
    using write_back_ok [OF core nb v] by blast
  have sh1: "npages s1 = npages s" "startFrame s1 = startFrame s" "endFrame s1 = endFrame s" using s1(4) by (simp_all add: same_shape_def)
  have vn: "v < npages s" "v \<noteq> page" using vm_coreD(5) [OF core] v page by auto
  let ?r = "s1\<lparr>page_bits := (page_bits s1)[v := 0]\<rparr>"
  have r: "vm_core content sinv ?r (A - {v})" "\<And>p. vm_view content ?r p = vm_view content s1 p"
    using core_drop [OF s1(2) v] s1(5,7) by simp_all
  have f: "startFrame ?r \<le> ?f" "?f < endFrame ?r" "\<forall>p\<in>A - {v}. page_mapping ?r ! p \<noteq> ?f"
    using vm_coreD(10) [OF core v] vm_coreD(9) [OF core] v sh1 s1(5) by (auto simp: inj_on_def)
  obtain t1 t2 where t: "page_table_set_entry page ?f PROT_READ ?r = Inr t1" "readData io page ?f t1 = Inr t2"
      "vm_core content sinv t2 (insert page (A - {v}))" "\<And>p. p < npages ?r \<Longrightarrow> vm_view content t2 p = vm_view content ?r p"
      "same_shape ?r t2" "page_mapping t2 = (page_mapping ?r)[page := ?f]" "page_bits t2 = (page_bits ?r)[page := PROT_READ]"
    using load_ok [OF r(1) _ _ _ f, of page] nb page sh1 by auto
  have t1: "t1 = ?r\<lparr>page_mapping := (page_mapping ?r)[page := ?f], page_bits := (page_bits ?r)[page := PROT_READ]\<rparr>"
    using t(1) page f sh1 by (auto simp: page_table_set_entry_def split: if_splits)
  let ?s2 = "t2\<lparr>page_mapping := page_mapping s, page_bits := page_bits s\<rparr>"
  have rd: "readData io page ?f s1 = Inr ?s2"
    using t(2) s1(5,6) unfolding t1 by (auto simp: readData_def)
  have sh2: "npages t2 = npages s" "startFrame t2 = startFrame s" "endFrame t2 = endFrame s" using t(5) sh1 by (simp_all add: same_shape_def)
  let ?s3 = "?s2\<lparr>page_mapping := (page_mapping s)[page := ?f], page_bits := (page_bits s)[page := PROT_READ]\<rparr>"
  have set3: "page_table_set_entry page ?f PROT_READ ?s2 = Inr ?s3"
    using page f sh1 sh2 by (simp add: page_table_set_entry_def)
  have same: "(page_mapping s)[page := ?f, v := ?f] = (page_mapping s)[page := ?f]"
    using vn by (metis list_update_id nth_list_update_neq)
  have "page_table_set_entry v ?f 0 ?s3 = Inr (?s3\<lparr>page_bits := (page_bits s)[page := PROT_READ, v := 0]\<rparr>)"
    using vn f sh1 sh2 same by (simp add: page_table_set_entry_def)
  moreover have "?s3\<lparr>page_bits := (page_bits s)[page := PROT_READ, v := 0]\<rparr> = t2"
    using t(6,7) s1(5,6) vn(2) by (simp add: list_update_swap)
  ultimately have set4: "page_table_set_entry v ?f 0 ?s3 = Inr t2" by simp
  have view: "vm_view content t2 p = vm_view content s p" if "p < npages s" for p
    using t(4) [of p] r(2) s1(3) [OF that] that sh1 by simp
  have shape: "same_shape s t2" using s1(4) t(5) by (simp add: same_shape_def)
  show ?thesis
    by (rule that [OF s1(1) rd set3 set4 t(3) view shape]) (use t(6,7) s1(5,6) in simp_all)
qed

end

end
