(* ===== verification/BB_Paging.thy ===== *)
theory BB_Paging
  imports BB_Vmem
begin

text \<open>
  The page fault handlers of \<^verbatim>\<open>ip6/lib/vmem/page_table.c\<close>, one per replacement policy, the flush of
  the page table, and the accesses of a process to its virtual memory, with the faults they take.
  \<^verbatim>\<open>malloc\<close> and \<^verbatim>\<open>rand\<close> are parameters.
\<close>

section \<open>Evicting a page\<close>

record allocs =
  al_hash :: "hashNode store \<Rightarrow> ptr"
  al_dll :: "dllListNode store \<Rightarrow> ptr"
  al_lfu :: "lfuListNode store \<Rightarrow> ptr"
  al_freq :: "freqListNode store \<Rightarrow> ptr"

definition good_allocs :: "allocs \<Rightarrow> bool" where
  "good_allocs al \<longleftrightarrow>
     good_pick (al_hash al) \<and> good_pick (al_dll al) \<and> good_pick (al_lfu al) \<and> good_pick (al_freq al)"

definition deleteLRU :: "nat \<Rightarrow> nat \<Rightarrow> pol_state \<Rightarrow> (nat \<times> pol_state) res" where
  "deleteLRU nf page P =
     (if dtail (dll P) \<noteq> 0 then
        bindE (deref (dnodes (dll P)) (dtail (dll P))) (\<lambda>n.
        bindE (deleteHashNode nf (dkey n) (hashT P)) (\<lambda>h.
        bindE (deletedllListNode (dtail (dll P)) (dll P)) (\<lambda>d.
          Inr (dkey n, P\<lparr>hashT := h, dll := d\<rparr>))))
      else Inr (page, P))"

definition deleteLFU :: "nat \<Rightarrow> nat \<Rightarrow> pol_state \<Rightarrow> (nat \<times> pol_state) res" where
  "deleteLFU nf page P =
     (if qhead (freq P) \<noteq> 0 then
        bindE (deref (fnodes (freq P)) (qhead (freq P))) (\<lambda>f.
        bindE (deref (lnodes (freq P)) (ftail f)) (\<lambda>n.
        bindE (deleteHashNode nf (lkey n) (hashT P)) (\<lambda>h.
        bindE (deletelfuListNode (ftail f) (freq P)) (\<lambda>q.
          Inr (lkey n, P\<lparr>hashT := h, freq := q\<rparr>)))))
      else Inr (page, P))"

section \<open>The handlers\<close>

definition LRU_page_fault_handler :: "'b pager \<Rightarrow> allocs \<Rightarrow> nat \<Rightarrow> 'b page_table \<Rightarrow> 'b page_table res" where
  "LRU_page_fault_handler io al page s =
     (let s0 = s\<lparr>pageFaults := pageFaults s + 1\<rparr>; P = pol s in
      bindE (page_table_get_entry page s0) (\<lambda>(frame, bits).
        if bits = 0 then
          if dcount (dll P) < nframes s0 then
            let i = dcount (dll P) + startFrame s0 in
            bindE (createdllListNode (al_dll al) page (dll P)) (\<lambda>(node, d).
            bindE (insertHashNode (al_hash al) (nframes s0) page node (hashT P)) (\<lambda>h.
            bindE (page_table_set_entry page i PROT_READ (s0\<lparr>pol := P\<lparr>dll := d, hashT := h\<rparr>\<rparr>)) (\<lambda>s1.
              readData io page i s1)))
          else
            bindE (deleteLRU (nframes s0) 0 P) (\<lambda>(tempPage, P1).
            bindE (page_table_get_entry tempPage (s0\<lparr>pol := P1\<rparr>)) (\<lambda>(frame, bits).
            bindE (write_back io tempPage frame bits (s0\<lparr>pol := P1\<rparr>)) (\<lambda>s1.
            bindE (readData io page frame s1) (\<lambda>s2.
            bindE (page_table_set_entry page frame PROT_READ s2) (\<lambda>s3.
            bindE (page_table_set_entry tempPage frame 0 s3) (\<lambda>s4.
            bindE (createdllListNode (al_dll al) page (dll (pol s4))) (\<lambda>(node, d).
            bindE (insertHashNode (al_hash al) (nframes s4) page node (hashT (pol s4))) (\<lambda>h.
              Inr (s4\<lparr>pol := (pol s4)\<lparr>dll := d, hashT := h\<rparr>\<rparr>)))))))))
        else
          bindE (getHashNode (nframes s0) page (hashT P)) (\<lambda>node.
          bindE (moveListNodeToFront node (dll P)) (\<lambda>d.
            page_table_set_entry page frame PROT_RW (s0\<lparr>pol := P\<lparr>dll := d\<rparr>\<rparr>)))))"

definition LFU_page_fault_handler :: "'b pager \<Rightarrow> allocs \<Rightarrow> nat \<Rightarrow> 'b page_table \<Rightarrow> 'b page_table res" where
  "LFU_page_fault_handler io al page s =
     (let s0 = s\<lparr>pageFaults := pageFaults s + 1\<rparr>; P = pol s in
      bindE (page_table_get_entry page s0) (\<lambda>(frame, bits).
        if bits = 0 then
          if qcount (freq P) < nframes s0 then
            let i = qcount (freq P) + startFrame s0 in
            bindE (createlfuListNode (al_lfu al) (al_freq al) page (freq P)) (\<lambda>(node, q).
            bindE (insertHashNode (al_hash al) (nframes s0) page node (hashT P)) (\<lambda>h.
            bindE (page_table_set_entry page i PROT_READ (s0\<lparr>pol := P\<lparr>freq := q, hashT := h\<rparr>\<rparr>)) (\<lambda>s1.
              readData io page i s1)))
          else
            bindE (deleteLFU (nframes s0) 0 P) (\<lambda>(tempPage, P1).
            bindE (page_table_get_entry tempPage (s0\<lparr>pol := P1\<rparr>)) (\<lambda>(frame, bits).
            bindE (write_back io tempPage frame bits (s0\<lparr>pol := P1\<rparr>)) (\<lambda>s1.
            bindE (readData io page frame s1) (\<lambda>s2.
            bindE (page_table_set_entry page frame PROT_READ s2) (\<lambda>s3.
            bindE (page_table_set_entry tempPage frame 0 s3) (\<lambda>s4.
            bindE (createlfuListNode (al_lfu al) (al_freq al) page (freq (pol s4))) (\<lambda>(node, q).
            bindE (insertHashNode (al_hash al) (nframes s4) page node (hashT (pol s4))) (\<lambda>h.
              Inr (s4\<lparr>pol := (pol s4)\<lparr>freq := q, hashT := h\<rparr>\<rparr>)))))))))
        else
          bindE (getHashNode (nframes s0) page (hashT P)) (\<lambda>node.
          bindE (moveNodeToNextFreq (al_freq al) node (freq P)) (\<lambda>q.
            page_table_set_entry page frame PROT_RW (s0\<lparr>pol := P\<lparr>freq := q\<rparr>\<rparr>)))))"

definition FFIFO_page_fault_handler :: "'b pager \<Rightarrow> allocs \<Rightarrow> nat \<Rightarrow> 'b page_table \<Rightarrow> 'b page_table res" where
  "FFIFO_page_fault_handler io al page s =
     (let s0 = s\<lparr>pageFaults := pageFaults s + 1\<rparr>; P = pol s in
      bindE (page_table_get_entry page s0) (\<lambda>(frame, bits).
        if bits = 0 then
          if dcount (dll P) < nframes s0 then
            let i = dcount (dll P) + startFrame s0 in
            bindE (createdllListNode (al_dll al) page (dll P)) (\<lambda>(node, d).
            bindE (insertHashNode (al_hash al) (nframes s0) page node (hashT P)) (\<lambda>h.
            bindE (page_table_set_entry page i PROT_READ (s0\<lparr>pol := P\<lparr>dll := d, hashT := h\<rparr>\<rparr>)) (\<lambda>s1.
              readData io page i s1)))
          else
            bindE (deref (dnodes (dll P)) (dtail (dll P))) (\<lambda>n.
            let tempPage = dkey n in
            bindE (deleteHashNode (nframes s0) tempPage (hashT P)) (\<lambda>h1.
            bindE (deletedllListNode (dtail (dll P)) (dll P)) (\<lambda>d1.
            let s1 = s0\<lparr>pol := P\<lparr>hashT := h1, dll := d1\<rparr>\<rparr> in
            bindE (page_table_get_entry tempPage s1) (\<lambda>(frame, bits).
            bindE (write_back io tempPage frame bits s1) (\<lambda>s2.
            bindE (readData io page frame s2) (\<lambda>s3.
            bindE (page_table_set_entry page frame PROT_READ s3) (\<lambda>s4.
            bindE (page_table_set_entry tempPage frame 0 s4) (\<lambda>s5.
            bindE (createdllListNode (al_dll al) page (dll (pol s5))) (\<lambda>(node, d).
            bindE (insertHashNode (al_hash al) (nframes s5) page node (hashT (pol s5))) (\<lambda>h.
              Inr (s5\<lparr>pol := (pol s5)\<lparr>dll := d, hashT := h\<rparr>\<rparr>)))))))))))
        else page_table_set_entry page frame PROT_RW s0))"

text \<open>
  FIFO keeps the age of every frame: every fault ages the frames in use. The loops over the frames
  are searches: for the first unused frame, and for the oldest (the first of the oldest, as the
  comparison is strict).
\<close>

definition age_frames :: "nat \<Rightarrow> nat \<Rightarrow> nat list \<Rightarrow> nat list" where
  "age_frames a b fs = map (\<lambda>i. if a \<le> i \<and> i < b \<and> fs ! i \<noteq> 0 then fs ! i + 1 else fs ! i) [0..<length fs]"

fun oldest_frame :: "nat list \<Rightarrow> nat list \<Rightarrow> nat \<Rightarrow> nat \<Rightarrow> nat" where
  "oldest_frame fs [] value frame = frame"
| "oldest_frame fs (i # is) value frame =
     (if value < fs ! i then oldest_frame fs is (fs ! i) i else oldest_frame fs is value frame)"

definition FIFO_page_fault_handler :: "'b pager \<Rightarrow> nat \<Rightarrow> 'b page_table \<Rightarrow> 'b page_table res" where
  "FIFO_page_fault_handler io page s =
     (let s0 = s\<lparr>pageFaults := pageFaults s + 1\<rparr>; P = pol s in
      bindE (page_table_get_entry page s0) (\<lambda>(frame, bits).
        if \<not> (endFrame s0 \<le> length (frameState P) \<and> endFrame s0 \<le> length (framePage P)) then Inl Segv
        else
          let st = age_frames (startFrame s0) (endFrame s0) (frameState P) in
          if bits = 0 then
            case find (\<lambda>i. st ! i = 0) [startFrame s0..<endFrame s0] of
              Some i \<Rightarrow>
                bindE (page_table_set_entry page i PROT_READ
                        (s0\<lparr>pol := P\<lparr>frameState := st[i := 1], framePage := (framePage P)[i := page]\<rparr>\<rparr>)) (\<lambda>s1.
                  readData io page i s1)
            | None \<Rightarrow>
                let old = oldest_frame st [startFrame s0..<endFrame s0] 0 frame in
                if length (framePage P) \<le> old then Inl Segv
                else
                  let tempPage = framePage P ! old; s1 = s0\<lparr>pol := P\<lparr>frameState := st\<rparr>\<rparr> in
                  bindE (page_table_get_entry tempPage s1) (\<lambda>(frame, bits).
                  bindE (write_back io tempPage frame bits s1) (\<lambda>s2.
                  bindE (readData io page frame s2) (\<lambda>s3.
                  bindE (page_table_set_entry page frame PROT_READ s3) (\<lambda>s4.
                  bindE (page_table_set_entry tempPage frame 0 s4) (\<lambda>s5.
                    Inr (s5\<lparr>pol := (pol s5)\<lparr>frameState := (frameState (pol s5))[frame := 1],
                                             framePage := (framePage (pol s5))[frame := page]\<rparr>\<rparr>))))))
          else
            bindE (page_table_set_entry page frame PROT_RW s0) (\<lambda>s1.
              Inr (s1\<lparr>pol := P\<lparr>frameState := st[frame := 1], framePage := (framePage P)[frame := page]\<rparr>\<rparr>))))"

text \<open>RAND looks for a bucket that is not empty, from a random one on, round and round.\<close>

partial_function (option) scan_buckets :: "hash list \<Rightarrow> nat \<Rightarrow> nat \<Rightarrow> nat option" where
  "scan_buckets bs nf i =
     (if i < length bs \<and> bhead (bs ! i) = 0
      then scan_buckets bs nf (if nf - 1 < i + 1 then 0 else i + 1)
      else Some i)"

definition RAND_page_fault_handler :: "'b pager \<Rightarrow> allocs \<Rightarrow> nat \<Rightarrow> nat \<Rightarrow> 'b page_table \<Rightarrow> 'b page_table res" where
  "RAND_page_fault_handler io al rnd page s =
     (let s0 = s\<lparr>pageFaults := pageFaults s + 1\<rparr>; P = pol s in
      bindE (page_table_get_entry page s0) (\<lambda>(frame, bits).
        if bits = 0 then
          if rcount P < nframes s0 then
            let i = rcount P + startFrame s0 in
            bindE (insertHashNode (al_hash al) (nframes s0) page 0 (hashT P)) (\<lambda>h.
            bindE (page_table_set_entry page i PROT_READ (s0\<lparr>pol := P\<lparr>hashT := h\<rparr>\<rparr>)) (\<lambda>s1.
            bindE (readData io page i s1) (\<lambda>s2.
              Inr (s2\<lparr>pol := (pol s2)\<lparr>rcount := rcount (pol s2) + 1\<rparr>\<rparr>))))
          else if nframes s0 = 0 then Inl Fpe
          else
            case scan_buckets (buckets (hashT P)) (nframes s0) (rnd mod nframes s0) of
              None \<Rightarrow> Inl Blocked
            | Some r \<Rightarrow>
                bindE (bucket (hashT P) r) (\<lambda>b.
                bindE (deref (hnodes (hashT P)) (bhead b)) (\<lambda>n.
                let tempPage = hkey n in
                bindE (page_table_get_entry tempPage s0) (\<lambda>(frame, bits).
                bindE (write_back io tempPage frame bits s0) (\<lambda>s1.
                bindE (readData io page frame s1) (\<lambda>s2.
                bindE (page_table_set_entry page frame PROT_READ s2) (\<lambda>s3.
                bindE (page_table_set_entry tempPage frame 0 s3) (\<lambda>s4.
                bindE (deleteHashNode (nframes s4) tempPage (hashT (pol s4))) (\<lambda>h1.
                bindE (insertHashNode (al_hash al) (nframes s4) page 0 h1) (\<lambda>h2.
                  Inr (s4\<lparr>pol := (pol s4)\<lparr>hashT := h2\<rparr>\<rparr>))))))))))
        else page_table_set_entry page frame PROT_RW s0))"

end
