(* ===== verification/BB_Policy.thy ===== *)
theory BB_Policy
  imports BB_Paging
begin

text \<open>
  The replacement policies: what the fault handlers need of one (the locale \<open>replacement\<close>), that
  LRU, FFIFO and LFU provide it, and what the handlers of all five policies promise: they
  return, and the memory of the process does not change (\<open>handles\<close>).
\<close>

section \<open>Policies that keep the resident pages in a list\<close>

text \<open>
  The handlers of LRU, LFU and FFIFO are one handler over four operations of the policy: how many
  pages are resident, admitting a page, choosing a victim, and noting a use.
\<close>

definition list_fault_handler ::
  "'b pager \<Rightarrow> (pol_state \<Rightarrow> nat) \<Rightarrow> (nat \<Rightarrow> pol_state \<Rightarrow> pol_state res) \<Rightarrow> (pol_state \<Rightarrow> (nat \<times> pol_state) res) \<Rightarrow>
     (nat \<Rightarrow> pol_state \<Rightarrow> pol_state res) \<Rightarrow> nat \<Rightarrow> 'b page_table \<Rightarrow> 'b page_table res" where
  "list_fault_handler io psize admit evict touch page s =
     (let s0 = s\<lparr>pageFaults := pageFaults s + 1\<rparr> in
      bindE (page_table_get_entry page s0) (\<lambda>(frame, bits).
        if bits = 0 then
          if psize (pol s0) < nframes s0 then
            bindE (admit page (pol s0)) (\<lambda>P.
            bindE (page_table_set_entry page (psize (pol s0) + startFrame s0) PROT_READ (s0\<lparr>pol := P\<rparr>)) (\<lambda>s1.
              readData io page (psize (pol s0) + startFrame s0) s1))
          else
            bindE (evict (pol s0)) (\<lambda>(v, P).
            bindE (page_table_get_entry v (s0\<lparr>pol := P\<rparr>)) (\<lambda>(frame, bits).
            bindE (write_back io v frame bits (s0\<lparr>pol := P\<rparr>)) (\<lambda>s1.
            bindE (readData io page frame s1) (\<lambda>s2.
            bindE (page_table_set_entry page frame PROT_READ s2) (\<lambda>s3.
            bindE (page_table_set_entry v frame 0 s3) (\<lambda>s4.
            bindE (admit page (pol s4)) (\<lambda>P'. Inr (s4\<lparr>pol := P'\<rparr>))))))))
        else
          bindE (touch page (pol s0)) (\<lambda>P. page_table_set_entry page frame PROT_RW (s0\<lparr>pol := P\<rparr>))))"

locale replacement =
  fixes psize :: "pol_state \<Rightarrow> nat" and admit touch :: "nat \<Rightarrow> pol_state \<Rightarrow> pol_state res"
    and evict :: "pol_state \<Rightarrow> (nat \<times> pol_state) res" and pinv :: "pol_state \<Rightarrow> nat set \<Rightarrow> bool"
  assumes size_ok: "pinv P A \<Longrightarrow> finite A \<and> psize P = card A"
    and admit_ok: "pinv P A \<Longrightarrow> k \<notin> A \<Longrightarrow> \<exists>P'. admit k P = Inr P' \<and> pinv P' (insert k A)"
    and evict_ok: "pinv P A \<Longrightarrow> A \<noteq> {} \<Longrightarrow> \<exists>v P'. evict P = Inr (v, P') \<and> v \<in> A \<and> pinv P' (A - {v})"
    and touch_ok: "pinv P A \<Longrightarrow> k \<in> A \<Longrightarrow> \<exists>P'. touch k P = Inr P' \<and> pinv P' A"

text \<open>
  What a fault handler promises: it returns, the page is resident afterwards and may be written
  when it was resident before, and the process sees the same memory.
\<close>

definition handles ::
  "('b \<Rightarrow> nat \<Rightarrow> bytes) \<Rightarrow> ('b page_table \<Rightarrow> nat set \<Rightarrow> bool) \<Rightarrow> (nat \<Rightarrow> 'b page_table \<Rightarrow> 'b page_table res) \<Rightarrow> bool" where
  "handles content I h \<longleftrightarrow>
     (\<forall>s A page. I s A \<longrightarrow> page < npages s \<longrightarrow> page_bits s ! page \<noteq> PROT_RW \<longrightarrow>
        (\<exists>s' A'. h page s = Inr s' \<and> I s' A' \<and> page \<in> A' \<and> npages s' = npages s \<and> nframes s' = nframes s \<and> startFrame s' = startFrame s \<and>
           page_bits s' ! page = (if page \<in> A then PROT_RW else PROT_READ) \<and>
           (\<forall>p<npages s. vm_view content s' p = vm_view content s p)))"

text \<open>The frames in use are the first ones.\<close>

definition packed :: "'b page_table \<Rightarrow> nat set \<Rightarrow> bool" where
  "packed s A \<longleftrightarrow>
     finite A \<and> 0 < nframes s \<and> card A \<le> nframes s \<and>
     (\<lambda>p. page_mapping s ! p) ` A = {startFrame s..<startFrame s + card A}"

lemma image_upd_other: "page \<notin> A \<Longrightarrow> (\<lambda>p. M[page := f] ! p) ` A = (\<lambda>p. M ! p) ` A"
  by (rule image_cong) (metis nth_list_update_neq)+

definition list_inv ::
  "('b \<Rightarrow> nat \<Rightarrow> bytes) \<Rightarrow> ('b \<Rightarrow> bool) \<Rightarrow> nat \<Rightarrow> (pol_state \<Rightarrow> nat set \<Rightarrow> bool) \<Rightarrow> 'b page_table \<Rightarrow> nat set \<Rightarrow> bool" where
  "list_inv content sinv nb pinv s A \<longleftrightarrow> vm_core content sinv s A \<and> npages s \<le> nb \<and> pinv (pol s) A \<and> packed s A"

locale list_paging = block_store + replacement
begin

lemma list_load:
  assumes inv: "list_inv content sinv nb pinv s A" and page: "page < npages s" "page \<notin> A" and free: "card A < nframes s"
  shows "\<exists>s'. list_fault_handler io psize admit evict touch page s = Inr s' \<and> list_inv content sinv nb pinv s' (insert page A) \<and>
      npages s' = npages s \<and> nframes s' = nframes s \<and> startFrame s' = startFrame s \<and> page_bits s' ! page = PROT_READ \<and> (\<forall>p<npages s. vm_view content s' p = vm_view content s p)"
proof -
  have core: "vm_core content sinv s A" and nb: "npages s \<le> nb" and pk: "packed s A" and pi: "pinv (pol s) A"
    using inv by (simp_all add: list_inv_def)
  have size: "psize (pol s) = card A" using size_ok [OF pi] by simp
  obtain P where P: "admit page (pol s) = Inr P" "pinv P (insert page A)" using admit_ok [OF pi page(2)] by auto
  let ?s0 = "s\<lparr>pageFaults := pageFaults s + 1, pol := P\<rparr>" and ?f = "card A + startFrame s"
  have unused: "\<forall>p\<in>A. page_mapping s ! p \<noteq> ?f"
  proof
    fix p assume "p \<in> A"
    then have "page_mapping s ! p \<in> {startFrame s..<startFrame s + card A}" using pk unfolding packed_def by blast
    then show "page_mapping s ! p \<noteq> ?f" by simp
  qed
  have core0: "vm_core content sinv ?s0 A" using core by simp
  obtain s1 s2 where s: "page_table_set_entry page ?f PROT_READ ?s0 = Inr s1" "readData io page ?f s1 = Inr s2"
      "vm_core content sinv s2 (insert page A)" "\<And>p. p < npages ?s0 \<Longrightarrow> vm_view content s2 p = vm_view content ?s0 p"
      "same_shape ?s0 s2" "page_mapping s2 = (page_mapping ?s0)[page := ?f]" "page_bits s2 = (page_bits ?s0)[page := PROT_READ]"
    using load_ok [OF core0, of page ?f] nb page unused free vm_coreD(4) [OF core] by auto
  have len: "length (page_mapping s) = npages s" "length (page_bits s) = npages s" using vm_coreD(1,2) [OF core] by simp_all
  have bits: "page_bits s ! page = 0" using vm_coreD(7) [OF core page] .
  have "list_fault_handler io psize admit evict touch page s = Inr s2"
    using page(1) bits size free P(1) s(1,2) by (simp add: list_fault_handler_def page_table_get_entry_def)
  moreover have "(\<lambda>p. page_mapping s2 ! p) ` insert page A = {startFrame s..<startFrame s + card (insert page A)}"
  proof -
    have "(\<lambda>p. page_mapping s2 ! p) ` A = (\<lambda>p. page_mapping s ! p) ` A"
      using s(6) image_upd_other [OF page(2), of "page_mapping s" ?f] by simp
    then show ?thesis using pk s(6) page len by (auto simp: packed_def)
  qed
  then have "packed s2 (insert page A)" using pk page(2) free s(5) by (simp add: packed_def same_shape_def)
  then have "list_inv content sinv nb pinv s2 (insert page A)" using s(3,5) P(2) nb by (simp add: list_inv_def same_shape_def)
  ultimately show ?thesis using s(4,5,7) len page(1) by (simp add: same_shape_def)
qed

lemma list_replace:
  assumes inv: "list_inv content sinv nb pinv s A" and page: "page < npages s" "page \<notin> A" and full: "card A = nframes s"
  shows "\<exists>s' v. list_fault_handler io psize admit evict touch page s = Inr s' \<and> list_inv content sinv nb pinv s' (insert page (A - {v})) \<and>
      npages s' = npages s \<and> nframes s' = nframes s \<and> startFrame s' = startFrame s \<and> page_bits s' ! page = PROT_READ \<and> (\<forall>p<npages s. vm_view content s' p = vm_view content s p)"
proof -
  have core: "vm_core content sinv s A" and nb: "npages s \<le> nb" and pk: "packed s A" and pi: "pinv (pol s) A"
    using inv by (simp_all add: list_inv_def)
  have size: "psize (pol s) = card A" and fin: "finite A" using size_ok [OF pi] by simp_all
  have "A \<noteq> {}" using pk full by (auto simp: packed_def)
  then obtain v P where v: "evict (pol s) = Inr (v, P)" "v \<in> A" "pinv P (A - {v})" using evict_ok [OF pi] by auto
  define s0 where "s0 = s\<lparr>pageFaults := Suc (pageFaults s), pol := P\<rparr>"
  let ?f = "page_mapping s0 ! v"
  have s0: "vm_core content sinv s0 A" "npages s0 \<le> nb" "page < npages s0" "npages s0 = npages s" "nframes s0 = nframes s"
      "startFrame s0 = startFrame s" "page_mapping s0 = page_mapping s" "page_bits s0 = page_bits s" "pol s0 = P"
      "\<And>p. vm_view content s0 p = vm_view content s p"
    using core nb page by (simp_all add: s0_def)
  obtain s1 s2 s3 s4 where s: "write_back io v ?f (page_bits s0 ! v) s0 = Inr s1" "readData io page ?f s1 = Inr s2"
      "page_table_set_entry page ?f PROT_READ s2 = Inr s3" "page_table_set_entry v ?f 0 s3 = Inr s4"
      "vm_core content sinv s4 (insert page (A - {v}))" "\<And>p. p < npages s0 \<Longrightarrow> vm_view content s4 p = vm_view content s0 p"
      "same_shape s0 s4" "page_mapping s4 = (page_mapping s0)[page := ?f]" "page_bits s4 = (page_bits s0)[v := 0, page := PROT_READ]"
    using replace_ok [OF s0(1,2) v(2) s0(3) page(2)] by blast
  have pol4: "pol s4 = P" using s(7) s0(9) by (simp add: same_shape_def)
  obtain P' where P': "admit page P = Inr P'" "pinv P' (insert page (A - {v}))" using admit_ok [OF v(3), of page] page(2) by auto
  have len: "length (page_mapping s) = npages s" "length (page_bits s) = npages s" using vm_coreD(1,2) [OF core] by simp_all
  have vn: "v < npages s" using vm_coreD(5) [OF core] v(2) by auto
  have bits: "page_bits s ! page = 0" using vm_coreD(7) [OF core page] .
  have res: "list_fault_handler io psize admit evict touch page s = Inr (s4\<lparr>pol := P'\<rparr>)"
    using page(1) vn bits size full v(1) s(1-4) pol4 P'(1) s0(7,8)
    by (simp add: list_fault_handler_def page_table_get_entry_def flip: s0_def)
  have "(\<lambda>p. page_mapping s4 ! p) ` insert page (A - {v}) = (\<lambda>p. page_mapping s ! p) ` A"
  proof -
    have "(\<lambda>p. page_mapping s4 ! p) ` (A - {v}) = (\<lambda>p. page_mapping s ! p) ` (A - {v})"
      using s(8) s0(7) image_upd_other [of page "A - {v}" "page_mapping s" ?f] page(2) by simp
    moreover have "page_mapping s4 ! page = ?f" using s(8) s0(7) len page(1) by simp
    ultimately show ?thesis using v(2) s0(7) by auto
  qed
  moreover have cardA: "card (insert page (A - {v})) = card A"
    using fin page(2) card_Suc_Diff1 [OF fin v(2)] by simp
  ultimately have "packed (s4\<lparr>pol := P'\<rparr>) (insert page (A - {v}))"
    unfolding packed_def cardA using pk s(7) s0(5,6) by (simp add: packed_def same_shape_def)
  then have "list_inv content sinv nb pinv (s4\<lparr>pol := P'\<rparr>) (insert page (A - {v}))" using s(5,7) P'(2) nb s0(4) by (simp add: list_inv_def same_shape_def)
  then show ?thesis using res s(6,7,9) s0(4,5,6,8,10) len page(1)
    by (intro exI [of _ "s4\<lparr>pol := P'\<rparr>"] exI [of _ v]) (simp add: same_shape_def)
qed

lemma list_upgrade:
  assumes inv: "list_inv content sinv nb pinv s A" and page: "page \<in> A"
  shows "\<exists>s'. list_fault_handler io psize admit evict touch page s = Inr s' \<and> list_inv content sinv nb pinv s' A \<and>
      npages s' = npages s \<and> nframes s' = nframes s \<and> startFrame s' = startFrame s \<and> page_bits s' ! page = PROT_RW \<and> (\<forall>p<npages s. vm_view content s' p = vm_view content s p)"
proof -
  have core: "vm_core content sinv s A" and nb: "npages s \<le> nb" and pk: "packed s A" and pi: "pinv (pol s) A"
    using inv by (simp_all add: list_inv_def)
  obtain P where P: "touch page (pol s) = Inr P" "pinv P A" using touch_ok [OF pi page] by auto
  let ?s0 = "s\<lparr>pageFaults := pageFaults s + 1, pol := P\<rparr>"
  let ?s' = "?s0\<lparr>page_bits := (page_bits s)[page := PROT_RW]\<rparr>"
  have core0: "vm_core content sinv ?s0 A" using core by simp
  have pn: "page < npages s" using vm_coreD(5) [OF core] page by auto
  have bits: "page_bits s ! page \<noteq> 0" using vm_coreD(8) [OF core page] by auto
  have "page_table_set_entry page (page_mapping s ! page) PROT_RW ?s0 = Inr ?s'"
    using set_entry_same [OF core0 page, of PROT_RW] by simp
  then have "list_fault_handler io psize admit evict touch page s = Inr ?s'"
    using pn bits P(1) by (simp add: list_fault_handler_def page_table_get_entry_def)
  moreover have "vm_core content sinv ?s' A" "\<And>p. vm_view content ?s' p = vm_view content s p"
    using core_writable [OF core0 page] by simp_all
  ultimately show ?thesis
    using nb pk P(2) pn vm_coreD(2) [OF core] by (auto simp: list_inv_def packed_def)
qed

lemma list_handles: "handles content (list_inv content sinv nb pinv) (list_fault_handler io psize admit evict touch)"
  unfolding handles_def
proof (intro allI impI)
  fix s A page assume inv: "list_inv content sinv nb pinv s A" and page: "page < npages s" "page_bits s ! page \<noteq> PROT_RW"
  have card: "card A \<le> nframes s" using inv by (simp add: list_inv_def packed_def)
  consider "page \<in> A" | "page \<notin> A" "card A < nframes s" | "page \<notin> A" "card A = nframes s" using card by linarith
  then show "\<exists>s' A'. list_fault_handler io psize admit evict touch page s = Inr s' \<and> list_inv content sinv nb pinv s' A' \<and> page \<in> A' \<and>
      npages s' = npages s \<and> nframes s' = nframes s \<and> startFrame s' = startFrame s \<and> page_bits s' ! page = (if page \<in> A then PROT_RW else PROT_READ) \<and>
      (\<forall>p<npages s. vm_view content s' p = vm_view content s p)"
  proof cases
    case 1
    from list_upgrade [OF inv this] obtain s' where "list_fault_handler io psize admit evict touch page s = Inr s'"
      "list_inv content sinv nb pinv s' A" "npages s' = npages s" "nframes s' = nframes s" "startFrame s' = startFrame s" "page_bits s' ! page = PROT_RW" "\<forall>p<npages s. vm_view content s' p = vm_view content s p"
      by (elim exE conjE)
    then show ?thesis using 1 by (intro exI [of _ s'] exI [of _ A]) simp
  next
    case 2
    from list_load [OF inv page(1) this] obtain s' where "list_fault_handler io psize admit evict touch page s = Inr s'"
      "list_inv content sinv nb pinv s' (insert page A)" "npages s' = npages s" "nframes s' = nframes s" "startFrame s' = startFrame s" "page_bits s' ! page = PROT_READ" "\<forall>p<npages s. vm_view content s' p = vm_view content s p"
      by (elim exE conjE)
    then show ?thesis using 2(1) by (intro exI [of _ s'] exI [of _ "insert page A"]) simp
  next
    case 3
    from list_replace [OF inv page(1) this] obtain s' v where "list_fault_handler io psize admit evict touch page s = Inr s'"
      "list_inv content sinv nb pinv s' (insert page (A - {v}))" "npages s' = npages s" "nframes s' = nframes s" "startFrame s' = startFrame s" "page_bits s' ! page = PROT_READ" "\<forall>p<npages s. vm_view content s' p = vm_view content s p"
      by (elim exE conjE)
    then show ?thesis using 3(1) by (intro exI [of _ s'] exI [of _ "insert page (A - {v})"]) simp
  qed
qed

end

section \<open>The index from pages to list nodes\<close>

definition node_map :: "(ptr \<Rightarrow> nat) \<Rightarrow> ptr list \<Rightarrow> nat \<Rightarrow> ptr option" where
  "node_map key ns = map_of (map (\<lambda>x. (key x, x)) ns)"

lemma node_map_Some:
  assumes "inj_on key (set ns)"
  shows "node_map key ns k = Some x \<longleftrightarrow> x \<in> set ns \<and> key x = k"
  using assms unfolding node_map_def
proof (induction ns)
  case (Cons y ns)
  then show ?case by (auto simp: inj_on_def)
qed simp

lemma node_map_None: "node_map key ns k = None \<longleftrightarrow> k \<notin> key ` set ns"
  unfolding node_map_def by (induction ns) auto

lemma node_map_eqI:
  assumes "inj_on key (set ns)" "\<And>k x. m k = Some x \<longleftrightarrow> x \<in> set ns \<and> key x = k"
  shows "node_map key ns = m"
proof
  fix k
  show "node_map key ns k = m k"
  proof (cases "m k")
    case None
    then have "\<not> (x \<in> set ns \<and> key x = k)" for x using assms(2) [of k x] by simp
    then show ?thesis using None node_map_None [of key ns k] by auto
  next
    case (Some x)
    then show ?thesis using assms(2) [of k x] node_map_Some [OF assms(1)] by simp
  qed
qed

lemma node_map_same:
  assumes "inj_on key (set ns)" "set ns' = set ns" "\<And>x. x \<in> set ns \<Longrightarrow> key' x = key x"
  shows "node_map key' ns' = node_map key ns" "inj_on key' (set ns')"
proof -
  show inj: "inj_on key' (set ns')" using assms inj_on_cong [of "set ns" key' key] by simp
  show "node_map key' ns' = node_map key ns"
    using assms by (intro node_map_eqI [OF inj]) (auto simp: node_map_Some)
qed

lemma node_map_add:
  assumes "inj_on key (set ns)" "key' y \<notin> key ` set ns" "\<And>x. x \<in> set ns \<Longrightarrow> key' x = key x"
  shows "node_map key' (y # ns) = (node_map key ns)(key' y \<mapsto> y)" "inj_on key' (set (y # ns))"
proof -
  have "inj_on key' (set ns)" using assms(1,3) inj_on_cong [of "set ns" key' key] by simp
  moreover have "key' y \<notin> key' ` set ns" using assms(2,3) by (metis image_cong)
  ultimately show inj: "inj_on key' (set (y # ns))" by (simp add: image_iff)
  have "key x \<noteq> key' y" if "x \<in> set ns" for x using assms(2) that by (metis image_eqI)
  then show "node_map key' (y # ns) = (node_map key ns)(key' y \<mapsto> y)"
    using assms(1,3) by (intro node_map_eqI [OF inj]) (auto simp: node_map_Some split: if_splits)
qed

lemma node_map_del:
  assumes "inj_on key (set ns)" "y \<in> set ns" "set ns' = set ns - {y}" "\<And>x. x \<in> set ns' \<Longrightarrow> key' x = key x"
  shows "node_map key' ns' = (node_map key ns)(key y := None)" "inj_on key' (set ns')"
proof -
  have "inj_on key (set ns')" using assms(1,3) by (auto intro: inj_on_subset)
  then show inj: "inj_on key' (set ns')" using assms(4) inj_on_cong [of "set ns'" key' key] by simp
  show "node_map key' ns' = (node_map key ns)(key y := None)"
    using assms by (intro node_map_eqI [OF inj]) (auto simp: node_map_Some inj_on_def split: if_splits)
qed

section \<open>LRU and FFIFO\<close>

lemma good_allocsD:
  assumes "good_allocs al"
  shows "good_pick (al_hash al)" "good_pick (al_dll al)" "good_pick (al_lfu al)" "good_pick (al_freq al)"
  using assms by (simp_all add: good_allocs_def)

definition lru_size :: "pol_state \<Rightarrow> nat" where
  "lru_size P = dcount (dll P)"

definition lru_admit :: "allocs \<Rightarrow> nat \<Rightarrow> nat \<Rightarrow> pol_state \<Rightarrow> pol_state res" where
  "lru_admit al nf k P =
     bindE (createdllListNode (al_dll al) k (dll P)) (\<lambda>(node, d).
     bindE (insertHashNode (al_hash al) nf k node (hashT P)) (\<lambda>h. Inr (P\<lparr>dll := d, hashT := h\<rparr>)))"

definition lru_evict :: "nat \<Rightarrow> pol_state \<Rightarrow> (nat \<times> pol_state) res" where
  "lru_evict nf P = deleteLRU nf 0 P"

definition lru_touch :: "nat \<Rightarrow> nat \<Rightarrow> pol_state \<Rightarrow> pol_state res" where
  "lru_touch nf k P =
     bindE (getHashNode nf k (hashT P)) (\<lambda>node.
     bindE (moveListNodeToFront node (dll P)) (\<lambda>d. Inr (P\<lparr>dll := d\<rparr>)))"

definition ffifo_evict :: "nat \<Rightarrow> pol_state \<Rightarrow> (nat \<times> pol_state) res" where
  "ffifo_evict nf P =
     bindE (deref (dnodes (dll P)) (dtail (dll P))) (\<lambda>n.
     bindE (deleteHashNode nf (dkey n) (hashT P)) (\<lambda>h.
     bindE (deletedllListNode (dtail (dll P)) (dll P)) (\<lambda>d.
       Inr (dkey n, P\<lparr>hashT := h, dll := d\<rparr>))))"

text \<open>The list of the pages, most recent first.\<close>

definition lru_abs :: "nat \<Rightarrow> pol_state \<Rightarrow> nat list \<Rightarrow> bool" where
  "lru_abs nf P ps \<longleftrightarrow>
     (\<exists>ns. dll_rep (dll P) ns \<and> ps = map (node_key (dll P)) ns \<and> inj_on (node_key (dll P)) (set ns) \<and>
           hash_ok nf (hashT P) (node_map (node_key (dll P)) ns))"

lemma lru_abs_distinct: "lru_abs nf P ps \<Longrightarrow> distinct ps \<and> dcount (dll P) = length ps"
  by (auto simp: lru_abs_def dll_rep_def distinct_map)

lemma lru_admit_ok:
  assumes abs: "lru_abs nf P ps" and k: "k \<notin> set ps" and al: "good_allocs al"
  shows "\<exists>P'. lru_admit al nf k P = Inr P' \<and> lru_abs nf P' (k # ps)"
proof -
  obtain ns where ns: "dll_rep (dll P) ns" "ps = map (node_key (dll P)) ns" "inj_on (node_key (dll P)) (set ns)"
      "hash_ok nf (hashT P) (node_map (node_key (dll P)) ns)"
    using abs by (auto simp: lru_abs_def)
  obtain x d where d: "createdllListNode (al_dll al) k (dll P) = Inr (x, d)" "dll_rep d (x # ns)" "node_key d x = k"
      "\<And>q. q \<in> set ns \<Longrightarrow> node_key d q = node_key (dll P) q"
    using create_dll_ok [OF ns(1) good_allocsD(2) [OF al], of k] by blast
  have kn: "k \<notin> node_key (dll P) ` set ns" using k ns(2) by auto
  then have none: "node_map (node_key (dll P)) ns k = None" by (simp add: node_map_None)
  obtain h where h: "insertHashNode (al_hash al) nf k x (hashT P) = Inr h"
      "hash_ok nf h ((node_map (node_key (dll P)) ns)(k \<mapsto> x))"
    using insert_hash_ok [OF ns(4) none good_allocsD(1) [OF al], of x] by blast
  have m: "node_map (node_key d) (x # ns) = (node_map (node_key (dll P)) ns)(k \<mapsto> x)" "inj_on (node_key d) (set (x # ns))"
    using node_map_add [OF ns(3) _ d(4), of x] kn unfolding d(3) by blast+
  have "k # ps = map (node_key d) (x # ns)" using ns(2) d(3,4) by simp
  then have "lru_abs nf (P\<lparr>dll := d, hashT := h\<rparr>) (k # ps)"
    unfolding lru_abs_def using d(2) m h(2) by (intro exI [of _ "x # ns"]) simp
  then show ?thesis using d(1) h(1) by (simp add: lru_admit_def)
qed

lemma lru_drop_last_ok:
  assumes abs: "lru_abs nf P (ps @ [k])"
  shows "lru_evict nf P = ffifo_evict nf P" "\<exists>P'. ffifo_evict nf P = Inr (k, P') \<and> lru_abs nf P' ps"
proof -
  obtain ns' where ns': "dll_rep (dll P) ns'" "ps @ [k] = map (node_key (dll P)) ns'" "inj_on (node_key (dll P)) (set ns')"
      "hash_ok nf (hashT P) (node_map (node_key (dll P)) ns')"
    using abs by (auto simp: lru_abs_def)
  obtain ns x where ns: "ns' = ns @ [x]" "ps = map (node_key (dll P)) ns" "node_key (dll P) x = k"
    using ns'(2) by (cases ns' rule: rev_cases) auto
  have rep: "dll_rep (dll P) (ns @ x # [])" using ns'(1) ns(1) by simp
  obtain n where n: "x \<noteq> 0" "dnodes (dll P) x = Some n" "dkey n = k" using dll_rep_node [OF rep] ns(3) by auto
  have tail: "dtail (dll P) = x" using rep by (simp add: dll_rep_def)
  obtain h where h: "deleteHashNode nf k (hashT P) = Inr h" "hash_ok nf h ((node_map (node_key (dll P)) ns')(k := None))"
    using delete_hash_ok [OF ns'(4)] .
  obtain d where d: "deletedllListNode x (dll P) = Inr d" "dll_rep d ns" "\<And>q. q \<in> set ns \<Longrightarrow> node_key d q = node_key (dll P) q"
    using delete_dll_ok [OF rep] by (metis append_Nil2)
  have del: "set ns = set ns' - {x}" "x \<in> set ns'" using ns(1) rep by (auto simp: dll_rep_def)
  have m: "node_map (node_key d) ns = (node_map (node_key (dll P)) ns')(k := None)" "inj_on (node_key d) (set ns)"
    using node_map_del [OF ns'(3) del(2,1) d(3)] unfolding ns(3) by blast+
  show "lru_evict nf P = ffifo_evict nf P" using tail n(1) by (simp add: lru_evict_def deleteLRU_def ffifo_evict_def)
  have "ps = map (node_key d) ns" using ns(2) d(3) by simp
  then have "lru_abs nf (P\<lparr>hashT := h, dll := d\<rparr>) ps"
    unfolding lru_abs_def using d(2) m h(2) by (intro exI [of _ ns]) simp
  then show "\<exists>P'. ffifo_evict nf P = Inr (k, P') \<and> lru_abs nf P' ps"
    using tail n h(1) d(1) by (simp add: ffifo_evict_def)
qed

lemma lru_touch_ok:
  assumes abs: "lru_abs nf P (ps @ k # qs)"
  shows "\<exists>P'. lru_touch nf k P = Inr P' \<and> lru_abs nf P' (k # ps @ qs)"
proof -
  obtain ns' where ns': "dll_rep (dll P) ns'" "ps @ k # qs = map (node_key (dll P)) ns'" "inj_on (node_key (dll P)) (set ns')"
      "hash_ok nf (hashT P) (node_map (node_key (dll P)) ns')"
    using abs by (auto simp: lru_abs_def)
  obtain ns x ms where ns: "ns' = ns @ x # ms" "ps = map (node_key (dll P)) ns" "node_key (dll P) x = k" "qs = map (node_key (dll P)) ms"
    using ns'(2) by (auto simp: append_eq_map_conv Cons_eq_map_conv)
  have rep: "dll_rep (dll P) (ns @ x # ms)" using ns'(1) ns(1) by simp
  have "getHashNode nf k (hashT P) = Inr x"
    using get_hash_ok [OF ns'(4)] node_map_Some [OF ns'(3), of k x] ns by simp
  moreover obtain d where d: "moveListNodeToFront x (dll P) = Inr d" "dll_rep d (x # ns @ ms)"
      "\<And>q. q \<in> set (ns @ x # ms) \<Longrightarrow> node_key d q = node_key (dll P) q"
    using move_dll_ok [OF rep] by blast
  moreover have "node_map (node_key d) (x # ns @ ms) = node_map (node_key (dll P)) ns'" "inj_on (node_key d) (set (x # ns @ ms))"
    using node_map_same [OF ns'(3), of "x # ns @ ms" "node_key d"] d(3) ns(1) by auto
  moreover have "k # ps @ qs = map (node_key d) (x # ns @ ms)" using ns d(3) by simp
  ultimately have "lru_abs nf (P\<lparr>dll := d\<rparr>) (k # ps @ qs)"
    unfolding lru_abs_def using ns'(4) by (intro exI [of _ "x # ns @ ms"]) simp
  then show ?thesis using \<open>getHashNode nf k (hashT P) = Inr x\<close> d(1) by (simp add: lru_touch_def)
qed

section \<open>LFU\<close>

definition lfu_size :: "pol_state \<Rightarrow> nat" where
  "lfu_size P = qcount (freq P)"

definition lfu_admit :: "allocs \<Rightarrow> nat \<Rightarrow> nat \<Rightarrow> pol_state \<Rightarrow> pol_state res" where
  "lfu_admit al nf k P =
     bindE (createlfuListNode (al_lfu al) (al_freq al) k (freq P)) (\<lambda>(node, q).
     bindE (insertHashNode (al_hash al) nf k node (hashT P)) (\<lambda>h. Inr (P\<lparr>freq := q, hashT := h\<rparr>)))"

definition lfu_evict :: "nat \<Rightarrow> pol_state \<Rightarrow> (nat \<times> pol_state) res" where
  "lfu_evict nf P = deleteLFU nf 0 P"

definition lfu_touch :: "allocs \<Rightarrow> nat \<Rightarrow> nat \<Rightarrow> pol_state \<Rightarrow> pol_state res" where
  "lfu_touch al nf k P =
     bindE (getHashNode nf k (hashT P)) (\<lambda>node.
     bindE (moveNodeToNextFreq (al_freq al) node (freq P)) (\<lambda>q. Inr (P\<lparr>freq := q\<rparr>)))"

text \<open>
  The specification of LFU: the pages by use count, ascending, each count with its pages, the most
  recent first. A new page has use count 0; a use moves a page to the next count; the victim is the
  least recent page of the lowest count.
\<close>

type_synonym lfu_view = "(nat \<times> nat list) list"

fun spec_admit :: "nat \<Rightarrow> lfu_view \<Rightarrow> lfu_view" where
  "spec_admit k ((0, ks) # gs) = (0, k # ks) # gs"
| "spec_admit k gs = (0, [k]) # gs"

fun spec_join :: "nat \<Rightarrow> nat \<Rightarrow> lfu_view \<Rightarrow> lfu_view" where
  "spec_join k c ((c', ks) # gs) = (if c' = c then (c, k # ks) # gs else (c, [k]) # (c', ks) # gs)"
| "spec_join k c [] = [(c, [k])]"

fun spec_touch :: "nat \<Rightarrow> lfu_view \<Rightarrow> lfu_view" where
  "spec_touch k [] = []"
| "spec_touch k ((c, ks) # gs) =
     (if k \<in> set ks
      then (if remove1 k ks = [] then [] else [(c, remove1 k ks)]) @ spec_join k (c + 1) gs
      else (c, ks) # spec_touch k gs)"

fun spec_evict :: "lfu_view \<Rightarrow> (nat \<times> lfu_view) option" where
  "spec_evict [] = None"
| "spec_evict ((c, ks) # gs) = Some (last ks, (if butlast ks = [] then [] else [(c, butlast ks)]) @ gs)"

definition view_of :: "freqList \<Rightarrow> group list \<Rightarrow> lfu_view" where
  "view_of q gs = map (\<lambda>g. (g_use g, map (lfu_key q) (g_nodes g))) gs"

definition lfu_abs :: "nat \<Rightarrow> pol_state \<Rightarrow> lfu_view \<Rightarrow> bool" where
  "lfu_abs nf P vw \<longleftrightarrow>
     (\<exists>gs. lfu_rep (freq P) gs \<and> vw = view_of (freq P) gs \<and> inj_on (lfu_key (freq P)) (set (all_nodes gs)) \<and>
           hash_ok nf (hashT P) (node_map (lfu_key (freq P)) (all_nodes gs)))"

definition view_pages :: "lfu_view \<Rightarrow> nat list" where
  "view_pages vw = concat (map snd vw)"

lemma view_of_simps [simp]:
  "view_of q [] = []" "view_of q (g # gs) = (g_use g, map (lfu_key q) (g_nodes g)) # view_of q gs"
  "view_of q (gs @ gs') = view_of q gs @ view_of q gs'"
  by (simp_all add: view_of_def)

lemma view_pages_of: "view_pages (view_of q gs) = map (lfu_key q) (all_nodes gs)"
  by (induction gs) (auto simp: view_pages_def)

lemma view_of_cong:
  "(\<And>x. x \<in> set (all_nodes gs) \<Longrightarrow> lfu_key q' x = lfu_key q x) \<Longrightarrow> view_of q' gs = view_of q gs"
  by (induction gs) auto

lemma lfu_rep_keys:
  assumes "lfu_rep q gs" "\<And>r. r \<notin> N \<Longrightarrow> map_option lkey (lnodes q' r) = map_option lkey (lnodes q r)"
    and "x \<in> set (all_nodes gs)" "x \<notin> N"
  shows "lfu_key q' x = lfu_key q x"
proof -
  have "x \<in> dom (lnodes q)" using assms(1,3) by (simp add: lfu_rep_def)
  then show ?thesis using assms(2) [OF assms(4)] by (cases "lnodes q' x"; cases "lnodes q x") (auto simp: lfu_key_def)
qed

lemma lfu_admit_abs:
  assumes gs: "lfu_rep (freq P) gs" "inj_on (lfu_key (freq P)) (set (all_nodes gs))"
      "hash_ok nf (hashT P) (node_map (lfu_key (freq P)) (all_nodes gs))" and al: "good_allocs al"
    and k: "k \<notin> lfu_key (freq P) ` set (all_nodes gs)"
    and new: "createlfuListNode (al_lfu al) (al_freq al) k (freq P) = Inr (p, q)" "lfu_rep q gs'" "lfu_key q p = k"
      "all_nodes gs' = p # all_nodes gs" "\<And>x. x \<in> set (all_nodes gs) \<Longrightarrow> lfu_key q x = lfu_key (freq P) x"
  shows "\<exists>P'. lfu_admit al nf k P = Inr P' \<and> lfu_abs nf P' (view_of q gs')"
proof -
  have none: "node_map (lfu_key (freq P)) (all_nodes gs) k = None" using k by (simp add: node_map_None)
  obtain h where h: "insertHashNode (al_hash al) nf k p (hashT P) = Inr h"
      "hash_ok nf h ((node_map (lfu_key (freq P)) (all_nodes gs))(k \<mapsto> p))"
    using insert_hash_ok [OF gs(3) none good_allocsD(1) [OF al], of p] by blast
  have m: "node_map (lfu_key q) (p # all_nodes gs) = (node_map (lfu_key (freq P)) (all_nodes gs))(k \<mapsto> p)"
      "inj_on (lfu_key q) (set (p # all_nodes gs))"
    using node_map_add [OF gs(2) _ new(5), of p] k unfolding new(3) by blast+
  have "lfu_abs nf (P\<lparr>freq := q, hashT := h\<rparr>) (view_of q gs')"
    unfolding lfu_abs_def using new(2,4) h(2) m by (intro exI [of _ gs']) simp
  then show ?thesis using new(1) h(1) by (simp add: lfu_admit_def)
qed

lemma lfu_admit_ok:
  assumes abs: "lfu_abs nf P vw" and k: "k \<notin> set (view_pages vw)" and al: "good_allocs al"
  shows "\<exists>P'. lfu_admit al nf k P = Inr P' \<and> lfu_abs nf P' (spec_admit k vw)"
proof -
  obtain gs where gs: "lfu_rep (freq P) gs" "vw = view_of (freq P) gs" "inj_on (lfu_key (freq P)) (set (all_nodes gs))"
      "hash_ok nf (hashT P) (node_map (lfu_key (freq P)) (all_nodes gs))"
    using abs by (auto simp: lfu_abs_def)
  have kn: "k \<notin> lfu_key (freq P) ` set (all_nodes gs)" using k gs(2) by (simp add: view_pages_of)
  note admit = lfu_admit_abs [OF gs(1,3,4) al kn]
  show ?thesis
  proof (cases "\<exists>f ns bs. gs = (f, 0, ns) # bs")
    case True
    then obtain f ns bs where g: "gs = (f, 0, ns) # bs" by auto
    obtain p q where q: "createlfuListNode (al_lfu al) (al_freq al) k (freq P) = Inr (p, q)" "lfu_rep q ((f, 0, p # ns) # bs)"
        "p \<notin> set (all_nodes gs)" "lfu_key q p = k" "\<And>r. r \<noteq> p \<Longrightarrow> map_option lkey (lnodes q r) = map_option lkey (lnodes (freq P) r)"
      using create_join_ok [OF gs(1) [unfolded g] good_allocsD(3) [OF al], of "al_freq al" k] unfolding g by blast
    have keys: "lfu_key q x = lfu_key (freq P) x" if "x \<in> set (all_nodes gs)" for x
      using lfu_rep_keys [OF gs(1), of "{p}" q x] q(3,5) that by auto
    have "view_of q ((f, 0, p # ns) # bs) = spec_admit k vw"
      using gs(2) g q(4) keys view_of_cong [of bs q "freq P"] by auto
    then show ?thesis using admit [OF q(1,2,4) _ keys] g by simp
  next
    case False
    obtain b where ok: "groups_ok (fnodes (freq P)) (lnodes (freq P)) b gs" using gs(1) by (auto simp: lfu_rep_def)
    have first: "\<forall>g\<in>set gs. 0 < g_use g"
    proof (cases gs)
      case (Cons g gs')
      then have "0 < g_use g" using False by (cases g) auto
      then show ?thesis using ok Cons by (auto simp: groups_ok_def)
    qed simp
    obtain p f q where q: "createlfuListNode (al_lfu al) (al_freq al) k (freq P) = Inr (p, q)" "lfu_rep q ((f, 0, [p]) # gs)"
        "p \<notin> set (all_nodes gs)" "lfu_key q p = k" "\<And>r. r \<noteq> p \<Longrightarrow> map_option lkey (lnodes q r) = map_option lkey (lnodes (freq P) r)"
      using create_open_ok [OF gs(1) good_allocsD(3,4) [OF al] first, of k] by blast
    have keys: "lfu_key q x = lfu_key (freq P) x" if "x \<in> set (all_nodes gs)" for x
      using lfu_rep_keys [OF gs(1), of "{p}" q x] q(3,5) that by auto
    have "spec_admit k vw = (0, [k]) # vw" using gs(2) first by (cases gs) (auto simp: gr0_conv_Suc)
    then have "view_of q ((f, 0, [p]) # gs) = spec_admit k vw"
      using gs(2) q(4) view_of_cong [OF keys] by simp
    then show ?thesis using admit [OF q(1,2,4) _ keys] by simp
  qed
qed

lemma spec_touch_skip:
  "k \<notin> set (view_pages vw) \<Longrightarrow> spec_touch k (vw @ vw') = vw @ spec_touch k vw'"
  by (induction vw) (auto simp: view_pages_def)

lemma lfu_touch_ok:
  assumes abs: "lfu_abs nf P vw" and k: "k \<in> set (view_pages vw)" and al: "good_allocs al"
  shows "\<exists>P'. lfu_touch al nf k P = Inr P' \<and> lfu_abs nf P' (spec_touch k vw)"
proof -
  let ?key = "lfu_key (freq P)"
  obtain gs where gs: "lfu_rep (freq P) gs" "vw = view_of (freq P) gs" "inj_on ?key (set (all_nodes gs))"
      "hash_ok nf (hashT P) (node_map ?key (all_nodes gs))"
    using abs by (auto simp: lfu_abs_def)
  obtain x where x: "x \<in> set (all_nodes gs)" "?key x = k" using k gs(2) by (auto simp: view_pages_of)
  obtain g where g: "g \<in> set gs" "x \<in> set (g_nodes g)" using x(1) by (auto simp: all_nodes_def)
  obtain as bs where ab: "gs = as @ g # bs" using split_list [OF g(1)] by blast
  obtain xs ys where xy: "g_nodes g = xs @ x # ys" using split_list [OF g(2)] by blast
  obtain f c where fc: "g = (f, c, xs @ x # ys)" using xy by (cases g) auto
  have rep: "lfu_rep (freq P) (as @ (f, c, xs @ x # ys) # bs)" using gs(1) ab fc by simp
  have dist: "distinct (all_nodes gs)" using gs(1) by (auto simp: lfu_rep_def groups_ok_def)
  obtain q f2 zs bs' where q: "moveNodeToNextFreq (al_freq al) x (freq P) = Inr q"
      "bs = (f2, c + 1, zs) # bs' \<or> zs = [] \<and> bs = bs'"
      "lfu_rep q (as @ (if xs @ ys = [] then [] else [(f, c, xs @ ys)]) @ (f2, c + 1, x # zs) # bs')"
      "\<And>r. map_option lkey (lnodes q r) = map_option lkey (lnodes (freq P) r)"
    using move_lfu_ok [OF rep good_allocsD(4) [OF al]] by blast
  let ?gs' = "as @ (if xs @ ys = [] then [] else [(f, c, xs @ ys)]) @ (f2, c + 1, x # zs) # bs'"
  have nodes: "set (all_nodes ?gs') = set (all_nodes gs)" using q(2) ab fc by auto
  have keys: "lfu_key q y = ?key y" if "y \<in> set (all_nodes gs)" for y
    using lfu_rep_keys [OF gs(1), of "{}" q y] q(4) that by auto
  have m: "node_map (lfu_key q) (all_nodes ?gs') = node_map ?key (all_nodes gs)" "inj_on (lfu_key q) (set (all_nodes ?gs'))"
    using node_map_same [OF gs(3) nodes keys] by simp_all
  have "view_of q ?gs' = view_of (freq P) ?gs'" using keys nodes by (intro view_of_cong) simp
  also have "\<dots> = spec_touch k vw"
  proof -
    have other: "?key y \<noteq> k" if "y \<in> set (all_nodes as @ xs @ ys @ all_nodes bs)" for y
    proof
      assume "?key y = k"
      then have "y = x" using gs(3) x that ab fc by (auto simp: inj_on_def)
      then show False using that dist ab fc by auto
    qed
    have as': "k \<notin> set (view_pages (view_of (freq P) as))" using other by (auto simp: view_pages_of)
    have rm: "remove1 k (map ?key xs @ k # map ?key ys) = map ?key (xs @ ys)"
      using other by (auto simp: remove1_append)
    have join: "spec_join k (c + 1) (view_of (freq P) bs) = view_of (freq P) ((f2, c + 1, x # zs) # bs')"
      using q(2)
    proof
      assume bs: "zs = [] \<and> bs = bs'"
      show ?thesis
      proof (cases bs)
        case (Cons g2 bs2)
        have "g_use g2 \<noteq> c + 1" using q(3) Cons bs by (auto simp: lfu_rep_def groups_ok_def sorted_wrt_append)
        then show ?thesis using Cons bs x(2) by simp
      qed (use bs x(2) in simp)
    qed (use x(2) in simp)
    show ?thesis unfolding gs(2) ab fc
      using spec_touch_skip [OF as'] rm join x(2) by auto
  qed
  finally have "view_of q ?gs' = spec_touch k vw" .
  moreover have "getHashNode nf k (hashT P) = Inr x"
    using get_hash_ok [OF gs(4)] node_map_Some [OF gs(3), of k x] x by simp
  moreover have "lfu_abs nf (P\<lparr>freq := q\<rparr>) (view_of q ?gs')"
    unfolding lfu_abs_def using q(3) m gs(4) by (intro exI [of _ ?gs']) simp
  ultimately show ?thesis using q(1) by (simp add: lfu_touch_def)
qed

lemma lfu_evict_ok:
  assumes abs: "lfu_abs nf P vw" and ne: "view_pages vw \<noteq> []"
  shows "\<exists>k P' vw'. spec_evict vw = Some (k, vw') \<and> lfu_evict nf P = Inr (k, P') \<and> lfu_abs nf P' vw'"
proof -
  let ?key = "lfu_key (freq P)"
  obtain gs where gs: "lfu_rep (freq P) gs" "vw = view_of (freq P) gs" "inj_on ?key (set (all_nodes gs))"
      "hash_ok nf (hashT P) (node_map ?key (all_nodes gs))"
    using abs by (auto simp: lfu_abs_def)
  have "gs \<noteq> []" using ne gs(2) by (auto simp: view_pages_def)
  then obtain f c ns bs where g: "gs = (f, c, ns) # bs" by (cases gs) auto
  have "ns \<noteq> []" using gs(1) g by (auto simp: lfu_rep_def)
  then obtain xs x where ns: "ns = xs @ [x]" by (cases ns rule: rev_cases) auto
  have rep: "lfu_rep (freq P) ((f, c, xs @ x # []) # bs)" using gs(1) g ns by simp
  have dist: "distinct (all_nodes gs)" and ok: "group_ok (fnodes (freq P)) (lnodes (freq P)) (f, c, ns)" and head: "qhead (freq P) = f" "f \<noteq> 0"
    using gs(1) g by (auto simp: lfu_rep_def groups_ok_def)
  obtain fn where fn: "fnodes (freq P) f = Some fn" "ftail fn = x" using ok ns by (auto simp: group_ok_def)
  obtain n where n: "x \<noteq> 0" "lnodes (freq P) x = Some n" using group_node [OF ok, of x] ns by auto
  have key: "?key x = lkey n" using n by (simp add: lfu_key_def)
  obtain q where q: "deletelfuListNode x (freq P) = Inr q"
      "lfu_rep q ((if xs @ [] = [] then [] else [(f, c, xs @ [])]) @ bs)"
      "\<And>r. r \<noteq> x \<Longrightarrow> map_option lkey (lnodes q r) = map_option lkey (lnodes (freq P) r)"
    using delete_lfu_ok [OF rep] by blast
  obtain h where h: "deleteHashNode nf (lkey n) (hashT P) = Inr h" "hash_ok nf h ((node_map ?key (all_nodes gs))(?key x := None))"
    using delete_hash_ok [OF gs(4), of "lkey n"] key by metis
  let ?gs' = "(if xs = [] then [] else [(f, c, xs)]) @ bs"
  have nodes: "set (all_nodes ?gs') = set (all_nodes gs) - {x}" "x \<in> set (all_nodes gs)" using dist g ns by auto
  have keys: "lfu_key q y = ?key y" if "y \<in> set (all_nodes ?gs')" for y
    using lfu_rep_keys [OF gs(1), of "{x}" q y] q(3) that nodes(1) by auto
  have m: "node_map (lfu_key q) (all_nodes ?gs') = (node_map ?key (all_nodes gs))(?key x := None)" "inj_on (lfu_key q) (set (all_nodes ?gs'))"
    using node_map_del [OF gs(3) nodes(2,1) keys] by simp_all
  have "lfu_abs nf (P\<lparr>hashT := h, freq := q\<rparr>) (view_of q ?gs')"
    unfolding lfu_abs_def using q(2) [unfolded append_Nil2] m h(2) by (intro exI [of _ ?gs']) simp
  moreover have "view_of q ?gs' = view_of (freq P) ?gs'" using keys by (intro view_of_cong) simp
  moreover have "spec_evict vw = Some (lkey n, view_of (freq P) ?gs')"
    using gs(2) g ns key by simp
  moreover have "lfu_evict nf P = Inr (lkey n, P\<lparr>hashT := h, freq := q\<rparr>)"
    using head fn n h(1) q(1) by (simp add: lfu_evict_def deleteLFU_def)
  ultimately show ?thesis by auto
qed

section \<open>The three policies as replacements\<close>

definition lru_inv :: "allocs \<Rightarrow> nat \<Rightarrow> pol_state \<Rightarrow> nat set \<Rightarrow> bool" where
  "lru_inv al nf P A \<longleftrightarrow> good_allocs al \<and> (\<exists>ps. lru_abs nf P ps \<and> set ps = A)"

definition lfu_inv :: "allocs \<Rightarrow> nat \<Rightarrow> pol_state \<Rightarrow> nat set \<Rightarrow> bool" where
  "lfu_inv al nf P A \<longleftrightarrow> good_allocs al \<and> (\<exists>vw. lfu_abs nf P vw \<and> set (view_pages vw) = A)"

lemma view_pages_simps [simp]:
  "view_pages [] = []" "view_pages (g # vw) = snd g @ view_pages vw" "view_pages (vw @ vw') = view_pages vw @ view_pages vw'"
  by (simp_all add: view_pages_def)

lemma lfu_abs_distinct: "lfu_abs nf P vw \<Longrightarrow> distinct (view_pages vw) \<and> qcount (freq P) = length (view_pages vw)"
  by (auto simp: lfu_abs_def lfu_rep_def groups_ok_def view_pages_of distinct_map)

lemma spec_admit_pages: "set (view_pages (spec_admit k vw)) = insert k (set (view_pages vw))"
  by (induction k vw rule: spec_admit.induct) auto

lemma spec_join_pages: "set (view_pages (spec_join k c vw)) = insert k (set (view_pages vw))"
  by (cases "(k, c, vw)" rule: spec_join.cases) auto

lemma spec_touch_pages: "k \<in> set (view_pages vw) \<Longrightarrow> distinct (view_pages vw) \<Longrightarrow> set (view_pages (spec_touch k vw)) = set (view_pages vw)"
proof (induction vw)
  case (Cons g vw)
  obtain c ks where g: "g = (c, ks)" by (cases g)
  show ?case
  proof (cases "k \<in> set ks")
    case True
    have rm: "set (view_pages (if remove1 k ks = [] then [] else [(c, remove1 k ks)])) = set ks - {k}"
      using Cons.prems(2) g set_remove1_eq [of ks k] by (auto simp flip: set_empty)
    show ?thesis unfolding g using True rm by (simp add: spec_join_pages) blast
  next
    case False
    then show ?thesis using Cons g by auto
  qed
qed simp

lemma spec_evict_pages:
  assumes "spec_evict vw = Some (k, vw')" "distinct (view_pages vw)" "\<forall>g\<in>set vw. snd g \<noteq> []"
  shows "k \<in> set (view_pages vw) \<and> set (view_pages vw') = set (view_pages vw) - {k}"
proof (cases vw)
  case (Cons g gs)
  obtain c ks where g: "g = (c, ks)" by (cases g)
  then have "ks \<noteq> []" using assms(3) Cons by auto
  then obtain xs x where ks: "ks = xs @ [x]" by (cases ks rule: rev_cases) auto
  show ?thesis using assms(1,2) Cons g ks by (cases "xs = []") auto
qed (use assms in simp)

lemma lfu_abs_nonempty: "lfu_abs nf P vw \<Longrightarrow> \<forall>g\<in>set vw. snd g \<noteq> []"
  by (auto simp: lfu_abs_def lfu_rep_def view_of_def)

interpretation lru: replacement lru_size "lru_admit al nf" "lru_touch nf" "lru_evict nf" "lru_inv al nf" for al nf
proof
  fix P A k assume inv: "lru_inv al nf P A"
  then obtain ps where ps: "lru_abs nf P ps" "set ps = A" "good_allocs al" by (auto simp: lru_inv_def)
  show "finite A \<and> lru_size P = card A"
    using lru_abs_distinct [OF ps(1)] ps(2) distinct_card [of ps] by (auto simp: lru_size_def)
  show "\<exists>P'. lru_admit al nf k P = Inr P' \<and> lru_inv al nf P' (insert k A)" if "k \<notin> A"
    using lru_admit_ok [OF ps(1) _ ps(3), of k] that ps by (auto simp: lru_inv_def intro!: exI [of _ "k # ps"])
  show "\<exists>v P'. lru_evict nf P = Inr (v, P') \<and> v \<in> A \<and> lru_inv al nf P' (A - {v})" if ne: "A \<noteq> {}"
  proof -
    obtain qs v where v: "ps = qs @ [v]" using ne ps(2) by (cases ps rule: rev_cases) auto
    obtain P' where "lru_evict nf P = Inr (v, P')" "lru_abs nf P' qs" using lru_drop_last_ok [OF ps(1) [unfolded v]] by auto
    moreover have "set qs = A - {v}" "v \<in> A" using ps(2) v lru_abs_distinct [OF ps(1)] by auto
    ultimately show ?thesis using ps(3) by (auto simp: lru_inv_def)
  qed
  show "\<exists>P'. lru_touch nf k P = Inr P' \<and> lru_inv al nf P' A" if kA: "k \<in> A"
  proof -
    obtain qs rs where k: "ps = qs @ k # rs" using split_list [of k ps] kA ps(2) by blast
    then show ?thesis using lru_touch_ok [OF ps(1) [unfolded k]] ps(2,3) by (auto simp: lru_inv_def intro!: exI [of _ "k # qs @ rs"])
  qed
qed

interpretation ffifo: replacement lru_size "lru_admit al nf" "\<lambda>k P. Inr P" "ffifo_evict nf" "lru_inv al nf" for al nf
proof
  fix P A k assume inv: "lru_inv al nf P A"
  show "finite A \<and> lru_size P = card A" by (rule lru.size_ok [OF inv])
  show "\<exists>P'. lru_admit al nf k P = Inr P' \<and> lru_inv al nf P' (insert k A)" if "k \<notin> A" by (rule lru.admit_ok [OF inv that])
  show "\<exists>v P'. ffifo_evict nf P = Inr (v, P') \<and> v \<in> A \<and> lru_inv al nf P' (A - {v})" if ne: "A \<noteq> {}"
  proof -
    obtain ps where ps: "lru_abs nf P ps" "set ps = A" using inv by (auto simp: lru_inv_def)
    obtain qs v where v: "ps = qs @ [v]" using ne ps(2) by (cases ps rule: rev_cases) auto
    show ?thesis using lru.evict_ok [OF inv ne] unfolding lru_drop_last_ok(1) [OF ps(1) [unfolded v]] .
  qed
qed simp

interpretation lfu: replacement lfu_size "lfu_admit al nf" "lfu_touch al nf" "lfu_evict nf" "lfu_inv al nf" for al nf
proof
  fix P A k assume inv: "lfu_inv al nf P A"
  then obtain vw where vw: "lfu_abs nf P vw" "set (view_pages vw) = A" "good_allocs al" by (auto simp: lfu_inv_def)
  note dist = lfu_abs_distinct [OF vw(1)]
  show "finite A \<and> lfu_size P = card A"
    using dist vw(2) distinct_card [of "view_pages vw"] by (auto simp: lfu_size_def)
  show "\<exists>P'. lfu_admit al nf k P = Inr P' \<and> lfu_inv al nf P' (insert k A)" if "k \<notin> A"
    using lfu_admit_ok [OF vw(1) _ vw(3), of k] that vw spec_admit_pages [of k vw] by (auto simp: lfu_inv_def)
  show "\<exists>v P'. lfu_evict nf P = Inr (v, P') \<and> v \<in> A \<and> lfu_inv al nf P' (A - {v})" if "A \<noteq> {}"
    using lfu_evict_ok [OF vw(1)] that vw spec_evict_pages [OF _ conjunct1 [OF dist] lfu_abs_nonempty [OF vw(1)]]
    by (fastforce simp: lfu_inv_def)
  show "\<exists>P'. lfu_touch al nf k P = Inr P' \<and> lfu_inv al nf P' A" if "k \<in> A"
    using lfu_touch_ok [OF vw(1) _ vw(3), of k] that vw spec_touch_pages [of k vw] dist by (auto simp: lfu_inv_def)
qed

section \<open>The order of eviction\<close>

text \<open>
  What \<^verbatim>\<open>init_virtual_memory\<close> and \<^verbatim>\<open>init_vmem_thread\<close> allocate for a policy, from the globals of
  the file, which are zero.
\<close>

definition no_policy :: pol_state where
  "no_policy = \<lparr>frameState = [], framePage = [], hashT = new_hashTable 0, dll = new_dllList, freq = new_freqList, rcount = 0\<rparr>"

fun init_policy :: "policy \<Rightarrow> nat \<Rightarrow> pol_state" where
  "init_policy FIFO nf = no_policy\<lparr>frameState := replicate nf 0, framePage := replicate nf 0\<rparr>"
| "init_policy LRU nf = no_policy\<lparr>hashT := new_hashTable nf, dll := new_dllList\<rparr>"
| "init_policy LFU nf = no_policy\<lparr>hashT := new_hashTable nf, freq := new_freqList\<rparr>"
| "init_policy RAND nf = no_policy\<lparr>hashT := new_hashTable nf\<rparr>"
| "init_policy FFIFO nf = no_policy\<lparr>hashT := new_hashTable nf, dll := new_dllList\<rparr>"

datatype pol_op = Admit nat | Touch nat | Evict

fun run_policy ::
  "(nat \<Rightarrow> pol_state \<Rightarrow> pol_state res) \<Rightarrow> (nat \<Rightarrow> pol_state \<Rightarrow> pol_state res) \<Rightarrow> (pol_state \<Rightarrow> (nat \<times> pol_state) res) \<Rightarrow>
     pol_op list \<Rightarrow> pol_state \<Rightarrow> (nat list \<times> pol_state) res" where
  "run_policy admit touch evict [] P = Inr ([], P)"
| "run_policy admit touch evict (Admit k # ops) P = bindE (admit k P) (run_policy admit touch evict ops)"
| "run_policy admit touch evict (Touch k # ops) P = bindE (touch k P) (run_policy admit touch evict ops)"
| "run_policy admit touch evict (Evict # ops) P =
     bindE (evict P) (\<lambda>(v, P'). bindE (run_policy admit touch evict ops P') (\<lambda>(vs, P''). Inr (v # vs, P'')))"

text \<open>
  The specifications: a list of pages, the most recently used first; and the pages by use count.
  They give the victims in order, and nothing for a sequence that a fault handler never issues.
\<close>

fun recency :: "pol_op list \<Rightarrow> nat list \<Rightarrow> (nat list \<times> nat list) option" where
  "recency [] ps = Some ([], ps)"
| "recency (Admit k # ops) ps = (if k \<in> set ps then None else recency ops (k # ps))"
| "recency (Touch k # ops) ps = (if k \<in> set ps then recency ops (k # remove1 k ps) else None)"
| "recency (Evict # ops) ps =
     (if ps = [] then None else map_option (apfst (Cons (last ps))) (recency ops (butlast ps)))"

fun frequency :: "pol_op list \<Rightarrow> lfu_view \<Rightarrow> (nat list \<times> lfu_view) option" where
  "frequency [] vw = Some ([], vw)"
| "frequency (Admit k # ops) vw = (if k \<in> set (view_pages vw) then None else frequency ops (spec_admit k vw))"
| "frequency (Touch k # ops) vw = (if k \<in> set (view_pages vw) then frequency ops (spec_touch k vw) else None)"
| "frequency (Evict # ops) vw =
     (case spec_evict vw of None \<Rightarrow> None | Some (v, vw') \<Rightarrow> map_option (apfst (Cons v)) (frequency ops vw'))"

lemma lru_abs_new: "0 < nf \<Longrightarrow> lru_abs nf (init_policy LRU nf) []"
  using new_hash_ok [of nf] by (auto simp: lru_abs_def node_map_def dll_rep_def new_dllList_def no_policy_def)

lemma lfu_abs_new: "0 < nf \<Longrightarrow> lfu_abs nf (init_policy LFU nf) []"
  using new_hash_ok [of nf] new_lfu_rep by (auto simp: lfu_abs_def node_map_def no_policy_def intro!: exI [of _ "[]"])

lemma lru_run_ok:
  assumes "good_allocs al" "lru_abs nf P ps" "recency ops ps = Some (vs, qs)"
  shows "\<exists>P'. run_policy (lru_admit al nf) (lru_touch nf) (lru_evict nf) ops P = Inr (vs, P') \<and> lru_abs nf P' qs"
  using assms(2,3)
proof (induction ops ps arbitrary: P vs rule: recency.induct)
  case (2 k ops ps)
  then have k: "k \<notin> set ps" "recency ops (k # ps) = Some (vs, qs)" by (auto split: if_splits)
  obtain P1 where "lru_admit al nf k P = Inr P1" "lru_abs nf P1 (k # ps)" using lru_admit_ok [OF 2(2) k(1) assms(1)] by auto
  then show ?case using 2(1) [OF k(1) _ k(2)] by simp
next
  case (3 k ops ps)
  then have k: "k \<in> set ps" "recency ops (k # remove1 k ps) = Some (vs, qs)" by (auto split: if_splits)
  obtain xs ys where xy: "ps = xs @ k # ys" "k \<notin> set xs" using split_list_first [OF k(1)] by blast
  obtain P1 where "lru_touch nf k P = Inr P1" "lru_abs nf P1 (k # remove1 k ps)"
    using lru_touch_ok [of nf P xs k ys] 3(2) xy by (auto simp: remove1_append)
  then show ?case using 3(1) [OF k(1) _ k(2)] by simp
next
  case (4 ops ps)
  then obtain vs' where v: "ps \<noteq> []" "recency ops (butlast ps) = Some (vs', qs)" "vs = last ps # vs'" by (auto split: if_splits)
  have ps: "ps = butlast ps @ [last ps]" using v(1) by simp
  obtain P1 where "lru_evict nf P = Inr (last ps, P1)" "lru_abs nf P1 (butlast ps)"
    using lru_drop_last_ok [of nf P "butlast ps" "last ps"] 4(2) ps by auto
  then show ?case using 4(1) [OF v(1) _ v(2)] v(3) by auto
qed simp

lemma lfu_run_ok:
  assumes "good_allocs al" "lfu_abs nf P vw" "frequency ops vw = Some (vs, qs)"
  shows "\<exists>P'. run_policy (lfu_admit al nf) (lfu_touch al nf) (lfu_evict nf) ops P = Inr (vs, P') \<and> lfu_abs nf P' qs"
  using assms(2,3)
proof (induction ops vw arbitrary: P vs rule: frequency.induct)
  case (2 k ops vw)
  then have k: "k \<notin> set (view_pages vw)" "frequency ops (spec_admit k vw) = Some (vs, qs)" by (auto split: if_splits)
  obtain P1 where "lfu_admit al nf k P = Inr P1" "lfu_abs nf P1 (spec_admit k vw)" using lfu_admit_ok [OF 2(2) k(1) assms(1)] by auto
  then show ?case using 2(1) [OF k(1) _ k(2)] by simp
next
  case (3 k ops vw)
  then have k: "k \<in> set (view_pages vw)" "frequency ops (spec_touch k vw) = Some (vs, qs)" by (auto split: if_splits)
  obtain P1 where "lfu_touch al nf k P = Inr P1" "lfu_abs nf P1 (spec_touch k vw)" using lfu_touch_ok [OF 3(2) k(1) assms(1)] by auto
  then show ?case using 3(1) [OF k(1) _ k(2)] by simp
next
  case (4 ops vw)
  then obtain v vs' vw' where v: "spec_evict vw = Some (v, vw')" "frequency ops vw' = Some (vs', qs)" "vs = v # vs'"
    by (auto split: option.splits)
  have ne: "view_pages vw \<noteq> []" using v(1) lfu_abs_nonempty [OF 4(2)] by (cases vw) auto
  obtain P1 where "lfu_evict nf P = Inr (v, P1)" "lfu_abs nf P1 vw'" using lfu_evict_ok [OF 4(2) ne] v(1) by auto
  then show ?case using 4(1) [OF v(1) refl _ v(2)] v(3) by auto
qed simp

text \<open>
  C23: For every sequence of admissions, uses and evictions, the index and the doubly linked
  list of LRU, run on pointers, give the victims of the specification: always the page whose last
  use is longest ago.
\<close>

theorem lru_refines_recency:
  assumes "good_allocs al" "0 < nf" "recency ops [] = Some (vs, ps)"
  shows "\<exists>P. run_policy (lru_admit al nf) (lru_touch nf) (lru_evict nf) ops (init_policy LRU nf) = Inr (vs, P) \<and> lru_abs nf P ps"
  by (rule lru_run_ok [OF assms(1) lru_abs_new [OF assms(2)] assms(3)])

definition demo_allocs :: allocs where
  "demo_allocs = \<lparr>al_hash = first_fit, al_dll = first_fit, al_lfu = first_fit, al_freq = first_fit\<rparr>"

lemma demo_allocs_good [simp]: "good_allocs demo_allocs"
  by (simp add: good_allocs_def demo_allocs_def good_first_fit)

theorem lru_refines_recency_witness:
  "\<exists>P. run_policy (lru_admit demo_allocs 2) (lru_touch 2) (lru_evict 2) [Admit 7, Admit 8, Touch 7, Evict, Admit 9, Evict]
          (init_policy LRU 2) = Inr ([8, 7], P) \<and> lru_abs 2 P [9]"
  by (rule lru_refines_recency) simp_all

text \<open>
  C24: For every sequence of admissions, uses and evictions, the nested lists of LFU give the
  victims of the specification: always the page with the fewest uses, and of those the one that got
  its count first.
\<close>

theorem lfu_refines_frequency:
  assumes "good_allocs al" "0 < nf" "frequency ops [] = Some (vs, vw)"
  shows "\<exists>P. run_policy (lfu_admit al nf) (lfu_touch al nf) (lfu_evict nf) ops (init_policy LFU nf) = Inr (vs, P) \<and> lfu_abs nf P vw"
  by (rule lfu_run_ok [OF assms(1) lfu_abs_new [OF assms(2)] assms(3)])

theorem lfu_refines_frequency_witness:
  "\<exists>P. run_policy (lfu_admit demo_allocs 3) (lfu_touch demo_allocs 3) (lfu_evict 3)
          [Admit 7, Admit 8, Touch 7, Admit 9, Touch 8, Evict, Touch 7, Evict] (init_policy LFU 3) = Inr ([9, 8], P) \<and>
        lfu_abs 3 P [(2, [7])]"
  by (rule lfu_refines_frequency) simp_all

end
