(* ===== verification/BB_Faults.thy ===== *)
theory BB_Faults
  imports BB_Policy
begin

text \<open>
  What every fault handler promises, for each of the five policies: it returns, the page is
  resident afterwards, and the memory of the process does not change.
\<close>

section \<open>The handlers of the list policies\<close>

lemma set_entry_frame:
  "page_table_set_entry p f b s = Inr s' \<Longrightarrow> nframes s' = nframes s \<and> startFrame s' = startFrame s \<and> pol s' = pol s"
  by (auto simp: page_table_set_entry_def split: if_splits)

lemma readData_frame: "readData io p f s = Inr s' \<Longrightarrow> nframes s' = nframes s \<and> startFrame s' = startFrame s \<and> pol s' = pol s"
  by (auto simp: readData_def)

lemma write_back_frame: "write_back io p f b s = Inr s' \<Longrightarrow> nframes s' = nframes s \<and> startFrame s' = startFrame s \<and> pol s' = pol s"
  by (auto simp: write_back_def writeData_def split: if_splits)

lemma bindE_cong_Inr:
  assumes "\<And>x. m = Inr x \<Longrightarrow> f x = g x"
  shows "bindE m f = bindE m g"
  using assms by (cases m) simp_all

lemmas moves_frame = set_entry_frame readData_frame write_back_frame

lemma LRU_handler_list:
  "LRU_page_fault_handler io al page s =
     list_fault_handler io lru_size (lru_admit al (nframes s)) (lru_evict (nframes s)) (lru_touch (nframes s)) page s"
  unfolding LRU_page_fault_handler_def list_fault_handler_def lru_size_def lru_admit_def lru_evict_def lru_touch_def Let_def
  by (auto simp: bindE_assoc split_def dest!: moves_frame intro!: bindE_cong_Inr)

lemma FFIFO_handler_list:
  "FFIFO_page_fault_handler io al page s =
     list_fault_handler io lru_size (lru_admit al (nframes s)) (ffifo_evict (nframes s)) (\<lambda>k P. Inr P) page s"
  unfolding FFIFO_page_fault_handler_def list_fault_handler_def lru_size_def lru_admit_def ffifo_evict_def Let_def
  by (auto simp: bindE_assoc split_def dest!: moves_frame intro!: bindE_cong_Inr)

lemma LFU_handler_list:
  "LFU_page_fault_handler io al page s =
     list_fault_handler io lfu_size (lfu_admit al (nframes s)) (lfu_evict (nframes s)) (lfu_touch al (nframes s)) page s"
  unfolding LFU_page_fault_handler_def list_fault_handler_def lfu_size_def lfu_admit_def lfu_evict_def lfu_touch_def Let_def
  by (auto simp: bindE_assoc split_def dest!: moves_frame intro!: bindE_cong_Inr)

definition policy_inv ::
  "(nat \<Rightarrow> pol_state \<Rightarrow> nat set \<Rightarrow> bool) \<Rightarrow> ('b \<Rightarrow> nat \<Rightarrow> bytes) \<Rightarrow> ('b \<Rightarrow> bool) \<Rightarrow> nat \<Rightarrow> 'b page_table \<Rightarrow> nat set \<Rightarrow> bool" where
  "policy_inv pinv content sinv nb s A \<longleftrightarrow> list_inv content sinv nb (pinv (nframes s)) s A"

lemma handles_policy_inv:
  assumes "\<And>nf. handles content (list_inv content sinv nb (pinv nf)) (h nf)" "\<And>page s. h' page s = h (nframes s) page s"
  shows "handles content (policy_inv pinv content sinv nb) h'"
  unfolding handles_def
proof (intro allI impI)
  fix s A page assume a: "policy_inv pinv content sinv nb s A" "page < npages s" "page_bits s ! page \<noteq> PROT_RW"
  then obtain s' A' where "h (nframes s) page s = Inr s'" "list_inv content sinv nb (pinv (nframes s)) s' A'" "page \<in> A'"
      "npages s' = npages s" "nframes s' = nframes s" "startFrame s' = startFrame s" "page_bits s' ! page = (if page \<in> A then PROT_RW else PROT_READ)"
      "\<forall>p<npages s. vm_view content s' p = vm_view content s p"
    using assms(1) [of "nframes s"] unfolding handles_def policy_inv_def by blast
  then show "\<exists>s' A'. h' page s = Inr s' \<and> policy_inv pinv content sinv nb s' A' \<and> page \<in> A' \<and> npages s' = npages s \<and>
      nframes s' = nframes s \<and> startFrame s' = startFrame s \<and> page_bits s' ! page = (if page \<in> A then PROT_RW else PROT_READ) \<and>
      (\<forall>p<npages s. vm_view content s' p = vm_view content s p)"
    unfolding assms(2) policy_inv_def by (intro exI [of _ s'] exI [of _ A']) simp
qed

sublocale block_store \<subseteq> lruvm: list_paging io content sinv nb lru_size "lru_admit al nf" "lru_touch nf" "lru_evict nf" "lru_inv al nf" for al nf
  by unfold_locales

sublocale block_store \<subseteq> ffifovm: list_paging io content sinv nb lru_size "lru_admit al nf" "\<lambda>k P. Inr P" "ffifo_evict nf" "lru_inv al nf" for al nf
  by unfold_locales

sublocale block_store \<subseteq> lfuvm: list_paging io content sinv nb lfu_size "lfu_admit al nf" "lfu_touch al nf" "lfu_evict nf" "lfu_inv al nf" for al nf
  by unfold_locales

context block_store
begin

lemma LRU_handles: "handles content (policy_inv (lru_inv al) content sinv nb) (LRU_page_fault_handler io al)"
  by (rule handles_policy_inv [OF lruvm.list_handles LRU_handler_list])

lemma FFIFO_handles: "handles content (policy_inv (lru_inv al) content sinv nb) (FFIFO_page_fault_handler io al)"
  by (rule handles_policy_inv [OF ffifovm.list_handles FFIFO_handler_list])

lemma LFU_handles: "handles content (policy_inv (lfu_inv al) content sinv nb) (LFU_page_fault_handler io al)"
  by (rule handles_policy_inv [OF lfuvm.list_handles LFU_handler_list])

end

section \<open>FIFO\<close>

definition fifo_inv :: "('b \<Rightarrow> nat \<Rightarrow> bytes) \<Rightarrow> ('b \<Rightarrow> bool) \<Rightarrow> nat \<Rightarrow> 'b page_table \<Rightarrow> nat set \<Rightarrow> bool" where
  "fifo_inv content sinv nb s A \<longleftrightarrow>
     vm_core content sinv s A \<and> npages s \<le> nb \<and> 0 < nframes s \<and>
     endFrame s \<le> length (frameState (pol s)) \<and> endFrame s \<le> length (framePage (pol s)) \<and>
     (\<forall>i. startFrame s \<le> i \<longrightarrow> i < endFrame s \<longrightarrow> (frameState (pol s) ! i \<noteq> 0 \<longleftrightarrow> i \<in> (\<lambda>p. page_mapping s ! p) ` A)) \<and>
     (\<forall>p\<in>A. framePage (pol s) ! (page_mapping s ! p) = p) \<and>
     set (framePage (pol s)) \<subseteq> {..<npages s} \<and> set (page_mapping s) \<subseteq> {..<endFrame s}"

lemma fifo_invD:
  assumes "fifo_inv content sinv nb s A"
  shows "vm_core content sinv s A" "npages s \<le> nb" "0 < nframes s" "endFrame s \<le> length (frameState (pol s))"
    "endFrame s \<le> length (framePage (pol s))"
    "startFrame s \<le> i \<Longrightarrow> i < endFrame s \<Longrightarrow> frameState (pol s) ! i \<noteq> 0 \<longleftrightarrow> i \<in> (\<lambda>p. page_mapping s ! p) ` A"
    "p \<in> A \<Longrightarrow> framePage (pol s) ! (page_mapping s ! p) = p"
    "set (framePage (pol s)) \<subseteq> {..<npages s}" "set (page_mapping s) \<subseteq> {..<endFrame s}"
  using assms unfolding fifo_inv_def by blast+

lemma age_frames_simps [simp]:
  "length (age_frames a b fs) = length fs" "i < length fs \<Longrightarrow> age_frames a b fs ! i \<noteq> 0 \<longleftrightarrow> fs ! i \<noteq> 0"
  "i < length fs \<Longrightarrow> age_frames a b fs ! i = 0 \<longleftrightarrow> fs ! i = 0"
  by (auto simp: age_frames_def)

text \<open>The search ends at a frame of the list, the first with the greatest age.\<close>

lemma oldest_frame_max:
  assumes "\<exists>i\<in>set is. val < fs ! i"
  shows "oldest_frame fs is val f \<in> set is \<and> (\<forall>i\<in>set is. fs ! i \<le> fs ! oldest_frame fs is val f) \<and> val < fs ! oldest_frame fs is val f"
  using assms
proof (induction "is" arbitrary: val f)
  case (Cons j js)
  show ?case
  proof (cases "val < fs ! j")
    case True
    show ?thesis
    proof (cases "\<exists>i\<in>set js. fs ! j < fs ! i")
      case True
      then show ?thesis using Cons.IH [OF True, of j] \<open>val < fs ! j\<close> by auto
    next
      case False
      have "oldest_frame fs js v g = g" if "\<forall>i\<in>set js. fs ! i \<le> v" for v g using that by (induction js) auto
      then show ?thesis using True False by (auto simp: not_less)
    qed
  next
    case False
    then have "\<exists>i\<in>set js. val < fs ! i" using Cons.prems by auto
    from Cons.IH [OF this, of f] show ?thesis using False by auto
  qed
qed simp

lemma find_none_upt: "find P [a..<b] = None \<Longrightarrow> a \<le> i \<Longrightarrow> i < b \<Longrightarrow> \<not> P i"
  by (simp add: find_None_iff)

lemma find_some_upt: "find P [a..<b] = Some i \<Longrightarrow> a \<le> i \<and> i < b \<and> P i"
  by (auto simp: find_Some_iff dest: nth_mem)

lemma fifo_inv_upd:
  assumes core: "vm_core content sinv s A" and nb: "npages s \<le> nb" "0 < nframes s"
    and len: "endFrame s \<le> length (frameState (pol s))" "endFrame s \<le> length (framePage (pol s))"
    and page: "page \<in> A" and f: "f = page_mapping s ! page"
    and st: "\<And>i. startFrame s \<le> i \<Longrightarrow> i < endFrame s \<Longrightarrow> i \<noteq> f \<Longrightarrow> (frameState (pol s) ! i \<noteq> 0 \<longleftrightarrow> i \<in> (\<lambda>p. page_mapping s ! p) ` (A - {page}))"
    and fp: "\<And>p. p \<in> A \<Longrightarrow> p \<noteq> page \<Longrightarrow> framePage (pol s) ! (page_mapping s ! p) = p"
    and P: "frameState P = (frameState (pol s))[f := 1]" "framePage P = (framePage (pol s))[f := page]"
    and range: "set (framePage (pol s)) \<subseteq> {..<npages s}" "set (page_mapping s) \<subseteq> {..<endFrame s}"
  shows "fifo_inv content sinv nb (s\<lparr>pol := P\<rparr>) A"
proof -
  have fr: "startFrame s \<le> f" "f < endFrame s" using vm_coreD(10) [OF core page] f by auto
  have other: "page_mapping s ! p \<noteq> f" if "p \<in> A" "p \<noteq> page" for p
    using vm_coreD(9) [OF core] that page f by (auto simp: inj_on_def)
  have "frameState P ! i \<noteq> 0 \<longleftrightarrow> i \<in> (\<lambda>p. page_mapping s ! p) ` A" if i: "startFrame s \<le> i" "i < endFrame s" for i
  proof (cases "i = f")
    case True
    then show ?thesis using P(1) fr len(1) f page by auto
  next
    case False
    then show ?thesis using st [OF i False] P(1) f by auto
  qed
  moreover have "framePage P ! (page_mapping s ! p) = p" if "p \<in> A" for p
    using fp [OF that] other [OF that] P(2) fr(2) len(2) f by (cases "p = page") auto
  moreover have "set (framePage P) \<subseteq> {..<npages s}"
    unfolding P(2) using set_update_subset_insert [of "framePage (pol s)" f page] range(1) vm_coreD(5) [OF core] page by auto
  ultimately show ?thesis using core nb len P range(2) by (simp add: fifo_inv_def)
qed

context block_store
begin

lemma fifo_upgrade:
  assumes inv: "fifo_inv content sinv nb s A" and page: "page \<in> A"
  shows "\<exists>s'. FIFO_page_fault_handler io page s = Inr s' \<and> fifo_inv content sinv nb s' A \<and>
      npages s' = npages s \<and> nframes s' = nframes s \<and> startFrame s' = startFrame s \<and> page_bits s' ! page = PROT_RW \<and> (\<forall>p<npages s. vm_view content s' p = vm_view content s p)"
proof -
  note D = fifo_invD [OF inv]
  let ?st = "age_frames (startFrame s) (endFrame s) (frameState (pol s))" and ?f = "page_mapping s ! page"
  let ?P = "(pol s)\<lparr>frameState := ?st[?f := 1], framePage := (framePage (pol s))[?f := page]\<rparr>"
  define s1 where "s1 = s\<lparr>pageFaults := Suc (pageFaults s), page_bits := (page_bits s)[page := PROT_RW], pol := (pol s)\<lparr>frameState := ?st\<rparr>\<rparr>"
  have pn: "page < npages s" using vm_coreD(5) [OF D(1)] page by auto
  have bits: "page_bits s ! page \<noteq> 0" using vm_coreD(8) [OF D(1) page] by auto
  have "page_table_set_entry page ?f PROT_RW (s\<lparr>pageFaults := Suc (pageFaults s)\<rparr>)
      = Inr (s\<lparr>pageFaults := Suc (pageFaults s), page_bits := (page_bits s)[page := PROT_RW]\<rparr>)"
    using set_entry_same [of content sinv "s\<lparr>pageFaults := Suc (pageFaults s)\<rparr>" A page PROT_RW] D(1) page by simp
  then have res: "FIFO_page_fault_handler io page s = Inr (s1\<lparr>pol := ?P\<rparr>)"
    using pn bits D(4,5) by (simp add: FIFO_page_fault_handler_def page_table_get_entry_def s1_def Let_def)
  have core: "vm_core content sinv (s\<lparr>pageFaults := Suc (pageFaults s)\<rparr>) A" using D(1) by simp
  note w = core_writable [OF core page]
  have core1: "vm_core content sinv s1 A" "\<And>p. vm_view content s1 p = vm_view content s p"
    using w by (simp_all add: s1_def)
  have s1: "npages s1 = npages s" "nframes s1 = nframes s" "startFrame s1 = startFrame s" "endFrame s1 = endFrame s"
      "page_mapping s1 = page_mapping s" "frameState (pol s1) = ?st" "framePage (pol s1) = framePage (pol s)"
      "page_bits s1 = (page_bits s)[page := PROT_RW]"
    by (simp_all add: s1_def)
  have "fifo_inv content sinv nb (s1\<lparr>pol := ?P\<rparr>) A"
  proof (rule fifo_inv_upd [OF core1(1) _ _ _ _ page])
    fix i assume i: "startFrame s1 \<le> i" "i < endFrame s1" "i \<noteq> ?f"
    then have "i \<in> (\<lambda>p. page_mapping s ! p) ` A \<longleftrightarrow> i \<in> (\<lambda>p. page_mapping s ! p) ` (A - {page})" by auto
    then show "(frameState (pol s1) ! i \<noteq> 0) = (i \<in> (\<lambda>p. page_mapping s1 ! p) ` (A - {page}))"
      using D(4) D(6) [of i] i s1 by simp
  qed (use D s1 in simp_all)
  then show ?thesis using res core1(2) s1 pn vm_coreD(2) [OF D(1)] by auto
qed

lemma fifo_load:
  assumes inv: "fifo_inv content sinv nb s A" and page: "page < npages s" "page \<notin> A"
    and free: "find (\<lambda>i. age_frames (startFrame s) (endFrame s) (frameState (pol s)) ! i = 0) [startFrame s..<endFrame s] = Some f"
  shows "\<exists>s'. FIFO_page_fault_handler io page s = Inr s' \<and> fifo_inv content sinv nb s' (insert page A) \<and>
      npages s' = npages s \<and> nframes s' = nframes s \<and> startFrame s' = startFrame s \<and> page_bits s' ! page = PROT_READ \<and> (\<forall>p<npages s. vm_view content s' p = vm_view content s p)"
proof -
  note D = fifo_invD [OF inv]
  let ?st = "age_frames (startFrame s) (endFrame s) (frameState (pol s))"
  let ?P = "(pol s)\<lparr>frameState := ?st[f := 1], framePage := (framePage (pol s))[f := page]\<rparr>"
  define s0 where "s0 = s\<lparr>pageFaults := Suc (pageFaults s), pol := ?P\<rparr>"
  have f: "startFrame s \<le> f" "f < endFrame s" "?st ! f = 0" using find_some_upt [OF free] by auto
  have unused: "f \<notin> (\<lambda>p. page_mapping s ! p) ` A" using D(6) [OF f(1,2)] f(2,3) D(4) by simp
  have s0: "vm_core content sinv s0 A" "npages s0 = npages s" "nframes s0 = nframes s" "startFrame s0 = startFrame s"
      "endFrame s0 = endFrame s" "page_mapping s0 = page_mapping s" "page_bits s0 = page_bits s" "pol s0 = ?P"
      "\<And>p. vm_view content s0 p = vm_view content s p"
    using D(1) by (simp_all add: s0_def)
  have unused0: "\<forall>p\<in>A. page_mapping s0 ! p \<noteq> f" using unused s0(6) by auto
  obtain s1 s2 where s: "page_table_set_entry page f PROT_READ s0 = Inr s1" "readData io page f s1 = Inr s2"
      "vm_core content sinv s2 (insert page A)" "\<And>p. p < npages s0 \<Longrightarrow> vm_view content s2 p = vm_view content s0 p"
      "same_shape s0 s2" "page_mapping s2 = (page_mapping s0)[page := f]" "page_bits s2 = (page_bits s0)[page := PROT_READ]"
    using load_ok [OF s0(1), of page f] D(2) page f(1,2) unused0 s0(2,4,5) by auto
  have len: "length (page_mapping s) = npages s" "length (page_bits s) = npages s" using vm_coreD(1,2) [OF D(1)] by simp_all
  have bits: "page_bits s ! page = 0" using vm_coreD(7) [OF D(1) page] .
  have res: "FIFO_page_fault_handler io page s = Inr s2"
    using page(1) bits D(4,5) free s(1,2) by (simp add: FIFO_page_fault_handler_def page_table_get_entry_def Let_def s0_def)
  define t where "t = s2\<lparr>pol := (pol s)\<lparr>frameState := ?st\<rparr>\<rparr>"
  have pol2: "pol s2 = ?P" using s(5) s0(8) by (simp add: same_shape_def)
  have s2t: "s2 = t\<lparr>pol := ?P\<rparr>" using pol2 [symmetric] by (simp add: t_def)
  have t: "vm_core content sinv t (insert page A)" "npages t = npages s" "nframes t = nframes s" "startFrame t = startFrame s"
      "endFrame t = endFrame s" "frameState (pol t) = ?st" "framePage (pol t) = framePage (pol s)" "page_mapping t = (page_mapping s)[page := f]"
    using s(3,5,6) s0(2-6) by (simp_all add: t_def same_shape_def)
  have tm: "set (page_mapping t) \<subseteq> {..<endFrame t}"
    unfolding t(5,8) using set_update_subset_insert [of "page_mapping s" page f] D(9) f(2) by auto
  have "fifo_inv content sinv nb (t\<lparr>pol := ?P\<rparr>) (insert page A)"
  proof (rule fifo_inv_upd [OF t(1)])
    show "f = page_mapping t ! page" using t(8) len page by simp
    fix i assume i: "startFrame t \<le> i" "i < endFrame t" "i \<noteq> f"
    have "(\<lambda>p. page_mapping t ! p) ` (insert page A - {page}) = (\<lambda>p. page_mapping s ! p) ` A"
      using t(8) image_upd_other [OF page(2), of "page_mapping s" f] page(2) by simp
    then show "(frameState (pol t) ! i \<noteq> 0) = (i \<in> (\<lambda>p. page_mapping t ! p) ` (insert page A - {page}))"
      using D(4) D(6) [of i] i t by simp
  next
    fix p assume "p \<in> insert page A" "p \<noteq> page"
    then show "framePage (pol t) ! (page_mapping t ! p) = p" using D(7) t by simp
  qed (use D t tm in simp_all)
  then show ?thesis using res s(4,5,7) s0(2,3,4,7,9) len page(1) s2t by (intro exI [of _ s2]) (simp add: same_shape_def)
qed

lemma fifo_victim:
  assumes inv: "fifo_inv content sinv nb s A"
    and full: "find (\<lambda>i. age_frames (startFrame s) (endFrame s) (frameState (pol s)) ! i = 0) [startFrame s..<endFrame s] = None"
  shows "\<exists>v\<in>A. oldest_frame (age_frames (startFrame s) (endFrame s) (frameState (pol s))) [startFrame s..<endFrame s] 0 frame = page_mapping s ! v
     \<and> framePage (pol s) ! (page_mapping s ! v) = v"
proof -
  note D = fifo_invD [OF inv]
  let ?st = "age_frames (startFrame s) (endFrame s) (frameState (pol s))"
  have "startFrame s < endFrame s" using D(3) vm_coreD(4) [OF D(1)] by simp
  then have "\<exists>i\<in>set [startFrame s..<endFrame s]. 0 < ?st ! i" using find_none_upt [OF full, of "startFrame s"] by (intro bexI [of _ "startFrame s"]) auto
  from oldest_frame_max [OF this, of frame] have o: "startFrame s \<le> oldest_frame ?st [startFrame s..<endFrame s] 0 frame"
      "oldest_frame ?st [startFrame s..<endFrame s] 0 frame < endFrame s" "?st ! oldest_frame ?st [startFrame s..<endFrame s] 0 frame \<noteq> 0" by auto
  then have "frameState (pol s) ! oldest_frame ?st [startFrame s..<endFrame s] 0 frame \<noteq> 0" using D(4) by simp
  then show ?thesis using D(6) [OF o(1,2)] D(7) by auto
qed

lemma fifo_replace:
  assumes inv: "fifo_inv content sinv nb s A" and page: "page < npages s" "page \<notin> A"
    and full: "find (\<lambda>i. age_frames (startFrame s) (endFrame s) (frameState (pol s)) ! i = 0) [startFrame s..<endFrame s] = None"
  shows "\<exists>s' v. FIFO_page_fault_handler io page s = Inr s' \<and> fifo_inv content sinv nb s' (insert page (A - {v})) \<and>
      npages s' = npages s \<and> nframes s' = nframes s \<and> startFrame s' = startFrame s \<and> page_bits s' ! page = PROT_READ \<and> (\<forall>p<npages s. vm_view content s' p = vm_view content s p)"
proof -
  note D = fifo_invD [OF inv]
  let ?st = "age_frames (startFrame s) (endFrame s) (frameState (pol s))"
  obtain v where v: "v \<in> A" "oldest_frame ?st [startFrame s..<endFrame s] 0 (page_mapping s ! page) = page_mapping s ! v"
      "framePage (pol s) ! (page_mapping s ! v) = v"
    using fifo_victim [OF inv full] by blast
  define s0 where "s0 = s\<lparr>pageFaults := Suc (pageFaults s), pol := (pol s)\<lparr>frameState := ?st\<rparr>\<rparr>"
  let ?f = "page_mapping s0 ! v"
  have s0: "vm_core content sinv s0 A" "npages s0 = npages s" "nframes s0 = nframes s" "startFrame s0 = startFrame s"
      "endFrame s0 = endFrame s" "page_mapping s0 = page_mapping s" "page_bits s0 = page_bits s" "pol s0 = (pol s)\<lparr>frameState := ?st\<rparr>"
      "\<And>p. vm_view content s0 p = vm_view content s p" "npages s0 \<le> nb" "page < npages s0"
    using D(1,2) page by (simp_all add: s0_def)
  obtain s1 s2 s3 s4 where s: "write_back io v ?f (page_bits s0 ! v) s0 = Inr s1" "readData io page ?f s1 = Inr s2"
      "page_table_set_entry page ?f PROT_READ s2 = Inr s3" "page_table_set_entry v ?f 0 s3 = Inr s4"
      "vm_core content sinv s4 (insert page (A - {v}))" "\<And>p. p < npages s0 \<Longrightarrow> vm_view content s4 p = vm_view content s0 p"
      "same_shape s0 s4" "page_mapping s4 = (page_mapping s0)[page := ?f]" "page_bits s4 = (page_bits s0)[v := 0, page := PROT_READ]"
    using replace_ok [OF s0(1,10) v(1) s0(11) page(2)] by blast
  have len: "length (page_mapping s) = npages s" "length (page_bits s) = npages s" using vm_coreD(1,2) [OF D(1)] by simp_all
  have vn: "v < npages s" using vm_coreD(5) [OF D(1)] v(1) by auto
  have vf: "page_mapping s ! v < endFrame s" using vm_coreD(10) [OF D(1) v(1)] by simp
  have bits: "page_bits s ! page = 0" using vm_coreD(7) [OF D(1) page] .
  let ?P = "(pol s4)\<lparr>frameState := (frameState (pol s4))[?f := 1], framePage := (framePage (pol s4))[?f := page]\<rparr>"
  have room: "page_mapping s ! v < length (framePage (pol s))" using vf D(5) by simp
  have res: "FIFO_page_fault_handler io page s = Inr (s4\<lparr>pol := ?P\<rparr>)"
    using page(1) vn bits D(4,5) full v(2,3) room s(1-4) s0(2,6,7)
    by (simp add: FIFO_page_fault_handler_def page_table_get_entry_def Let_def flip: s0_def)
  have s4: "npages s4 = npages s" "nframes s4 = nframes s" "startFrame s4 = startFrame s" "endFrame s4 = endFrame s" "pol s4 = (pol s)\<lparr>frameState := ?st\<rparr>"
    using s(7) s0(2-5,8) by (simp_all add: same_shape_def)
  have sm: "set (page_mapping s4) \<subseteq> {..<endFrame s4}"
    unfolding s4(4) s(8) s0(6) using set_update_subset_insert [of "page_mapping s" page "page_mapping s ! v"] D(9) vf by auto
  have "fifo_inv content sinv nb (s4\<lparr>pol := ?P\<rparr>) (insert page (A - {v}))"
  proof (rule fifo_inv_upd [OF s(5)])
    show "?f = page_mapping s4 ! page" using s(8) s0(6) len page by simp
    fix i assume i: "startFrame s4 \<le> i" "i < endFrame s4" "i \<noteq> ?f"
    have rem: "insert page (A - {v}) - {page} = A - {v}" "page \<notin> A - {v}" using page(2) by auto
    have "(\<lambda>p. page_mapping s4 ! p) ` (insert page (A - {v}) - {page}) = (\<lambda>p. page_mapping s ! p) ` (A - {v})"
      unfolding rem(1) using s(8) s0(6) image_upd_other [OF rem(2), of "page_mapping s" ?f] by simp
    moreover have "i \<in> (\<lambda>p. page_mapping s ! p) ` (A - {v}) \<longleftrightarrow> i \<in> (\<lambda>p. page_mapping s ! p) ` A" using i(3) s0(6) by auto
    ultimately show "(frameState (pol s4) ! i \<noteq> 0) = (i \<in> (\<lambda>p. page_mapping s4 ! p) ` (insert page (A - {v}) - {page}))"
      using D(4) D(6) [of i] i s4 by simp
  next
    fix p assume "p \<in> insert page (A - {v})" "p \<noteq> page"
    then show "framePage (pol s4) ! (page_mapping s4 ! p) = p" using D(7) s4 s(8) s0(6) by simp
  qed (use D s4 sm in simp_all)
  then show ?thesis using res s(6,9) s0(2,3,7,9) s4 len page(1) by (intro exI [of _ "s4\<lparr>pol := ?P\<rparr>"] exI [of _ v]) simp
qed

lemma FIFO_handles: "handles content (fifo_inv content sinv nb) (FIFO_page_fault_handler io)"
  unfolding handles_def
proof (intro allI impI)
  fix s A page assume inv: "fifo_inv content sinv nb s A" and page: "page < npages s" "page_bits s ! page \<noteq> PROT_RW"
  let ?find = "find (\<lambda>i. age_frames (startFrame s) (endFrame s) (frameState (pol s)) ! i = 0) [startFrame s..<endFrame s]"
  consider "page \<in> A" | f where "page \<notin> A" "?find = Some f" | "page \<notin> A" "?find = None" by (cases ?find) blast+
  then show "\<exists>s' A'. FIFO_page_fault_handler io page s = Inr s' \<and> fifo_inv content sinv nb s' A' \<and> page \<in> A' \<and>
      npages s' = npages s \<and> nframes s' = nframes s \<and> startFrame s' = startFrame s \<and> page_bits s' ! page = (if page \<in> A then PROT_RW else PROT_READ) \<and>
      (\<forall>p<npages s. vm_view content s' p = vm_view content s p)"
  proof cases
    case 1
    then show ?thesis using fifo_upgrade [OF inv 1] by (elim exE conjE) (rule exI, rule exI [of _ A], simp)
  next
    case 2
    from fifo_load [OF inv page(1) 2] show ?thesis using 2(1) by (elim exE conjE) (rule exI, rule exI [of _ "insert page A"], simp)
  next
    case 3
    from fifo_replace [OF inv page(1) 3] obtain s' v where "FIFO_page_fault_handler io page s = Inr s'"
      "fifo_inv content sinv nb s' (insert page (A - {v}))" "npages s' = npages s" "nframes s' = nframes s" "startFrame s' = startFrame s"
      "page_bits s' ! page = PROT_READ" "\<forall>p<npages s. vm_view content s' p = vm_view content s p"
      by (elim exE conjE)
    then show ?thesis using 3(1) by (intro exI [of _ s'] exI [of _ "insert page (A - {v})"]) simp
  qed
qed

end

section \<open>RAND\<close>

definition rand_inv :: "allocs \<Rightarrow> nat \<Rightarrow> pol_state \<Rightarrow> nat set \<Rightarrow> bool" where
  "rand_inv al nf P A \<longleftrightarrow> good_allocs al \<and> finite A \<and> rcount P = card A \<and> (\<exists>m. hash_ok nf (hashT P) m \<and> dom m = A)"

text \<open>The search for a bucket ends when some bucket is not empty, whatever the random start.\<close>

lemma scan_finds:
  assumes "j < nf" "length bs = nf" "bhead (bs ! j) \<noteq> 0"
  shows "i < nf \<Longrightarrow> \<exists>r. scan_buckets bs nf i = Some r \<and> r < nf \<and> bhead (bs ! r) \<noteq> 0"
proof (induction "if i \<le> j then j - i else j + (nf - i)" arbitrary: i rule: less_induct)
  case less
  show ?case
  proof (cases "bhead (bs ! i) = 0")
    case True
    then have ij: "i \<noteq> j" using assms(3) by auto
    let ?n = "if nf - 1 < i + 1 then 0 else i + 1"
    have "?n < nf" using less.prems assms(1) by auto
    moreover have "(if ?n \<le> j then j - ?n else j + (nf - ?n)) < (if i \<le> j then j - i else j + (nf - i))"
      using ij less.prems assms(1) by auto
    ultimately have "\<exists>r. scan_buckets bs nf ?n = Some r \<and> r < nf \<and> bhead (bs ! r) \<noteq> 0" using less.hyps by blast
    moreover have "scan_buckets bs nf i = scan_buckets bs nf ?n"
      using True less.prems assms(2) by (subst scan_buckets.simps) simp
    ultimately show ?thesis by simp
  next
    case False
    then show ?thesis using less.prems by (subst scan_buckets.simps) simp
  qed
qed

text \<open>It never ends when all are empty.\<close>

lemma scan_empty:
  assumes "scan_buckets bs nf i = Some r" "length bs = nf" "i < nf" "\<forall>b\<in>set bs. bhead b = 0"
  shows False
proof -
  have "scan_buckets bs nf i = Some r \<longrightarrow> \<not> (length bs = nf \<and> i < nf \<and> (\<forall>b\<in>set bs. bhead b = 0))"
  proof (rule scan_buckets.raw_induct [of "\<lambda>bs nf i r. \<not> (length bs = nf \<and> i < nf \<and> (\<forall>b\<in>set bs. bhead b = 0))", THEN impI])
    show "scan_buckets bs nf i = Some r \<Longrightarrow> scan_buckets bs nf i = Some r" .
  next
    fix f :: "hash list \<Rightarrow> nat \<Rightarrow> nat \<Rightarrow> nat option" and bs nf i r
    assume IH: "\<And>bs nf i r. f bs nf i = Some r \<Longrightarrow> \<not> (length bs = nf \<and> i < nf \<and> (\<forall>b\<in>set bs. bhead b = 0))"
      and r: "(if i < length bs \<and> bhead (bs ! i) = 0 then f bs nf (if nf - 1 < i + 1 then 0 else i + 1) else Some i) = Some r"
    show "\<not> (length bs = nf \<and> i < nf \<and> (\<forall>b\<in>set bs. bhead b = 0))"
    proof
      assume a: "length bs = nf \<and> i < nf \<and> (\<forall>b\<in>set bs. bhead b = 0)"
      then have "f bs nf (if nf - 1 < i + 1 then 0 else i + 1) = Some r" using r by (simp split: if_splits)
      from IH [OF this] a show False by (auto split: if_splits)
    qed
  qed
  then show ?thesis using assms by blast
qed

lemma scan_victim:
  assumes ok: "hash_ok nf h m" and ne: "dom m \<noteq> {}" and i: "i < nf"
  shows "\<exists>r b n. scan_buckets (buckets h) nf i = Some r \<and> bucket h r = Inr b \<and> deref (hnodes h) (bhead b) = Inr n \<and> hkey n \<in> dom m"
proof -
  obtain B where rep: "hash_rep nf h B" and mp: "holds_map (hnodes h) m" using ok by (auto simp: hash_ok_def)
  obtain k v where "m k = Some v" using ne by (meson domD equals0I)
  from holds_mapD2 [OF mp this] obtain p n where p: "hnodes h p = Some n" "hkey n = k" by auto
  have nf: "0 < nf" "length (buckets h) = nf" using rep by (auto simp: hash_rep_def)
  have "p \<in> set (B ! (k mod nf))" using rep p nf by (auto simp: hash_rep_def)
  moreover have "chain hnext (hnodes h) (bhead (buckets h ! (k mod nf))) (B ! (k mod nf))" using rep nf by (simp add: hash_rep_def)
  ultimately have "bhead (buckets h ! (k mod nf)) \<noteq> 0" by (cases "B ! (k mod nf)") auto
  from scan_finds [OF _ nf(2) this i] nf(1) obtain r where r: "scan_buckets (buckets h) nf i = Some r" "r < nf" "bhead (buckets h ! r) \<noteq> 0" by auto
  have "chain hnext (hnodes h) (bhead (buckets h ! r)) (B ! r)" using rep r(2) by (simp add: hash_rep_def)
  then obtain n' where n': "hnodes h (bhead (buckets h ! r)) = Some n'" using r(3) by (cases "B ! r") auto
  then have "hkey n' \<in> dom m" using holds_mapD1 [OF mp n'] by auto
  then show ?thesis using r n' nf(2) by (auto simp: bucket_def)
qed

lemma rand_admit:
  assumes inv: "rand_inv al nf P A" and k: "k \<notin> A"
  shows "\<exists>h. insertHashNode (al_hash al) nf k 0 (hashT P) = Inr h \<and> rand_inv al nf (P\<lparr>hashT := h, rcount := Suc (rcount P)\<rparr>) (insert k A)"
proof -
  obtain m where m: "good_allocs al" "finite A" "rcount P = card A" "hash_ok nf (hashT P) m" "dom m = A" using inv by (auto simp: rand_inv_def)
  have "m k = None" using k m(5) by auto
  from insert_hash_ok [OF m(4) this good_allocsD(1) [OF m(1)], of 0] obtain h
    where "insertHashNode (al_hash al) nf k 0 (hashT P) = Inr h" "hash_ok nf h (m(k \<mapsto> 0))" .
  then show ?thesis using m k by (auto simp: rand_inv_def intro!: exI [of _ "m(k \<mapsto> 0)"])
qed

lemma rand_swap:
  assumes inv: "rand_inv al nf P A" and k: "k \<notin> A" and v: "v \<in> A"
  shows "\<exists>h1 h2. deleteHashNode nf v (hashT P) = Inr h1 \<and> insertHashNode (al_hash al) nf k 0 h1 = Inr h2 \<and>
     rand_inv al nf (P\<lparr>hashT := h2\<rparr>) (insert k (A - {v}))"
proof -
  obtain m where m: "good_allocs al" "finite A" "rcount P = card A" "hash_ok nf (hashT P) m" "dom m = A" using inv by (auto simp: rand_inv_def)
  obtain h1 where h1: "deleteHashNode nf v (hashT P) = Inr h1" "hash_ok nf h1 (m(v := None))" using delete_hash_ok [OF m(4)] .
  have "(m(v := None)) k = None" using k m(5) by auto
  from insert_hash_ok [OF h1(2) this good_allocsD(1) [OF m(1)], of 0] obtain h2
    where h2: "insertHashNode (al_hash al) nf k 0 h1 = Inr h2" "hash_ok nf h2 ((m(v := None))(k \<mapsto> 0))" .
  have "dom ((m(v := None))(k \<mapsto> 0)) = insert k (A - {v})" using m(5) by auto
  moreover have "card (insert k (A - {v})) = card A" using m(2) k card_Suc_Diff1 [OF m(2) v] by simp
  ultimately have "rand_inv al nf (P\<lparr>hashT := h2\<rparr>) (insert k (A - {v}))"
    unfolding rand_inv_def using h2(2) m(1-3) by (intro conjI exI [of _ "(m(v := None))(k \<mapsto> 0)"]) auto
  then show ?thesis using h1(1) h2(1) by blast
qed

context block_store
begin

lemma rand_upgrade:
  assumes inv: "policy_inv (rand_inv al) content sinv nb s A" and page: "page \<in> A"
  shows "\<exists>s'. RAND_page_fault_handler io al rnd page s = Inr s' \<and> policy_inv (rand_inv al) content sinv nb s' A \<and>
      npages s' = npages s \<and> nframes s' = nframes s \<and> startFrame s' = startFrame s \<and> page_bits s' ! page = PROT_RW \<and> (\<forall>p<npages s. vm_view content s' p = vm_view content s p)"
proof -
  have core: "vm_core content sinv s A" and nb: "npages s \<le> nb" and pk: "packed s A" and pi: "rand_inv al (nframes s) (pol s) A"
    using inv by (simp_all add: list_inv_def policy_inv_def)
  let ?s0 = "s\<lparr>pageFaults := pageFaults s + 1\<rparr>"
  let ?s' = "?s0\<lparr>page_bits := (page_bits s)[page := PROT_RW]\<rparr>"
  have core0: "vm_core content sinv ?s0 A" using core by simp
  have pn: "page < npages s" using vm_coreD(5) [OF core] page by auto
  have bits: "page_bits s ! page \<noteq> 0" using vm_coreD(8) [OF core page] by auto
  have "page_table_set_entry page (page_mapping s ! page) PROT_RW ?s0 = Inr ?s'"
    using set_entry_same [OF core0 page, of PROT_RW] by simp
  then have "RAND_page_fault_handler io al rnd page s = Inr ?s'"
    using pn bits by (simp add: RAND_page_fault_handler_def page_table_get_entry_def Let_def)
  moreover have "vm_core content sinv ?s' A" "\<And>p. vm_view content ?s' p = vm_view content s p"
    using core_writable [OF core0 page] by simp_all
  ultimately show ?thesis
    using nb pk pi pn vm_coreD(2) [OF core] by (auto simp: list_inv_def policy_inv_def packed_def)
qed

lemma rand_load:
  assumes inv: "policy_inv (rand_inv al) content sinv nb s A" and page: "page < npages s" "page \<notin> A" and free: "card A < nframes s"
  shows "\<exists>s'. RAND_page_fault_handler io al rnd page s = Inr s' \<and> policy_inv (rand_inv al) content sinv nb s' (insert page A) \<and>
      npages s' = npages s \<and> nframes s' = nframes s \<and> startFrame s' = startFrame s \<and> page_bits s' ! page = PROT_READ \<and> (\<forall>p<npages s. vm_view content s' p = vm_view content s p)"
proof -
  have core: "vm_core content sinv s A" and nb: "npages s \<le> nb" and pk: "packed s A" and pi: "rand_inv al (nframes s) (pol s) A"
    using inv by (simp_all add: list_inv_def policy_inv_def)
  have cnt: "rcount (pol s) = card A" using pi by (simp add: rand_inv_def)
  obtain h where h: "insertHashNode (al_hash al) (nframes s) page 0 (hashT (pol s)) = Inr h"
      "rand_inv al (nframes s) ((pol s)\<lparr>hashT := h, rcount := Suc (rcount (pol s))\<rparr>) (insert page A)"
    using rand_admit [OF pi page(2)] by auto
  define s0 where "s0 = s\<lparr>pageFaults := Suc (pageFaults s), pol := (pol s)\<lparr>hashT := h\<rparr>\<rparr>"
  let ?f = "card A + startFrame s"
  have s0: "vm_core content sinv s0 A" "npages s0 = npages s" "nframes s0 = nframes s" "startFrame s0 = startFrame s"
      "endFrame s0 = endFrame s" "page_mapping s0 = page_mapping s" "page_bits s0 = page_bits s" "pol s0 = (pol s)\<lparr>hashT := h\<rparr>"
      "\<And>p. vm_view content s0 p = vm_view content s p"
    using core by (simp_all add: s0_def)
  have unused: "\<forall>p\<in>A. page_mapping s0 ! p \<noteq> ?f"
  proof
    fix p assume "p \<in> A"
    then have "page_mapping s ! p \<in> {startFrame s..<startFrame s + card A}" using pk unfolding packed_def by blast
    then show "page_mapping s0 ! p \<noteq> ?f" using s0(6) by simp
  qed
  obtain s1 s2 where s: "page_table_set_entry page ?f PROT_READ s0 = Inr s1" "readData io page ?f s1 = Inr s2"
      "vm_core content sinv s2 (insert page A)" "\<And>p. p < npages s0 \<Longrightarrow> vm_view content s2 p = vm_view content s0 p"
      "same_shape s0 s2" "page_mapping s2 = (page_mapping s0)[page := ?f]" "page_bits s2 = (page_bits s0)[page := PROT_READ]"
    using load_ok [OF s0(1), of page ?f] nb page unused free vm_coreD(4) [OF core] s0(2-5) by auto
  have len: "length (page_mapping s) = npages s" "length (page_bits s) = npages s" using vm_coreD(1,2) [OF core] by simp_all
  have bits: "page_bits s ! page = 0" using vm_coreD(7) [OF core page] .
  let ?s' = "s2\<lparr>pol := (pol s2)\<lparr>rcount := Suc (rcount (pol s2))\<rparr>\<rparr>"
  have res: "RAND_page_fault_handler io al rnd page s = Inr ?s'"
    using page(1) bits cnt free h(1) s(1,2) by (simp add: RAND_page_fault_handler_def page_table_get_entry_def Let_def s0_def)
  have sh: "npages s2 = npages s" "nframes s2 = nframes s" "startFrame s2 = startFrame s" "pol s2 = (pol s)\<lparr>hashT := h\<rparr>"
    using s(5) s0(2-5,8) by (simp_all add: same_shape_def)
  have "(\<lambda>p. page_mapping s2 ! p) ` insert page A = {startFrame s..<startFrame s + card (insert page A)}"
  proof -
    have "(\<lambda>p. page_mapping s2 ! p) ` A = (\<lambda>p. page_mapping s ! p) ` A"
      using s(6) s0(6) image_upd_other [OF page(2), of "page_mapping s" ?f] by simp
    then show ?thesis using pk s(6) s0(6) page len by (auto simp: packed_def)
  qed
  then have "packed ?s' (insert page A)" using pk page(2) free sh by (simp add: packed_def)
  then have "policy_inv (rand_inv al) content sinv nb ?s' (insert page A)" using s(3) h(2) nb sh by (simp add: policy_inv_def list_inv_def)
  then show ?thesis using res s(4,7) s0(2,7,9) sh len page(1) by (intro exI [of _ ?s']) simp
qed

lemma rand_replace:
  assumes inv: "policy_inv (rand_inv al) content sinv nb s A" and page: "page < npages s" "page \<notin> A" and full: "card A = nframes s"
  shows "\<exists>s' v. RAND_page_fault_handler io al rnd page s = Inr s' \<and> policy_inv (rand_inv al) content sinv nb s' (insert page (A - {v})) \<and>
      npages s' = npages s \<and> nframes s' = nframes s \<and> startFrame s' = startFrame s \<and> page_bits s' ! page = PROT_READ \<and> (\<forall>p<npages s. vm_view content s' p = vm_view content s p)"
proof -
  have core: "vm_core content sinv s A" and nb: "npages s \<le> nb" and pk: "packed s A" and pi: "rand_inv al (nframes s) (pol s) A"
    using inv by (simp_all add: list_inv_def policy_inv_def)
  obtain m where m: "rcount (pol s) = card A" "finite A" "hash_ok (nframes s) (hashT (pol s)) m" "dom m = A" using pi by (auto simp: rand_inv_def)
  have nf: "0 < nframes s" and "A \<noteq> {}" using pk full by (auto simp: packed_def)
  then obtain r b n where v: "scan_buckets (buckets (hashT (pol s))) (nframes s) (rnd mod nframes s) = Some r"
      "bucket (hashT (pol s)) r = Inr b" "deref (hnodes (hashT (pol s))) (bhead b) = Inr n" "hkey n \<in> A"
    using scan_victim [OF m(3), of "rnd mod nframes s"] m(4) by auto
  define v0 where "v0 = hkey n"
  have vA: "v0 \<in> A" using v(4) by (simp add: v0_def)
  define s0 where "s0 = s\<lparr>pageFaults := Suc (pageFaults s)\<rparr>"
  let ?f = "page_mapping s0 ! v0"
  have s0: "vm_core content sinv s0 A" "npages s0 = npages s" "nframes s0 = nframes s" "startFrame s0 = startFrame s"
      "endFrame s0 = endFrame s" "page_mapping s0 = page_mapping s" "page_bits s0 = page_bits s" "pol s0 = pol s"
      "\<And>p. vm_view content s0 p = vm_view content s p" "npages s0 \<le> nb" "page < npages s0"
    using core nb page by (simp_all add: s0_def)
  obtain s1 s2 s3 s4 where s: "write_back io v0 ?f (page_bits s0 ! v0) s0 = Inr s1" "readData io page ?f s1 = Inr s2"
      "page_table_set_entry page ?f PROT_READ s2 = Inr s3" "page_table_set_entry v0 ?f 0 s3 = Inr s4"
      "vm_core content sinv s4 (insert page (A - {v0}))" "\<And>p. p < npages s0 \<Longrightarrow> vm_view content s4 p = vm_view content s0 p"
      "same_shape s0 s4" "page_mapping s4 = (page_mapping s0)[page := ?f]" "page_bits s4 = (page_bits s0)[v0 := 0, page := PROT_READ]"
    using replace_ok [OF s0(1,10) vA s0(11) page(2)] by blast
  have sh: "npages s4 = npages s" "nframes s4 = nframes s" "startFrame s4 = startFrame s" "pol s4 = pol s"
    using s(7) s0(2-5,8) by (simp_all add: same_shape_def)
  obtain h1 h2 where h: "deleteHashNode (nframes s) v0 (hashT (pol s)) = Inr h1" "insertHashNode (al_hash al) (nframes s) page 0 h1 = Inr h2"
      "rand_inv al (nframes s) ((pol s)\<lparr>hashT := h2\<rparr>) (insert page (A - {v0}))"
    using rand_swap [OF pi page(2) vA] by auto
  have len: "length (page_mapping s) = npages s" "length (page_bits s) = npages s" using vm_coreD(1,2) [OF core] by simp_all
  have vn: "v0 < npages s" using vm_coreD(5) [OF core] vA by auto
  have bits: "page_bits s ! page = 0" using vm_coreD(7) [OF core page] .
  let ?s' = "s4\<lparr>pol := (pol s)\<lparr>hashT := h2\<rparr>\<rparr>"
  have res: "RAND_page_fault_handler io al rnd page s = Inr ?s'"
    using page(1) vn bits m(1) full nf v(1-3) s(1-4) s0(2,3,6,7) h(1,2) sh
    by (simp add: RAND_page_fault_handler_def page_table_get_entry_def Let_def flip: s0_def v0_def)
  have "(\<lambda>p. page_mapping s4 ! p) ` insert page (A - {v0}) = (\<lambda>p. page_mapping s ! p) ` A"
  proof -
    have "(\<lambda>p. page_mapping s4 ! p) ` (A - {v0}) = (\<lambda>p. page_mapping s ! p) ` (A - {v0})"
      using s(8) s0(6) image_upd_other [of page "A - {v0}" "page_mapping s" ?f] page(2) by simp
    moreover have "page_mapping s4 ! page = ?f" using s(8) s0(6) len page(1) by simp
    ultimately show ?thesis using vA s0(6) by auto
  qed
  moreover have cardA: "card (insert page (A - {v0})) = card A" using m(2) page(2) card_Suc_Diff1 [OF m(2) vA] by simp
  ultimately have "packed ?s' (insert page (A - {v0}))" unfolding packed_def cardA using pk sh by (simp add: packed_def)
  then have "policy_inv (rand_inv al) content sinv nb ?s' (insert page (A - {v0}))" using s(5) h(3) nb sh by (simp add: policy_inv_def list_inv_def)
  then show ?thesis using res s(6,9) s0(2,7,9) sh len page(1) by (intro exI [of _ ?s'] exI [of _ v0]) simp
qed

lemma RAND_handles:
  "handles content (policy_inv (rand_inv al) content sinv nb) (\<lambda>page s. RAND_page_fault_handler io al (rnd (pageFaults s)) page s)"
  unfolding handles_def
proof (intro allI impI)
  fix s A page assume inv: "policy_inv (rand_inv al) content sinv nb s A" and page: "page < npages s" "page_bits s ! page \<noteq> PROT_RW"
  let ?h = "RAND_page_fault_handler io al (rnd (pageFaults s)) page s"
  have "card A \<le> nframes s" using inv by (simp add: policy_inv_def list_inv_def packed_def)
  then consider "page \<in> A" | "page \<notin> A" "card A < nframes s" | "page \<notin> A" "card A = nframes s" by linarith
  then show "\<exists>s' A'. ?h = Inr s' \<and> policy_inv (rand_inv al) content sinv nb s' A' \<and> page \<in> A' \<and>
      npages s' = npages s \<and> nframes s' = nframes s \<and> startFrame s' = startFrame s \<and> page_bits s' ! page = (if page \<in> A then PROT_RW else PROT_READ) \<and>
      (\<forall>p<npages s. vm_view content s' p = vm_view content s p)"
  proof cases
    case 1
    then show ?thesis using rand_upgrade [OF inv 1, of "rnd (pageFaults s)"] by (elim exE conjE) (rule exI, rule exI [of _ A], simp)
  next
    case 2
    from rand_load [OF inv page(1) 2, of "rnd (pageFaults s)"] show ?thesis using 2(1) by (elim exE conjE) (rule exI, rule exI [of _ "insert page A"], simp)
  next
    case 3
    from rand_replace [OF inv page(1) 3, of "rnd (pageFaults s)"] obtain s' v where "?h = Inr s'"
      "policy_inv (rand_inv al) content sinv nb s' (insert page (A - {v}))" "npages s' = npages s" "nframes s' = nframes s" "startFrame s' = startFrame s"
      "page_bits s' ! page = PROT_READ" "\<forall>p<npages s. vm_view content s' p = vm_view content s p"
      by (elim exE conjE)
    then show ?thesis using 3(1) by (intro exI [of _ s'] exI [of _ "insert page (A - {v})"]) simp
  qed
qed

end

end
