(* ===== verification/BB_Session.thy ===== *)
theory BB_Session
  imports BB_Faults
begin

text \<open>
  The memory of a process on top of the page table: a load or a store of a byte runs on the
  hardware as long as the protection allows it; otherwise the process gets \<^verbatim>\<open>SIGSEGV\<close>, the handler of
  \<^verbatim>\<open>page_table.c\<close> runs, and the instruction starts again. A session is a sequence of loads and
  stores. Whatever the replacement policy and however small the physical memory, a session gives
  what a flat array of bytes gives.
\<close>

section \<open>The accesses of a process\<close>

text \<open>\<open>vbase\<close> is where \<^verbatim>\<open>virtmem\<close> is mapped. The difference of the addresses is a signed number.\<close>

definition fault_page :: "u64 \<Rightarrow> u64 \<Rightarrow> nat" where
  "fault_page vbase addr =
     (let d = sint (addr - vbase) in
      unat (word_of_int (if d < 0 then - (- d div int BLOCK_SIZE) else d div int BLOCK_SIZE) :: u64))"

definition internal_fault_handler ::
  "(nat \<Rightarrow> 'b page_table \<Rightarrow> 'b page_table res) \<Rightarrow> u64 \<Rightarrow> u64 \<Rightarrow> 'b page_table \<Rightarrow> 'b page_table res" where
  "internal_fault_handler handler vbase addr s =
     (let page = fault_page vbase addr in
      if page < npages s then handler page s else Inl Abort)"

definition vm_readable :: "nat \<Rightarrow> 'b page_table \<Rightarrow> bool" where
  "vm_readable d s \<longleftrightarrow> d < npages s * BLOCK_SIZE \<and> page_bits s ! (d div BLOCK_SIZE) \<noteq> 0"

definition vm_writable :: "nat \<Rightarrow> 'b page_table \<Rightarrow> bool" where
  "vm_writable d s \<longleftrightarrow> d < npages s * BLOCK_SIZE \<and> page_bits s ! (d div BLOCK_SIZE) = PROT_RW"

definition vm_phys :: "nat \<Rightarrow> 'b page_table \<Rightarrow> nat" where
  "vm_phys d s = page_mapping s ! (d div BLOCK_SIZE) * BLOCK_SIZE + d mod BLOCK_SIZE"

fun cpu_load ::
  "(nat \<Rightarrow> 'b page_table \<Rightarrow> 'b page_table res) \<Rightarrow> u64 \<Rightarrow> nat \<Rightarrow> u64 \<Rightarrow> 'b page_table \<Rightarrow> (u8 \<times> 'b page_table) res" where
  "cpu_load handler vbase 0 addr s = Inl Blocked"
| "cpu_load handler vbase (Suc n) addr s =
     (if vm_readable (unat (addr - vbase)) s
      then (if vm_phys (unat (addr - vbase)) s < length (physmem s)
            then Inr (physmem s ! vm_phys (unat (addr - vbase)) s, s) else Inl Segv)
      else bindE (internal_fault_handler handler vbase addr s) (cpu_load handler vbase n addr))"

fun cpu_store ::
  "(nat \<Rightarrow> 'b page_table \<Rightarrow> 'b page_table res) \<Rightarrow> u64 \<Rightarrow> nat \<Rightarrow> u64 \<Rightarrow> u8 \<Rightarrow> 'b page_table \<Rightarrow> 'b page_table res" where
  "cpu_store handler vbase 0 addr x s = Inl Blocked"
| "cpu_store handler vbase (Suc n) addr x s =
     (if vm_writable (unat (addr - vbase)) s
      then (if vm_phys (unat (addr - vbase)) s < length (physmem s)
            then Inr (s\<lparr>physmem := (physmem s)[vm_phys (unat (addr - vbase)) s := x]\<rparr>) else Inl Segv)
      else bindE (internal_fault_handler handler vbase addr s) (cpu_store handler vbase n addr x))"

datatype access = Load u64 | Store u64 u8

fun run_session ::
  "(nat \<Rightarrow> 'b page_table \<Rightarrow> 'b page_table res) \<Rightarrow> u64 \<Rightarrow> access list \<Rightarrow> 'b page_table \<Rightarrow> (bytes \<times> 'b page_table) res" where
  "run_session handler vbase [] s = Inr ([], s)"
| "run_session handler vbase (Load addr # ops) s =
     bindE (cpu_load handler vbase 2 addr s) (\<lambda>(x, s1).
     bindE (run_session handler vbase ops s1) (\<lambda>(xs, s2). Inr (x # xs, s2)))"
| "run_session handler vbase (Store addr x # ops) s =
     bindE (cpu_store handler vbase 3 addr x s) (run_session handler vbase ops)"

text \<open>The specification: a flat array, here with the offset of an address from \<open>vbase\<close>.\<close>

fun run_flat :: "u64 \<Rightarrow> access list \<Rightarrow> (nat \<Rightarrow> u8) \<Rightarrow> bytes \<times> (nat \<Rightarrow> u8)" where
  "run_flat vbase [] m = ([], m)"
| "run_flat vbase (Load addr # ops) m = apfst (Cons (m (unat (addr - vbase)))) (run_flat vbase ops m)"
| "run_flat vbase (Store addr x # ops) m = run_flat vbase ops (m(unat (addr - vbase) := x))"

fun access_addr :: "access \<Rightarrow> u64" where
  "access_addr (Load addr) = addr"
| "access_addr (Store addr x) = addr"

definition in_virtmem :: "u64 \<Rightarrow> nat \<Rightarrow> u64 \<Rightarrow> bool" where
  "in_virtmem vbase n addr \<longleftrightarrow> unat (addr - vbase) < n * BLOCK_SIZE"

definition vm_byte :: "('b \<Rightarrow> nat \<Rightarrow> bytes) \<Rightarrow> 'b page_table \<Rightarrow> nat \<Rightarrow> u8" where
  "vm_byte content s d = vm_view content s (d div BLOCK_SIZE) ! (d mod BLOCK_SIZE)"

section \<open>A store to a writable page\<close>

lemma fault_page_in:
  assumes "unat (addr - vbase) < n * BLOCK_SIZE" "n * BLOCK_SIZE \<le> 2 ^ 63"
  shows "fault_page vbase addr = unat (addr - vbase) div BLOCK_SIZE"
proof -
  let ?d = "addr - vbase"
  have "unat ?d < 2 ^ 63" using assms by (rule less_le_trans)
  then have "int (unat ?d) < int (2 ^ 63)" by (rule of_nat_less_iff [THEN iffD2])
  then have small: "uint ?d < 2 ^ 63" by simp
  then have s: "sint ?d = uint ?d" by (simp add: sint_uint signed_take_bit_int_eq_self order_trans [of _ 0])
  have q: "uint ?d div int BLOCK_SIZE = int (unat ?d div BLOCK_SIZE)" by (simp add: zdiv_int)
  have "unat ?d div BLOCK_SIZE \<le> unat ?d" by (rule div_le_dividend)
  also have "\<dots> < 2 ^ 64" using unsigned_less [of ?d] by simp
  finally have "unat (word_of_int (int (unat ?d div BLOCK_SIZE)) :: u64) = unat ?d div BLOCK_SIZE"
    by (simp add: unat_of_nat)
  then show ?thesis unfolding fault_page_def s Let_def q by simp
qed

lemma page_in: "d < n * BLOCK_SIZE \<Longrightarrow> d div BLOCK_SIZE < n"
  by (simp add: less_mult_imp_div_less)

lemma slice_nth: "i < n \<Longrightarrow> a + n \<le> length xs \<Longrightarrow> slice xs a n ! i = xs ! (a + i)"
  by (simp add: slice_def)

lemma frame_poke:
  assumes "f * BLOCK_SIZE + BLOCK_SIZE \<le> length (physmem s)" "g * BLOCK_SIZE + BLOCK_SIZE \<le> length (physmem s)" "i < BLOCK_SIZE"
  shows "frame_bytes (s\<lparr>physmem := (physmem s)[f * BLOCK_SIZE + i := x]\<rparr>) g =
    (if g = f then (frame_bytes s f)[i := x] else frame_bytes s g)"
proof (cases "g = f")
  case True
  then show ?thesis using assms by (simp add: frame_bytes_def slice_def drop_update_swap take_update_swap)
next
  case False
  then consider "Suc g \<le> f" | "Suc f \<le> g" by linarith
  then have "g * BLOCK_SIZE + BLOCK_SIZE \<le> f * BLOCK_SIZE + i \<or> f * BLOCK_SIZE + i < g * BLOCK_SIZE"
  proof cases
    case 1
    then show ?thesis using mult_le_mono1 [of "Suc g" f BLOCK_SIZE] by simp
  next
    case 2
    then show ?thesis using mult_le_mono1 [of "Suc f" g BLOCK_SIZE] assms(3) by simp
  qed
  then show ?thesis using False assms(1,3) by (simp add: frame_bytes_def blit_list_update)
qed

lemma core_poke:
  assumes core: "vm_core content sinv s A" and d: "vm_writable d s"
  shows "vm_core content sinv (s\<lparr>physmem := (physmem s)[vm_phys d s := x]\<rparr>) A"
    "vm_phys d s < length (physmem s)"
    "e < npages s * BLOCK_SIZE \<Longrightarrow> vm_byte content (s\<lparr>physmem := (physmem s)[vm_phys d s := x]\<rparr>) e = (if e = d then x else vm_byte content s e)"
proof -
  let ?p = "d div BLOCK_SIZE" and ?i = "d mod BLOCK_SIZE" and ?s = "s\<lparr>physmem := (physmem s)[vm_phys d s := x]\<rparr>"
  have pn: "?p < npages s" using d by (simp add: vm_writable_def page_in)
  have bits: "page_bits s ! ?p = PROT_RW" using d by (simp add: vm_writable_def)
  then have pA: "?p \<in> A" using vm_coreD(7) [OF core pn] by auto
  let ?f = "page_mapping s ! ?p"
  have room: "?f * BLOCK_SIZE + BLOCK_SIZE \<le> length (physmem s)" by (rule vm_core_frame [OF core pA])
  have i: "?i < BLOCK_SIZE" by simp
  have fb: "frame_bytes ?s (page_mapping s ! q) = (if q = ?p then (frame_bytes s ?f)[?i := x] else frame_bytes s (page_mapping s ! q))" if "q \<in> A" for q
    using frame_poke [OF room vm_core_frame [OF core that] i, of x] vm_coreD(9) [OF core] that pA by (auto simp: vm_phys_def inj_on_def)
  show "vm_core content sinv ?s A" using core fb bits unfolding vm_core_def by auto
  show "vm_phys d s < length (physmem s)" using room i unfolding vm_phys_def by linarith
  show "vm_byte content ?s e = (if e = d then x else vm_byte content s e)" if e: "e < npages s * BLOCK_SIZE"
  proof (cases "e div BLOCK_SIZE \<in> A")
    case True
    have ne: "e mod BLOCK_SIZE \<noteq> ?i" if "e div BLOCK_SIZE = ?p" "e \<noteq> d" using that by (metis div_mult_mod_eq)
    have len: "length (frame_bytes s ?f) = BLOCK_SIZE" using room by (simp add: frame_bytes_def slice_def)
    have b: "page_bits s ! (e div BLOCK_SIZE) \<noteq> 0" using vm_coreD(8) [OF core True] by auto
    show ?thesis using fb [OF True] b ne len i by (cases "e div BLOCK_SIZE = ?p") (auto simp: vm_byte_def vm_view_def)
  next
    case False
    then have "page_bits s ! (e div BLOCK_SIZE) = 0" using vm_coreD(7) [OF core page_in [OF e]] by simp
    then show ?thesis using False pA by (auto simp: vm_byte_def vm_view_def)
  qed
qed

lemma core_resident:
  assumes "vm_core content sinv s A" "p < npages s"
  shows "p \<in> A \<longleftrightarrow> page_bits s ! p \<noteq> 0"
proof
  show "page_bits s ! p \<noteq> 0" if "p \<in> A" using vm_coreD(8) [OF assms(1) that] by auto
  show "p \<in> A" if "page_bits s ! p \<noteq> 0" using vm_coreD(7) [OF assms] that by blast
qed

section \<open>Sessions\<close>

text \<open>What an access needs of the page table and its fault handler.\<close>

locale paging = block_store io content sinv nb
  for io :: "'b pager" and content :: "'b \<Rightarrow> nat \<Rightarrow> bytes" and sinv :: "'b \<Rightarrow> bool" and nb :: nat +
  fixes inv :: "'b page_table \<Rightarrow> nat set \<Rightarrow> bool" and handler :: "nat \<Rightarrow> 'b page_table \<Rightarrow> 'b page_table res"
  assumes hand: "handles content inv handler"
    and core: "inv s A \<Longrightarrow> vm_core content sinv s A"
    and poke: "inv s A \<Longrightarrow> vm_core content sinv (s\<lparr>physmem := pm\<rparr>) A \<Longrightarrow> inv (s\<lparr>physmem := pm\<rparr>) A"
begin

lemma take_fault:
  assumes inv: "inv s A" and addr: "in_virtmem vbase (npages s) addr" "npages s * BLOCK_SIZE \<le> 2 ^ 63"
    and page: "page = unat (addr - vbase) div BLOCK_SIZE" "page_bits s ! page \<noteq> PROT_RW"
  obtains s' A' where "internal_fault_handler handler vbase addr s = Inr s'" "inv s' A'" "npages s' = npages s" "startFrame s' = startFrame s"
    "page_bits s' ! page = (if page_bits s ! page = 0 then PROT_READ else PROT_RW)"
    "\<And>d. d < npages s * BLOCK_SIZE \<Longrightarrow> vm_byte content s' d = vm_byte content s d"
proof -
  have d: "unat (addr - vbase) < npages s * BLOCK_SIZE" using addr(1) by (simp add: in_virtmem_def)
  have pn: "page < npages s" using page(1) page_in [OF d] by simp
  have fp: "fault_page vbase addr = page" using fault_page_in [OF d addr(2)] page(1) by simp
  obtain s' A' where s': "handler page s = Inr s'" "inv s' A'" "npages s' = npages s" "startFrame s' = startFrame s"
      "page_bits s' ! page = (if page \<in> A then PROT_RW else PROT_READ)" "\<forall>p<npages s. vm_view content s' p = vm_view content s p"
    using hand inv pn page(2) unfolding handles_def by blast
  have "page \<in> A \<longleftrightarrow> page_bits s ! page \<noteq> 0"
    by (rule core_resident [OF core [OF inv] pn])
  then show ?thesis using that [of s' A'] s' fp pn page_in by (auto simp: internal_fault_handler_def vm_byte_def)
qed

lemma load_hit:
  assumes inv: "inv s A" and r: "vm_readable (unat (addr - vbase)) s"
  shows "cpu_load handler vbase (Suc n) addr s = Inr (vm_byte content s (unat (addr - vbase)), s)"
proof -
  let ?d = "unat (addr - vbase)"
  have d: "?d < npages s * BLOCK_SIZE" "page_bits s ! (?d div BLOCK_SIZE) \<noteq> 0" using r by (simp_all add: vm_readable_def)
  then have A: "?d div BLOCK_SIZE \<in> A" using core_resident [OF core [OF inv] page_in] by blast
  have room: "page_mapping s ! (?d div BLOCK_SIZE) * BLOCK_SIZE + BLOCK_SIZE \<le> length (physmem s)"
    by (rule vm_core_frame [OF core [OF inv] A])
  have i: "?d mod BLOCK_SIZE < BLOCK_SIZE" by simp
  have ph: "vm_phys ?d s < length (physmem s)" using room i unfolding vm_phys_def by linarith
  have "vm_byte content s ?d = physmem s ! vm_phys ?d s"
    using slice_nth [OF i room] d(2) by (simp add: vm_byte_def vm_view_def frame_bytes_def vm_phys_def)
  then show ?thesis using r ph by simp
qed

lemma cpu_load_ok:
  assumes inv: "inv s A" and addr: "in_virtmem vbase (npages s) addr" "npages s * BLOCK_SIZE \<le> 2 ^ 63"
  obtains s' A' where "cpu_load handler vbase 2 addr s = Inr (vm_byte content s (unat (addr - vbase)), s')" "inv s' A'"
    "npages s' = npages s" "startFrame s' = startFrame s" "\<And>d. d < npages s * BLOCK_SIZE \<Longrightarrow> vm_byte content s' d = vm_byte content s d"
proof (cases "vm_readable (unat (addr - vbase)) s")
  case True
  then show ?thesis using that [of s A] load_hit [OF inv True, of 1] inv by (simp add: numeral_2_eq_2)
next
  case False
  let ?d = "unat (addr - vbase)" let ?p = "?d div BLOCK_SIZE"
  have d: "?d < npages s * BLOCK_SIZE" using addr(1) by (simp add: in_virtmem_def)
  have bits: "page_bits s ! ?p = 0" using False d by (simp add: vm_readable_def)
  have rw: "page_bits s ! ?p \<noteq> PROT_RW" using bits by simp
  obtain s' A' where s': "internal_fault_handler handler vbase addr s = Inr s'" "inv s' A'" "npages s' = npages s" "startFrame s' = startFrame s"
      "page_bits s' ! ?p = (if page_bits s ! ?p = 0 then PROT_READ else PROT_RW)"
      "\<And>d. d < npages s * BLOCK_SIZE \<Longrightarrow> vm_byte content s' d = vm_byte content s d"
    using take_fault [OF inv addr refl rw] by blast
  have "vm_readable ?d s'" using s'(3,5) bits d by (simp add: vm_readable_def)
  from load_hit [OF s'(2) this, of 0] have "cpu_load handler vbase 2 addr s = Inr (vm_byte content s ?d, s')"
    using False s'(1) s'(6) [OF d] by (simp add: numeral_2_eq_2)
  then show ?thesis using that s'(2,3,4,6) by blast
qed

lemma store_hit:
  assumes inv: "inv s A" and w: "vm_writable (unat (addr - vbase)) s"
  obtains s' where "cpu_store handler vbase (Suc n) addr x s = Inr s'" "inv s' A" "npages s' = npages s" "startFrame s' = startFrame s"
    "\<And>d. d < npages s * BLOCK_SIZE \<Longrightarrow> vm_byte content s' d = (if d = unat (addr - vbase) then x else vm_byte content s d)"
proof -
  let ?s' = "s\<lparr>physmem := (physmem s)[vm_phys (unat (addr - vbase)) s := x]\<rparr>"
  note p = core_poke [OF core [OF inv] w]
  show ?thesis using that [of ?s'] w p(2) poke [OF inv p(1)] p(3) by simp
qed

lemma cpu_store_faults:
  assumes "\<not> vm_writable (unat (addr - vbase)) s" "internal_fault_handler handler vbase addr s = Inr s'"
  shows "cpu_store handler vbase (Suc n) addr x s = cpu_store handler vbase n addr x s'"
  using assms by simp

lemma store_resident:
  assumes inv: "inv s A" and addr: "in_virtmem vbase (npages s) addr" "npages s * BLOCK_SIZE \<le> 2 ^ 63"
    and res: "page_bits s ! (unat (addr - vbase) div BLOCK_SIZE) \<noteq> 0"
  shows "\<exists>s' A'. cpu_store handler vbase (Suc (Suc m)) addr x s = Inr s' \<and> inv s' A' \<and> npages s' = npages s \<and> startFrame s' = startFrame s \<and>
    (\<forall>d<npages s * BLOCK_SIZE. vm_byte content s' d = (if d = unat (addr - vbase) then x else vm_byte content s d))"
proof (cases "vm_writable (unat (addr - vbase)) s")
  case True
  show ?thesis by (rule store_hit [OF inv True, of "Suc m" x]) blast
next
  case False
  let ?d = "unat (addr - vbase)" let ?p = "?d div BLOCK_SIZE"
  have d: "?d < npages s * BLOCK_SIZE" using addr(1) by (simp add: in_virtmem_def)
  have rw: "page_bits s ! ?p \<noteq> PROT_RW" using False d by (simp add: vm_writable_def)
  obtain s1 A1 where s1: "internal_fault_handler handler vbase addr s = Inr s1" "inv s1 A1" "npages s1 = npages s" "startFrame s1 = startFrame s"
      "page_bits s1 ! ?p = (if page_bits s ! ?p = 0 then PROT_READ else PROT_RW)"
      "\<And>d. d < npages s * BLOCK_SIZE \<Longrightarrow> vm_byte content s1 d = vm_byte content s d"
    using take_fault [OF inv addr refl rw] by blast
  have w: "vm_writable ?d s1" using s1(3,5) res d by (simp add: vm_writable_def)
  obtain s' where s': "cpu_store handler vbase (Suc m) addr x s1 = Inr s'" "inv s' A1" "npages s' = npages s1" "startFrame s' = startFrame s1"
      "\<And>d. d < npages s1 * BLOCK_SIZE \<Longrightarrow> vm_byte content s' d = (if d = ?d then x else vm_byte content s1 d)"
    using store_hit [OF s1(2) w] by blast
  have "vm_byte content s' d = (if d = ?d then x else vm_byte content s d)" if "d < npages s * BLOCK_SIZE" for d
    using s'(5) [of d] s1(3) s1(6) [OF that] that by simp
  then show ?thesis using s'(1-4) s1(3,4) cpu_store_faults [OF False s1(1)] by auto
qed

lemma cpu_store_ok:
  assumes inv: "inv s A" and addr: "in_virtmem vbase (npages s) addr" "npages s * BLOCK_SIZE \<le> 2 ^ 63"
  shows "\<exists>s' A'. cpu_store handler vbase 3 addr x s = Inr s' \<and> inv s' A' \<and> npages s' = npages s \<and> startFrame s' = startFrame s \<and>
    (\<forall>d<npages s * BLOCK_SIZE. vm_byte content s' d = (if d = unat (addr - vbase) then x else vm_byte content s d))"
proof -
  let ?d = "unat (addr - vbase)" let ?p = "?d div BLOCK_SIZE"
  have d: "?d < npages s * BLOCK_SIZE" using addr(1) by (simp add: in_virtmem_def)
  show ?thesis
  proof (cases "page_bits s ! ?p = 0")
    case False
    then show ?thesis using store_resident [OF inv addr False, of 1 x] by (simp add: numeral_3_eq_3)
  next
    case True
    then have rw: "page_bits s ! ?p \<noteq> PROT_RW" "\<not> vm_writable ?d s" by (simp_all add: vm_writable_def)
    obtain s1 A1 where s1: "internal_fault_handler handler vbase addr s = Inr s1" "inv s1 A1" "npages s1 = npages s" "startFrame s1 = startFrame s"
        "page_bits s1 ! ?p = (if page_bits s ! ?p = 0 then PROT_READ else PROT_RW)"
        "\<And>d. d < npages s * BLOCK_SIZE \<Longrightarrow> vm_byte content s1 d = vm_byte content s d"
      using take_fault [OF inv addr refl rw(1)] by blast
    have addr1: "in_virtmem vbase (npages s1) addr" "npages s1 * BLOCK_SIZE \<le> 2 ^ 63" using addr s1(3) by simp_all
    have res1: "page_bits s1 ! ?p \<noteq> 0" using s1(5) by simp
    from store_resident [OF s1(2) addr1 res1, of 0 x] obtain s' A'
      where "cpu_store handler vbase (Suc (Suc 0)) addr x s1 = Inr s'" "inv s' A'" "npages s' = npages s1" "startFrame s' = startFrame s1"
        "\<forall>d<npages s1 * BLOCK_SIZE. vm_byte content s' d = (if d = ?d then x else vm_byte content s1 d)"
      by (elim exE conjE)
    then show ?thesis using s1(3,4,6) cpu_store_faults [OF rw(2) s1(1), of "Suc (Suc 0)" x]
      unfolding numeral_3_eq_3 by (intro exI [of _ s'] exI [of _ A']) simp
  qed
qed

lemma session_ok:
  assumes "inv s A" "\<forall>op\<in>set ops. in_virtmem vbase (npages s) (access_addr op)" "npages s * BLOCK_SIZE \<le> 2 ^ 63"
    "\<forall>d<npages s * BLOCK_SIZE. vm_byte content s d = m d"
  shows "\<exists>s' A'. run_session handler vbase ops s = Inr (fst (run_flat vbase ops m), s') \<and> inv s' A' \<and> npages s' = npages s \<and> startFrame s' = startFrame s \<and>
    (\<forall>d<npages s * BLOCK_SIZE. vm_byte content s' d = snd (run_flat vbase ops m) d)"
  using assms
proof (induction ops arbitrary: s A m)
  case Nil
  then show ?case by auto
next
  case (Cons op ops)
  show ?case
  proof (cases op)
    case (Load addr)
    then have addr: "in_virtmem vbase (npages s) addr" using Cons.prems(2) by simp
    obtain s1 A1 where s1: "cpu_load handler vbase 2 addr s = Inr (vm_byte content s (unat (addr - vbase)), s1)" "inv s1 A1"
        "npages s1 = npages s" "startFrame s1 = startFrame s" "\<And>d. d < npages s * BLOCK_SIZE \<Longrightarrow> vm_byte content s1 d = vm_byte content s d"
      using cpu_load_ok [OF Cons.prems(1) addr Cons.prems(3)] by blast
    have "vm_byte content s (unat (addr - vbase)) = m (unat (addr - vbase))" using Cons.prems(4) addr by (simp add: in_virtmem_def)
    moreover obtain s2 A2 where "run_session handler vbase ops s1 = Inr (fst (run_flat vbase ops m), s2)" "inv s2 A2" "npages s2 = npages s1" "startFrame s2 = startFrame s1"
        "\<forall>d<npages s1 * BLOCK_SIZE. vm_byte content s2 d = snd (run_flat vbase ops m) d"
      using Cons.IH [OF s1(2), of m] Cons.prems(2-4) s1(3,5) by auto
    ultimately show ?thesis using Load s1(1,3,4) by auto
  next
    case (Store addr x)
    then have addr: "in_virtmem vbase (npages s) addr" using Cons.prems(2) by simp
    obtain s1 A1 where s1: "cpu_store handler vbase 3 addr x s = Inr s1" "inv s1 A1" "npages s1 = npages s" "startFrame s1 = startFrame s"
        "\<forall>d<npages s * BLOCK_SIZE. vm_byte content s1 d = (if d = unat (addr - vbase) then x else vm_byte content s d)"
      using cpu_store_ok [OF Cons.prems(1) addr Cons.prems(3), of x] by blast
    define m' where "m' = m(unat (addr - vbase) := x)"
    have ops: "\<forall>op\<in>set ops. in_virtmem vbase (npages s1) (access_addr op)" "npages s1 * BLOCK_SIZE \<le> 2 ^ 63"
        "\<forall>d<npages s1 * BLOCK_SIZE. vm_byte content s1 d = m' d"
      using Cons.prems(2-4) s1(3,5) by (simp_all add: m'_def)
    from Cons.IH [OF s1(2) ops] show ?thesis using Store s1(1,3,4) by (simp flip: m'_def)
  qed
qed

end

end
