(* ===== verification/BB_Stores.thy ===== *)
theory BB_Stores
  imports BB_Session BB_Raid BB_Cluster
begin

text \<open>
  The backing stores of the page table: process memory (\<^verbatim>\<open>ip6/lib/vmem/mem.c\<close>), a file
  (\<^verbatim>\<open>disk.c\<close>), remote memory (\<^verbatim>\<open>rmem.c\<close>) and striped remote memory (\<^verbatim>\<open>rrmem.c\<close>), and the choice
  between them in \<^verbatim>\<open>readData\<close> and \<^verbatim>\<open>writeData\<close>. Memory, file and remote memory keep the contract
  \<open>block_store\<close>; for remote memory this rests on the client library and the servers.
\<close>

section \<open>Process memory\<close>

record mem_store =
  mem_list :: "bytes list"
  mem_block_size :: nat
  mem_nblocks :: int

text \<open>What \<^verbatim>\<open>malloc\<close> leaves in a block is unknown: \<open>junk\<close>.\<close>

definition fill_mem :: "(nat \<Rightarrow> bytes) \<Rightarrow> mem_store \<Rightarrow> mem_store" where
  "fill_mem junk r = r\<lparr>mem_list := map (\<lambda>i. take (mem_block_size r) (junk i @ replicate (mem_block_size r) 0)) [0..<nat (mem_nblocks r)]\<rparr>"

definition mem_allocate :: "(nat \<Rightarrow> bytes) \<Rightarrow> int \<Rightarrow> mem_store" where
  "mem_allocate junk nblocks = fill_mem junk \<lparr>mem_list = [], mem_block_size = BLOCK_SIZE, mem_nblocks = nblocks\<rparr>"

text \<open>The block number is an \<^verbatim>\<open>int\<close>; the page table passes a \<^verbatim>\<open>uint64_t\<close>.\<close>

definition c_int :: "nat \<Rightarrow> int" where
  "c_int n = sint (of_nat n :: 32 word)"

definition mem_write :: "int \<Rightarrow> bytes \<Rightarrow> mem_store \<Rightarrow> mem_store res" where
  "mem_write block dat r =
     (if block < 0 \<or> mem_nblocks r \<le> block then Inl Abort
      else if length (mem_list r) \<le> nat block then Inl Segv
      else bindE (put (mem_list r ! nat block) 0 (take (mem_block_size r) dat)) (\<lambda>b.
        Inr (r\<lparr>mem_list := (mem_list r)[nat block := b]\<rparr>)))"

definition mem_read :: "int \<Rightarrow> mem_store \<Rightarrow> bytes res" where
  "mem_read block r =
     (if block < 0 \<or> mem_nblocks r \<le> block then Inl Abort
      else if length (mem_list r) \<le> nat block then Inl Segv
      else Inr (take (mem_block_size r) (mem_list r ! nat block)))"

definition mem_blocks :: "mem_store \<Rightarrow> int" where
  "mem_blocks r = mem_nblocks r"

section \<open>A file\<close>

record disk =
  d_file :: bytes
  block_size :: nat
  nblocks :: nat

definition ftruncate :: "bytes \<Rightarrow> nat \<Rightarrow> bytes" where
  "ftruncate f n = take n f @ replicate (n - length f) 0"

definition pread :: "bytes \<Rightarrow> nat \<Rightarrow> nat \<Rightarrow> bytes" where
  "pread f n off = slice f off n"

definition pwrite :: "bytes \<Rightarrow> bytes \<Rightarrow> nat \<Rightarrow> bytes" where
  "pwrite f bs off = blit (f @ replicate (off + length bs - length f) 0) off bs"

text \<open>\<open>old\<close> is the file as it was, or nothing when it cannot be opened.\<close>

definition disk_open :: "bytes option \<Rightarrow> bool \<Rightarrow> nat \<Rightarrow> disk option" where
  "disk_open old trunc_ok n =
     (case old of
        None \<Rightarrow> None
      | Some f \<Rightarrow>
          if trunc_ok then Some \<lparr>d_file = ftruncate f (n * BLOCK_SIZE), block_size = BLOCK_SIZE, nblocks = n\<rparr> else None)"

definition disk_write :: "nat \<Rightarrow> bytes \<Rightarrow> disk \<Rightarrow> disk res" where
  "disk_write block dat d =
     (if nblocks d \<le> block then Inl Abort
      else if length (take (block_size d) dat) \<noteq> block_size d then Inl Segv
      else Inr (d\<lparr>d_file := pwrite (d_file d) (take (block_size d) dat) (block * block_size d)\<rparr>))"

definition disk_read :: "nat \<Rightarrow> disk \<Rightarrow> bytes res" where
  "disk_read block d =
     (if nblocks d \<le> block then Inl Abort
      else
        let bs = pread (d_file d) (block_size d) (block * block_size d) in
        if length bs \<noteq> block_size d then Inl Abort else Inr bs)"

definition disk_nblocks :: "disk \<Rightarrow> nat" where
  "disk_nblocks d = nblocks d"

section \<open>Remote memory\<close>

text \<open>\<open>rm_target\<close> is the static \<^verbatim>\<open>target_ip\<close>.\<close>

record rmem =
  rm_target :: sockaddr_in6
  rm_list :: "ip6_memaddr list"
  rm_nblocks :: nat

fun fill_rmem ::
  "'n netif \<Rightarrow> host_list \<Rightarrow> nat \<Rightarrow> nat \<Rightarrow> nat list \<Rightarrow> rmem \<Rightarrow> 'n client \<Rightarrow> (rmem \<times> 'n client) res" where
  "fill_rmem nif hl split nh [] r c = Inr (r, c)"
| "fill_rmem nif hl split nh (i # is) r c =
     (let off = split * i; len = (if i = nh - 1 then rm_nblocks r - off else split) in
      bindE (get_ip6_target hl (of_nat i)) (\<lambda>ip.
      bindE (allocate_bulk_rmem nif ((rm_target r)\<lparr>sin6_addr := ip\<rparr>) (of_nat len) c) (\<lambda>(temp, tgt', c').
        fill_rmem nif hl split nh is (r\<lparr>rm_target := tgt', rm_list := blit (rm_list r) off temp\<rparr>) c')))"

text \<open>\<open>tgt\<close> is what \<^verbatim>\<open>init_sockets\<close> returns and \<open>junk\<close> what \<^verbatim>\<open>malloc\<close> leaves.\<close>

definition rmem_allocate ::
  "'n netif \<Rightarrow> host_list \<Rightarrow> sockaddr_in6 \<Rightarrow> ip6_memaddr \<Rightarrow> nat \<Rightarrow> 'n client \<Rightarrow> (rmem \<times> 'n client) res" where
  "rmem_allocate nif hl tgt junk n c =
     (let nh = nat (get_num_hosts hl) in
      if nh = 0 then Inl Fpe
      else fill_rmem nif hl (n div nh) nh [0..<nh] \<lparr>rm_target = tgt, rm_list = replicate n junk, rm_nblocks = n\<rparr> c)"

definition rmem_write :: "'n netif \<Rightarrow> nat \<Rightarrow> bytes \<Rightarrow> rmem \<Rightarrow> 'n client \<Rightarrow> (rmem \<times> 'n client) res" where
  "rmem_write nif block dat r c =
     (if rm_nblocks r \<le> block then Inl Abort
      else if length (rm_list r) \<le> block then Inl Segv
      else
        bindE (write_rmem nif (rm_target r) (rm_list r ! block) (take BLOCK_SIZE dat) c) (\<lambda>(tgt', a', c').
          Inr (r\<lparr>rm_target := tgt', rm_list := (rm_list r)[block := a']\<rparr>, c')))"

definition rmem_read :: "'n netif \<Rightarrow> nat \<Rightarrow> u64 \<Rightarrow> rmem \<Rightarrow> 'n client \<Rightarrow> (rmem \<times> 'n client) res" where
  "rmem_read nif block dst r c =
     (if rm_nblocks r \<le> block then Inl Abort
      else if length (rm_list r) \<le> block then Inl Segv
      else
        bindE (read_rmem nif (rm_target r) (rm_list r ! block) dst (of_nat BLOCK_SIZE) c) (\<lambda>(n, tgt', a', c').
          Inr (r\<lparr>rm_target := tgt', rm_list := (rm_list r)[block := a']\<rparr>, c')))"

fun free_hosts :: "'n netif \<Rightarrow> nat \<Rightarrow> nat list \<Rightarrow> rmem \<Rightarrow> 'n client \<Rightarrow> (rmem \<times> 'n client) res" where
  "free_hosts nif split [] r c = Inr (r, c)"
| "free_hosts nif split (i # is) r c =
     (if length (rm_list r) \<le> split * i then Inl Segv
      else
        bindE (free_rmem nif (rm_target r) (rm_list r ! (split * i)) c) (\<lambda>(tgt', a', c').
          free_hosts nif split is (r\<lparr>rm_target := tgt', rm_list := (rm_list r)[split * i := a']\<rparr>) c'))"

definition rmem_deallocate :: "'n netif \<Rightarrow> host_list \<Rightarrow> rmem \<Rightarrow> 'n client \<Rightarrow> 'n client res" where
  "rmem_deallocate nif hl r c =
     (let nh = nat (get_num_hosts hl) in
      if nh = 0 then Inl Fpe
      else bindE (free_hosts nif (rm_nblocks r div nh) [0..<nh] r c) (\<lambda>(_, c'). Inr c'))"

section \<open>The store of the page table\<close>

text \<open>
  The four stores of \<^verbatim>\<open>page_table.c\<close>. \<open>bk_rx_buf\<close> is the local buffer of a striped transfer. A frame is
  a buffer of the client library: \<open>dst\<close> is where the library receives a block.
\<close>

datatype paging_system = MEM_PAGING | RMEM_PAGING | DISK_PAGING | RRMEM_PAGING

record 'n backends =
  bk_mem :: mem_store
  bk_disk :: disk
  bk_rmem :: rmem
  bk_rrmem :: rrmem
  bk_nhosts :: nat
  bk_rx_buf :: bytes
  bk_client :: "'n client"

definition load_res :: "mem \<Rightarrow> u64 \<Rightarrow> nat \<Rightarrow> bytes res" where
  "load_res m a n = guardE Segv (load m a n)"

fun store_read :: "paging_system \<Rightarrow> 'n netif \<Rightarrow> u64 \<Rightarrow> nat \<Rightarrow> 'n backends \<Rightarrow> (bytes \<times> 'n backends) res" where
  "store_read MEM_PAGING nif dst page b = bindE (mem_read (c_int page) (bk_mem b)) (\<lambda>bs. Inr (bs, b))"
| "store_read RMEM_PAGING nif dst page b =
     bindE (rmem_read nif page dst (bk_rmem b) (bk_client b)) (\<lambda>(r, c).
     bindE (load_res (cl_mem c) dst BLOCK_SIZE) (\<lambda>bs. Inr (bs, b\<lparr>bk_rmem := r, bk_client := c\<rparr>)))"
| "store_read DISK_PAGING nif dst page b = bindE (disk_read page (bk_disk b)) (\<lambda>bs. Inr (bs, b))"
| "store_read RRMEM_PAGING nif dst page b =
     bindE (load_res (cl_mem (bk_client b)) dst BLOCK_SIZE) (\<lambda>old.
     bindE (rrmem_read nif (bk_nhosts b) (bk_rx_buf b) (bk_rrmem b) (c_int page) old (bk_client b)) (\<lambda>(bs, r, c).
       Inr (bs, b\<lparr>bk_rrmem := r, bk_client := c\<rparr>)))"

fun store_write :: "paging_system \<Rightarrow> 'n netif \<Rightarrow> nat \<Rightarrow> bytes \<Rightarrow> 'n backends \<Rightarrow> 'n backends res" where
  "store_write MEM_PAGING nif page dat b = bindE (mem_write (c_int page) dat (bk_mem b)) (\<lambda>m. Inr (b\<lparr>bk_mem := m\<rparr>))"
| "store_write RMEM_PAGING nif page dat b =
     bindE (rmem_write nif page dat (bk_rmem b) (bk_client b)) (\<lambda>(r, c). Inr (b\<lparr>bk_rmem := r, bk_client := c\<rparr>))"
| "store_write DISK_PAGING nif page dat b = bindE (disk_write page dat (bk_disk b)) (\<lambda>d. Inr (b\<lparr>bk_disk := d\<rparr>))"
| "store_write RRMEM_PAGING nif page dat b =
     bindE (rrmem_write nif (bk_nhosts b) (bk_rx_buf b) (bk_rrmem b) (c_int page) dat (bk_client b)) (\<lambda>(r, c).
       Inr (b\<lparr>bk_rrmem := r, bk_client := c\<rparr>))"

definition pager_of :: "paging_system \<Rightarrow> 'n netif \<Rightarrow> u64 \<Rightarrow> 'n backends pager" where
  "pager_of sys nif dst = \<lparr>pg_read = store_read sys nif dst, pg_write = store_write sys nif\<rparr>"

section \<open>The stores keep the contract\<close>

definition mem_sinv :: "nat \<Rightarrow> 'n backends \<Rightarrow> bool" where
  "mem_sinv nb b \<longleftrightarrow>
     mem_nblocks (bk_mem b) = int nb \<and> nb < 2 ^ 31 \<and> mem_block_size (bk_mem b) = BLOCK_SIZE \<and>
     length (mem_list (bk_mem b)) = nb \<and> (\<forall>x\<in>set (mem_list (bk_mem b)). length x = BLOCK_SIZE)"

definition mem_content :: "'n backends \<Rightarrow> nat \<Rightarrow> bytes" where
  "mem_content b p = mem_list (bk_mem b) ! p"

lemma c_int_small: "n < 2 ^ 31 \<Longrightarrow> c_int n = int n"
  by (simp add: c_int_def sint_uint uint_nat unat_of_nat signed_take_bit_int_eq_self)

interpretation mem_bs: block_store "pager_of MEM_PAGING nif dst" mem_content "mem_sinv nb" nb for nif dst nb
proof
  fix b :: "'a backends" and p and d :: bytes assume b: "mem_sinv nb b" "p < nb"
  then have n: "c_int p = int p" by (auto simp: mem_sinv_def intro!: c_int_small)
  show len: "length (mem_content b p) = BLOCK_SIZE" using b by (auto simp: mem_content_def mem_sinv_def)
  show "\<exists>b'. pg_read (pager_of MEM_PAGING nif dst) p b = Inr (mem_content b p, b') \<and> mem_sinv nb b' \<and>
      (\<forall>q<nb. mem_content b' q = mem_content b q)"
    using b n len by (auto simp: pager_of_def mem_read_def mem_sinv_def mem_content_def)
  show "\<exists>b'. pg_write (pager_of MEM_PAGING nif dst) p d b = Inr b' \<and> mem_sinv nb b' \<and> mem_content b' p = d \<and>
      (\<forall>q<nb. q \<noteq> p \<longrightarrow> mem_content b' q = mem_content b q)" if d: "length d = BLOCK_SIZE"
  proof -
    have "put (mem_list (bk_mem b) ! p) 0 d = Inr d"
      using len d by (simp add: put_def blit_def mem_content_def)
    then show ?thesis using b n d set_update_subset_insert [of "mem_list (bk_mem b)" p d]
      by (auto simp: pager_of_def mem_write_def mem_sinv_def mem_content_def)
  qed
qed

definition disk_sinv :: "nat \<Rightarrow> 'n backends \<Rightarrow> bool" where
  "disk_sinv nb b \<longleftrightarrow>
     nblocks (bk_disk b) = nb \<and> block_size (bk_disk b) = BLOCK_SIZE \<and> length (d_file (bk_disk b)) = nb * BLOCK_SIZE"

definition disk_content :: "'n backends \<Rightarrow> nat \<Rightarrow> bytes" where
  "disk_content b p = slice (d_file (bk_disk b)) (p * BLOCK_SIZE) BLOCK_SIZE"

interpretation disk_bs: block_store "pager_of DISK_PAGING nif dst" disk_content "disk_sinv nb" nb for nif dst nb
proof
  fix b :: "'a backends" and p and d :: bytes assume b: "disk_sinv nb b" "p < nb"
  have room: "p * BLOCK_SIZE + BLOCK_SIZE \<le> length (d_file (bk_disk b))" using b frame_end [of p nb] by (simp add: disk_sinv_def)
  then show len: "length (disk_content b p) = BLOCK_SIZE" by (simp add: disk_content_def slice_def)
  show "\<exists>b'. pg_read (pager_of DISK_PAGING nif dst) p b = Inr (disk_content b p, b') \<and> disk_sinv nb b' \<and>
      (\<forall>q<nb. disk_content b' q = disk_content b q)"
    using b len by (auto simp: pager_of_def disk_read_def disk_sinv_def disk_content_def pread_def Let_def)
  show "\<exists>b'. pg_write (pager_of DISK_PAGING nif dst) p d b = Inr b' \<and> disk_sinv nb b' \<and> disk_content b' p = d \<and>
      (\<forall>q<nb. q \<noteq> p \<longrightarrow> disk_content b' q = disk_content b q)" if d: "length d = BLOCK_SIZE"
  proof -
    have pw: "pwrite (d_file (bk_disk b)) d (p * BLOCK_SIZE) = blit (d_file (bk_disk b)) (p * BLOCK_SIZE) d"
      using room d by (simp add: pwrite_def)
    have "slice (blit (d_file (bk_disk b)) (p * BLOCK_SIZE) d) (q * BLOCK_SIZE) BLOCK_SIZE =
        (if q = p then d else slice (d_file (bk_disk b)) (q * BLOCK_SIZE) BLOCK_SIZE)" if "q < nb" for q
      using frame_blit [OF d room, of q] that b frame_end [of q nb] by (simp add: disk_sinv_def)
    then show ?thesis using b d room pw
      by (auto simp: pager_of_def disk_write_def disk_sinv_def disk_content_def)
  qed
qed

section \<open>Remote memory keeps the contract\<close>

text \<open>The blocks are mapped on hosts that serve, and apart from each other.\<close>

definition remote_blocks :: "(u16 \<Rightarrow> bool) \<Rightarrow> rview \<Rightarrow> ip6_memaddr list \<Rightarrow> bool" where
  "remote_blocks host v as \<longleftrightarrow>
     (\<forall>a\<in>set as. host (subid a) \<and> rmapped v a BLOCK_SIZE) \<and>
     (\<forall>i<length as. \<forall>j<length as. i \<noteq> j \<longrightarrow> chunk_sep (as ! i) (as ! j))"

definition rmem_sinv :: "topology \<Rightarrow> (u16 \<Rightarrow> bool) \<Rightarrow> u64 \<Rightarrow> nat \<Rightarrow> cluster backends \<Rightarrow> bool" where
  "rmem_sinv topo host dst nb b \<longleftrightarrow>
     client_idle host (bk_client b) \<and> sin6_port (rm_target (bk_rmem b)) = t_port topo \<and>
     rm_nblocks (bk_rmem b) = nb \<and> length (rm_list (bk_rmem b)) = nb \<and> mapped (cl_mem (bk_client b)) dst BLOCK_SIZE \<and>
     remote_blocks host (cluster_view (cl_net (bk_client b))) (rm_list (bk_rmem b))"

definition rmem_content :: "cluster backends \<Rightarrow> nat \<Rightarrow> bytes" where
  "rmem_content b p = rload (cluster_view (cl_net (bk_client b))) BLOCK_SIZE (rm_list (bk_rmem b) ! p)"

lemma remote_blocks_upd:
  assumes "remote_blocks host v as" "i < length as" "subid a = subid (as ! i)" "paddr a = paddr (as ! i)"
    and "\<And>b. rmapped v b BLOCK_SIZE \<Longrightarrow> rmapped v' b BLOCK_SIZE"
  shows "remote_blocks host v' (as[i := a])"
proof -
  have same: "subid (as[i := a] ! j) = subid (as ! j)" "paddr (as[i := a] ! j) = paddr (as ! j)" for j
    using assms(2-4) by (cases "i = j"; simp)+
  have "host (subid b) \<and> rmapped v' b BLOCK_SIZE" if bs: "b \<in> set (as[i := a])" for b
  proof -
    obtain j where j: "j < length as" "b = as[i := a] ! j" using bs by (metis in_set_conv_nth length_list_update)
    then have "host (subid (as ! j)) \<and> rmapped v (as ! j) BLOCK_SIZE" using assms(1) by (simp add: remote_blocks_def)
    then show ?thesis using same [of j] assms(5) [of "as ! j"] j(2) by (simp add: rmapped_def)
  qed
  moreover have "chunk_sep (as[i := a] ! j) (as[i := a] ! k)" if "j < length as" "k < length as" "j \<noteq> k" for j k
    using assms(1) that same [of j] same [of k] by (simp add: remote_blocks_def chunk_sep_def)
  ultimately show ?thesis by (simp add: remote_blocks_def)
qed

lemma rload_upd:
  assumes "i < length as" "subid a = subid (as ! i)" "paddr a = paddr (as ! i)"
  shows "rload v n (as[i := a] ! q) = rload v n (as ! q)"
  using assms by (cases "i = q") (simp_all add: rload_def)

interpretation rmem_bs: block_store "pager_of RMEM_PAGING (cluster_net topo pick) dst" rmem_content "rmem_sinv topo host dst nb" nb
  for topo pick host dst nb
proof
  fix b :: "cluster backends" and p and d :: bytes assume b: "rmem_sinv topo host dst nb b" "p < nb"
  let ?r = "bk_rmem b" and ?c = "bk_client b"
  let ?v = "cluster_view (cl_net ?c)" and ?a = "rm_list ?r ! p"
  have inv: "cm.ready host ?c" "sin6_port (rm_target ?r) = t_port topo" "rm_nblocks ?r = nb" "length (rm_list ?r) = nb"
      "mapped (cl_mem ?c) dst BLOCK_SIZE" "remote_blocks host ?v (rm_list ?r)"
    using b(1) by (simp_all add: rmem_sinv_def client_idle_ready)
  have a: "host (subid ?a)" "rmapped ?v ?a BLOCK_SIZE" using inv(4,6) b(2) by (simp_all add: remote_blocks_def)
  show len: "length (rmem_content b p) = BLOCK_SIZE" using length_rload [OF a(2)] by (simp add: rmem_content_def)
  have B: "unat (of_nat BLOCK_SIZE :: u16) = BLOCK_SIZE" "BLOCK_SIZE \<le> MAX_DATA" by (simp_all add: BLOCK_SIZE_def MAX_DATA_def)
  show "\<exists>b'. pg_read (pager_of RMEM_PAGING (cluster_net topo pick) dst) p b = Inr (rmem_content b p, b') \<and>
      rmem_sinv topo host dst nb b' \<and> (\<forall>q<nb. rmem_content b' q = rmem_content b q)"
  proof -
    let ?a' = "?a\<lparr>cmd := READ_CMD, args := ucast (of_nat BLOCK_SIZE :: u16)\<rparr>"
    obtain tgt' c' where c': "read_rmem (cluster_net topo pick) (rm_target ?r) ?a dst (of_nat BLOCK_SIZE) ?c = Inr (BLOCK_SIZE, tgt', ?a', c')"
        "sin6_port tgt' = t_port topo" "cm.ready host c'" "cluster_view (cl_net c') = ?v"
        "cl_mem c' = overwrite (cl_mem ?c) dst (rload ?v BLOCK_SIZE ?a)"
      using cm.read_rmem_ok [OF inv(1,2) a(1), of "of_nat BLOCK_SIZE" dst pick] a(2) B inv(5) by auto
    have ld: "load (cl_mem c') dst BLOCK_SIZE = Some (rload ?v BLOCK_SIZE ?a)"
      using load_overwrite_same [of "cl_mem ?c" dst "rload ?v BLOCK_SIZE ?a"] length_rload [OF a(2)] inv(5) c'(5)
      by (simp add: BLOCK_SIZE_def)
    let ?b' = "b\<lparr>bk_rmem := ?r\<lparr>rm_target := tgt', rm_list := (rm_list ?r)[p := ?a']\<rparr>, bk_client := c'\<rparr>"
    have "pg_read (pager_of RMEM_PAGING (cluster_net topo pick) dst) p b = Inr (rmem_content b p, ?b')"
      using b(2) inv(3,4) c'(1) ld by (simp add: pager_of_def rmem_read_def load_res_def rmem_content_def guardE_def)
    moreover have "rmem_sinv topo host dst nb ?b'"
      using inv c' remote_blocks_upd [OF inv(6), of p ?a' ?v] b(2) by (simp add: rmem_sinv_def client_idle_ready)
    moreover have "rmem_content ?b' q = rmem_content b q" for q
      using rload_upd [of p "rm_list ?r" ?a'] b(2) inv(4) c'(4) by (simp add: rmem_content_def)
    ultimately show ?thesis by blast
  qed
  show "\<exists>b'. pg_write (pager_of RMEM_PAGING (cluster_net topo pick) dst) p d b = Inr b' \<and>
      rmem_sinv topo host dst nb b' \<and> rmem_content b' p = d \<and> (\<forall>q<nb. q \<noteq> p \<longrightarrow> rmem_content b' q = rmem_content b q)"
    if d: "length d = BLOCK_SIZE"
  proof -
    let ?a' = "?a\<lparr>cmd := WRITE_CMD\<rparr>"
    obtain tgt' c' where c': "write_rmem (cluster_net topo pick) (rm_target ?r) ?a d ?c = Inr (tgt', ?a', c')"
        "sin6_port tgt' = t_port topo" "cm.ready host c'" "cl_mem c' = cl_mem ?c" "cluster_view (cl_net c') = put_chunk ?v (?a, d)"
      using cm.write_rmem_ok [OF inv(1,2) a(1), of d pick] a(2) B d by auto
    define b' where "b' = b\<lparr>bk_rmem := ?r\<lparr>rm_target := tgt', rm_list := (rm_list ?r)[p := ?a']\<rparr>, bk_client := c'\<rparr>"
    have "pg_write (pager_of RMEM_PAGING (cluster_net topo pick) dst) p d b = Inr b'"
      using b(2) inv(3,4) c'(1) d by (simp add: pager_of_def rmem_write_def b'_def)
    moreover have "rmem_sinv topo host dst nb b'"
      using inv c' remote_blocks_upd [OF inv(6), of p ?a' "put_chunk ?v (?a, d)"] b(2) rmapped_put_chunk
      by (simp add: rmem_sinv_def client_idle_ready b'_def)
    moreover have "rmem_content b' q = rload (put_chunk ?v (?a, d)) BLOCK_SIZE (rm_list ?r ! q)" for q
      using rload_upd [of p "rm_list ?r" ?a'] b(2) inv(4) c'(5) by (simp add: rmem_content_def b'_def)
    moreover have "rload (put_chunk ?v (?a, d)) BLOCK_SIZE ?a = d"
      using rload_put_chunk_same [of ?v ?a d] a(2) d by (simp add: BLOCK_SIZE_def)
    moreover have "rload (put_chunk ?v (?a, d)) BLOCK_SIZE (rm_list ?r ! q) = rload ?v BLOCK_SIZE (rm_list ?r ! q)" if "q < nb" "q \<noteq> p" for q
    proof -
      have "chunk_sep (rm_list ?r ! q) ?a" using inv(4,6) that b(2) by (simp add: remote_blocks_def)
      then show ?thesis using rload_put_chunks_other [of "[(?a, d)]" "rm_list ?r ! q" ?v] d by simp
    qed
    ultimately show ?thesis using b(2) by (intro exI [of _ b']) (simp add: rmem_content_def [of b])
  qed
qed

section \<open>Allocating remote memory\<close>

definition zero_block :: "rview \<Rightarrow> ip6_memaddr \<Rightarrow> bool" where
  "zero_block v a \<longleftrightarrow> rload v BLOCK_SIZE a = replicate BLOCK_SIZE 0"

lemma mapped_cell: "rmapped v a BLOCK_SIZE \<Longrightarrow> in_range (paddr a) BLOCK_SIZE x \<Longrightarrow> v (subid a) x \<noteq> None"
  using mapped_in_range [of "v (subid a)" "paddr a" BLOCK_SIZE x] by (simp add: rmapped_def)

lemma cell_in_range: "i < BLOCK_SIZE \<Longrightarrow> in_range a BLOCK_SIZE (a + of_nat i)"
  by (simp add: BLOCK_SIZE_def in_range_def)

lemma alloc_old:
  assumes "alloc_view v s p k v'" "rmapped v a BLOCK_SIZE"
  shows "rmapped v' a BLOCK_SIZE" "rload v' BLOCK_SIZE a = rload v BLOCK_SIZE a"
proof -
  have cell: "v' (subid a) x = v (subid a) x" if "in_range (paddr a) BLOCK_SIZE x" for x
    using assms(1) mapped_cell [OF assms(2) that] by (auto simp: alloc_view_def split: if_splits)
  then show "rload v' BLOCK_SIZE a = rload v BLOCK_SIZE a"
    unfolding rload_def by (intro arg_cong [of _ _ the] load_cong) (simp add: cell_in_range)
  show "rmapped v' a BLOCK_SIZE" using assms(2) cell cell_in_range by (simp add: rmapped_def mapped_def)
qed

lemma alloc_new_zero:
  assumes "alloc_view v s p (m * BLOCK_SIZE) v'" "p \<noteq> 0" "subid a = s" "paddr a = p" "i < m"
  shows "zero_block v' (block_addr a i)"
proof -
  let ?b = "block_addr a i"
  have "v' s x = Some 0" if "in_range (paddr ?b) BLOCK_SIZE x" for x
    using alloc_blocks(2) [OF assms that] assms(1,2) by (simp add: alloc_view_def)
  then have "load (v' s) (paddr ?b) BLOCK_SIZE = Some (replicate BLOCK_SIZE 0)"
    unfolding load_eq_Some using cell_in_range by (auto simp: mapped_def list_eq_iff_nth_eq)
  then show ?thesis using assms(3) by (simp add: zero_block_def rload_def block_addr_def)
qed

lemma alloc_extend:
  assumes v: "alloc_view v s p (m * BLOCK_SIZE) v'" "p \<noteq> 0" and a: "subid a = s" "paddr a = p" "host s"
    and as: "remote_blocks host v as"
  shows "remote_blocks host v' (as @ map (block_addr a) [0..<m])"
proof -
  let ?bs = "map (block_addr a) [0..<m]"
  have mm: "m * BLOCK_SIZE \<le> 2 ^ 64" using v by (simp add: alloc_view_def)
  have free: "v s x = None" if "i < m" "in_range (paddr (block_addr a i)) BLOCK_SIZE x" for i x
    using alloc_blocks(2) [OF v a(1,2) that] v by (simp add: alloc_view_def)
  have new: "host (subid b) \<and> rmapped v' b BLOCK_SIZE" if "b \<in> set ?bs" for b
    using that alloc_blocks(1) [OF v a(1,2)] a(1,3) by (auto simp: block_addr_def)
  have old: "host (subid b) \<and> rmapped v b BLOCK_SIZE \<and> rmapped v' b BLOCK_SIZE" if "b \<in> set as" for b
    using as that alloc_old(1) [OF v(1)] by (auto simp: remote_blocks_def)
  have sep: "chunk_sep b (block_addr a i) \<and> chunk_sep (block_addr a i) b" if b: "b \<in> set as" and i: "i < m" for b i
  proof (cases "subid b = s")
    case True
    have "rmapped v b BLOCK_SIZE" using old [OF b] by simp
    then have "\<not> (in_range (paddr b) BLOCK_SIZE x \<and> in_range (paddr (block_addr a i)) BLOCK_SIZE x)" for x
      using mapped_cell [of v b x] free [OF i, of x] True by auto
    then show ?thesis unfolding chunk_sep_def disjoint_ranges_def using cell_in_range by blast
  qed (use a in \<open>simp add: chunk_sep_def block_addr_def\<close>)
  have within: "chunk_sep (block_addr a i) (block_addr a j)" if "i < m" "j < m" "i \<noteq> j" for i j
  proof -
    have "Suc i * BLOCK_SIZE \<le> m * BLOCK_SIZE" "Suc j * BLOCK_SIZE \<le> m * BLOCK_SIZE" "Suc i * BLOCK_SIZE \<le> j * BLOCK_SIZE \<or> Suc j * BLOCK_SIZE \<le> i * BLOCK_SIZE"
      using that by (metis Suc_leI mult_le_mono1 nat_neq_iff)+
    then have "i * BLOCK_SIZE + BLOCK_SIZE \<le> j * BLOCK_SIZE \<or> j * BLOCK_SIZE + BLOCK_SIZE \<le> i * BLOCK_SIZE"
        "i * BLOCK_SIZE + BLOCK_SIZE \<le> 2 ^ 64" "j * BLOCK_SIZE + BLOCK_SIZE \<le> 2 ^ 64"
      using mm by auto
    then show ?thesis unfolding chunk_sep_def block_addr_def by (simp add: ranges_apart del: of_nat_mult)
  qed
  show ?thesis unfolding remote_blocks_def
  proof (intro conjI ballI allI impI)
    fix i j assume ij: "i < length (as @ ?bs)" "j < length (as @ ?bs)" "i \<noteq> j"
    consider "i < length as" "j < length as" | "i < length as" "length as \<le> j" | "length as \<le> i" "j < length as" | "length as \<le> i" "length as \<le> j"
      by linarith
    then show "chunk_sep ((as @ ?bs) ! i) ((as @ ?bs) ! j)"
    proof cases
      case 1
      then show ?thesis using as ij(3) by (simp add: remote_blocks_def nth_append)
    next
      case 2
      then show ?thesis using sep [of "as ! i" "j - length as"] ij by (simp add: nth_append)
    next
      case 3
      then show ?thesis using sep [of "as ! j" "i - length as"] ij by (simp add: nth_append)
    next
      case 4
      then show ?thesis using within [of "i - length as" "j - length as"] ij by (simp add: nth_append)
    qed
  qed (use new old in auto)
qed

text \<open>\<open>blocks_before\<close>: how many blocks the hosts before \<open>k\<close> have.\<close>

definition blocks_before :: "nat \<Rightarrow> nat \<Rightarrow> nat \<Rightarrow> nat \<Rightarrow> nat" where
  "blocks_before split nh n k = (if k = nh then n else split * k)"

definition blocks_zero :: "(u16 \<Rightarrow> bool) \<Rightarrow> rview \<Rightarrow> ip6_memaddr list \<Rightarrow> bool" where
  "blocks_zero host v as \<longleftrightarrow> remote_blocks host v as \<and> (\<forall>a\<in>set as. zero_block v a)"

lemma blocks_zero_extend:
  assumes as: "blocks_zero host v as" and v: "alloc_view v (subid a) (paddr a) (alloc_len (of_nat m)) v'" and host: "host (subid a)"
    and m: "m < 2 ^ 64" "m = 0 \<or> paddr a \<noteq> 0"
  shows "blocks_zero host v' (as @ map (block_addr a) [0..<m])"
proof -
  have old: "zero_block v' b" "host (subid b) \<and> rmapped v' b BLOCK_SIZE" if "b \<in> set as" for b
    using as that alloc_old [OF v, of b] by (auto simp: blocks_zero_def remote_blocks_def zero_block_def)
  show ?thesis
  proof (cases "m = 0")
    case True
    then show ?thesis using as old by (simp add: blocks_zero_def remote_blocks_def)
  next
    case False
    then have "alloc_len (of_nat m) = m * BLOCK_SIZE"
      using m(1) by (auto simp: alloc_len_def BLOCK_SIZE_def unat_of_nat unsigned_eq_0_iff word_of_nat_eq_0_iff dvd_imp_le)
    then have v2: "alloc_view v (subid a) (paddr a) (m * BLOCK_SIZE) v'" using v by simp
    have p: "paddr a \<noteq> 0" using m(2) False by simp
    show ?thesis
      using alloc_extend [of v "subid a" "paddr a" m v' a host as] alloc_new_zero [of v "subid a" "paddr a" m v' a] v2 p host as old(1)
      by (auto simp: blocks_zero_def)
  qed
qed

lemma fill_rmem_ok:
  fixes topo pick host
  defines "net \<equiv> cluster_net topo pick"
  assumes hosts: "\<forall>i<nh. i < length (hostList hl) \<and> host (subid (hostList hl ! i))" "nh \<le> 256" and n: "split * nh \<le> n" "n < 2 ^ 64"
    and c: "client_idle host c" and r: "sin6_port (rm_target r) = t_port topo" "rm_nblocks r = n" "length (rm_list r) = n"
    and k: "k \<le> nh"
  shows "\<exists>r' c'. fill_rmem net hl split nh [k..<nh] r c = Inr (r', c') \<and> client_idle host c' \<and> cl_mem c' = cl_mem c \<and>
    sin6_port (rm_target r') = t_port topo \<and> rm_nblocks r' = n \<and> length (rm_list r') = n \<and>
    take (blocks_before split nh n k) (rm_list r') = take (blocks_before split nh n k) (rm_list r) \<and>
    (blocks_zero host (cluster_view (cl_net c)) (take (blocks_before split nh n k) (rm_list r)) \<longrightarrow>
     (\<forall>i. k \<le> i \<longrightarrow> i < nh \<longrightarrow> split * i < n \<longrightarrow> paddr (rm_list r' ! (split * i)) \<noteq> 0) \<longrightarrow>
     blocks_zero host (cluster_view (cl_net c')) (rm_list r'))"
  using c r k
proof (induction "nh - k" arbitrary: k r c)
  case 0
  then show ?case by (auto simp: blocks_before_def)
next
  case (Suc x)
  then have kn: "k < nh" and x: "x = nh - Suc k" by auto
  let ?v = "cluster_view (cl_net c)"
  define off where "off = split * k"
  define len where "len = (if k = nh - 1 then n - off else split)"
  have "split * k + split \<le> split * nh" using mult_le_mono2 [of "Suc k" nh split] kn by simp
  then have off: "off + len = blocks_before split nh n (Suc k)" "off + len \<le> n" "blocks_before split nh n k = off"
    using n(1) kn by (auto simp: off_def len_def blocks_before_def)
  let ?ip = "hostList hl ! k" let ?tgt = "(rm_target r)\<lparr>sin6_addr := ?ip\<rparr>"
  have ip: "get_ip6_target hl (of_nat k) = Inr ?ip" "host (subid ?ip)"
    using hosts kn by (simp_all add: get_ip6_target_def unat_of_nat)
  obtain ra tgt1 c1 where req: "request_blocks net ?tgt (of_nat len) c = Inr (ra, tgt1, c1)" "subid ra = subid ?ip"
      "sin6_port tgt1 = t_port topo" "cm.ready host c1" "cl_mem c1 = cl_mem c"
      "alloc_view ?v (subid ra) (paddr ra) (alloc_len (of_nat len)) (cluster_view (cl_net c1))"
    using cm.request_blocks_ok [of host c ?tgt topo pick "of_nat len"] Suc.prems(1,2) ip(2)
    unfolding net_def client_idle_ready by auto
  have lenu: "unat (of_nat len :: u64) = len" using off(2) n(2) by (simp add: unat_of_nat)
  let ?temp = "map (block_addr ra) [0..<len]"
  let ?r1 = "r\<lparr>rm_target := tgt1, rm_list := blit (rm_list r) off ?temp\<rparr>"
  have step: "fill_rmem net hl split nh [k..<nh] r c = fill_rmem net hl split nh [Suc k..<nh] ?r1 c1"
    unfolding upt_conv_Cons [OF kn] fill_rmem.simps(2) Let_def Suc.prems(3) off_def [symmetric] len_def [symmetric]
    using ip(1) req(1) lenu by (simp add: allocate_bulk_rmem_def)
  have len1: "length (rm_list ?r1) = n" using off(2) Suc.prems(4) by simp
  obtain r' c' where r': "fill_rmem net hl split nh [Suc k..<nh] ?r1 c1 = Inr (r', c')" "client_idle host c'" "cl_mem c' = cl_mem c1"
      "sin6_port (rm_target r') = t_port topo" "rm_nblocks r' = n" "length (rm_list r') = n"
      "take (off + len) (rm_list r') = take (off + len) (rm_list ?r1)"
      "blocks_zero host (cluster_view (cl_net c1)) (take (off + len) (rm_list ?r1)) \<longrightarrow>
        (\<forall>i. Suc k \<le> i \<longrightarrow> i < nh \<longrightarrow> split * i < n \<longrightarrow> paddr (rm_list r' ! (split * i)) \<noteq> 0) \<longrightarrow>
        blocks_zero host (cluster_view (cl_net c')) (rm_list r')"
    using Suc.hyps(1) [OF x, of c1 ?r1] req(3,4) Suc.prems(3) len1 kn unfolding off(1) client_idle_ready by auto
  have pre: "take (off + len) (rm_list ?r1) = take off (rm_list r) @ ?temp" using off(2) Suc.prems(4) by (simp add: blit_def)
  have "take off (take (off + len) (rm_list r')) = take off (rm_list r)" unfolding r'(7) pre using off(2) Suc.prems(4) by simp
  then have keep: "take off (rm_list r') = take off (rm_list r)" by simp
  have first: "paddr (rm_list r' ! off) = paddr ra" if l: "0 < len"
  proof -
    have "rm_list r' ! off = take (off + len) (rm_list r') ! off" using l by simp
    also have "\<dots> = block_addr ra 0" unfolding r'(7) pre using l off(2) Suc.prems(4) by (simp add: nth_append)
    finally show ?thesis by (simp add: block_addr_def)
  qed
  have fin: "blocks_zero host (cluster_view (cl_net c')) (rm_list r')"
    if z: "blocks_zero host ?v (take off (rm_list r))"
      and nn: "\<forall>i. k \<le> i \<longrightarrow> i < nh \<longrightarrow> split * i < n \<longrightarrow> paddr (rm_list r' ! (split * i)) \<noteq> 0"
  proof -
    have "len = 0 \<or> paddr ra \<noteq> 0" using nn [rule_format, of k] kn first off(2) by (cases "len = 0") (simp_all add: off_def)
    then have "blocks_zero host (cluster_view (cl_net c1)) (take off (rm_list r) @ ?temp)"
      using blocks_zero_extend [OF z req(6)] req(2) ip(2) off(2) n(2) by simp
    then show ?thesis using r'(8) nn unfolding pre by simp
  qed
  show ?case unfolding step off(3) using r'(1-6) req(5) keep fin by (intro exI [of _ r'] exI [of _ c']) simp
qed

end
