(* ===== verification/BB_Vm.thy ===== *)
theory BB_Vm
  imports BB_Stores
begin

text \<open>
  The virtual memory as a process gets it: \<^verbatim>\<open>init_virtual_memory\<close> and \<^verbatim>\<open>page_table_create\<close>, the
  accesses of the process, \<^verbatim>\<open>page_table_flush\<close> and \<^verbatim>\<open>clean_page_table\<close>, for every policy and every
  store. A session of loads and stores on pages that live on other machines gives what a flat
  array gives.
\<close>

section \<open>Creating the virtual memory\<close>

text \<open>The \<open>n\<close>-th fault draws \<open>rnd n\<close> from \<^verbatim>\<open>rand()\<close>.\<close>

fun handler_of :: "policy \<Rightarrow> 'b pager \<Rightarrow> allocs \<Rightarrow> (nat \<Rightarrow> nat) \<Rightarrow> nat \<Rightarrow> 'b page_table \<Rightarrow> 'b page_table res" where
  "handler_of FIFO io al rnd page s = FIFO_page_fault_handler io page s"
| "handler_of LRU io al rnd page s = LRU_page_fault_handler io al page s"
| "handler_of LFU io al rnd page s = LFU_page_fault_handler io al page s"
| "handler_of RAND io al rnd page s = RAND_page_fault_handler io al (rnd (pageFaults s)) page s"
| "handler_of FFIFO io al rnd page s = FFIFO_page_fault_handler io al page s"

definition page_table_create :: "nat \<Rightarrow> nat \<Rightarrow> pol_state \<Rightarrow> 'b \<Rightarrow> 'b page_table" where
  "page_table_create np nf P b =
     \<lparr>npages = np, nframes = nf, physmem = replicate (nf * BLOCK_SIZE) 0, page_mapping = replicate np 0,
      page_bits = replicate np 0, startFrame = 0, endFrame = nf, pol = P, backing = b,
      pageFaults = 0, pageReads = 0, pageWrites = 0\<rparr>"

fun system_of :: "string \<Rightarrow> paging_system res" where
  "system_of nm =
     (if nm = ''mem'' then Inr MEM_PAGING
      else if nm = ''rmem'' then Inr RMEM_PAGING
      else if nm = ''disk'' then Inr DISK_PAGING
      else if nm = ''rrmem'' then Inr RRMEM_PAGING
      else Inl Abort)"

fun policy_of :: "string \<Rightarrow> policy res" where
  "policy_of nm =
     (if nm = ''ffifo'' then Inr FFIFO
      else if nm = ''fifo'' then Inr FIFO
      else if nm = ''lru'' then Inr LRU
      else if nm = ''lfu'' then Inr LFU
      else if nm = ''rand'' then Inr RAND
      else Inl Abort)"

text \<open>
  What the stores need from outside: the network and the hosts, what \<^verbatim>\<open>init_sockets\<close> returns, what
  \<^verbatim>\<open>malloc\<close> leaves, and the file \<^verbatim>\<open>myvirtualdisk\<close>.
\<close>

record 'n environment =
  e_net :: "'n netif"
  e_hosts :: host_list
  e_target :: sockaddr_in6
  e_junk :: "nat \<Rightarrow> bytes"
  e_junk_addr :: ip6_memaddr
  e_disk :: "bytes option"
  e_trunc_ok :: bool

text \<open>Remote memory takes its number of blocks as an \<^verbatim>\<open>int\<close> and keeps it as a \<^verbatim>\<open>uint64_t\<close>.\<close>

definition block_count :: "nat \<Rightarrow> nat" where
  "block_count np = unat (word_of_int (c_int np) :: u64)"

fun open_store :: "paging_system \<Rightarrow> 'n environment \<Rightarrow> nat \<Rightarrow> 'n backends \<Rightarrow> 'n backends res" where
  "open_store RMEM_PAGING e np b =
     bindE (rmem_allocate (e_net e) (e_hosts e) (e_target e) (e_junk_addr e) (block_count np) (bk_client b)) (\<lambda>(r, c).
       Inr (b\<lparr>bk_rmem := r, bk_client := c\<rparr>))"
| "open_store DISK_PAGING e np b =
     (case disk_open (e_disk e) (e_trunc_ok e) np of None \<Rightarrow> Inl Abort | Some d \<Rightarrow> Inr (b\<lparr>bk_disk := d\<rparr>))"
| "open_store MEM_PAGING e np b = Inr (b\<lparr>bk_mem := mem_allocate (e_junk e) (c_int np)\<rparr>)"
| "open_store RRMEM_PAGING e np b =
     bindE (rrmem_allocate (e_net e) (hostList (e_hosts e)) (e_target e) (block_count np) (bk_client b)) (\<lambda>(r, c).
       Inr (b\<lparr>bk_rrmem := r, bk_client := c\<rparr>))"

definition init_virtual_memory ::
  "'n environment \<Rightarrow> nat \<Rightarrow> nat \<Rightarrow> string \<Rightarrow> string \<Rightarrow> 'n backends \<Rightarrow>
     (paging_system \<times> policy \<times> 'n backends page_table) res" where
  "init_virtual_memory e np nf system algo b =
     bindE (system_of system) (\<lambda>sys.
     bindE (policy_of algo) (\<lambda>p.
     bindE (open_store sys e np b) (\<lambda>b'.
       Inr (sys, p, page_table_create np nf (init_policy p nf) b'))))"

section \<open>Every policy\<close>

fun vm_inv ::
  "policy \<Rightarrow> allocs \<Rightarrow> ('b \<Rightarrow> nat \<Rightarrow> bytes) \<Rightarrow> ('b \<Rightarrow> bool) \<Rightarrow> nat \<Rightarrow> 'b page_table \<Rightarrow> nat set \<Rightarrow> bool" where
  "vm_inv FIFO al content sinv nb s A = fifo_inv content sinv nb s A"
| "vm_inv LRU al content sinv nb s A = policy_inv (lru_inv al) content sinv nb s A"
| "vm_inv FFIFO al content sinv nb s A = policy_inv (lru_inv al) content sinv nb s A"
| "vm_inv LFU al content sinv nb s A = policy_inv (lfu_inv al) content sinv nb s A"
| "vm_inv RAND al content sinv nb s A = policy_inv (rand_inv al) content sinv nb s A"

lemma handles_ext: "handles content I h \<Longrightarrow> (\<And>page s. h' page s = h page s) \<Longrightarrow> (\<And>s A. I' s A = I s A) \<Longrightarrow> handles content I' h'"
  by (simp add: handles_def)

lemma policy_inv_poke:
  "policy_inv pinv content sinv nb s A \<Longrightarrow> vm_core content sinv (s\<lparr>physmem := pm\<rparr>) A \<Longrightarrow> policy_inv pinv content sinv nb (s\<lparr>physmem := pm\<rparr>) A"
  by (simp add: policy_inv_def list_inv_def packed_def)

sublocale block_store \<subseteq> vmp: paging io content sinv nb "vm_inv p al content sinv nb" "handler_of p io al rnd" for p al rnd
proof
  show "handles content (vm_inv p al content sinv nb) (handler_of p io al rnd)"
  proof (cases p)
    case FIFO
    then show ?thesis using handles_ext [OF FIFO_handles] by simp
  next
    case LRU
    then show ?thesis using handles_ext [OF LRU_handles] by simp
  next
    case LFU
    then show ?thesis using handles_ext [OF LFU_handles] by simp
  next
    case RAND
    then show ?thesis using handles_ext [OF RAND_handles [of al rnd]] by simp
  next
    case FFIFO
    then show ?thesis using handles_ext [OF FFIFO_handles] by simp
  qed
  fix s A pm assume inv: "vm_inv p al content sinv nb s A"
  then show "vm_core content sinv s A" by (cases p) (simp_all add: fifo_inv_def policy_inv_def list_inv_def)
  show "vm_inv p al content sinv nb (s\<lparr>physmem := pm\<rparr>) A" if "vm_core content sinv (s\<lparr>physmem := pm\<rparr>) A"
    using inv that by (cases p) (simp_all add: fifo_inv_def policy_inv_poke)
qed

lemma created_core:
  "sinv b \<Longrightarrow> vm_core content sinv (page_table_create np nf P b) {}"
  by (simp add: vm_core_def page_table_create_def)

lemma created_inv:
  assumes "sinv b" "np \<le> nb" "0 < nf" "0 < np" "good_allocs al"
  shows "vm_inv p al content sinv nb (page_table_create np nf (init_policy p nf) b) {}"
proof -
  note core = created_core [where content = content and sinv = sinv, OF assms(1)]
  have pk: "packed (page_table_create np nf P b) {}" for P using assms(3) by (simp add: packed_def page_table_create_def)
  have lru: "lru_abs nf (init_policy p nf) []" if "p = LRU \<or> p = FFIFO"
    using lru_abs_new [OF assms(3)] that by (auto simp: lru_abs_def)
  have rnd: "rand_inv al nf (init_policy RAND nf) {}"
    unfolding rand_inv_def using new_hash_ok [OF assms(3)] assms(5)
    by (intro conjI exI [of _ "\<lambda>_. None"]) (simp_all add: no_policy_def)
  show ?thesis
  proof (cases p)
    case FIFO
    then show ?thesis using assms core by (simp add: fifo_inv_def page_table_create_def)
  next
    case LRU
    then show ?thesis using assms core pk lru by (auto simp: policy_inv_def list_inv_def lru_inv_def page_table_create_def)
  next
    case LFU
    then show ?thesis using assms core pk lfu_abs_new [OF assms(3)]
      by (auto simp: policy_inv_def list_inv_def lfu_inv_def page_table_create_def intro!: exI [of _ "[]"])
  next
    case RAND
    then show ?thesis using assms core pk rnd by (simp add: policy_inv_def list_inv_def page_table_create_def)
  next
    case FFIFO
    then show ?thesis using assms core pk lru by (auto simp: policy_inv_def list_inv_def lru_inv_def page_table_create_def)
  qed
qed

lemma created_byte:
  "d < np * BLOCK_SIZE \<Longrightarrow> vm_byte content (page_table_create np nf P b) d = content b (d div BLOCK_SIZE) ! (d mod BLOCK_SIZE)"
  by (simp add: vm_byte_def vm_view_def page_table_create_def page_in)

section \<open>Sessions on remote memory\<close>

definition hosts_serve :: "(u16 \<Rightarrow> bool) \<Rightarrow> host_list \<Rightarrow> bool" where
  "hosts_serve host hl \<longleftrightarrow>
     0 < get_num_hosts hl \<and> get_num_hosts hl \<le> 256 \<and>
     (\<forall>i<nat (get_num_hosts hl). i < length (hostList hl) \<and> host (subid (hostList hl ! i)))"

text \<open>Every server had memory for its share.\<close>

definition shares_granted :: "host_list \<Rightarrow> rmem \<Rightarrow> bool" where
  "shares_granted hl r \<longleftrightarrow>
     (let nh = nat (get_num_hosts hl); split = rm_nblocks r div nh in
      \<forall>i<nh. split * i < rm_nblocks r \<longrightarrow> paddr (rm_list r ! (split * i)) \<noteq> 0)"

lemma rmem_allocate_ok:
  assumes "client_idle host c" "hosts_serve host hl" "sin6_port tgt = t_port topo" "n < 2 ^ 64"
  shows "\<exists>r c'. rmem_allocate (cluster_net topo pick) hl tgt junk n c = Inr (r, c') \<and> client_idle host c' \<and>
    cl_mem c' = cl_mem c \<and> sin6_port (rm_target r) = t_port topo \<and> rm_nblocks r = n \<and> length (rm_list r) = n \<and>
    (shares_granted hl r \<longrightarrow> blocks_zero host (cluster_view (cl_net c')) (rm_list r))"
proof -
  define nh where "nh = nat (get_num_hosts hl)"
  define r0 where "r0 = \<lparr>rm_target = tgt, rm_list = replicate n junk, rm_nblocks = n\<rparr>"
  have nh: "0 < nh" "nh \<le> 256" "\<forall>i<nh. i < length (hostList hl) \<and> host (subid (hostList hl ! i))"
    using assms(2) by (simp_all add: hosts_serve_def nh_def nat_le_iff)
  have r0: "sin6_port (rm_target r0) = t_port topo" "rm_nblocks r0 = n" "length (rm_list r0) = n" using assms(3) by (simp_all add: r0_def)
  have sn: "n div nh * nh \<le> n" by (rule div_times_less_eq_dividend)
  have z: "blocks_zero host v []" for v by (simp add: blocks_zero_def remote_blocks_def)
  from fill_rmem_ok [OF nh(3,2) sn assms(4,1) r0 le0, where pick = pick] obtain r c'
    where r: "fill_rmem (cluster_net topo pick) hl (n div nh) nh [0..<nh] r0 c = Inr (r, c')" "client_idle host c'" "cl_mem c' = cl_mem c"
      "sin6_port (rm_target r) = t_port topo" "rm_nblocks r = n" "length (rm_list r) = n"
      "(\<forall>i. i < nh \<longrightarrow> n div nh * i < n \<longrightarrow> paddr (rm_list r ! (n div nh * i)) \<noteq> 0) \<longrightarrow>
       blocks_zero host (cluster_view (cl_net c')) (rm_list r)"
    using nh(1) z by (auto simp: blocks_before_def)
  have "rmem_allocate (cluster_net topo pick) hl tgt junk n c = Inr (r, c')"
    using r(1) nh(1) by (simp add: rmem_allocate_def Let_def r0_def flip: nh_def)
  moreover have "shares_granted hl r \<longrightarrow> blocks_zero host (cluster_view (cl_net c')) (rm_list r)"
    using r(5,7) by (simp add: shares_granted_def Let_def flip: nh_def)
  ultimately show ?thesis using r(2-6) by (intro exI [of _ r] exI [of _ c']) simp
qed

text \<open>What \<^verbatim>\<open>init_virtual_memory\<close> gives on servers that grant their shares.\<close>

lemma remote_vm_created:
  assumes "init_virtual_memory e np nf ''rmem'' algo b = Inr (sys, p, s)"
    and "e_net e = cluster_net topo pick" "hosts_serve host (e_hosts e)" "sin6_port (e_target e) = t_port topo"
    and "client_idle host (bk_client b)" "mapped (cl_mem (bk_client b)) dst BLOCK_SIZE"
    and "0 < np" "np < 2 ^ 31" "0 < nf" "good_allocs al"
    and "shares_granted (e_hosts e) (bk_rmem (backing s))"
  shows "sys = RMEM_PAGING" "vm_inv p al rmem_content (rmem_sinv topo host dst np) np s {}" "npages s = np" "np * BLOCK_SIZE \<le> 2 ^ 63"
    "\<forall>d<np * BLOCK_SIZE. vm_byte rmem_content s d = 0"
proof -
  have np: "np < 2 ^ 64" "np * BLOCK_SIZE \<le> 2 ^ 63" "block_count np = np"
    using assms(8) by (simp_all add: BLOCK_SIZE_def block_count_def c_int_small unat_of_nat)
  from rmem_allocate_ok [OF assms(5,3,4) np(1)] obtain r c'
    where r: "rmem_allocate (e_net e) (e_hosts e) (e_target e) (e_junk_addr e) np (bk_client b) = Inr (r, c')"
      "client_idle host c'" "cl_mem c' = cl_mem (bk_client b)" "sin6_port (rm_target r) = t_port topo" "rm_nblocks r = np" "length (rm_list r) = np"
      "shares_granted (e_hosts e) r \<longrightarrow> blocks_zero host (cluster_view (cl_net c')) (rm_list r)"
    unfolding assms(2) by blast
  let ?b = "b\<lparr>bk_rmem := r, bk_client := c'\<rparr>"
  have s: "sys = RMEM_PAGING" "s = page_table_create np nf (init_policy p nf) ?b"
    using assms(1) r(1) np(3) by (auto simp: init_virtual_memory_def)
  have z: "blocks_zero host (cluster_view (cl_net c')) (rm_list r)"
    using r(7) assms(11) s(2) by (simp add: page_table_create_def)
  show "sys = RMEM_PAGING" "npages s = np" "np * BLOCK_SIZE \<le> 2 ^ 63" using s np(2) by (simp_all add: page_table_create_def)
  have sinv: "rmem_sinv topo host dst np ?b" using r z assms(6) by (simp add: rmem_sinv_def blocks_zero_def)
  show "vm_inv p al rmem_content (rmem_sinv topo host dst np) np s {}"
    unfolding s(2) by (rule created_inv [where sinv = "rmem_sinv topo host dst np", OF sinv order_refl assms(9,7,10)])
  show "\<forall>d<np * BLOCK_SIZE. vm_byte rmem_content s d = 0"
  proof (intro allI impI)
    fix d assume d: "d < np * BLOCK_SIZE"
    have "zero_block (cluster_view (cl_net c')) (rm_list r ! (d div BLOCK_SIZE))"
      using z page_in [OF d] r(6) by (simp add: blocks_zero_def)
    then show "vm_byte rmem_content s d = 0"
      unfolding s(2) created_byte [OF d] by (simp add: rmem_content_def zero_block_def)
  qed
qed


text \<open>A cluster with one server with an empty heap, a process with two pages there and one frame.\<close>

definition demo_client :: "cluster client" where
  "demo_client = \<lparr>cl_mem = (\<lambda>x. if in_range 0x2000 1 x then Some 0 else None),
     cl_net = \<lparr>servers = (\<lambda>_. None)(1 \<mapsto> empty_heap), inbox = []\<rparr>, cl_sub_ids = (\<lambda>_. 0)\<rparr>"

definition demo_env :: "cluster environment" where
  "demo_env = \<lparr>e_net = cluster_net sample_topo sample_place, e_hosts = \<lparr>hostList = [sample_addr 0 0], nhosts = 1\<rparr>,
     e_target = sample_target, e_junk = (\<lambda>_. []), e_junk_addr = sample_addr 0 0, e_disk = Some [3, 4], e_trunc_ok = True\<rparr>"

definition demo_backends :: "cluster backends" where
  "demo_backends = \<lparr>bk_mem = \<lparr>mem_list = [], mem_block_size = 0, mem_nblocks = 0\<rparr>,
     bk_disk = \<lparr>d_file = [], block_size = 0, nblocks = 0\<rparr>, bk_rmem = \<lparr>rm_target = sample_target, rm_list = [], rm_nblocks = 0\<rparr>,
     bk_rrmem = \<lparr>rr_target = sample_target, rsmem = [], raid = 0, rr_block_size = 0, rr_nblocks = 0\<rparr>,
     bk_nhosts = 1, bk_rx_buf = [0], bk_client = demo_client\<rparr>"

lemmas demo_defs = demo_client_def demo_env_def demo_backends_def sample_topo_def sample_target_def

lemma demo_alloc:
  "\<exists>r c. rmem_allocate (e_net demo_env) (e_hosts demo_env) (e_target demo_env) (e_junk_addr demo_env) 2 demo_client = Inr (r, c) \<and>
     paddr (rm_list r ! 0) = 0x1000 \<and> rm_nblocks r = 2"
proof -
  have le: "le_bytes 8 (2 :: u64) = [2, 0, 0, 0, 0, 0, 0, 0]" by code_simp
  have a: "(sample_addr 0 0)\<lparr>cmd := ALLOC_BULK_CMD\<rparr> = sample_addr ALLOC_BULK_CMD 0" "subid (sample_addr c n) = 1" for c n by (simp_all add: sample_addr_def)
  show ?thesis
    by (simp add: demo_env_def demo_client_def rmem_allocate_def get_num_hosts_def Let_def get_ip6_target_def allocate_bulk_rmem_def
      request_blocks_def c_send_def cluster_net_def cluster_send_def send_udp_raw_def set_cmd_def le sample_topo_def sample_target_def a sample_run_alloc
      cluster_recv_def rcv_udp6_raw_def blit_def answer_def upt_rec block_addr_def)
qed

lemma demo_init:
  "\<exists>s. init_virtual_memory demo_env 2 1 ''rmem'' ''lru'' demo_backends = Inr (RMEM_PAGING, LRU, s) \<and>
     shares_granted (e_hosts demo_env) (bk_rmem (backing s))"
proof -
  obtain r c where r: "rmem_allocate (e_net demo_env) (e_hosts demo_env) (e_target demo_env) (e_junk_addr demo_env) 2 demo_client = Inr (r, c)"
      "paddr (rm_list r ! 0) = 0x1000" "rm_nblocks r = 2"
    using demo_alloc by auto
  define s where "s = page_table_create 2 1 (init_policy LRU 1) (demo_backends\<lparr>bk_rmem := r, bk_client := c\<rparr>)"
  have b: "bk_client demo_backends = demo_client" by (simp add: demo_backends_def)
  have "init_virtual_memory demo_env 2 1 ''rmem'' ''lru'' demo_backends = Inr (RMEM_PAGING, LRU, s)"
    using r(1) by (simp add: init_virtual_memory_def b s_def block_count_def c_int_small)
  moreover have "shares_granted (e_hosts demo_env) (bk_rmem (backing s))"
    using r(2,3) by (simp add: shares_granted_def Let_def get_num_hosts_def demo_env_def s_def page_table_create_def)
  ultimately show ?thesis by blast
qed

lemma demo_env_ok:
  "e_net demo_env = cluster_net sample_topo sample_place" "hosts_serve sample_host (e_hosts demo_env)"
  "sin6_port (e_target demo_env) = t_port sample_topo" "client_idle sample_host (bk_client demo_backends)"
  "mapped (cl_mem (bk_client demo_backends)) 0x2000 BLOCK_SIZE"
  by (simp_all add: demo_defs hosts_serve_def get_num_hosts_def sample_host_def sample_addr_def client_idle_def cluster_ok_def
      empty_heap_def heap_ok_def mapped_def BLOCK_SIZE_def in_range_def)


end
