(* ===== verification/BB_Flush.thy ===== *)
theory BB_Flush
  imports BB_Vm
begin

text \<open>
  \<^verbatim>\<open>page_table_flush\<close> and \<^verbatim>\<open>clean_page_table\<close>: writing everything back and dropping every page. After a
  flush the backing store holds what the process saw. RAND does not reset its count of frames in
  use: once its memory was full, the first fault after a flush never ends.
\<close>

section \<open>The code\<close>

text \<open>What the flush does with a page it found.\<close>

definition drop_page :: "'b pager \<Rightarrow> nat \<Rightarrow> 'b page_table \<Rightarrow> 'b page_table res" where
  "drop_page io v s =
     bindE (page_table_get_entry v s) (\<lambda>(frame, bits).
     bindE (write_back io v frame bits s) (\<lambda>s1.
       page_table_set_entry v frame 0 s1))"

partial_function (option) flush_list ::
  "(pol_state \<Rightarrow> nat) \<Rightarrow> (nat \<Rightarrow> pol_state \<Rightarrow> (nat \<times> pol_state) res) \<Rightarrow> 'b pager \<Rightarrow> 'b page_table \<Rightarrow> 'b page_table res option" where
  "flush_list psize evict io s =
     (if 0 < psize (pol s)
      then
        (case bindE (evict (nframes s) (pol s)) (\<lambda>(v, P). drop_page io v (s\<lparr>pol := P\<rparr>)) of
           Inl e \<Rightarrow> Some (Inl e)
         | Inr s' \<Rightarrow> flush_list psize evict io s')
      else Some (Inr s))"

fun flush_frames :: "'b pager \<Rightarrow> nat list \<Rightarrow> 'b page_table \<Rightarrow> 'b page_table res" where
  "flush_frames io [] s = Inr s"
| "flush_frames io (i # is) s =
     (if length (framePage (pol s)) \<le> i then Inl Segv
      else
        let v = framePage (pol s) ! i in
        bindE (page_table_get_entry v s) (\<lambda>(frame, bits).
        bindE (drop_page io v s) (\<lambda>s1.
          if length (frameState (pol s1)) \<le> frame then Inl Segv
          else flush_frames io is (s1\<lparr>pol := (pol s1)\<lparr>frameState := (frameState (pol s1))[frame := 0]\<rparr>\<rparr>))))"

partial_function (option) flush_bucket :: "'b pager \<Rightarrow> nat \<Rightarrow> 'b page_table \<Rightarrow> 'b page_table res option" where
  "flush_bucket io i s =
     (case bucket (hashT (pol s)) i of
        Inl e \<Rightarrow> Some (Inl e)
      | Inr b \<Rightarrow>
          if bhead b = 0 then Some (Inr s)
          else
            (case bindE (deref (hnodes (hashT (pol s))) (bhead b)) (\<lambda>n.
                  bindE (drop_page io (hkey n) s) (\<lambda>s1.
                  bindE (deleteHashNode (nframes s1) (hkey n) (hashT (pol s1))) (\<lambda>h.
                    Inr (s1\<lparr>pol := (pol s1)\<lparr>hashT := h\<rparr>\<rparr>)))) of
               Inl e \<Rightarrow> Some (Inl e)
             | Inr s' \<Rightarrow> flush_bucket io i s'))"

definition ended :: "'a res option \<Rightarrow> 'a res" where
  "ended r = (case r of None \<Rightarrow> Inl Blocked | Some x \<Rightarrow> x)"

fun flush_buckets :: "'b pager \<Rightarrow> nat list \<Rightarrow> 'b page_table \<Rightarrow> 'b page_table res" where
  "flush_buckets io [] s = Inr s"
| "flush_buckets io (i # is) s =
     bindE (bucket (hashT (pol s)) i) (\<lambda>b.
       if bcount b = 0 \<or> bhead b = 0 then flush_buckets io is s
       else bindE (ended (flush_bucket io i s)) (flush_buckets io is))"

text \<open>\<open>u\<close> is what the uninitialised \<^verbatim>\<open>tempPage\<close> holds.\<close>

fun page_table_flush :: "policy \<Rightarrow> 'b pager \<Rightarrow> nat \<Rightarrow> 'b page_table \<Rightarrow> 'b page_table res" where
  "page_table_flush FIFO io u s = flush_frames io [0..<nframes s] s"
| "page_table_flush LRU io u s = ended (flush_list (\<lambda>P. dcount (dll P)) (\<lambda>nf. deleteLRU nf u) io s)"
| "page_table_flush FFIFO io u s = ended (flush_list (\<lambda>P. dcount (dll P)) (\<lambda>nf. deleteLRU nf u) io s)"
| "page_table_flush LFU io u s = ended (flush_list (\<lambda>P. qcount (freq P)) (\<lambda>nf. deleteLFU nf u) io s)"
| "page_table_flush RAND io u s = flush_buckets io [0..<nframes s] s"

section \<open>Dropping a page\<close>

context block_store
begin

lemma drop_page_ok:
  assumes core: "vm_core content sinv s A" and nb: "npages s \<le> nb" and v: "v \<in> A"
  shows "\<exists>s'. drop_page io v s = Inr s' \<and> vm_core content sinv s' (A - {v}) \<and> same_shape s s' \<and> page_mapping s' = page_mapping s \<and>
    (\<forall>p<npages s. vm_view content s' p = vm_view content s p)"
proof -
  obtain s1 where s1: "write_back io v (page_mapping s ! v) (page_bits s ! v) s = Inr s1" "vm_core content sinv s1 A"
      "\<And>p. p < npages s \<Longrightarrow> vm_view content s1 p = vm_view content s p" "same_shape s s1" "page_mapping s1 = page_mapping s"
      "page_bits s1 = page_bits s" "frame_bytes s1 (page_mapping s ! v) = content (backing s1) v"
    using write_back_ok [OF core nb v] by blast
  have vn: "v < npages s" using vm_coreD(5) [OF core] v by auto
  let ?s' = "s1\<lparr>page_bits := (page_bits s1)[v := 0]\<rparr>"
  have set: "page_table_set_entry v (page_mapping s ! v) 0 s1 = Inr ?s'"
    using set_entry_same [OF s1(2) v, of 0] s1(5) by simp
  have "drop_page io v s = Inr ?s'"
    using vn s1(1) set by (simp add: drop_page_def page_table_get_entry_def)
  moreover have "vm_core content sinv ?s' (A - {v})" "\<And>p. vm_view content ?s' p = vm_view content s1 p"
    using core_drop [OF s1(2) v] s1(5,7) by simp_all
  moreover have "same_shape s ?s'" using s1(4) by (simp add: same_shape_def)
  ultimately show ?thesis using s1(3,5) by (intro exI [of _ ?s']) simp
qed

end

lemma flushed_content:
  assumes "vm_core content sinv s {}" "p < npages s"
  shows "content (backing s) p = vm_view content s p"
  using vm_coreD(7) [OF assms] by (simp add: vm_view_def)

section \<open>The list policies\<close>

context list_paging
begin

lemma flush_list_ok:
  assumes size: "\<And>P. psz P = psize P" and ev: "\<And>P B. pinv P B \<Longrightarrow> B \<noteq> {} \<Longrightarrow> ev nf P = evict P"
    and "vm_core content sinv s A" "npages s \<le> nb" "pinv (pol s) A" "nframes s = nf"
  shows "\<exists>s'. flush_list psz ev io s = Some (Inr s') \<and> vm_core content sinv s' {} \<and> pinv (pol s') {} \<and>
    npages s' = npages s \<and> nframes s' = nframes s \<and> startFrame s' = startFrame s \<and> (\<forall>p<npages s. vm_view content s' p = vm_view content s p)"
  using assms(3-6)
proof (induction "card A" arbitrary: s A)
  case 0
  have "finite A" "psize (pol s) = card A" using size_ok [OF 0(4)] by simp_all
  then have "A = {}" "psize (pol s) = 0" using 0(1) by simp_all
  then show ?case using 0 size by (subst flush_list.simps) auto
next
  case (Suc n)
  have fin: "finite A" "psize (pol s) = card A" using size_ok [OF Suc(5)] by simp_all
  then have ne: "A \<noteq> {}" using Suc(2) by auto
  obtain v P where v: "evict (pol s) = Inr (v, P)" "v \<in> A" "pinv P (A - {v})" using evict_ok [OF Suc(5) ne] by auto
  have core: "vm_core content sinv (s\<lparr>pol := P\<rparr>) A" "npages (s\<lparr>pol := P\<rparr>) \<le> nb" using Suc(3,4) by simp_all
  obtain s1 where s1: "drop_page io v (s\<lparr>pol := P\<rparr>) = Inr s1" "vm_core content sinv s1 (A - {v})" "same_shape (s\<lparr>pol := P\<rparr>) s1"
      "\<forall>p<npages s. vm_view content s1 p = vm_view content s p"
    using drop_page_ok [OF core v(2)] by auto
  have sh: "npages s1 = npages s" "nframes s1 = nframes s" "startFrame s1 = startFrame s" "pol s1 = P" using s1(3) by (simp_all add: same_shape_def)
  have "n = card (A - {v})" using Suc(2) fin(1) v(2) by simp
  from Suc(1) [OF this s1(2)] obtain s' where s': "flush_list psz ev io s1 = Some (Inr s')" "vm_core content sinv s' {}" "pinv (pol s') {}"
      "npages s' = npages s1" "nframes s' = nframes s1" "startFrame s' = startFrame s1" "\<forall>p<npages s1. vm_view content s' p = vm_view content s1 p"
    using v(3) sh Suc(4,6) by auto
  have "ev (nframes s) (pol s) = Inr (v, P)" using ev [OF Suc(5) ne] v(1) Suc(6) by simp
  then have "flush_list psz ev io s = flush_list psz ev io s1"
    using s1(1) fin size Suc(2) by (subst flush_list.simps) simp
  then show ?case using s' s1(4) sh by auto
qed

end

lemma lru_tail:
  assumes "lru_inv al nf P B" "B \<noteq> {}"
  shows "deleteLRU nf u P = lru_evict nf P"
proof -
  obtain ns where ns: "dll_rep (dll P) ns" "B = node_key (dll P) ` set ns" using assms(1) by (auto simp: lru_inv_def lru_abs_def)
  then obtain xs x where x: "ns = xs @ [x]" using assms(2) by (cases ns rule: rev_cases) auto
  have "x \<noteq> 0" using dll_rep_node [of "dll P" xs x "[]"] ns(1) x by auto
  then have "dtail (dll P) \<noteq> 0" using ns(1) x by (simp add: dll_rep_def)
  then show ?thesis by (simp add: lru_evict_def deleteLRU_def)
qed

lemma lfu_head:
  assumes "lfu_inv al nf P B" "B \<noteq> {}"
  shows "deleteLFU nf u P = lfu_evict nf P"
proof -
  obtain gs where gs: "lfu_rep (freq P) gs" "B = set (view_pages (view_of (freq P) gs))" using assms(1) by (auto simp: lfu_inv_def lfu_abs_def)
  then have "gs \<noteq> []" using assms(2) by auto
  then have "qhead (freq P) \<noteq> 0" using gs(1) by (cases gs) (auto simp: lfu_rep_def groups_ok_def)
  then show ?thesis by (simp add: lfu_evict_def deleteLFU_def)
qed

context block_store
begin

lemma flush_lru:
  assumes "policy_inv (lru_inv al) content sinv nb s A"
  shows "\<exists>s'. flush_list (\<lambda>P. dcount (dll P)) (\<lambda>nf. deleteLRU nf u) io s = Some (Inr s') \<and>
    policy_inv (lru_inv al) content sinv nb s' {} \<and> npages s' = npages s \<and> nframes s' = nframes s \<and> startFrame s' = startFrame s \<and> (\<forall>p<npages s. vm_view content s' p = vm_view content s p)"
proof -
  have a: "vm_core content sinv s A" "npages s \<le> nb" "lru_inv al (nframes s) (pol s) A" "0 < nframes s"
    using assms by (simp_all add: policy_inv_def list_inv_def packed_def)
  have "\<exists>s'. flush_list (\<lambda>P. dcount (dll P)) (\<lambda>nf. deleteLRU nf u) io s = Some (Inr s') \<and> vm_core content sinv s' {} \<and>
      lru_inv al (nframes s) (pol s') {} \<and> npages s' = npages s \<and> nframes s' = nframes s \<and> startFrame s' = startFrame s \<and> (\<forall>p<npages s. vm_view content s' p = vm_view content s p)"
    using lruvm.flush_list_ok [of "\<lambda>P. dcount (dll P)" al "nframes s" "\<lambda>nf. deleteLRU nf u" "nframes s" s A, OF _ lru_tail a(1-3) refl] by (simp add: lru_size_def)
  then show ?thesis using a(2,4) by (auto simp: policy_inv_def list_inv_def packed_def)
qed

lemma flush_lfu:
  assumes "policy_inv (lfu_inv al) content sinv nb s A"
  shows "\<exists>s'. flush_list (\<lambda>P. qcount (freq P)) (\<lambda>nf. deleteLFU nf u) io s = Some (Inr s') \<and>
    policy_inv (lfu_inv al) content sinv nb s' {} \<and> npages s' = npages s \<and> nframes s' = nframes s \<and> startFrame s' = startFrame s \<and> (\<forall>p<npages s. vm_view content s' p = vm_view content s p)"
proof -
  have a: "vm_core content sinv s A" "npages s \<le> nb" "lfu_inv al (nframes s) (pol s) A" "0 < nframes s"
    using assms by (simp_all add: policy_inv_def list_inv_def packed_def)
  have "\<exists>s'. flush_list (\<lambda>P. qcount (freq P)) (\<lambda>nf. deleteLFU nf u) io s = Some (Inr s') \<and> vm_core content sinv s' {} \<and>
      lfu_inv al (nframes s) (pol s') {} \<and> npages s' = npages s \<and> nframes s' = nframes s \<and> startFrame s' = startFrame s \<and> (\<forall>p<npages s. vm_view content s' p = vm_view content s p)"
    using lfuvm.flush_list_ok [of "\<lambda>P. qcount (freq P)" al "nframes s" "\<lambda>nf. deleteLFU nf u" "nframes s" s A, OF _ lfu_head a(1-3) refl] by (simp add: lfu_size_def)
  then show ?thesis using a(2,4) by (auto simp: policy_inv_def list_inv_def packed_def)
qed

end

section \<open>FIFO\<close>

text \<open>During the loop: the frames before \<open>k\<close> are free, and a frame in use holds a resident page.\<close>

definition fifo_flushing :: "('b \<Rightarrow> nat \<Rightarrow> bytes) \<Rightarrow> ('b \<Rightarrow> bool) \<Rightarrow> nat \<Rightarrow> nat \<Rightarrow> 'b page_table \<Rightarrow> nat set \<Rightarrow> bool" where
  "fifo_flushing content sinv nb k s A \<longleftrightarrow>
     vm_core content sinv s A \<and> npages s \<le> nb \<and> startFrame s = 0 \<and>
     endFrame s \<le> length (frameState (pol s)) \<and> endFrame s \<le> length (framePage (pol s)) \<and>
     (\<forall>i<endFrame s. frameState (pol s) ! i \<noteq> 0 \<longrightarrow> i \<in> (\<lambda>p. page_mapping s ! p) ` A) \<and>
     (\<forall>p\<in>A. framePage (pol s) ! (page_mapping s ! p) = p) \<and> (\<forall>p\<in>A. k \<le> page_mapping s ! p) \<and>
     set (framePage (pol s)) \<subseteq> {..<npages s} \<and> set (page_mapping s) \<subseteq> {..<endFrame s}"

lemma drop_absent:
  assumes core: "vm_core content sinv s A" and v: "v < npages s" "v \<notin> A" and f: "startFrame s \<le> page_mapping s ! v" "page_mapping s ! v < endFrame s"
  shows "drop_page io v s = Inr s"
proof -
  have "page_bits s ! v = 0" using vm_coreD(7) [OF core v] .
  then have "(page_bits s)[v := 0] = page_bits s" by (metis list_update_id)
  then show ?thesis using v(1) f \<open>page_bits s ! v = 0\<close>
    by (simp add: drop_page_def page_table_get_entry_def write_back_def page_table_set_entry_def)
qed

context block_store
begin

lemma fifo_flush_step:
  assumes J: "fifo_flushing content sinv nb k s A" and k: "k < endFrame s"
  shows "\<exists>s' A'. (\<forall>is. flush_frames io (k # is) s = flush_frames io is s') \<and> fifo_flushing content sinv nb (Suc k) s' A' \<and>
    npages s' = npages s \<and> nframes s' = nframes s \<and> startFrame s' = startFrame s \<and> endFrame s' = endFrame s \<and> (\<forall>p<npages s. vm_view content s' p = vm_view content s p)"
proof -
  have D: "vm_core content sinv s A" "npages s \<le> nb" "startFrame s = 0" "endFrame s \<le> length (frameState (pol s))"
      "endFrame s \<le> length (framePage (pol s))" "\<forall>i<endFrame s. frameState (pol s) ! i \<noteq> 0 \<longrightarrow> i \<in> (\<lambda>p. page_mapping s ! p) ` A"
      "\<forall>p\<in>A. framePage (pol s) ! (page_mapping s ! p) = p" "\<forall>p\<in>A. k \<le> page_mapping s ! p"
      "set (framePage (pol s)) \<subseteq> {..<npages s}" "set (page_mapping s) \<subseteq> {..<endFrame s}"
    using J unfolding fifo_flushing_def by blast+
  define v where "v = framePage (pol s) ! k"
  define f where "f = page_mapping s ! v"
  have "v \<in> set (framePage (pol s))" using D(5) k by (simp add: v_def)
  then have vn: "v < npages s" using D(9) by auto
  have "f \<in> set (page_mapping s)" using vn vm_coreD(1) [OF D(1)] by (simp add: f_def)
  then have fe: "f < endFrame s" using D(10) by auto
  have entry: "page_table_get_entry v s = Inr (f, page_bits s ! v)" using vn by (simp add: page_table_get_entry_def f_def)
  obtain s1 where s1: "drop_page io v s = Inr s1" "vm_core content sinv s1 (A - {v})" "same_shape s s1" "page_mapping s1 = page_mapping s"
      "\<forall>p<npages s. vm_view content s1 p = vm_view content s p"
  proof (cases "v \<in> A")
    case True
    then show thesis using drop_page_ok [OF D(1,2) True] that by blast
  next
    case False
    then have "A - {v} = A" by simp
    then show thesis using that [of s] drop_absent [OF D(1) vn False, of io] D(1,3) fe by (simp add: f_def same_shape_def)
  qed
  have sh: "npages s1 = npages s" "nframes s1 = nframes s" "startFrame s1 = startFrame s" "endFrame s1 = endFrame s" "pol s1 = pol s"
    using s1(3) by (simp_all add: same_shape_def)
  let ?s' = "s1\<lparr>pol := (pol s)\<lparr>frameState := (frameState (pol s))[f := 0]\<rparr>\<rparr>"
  have step: "flush_frames io (k # is) s = flush_frames io is ?s'" for "is"
    using k D(4,5) entry s1(1) sh(5) fe by (simp add: Let_def flip: v_def)
  have later: "Suc k \<le> page_mapping s ! p" if "p \<in> A - {v}" for p
  proof -
    have "page_mapping s ! p \<noteq> k" using D(7) that by (auto simp: v_def)
    then show ?thesis using D(8) that by (simp add: Suc_le_eq order_less_le)
  qed
  have used: "i \<in> (\<lambda>p. page_mapping s ! p) ` (A - {v})" if "i < endFrame s" "(frameState (pol s))[f := 0] ! i \<noteq> 0" for i
  proof -
    have "i \<noteq> f" "frameState (pol s) ! i \<noteq> 0" using that D(4) fe by (auto simp: nth_list_update split: if_splits)
    then show ?thesis using D(6) that(1) by (auto simp: f_def)
  qed
  have "fifo_flushing content sinv nb (Suc k) ?s' (A - {v})"
    unfolding fifo_flushing_def using s1(2,4) sh D(2-5,7,9,10) used later by simp
  then show ?thesis using step s1(5) sh by (intro exI [of _ ?s'] exI [of _ "A - {v}"]) simp
qed

lemma flush_frames_ok:
  assumes "fifo_flushing content sinv nb k s A" "k \<le> endFrame s" "endFrame s = nframes s"
  shows "\<exists>s'. flush_frames io [k..<nframes s] s = Inr s' \<and> fifo_flushing content sinv nb (nframes s) s' {} \<and>
    npages s' = npages s \<and> nframes s' = nframes s \<and> startFrame s' = startFrame s \<and> (\<forall>p<npages s. vm_view content s' p = vm_view content s p)"
  using assms
proof (induction "nframes s - k" arbitrary: k s A)
  case 0
  then have k: "k = endFrame s" by simp
  have "p \<notin> A" for p using 0(2) vm_coreD(10) [of content sinv s A p] k by (force simp: fifo_flushing_def)
  then have "A = {}" by blast
  then show ?case using 0 k by simp
next
  case (Suc n)
  then have k: "k < endFrame s" by simp
  from fifo_flush_step [OF Suc(3) this] obtain s1 A1 where s1: "\<And>is. flush_frames io (k # is) s = flush_frames io is s1"
      "fifo_flushing content sinv nb (Suc k) s1 A1" "npages s1 = npages s" "nframes s1 = nframes s" "startFrame s1 = startFrame s" "endFrame s1 = endFrame s"
      "\<forall>p<npages s. vm_view content s1 p = vm_view content s p"
    by blast
  have "n = nframes s1 - Suc k" using Suc(2) s1(4) by simp
  from Suc(1) [OF this s1(2)] show ?case
    using k Suc(5) s1 upt_conv_Cons [of k "nframes s"] by auto
qed

end

section \<open>RAND\<close>

lemma bucket_head:
  assumes ok: "hash_ok nf h m" and i: "i < nf"
  shows "\<exists>b. bucket h i = Inr b \<and> (bcount b = 0 \<longleftrightarrow> bhead b = 0) \<and>
    (if bhead b = 0 then \<forall>k\<in>dom m. k mod nf \<noteq> i
     else \<exists>n. deref (hnodes h) (bhead b) = Inr n \<and> hkey n \<in> dom m \<and> hkey n mod nf = i)"
proof -
  obtain B where rep: "hash_rep nf h B" and mp: "holds_map (hnodes h) m" using ok by (auto simp: hash_ok_def)
  let ?b = "buckets h ! i"
  have len: "length (buckets h) = nf" and ch: "chain hnext (hnodes h) (bhead ?b) (B ! i)" and cnt: "bcount ?b = int (length (B ! i))"
    and mem: "\<And>p. p \<in> set (B ! i) \<longleftrightarrow> (\<exists>n. hnodes h p = Some n \<and> hkey n mod nf = i)"
    using rep i by (simp_all add: hash_rep_def)
  show ?thesis
  proof (cases "B ! i")
    case Nil
    have "k mod nf \<noteq> i" if k: "k \<in> dom m" for k
    proof
      assume "k mod nf = i"
      moreover obtain v where "m k = Some v" using k by auto
      with holds_mapD2 [OF mp] obtain p n where "hnodes h p = Some n" "hkey n = k" by blast
      ultimately show False using mem [of p] Nil by auto
    qed
    then show ?thesis using len i ch cnt Nil by (simp add: bucket_def)
  next
    case (Cons q qs)
    then obtain n where n: "bhead ?b = q" "q \<noteq> 0" "hnodes h q = Some n" using ch by auto
    then have "hkey n mod nf = i" "hkey n \<in> dom m" using mem [of q] Cons holds_mapD1 [OF mp n(3)] by auto
    then show ?thesis using len i n cnt Cons by (simp add: bucket_def)
  qed
qed

text \<open>The table and the resident pages agree; the count of frames in use is left alone.\<close>

definition rand_flushing :: "('b \<Rightarrow> nat \<Rightarrow> bytes) \<Rightarrow> ('b \<Rightarrow> bool) \<Rightarrow> nat \<Rightarrow> 'b page_table \<Rightarrow> nat set \<Rightarrow> bool" where
  "rand_flushing content sinv nb s A \<longleftrightarrow>
     vm_core content sinv s A \<and> npages s \<le> nb \<and> finite A \<and> (\<exists>m. hash_ok (nframes s) (hashT (pol s)) m \<and> dom m = A)"

definition flush_effect :: "('b \<Rightarrow> nat \<Rightarrow> bytes) \<Rightarrow> 'b page_table \<Rightarrow> 'b page_table \<Rightarrow> bool" where
  "flush_effect content s s' \<longleftrightarrow>
     npages s' = npages s \<and> nframes s' = nframes s \<and> startFrame s' = startFrame s \<and> rcount (pol s') = rcount (pol s) \<and>
     (\<forall>p<npages s. vm_view content s' p = vm_view content s p)"

lemma flush_effect_trans: "flush_effect content s s' \<Longrightarrow> flush_effect content s' s'' \<Longrightarrow> flush_effect content s s''"
  by (simp add: flush_effect_def)

context block_store
begin

lemma flush_bucket_ok:
  assumes "rand_flushing content sinv nb s A" "i < nframes s"
  shows "\<exists>s'. flush_bucket io i s = Some (Inr s') \<and> rand_flushing content sinv nb s' {k\<in>A. k mod nframes s \<noteq> i} \<and> flush_effect content s s'"
  using assms
proof (induction "card {k\<in>A. k mod nframes s = i}" arbitrary: s A rule: less_induct)
  case less
  obtain m where J: "vm_core content sinv s A" "npages s \<le> nb" "finite A" "hash_ok (nframes s) (hashT (pol s)) m" "dom m = A"
    using less.prems(1) by (auto simp: rand_flushing_def)
  obtain b where b: "bucket (hashT (pol s)) i = Inr b" "if bhead b = 0 then \<forall>k\<in>dom m. k mod nframes s \<noteq> i
     else \<exists>n. deref (hnodes (hashT (pol s))) (bhead b) = Inr n \<and> hkey n \<in> dom m \<and> hkey n mod nframes s = i"
    using bucket_head [OF J(4) less.prems(2)] by blast
  show ?case
  proof (cases "bhead b = 0")
    case True
    then have "{k\<in>A. k mod nframes s \<noteq> i} = A" using b(2) J(5) by auto
    then show ?thesis using b(1) True less.prems(1) by (subst flush_bucket.simps) (simp add: flush_effect_def)
  next
    case False
    then obtain n where n: "deref (hnodes (hashT (pol s))) (bhead b) = Inr n" "hkey n \<in> A" "hkey n mod nframes s = i"
      using b(2) J(5) by auto
    obtain s1 where s1: "drop_page io (hkey n) s = Inr s1" "vm_core content sinv s1 (A - {hkey n})" "same_shape s s1"
        "\<forall>p<npages s. vm_view content s1 p = vm_view content s p"
      using drop_page_ok [OF J(1,2) n(2)] by blast
    have sh: "npages s1 = npages s" "nframes s1 = nframes s" "startFrame s1 = startFrame s" "pol s1 = pol s" using s1(3) by (simp_all add: same_shape_def)
    obtain h where h: "deleteHashNode (nframes s) (hkey n) (hashT (pol s)) = Inr h" "hash_ok (nframes s) h (m(hkey n := None))"
      using delete_hash_ok [OF J(4)] .
    let ?s2 = "s1\<lparr>pol := (pol s)\<lparr>hashT := h\<rparr>\<rparr>" and ?A2 = "A - {hkey n}"
    have "dom (m(hkey n := None)) = ?A2" using J(5) by auto
    then have J2: "rand_flushing content sinv nb ?s2 ?A2"
      unfolding rand_flushing_def using s1(2) sh J(2,3) h(2) by (intro conjI exI [of _ "m(hkey n := None)"]) simp_all
    have eff: "flush_effect content s ?s2" using sh s1(4) by (simp add: flush_effect_def)
    have e: "{k\<in>?A2. k mod nframes ?s2 = i} = {k\<in>A. k mod nframes s = i} - {hkey n}" using sh by auto
    have "hkey n \<in> {k\<in>A. k mod nframes s = i}" "finite {k\<in>A. k mod nframes s = i}" using n J(3) by auto
    then have "card {k\<in>?A2. k mod nframes ?s2 = i} < card {k\<in>A. k mod nframes s = i}" unfolding e by (intro card_Diff1_less)
    from less.hyps [OF this J2] obtain s' where s': "flush_bucket io i ?s2 = Some (Inr s')"
        "rand_flushing content sinv nb s' {k\<in>?A2. k mod nframes s \<noteq> i}" "flush_effect content ?s2 s'"
      using less.prems(2) sh by auto
    have "{k\<in>?A2. k mod nframes s \<noteq> i} = {k\<in>A. k mod nframes s \<noteq> i}" using n(3) by auto
    moreover have "flush_bucket io i s = flush_bucket io i ?s2"
      using b(1) False n(1) s1(1) sh h(1) by (subst flush_bucket.simps) simp
    ultimately show ?thesis using s' flush_effect_trans [OF eff] by auto
  qed
qed

lemma flush_buckets_ok:
  assumes "rand_flushing content sinv nb s A" "\<forall>i\<in>set is. i < nframes s"
  shows "\<exists>s'. flush_buckets io is s = Inr s' \<and> rand_flushing content sinv nb s' {k\<in>A. k mod nframes s \<notin> set is} \<and> flush_effect content s s'"
  using assms
proof (induction "is" arbitrary: s A)
  case Nil
  then show ?case by (simp add: flush_effect_def)
next
  case (Cons i js)
  obtain m where m: "hash_ok (nframes s) (hashT (pol s)) m" "dom m = A" using Cons.prems(1) by (auto simp: rand_flushing_def)
  obtain b where b: "bucket (hashT (pol s)) i = Inr b" "bcount b = 0 \<longleftrightarrow> bhead b = 0" "bhead b = 0 \<longrightarrow> (\<forall>k\<in>A. k mod nframes s \<noteq> i)"
    using bucket_head [OF m(1), of i] Cons.prems(2) m(2) by auto
  obtain s1 where s1: "flush_buckets io (i # js) s = flush_buckets io js s1"
      "rand_flushing content sinv nb s1 {k\<in>A. k mod nframes s \<noteq> i}" "flush_effect content s s1"
  proof (cases "bhead b = 0")
    case True
    then have "{k\<in>A. k mod nframes s \<noteq> i} = A" using b(3) by auto
    then show thesis using that [of s] b True Cons.prems(1) by (simp add: flush_effect_def)
  next
    case False
    then show thesis using that flush_bucket_ok [OF Cons.prems(1), of i] Cons.prems(2) b by (auto simp: ended_def)
  qed
  have sh: "nframes s1 = nframes s" using s1(3) by (simp add: flush_effect_def)
  from Cons.IH [OF s1(2)] obtain s' where s': "flush_buckets io js s1 = Inr s'"
      "rand_flushing content sinv nb s' {k\<in>{k\<in>A. k mod nframes s \<noteq> i}. k mod nframes s \<notin> set js}" "flush_effect content s1 s'"
    using Cons.prems(2) sh by auto
  have "{k\<in>{k\<in>A. k mod nframes s \<noteq> i}. k mod nframes s \<notin> set js} = {k\<in>A. k mod nframes s \<notin> set (i # js)}" by auto
  then show ?case unfolding s1(1) using s' flush_effect_trans [OF s1(3) s'(3)] by (intro exI [of _ s']) simp
qed

lemma flush_rand:
  assumes "policy_inv (rand_inv al) content sinv nb s A"
  shows "\<exists>s'. page_table_flush RAND io u s = Inr s' \<and> rand_flushing content sinv nb s' {} \<and> flush_effect content s s'"
proof -
  have J: "rand_flushing content sinv nb s A" and nf: "0 < nframes s"
    using assms by (auto simp: policy_inv_def list_inv_def rand_inv_def rand_flushing_def packed_def)
  have e: "{k\<in>A. k mod nframes s \<notin> set [0..<nframes s]} = {}" using nf by auto
  show ?thesis using flush_buckets_ok [OF J, of "[0..<nframes s]"] unfolding e by simp
qed

text \<open>Every policy but RAND is ready for the next fault.\<close>

lemma flush_ok:
  assumes inv: "vm_inv p al content sinv nb s A" and p: "p \<noteq> RAND" "p = FIFO \<longrightarrow> startFrame s = 0"
  shows "\<exists>s'. page_table_flush p io u s = Inr s' \<and> vm_inv p al content sinv nb s' {} \<and> npages s' = npages s \<and> nframes s' = nframes s \<and> startFrame s' = startFrame s \<and>
    (\<forall>q<npages s. content (backing s') q = vm_view content s q)"
proof -
  have fin: ?thesis if "page_table_flush p io u s = Inr s'" "vm_inv p al content sinv nb s' {}" "npages s' = npages s" "nframes s' = nframes s" "startFrame s' = startFrame s"
    "\<forall>q<npages s. vm_view content s' q = vm_view content s q" for s'
    using that flushed_content [OF vmp.core [OF that(2)]] by auto
  show ?thesis
  proof (cases p)
    case FIFO
    note D = fifo_invD [OF inv [unfolded FIFO vm_inv.simps]]
    have J: "fifo_flushing content sinv nb 0 s A"
      unfolding fifo_flushing_def using D(1,2,4,5,7,8,9) D(6) p(2) FIFO by (intro conjI; simp)
    have e: "endFrame s = nframes s" using vm_coreD(4) [OF D(1)] p(2) FIFO by simp
    obtain s' where s': "flush_frames io [0..<nframes s] s = Inr s'" "fifo_flushing content sinv nb (nframes s) s' {}" "npages s' = npages s"
        "nframes s' = nframes s" "startFrame s' = startFrame s" "\<forall>q<npages s. vm_view content s' q = vm_view content s q"
      using flush_frames_ok [OF J le0 e] by blast
    have "fifo_inv content sinv nb s' {}" using s'(2,4) D(3) by (auto simp: fifo_inv_def fifo_flushing_def)
    then show ?thesis using fin [of s'] s' FIFO by simp
  next
    case LRU
    then obtain s' where "page_table_flush p io u s = Inr s'" "vm_inv p al content sinv nb s' {}" "npages s' = npages s" "nframes s' = nframes s" "startFrame s' = startFrame s"
        "\<forall>q<npages s. vm_view content s' q = vm_view content s q"
      using flush_lru [of al s A u] inv by (auto simp: ended_def)
    then show ?thesis by (rule fin)
  next
    case FFIFO
    then obtain s' where "page_table_flush p io u s = Inr s'" "vm_inv p al content sinv nb s' {}" "npages s' = npages s" "nframes s' = nframes s" "startFrame s' = startFrame s"
        "\<forall>q<npages s. vm_view content s' q = vm_view content s q"
      using flush_lru [of al s A u] inv by (auto simp: ended_def)
    then show ?thesis by (rule fin)
  next
    case LFU
    then obtain s' where "page_table_flush p io u s = Inr s'" "vm_inv p al content sinv nb s' {}" "npages s' = npages s" "nframes s' = nframes s" "startFrame s' = startFrame s"
        "\<forall>q<npages s. vm_view content s' q = vm_view content s q"
      using flush_lfu [of al s A u] inv by (auto simp: ended_def)
    then show ?thesis by (rule fin)
  qed (use p in simp)
qed

end

section \<open>What the flush leaves behind\<close>

lemma disk_opened:
  assumes "e_disk e = Some f" "e_trunc_ok e"
  shows "\<exists>b'. open_store DISK_PAGING e np b = Inr b' \<and> disk_sinv np b' \<and>
    (\<forall>d<np * BLOCK_SIZE. d_file (bk_disk b') ! d = (if d < length f then f ! d else 0))"
  using assms by (auto simp: disk_open_def disk_sinv_def ftruncate_def nth_append)

lemma disk_bytes:
  assumes "disk_sinv np b" "d < np * BLOCK_SIZE"
  shows "disk_content b (d div BLOCK_SIZE) ! (d mod BLOCK_SIZE) = d_file (bk_disk b) ! d"
proof -
  have "d div BLOCK_SIZE * BLOCK_SIZE + BLOCK_SIZE \<le> length (d_file (bk_disk b))"
    using frame_end [OF page_in [OF assms(2)]] assms(1) by (simp add: disk_sinv_def)
  then show ?thesis using slice_nth [of "d mod BLOCK_SIZE" BLOCK_SIZE] div_mult_mod_eq [of d BLOCK_SIZE] by (simp add: disk_content_def)
qed



text \<open>
  C35: With RAND, a flush keeps the count of frames in use while it empties the table the victims
  are taken from. When the physical memory was full, the next fault looks for a victim in empty
  buckets and never ends.
\<close>

theorem rand_fault_after_flush_hangs:
  assumes "vm_inv RAND al mem_content (mem_sinv nb) nb s A" "card A = nframes s" "page < npages s"
  shows "\<exists>s'. page_table_flush RAND (pager_of MEM_PAGING nif dst) u s = Inr s' \<and>
     RAND_page_fault_handler (pager_of MEM_PAGING nif dst) al rnd page s' = Inl Blocked"
proof -
  have inv: "policy_inv (rand_inv al) mem_content (mem_sinv nb) nb s A" using assms(1) by simp
  then have cnt: "rcount (pol s) = nframes s" "0 < nframes s"
    using assms(2) by (auto simp: policy_inv_def list_inv_def rand_inv_def packed_def)
  obtain s' where s': "page_table_flush RAND (pager_of MEM_PAGING nif dst) u s = Inr s'" "rand_flushing mem_content (mem_sinv nb) nb s' {}"
      "flush_effect mem_content s s'"
    using mem_bs.flush_rand [OF inv] by blast
  have sh: "npages s' = npages s" "nframes s' = nframes s" "startFrame s' = startFrame s" "rcount (pol s') = nframes s" using s'(3) cnt by (simp_all add: flush_effect_def)
  obtain m where m: "vm_core mem_content (mem_sinv nb) s' {}" "hash_ok (nframes s) (hashT (pol s')) m" "dom m = {}"
    using s'(2) sh(2) by (auto simp: rand_flushing_def)
  have len: "length (buckets (hashT (pol s'))) = nframes s" using m(2) by (auto simp: hash_ok_def hash_rep_def)
  have "bhead b = 0" if b: "b \<in> set (buckets (hashT (pol s')))" for b
  proof -
    obtain i where "i < nframes s" "b = buckets (hashT (pol s')) ! i" using b len by (auto simp: in_set_conv_nth)
    then show ?thesis using bucket_head [OF m(2), of i] m(3) len by (auto simp: bucket_def split: if_splits)
  qed
  then have "scan_buckets (buckets (hashT (pol s'))) (nframes s) (rnd mod nframes s) = None"
    using scan_empty [OF _ len, of "rnd mod nframes s"] cnt(2) by (cases "scan_buckets (buckets (hashT (pol s'))) (nframes s) (rnd mod nframes s)") auto
  moreover have "page_bits s' ! page = 0" using vm_coreD(7) [OF m(1)] assms(3) sh(1) by simp
  ultimately have "RAND_page_fault_handler (pager_of MEM_PAGING nif dst) al rnd page s' = Inl Blocked"
    using assms(3) sh cnt(2) by (simp add: RAND_page_fault_handler_def page_table_get_entry_def Let_def)
  then show ?thesis using s'(1) by blast
qed

theorem rand_fault_after_flush_hangs_witness:
  "\<exists>s0 s s'. init_virtual_memory demo_env 1 1 ''mem'' ''rand'' demo_backends = Inr (MEM_PAGING, RAND, s0) \<and>
     RAND_page_fault_handler (pager_of MEM_PAGING (e_net demo_env) 0) demo_allocs 0 0 s0 = Inr s \<and>
     page_table_flush RAND (pager_of MEM_PAGING (e_net demo_env) 0) 0 s = Inr s' \<and>
     RAND_page_fault_handler (pager_of MEM_PAGING (e_net demo_env) 0) demo_allocs 0 0 s' = Inl Blocked"
proof -
  let ?io = "pager_of MEM_PAGING (e_net demo_env) 0" and ?I = "vm_inv RAND demo_allocs mem_content (mem_sinv 1) 1"
  obtain b where b: "open_store MEM_PAGING demo_env 1 demo_backends = Inr b" "mem_sinv 1 b"
    by (simp add: mem_allocate_def fill_mem_def mem_sinv_def c_int_def demo_env_def BLOCK_SIZE_def)
  define s0 where "s0 = page_table_create 1 1 (init_policy RAND 1) b"
  have init: "init_virtual_memory demo_env 1 1 ''mem'' ''rand'' demo_backends = Inr (MEM_PAGING, RAND, s0)"
    using b(1) by (simp add: init_virtual_memory_def s0_def del: open_store.simps)
  have inv0: "?I s0 {}" unfolding s0_def by (rule created_inv [where sinv = "mem_sinv 1", OF b(2)]) simp_all
  have s0: "npages s0 = 1" "nframes s0 = 1" "page_bits s0 ! 0 \<noteq> PROT_RW" by (simp_all add: s0_def page_table_create_def)
  obtain s A where s: "RAND_page_fault_handler ?io demo_allocs 0 0 s0 = Inr s" "?I s A" "0 \<in> A" "npages s = 1" "nframes s = 1"
  proof -
    have "\<exists>s' A'. handler_of RAND ?io demo_allocs (\<lambda>_. 0) 0 s0 = Inr s' \<and> ?I s' A' \<and> 0 \<in> A' \<and> npages s' = npages s0 \<and> nframes s' = nframes s0"
      using mem_bs.vmp.hand [of RAND demo_allocs 1 "e_net demo_env" 0 "\<lambda>_. 0", unfolded handles_def, rule_format, OF inv0 _ s0(3)] s0(1)
      by (simp del: vm_inv.simps handler_of.simps) blast
    then show thesis using that s0 by auto
  qed
  have "A \<subseteq> {..<1}" using vm_coreD(5) [OF mem_bs.vmp.core [OF s(2)]] s(4) by simp
  then have "A = {0}" using s(3) by auto
  then have "card A = nframes s" "0 < npages s" using s(4,5) by simp_all
  from rand_fault_after_flush_hangs [OF s(2) this, of "e_net demo_env" 0 0 0] show ?thesis using init s(1) by blast
qed

end
