(* ===== verification/BB_Threads.thy ===== *)
theory BB_Threads
  imports BB_Flush
begin

text \<open>
  Several threads on one virtual memory (\<^verbatim>\<open>register_vmem_threads\<close>, \<^verbatim>\<open>init_vmem_thread\<close>) and the end of it
  (\<^verbatim>\<open>clean_page_table\<close>): each thread has frames of its own, and cleaning frees the nodes of the lists
  and of the index.
\<close>

section \<open>Threads\<close>

text \<open>
  A thread has frames of its own; the lists and the table of its policy are thread local, the
  arrays of FIFO are shared.
\<close>

fun thread_policy :: "policy \<Rightarrow> nat \<Rightarrow> pol_state \<Rightarrow> pol_state" where
  "thread_policy FIFO nf P = P"
| "thread_policy LRU nf P = P\<lparr>hashT := new_hashTable nf, dll := new_dllList\<rparr>"
| "thread_policy FFIFO nf P = P\<lparr>hashT := new_hashTable nf, dll := new_dllList\<rparr>"
| "thread_policy LFU nf P = P\<lparr>hashT := new_hashTable nf, freq := new_freqList\<rparr>"
| "thread_policy RAND nf P = P\<lparr>hashT := new_hashTable nf\<rparr>"

definition init_vmem_thread :: "policy \<Rightarrow> nat \<Rightarrow> 'b page_table \<Rightarrow> 'b page_table" where
  "init_vmem_thread p t_id s =
     s\<lparr>startFrame := t_id * nframes s, endFrame := (t_id + 1) * nframes s, pol := thread_policy p (nframes s) (pol s)\<rparr>"

text \<open>\<^verbatim>\<open>mremap\<close> refuses the size 0; the memory it adds is zero.\<close>

definition register_vmem_threads :: "policy \<Rightarrow> 'b pager \<Rightarrow> nat \<Rightarrow> nat \<Rightarrow> 'b page_table \<Rightarrow> 'b page_table res" where
  "register_vmem_threads p io u num_threads s =
     bindE (page_table_flush p io u s) (\<lambda>s1.
       let frame_space = BLOCK_SIZE * nframes s1 in
       if BLOCK_SIZE * npages s1 < frame_space * num_threads then Inl Exit
       else if frame_space * num_threads = 0 then Inl Exit
       else
         let s2 = s1\<lparr>physmem := take (frame_space * num_threads) (physmem s1) @
                                  replicate (frame_space * num_threads - length (physmem s1)) 0\<rparr> in
         Inr (if p = FIFO
              then s2\<lparr>pol := (pol s2)\<lparr>frameState := replicate (nframes s1 * num_threads) 0,
                                      framePage := replicate (nframes s1 * num_threads) 0\<rparr>\<rparr>
              else s2))"

lemma thread_policy_ok:
  assumes "0 < nf" "good_allocs al" "p = RAND \<longrightarrow> rcount P = 0"
  shows "p = LRU \<or> p = FFIFO \<Longrightarrow> lru_inv al nf (thread_policy p nf P) {}"
    "p = LFU \<Longrightarrow> lfu_inv al nf (thread_policy p nf P) {}" "p = RAND \<Longrightarrow> rand_inv al nf (thread_policy p nf P) {}"
proof -
  show "lru_inv al nf (thread_policy p nf P) {}" if "p = LRU \<or> p = FFIFO"
    using lru_abs_new [OF assms(1)] assms(2) that by (auto simp: lru_inv_def lru_abs_def)
  show "lfu_inv al nf (thread_policy p nf P) {}" if "p = LFU"
    using new_lfu_rep new_hash_ok [OF assms(1)] assms(2) that
    by (auto simp: lfu_inv_def lfu_abs_def node_map_def intro!: exI [of _ "[]"])
  show "rand_inv al nf (thread_policy p nf P) {}" if "p = RAND"
    unfolding rand_inv_def using new_hash_ok [OF assms(1)] assms(2,3) that by (intro conjI exI [of _ "\<lambda>_. None"]) simp_all
qed

lemma thread_inv:
  assumes flushed: "length (page_mapping s) = npages s" "length (page_bits s) = npages s" "\<forall>q<npages s. page_bits s ! q = 0" "sinv (backing s)"
    and core: "npages s \<le> nb" "0 < nframes s" "0 < npages s"
    and room: "(t + 1) * nframes s * BLOCK_SIZE \<le> length (physmem s)" and al: "good_allocs al"
    and fifo: "p = FIFO \<Longrightarrow> (t + 1) * nframes s \<le> length (frameState (pol s)) \<and> (t + 1) * nframes s \<le> length (framePage (pol s)) \<and>
        set (frameState (pol s)) \<subseteq> {0} \<and> set (framePage (pol s)) \<subseteq> {0} \<and> set (page_mapping s) \<subseteq> {..<(t + 1) * nframes s}"
    and rand: "p = RAND \<longrightarrow> rcount (pol s) = 0"
  shows "vm_inv p al content sinv nb (init_vmem_thread p t s) {}"
proof -
  let ?s = "init_vmem_thread p t s"
  have core': "vm_core content sinv ?s {}" using flushed room by (simp add: vm_core_def init_vmem_thread_def)
  have sh: "npages ?s = npages s" "nframes ?s = nframes s" "pol ?s = thread_policy p (nframes s) (pol s)" by (simp_all add: init_vmem_thread_def)
  have pk: "packed ?s {}" using core(2) sh by (simp add: packed_def)
  have fst0: "frameState (pol s) ! i = 0" if "p = FIFO" "i < (t + 1) * nframes s" for i
    using fifo [OF that(1)] that(2) nth_mem [of i "frameState (pol s)"] by fastforce
  note pol = thread_policy_ok [OF core(2) al rand]
  show ?thesis
  proof (cases p)
    case FIFO
    then show ?thesis using core' core sh fifo fst0 by (auto simp: fifo_inv_def init_vmem_thread_def)
  qed (use core' core(1) pk sh pol in \<open>simp_all add: policy_inv_def list_inv_def\<close>)
qed



section \<open>Cleaning up\<close>

partial_function (option) clean_list ::
  "(pol_state \<Rightarrow> nat) \<Rightarrow> (pol_state \<Rightarrow> (nat \<times> pol_state) res) \<Rightarrow> pol_state \<Rightarrow> pol_state res option" where
  "clean_list psize evict P =
     (if 0 < psize P
      then (case evict P of Inl e \<Rightarrow> Some (Inl e) | Inr (v, P') \<Rightarrow> clean_list psize evict P')
      else Some (Inr P))"

partial_function (option) clean_bucket :: "nat \<Rightarrow> nat \<Rightarrow> hashTable \<Rightarrow> hashTable res option" where
  "clean_bucket nf i h =
     (case bucket h i of
        Inl e \<Rightarrow> Some (Inl e)
      | Inr b \<Rightarrow>
          if bhead b = 0 then Some (Inr h)
          else
            (case bindE (deref (hnodes h) (bhead b)) (\<lambda>n. deleteHashNode nf (hkey n) h) of
               Inl e \<Rightarrow> Some (Inl e)
             | Inr h' \<Rightarrow> clean_bucket nf i h'))"

fun clean_buckets :: "nat \<Rightarrow> nat list \<Rightarrow> hashTable \<Rightarrow> hashTable res" where
  "clean_buckets nf [] h = Inr h"
| "clean_buckets nf (i # is) h =
     bindE (bucket h i) (\<lambda>b.
       if bcount b = 0 \<or> bhead b = 0 then clean_buckets nf is h
       else bindE (ended (clean_bucket nf i h)) (clean_buckets nf is))"

fun clean_policy :: "policy \<Rightarrow> nat \<Rightarrow> pol_state \<Rightarrow> pol_state res" where
  "clean_policy FIFO nf P = Inr P"
| "clean_policy LRU nf P = ended (clean_list (\<lambda>P. dcount (dll P)) (deleteLRU nf 0) P)"
| "clean_policy FFIFO nf P = ended (clean_list (\<lambda>P. dcount (dll P)) (deleteLRU nf 0) P)"
| "clean_policy LFU nf P = ended (clean_list (\<lambda>P. qcount (freq P)) (deleteLFU nf 0) P)"
| "clean_policy RAND nf P = bindE (clean_buckets nf [0..<nf] (hashT P)) (\<lambda>h. Inr (P\<lparr>hashT := h\<rparr>))"

fun close_store :: "paging_system \<Rightarrow> 'n environment \<Rightarrow> 'n backends \<Rightarrow> 'n backends res" where
  "close_store DISK_PAGING e b = Inr b"
| "close_store RMEM_PAGING e b = bindE (rmem_deallocate (e_net e) (e_hosts e) (bk_rmem b) (bk_client b)) (\<lambda>c. Inr (b\<lparr>bk_client := c\<rparr>))"
| "close_store RRMEM_PAGING e b =
     bindE (rrmem_deallocate (e_net e) (rr_target (bk_rrmem b)) (rsmem (bk_rrmem b)) (nat (get_num_hosts (e_hosts e))) (bk_client b)) (\<lambda>c.
       Inr (b\<lparr>bk_client := c\<rparr>))"
| "close_store MEM_PAGING e b = Inr b"

text \<open>What is left: the nodes that were not freed, and the stores. The statistics start again.\<close>

definition clean_page_table ::
  "policy \<Rightarrow> paging_system \<Rightarrow> 'n environment \<Rightarrow> 'n backends page_table \<Rightarrow> (pol_state \<times> 'n backends) res" where
  "clean_page_table p sys e s =
     bindE (clean_policy p (nframes s) (pol s)) (\<lambda>P.
     bindE (close_store sys e (backing s)) (\<lambda>b. Inr (P, b)))"

context replacement
begin

lemma clean_list_ok:
  assumes "pinv P A" "\<And>P. psz P = psize P" "\<And>P B. pinv P B \<Longrightarrow> B \<noteq> {} \<Longrightarrow> ev P = evict P"
  shows "\<exists>P'. clean_list psz ev P = Some (Inr P') \<and> pinv P' {}"
  using assms(1)
proof (induction "card A" arbitrary: P A)
  case 0
  have "finite A" "psize P = card A" using size_ok [OF 0(2)] by simp_all
  then have "A = {}" "psize P = 0" using 0(1) by simp_all
  then show ?case using 0(2) assms(2) by (subst clean_list.simps) simp
next
  case (Suc n)
  have fin: "finite A" "psize P = card A" using size_ok [OF Suc(3)] by simp_all
  then have ne: "A \<noteq> {}" using Suc(2) by auto
  obtain v P1 where v: "evict P = Inr (v, P1)" "v \<in> A" "pinv P1 (A - {v})" using evict_ok [OF Suc(3) ne] by auto
  have "n = card (A - {v})" using Suc(2) fin(1) v(2) by simp
  from Suc(1) [OF this v(3)] show ?case
    using assms(2) assms(3) [OF Suc(3) ne] v(1) fin Suc(2) by (subst clean_list.simps) simp
qed

end

lemma no_nodes: "hash_ok nf h m \<Longrightarrow> dom m = {} \<Longrightarrow> hnodes h = (\<lambda>_. None)"
  using holds_mapD1 [of "hnodes h" m] by (fastforce simp: hash_ok_def)

text \<open>
  Cleaning up under LRU or FFIFO ends and frees every node of the list and of the index.
\<close>

theorem clean_frees_all_nodes:
  assumes "lru_inv al nf P A" "p = LRU \<or> p = FFIFO"
  shows "\<exists>P'. clean_policy p nf P = Inr P' \<and> dnodes (dll P') = (\<lambda>_. None) \<and> hnodes (hashT P') = (\<lambda>_. None)"
proof -
  obtain P' where P': "clean_list (\<lambda>P. dcount (dll P)) (deleteLRU nf 0) P = Some (Inr P')" "lru_inv al nf P' {}"
    using lru.clean_list_ok [OF assms(1), of "\<lambda>P. dcount (dll P)" "deleteLRU nf 0"] by (auto simp: lru_size_def lru_evict_def)
  then obtain ns where ns: "dll_rep (dll P') ns" "hash_ok nf (hashT P') (node_map (node_key (dll P')) ns)" "ns = []"
    by (auto simp: lru_inv_def lru_abs_def)
  have "hnodes (hashT P') = (\<lambda>_. None)" using no_nodes [OF ns(2)] ns(3) by (simp add: node_map_def)
  moreover have "dnodes (dll P') = (\<lambda>_. None)" using ns(1,3) by (simp add: dll_rep_def)
  ultimately show ?thesis using P'(1) assms(2) by (auto simp: ended_def)
qed

theorem clean_frees_all_nodes_witness:
  "\<exists>P P'. lru_admit demo_allocs 2 7 (init_policy LRU 2) = Inr P \<and> clean_policy LRU 2 P = Inr P' \<and> dnodes (dll P') = (\<lambda>_. None)"
proof -
  have "lru_inv demo_allocs 2 (init_policy LRU 2) {}" using lru_abs_new [of 2] by (auto simp: lru_inv_def)
  from lru.admit_ok [OF this, of 7] obtain P where P: "lru_admit demo_allocs 2 7 (init_policy LRU 2) = Inr P" "lru_inv demo_allocs 2 P {7}" by auto
  then show ?thesis using clean_frees_all_nodes [OF P(2), of LRU] by auto
qed

end
