(* ===== verification/BB_Stdio.thy ===== *)
theory BB_Stdio
  imports BB_Prelude
begin

text \<open>
  The part of the C standard library with which the programs read text: \<^verbatim>\<open>fgets\<close> on a file,
  searching and tokenising in a character buffer, \<^verbatim>\<open>strtol\<close>, \<^verbatim>\<open>atoi\<close> and the \<^verbatim>\<open>%lx\<close> conversion
  of \<^verbatim>\<open>sscanf\<close>. A buffer is the list of its characters, a pointer into it an index, and the
  string at an index ends before the next NUL; reading on past the end of the buffer is a fault.
\<close>

section \<open>Strings in buffers\<close>

abbreviation nul :: char where "nul \<equiv> CHR 0x00"

abbreviation newline :: char where "newline \<equiv> CHR 0x0A"

definition cstr :: "string \<Rightarrow> nat \<Rightarrow> string res" where
  "cstr buf p =
     (if nul \<in> set (drop p buf) then Inr (takeWhile (\<lambda>c. c \<noteq> nul) (drop p buf)) else Inl Segv)"

definition strspn :: "string \<Rightarrow> string \<Rightarrow> nat" where
  "strspn s accept = length (takeWhile (\<lambda>c. c \<in> set accept) s)"

definition strcspn :: "string \<Rightarrow> string \<Rightarrow> nat" where
  "strcspn s reject = length (takeWhile (\<lambda>c. c \<notin> set reject) s)"

fun strstr :: "string \<Rightarrow> string \<Rightarrow> nat option" where
  "strstr [] pat = (if pat = [] then Some 0 else None)"
| "strstr (c # s) pat =
     (if take (length pat) (c # s) = pat then Some 0 else map_option Suc (strstr s pat))"

text \<open>
  \<^verbatim>\<open>strtok\<close> from a position of the buffer: the token, the position where the next call goes on,
  and the buffer with the separator after the token overwritten.
\<close>

definition strtok :: "string \<Rightarrow> nat \<Rightarrow> string \<Rightarrow> (string \<times> nat \<times> string) option res" where
  "strtok buf p sep =
     bindE (cstr buf p) (\<lambda>s.
       let k = strspn s sep; t = drop k s; n = strcspn t sep; e = p + k + n
       in Inr (if t = [] then None
               else if n = length t then Some (t, e, buf)
               else Some (take n t, e + 1, buf[e := nul])))"

section \<open>Files\<close>

fun take_line :: "nat \<Rightarrow> string \<Rightarrow> string \<times> string" where
  "take_line 0 s = ([], s)"
| "take_line (Suc n) [] = ([], [])"
| "take_line (Suc n) (c # s) =
     (if c = newline then ([c], s) else (let (l, r) = take_line n s in (c # l, r)))"

text \<open>
  \<^verbatim>\<open>fgets(buf, sizeof buf, file)\<close>: at most one character less than the buffer has room for, up
  to and including a newline, and a NUL; \<open>None\<close> at the end of the file.
\<close>

definition fgets :: "string \<Rightarrow> string \<Rightarrow> (string \<times> string) option" where
  "fgets buf file =
     (if file = [] then None
      else let (l, r) = take_line (length buf - 1) file in Some (blit buf 0 (l @ [nul]), r))"

section \<open>Numbers\<close>

definition isspace :: "char \<Rightarrow> bool" where
  "isspace c \<longleftrightarrow> c = CHR '' '' \<or> 9 \<le> (of_char c :: nat) \<and> (of_char c :: nat) \<le> 13"

definition isgraph :: "char \<Rightarrow> bool" where
  "isgraph c \<longleftrightarrow> 33 \<le> (of_char c :: nat) \<and> (of_char c :: nat) \<le> 126"

text \<open>A byte as a character of the C locale.\<close>

definition byte_char :: "u8 \<Rightarrow> char" where
  "byte_char b = char_of (unat b)"

definition digit_val :: "nat \<Rightarrow> char \<Rightarrow> nat option" where
  "digit_val base c =
     (let k = of_char c :: nat;
          d = (if 48 \<le> k \<and> k \<le> 57 then k - 48
               else if 97 \<le> k \<and> k \<le> 122 then k - 87
               else if 65 \<le> k \<and> k \<le> 90 then k - 55 else base)
      in if d < base then Some d else None)"

fun digits_val :: "nat \<Rightarrow> nat \<Rightarrow> string \<Rightarrow> nat" where
  "digits_val base acc [] = acc"
| "digits_val base acc (c # s) =
     (case digit_val base c of None \<Rightarrow> acc | Some d \<Rightarrow> digits_val base (acc * base + d) s)"

text \<open>The sign in front of a number, and what follows it.\<close>

definition split_sign :: "string \<Rightarrow> bool \<times> string" where
  "split_sign s =
     (case s of [] \<Rightarrow> (False, [])
      | c # r \<Rightarrow> if c = CHR ''-'' then (True, r) else if c = CHR ''+'' then (False, r) else (False, s))"

definition strtol :: "string \<Rightarrow> int" where
  "strtol s =
     (let (neg, r) = split_sign (dropWhile isspace s); v = int (digits_val 10 0 r);
          x = (if neg then - v else v)
      in max (- (2 ^ 63)) (min (2 ^ 63 - 1) x))"

definition atoi :: "string \<Rightarrow> int" where
  "atoi s = sint (word_of_int (strtol s) :: 32 word)"

text \<open>
  \<^verbatim>\<open>%lx\<close>: white space, a sign, an optional \<^verbatim>\<open>0x\<close> and at least one digit; \<open>None\<close> when the input
  does not match.
\<close>

definition scan_lx :: "string \<Rightarrow> u64 option" where
  "scan_lx s =
     (let (neg, r) = split_sign (dropWhile isspace s);
          h = (if take 2 r = ''0x'' \<or> take 2 r = ''0X'' then drop 2 r else r);
          v = digits_val 16 0 h;
          w = (if 2 ^ 64 \<le> v then - 1 else of_nat v)
      in case h of [] \<Rightarrow> None
         | c # _ \<Rightarrow> if digit_val 16 c = None then None
                   else Some (if neg \<and> v < 2 ^ 64 then - w else w))"

section \<open>Lemmas\<close>

lemma cstr_at:
  "drop p buf = s @ nul # r \<Longrightarrow> nul \<notin> set s \<Longrightarrow> cstr buf p = Inr s"
  by (auto simp: cstr_def takeWhile_eq_all_conv takeWhile_append)

lemma takeWhile_shorter: "x \<in> set xs \<Longrightarrow> \<not> P x \<Longrightarrow> length (takeWhile P xs) < length xs"
  by (induction xs) auto

lemma cstr_inside: "cstr buf p = Inr s \<Longrightarrow> p + length s < length buf"
  using takeWhile_shorter [of nul "drop p buf" "\<lambda>c. c \<noteq> nul"]
  by (auto simp: cstr_def split: if_splits)

lemma strcspn_append: "set s \<inter> set rej = {} \<Longrightarrow> c \<in> set rej \<Longrightarrow> strcspn (s @ c # r) rej = length s"
  by (induction s) (auto simp: strcspn_def)

lemma strcspn_all: "set s \<inter> set rej = {} \<Longrightarrow> strcspn s rej = length s"
  by (induction s) (auto simp: strcspn_def)

lemma strstr_char: "c \<notin> set s \<Longrightarrow> strstr (s @ c # r) [c] = Some (length s)"
  by (induction s) auto

lemma strstr_char_None: "strstr s [c] = None \<longleftrightarrow> c \<notin> set s"
  by (induction s) auto

lemma take_line_newline:
  "newline \<notin> set l \<Longrightarrow> length l < n \<Longrightarrow> take_line n (l @ newline # r) = (l @ [newline], r)"
proof (induction l arbitrary: n)
  case Nil
  then show ?case by (cases n) auto
next
  case (Cons c l)
  then show ?case by (cases n) auto
qed

lemma fgets_line:
  assumes "newline \<notin> set l" "length l + 1 < length buf"
  shows "fgets buf (l @ newline # r) = Some (blit buf 0 (l @ [newline, nul]), r)"
proof -
  have "take_line (length buf - 1) (l @ newline # r) = (l @ [newline], r)"
    using assms by (intro take_line_newline) auto
  then show ?thesis by (simp add: fgets_def)
qed

lemma take_line_length: "take_line n s = (l, r) \<Longrightarrow> s = l @ r \<and> length l \<le> n"
proof (induction n s arbitrary: l r rule: take_line.induct)
  case (3 n c s)
  then show ?case by (auto split: if_splits prod.splits)
qed auto

lemma take_line_progress: "take_line n s = (l, r) \<Longrightarrow> 0 < n \<Longrightarrow> s \<noteq> [] \<Longrightarrow> length r < length s"
  by (induction n s arbitrary: l r rule: take_line.induct)
    (force split: if_splits prod.splits dest: take_line_length)+

lemma fgets_progress:
  assumes "fgets buf file = Some (buf', r)" "1 < length buf"
  shows "length r < length file" "length buf' = length buf"
proof -
  obtain l where l: "take_line (length buf - 1) file = (l, r)" "file \<noteq> []" "buf' = blit buf 0 (l @ [nul])"
    using assms(1) by (auto simp: fgets_def Let_def split: if_splits prod.splits)
  then show "length r < length file" using take_line_progress [of "length buf - 1" "file" l r] assms(2) by simp
  show "length buf' = length buf"
    unfolding l(3) using take_line_length [OF l(1)] assms(2) by (intro length_blit) auto
qed

end
