(* ===== verification/BB_Config.thy ===== *)
theory BB_Config
  imports BB_Types BB_Stdio
begin

text \<open>
  The configuration file, \<^verbatim>\<open>ip6/lib/config.c\<close>: six lines \<^verbatim>\<open>KEY=value\<close> whose meaning is given by
  their position. The operating system comes in as parameters: \<^verbatim>\<open>inet_pton\<close>, and the answer of
  \<^verbatim>\<open>socket\<close> and \<^verbatim>\<open>getsockname\<close> when no port is configured. What the code prints, and the
  \<^verbatim>\<open>ioctl\<close> calls of \<^verbatim>\<open>set_interface_ip\<close>, do not reach the configuration and are left out.
\<close>

section \<open>Reading the file\<close>

text \<open>
  \<open>pton\<close> is \<open>None\<close> where \<^verbatim>\<open>inet_pton\<close> refuses the text and leaves its target alone. \<open>sockname\<close> is
  \<open>None\<close> when the socket cannot be opened, \<open>Some None\<close> when \<^verbatim>\<open>getsockname\<close> fails, and otherwise
  the port it reports.
\<close>

record conf_env =
  pton :: "string \<Rightarrow> ip6_memaddr option"
  sockname :: "u16 option option"

definition null_addr :: ip6_memaddr where
  "null_addr = \<lparr>subid = 0, cmd = 0, args = 0, paddr = 0\<rparr>"

text \<open>The global \<^verbatim>\<open>bb_config\<close> before anything is read.\<close>

definition bb_config0 :: config where
  "bb_config0 = \<lparr>interface = replicate 20 nul, server_port = replicate 5 nul, src_port = 0,
     src_addr = null_addr, debug = 0, num_hosts = 0, hosts = replicate 40 null_addr\<rparr>"

text \<open>
  \<^verbatim>\<open>atoi(config->server_port)\<close>: the array is followed by a padding byte, which is zero in the
  global.
\<close>

definition server_port_str :: "config \<Rightarrow> string" where
  "server_port_str cfg = takeWhile (\<lambda>c. c \<noteq> nul) (server_port cfg)"

definition set_source_port :: "conf_env \<Rightarrow> config \<Rightarrow> bool \<Rightarrow> string \<Rightarrow> int \<times> config" where
  "set_source_port env cfg isServer srcp =
     (let port = (if isServer then atoi (server_port_str cfg)
                  else if atoi srcp \<noteq> 0 then atoi srcp else 0)
      in if port = 0
         then case sockname env of
                None \<Rightarrow> (1, cfg)
              | Some None \<Rightarrow> (1, cfg)
              | Some (Some p) \<Rightarrow> (0, cfg\<lparr>src_port := htons p\<rparr>)
         else (0, cfg\<lparr>src_port := htons (word_of_int port)\<rparr>))"

text \<open>The loop over the host list; the array has forty entries.\<close>

lemma strtok_progress:
  assumes "strtok buf p sep = Inr (Some (tok, p', buf'))"
  shows "p < p'" "length buf' = length buf" "p < length buf" "p' \<le> length buf"
proof -
  obtain s where s: "cstr buf p = Inr s" using assms by (auto simp: strtok_def)
  note in_buf = cstr_inside [OF s]
  define k where "k = strspn s sep"
  define t where "t = drop k s"
  define n where "n = strcspn t sep"
  have t: "t \<noteq> []" "p' = (if n = length t then p + k + n else p + k + n + 1)" "length buf' = length buf"
    using assms unfolding strtok_def s k_def t_def n_def by (auto simp: Let_def split: if_splits)
  have hd: "hd t \<notin> set sep"
    using t(1) unfolding t_def k_def strspn_def
    by (metis (no_types, lifting) dropWhile_eq_drop hd_dropWhile)
  have "0 < n" using hd t(1) unfolding n_def strcspn_def by (cases t) auto
  moreover have "n \<le> length t" unfolding n_def strcspn_def by (rule length_takeWhile_le)
  moreover have "k + length t = length s"
    using t(1) unfolding t_def by (auto simp: not_le dest: less_imp_le)
  ultimately show "p < p'" "length buf' = length buf" "p < length buf" "p' \<le> length buf"
    using t in_buf by (auto split: if_splits)
qed

lemma strtok_measure:
  "strtok buf p sep = Inr (Some (tok, p', buf')) \<Longrightarrow> length buf' - p' < length buf - p"
  using strtok_progress [of buf p sep tok p' buf'] by auto

function (sequential) host_loop ::
  "conf_env \<Rightarrow> string \<Rightarrow> nat \<Rightarrow> nat \<Rightarrow> ip6_memaddr list \<Rightarrow> (nat \<times> ip6_memaddr list \<times> string) res" where
  "host_loop env buf p j hs =
     (case strtok buf p '','' of
        Inl e \<Rightarrow> Inl e
      | Inr None \<Rightarrow> Inr (j, hs, buf)
      | Inr (Some (tok, p', buf')) \<Rightarrow>
          if length hs \<le> j then Inl Segv
          else host_loop env buf' p' (Suc j)
                 (case pton env tok of None \<Rightarrow> hs | Some a \<Rightarrow> hs[j := a]))"
  by pat_completeness auto
termination
  by (relation "measure (\<lambda>(env, buf, p, j, hs). length buf - p)")
    (auto dest: strtok_measure)

text \<open>One line, in the buffer \<open>buf\<close>; \<open>i\<close> is the line number.\<close>

definition config_line :: "conf_env \<Rightarrow> bool \<Rightarrow> nat \<Rightarrow> string \<Rightarrow> config \<Rightarrow> (string \<times> config) res" where
  "config_line env isServer i buf0 cfg =
     bindE (cstr buf0 0) (\<lambda>line.
     bindE (guardE Segv (strstr line ''='')) (\<lambda>k.
     bindE (cstr buf0 (k + 1)) (\<lambda>s0.
       let cf = k + 1; buf = buf0[cf + strcspn s0 [newline] := nul] in
       bindE (cstr buf cf) (\<lambda>cfline.
         if i = 0 then
           (if cf + 20 \<le> length buf then Inr (buf, cfg\<lparr>interface := slice buf cf 20\<rparr>) else Inl Segv)
         else if i = 1 then
           bindE (host_loop env buf cf 0 (hosts cfg)) (\<lambda>(j, hs, buf').
             Inr (buf', cfg\<lparr>hosts := hs, num_hosts := j\<rparr>))
         else if i = 2 then
           (if length cfline \<le> length (server_port cfg)
            then Inr (buf, cfg\<lparr>server_port := blit (server_port cfg) 0 cfline\<rparr>) else Inl Segv)
         else if i = 3 then Inr (buf, snd (set_source_port env cfg isServer cfline))
         else if i = 4 then
           Inr (buf, case pton env cfline of None \<Rightarrow> cfg | Some a \<Rightarrow> cfg\<lparr>src_addr := a\<rparr>)
         else if i = 5 then Inr (buf, cfg\<lparr>debug := atoi cfline\<rparr>)
         else Inr (buf, cfg)))))"

text \<open>
  The loop over the lines, one \<^verbatim>\<open>fgets\<close> per turn. A turn consumes at least one character, so the
  length of the text is enough fuel.
\<close>

fun config_lines :: "nat \<Rightarrow> conf_env \<Rightarrow> bool \<Rightarrow> nat \<Rightarrow> string \<Rightarrow> string \<Rightarrow> config \<Rightarrow> config res" where
  "config_lines 0 env isServer i buf txt cfg = (if txt = [] then Inr cfg else Inl Blocked)"
| "config_lines (Suc n) env isServer i buf txt cfg =
     (case fgets buf txt of
        None \<Rightarrow> Inr cfg
      | Some (buf', rest) \<Rightarrow>
          bindE (config_line env isServer i buf' cfg)
            (\<lambda>(buf'', cfg'). config_lines n env isServer (Suc i) buf'' rest cfg'))"

text \<open>
  \<open>txt\<close> is the file, \<open>None\<close> when it cannot be opened; \<open>line\<close> is the uninitialised line buffer of
  1024 characters.
\<close>

definition set_bb_config :: "conf_env \<Rightarrow> string \<Rightarrow> string option \<Rightarrow> bool \<Rightarrow> config \<Rightarrow> config res" where
  "set_bb_config env line txt isServer cfg =
     (case txt of
        None \<Rightarrow> Inl Exit
      | Some s \<Rightarrow> config_lines (length s) env isServer 0 line s cfg)"

section \<open>What the properties speak of\<close>

fun commas :: "string list \<Rightarrow> string" where
  "commas [] = []"
| "commas [h] = h"
| "commas (h # hs) = h @ CHR '','' # commas hs"

text \<open>Text with none of the characters that structure the file.\<close>

definition plain :: "string \<Rightarrow> string \<Rightarrow> bool" where
  "plain bad s \<longleftrightarrow> set s \<inter> set (nul # newline # bad) = {}"

definition conf_line :: "string \<Rightarrow> string \<Rightarrow> string" where
  "conf_line k v = k @ CHR ''='' # v @ [newline]"

definition line_fits :: "string \<Rightarrow> string \<Rightarrow> bool" where
  "line_fits k v \<longleftrightarrow> plain ''='' k \<and> plain [] v \<and> length k + length v + 22 \<le> 1024"

text \<open>The configured port of a process, in host byte order; 0 when it is left to the system.\<close>

definition conf_port :: "bool \<Rightarrow> string \<Rightarrow> string \<Rightarrow> int" where
  "conf_port isServer port srcp = (if isServer then atoi port else atoi srcp)"

section \<open>Lemmas\<close>

declare host_loop.simps [simp del]

lemma strtok_last:
  assumes "drop p buf = h @ nul # r" "h \<noteq> []" "set h \<inter> {nul, CHR '',''} = {}"
  shows "strtok buf p '','' = Inr (Some (h, p + length h, buf))"
proof -
  have "cstr buf p = Inr h" using assms by (intro cstr_at) auto
  moreover have "strspn h '','' = 0" using assms(2,3) by (cases h) (auto simp: strspn_def)
  moreover have "strcspn h '','' = length h" using assms(3) by (intro strcspn_all) auto
  ultimately show ?thesis using assms(2) by (simp add: strtok_def Let_def)
qed

lemma strtok_more:
  assumes "drop p buf = h @ CHR '','' # t @ nul # r" "h \<noteq> []" "set h \<inter> {nul, CHR '',''} = {}" "nul \<notin> set t"
  shows "strtok buf p '','' = Inr (Some (h, p + length h + 1, buf[p + length h := nul]))"
proof -
  have "cstr buf p = Inr (h @ CHR '','' # t)" using assms by (intro cstr_at [of _ _ _ r]) auto
  moreover have "strspn (h @ CHR '','' # t) '','' = 0" using assms(2,3) by (cases h) (auto simp: strspn_def)
  moreover have "strcspn (h @ CHR '','' # t) '','' = length h" using assms(3) by (intro strcspn_append) auto
  ultimately show ?thesis by (simp add: strtok_def Let_def)
qed

lemma strtok_end: "drop p buf = nul # r \<Longrightarrow> strtok buf p sep = Inr None"
  by (simp add: strtok_def cstr_def strspn_def)

lemma commas_plain: "(\<And>h. h \<in> set hs \<Longrightarrow> c \<notin> set h) \<Longrightarrow> c \<noteq> CHR '','' \<Longrightarrow> c \<notin> set (commas hs)"
  by (induction hs rule: commas.induct) auto

lemma host_loop_ok:
  assumes "drop p buf = commas ts @ nul # r" "j + length ts \<le> length H"
    and "\<And>h. h \<in> set ts \<Longrightarrow> h \<noteq> [] \<and> set h \<inter> {nul, CHR '',''} = {} \<and> pton env h \<noteq> None"
  shows "\<exists>buf'. host_loop env buf p j H =
    Inr (j + length ts, blit H j (map (\<lambda>h. the (pton env h)) ts), buf') \<and> length buf' = length buf"
  using assms
proof (induction ts arbitrary: buf p j H rule: commas.induct)
  case 1
  then show ?case by (simp add: strtok_end blit_def host_loop.simps [of env buf])
next
  case (2 h)
  then obtain a where a: "pton env h = Some a" by auto
  have "strtok buf p '','' = Inr (Some (h, p + length h, buf))"
    using 2 by (intro strtok_last [of _ _ _ r]) auto
  moreover have "strtok buf (p + length h) '','' = Inr None"
    using 2(1) by (intro strtok_end [of _ _ r]) (metis append_eq_conv_conj commas.simps(2) drop_drop add.commute)
  ultimately show ?case using 2(2) a
    by (simp add: blit_def upd_conv_take_nth_drop host_loop.simps [of env buf])
next
  case (3 h g hs)
  obtain a where a: "pton env h = Some a" using 3(4) [of h] by auto
  define buf1 where "buf1 = buf[p + length h := nul]"
  have tok: "strtok buf p '','' = Inr (Some (h, p + length h + 1, buf1))"
    unfolding buf1_def using 3(2,4) by (intro strtok_more [of _ _ _ "commas (g # hs)" r] commas_plain) auto
  have "drop (p + length h + 1) buf1 = drop (length h + 1) (drop p buf)"
    unfolding buf1_def by (simp add: add.commute add.left_commute)
  then have rest: "drop (p + length h + 1) buf1 = commas (g # hs) @ nul # r" using 3(2) by simp
  obtain buf' where buf': "host_loop env buf1 (p + length h + 1) (Suc j) (H[j := a]) =
      Inr (Suc j + length (g # hs), blit (H[j := a]) (Suc j) (map (\<lambda>h. the (pton env h)) (g # hs)), buf')"
      "length buf' = length buf1"
    using 3(1) [OF rest, of "Suc j" "H[j := a]"] 3(3,4) by auto
  have "blit (H[j := a]) (Suc j) (map (\<lambda>h. the (pton env h)) (g # hs)) =
      blit H j (map (\<lambda>h. the (pton env h)) (h # g # hs))"
    using 3(3) a
    by (simp add: blit_def upd_conv_take_nth_drop take_Suc_conv_app_nth add.commute [of _ "length hs"])
  then show ?case using tok buf' 3(3) a by (simp add: buf1_def host_loop.simps [of env buf])
qed

text \<open>The buffer after a line was read into it, and after its newline was overwritten.\<close>

definition line_buf :: "string \<Rightarrow> string \<Rightarrow> string \<Rightarrow> string" where
  "line_buf buf k v = blit buf 0 (k @ CHR ''='' # v @ [newline, nul])"

definition cut_buf :: "string \<Rightarrow> string \<Rightarrow> string \<Rightarrow> string" where
  "cut_buf buf k v = (line_buf buf k v)[length k + 1 + length v := nul]"

lemma line_buf_drops:
  assumes "length k + length v + 3 \<le> length buf"
  shows "line_buf buf k v = k @ CHR ''='' # v @ newline # nul # drop (length k + length v + 3) buf"
    and "cut_buf buf k v = k @ CHR ''='' # v @ nul # nul # drop (length k + length v + 3) buf"
proof -
  show *: "line_buf buf k v = k @ CHR ''='' # v @ newline # nul # drop (length k + length v + 3) buf"
    by (simp add: line_buf_def blit_def numeral_3_eq_3)
  have "length k + 1 + length v = length (k @ CHR ''='' # v)" by simp
  then show "cut_buf buf k v = k @ CHR ''='' # v @ nul # nul # drop (length k + length v + 3) buf"
    unfolding cut_buf_def * by (metis append.assoc append_Cons list_update_length)
qed

lemma config_line_ok:
  assumes fits: "line_fits k v" and len: "length buf = 1024"
  shows "config_line env isServer i (line_buf buf k v) cfg =
    (let cf = length k + 1; b = cut_buf buf k v in
         if i = 0 then Inr (b, cfg\<lparr>interface := slice b cf 20\<rparr>)
         else if i = 1 then
           bindE (host_loop env b cf 0 (hosts cfg)) (\<lambda>(j, hs, buf').
             Inr (buf', cfg\<lparr>hosts := hs, num_hosts := j\<rparr>))
         else if i = 2 then
           (if length v \<le> length (server_port cfg)
            then Inr (b, cfg\<lparr>server_port := blit (server_port cfg) 0 v\<rparr>) else Inl Segv)
         else if i = 3 then Inr (b, snd (set_source_port env cfg isServer v))
         else if i = 4 then
           Inr (b, case pton env v of None \<Rightarrow> cfg | Some a \<Rightarrow> cfg\<lparr>src_addr := a\<rparr>)
         else if i = 5 then Inr (b, cfg\<lparr>debug := atoi v\<rparr>)
         else Inr (b, cfg))"
proof -
  have sz: "length k + length v + 3 \<le> length buf" using fits len by (simp add: line_fits_def)
  note drops = line_buf_drops [OF sz]
  have pl: "CHR ''='' \<notin> set k" "nul \<notin> set k" "nul \<notin> set v" "newline \<notin> set v"
    using fits by (auto simp: line_fits_def plain_def)
  have 1: "cstr (line_buf buf k v) 0 = Inr (k @ CHR ''='' # v @ [newline])"
    unfolding drops(1) using pl by (intro cstr_at) auto
  have 2: "strstr (k @ CHR ''='' # v @ [newline]) ''='' = Some (length k)"
    using strstr_char [OF pl(1)] by simp
  have 3: "cstr (line_buf buf k v) (length k + 1) = Inr (v @ [newline])"
    unfolding drops(1) using pl by (intro cstr_at) auto
  have 4: "strcspn (v @ [newline]) [newline] = length v" using pl by (intro strcspn_append) auto
  have 5: "cstr (cut_buf buf k v) (length k + 1) = Inr v"
    unfolding drops(2) using pl by (intro cstr_at) auto
  have 6: "length k + 1 + 20 \<le> length (cut_buf buf k v)"
    unfolding drops(2) using fits len by (simp add: line_fits_def)
  show ?thesis
    unfolding config_line_def 1 bindE_simps 2 guardE_simps 3 4 Let_def cut_buf_def [symmetric] 5
    using 6 by simp
qed

lemma config_lines_step:
  assumes "line_fits k v" "length buf = 1024"
  shows "config_lines (Suc n) env isServer i buf (conf_line k v @ rest) cfg =
    bindE (config_line env isServer i (line_buf buf k v) cfg)
      (\<lambda>(buf', cfg'). config_lines n env isServer (Suc i) buf' rest cfg')"
proof -
  have "fgets buf ((k @ CHR ''='' # v) @ newline # rest) = Some (line_buf buf k v, rest)"
    using assms fgets_line [of "k @ CHR ''='' # v" buf rest]
    by (auto simp: line_fits_def plain_def line_buf_def)
  then show ?thesis by (simp add: conf_line_def)
qed

lemma length_cut_buf: "line_fits k v \<Longrightarrow> length buf = 1024 \<Longrightarrow> length (cut_buf buf k v) = 1024"
  by (subst line_buf_drops(2)) (simp_all add: line_fits_def)

lemma cut_buf_at: "line_fits k v \<Longrightarrow> length buf = 1024 \<Longrightarrow>
  \<exists>r. drop (length k + 1) (cut_buf buf k v) = v @ nul # r"
  by (subst line_buf_drops(2)) (auto simp: line_fits_def)

lemma config_lines_end: "config_lines n env isServer i buf [] cfg = Inr cfg"
  by (cases n) (simp_all add: fgets_def)

lemma interface_line:
  assumes "line_fits k v" "length buf = 1024" "length v < 20"
  shows "takeWhile (\<lambda>c. c \<noteq> nul) (slice (cut_buf buf k v) (length k + 1) 20) = v"
proof -
  obtain r where r: "drop (length k + 1) (cut_buf buf k v) = v @ nul # r"
    using cut_buf_at [OF assms(1,2)] by blast
  have v: "nul \<notin> set v" using assms(1) by (auto simp: line_fits_def plain_def)
  show ?thesis
    unfolding slice_def r using assms(3) v
    by (cases "20 - length v") (auto simp: takeWhile_append takeWhile_eq_all_conv)
qed

lemma server_port_line:
  assumes "nul \<notin> set v" "length v \<le> 5"
  shows "takeWhile (\<lambda>c. c \<noteq> nul) (blit (replicate 5 nul) 0 v) = v"
  using assms by (cases "5 - length v") (auto simp: blit_def takeWhile_append takeWhile_eq_all_conv)

lemma source_port_set:
  "snd (set_source_port env cfg isServer srcp) =
     (let p = conf_port isServer (server_port_str cfg) srcp in
      cfg\<lparr>src_port := (if p \<noteq> 0 then htons (word_of_int p)
        else case sockname env of Some (Some q) \<Rightarrow> htons q | _ \<Rightarrow> src_port cfg)\<rparr>)"
  by (auto simp: set_source_port_def conf_port_def Let_def split: option.splits)

lemma hosts_line:
  assumes "line_fits k (commas ts)" "length buf = 1024" "length ts \<le> length H"
    and "\<And>h. h \<in> set ts \<Longrightarrow> h \<noteq> [] \<and> plain '','' h \<and> pton env h \<noteq> None"
  obtains buf' where "host_loop env (cut_buf buf k (commas ts)) (length k + 1) 0 H =
      Inr (length ts, blit H 0 (map (\<lambda>h. the (pton env h)) ts), buf')" "length buf' = 1024"
proof -
  obtain r where "drop (length k + 1) (cut_buf buf k (commas ts)) = commas ts @ nul # r"
    using cut_buf_at [OF assms(1,2)] by blast
  moreover have "h \<noteq> [] \<and> set h \<inter> {nul, CHR '',''} = {} \<and> pton env h \<noteq> None" if "h \<in> set ts" for h
    using assms(4) [OF that] by (auto simp: plain_def)
  ultimately show ?thesis
    using host_loop_ok [of "length k + 1" "cut_buf buf k (commas ts)" ts r 0 H env] assms(3)
      length_cut_buf [OF assms(1,2)] that by auto
qed

lemma conf_line_length: "2 \<le> length (conf_line k v)"
  by (simp add: conf_line_def)

text \<open>What each line does to the configuration, and the loop line by line.\<close>

definition line_effect :: "conf_env \<Rightarrow> bool \<Rightarrow> nat \<Rightarrow> string \<Rightarrow> config \<Rightarrow> config" where
  "line_effect env isServer i v cfg =
     (if i = 2 then cfg\<lparr>server_port := blit (server_port cfg) 0 v\<rparr>
      else if i = 3 then snd (set_source_port env cfg isServer v)
      else if i = 4 then (case pton env v of None \<Rightarrow> cfg | Some a \<Rightarrow> cfg\<lparr>src_addr := a\<rparr>)
      else if i = 5 then cfg\<lparr>debug := atoi v\<rparr> else cfg)"

lemma first_line:
  assumes "line_fits k v" "length buf = 1024"
  shows "config_lines (Suc n) env isServer 0 buf (conf_line k v @ rest) cfg =
    config_lines n env isServer 1 (cut_buf buf k v) rest
      (cfg\<lparr>interface := slice (cut_buf buf k v) (length k + 1) 20\<rparr>)"
  unfolding config_lines_step [OF assms] config_line_ok [OF assms] by (simp add: Let_def)

lemma second_line:
  assumes "line_fits k (commas ts)" "length buf = 1024" "length ts \<le> length (hosts cfg)"
    and "\<And>h. h \<in> set ts \<Longrightarrow> h \<noteq> [] \<and> plain '','' h \<and> pton env h \<noteq> None"
  obtains buf' where "config_lines (Suc n) env isServer 1 buf (conf_line k (commas ts) @ rest) cfg =
    config_lines n env isServer 2 buf' rest
      (cfg\<lparr>hosts := blit (hosts cfg) 0 (map (\<lambda>h. the (pton env h)) ts), num_hosts := length ts\<rparr>)"
    "length buf' = 1024"
proof -
  obtain buf' where b: "host_loop env (cut_buf buf k (commas ts)) (length k + 1) 0 (hosts cfg) =
      Inr (length ts, blit (hosts cfg) 0 (map (\<lambda>h. the (pton env h)) ts), buf')" "length buf' = 1024"
    by (rule hosts_line [OF assms])
  show ?thesis
    by (rule that [OF _ b(2)])
      (simp add: config_lines_step [OF assms(1,2)] config_line_ok [OF assms(1,2)] Let_def b(1)
        numeral_2_eq_2 [symmetric] del: config_lines.simps One_nat_def)
qed

lemma later_line:
  assumes "line_fits k v" "length buf = 1024" "2 \<le> i" "i = 2 \<longrightarrow> length v \<le> length (server_port cfg)"
  shows "config_lines (Suc n) env isServer i buf (conf_line k v @ rest) cfg =
    config_lines n env isServer (Suc i) (cut_buf buf k v) rest (line_effect env isServer i v cfg)"
  unfolding config_lines_step [OF assms(1,2)] config_line_ok [OF assms(1,2)] line_effect_def
  using assms(3,4) by (auto simp: Let_def simp del: config_lines.simps split: option.splits)

lemma last_lines:
  assumes fits: "line_fits k2 port" "line_fits k3 srcp" "line_fits k4 srca" "line_fits k5 dbg"
    and b: "length b = 1024" and port: "length port \<le> length (server_port cfg)"
  shows "config_lines (Suc (Suc (Suc (Suc m)))) env isServer 2 b
      (conf_line k2 port @ conf_line k3 srcp @ conf_line k4 srca @ conf_line k5 dbg) cfg =
    Inr (line_effect env isServer 5 dbg (line_effect env isServer 4 srca
      (line_effect env isServer 3 srcp (line_effect env isServer 2 port cfg))))"
proof -
  note b2 = length_cut_buf [OF fits(1) b]
  note b3 = length_cut_buf [OF fits(2) b2]
  note b4 = length_cut_buf [OF fits(3) b3]
  have "config_lines (Suc m) env isServer 5 (cut_buf (cut_buf (cut_buf b k2 port) k3 srcp) k4 srca)
      (conf_line k5 dbg @ []) c = Inr (line_effect env isServer 5 dbg c)" for c
    by (subst later_line [OF fits(4) b4]) (simp_all add: config_lines_end)
  then show ?thesis
    using port by (simp add: later_line [OF fits(1) b] later_line [OF fits(2) b2] later_line [OF fits(3) b3]
        del: config_lines.simps)
qed

section \<open>Properties\<close>

text \<open>
  C28: reading a configuration file of the documented form succeeds, and the configuration holds
  what the lines say: the interface name, the addresses of the hosts in order and their number,
  the port of the servers, the port of this process (the server port on a server, the source port
  on a client, the port the system assigns when that is 0), the source address and the debug flag.
\<close>

theorem config_parsed:
  assumes fits: "line_fits k0 ifc" "line_fits k1 (commas ts)" "line_fits k2 port" "line_fits k3 srcp"
      "line_fits k4 srca" "line_fits k5 dbg"
    and lens: "length line = 1024" "length ifc < 20" "length ts \<le> 40" "length port \<le> 5"
    and ts: "\<And>h. h \<in> set ts \<Longrightarrow> h \<noteq> [] \<and> plain '','' h \<and> pton env h \<noteq> None"
    and a: "pton env srca = Some a"
  shows "\<exists>cfg. set_bb_config env line
      (Some (conf_line k0 ifc @ conf_line k1 (commas ts) @ conf_line k2 port @ conf_line k3 srcp @
        conf_line k4 srca @ conf_line k5 dbg)) isServer bb_config0 = Inr cfg \<and>
    takeWhile (\<lambda>c. c \<noteq> nul) (interface cfg) = ifc \<and>
    num_hosts cfg = length ts \<and> take (num_hosts cfg) (hosts cfg) = map (\<lambda>h. the (pton env h)) ts \<and>
    server_port_str cfg = port \<and> src_addr cfg = a \<and> debug cfg = atoi dbg \<and>
    src_port cfg =
      (let p = conf_port isServer port srcp in
       if p \<noteq> 0 then htons (word_of_int p)
       else case sockname env of Some (Some q) \<Rightarrow> htons q | _ \<Rightarrow> 0)"
proof -
  let ?file = "conf_line k0 ifc @ conf_line k1 (commas ts) @ conf_line k2 port @ conf_line k3 srcp @
    conf_line k4 srca @ conf_line k5 dbg"
  obtain m where m: "length ?file = Suc (Suc (Suc (Suc (Suc (Suc m)))))"
  proof
    show "length ?file = Suc (Suc (Suc (Suc (Suc (Suc (length ?file - 6))))))"
      using conf_line_length [of k0 ifc] conf_line_length [of k1 "commas ts"] conf_line_length [of k2 port]
      by simp
  qed
  define b0 where "b0 = cut_buf line k0 ifc"
  have b0: "length b0 = 1024" unfolding b0_def using fits(1) lens(1) by (rule length_cut_buf)
  define c1 where "c1 = bb_config0\<lparr>interface := slice b0 (length k0 + 1) 20\<rparr>"
  define c2 where "c2 = c1\<lparr>hosts := blit (hosts c1) 0 (map (\<lambda>h. the (pton env h)) ts),
    num_hosts := length ts\<rparr>"
  define eff where "eff = line_effect env isServer"
  define c6 where "c6 = eff 5 dbg (eff 4 srca (eff 3 srcp (eff 2 port c2)))"
  have port5: "length port \<le> length (server_port c2)"
    using lens by (simp add: c2_def c1_def bb_config0_def)
  obtain b1 where b1: "length b1 = 1024"
    and e1: "config_lines (Suc (Suc (Suc (Suc (Suc m))))) env isServer 1 b0
        (conf_line k1 (commas ts) @ conf_line k2 port @ conf_line k3 srcp @
          conf_line k4 srca @ conf_line k5 dbg) c1 =
      config_lines (Suc (Suc (Suc (Suc m)))) env isServer 2 b1
        (conf_line k2 port @ conf_line k3 srcp @ conf_line k4 srca @ conf_line k5 dbg) c2"
    using second_line [OF fits(2) b0, of c1 env "Suc (Suc (Suc (Suc m)))" isServer
          "conf_line k2 port @ conf_line k3 srcp @ conf_line k4 srca @ conf_line k5 dbg"] ts lens
    by (auto simp: c2_def c1_def bb_config0_def)
  have run: "set_bb_config env line (Some ?file) isServer bb_config0 = Inr c6"
    unfolding set_bb_config_def option.case m first_line [OF fits(1) lens(1)] b0_def [symmetric]
      c1_def [symmetric] e1 last_lines [OF fits(3-6) b1 port5] c6_def eff_def ..
  have nul: "nul \<notin> set port" using fits(3) by (auto simp: line_fits_def plain_def)
  have sp: "server_port_str (eff 2 port c2) = port"
    using server_port_line [OF nul lens(4)]
    by (simp add: eff_def line_effect_def server_port_str_def c2_def c1_def bb_config0_def)
  have "c6 = (eff 2 port c2)\<lparr>src_port := (let p = conf_port isServer port srcp in
       if p \<noteq> 0 then htons (word_of_int p)
       else case sockname env of Some (Some q) \<Rightarrow> htons q | _ \<Rightarrow> 0), src_addr := a, debug := atoi dbg\<rparr>"
    using a sp unfolding c6_def eff_def
    by (simp add: line_effect_def source_port_set Let_def c2_def c1_def bb_config0_def
        cong: option.case_cong)
  with run show ?thesis
    using interface_line [OF fits(1) lens(1,2)] sp lens(3)
    by (simp add: eff_def line_effect_def server_port_str_def c2_def c1_def bb_config0_def b0_def blit_def)
qed

definition client_pton :: "string \<Rightarrow> ip6_memaddr option" where
  "client_pton s =
     (if s = ''101::'' then Some (null_addr\<lparr>subid := 0x0101\<rparr>)
      else if s = ''102::'' then Some (null_addr\<lparr>subid := 0x0201\<rparr>)
      else if s = ''103::'' then Some (null_addr\<lparr>subid := 0x0301\<rparr>) else None)"

definition client_env :: conf_env where
  "client_env = \<lparr>pton = client_pton, sockname = Some (Some 0)\<rparr>"

text \<open>The file \<^verbatim>\<open>ip6/distmem_client.cnf\<close> of the repository.\<close>

definition client_cnf :: string where
  "client_cnf = conf_line ''INTERFACE'' ''enp66s0f0'' @ conf_line ''HOSTS'' ''102::,103::'' @
     conf_line ''SERVERPORT'' ''5000'' @ conf_line ''SRCPORT'' ''0'' @
     conf_line ''SRCADDR'' ''101::'' @ conf_line ''DEBUG'' ''0''"

lemma conf_numbers: "atoi ''0'' = 0" "atoi ''5000'' = 5000"
  by (simp_all add: atoi_def strtol_def isspace_def split_sign_def digit_val_def)

theorem config_parsed_witness:
  "\<exists>cfg. set_bb_config client_env (replicate 1024 nul) (Some client_cnf) False bb_config0 = Inr cfg \<and>
    takeWhile (\<lambda>c. c \<noteq> nul) (interface cfg) = ''enp66s0f0'' \<and> num_hosts cfg = 2 \<and>
    map subid (take 2 (hosts cfg)) = [0x0201, 0x0301] \<and> server_port_str cfg = ''5000'' \<and>
    subid (src_addr cfg) = 0x0101 \<and> debug cfg = 0"
proof -
  have fits: "line_fits ''INTERFACE'' ''enp66s0f0''" "line_fits ''HOSTS'' (commas [''102::'', ''103::''])"
    "line_fits ''SERVERPORT'' ''5000''" "line_fits ''SRCPORT'' ''0''" "line_fits ''SRCADDR'' ''101::''"
    "line_fits ''DEBUG'' ''0''"
    by (simp_all add: line_fits_def plain_def)
  have ts: "h \<noteq> [] \<and> plain '','' h \<and> pton client_env h \<noteq> None" if "h \<in> set [''102::'', ''103::'']" for h
    using that by (auto simp: plain_def client_env_def client_pton_def)
  have a: "pton client_env ''101::'' = Some (null_addr\<lparr>subid := 0x0101\<rparr>)"
    by (simp add: client_env_def client_pton_def)
  have "length ''enp66s0f0'' < 20" "length [''102::'', ''103::''] \<le> 40" "length ''5000'' \<le> 5"
    by simp_all
  from config_parsed [OF fits length_replicate this ts a, of nul False]
  show ?thesis by (auto simp: client_cnf_def client_env_def client_pton_def conf_numbers numeral_2_eq_2)
qed

text \<open>
  a line without an equals sign, such as an empty line, crashes the program: the code adds 1
  to the NULL that \<^verbatim>\<open>strstr\<close> returns and uses the result as a string.
\<close>

theorem config_line_needs_equals:
  assumes "length buf = 1024" "plain ''='' s" "length s \<le> 1022"
  shows "config_lines (Suc n) env isServer i buf (s @ newline # rest) cfg = Inl Segv"
proof -
  have "fgets buf (s @ newline # rest) = Some (blit buf 0 (s @ [newline, nul]), rest)"
    using assms by (intro fgets_line) (auto simp: plain_def)
  moreover have "cstr (blit buf 0 (s @ [newline, nul])) 0 = Inr (s @ [newline])"
    using assms by (intro cstr_at [of _ _ _ "drop (length s + 2) buf"]) (auto simp: blit_def plain_def)
  moreover have "strstr (s @ [newline]) ''='' = None"
    using assms(2) by (auto simp: strstr_char_None plain_def)
  ultimately show ?thesis by (simp add: config_line_def)
qed

theorem config_line_needs_equals_witness:
  "config_lines 1 client_env False 6 (replicate 1024 nul) [newline] bb_config0 = Inl Segv"
  using config_line_needs_equals [of "replicate 1024 nul" "[]" 0 client_env False 6 "[]" bb_config0]
  by (simp add: plain_def)

end
