(* ===== verification/BB_Bitmap.thy ===== *)
theory BB_Bitmap
  imports BB_Prelude
begin

text \<open>
  The bitmap of \<^verbatim>\<open>legacy/OldPageTable/experiment/swap.c\<close> that manages slots of a swap area: an
  array of 32 bit words with one bit per slot, the bits past the last slot marked for good.
\<close>

section \<open>Operations\<close>

record bitmap =
  nbits :: u32
  bm_v :: "u32 list"

definition BITS_PER_WORD :: u32 where "BITS_PER_WORD = 32"

definition WORD_ALLBITS :: u32 where "WORD_ALLBITS = 0xffffffff"

definition DIVROUNDUP :: "u32 \<Rightarrow> u32 \<Rightarrow> u32" where
  "DIVROUNDUP a b = (a + b - 1) div b"

text \<open>The loop that marks the bits of the last word from \<open>j\<close> on.\<close>

function mark_over :: "nat \<Rightarrow> u32 \<Rightarrow> u32" where
  "mark_over j w = (if j < 32 then mark_over (Suc j) (w OR push_bit j 1) else w)"
  by pat_completeness auto
termination by (relation "measure (\<lambda>(j, w). 32 - j)") auto

text \<open>
  \<open>got_b\<close> and \<open>got_v\<close> tell whether the two calls of \<^verbatim>\<open>malloc\<close> succeed; \<open>None\<close> is the \<^verbatim>\<open>NULL\<close> the
  function returns when one does not.
\<close>

definition bitmap_create :: "bool \<Rightarrow> bool \<Rightarrow> u32 \<Rightarrow> bitmap option res" where
  "bitmap_create got_b got_v n =
     (let words = DIVROUNDUP n BITS_PER_WORD; v = replicate (unat words) 0 in
      if \<not> got_b then Inr None
      else if \<not> got_v then Inr None
      else if n div BITS_PER_WORD < words then
        let ix = words - 1; overbits = n - ix * BITS_PER_WORD in
        if n div BITS_PER_WORD \<noteq> words - 1 then Inl Assertion
        else if \<not> (0 < overbits \<and> overbits < BITS_PER_WORD) then Inl Assertion
        else Inr (Some \<lparr>nbits = n, bm_v = v[unat ix := mark_over (unat overbits) (v ! unat ix)]\<rparr>)
      else Inr (Some \<lparr>nbits = n, bm_v = v\<rparr>))"

text \<open>The two loops of \<^verbatim>\<open>bitmap_alloc\<close>: the first clear bit of a word, the first word with one.\<close>

function clear_bit :: "nat \<Rightarrow> u32 \<Rightarrow> nat option" where
  "clear_bit offset w =
     (if offset < 32 then if w AND push_bit offset 1 = 0 then Some offset else clear_bit (Suc offset) w
      else None)"
  by pat_completeness auto
termination by (relation "measure (\<lambda>(j, w). 32 - j)") auto

definition word_at :: "bitmap \<Rightarrow> nat \<Rightarrow> u32 res" where
  "word_at b ix = (if ix < length (bm_v b) then Inr (bm_v b ! ix) else Inl Segv)"

function alloc_word :: "nat \<Rightarrow> nat \<Rightarrow> bitmap \<Rightarrow> (u32 \<times> bitmap) option res" where
  "alloc_word ix maxix b =
     (if ix < maxix then
        bindE (word_at b ix) (\<lambda>w.
          if w \<noteq> WORD_ALLBITS then
            bindE (guardE Assertion (clear_bit 0 w)) (\<lambda>offset.
              let index = of_nat ix * BITS_PER_WORD + of_nat offset in
              if index < nbits b
              then Inr (Some (index, b\<lparr>bm_v := (bm_v b)[ix := w OR push_bit offset 1]\<rparr>))
              else Inl Assertion)
          else alloc_word (Suc ix) maxix b)
      else Inr None)"
  by pat_completeness auto
termination by (relation "measure (\<lambda>(ix, maxix, b). maxix - ix)") auto

text \<open>\<open>None\<close> stands for the return value 1, a full bitmap.\<close>

definition bitmap_alloc :: "bitmap \<Rightarrow> (u32 \<times> bitmap) option res" where
  "bitmap_alloc b = alloc_word 0 (unat (DIVROUNDUP (nbits b) BITS_PER_WORD)) b"

definition bitmap_translate :: "u32 \<Rightarrow> nat \<times> u32" where
  "bitmap_translate bitno = (unat (bitno div BITS_PER_WORD), push_bit (unat (bitno mod BITS_PER_WORD)) 1)"

definition bitmap_mark :: "bitmap \<Rightarrow> u32 \<Rightarrow> bitmap res" where
  "bitmap_mark b index =
     (if nbits b \<le> index then Inl Assertion
      else let (ix, mask) = bitmap_translate index in
        bindE (word_at b ix) (\<lambda>w.
          if w AND mask \<noteq> 0 then Inl Assertion
          else Inr (b\<lparr>bm_v := (bm_v b)[ix := w OR mask]\<rparr>)))"

definition bitmap_unmark :: "bitmap \<Rightarrow> u32 \<Rightarrow> bitmap res" where
  "bitmap_unmark b index =
     (if nbits b \<le> index then Inl Assertion
      else let (ix, mask) = bitmap_translate index in
        bindE (word_at b ix) (\<lambda>w.
          if w AND mask = 0 then Inl Assertion
          else Inr (b\<lparr>bm_v := (bm_v b)[ix := w AND NOT mask]\<rparr>)))"

definition bitmap_isset :: "bitmap \<Rightarrow> u32 \<Rightarrow> bool res" where
  "bitmap_isset b index =
     (let (ix, mask) = bitmap_translate index in
      bindE (word_at b ix) (\<lambda>w. Inr (w AND mask \<noteq> 0)))"

section \<open>Specification: a set of slots\<close>

datatype bm_op = Alloc | Mark u32 | Unmark u32 | Isset u32

datatype bm_ret = Index u32 | Full | Done | Bit bool

fun run_bitmap :: "bm_op list \<Rightarrow> bitmap \<Rightarrow> (bm_ret list \<times> bitmap) res" where
  "run_bitmap [] b = Inr ([], b)"
| "run_bitmap (x # xs) b =
     bindE (case x of
         Alloc \<Rightarrow> bindE (bitmap_alloc b)
           (\<lambda>r. Inr (case r of None \<Rightarrow> (Full, b) | Some (i, b') \<Rightarrow> (Index i, b')))
       | Mark i \<Rightarrow> bindE (bitmap_mark b i) (\<lambda>b'. Inr (Done, b'))
       | Unmark i \<Rightarrow> bindE (bitmap_unmark b i) (\<lambda>b'. Inr (Done, b'))
       | Isset i \<Rightarrow> bindE (bitmap_isset b i) (\<lambda>r. Inr (Bit r, b)))
     (\<lambda>(r, b'). bindE (run_bitmap xs b') (\<lambda>(rs, b''). Inr (r # rs, b'')))"

text \<open>The first slot not in \<open>S\<close>, from \<open>k\<close> slots on.\<close>

definition first_free :: "nat \<Rightarrow> nat set \<Rightarrow> nat option" where
  "first_free n S = find (\<lambda>i. i \<notin> S) [0..<n]"

fun run_set :: "nat \<Rightarrow> bm_op list \<Rightarrow> nat set \<Rightarrow> (bm_ret list \<times> nat set) res" where
  "run_set n [] S = Inr ([], S)"
| "run_set n (x # xs) S =
     bindE (case x of
         Alloc \<Rightarrow> Inr (case first_free n S of None \<Rightarrow> (Full, S) | Some i \<Rightarrow> (Index (of_nat i), insert i S))
       | Mark i \<Rightarrow> if unat i < n \<and> unat i \<notin> S then Inr (Done, insert (unat i) S) else Inl Assertion
       | Unmark i \<Rightarrow> if unat i < n \<and> unat i \<in> S then Inr (Done, S - {unat i}) else Inl Assertion
       | Isset i \<Rightarrow> if unat i < n then Inr (Bit (unat i \<in> S), S)
           else if unat i div 32 < (n + 31) div 32 then Inr (Bit True, S) else Inl Segv)
     (\<lambda>(r, S'). bindE (run_set n xs S') (\<lambda>(rs, S''). Inr (r # rs, S'')))"

text \<open>The bitmap represents the set: the padding bits are marked.\<close>

definition bm_abs :: "bitmap \<Rightarrow> nat set \<Rightarrow> bool" where
  "bm_abs b S \<longleftrightarrow>
     unat (nbits b) + 31 < 2 ^ 32 \<and> length (bm_v b) = (unat (nbits b) + 31) div 32 \<and> S \<subseteq> {..<unat (nbits b)} \<and>
     (\<forall>i < 32 * length (bm_v b). bit (bm_v b ! (i div 32)) (i mod 32) \<longleftrightarrow> i \<in> S \<or> unat (nbits b) \<le> i)"

section \<open>Lemmas\<close>

declare mark_over.simps [simp del] clear_bit.simps [simp del] alloc_word.simps [simp del]

lemma and_mask_eq_0: "(w :: u32) AND 2 ^ k = 0 \<longleftrightarrow> \<not> bit w k"
  by (simp add: and_exp_eq_0_iff_not_bit)

lemma bit_or_mask: "j < 32 \<Longrightarrow> bit ((w :: u32) OR 2 ^ k) j \<longleftrightarrow> bit w j \<or> j = k"
  by (auto simp: bit_simps)

lemma bit_and_not_mask: "j < 32 \<Longrightarrow> bit ((w :: u32) AND NOT (2 ^ k)) j \<longleftrightarrow> bit w j \<and> j \<noteq> k"
  by (auto simp: bit_simps)

lemma bit_mark_over: "j \<le> 32 \<Longrightarrow> i < 32 \<Longrightarrow> bit (mark_over j w) i \<longleftrightarrow> bit w i \<or> j \<le> i"
proof (induction j w rule: mark_over.induct)
  case (1 j w)
  then show ?case by (subst mark_over.simps) (auto simp: bit_or_mask)
qed

lemma clear_bit_find: "clear_bit k w = find (\<lambda>i. \<not> bit w i) [k..<32]"
proof (induction k w rule: clear_bit.induct)
  case (1 k w)
  then show ?case by (subst clear_bit.simps) (simp add: and_mask_eq_0 upt_conv_Cons)
qed

lemma find_upt_Some:
  "find P [k..<n] = Some i \<longleftrightarrow> k \<le> i \<and> i < n \<and> P i \<and> (\<forall>j. k \<le> j \<and> j < i \<longrightarrow> \<not> P j)"
proof (induction "n - k" arbitrary: k)
  case (Suc x)
  then have k: "k < n" by simp
  show ?case
  proof (cases "P k")
    case True
    then show ?thesis using k by (force simp: upt_conv_Cons)
  next
    case False
    have "find P [Suc k..<n] = Some i \<longleftrightarrow>
        Suc k \<le> i \<and> i < n \<and> P i \<and> (\<forall>j. Suc k \<le> j \<and> j < i \<longrightarrow> \<not> P j)"
      using Suc by simp
    then show ?thesis using k False by (auto simp: upt_conv_Cons) (metis le_antisym not_less_eq_eq)+
  qed
qed auto

lemma find_upt_None: "find P [k..<n] = None \<longleftrightarrow> (\<forall>i. k \<le> i \<and> i < n \<longrightarrow> \<not> P i)"
  by (auto simp: find_None_iff)

lemma first_free_Some: "first_free n S = Some i \<longleftrightarrow> i < n \<and> i \<notin> S \<and> (\<forall>j<i. j \<in> S)"
  by (auto simp: first_free_def find_upt_Some)

lemma first_free_None: "first_free n S = None \<longleftrightarrow> {..<n} \<subseteq> S"
  by (auto simp: first_free_def find_upt_None)

lemma not_all_bits: "w \<noteq> WORD_ALLBITS \<longleftrightarrow> (\<exists>i<32. \<not> bit w i)"
proof -
  have all: "WORD_ALLBITS = - 1" by (simp add: WORD_ALLBITS_def)
  show ?thesis unfolding all by (auto simp: bit_eq_iff)
qed

lemma unat_DIVROUNDUP: "unat n + 31 < 2 ^ 32 \<Longrightarrow> unat (DIVROUNDUP n BITS_PER_WORD) = (unat n + 31) div 32"
proof -
  assume *: "unat n + 31 < 2 ^ 32"
  have "unat (n + 31) = unat n + 31" using * by (subst unat_add_lem [THEN iffD1]) auto
  moreover have "DIVROUNDUP n BITS_PER_WORD = (n + 31) div 32"
    by (simp add: DIVROUNDUP_def BITS_PER_WORD_def add.commute)
  ultimately show ?thesis by (simp add: unat_div)
qed

lemma translate_eq:
  "bitmap_translate i = (unat i div 32, push_bit (unat i mod 32) 1)"
  by (simp add: bitmap_translate_def BITS_PER_WORD_def unat_div unat_mod)

text \<open>Setting or clearing the bit of a slot.\<close>

lemma slot_word:
  assumes "bm_abs b S" "i < unat (nbits b)"
  shows "i div 32 < length (bm_v b)" "bit (bm_v b ! (i div 32)) (i mod 32) \<longleftrightarrow> i \<in> S"
  using assms by (auto simp: bm_abs_def)

lemma bm_abs_update:
  assumes abs: "bm_abs b S" and i: "i < unat (nbits b)" and S': "S' \<subseteq> {..<unat (nbits b)}"
    and other: "\<And>k. k \<noteq> i \<Longrightarrow> k \<in> S' \<longleftrightarrow> k \<in> S"
    and w: "\<And>j. j < 32 \<Longrightarrow> bit w j \<longleftrightarrow> (if j = i mod 32 then i \<in> S' else bit (bm_v b ! (i div 32)) j)"
  shows "bm_abs (b\<lparr>bm_v := (bm_v b)[i div 32 := w]\<rparr>) S'"
proof -
  have "bit ((bm_v b)[i div 32 := w] ! (k div 32)) (k mod 32) \<longleftrightarrow> k \<in> S' \<or> unat (nbits b) \<le> k"
    if k: "k < 32 * length (bm_v b)" for k
  proof (cases "k div 32 = i div 32")
    case True
    have "k = i \<longleftrightarrow> k mod 32 = i mod 32" using True by (metis div_mult_mod_eq)
    then show ?thesis
      using True k w [of "k mod 32"] abs i other [of k] slot_word(1) [OF abs i] by (auto simp: bm_abs_def)
  next
    case False
    then show ?thesis using k abs other [of k] by (auto simp: bm_abs_def)
  qed
  then show ?thesis using abs S' by (simp add: bm_abs_def)
qed

lemma bm_abs_set:
  assumes "bm_abs b S" "i < unat (nbits b)"
  shows "bm_abs (b\<lparr>bm_v := (bm_v b)[i div 32 := bm_v b ! (i div 32) OR push_bit (i mod 32) 1]\<rparr>) (insert i S)"
  using assms by (intro bm_abs_update [OF assms]) (auto simp: bit_or_mask bm_abs_def)

lemma bm_abs_clear:
  assumes "bm_abs b S" "i < unat (nbits b)"
  shows "bm_abs (b\<lparr>bm_v := (bm_v b)[i div 32 := bm_v b ! (i div 32) AND NOT (push_bit (i mod 32) 1)]\<rparr>) (S - {i})"
  using assms by (intro bm_abs_update [OF assms]) (auto simp: bit_and_not_mask bm_abs_def)

lemma alloc_word_ok:
  assumes abs: "bm_abs b S" and "ix \<le> length (bm_v b)" "\<And>i. i < 32 * ix \<Longrightarrow> i \<in> S \<or> unat (nbits b) \<le> i"
  shows "case first_free (unat (nbits b)) S of
      None \<Rightarrow> alloc_word ix (length (bm_v b)) b = Inr None
    | Some i \<Rightarrow> \<exists>b'. alloc_word ix (length (bm_v b)) b = Inr (Some (of_nat i, b')) \<and>
        bm_abs b' (insert i S) \<and> nbits b' = nbits b"
  using assms(2,3)
proof (induction "length (bm_v b) - ix" arbitrary: ix)
  case 0
  have "i \<in> S" if "i < unat (nbits b)" for i
    using 0(3) [of i] slot_word(1) [OF abs that] that 0(1) by linarith
  then have "{..<unat (nbits b)} \<subseteq> S" by auto
  then have "first_free (unat (nbits b)) S = None" by (simp add: first_free_None)
  with 0 show ?case by (simp add: alloc_word.simps)
next
  case (Suc x)
  define w where "w = bm_v b ! ix"
  have ix: "ix < length (bm_v b)" using Suc(2) by simp
  have bits: "bit w j \<longleftrightarrow> 32 * ix + j \<in> S \<or> unat (nbits b) \<le> 32 * ix + j" if "j < 32" for j
  proof -
    have "32 * ix + j < 32 * length (bm_v b)" using ix that by linarith
    moreover have "(32 * ix + j) div 32 = ix" "(32 * ix + j) mod 32 = j" using that by auto
    ultimately show ?thesis using abs unfolding bm_abs_def w_def by metis
  qed
  show ?case
  proof (cases "w = WORD_ALLBITS")
    case True
    then have "\<forall>j<32. bit w j" using not_all_bits by blast
    then have "i \<in> S \<or> unat (nbits b) \<le> i" if "i < 32 * Suc ix" for i
      using that Suc(4) [of i] bits [of "i - 32 * ix"] by (cases "i < 32 * ix") auto
    moreover have "x = length (bm_v b) - Suc ix" using Suc(2) by simp
    ultimately have IH: "case first_free (unat (nbits b)) S of
        None \<Rightarrow> alloc_word (Suc ix) (length (bm_v b)) b = Inr None
      | Some i \<Rightarrow> \<exists>b'. alloc_word (Suc ix) (length (bm_v b)) b = Inr (Some (of_nat i, b')) \<and>
          bm_abs b' (insert i S) \<and> nbits b' = nbits b"
      using ix by (intro Suc(1)) auto
    have "alloc_word ix (length (bm_v b)) b = alloc_word (Suc ix) (length (bm_v b)) b"
      using ix True by (subst alloc_word.simps) (simp add: word_at_def w_def)
    then show ?thesis using IH by (simp only:)
  next
    case False
    then obtain q where q: "clear_bit 0 w = Some q"
      using not_all_bits [of w] find_upt_None [of "\<lambda>i. \<not> bit w i" 0 32] by (auto simp: clear_bit_find)
    then have q': "q < 32" "\<not> bit w q" "\<And>j. j < q \<Longrightarrow> bit w j"
      by (auto simp: clear_bit_find find_upt_Some)
    define i where "i = 32 * ix + q"
    have i: "i \<notin> S" "i < unat (nbits b)" "i div 32 = ix" "i mod 32 = q"
      using bits [OF q'(1)] q' by (auto simp: i_def)
    have "j \<in> S" if "j < i" for j
      using that Suc(4) [of j] i(2) bits [of "j - 32 * ix"] q'(1,3) by (cases "j < 32 * ix") (auto simp: i_def)
    then have ff: "first_free (unat (nbits b)) S = Some i" using i by (simp add: first_free_Some)
    have idx: "of_nat ix * BITS_PER_WORD + of_nat q = (of_nat i :: u32)"
      by (simp add: i_def BITS_PER_WORD_def mult.commute)
    moreover have "(of_nat i :: u32) < nbits b"
      using i(2) unsigned_less [of "nbits b"] by (simp add: word_less_nat_alt unat_of_nat)
    ultimately show ?thesis
      using ff ix False q i bm_abs_set [OF abs i(2)]
      by (subst alloc_word.simps) (simp add: word_at_def Let_def flip: w_def)
  qed
qed

lemma bm_abs_words: "bm_abs b S \<Longrightarrow> unat (DIVROUNDUP (nbits b) BITS_PER_WORD) = length (bm_v b)"
  by (simp add: bm_abs_def unat_DIVROUNDUP)

lemma bitmap_alloc_ok:
  assumes "bm_abs b S"
  shows "case first_free (unat (nbits b)) S of
      None \<Rightarrow> bitmap_alloc b = Inr None
    | Some i \<Rightarrow> \<exists>b'. bitmap_alloc b = Inr (Some (of_nat i, b')) \<and>
        bm_abs b' (insert i S) \<and> nbits b' = nbits b"
  unfolding bitmap_alloc_def bm_abs_words [OF assms] by (rule alloc_word_ok [OF assms]) auto

lemma word_at_slot: "bm_abs b S \<Longrightarrow> i < nbits b \<Longrightarrow> word_at b (unat i div 32) = Inr (bm_v b ! (unat i div 32))"
  using slot_word(1) [of b S "unat i"] by (simp add: word_at_def word_less_nat_alt)

lemma bitmap_mark_ok:
  assumes abs: "bm_abs b S"
  shows "if unat i < unat (nbits b) \<and> unat i \<notin> S
    then \<exists>b'. bitmap_mark b i = Inr b' \<and> bm_abs b' (insert (unat i) S) \<and> nbits b' = nbits b
    else bitmap_mark b i = Inl Assertion"
proof (cases "i < nbits b")
  case True
  then show ?thesis
    using word_at_slot [OF abs True] slot_word(2) [OF abs, of "unat i"] bm_abs_set [OF abs, of "unat i"]
    by (auto simp: bitmap_mark_def translate_eq and_mask_eq_0 word_less_nat_alt word_le_nat_alt)
qed (auto simp: bitmap_mark_def word_less_nat_alt word_le_nat_alt)

lemma bitmap_unmark_ok:
  assumes abs: "bm_abs b S"
  shows "if unat i < unat (nbits b) \<and> unat i \<in> S
    then \<exists>b'. bitmap_unmark b i = Inr b' \<and> bm_abs b' (S - {unat i}) \<and> nbits b' = nbits b
    else bitmap_unmark b i = Inl Assertion"
proof (cases "i < nbits b")
  case True
  then show ?thesis
    using word_at_slot [OF abs True] slot_word(2) [OF abs, of "unat i"] bm_abs_clear [OF abs, of "unat i"]
    by (auto simp: bitmap_unmark_def translate_eq and_mask_eq_0 word_less_nat_alt word_le_nat_alt)
qed (auto simp: bitmap_unmark_def word_less_nat_alt word_le_nat_alt)

lemma bitmap_isset_ok:
  assumes abs: "bm_abs b S"
  shows "bitmap_isset b i =
    (if unat i < unat (nbits b) then Inr (unat i \<in> S)
     else if unat i div 32 < (unat (nbits b) + 31) div 32 then Inr True else Inl Segv)"
proof (cases "unat i div 32 < length (bm_v b)")
  case True
  then have "unat i < 32 * length (bm_v b)" by (simp add: div_less_iff_less_mult mult.commute)
  then have "bit (bm_v b ! (unat i div 32)) (unat i mod 32) \<longleftrightarrow> unat i \<in> S \<or> unat (nbits b) \<le> unat i"
    using abs by (simp add: bm_abs_def)
  then show ?thesis
    using True abs by (auto simp: bitmap_isset_def translate_eq word_at_def and_mask_eq_0 bm_abs_def)
next
  case False
  then have "\<not> unat i < unat (nbits b)" using slot_word(1) [OF abs] by blast
  then show ?thesis
    using False abs by (auto simp: bitmap_isset_def translate_eq word_at_def bm_abs_def)
qed

lemma bitmap_create_ok:
  assumes n: "unat n + 31 < 2 ^ 32"
  obtains b where "bitmap_create True True n = Inr (Some b)" "bm_abs b {}" "nbits b = n"
proof (cases "unat n mod 32 = 0")
  case True
  define b where "b = \<lparr>nbits = n, bm_v = replicate (unat n div 32) (0 :: u32)\<rparr>"
  have words: "unat (DIVROUNDUP n BITS_PER_WORD) = unat n div 32"
    using True unat_DIVROUNDUP [OF n] by (simp add: div_add1_eq)
  then have "\<not> n div BITS_PER_WORD < DIVROUNDUP n BITS_PER_WORD"
    by (simp add: word_less_nat_alt BITS_PER_WORD_def unat_div)
  then have "bitmap_create True True n = Inr (Some b)"
    by (simp add: bitmap_create_def Let_def words b_def)
  moreover have "bm_abs b {}"
    using True n by (auto simp: bm_abs_def b_def div_add1_eq)
  ultimately show ?thesis using that [of b] by (simp add: b_def)
next
  case False
  define q where "q = unat n div 32"
  define r where "r = unat n mod 32"
  have qr: "unat n = 32 * q + r" "0 < r" "r < 32" using False by (auto simp: q_def r_def)
  have up: "(unat n + 31) div 32 = Suc q" using qr by simp
  have words: "unat (DIVROUNDUP n BITS_PER_WORD) = Suc q" using up unat_DIVROUNDUP [OF n] by simp
  define ix where "ix = DIVROUNDUP n BITS_PER_WORD - 1"
  have w0: "DIVROUNDUP n BITS_PER_WORD \<noteq> 0" using words by auto
  have ix: "unat ix = q" using words unat_minus_one [OF w0] by (simp add: ix_def)
  have dv: "unat (n div BITS_PER_WORD) = q" by (simp add: BITS_PER_WORD_def unat_div q_def)
  have ixd: "n div BITS_PER_WORD = ix" using ix dv by (simp add: word_unat_eq_iff)
  have lt: "n div BITS_PER_WORD < DIVROUNDUP n BITS_PER_WORD" using dv words by (simp add: word_less_nat_alt)
  have over: "n - ix * BITS_PER_WORD = n mod 32"
    unfolding ixd [symmetric] BITS_PER_WORD_def by (simp add: minus_div_mult_eq_mod)
  have ro: "unat (n - ix * BITS_PER_WORD) = r" unfolding over by (simp add: unat_mod r_def)
  define b where "b = \<lparr>nbits = n, bm_v = (replicate (Suc q) 0)[q := mark_over r 0]\<rparr>"
  have "0 < n - ix * BITS_PER_WORD" "n - ix * BITS_PER_WORD < BITS_PER_WORD"
    using ro qr by (simp_all add: word_less_nat_alt BITS_PER_WORD_def)
  then have "bitmap_create True True n = Inr (Some b)"
    using lt ro ix words ixd
    by (simp add: bitmap_create_def Let_def b_def del: replicate.simps flip: ix_def)
  moreover have "bm_abs b {}"
  proof -
    have "bit ((replicate (Suc q) 0)[q := mark_over r 0] ! (i div 32)) (i mod 32) \<longleftrightarrow> unat n \<le> i"
      if i: "i < 32 * Suc q" for i
    proof (cases "i div 32 = q")
      case True
      then have "i = 32 * q + i mod 32" by (metis mult_div_mod_eq)
      moreover have "(replicate (Suc q) 0)[q := mark_over r 0] ! (i div 32) = mark_over r 0"
        using True by (simp del: replicate.simps)
      ultimately show ?thesis using qr bit_mark_over [of r "i mod 32" 0] by (simp only:) auto
    next
      case False
      moreover have "i div 32 < Suc q" using i by (simp add: div_less_iff_less_mult mult.commute)
      ultimately have "i div 32 < q" by simp
      moreover from this have "(replicate (Suc q) 0)[q := mark_over r 0] ! (i div 32) = (0 :: u32)"
        by (simp del: replicate.simps)
      ultimately show ?thesis using qr by (simp only:) auto
    qed
    then show ?thesis using n up by (simp add: bm_abs_def b_def del: replicate.simps)
  qed
  ultimately show ?thesis using that [of b] by (simp add: b_def)
qed

section \<open>Properties\<close>

lemma run_bitmap_set:
  assumes "bm_abs b S"
  shows "case run_set (unat (nbits b)) ops S of
      Inl e \<Rightarrow> run_bitmap ops b = Inl e
    | Inr (rs, S') \<Rightarrow> \<exists>b'. run_bitmap ops b = Inr (rs, b') \<and> bm_abs b' S' \<and> nbits b' = nbits b"
  using assms
proof (induction ops arbitrary: b S)
  case (Cons x xs)
  have step: ?case if r: "run_set (unat (nbits b)) (x # xs) S =
        bindE (run_set (unat (nbits b)) xs S1) (\<lambda>(rs, S''). Inr (r # rs, S''))"
      "run_bitmap (x # xs) b = bindE (run_bitmap xs b1) (\<lambda>(rs, b''). Inr (r # rs, b''))"
      and b1: "bm_abs b1 S1" "nbits b1 = nbits b" for r S1 b1
    unfolding r using Cons.IH [OF b1(1)] b1(2)
    by (cases "run_set (unat (nbits b)) xs S1") (auto split: prod.splits)
  show ?case
  proof (cases x)
    case Alloc
    show ?thesis
    proof (cases "first_free (unat (nbits b)) S")
      case None
      then show ?thesis
        using bitmap_alloc_ok [OF Cons.prems] by (intro step [of S Full b]) (simp_all add: Alloc Cons.prems)
    next
      case (Some i)
      then obtain b' where "bitmap_alloc b = Inr (Some (of_nat i, b'))" "bm_abs b' (insert i S)" "nbits b' = nbits b"
        using bitmap_alloc_ok [OF Cons.prems] by auto
      with Some show ?thesis by (intro step [of "insert i S" "Index (of_nat i)" b']) (simp_all add: Alloc)
    qed
  next
    case (Mark i)
    show ?thesis
    proof (cases "unat i < unat (nbits b) \<and> unat i \<notin> S")
      case True
      then obtain b' where "bitmap_mark b i = Inr b'" "bm_abs b' (insert (unat i) S)" "nbits b' = nbits b"
        using bitmap_mark_ok [OF Cons.prems, of i] by auto
      with True show ?thesis by (intro step [of "insert (unat i) S" Done b']) (simp_all add: Mark)
    next
      case False
      then have "bitmap_mark b i = Inl Assertion" using bitmap_mark_ok [OF Cons.prems, of i] by argo
      with False show ?thesis by (auto simp add: Mark)
    qed
  next
    case (Unmark i)
    show ?thesis
    proof (cases "unat i < unat (nbits b) \<and> unat i \<in> S")
      case True
      then obtain b' where "bitmap_unmark b i = Inr b'" "bm_abs b' (S - {unat i})" "nbits b' = nbits b"
        using bitmap_unmark_ok [OF Cons.prems, of i] by auto
      with True show ?thesis by (intro step [of "S - {unat i}" Done b']) (simp_all add: Unmark)
    next
      case False
      then have "bitmap_unmark b i = Inl Assertion" using bitmap_unmark_ok [OF Cons.prems, of i] by argo
      with False show ?thesis by (auto simp add: Unmark)
    qed
  next
    case (Isset i)
    note set = bitmap_isset_ok [OF Cons.prems, of i]
    consider "unat i < unat (nbits b)"
      | "\<not> unat i < unat (nbits b)" "unat i div 32 < (unat (nbits b) + 31) div 32"
      | "\<not> unat i < unat (nbits b)" "\<not> unat i div 32 < (unat (nbits b) + 31) div 32" by blast
    then show ?thesis
    proof cases
      case 1
      with set show ?thesis by (intro step [of S "Bit (unat i \<in> S)" b]) (simp_all add: Isset Cons.prems)
    next
      case 2
      with set show ?thesis by (intro step [of S "Bit True" b]) (simp_all add: Isset Cons.prems)
    qed (simp add: Isset set)
  qed
qed simp

text \<open>
  C29: a bitmap created for \<open>n\<close> slots behaves as a set of slot numbers below \<open>n\<close>, for every sequence
  of operations: allocation returns the smallest free slot, or reports a full map exactly when
  every slot is taken; marking and unmarking fail their assertions exactly when the slot does not
  exist or is already in that state.
\<close>

theorem bitmap_refines_set:
  assumes "unat n + 31 < 2 ^ 32"
  shows "\<exists>b. bitmap_create True True n = Inr (Some b) \<and>
    (case run_set (unat n) ops {} of
       Inl e \<Rightarrow> run_bitmap ops b = Inl e
     | Inr (rs, S) \<Rightarrow> \<exists>b'. run_bitmap ops b = Inr (rs, b') \<and> bm_abs b' S)"
proof -
  obtain b where b: "bitmap_create True True n = Inr (Some b)" "bm_abs b {}" "nbits b = n"
    by (rule bitmap_create_ok [OF assms])
  show ?thesis
    using b run_bitmap_set [OF b(2), of ops] by (auto split: sum.splits prod.splits)
qed

theorem bitmap_refines_set_witness:
  "unat (2 :: u32) + 31 < 2 ^ 32 \<and>
   (\<exists>b b'. bitmap_create True True 2 = Inr (Some b) \<and>
      run_bitmap [Mark 0, Alloc, Alloc, Unmark 0, Isset 1] b = Inr ([Done, Index 1, Full, Done, Bit True], b'))"
  using bitmap_refines_set [of 2 "[Mark 0, Alloc, Alloc, Unmark 0, Isset 1]"]
  by (auto simp: first_free_def upt_conv_Cons)

end
