(* ===== verification/BB_Evict.thy ===== *)
theory BB_Evict
  imports BB_Pointers BB_Stdio
begin

text \<open>
  The replacement algorithms of the paging simulator, \<^verbatim>\<open>legacy/OldPageTable/experiment\<close>
  (\<^verbatim>\<open>fifo.c\<close>, \<^verbatim>\<open>clock.c\<close>, \<^verbatim>\<open>rand.c\<close>, \<^verbatim>\<open>lru.c\<close>, \<^verbatim>\<open>opt.c\<close>) and the table of \<^verbatim>\<open>vsystem.c\<close> that
  selects one by name. An algorithm is three functions on the globals of its file: one that sets
  them up, one called on every reference, one that names the frame to evict. The globals of all
  files are one record. \<open>memsize\<close> is the number of frames.
\<close>

section \<open>Globals\<close>

record llnode =
  ll_frame :: nat
  ll_next :: ptr

text \<open>
  The trace list of \<^verbatim>\<open>opt.c\<close> is built once and then only traversed: \<open>opt_head\<close> is the list and
  \<open>opt_curr\<close> the part of it from the current node on, with the empty list for \<^verbatim>\<open>NULL\<close>. \<open>drawn\<close>
  counts the calls of \<^verbatim>\<open>random\<close>.
\<close>

record pol_globals =
  fifo_head :: nat
  clk_hand :: nat
  clk_refed :: "bool list"
  lru_head :: ptr
  lru_tail :: ptr
  lru_nodes :: "llnode store"
  lru_refed :: "bool list"
  opt_head :: "u64 list"
  opt_curr :: "u64 list"
  drawn :: nat

text \<open>
  What the algorithms take from outside: the choice of an address by \<^verbatim>\<open>malloc\<close> and the numbers
  \<^verbatim>\<open>random\<close> returns.
\<close>

record pol_env =
  pick_node :: "llnode store \<Rightarrow> ptr"
  random :: "nat \<Rightarrow> nat"

definition PAGE_SHIFT :: nat where "PAGE_SHIFT = 12"

definition frame_of :: "u32 \<Rightarrow> nat" where
  "frame_of w = unat (drop_bit PAGE_SHIFT w)"

definition flag_at :: "bool list \<Rightarrow> nat \<Rightarrow> bool res" where
  "flag_at fs i = (if i < length fs then Inr (fs ! i) else Inl Segv)"

section \<open>FIFO\<close>

definition fifo_init :: "nat \<Rightarrow> pol_globals \<Rightarrow> pol_globals" where
  "fifo_init memsize g = g\<lparr>fifo_head := 0\<rparr>"

definition fifo_ref :: "u32 \<Rightarrow> pol_globals \<Rightarrow> pol_globals res" where
  "fifo_ref w g = Inr g"

definition fifo_evict :: "nat \<Rightarrow> pol_globals \<Rightarrow> (int \<times> pol_globals) res" where
  "fifo_evict memsize g =
     (if memsize = 0 then Inl Fpe
      else Inr (int (fifo_head g), g\<lparr>fifo_head := (fifo_head g + 1) mod memsize\<rparr>))"

section \<open>CLOCK\<close>

definition clock_init :: "nat \<Rightarrow> pol_globals \<Rightarrow> pol_globals" where
  "clock_init memsize g = g\<lparr>clk_hand := 0, clk_refed := replicate memsize False\<rparr>"

definition clock_ref :: "u32 \<Rightarrow> pol_globals \<Rightarrow> pol_globals res" where
  "clock_ref w g =
     (if frame_of w < length (clk_refed g) then Inr (g\<lparr>clk_refed := (clk_refed g)[frame_of w := True]\<rparr>)
      else Inl Segv)"

text \<open>The search for an unreferenced frame; each turn that goes on clears a flag.\<close>

lemma cleared_flag:
  "i < length fs \<Longrightarrow> fs ! i \<Longrightarrow> length (filter id (fs[i := False])) < length (filter id fs)"
proof (induction fs arbitrary: i)
  case (Cons f fs)
  then show ?case by (cases i) auto
qed simp

function clock_loop :: "nat \<Rightarrow> bool list \<Rightarrow> (nat \<times> bool list) res" where
  "clock_loop i refed =
     (if i < length refed then
        if refed ! i then clock_loop ((i + 1) mod length refed) (refed[i := False])
        else Inr (i, refed[i := True])
      else Inl Assertion)"
  by pat_completeness auto
termination
  by (relation "measure (\<lambda>(i, refed). length (filter id refed))") (auto simp: cleared_flag)

definition clock_evict :: "nat \<Rightarrow> pol_globals \<Rightarrow> (int \<times> pol_globals) res" where
  "clock_evict memsize g =
     (if memsize \<le> clk_hand g then Inl Assertion
      else bindE (clock_loop (clk_hand g) (clk_refed g)) (\<lambda>(i, refed).
        Inr (int i, g\<lparr>clk_refed := refed, clk_hand := i\<rparr>)))"

section \<open>RAND\<close>

definition rand_init :: "nat \<Rightarrow> pol_globals \<Rightarrow> pol_globals" where
  "rand_init memsize g = g"

definition rand_ref :: "u32 \<Rightarrow> pol_globals \<Rightarrow> pol_globals res" where
  "rand_ref w g = Inr g"

definition rand_evict :: "pol_env \<Rightarrow> nat \<Rightarrow> pol_globals \<Rightarrow> (int \<times> pol_globals) res" where
  "rand_evict env memsize g =
     (if memsize = 0 then Inl Fpe
      else Inr (int (random env (drawn g) mod memsize), g\<lparr>drawn := Suc (drawn g)\<rparr>))"

section \<open>LRU\<close>

definition lru_init :: "nat \<Rightarrow> pol_globals \<Rightarrow> pol_globals" where
  "lru_init memsize g = g\<lparr>lru_head := 0, lru_tail := 0, lru_refed := replicate memsize False\<rparr>"

definition lru_evict_node :: "pol_globals \<Rightarrow> (int \<times> pol_globals) res" where
  "lru_evict_node g =
     (if lru_head g = 0 then Inl Assertion
      else bindE (deref (lru_nodes g) (lru_head g)) (\<lambda>n.
        let frame = ll_frame n; tl' = (if lru_head g = lru_tail g then 0 else lru_tail g) in
        bindE (flag_at (lru_refed g) frame) (\<lambda>r.
          if \<not> r then Inl Assertion
          else bindE (mfree (lru_nodes g) (lru_head g)) (\<lambda>st.
            Inr (int frame, g\<lparr>lru_tail := tl', lru_refed := (lru_refed g)[frame := False],
              lru_nodes := st, lru_head := ll_next n\<rparr>)))))"

text \<open>The loop that looks for the older node of the frame, with the node before it.\<close>

partial_function (option) lru_walk :: "llnode store \<Rightarrow> nat \<Rightarrow> ptr \<Rightarrow> ptr \<Rightarrow> (ptr \<times> ptr) res option" where
  "lru_walk st frame prev pn =
     (case deref st pn of
        Inl e \<Rightarrow> Some (Inl e)
      | Inr n \<Rightarrow> if ll_frame n \<noteq> frame then lru_walk st frame pn (ll_next n) else Some (Inr (prev, pn)))"

definition lru_find :: "llnode store \<Rightarrow> nat \<Rightarrow> ptr \<Rightarrow> (ptr \<times> ptr) res" where
  "lru_find st frame p = (case lru_walk st frame 0 p of None \<Rightarrow> Inl Blocked | Some r \<Rightarrow> r)"

definition lru_ref :: "pol_env \<Rightarrow> u32 \<Rightarrow> pol_globals \<Rightarrow> pol_globals res" where
  "lru_ref env w g =
     (let frame = frame_of w in
      bindE (flag_at (lru_refed g) frame) (\<lambda>r.
      bindE (malloc (pick_node env) \<lparr>ll_frame = frame, ll_next = 0\<rparr> (lru_nodes g)) (\<lambda>(new_node, st).
        if \<not> r then
          let g1 = g\<lparr>lru_refed := (lru_refed g)[frame := True], lru_nodes := st\<rparr> in
          if lru_tail g = 0 then Inr (g1\<lparr>lru_tail := new_node, lru_head := new_node\<rparr>)
          else bindE (assign st (lru_tail g) (ll_next_update (\<lambda>_. new_node))) (\<lambda>st1.
                 Inr (g1\<lparr>lru_nodes := st1, lru_tail := new_node\<rparr>))
        else
          bindE (assign st (lru_tail g) (ll_next_update (\<lambda>_. new_node))) (\<lambda>st1.
          bindE (lru_find st1 frame (lru_head g)) (\<lambda>(prev, pn).
          bindE (deref st1 pn) (\<lambda>n.
            if prev \<noteq> 0 then
              bindE (assign st1 prev (ll_next_update (\<lambda>_. ll_next n))) (\<lambda>st2.
              bindE (mfree st2 pn) (\<lambda>st3.
                Inr (g\<lparr>lru_nodes := st3, lru_tail := new_node\<rparr>)))
            else
              bindE (mfree st1 pn) (\<lambda>st2.
                Inr (g\<lparr>lru_nodes := st2, lru_head := ll_next n,
                  lru_tail := (if ll_next n = 0 then 0 else new_node)\<rparr>))))))))"

section \<open>OPT\<close>

text \<open>
  The references of a trace: for every line that does not start with an equals sign, the access
  type and the address that \<^verbatim>\<open>sscanf(buf, "%c %lx", ...)\<close> leaves in the two variables. The
  lines are the pieces \<^verbatim>\<open>fgets\<close> cuts the file into with a buffer of \<^verbatim>\<open>MAXLINE\<close> characters.
\<close>

definition MAXLINE :: nat where "MAXLINE = 256"

function text_lines :: "nat \<Rightarrow> string \<Rightarrow> string list" where
  "text_lines n s =
     (if n = 0 \<or> s = [] then [] else let (l, r) = take_line n s in l # text_lines n r)"
  by pat_completeness auto
termination
  by (relation "measure (\<lambda>(n, s). length s)") (auto dest: take_line_progress [OF sym])

definition scan_ref :: "string \<Rightarrow> char \<times> u64 \<Rightarrow> char \<times> u64" where
  "scan_ref buf = (\<lambda>(type, vaddr).
     case takeWhile (\<lambda>c. c \<noteq> nul) buf of
       [] \<Rightarrow> (type, vaddr)
     | c # s \<Rightarrow> (c, case scan_lx s of None \<Rightarrow> vaddr | Some a \<Rightarrow> a))"

fun trace_refs :: "string list \<Rightarrow> char \<times> u64 \<Rightarrow> (char \<times> u64) list" where
  "trace_refs [] tv = []"
| "trace_refs (buf # bufs) tv =
     (if take 1 buf \<noteq> ''='' then let tv' = scan_ref buf tv in tv' # trace_refs bufs tv'
      else trace_refs bufs tv)"

definition page_addr :: "u64 \<Rightarrow> u64" where
  "page_addr vaddr = push_bit PAGE_SHIFT (drop_bit PAGE_SHIFT vaddr)"

text \<open>\<open>tv\<close> is what the uninitialised local variables hold; \<open>None\<close> is a trace that cannot be opened.\<close>

definition opt_init :: "string option \<Rightarrow> char \<times> u64 \<Rightarrow> pol_globals \<Rightarrow> pol_globals res" where
  "opt_init tracefile tv g =
     (case tracefile of
        None \<Rightarrow> Inl Segv
      | Some txt \<Rightarrow>
          let tr = map (\<lambda>(ty, a). page_addr a) (trace_refs (text_lines (MAXLINE - 1) txt) tv)
          in Inr (g\<lparr>opt_head := tr, opt_curr := tr\<rparr>))"

definition opt_ref :: "u32 \<Rightarrow> pol_globals \<Rightarrow> pol_globals res" where
  "opt_ref w g =
     (if opt_curr g = [] then Inl Segv
      else let nxt = tl (opt_curr g) in Inr (g\<lparr>opt_curr := (if nxt = [] then opt_head g else nxt)\<rparr>))"

text \<open>How many references away a page is.\<close>

fun distance :: "u64 \<Rightarrow> u64 list \<Rightarrow> nat option" where
  "distance target [] = None"
| "distance target (v # vs) = (if v \<noteq> target then map_option Suc (distance target vs) else Some 0)"

text \<open>
  The first loop: the frame of a page that never shows up again, or the distances of all.
\<close>

fun opt_scan :: "nat \<Rightarrow> u64 list \<Rightarrow> u64 list \<Rightarrow> nat + nat list" where
  "opt_scan i [] future = Inr []"
| "opt_scan i (v # vs) future =
     (case distance v future of
        None \<Rightarrow> Inl i
      | Some d \<Rightarrow> (case opt_scan (Suc i) vs future of Inl j \<Rightarrow> Inl j | Inr ds \<Rightarrow> Inr (d # ds)))"

fun longest :: "int \<Rightarrow> int \<Rightarrow> nat \<Rightarrow> nat list \<Rightarrow> int" where
  "longest longest_dist longest_frame i [] = longest_frame"
| "longest longest_dist longest_frame i (d # ds) =
     (if longest_dist < int d then longest (int d) (int i) (Suc i) ds
      else longest longest_dist longest_frame (Suc i) ds)"

text \<open>\<open>vaddrs\<close> are the page addresses the coremap records for the frames.\<close>

definition opt_evict :: "u64 list \<Rightarrow> pol_globals \<Rightarrow> (int \<times> pol_globals) res" where
  "opt_evict vaddrs g =
     (if vaddrs \<noteq> [] \<and> opt_curr g = [] then Inl Segv
      else case opt_scan 0 vaddrs (tl (opt_curr g)) of
        Inl i \<Rightarrow> Inr (int i, g)
      | Inr ds \<Rightarrow> Inr (longest (- 1) (- 1) 0 ds, g))"

section \<open>The table of algorithms\<close>

record algorithm =
  alg_name :: string
  alg_init :: "nat \<Rightarrow> pol_globals \<Rightarrow> pol_globals res"
  alg_ref :: "u32 \<Rightarrow> pol_globals \<Rightarrow> pol_globals res"
  alg_evict :: "nat \<Rightarrow> u64 list \<Rightarrow> pol_globals \<Rightarrow> (int \<times> pol_globals) res"

definition algs :: "pol_env \<Rightarrow> string option \<Rightarrow> char \<times> u64 \<Rightarrow> algorithm list" where
  "algs env tracefile tv =
     [\<lparr>alg_name = ''rand'', alg_init = (\<lambda>m g. Inr (rand_init m g)), alg_ref = rand_ref,
       alg_evict = (\<lambda>m vs. rand_evict env m)\<rparr>,
      \<lparr>alg_name = ''lru'', alg_init = (\<lambda>m g. Inr (lru_init m g)), alg_ref = lru_ref env,
       alg_evict = (\<lambda>m vs. lru_evict_node)\<rparr>,
      \<lparr>alg_name = ''fifo'', alg_init = (\<lambda>m g. Inr (fifo_init m g)), alg_ref = fifo_ref,
       alg_evict = (\<lambda>m vs. fifo_evict m)\<rparr>,
      \<lparr>alg_name = ''clock'', alg_init = (\<lambda>m g. Inr (clock_init m g)), alg_ref = clock_ref,
       alg_evict = (\<lambda>m vs. clock_evict m)\<rparr>,
      \<lparr>alg_name = ''opt'', alg_init = (\<lambda>m. opt_init tracefile tv), alg_ref = opt_ref,
       alg_evict = (\<lambda>m. opt_evict)\<rparr>]"

definition select_alg :: "algorithm list \<Rightarrow> string \<Rightarrow> algorithm res" where
  "select_alg as nm = guardE Exit (find (\<lambda>a. alg_name a = nm) as)"

declare clock_loop.simps [simp del] text_lines.simps [simp del]

section \<open>The contract of a replacement algorithm\<close>

text \<open>
  \<open>ginv m U g\<close>: the globals are in order for \<open>m\<close> frames of which those in \<open>U\<close> have been referenced
  since they were last evicted. The simulator evicts only when all frames are in use, and
  references the frame it evicted right after.
\<close>

locale evictor =
  fixes ref :: "u32 \<Rightarrow> 'g \<Rightarrow> 'g res" and evict :: "nat \<Rightarrow> u64 list \<Rightarrow> 'g \<Rightarrow> (int \<times> 'g) res"
    and ginv :: "nat \<Rightarrow> nat set \<Rightarrow> 'g \<Rightarrow> bool"
  assumes ref_ok: "ginv m U g \<Longrightarrow> frame_of w < m \<Longrightarrow>
      \<exists>g'. ref w g = Inr g' \<and> ginv m (insert (frame_of w) U) g'"
    and evict_ok: "ginv m {..<m} g \<Longrightarrow> 0 < m \<Longrightarrow> length vs = m \<Longrightarrow>
      \<exists>f g'. evict m vs g = Inr (int f, g') \<and> f < m \<and> ginv m ({..<m} - {f}) g'"

section \<open>LRU as a queue of frames\<close>

definition node_frame :: "llnode store \<Rightarrow> ptr \<Rightarrow> nat" where
  "node_frame st x = ll_frame (the (st x))"

definition lru_nodes_ok :: "pol_globals \<Rightarrow> ptr list \<Rightarrow> bool" where
  "lru_nodes_ok g xs \<longleftrightarrow>
     chain ll_next (lru_nodes g) (lru_head g) xs \<and> lru_tail g = lastp 0 xs \<and> dom (lru_nodes g) = set xs"

definition flags_ok :: "nat \<Rightarrow> bool list \<Rightarrow> nat set \<Rightarrow> bool" where
  "flags_ok m fs U \<longleftrightarrow> length fs = m \<and> U \<subseteq> {..<m} \<and> (\<forall>f<m. fs ! f \<longleftrightarrow> f \<in> U)"

definition lru_rep :: "nat \<Rightarrow> pol_globals \<Rightarrow> nat list \<Rightarrow> bool" where
  "lru_rep m g q \<longleftrightarrow>
     (\<exists>xs. lru_nodes_ok g xs \<and> map (node_frame (lru_nodes g)) xs = q) \<and>
     distinct q \<and> flags_ok m (lru_refed g) (set q)"

text \<open>The queue a reference leaves: the frame goes to its end.\<close>

definition requeue :: "nat \<Rightarrow> nat list \<Rightarrow> nat list" where
  "requeue f q = filter (\<lambda>x. x \<noteq> f) q @ [f]"

lemma flag_at_ok: "flags_ok m fs U \<Longrightarrow> f < m \<Longrightarrow> flag_at fs f = Inr (f \<in> U)"
  by (simp add: flags_ok_def flag_at_def)

lemma flags_ok_set: "flags_ok m fs U \<Longrightarrow> f < m \<Longrightarrow> flags_ok m (fs[f := True]) (insert f U)"
  by (auto simp: flags_ok_def nth_list_update)

lemma flags_ok_clear: "flags_ok m fs U \<Longrightarrow> f < m \<Longrightarrow> flags_ok m (fs[f := False]) (U - {f})"
  by (auto simp: flags_ok_def nth_list_update)

lemma lru_walk_hit:
  "chain ll_next st p (as @ a # bs) \<Longrightarrow> (\<And>x. x \<in> set as \<Longrightarrow> node_frame st x \<noteq> f) \<Longrightarrow>
   node_frame st a = f \<Longrightarrow> lru_walk st f t p = Some (Inr (lastp t as, a))"
proof (induction as arbitrary: p t)
  case Nil
  then show ?case by (subst lru_walk.simps) (auto simp: node_frame_def)
next
  case (Cons x as)
  then obtain n where n: "p = x" "x \<noteq> 0" "st x = Some n" "chain ll_next st (ll_next n) (as @ a # bs)" by auto
  have "ll_frame n \<noteq> f" using Cons.prems(2) [of x] n(3) by (simp add: node_frame_def)
  moreover have "lru_walk st f x (ll_next n) = Some (Inr (lastp x as, a))"
    using Cons.IH [OF n(4)] Cons.prems by auto
  ultimately show ?case using n by (subst lru_walk.simps) simp
qed

text \<open>Linking a new node behind the last one.\<close>

lemma lru_append:
  assumes ch: "chain ll_next st h xs" and ne: "xs \<noteq> []" and y: "y \<noteq> 0" "st y = None"
    and new: "new = \<lparr>ll_frame = f, ll_next = 0\<rparr>"
  obtains st1 where "assign (st(y \<mapsto> new)) (lastp 0 xs) (ll_next_update (\<lambda>_. y)) = Inr st1"
    "chain ll_next st1 h (xs @ [y])" "dom st1 = insert y (dom st)"
    "\<And>x. x \<in> set xs \<Longrightarrow> node_frame st1 x = node_frame st x" "node_frame st1 y = f"
proof -
  obtain as t where xs: "xs = as @ [t]" using ne by (metis rev_exhaust)
  have "t \<in> dom st" using chain_dom [OF ch] xs by auto
  then obtain n where n: "st t = Some n" by auto
  have t0: "t \<noteq> 0" using chain_nonnull [OF ch] xs by auto
  have yx: "y \<notin> set xs" using chain_dom [OF ch] y(2) by auto
  then have ty: "t \<noteq> y" using xs by auto
  define st1 where "st1 = st(y \<mapsto> new, t \<mapsto> n\<lparr>ll_next := y\<rparr>)"
  show ?thesis
  proof (rule that [of st1])
    show "assign (st(y \<mapsto> new)) (lastp 0 xs) (ll_next_update (\<lambda>_. y)) = Inr st1"
      using xs n t0 ty by (simp add: st1_def)
    show "chain ll_next st1 h (xs @ [y])"
      using chain_snoc [of ll_next st h as t n "n\<lparr>ll_next := y\<rparr>" y new] ch n y yx new
      unfolding xs st1_def by simp
    show "dom st1 = insert y (dom st)" using n by (auto simp: st1_def)
    show "node_frame st1 x = node_frame st x" if "x \<in> set xs" for x
      using that yx n by (auto simp: st1_def node_frame_def)
    show "node_frame st1 y = f" using new ty by (simp add: st1_def node_frame_def)
  qed
qed

text \<open>Taking the older node of a frame out of the queue.\<close>

lemma lru_unlink:
  assumes ch: "chain ll_next st h (as @ a # bs)" and ne: "bs \<noteq> []" and d: "dom st = set (as @ a # bs)"
    and pre: "prev = lastp 0 as" and n: "st a = Some n"
  obtains st2 h2 where
    "(if prev \<noteq> 0 then bindE (assign st prev (ll_next_update (\<lambda>_. ll_next n))) (\<lambda>st2.
        bindE (mfree st2 a) (\<lambda>st3. Inr (st3, h))) else bindE (mfree st a) (\<lambda>st2. Inr (st2, ll_next n))) = Inr (st2, h2)"
    "chain ll_next st2 h2 (as @ bs)" "dom st2 = set (as @ bs)"
    "\<And>x. x \<in> set (as @ bs) \<Longrightarrow> node_frame st2 x = node_frame st x" "ll_next n \<noteq> 0"
proof -
  have dis: "distinct (as @ a # bs)" by (rule chain_distinct [OF ch])
  have a0: "a \<noteq> 0" using chain_nonnull [OF ch] by auto
  have "chain ll_next st a (a # bs)" by (rule chain_append [OF ch])
  then have nx: "chain ll_next st (ll_next n) bs" using n by auto
  then have nz: "ll_next n \<noteq> 0" using ne by (cases bs) auto
  show ?thesis
  proof (cases as rule: rev_cases)
    case Nil
    show ?thesis
    proof (rule that [of "st(a := None)" "ll_next n"])
      show "chain ll_next (st(a := None)) (ll_next n) (as @ bs)"
        using chain_head_removed [of ll_next st h a bs n] ch n Nil by simp
    qed (use Nil pre n a0 d dis nz in \<open>auto simp: node_frame_def\<close>)
  next
    case (snoc cs c)
    have c0: "c \<noteq> 0" "c \<noteq> a" using chain_nonnull [OF ch] dis snoc by auto
    obtain k where k: "st c = Some k" using d snoc by auto
    show ?thesis
    proof (rule that [of "st(c \<mapsto> k\<lparr>ll_next := ll_next n\<rparr>, a := None)" h])
      show "chain ll_next (st(c \<mapsto> k\<lparr>ll_next := ll_next n\<rparr>, a := None)) h (as @ bs)"
        using chain_remove [of ll_next st h cs c a bs k n "k\<lparr>ll_next := ll_next n\<rparr>"] ch k n snoc by simp
    qed (use snoc pre n a0 c0 k d dis nz in \<open>auto simp: node_frame_def\<close>)
  qed
qed

lemma lru_rep_flags: "lru_rep m g q \<Longrightarrow> flags_ok m (lru_refed g) (set q)"
  by (simp add: lru_rep_def)

lemma lru_evict_ok:
  assumes rep: "lru_rep m g (f # q)"
  shows "\<exists>g'. lru_evict_node g = Inr (int f, g') \<and> lru_rep m g' q"
proof -
  obtain xs where xs: "lru_nodes_ok g xs" "map (node_frame (lru_nodes g)) xs = f # q"
    using rep by (auto simp: lru_rep_def)
  then obtain x ys where ys: "xs = x # ys" by auto
  let ?st = "lru_nodes g"
  have ch: "chain ll_next ?st (lru_head g) (x # ys)" using xs(1) ys by (simp add: lru_nodes_ok_def)
  then obtain n where n: "lru_head g = x" "x \<noteq> 0" "?st x = Some n" by auto
  have dis: "x \<notin> set ys" using chain_distinct [OF ch] by simp
  have f: "ll_frame n = f" "map (node_frame ?st) ys = q" using xs(2) ys n by (auto simp: node_frame_def)
  have fl: "flags_ok m (lru_refed g) (set (f # q))" "distinct (f # q)" using rep by (auto simp: lru_rep_def)
  then have fm: "f < m" by (auto simp: flags_ok_def)
  define g' where "g' = g\<lparr>lru_tail := (if lru_head g = lru_tail g then 0 else lru_tail g),
    lru_refed := (lru_refed g)[f := False], lru_nodes := ?st(x := None), lru_head := ll_next n\<rparr>"
  have run: "lru_evict_node g = Inr (int f, g')"
    using n f(1) flag_at_ok [OF fl(1) fm] by (simp add: lru_evict_node_def Let_def g'_def)
  have "lru_tail g' = lastp 0 ys"
    using xs(1) ys n dis by (cases ys rule: rev_cases) (auto simp: lru_nodes_ok_def g'_def)
  moreover have "chain ll_next (lru_nodes g') (lru_head g') ys"
    using chain_head_removed [OF ch n(3)] by (simp add: g'_def)
  moreover have "dom (lru_nodes g') = set ys" using xs(1) ys dis by (auto simp: lru_nodes_ok_def g'_def)
  moreover have "map (node_frame (lru_nodes g')) ys = q"
    using f(2) dis by (auto simp: g'_def node_frame_def)
  moreover have "flags_ok m (lru_refed g') (set q)"
    using flags_ok_clear [OF fl(1) fm] fl(2) by (simp add: g'_def)
  ultimately have "lru_rep m g' q" using fl(2) by (auto simp: lru_rep_def lru_nodes_ok_def)
  with run show ?thesis by blast
qed

lemma lru_ref_new:
  assumes rep: "lru_rep m g q" and f: "frame_of w = f" "f < m" "f \<notin> set q" and al: "good_pick (pick_node env)"
  shows "\<exists>g'. lru_ref env w g = Inr g' \<and> lru_rep m g' (q @ [f])"
proof -
  obtain xs where xs: "lru_nodes_ok g xs" "map (node_frame (lru_nodes g)) xs = q"
    using rep by (auto simp: lru_rep_def)
  let ?st = "lru_nodes g"
  let ?new = "\<lparr>ll_frame = f, ll_next = 0\<rparr>"
  have ch: "chain ll_next ?st (lru_head g) xs" "lru_tail g = lastp 0 xs" "dom ?st = set xs"
    using xs(1) by (auto simp: lru_nodes_ok_def)
  have "finite (dom ?st)" using ch(3) by simp
  then obtain y where y: "y \<noteq> 0" "?st y = None" "malloc (pick_node env) ?new ?st = Inr (y, ?st(y \<mapsto> ?new))"
    using malloc_ok [OF al] by blast
  have fl: "flags_ok m (lru_refed g) (set q)" "distinct q" using rep by (auto simp: lru_rep_def)
  note flag = flag_at_ok [OF fl(1) f(2)] flags_ok_set [OF fl(1) f(2)]
  show ?thesis
  proof (cases "xs = []")
    case True
    define g' where "g' = g\<lparr>lru_refed := (lru_refed g)[f := True], lru_nodes := ?st(y \<mapsto> ?new),
      lru_tail := y, lru_head := y\<rparr>"
    have "lru_ref env w g = Inr g'"
      using True ch(2) y(3) flag(1) f by (simp add: lru_ref_def Let_def g'_def)
    moreover have "lru_nodes_ok g' [y]" using True ch(3) y by (auto simp: lru_nodes_ok_def g'_def)
    moreover have "map (node_frame (lru_nodes g')) [y] = q @ [f]" using True xs(2) by (simp add: g'_def node_frame_def)
    ultimately show ?thesis using flag(2) f(3) fl(2) by (auto simp: lru_rep_def g'_def)
  next
    case False
    obtain st1 where st1: "assign (?st(y \<mapsto> ?new)) (lastp 0 xs) (ll_next_update (\<lambda>_. y)) = Inr st1"
      "chain ll_next st1 (lru_head g) (xs @ [y])" "dom st1 = insert y (dom ?st)"
      "\<And>x. x \<in> set xs \<Longrightarrow> node_frame st1 x = node_frame ?st x" "node_frame st1 y = f"
      by (rule lru_append [where f = f, OF ch(1) False y(1,2) refl]) (rule that)
    have t0: "lastp 0 xs \<noteq> 0"
      using last_in_set [OF False] chain_nonnull [OF ch(1)] False unfolding lastp_def by metis
    define g' where "g' = g\<lparr>lru_refed := (lru_refed g)[f := True], lru_nodes := st1, lru_tail := y\<rparr>"
    have "lru_ref env w g = Inr g'"
      using ch(2) y(3) flag(1) f st1(1) t0 by (simp add: lru_ref_def Let_def g'_def)
    moreover have "lru_nodes_ok g' (xs @ [y])" using st1 ch(3) by (simp add: lru_nodes_ok_def g'_def)
    moreover have "map (node_frame (lru_nodes g')) (xs @ [y]) = q @ [f]"
      using st1 xs(2) by (auto simp: g'_def)
    ultimately show ?thesis using flag(2) f(3) fl(2) by (auto simp: lru_rep_def g'_def intro!: exI [of _ "xs @ [y]"])
  qed
qed

lemma lru_ref_again:
  assumes rep: "lru_rep m g q" and f: "frame_of w = f" "f < m" "f \<in> set q" and al: "good_pick (pick_node env)"
  shows "\<exists>g'. lru_ref env w g = Inr g' \<and> lru_rep m g' (filter (\<lambda>x. x \<noteq> f) q @ [f])"
proof -
  obtain xs where xs: "lru_nodes_ok g xs" "map (node_frame (lru_nodes g)) xs = q"
    using rep by (auto simp: lru_rep_def)
  let ?st = "lru_nodes g"
  let ?new = "\<lparr>ll_frame = f, ll_next = 0\<rparr>"
  have ch: "chain ll_next ?st (lru_head g) xs" "lru_tail g = lastp 0 xs" "dom ?st = set xs"
    using xs(1) by (auto simp: lru_nodes_ok_def)
  have "finite (dom ?st)" using ch(3) by simp
  then obtain y where y: "y \<noteq> 0" "?st y = None" "malloc (pick_node env) ?new ?st = Inr (y, ?st(y \<mapsto> ?new))"
    using malloc_ok [OF al] by blast
  have fl: "flags_ok m (lru_refed g) (set q)" "distinct q" using rep by (auto simp: lru_rep_def)
  obtain as a bs where split: "xs = as @ a # bs" "node_frame ?st a = f" "\<And>x. x \<in> set as \<Longrightarrow> node_frame ?st x \<noteq> f"
  proof -
    have "\<exists>x\<in>set xs. node_frame ?st x = f" using f(3) xs(2) by auto
    then show ?thesis using split_list_first_prop [of xs "\<lambda>x. node_frame ?st x = f"] that by blast
  qed
  have ne: "xs \<noteq> []" using split(1) by simp
  obtain st1 where st1: "assign (?st(y \<mapsto> ?new)) (lastp 0 xs) (ll_next_update (\<lambda>_. y)) = Inr st1"
    "chain ll_next st1 (lru_head g) (xs @ [y])" "dom st1 = insert y (dom ?st)"
    "\<And>x. x \<in> set xs \<Longrightarrow> node_frame st1 x = node_frame ?st x" "node_frame st1 y = f"
    by (rule lru_append [where f = f, OF ch(1) ne y(1,2) refl]) (rule that)
  have ch1: "chain ll_next st1 (lru_head g) (as @ a # bs @ [y])" using st1(2) split(1) by simp
  have dom1: "dom st1 = set (as @ a # bs @ [y])" using st1(3) ch(3) split(1) by auto
  have "lru_walk st1 f 0 (lru_head g) = Some (Inr (lastp 0 as, a))"
    using split st1(4) by (intro lru_walk_hit [OF ch1]) auto
  then have walk: "lru_find st1 f (lru_head g) = Inr (lastp 0 as, a)" by (simp add: lru_find_def)
  obtain n where n: "st1 a = Some n" using dom1 by auto
  have a0: "a \<noteq> 0" using chain_nonnull [OF ch1] by auto
  obtain st2 h2 where u: "(if lastp 0 as \<noteq> 0 then bindE (assign st1 (lastp 0 as) (ll_next_update (\<lambda>_. ll_next n)))
      (\<lambda>st2. bindE (mfree st2 a) (\<lambda>st3. Inr (st3, lru_head g)))
      else bindE (mfree st1 a) (\<lambda>st2. Inr (st2, ll_next n))) = Inr (st2, h2)"
    "chain ll_next st2 h2 (as @ bs @ [y])" "dom st2 = set (as @ bs @ [y])"
    "\<And>x. x \<in> set (as @ bs @ [y]) \<Longrightarrow> node_frame st2 x = node_frame st1 x" "ll_next n \<noteq> 0"
    by (rule lru_unlink [OF ch1 _ dom1 refl n]) auto
  define g' where "g' = g\<lparr>lru_nodes := st2, lru_head := h2, lru_tail := y\<rparr>"
  have g: "g\<lparr>lru_head := lru_head g\<rparr> = g" by simp
  have run: "lru_ref env w g = Inr g'"
    using y(3) flag_at_ok [OF fl(1) f(2)] f st1(1) ch(2) walk n a0 u(1,5)
    by (cases "lastp 0 as = 0") (auto simp: lru_ref_def Let_def g'_def)
  have nodes: "lru_nodes_ok g' (as @ bs @ [y])" using u by (simp add: lru_nodes_ok_def g'_def)
  have d: "distinct (map (node_frame ?st) (as @ a # bs))" using fl(2) xs(2) split(1) by simp
  have nb: "node_frame ?st x \<noteq> f" if "x \<in> set bs" for x
  proof -
    have "node_frame ?st a \<notin> node_frame ?st ` set bs" using d by simp
    then show ?thesis using split(2) that by (metis imageI)
  qed
  have "filter (\<lambda>x. x \<noteq> f) q = map (node_frame ?st) (as @ bs)"
    using nb split(2,3) unfolding xs(2) [symmetric] split(1) by (simp add: filter_map o_def)
  then have frames: "map (node_frame (lru_nodes g')) (as @ bs @ [y]) = filter (\<lambda>x. x \<noteq> f) q @ [f]"
    using u(4) st1(4,5) split(1) by (auto simp: g'_def)
  have "flags_ok m (lru_refed g') (set (filter (\<lambda>x. x \<noteq> f) q @ [f]))"
    using fl(1) f(3) by (auto simp: g'_def flags_ok_def)
  then have "lru_rep m g' (filter (\<lambda>x. x \<noteq> f) q @ [f])"
    using nodes frames fl(2) unfolding lru_rep_def by (auto intro!: exI [of _ "as @ bs @ [y]"])
  with run show ?thesis by blast
qed

lemma lru_ref_ok:
  assumes "lru_rep m g q" "frame_of w < m" "good_pick (pick_node env)"
  shows "\<exists>g'. lru_ref env w g = Inr g' \<and> lru_rep m g' (requeue (frame_of w) q)"
proof (cases "frame_of w \<in> set q")
  case True
  then show ?thesis using lru_ref_again [OF assms(1) refl assms(2) True assms(3)] by (simp add: requeue_def)
next
  case False
  have "filter (\<lambda>x. x \<noteq> frame_of w) q = q" using False by (intro filter_True) auto
  then show ?thesis using lru_ref_new [OF assms(1) refl assms(2) False assms(3)] by (simp add: requeue_def)
qed

section \<open>CLOCK, RAND and OPT\<close>

lemma clock_loop_ok:
  "i < length refed \<Longrightarrow>
   \<exists>j refed'. clock_loop i refed = Inr (j, refed') \<and> j < length refed \<and> length refed' = length refed"
proof (induction i refed rule: clock_loop.induct)
  case (1 i refed)
  have "(i + 1) mod length refed < length refed" using 1(2) by (intro mod_less_divisor) linarith
  with 1 show ?case by (subst clock_loop.simps) auto
qed

lemma moved_on: "i < n \<Longrightarrow> Suc j < n \<Longrightarrow> Suc (i + j) mod n \<noteq> i"
proof (cases "Suc (i + j) < n")
  case False
  assume *: "i < n" "Suc j < n"
  then have "Suc (i + j) mod n = Suc (i + j) - n" using False by (simp add: le_mod_geq)
  then show ?thesis using False * by simp
qed simp

lemma clock_loop_first:
  assumes "i < length refed" "k < length refed" "\<not> refed ! ((i + k) mod length refed)"
    and "\<And>j. j < k \<Longrightarrow> refed ! ((i + j) mod length refed)"
  shows "\<exists>refed'. clock_loop i refed = Inr ((i + k) mod length refed, refed')"
  using assms
proof (induction k arbitrary: i refed)
  case 0
  then show ?case by (subst clock_loop.simps) simp
next
  case (Suc k)
  let ?n = "length refed"
  let ?i = "Suc i mod ?n"
  have n: "0 < ?n" "?i < ?n" using Suc.prems(1) by (auto intro: mod_less_divisor)
  have r: "refed ! i" using Suc.prems(4) [of 0] Suc.prems(1) by simp
  have sh: "(?i + j) mod ?n = Suc (i + j) mod ?n" for j using mod_add_left_eq [of "Suc i" ?n j] by simp
  note off = moved_on [OF Suc.prems(1)]
  have "\<exists>refed'. clock_loop ?i (refed[i := False]) = Inr ((?i + k) mod length (refed[i := False]), refed')"
  proof (rule Suc.IH)
    show "\<not> refed[i := False] ! ((?i + k) mod length (refed[i := False]))"
      using Suc.prems(2,3) off [of k] by (simp add: sh)
    show "refed[i := False] ! ((?i + j) mod length (refed[i := False]))" if "j < k" for j
      using Suc.prems(4) [of "Suc j"] off [of j] that Suc.prems(2) by (simp add: sh)
  qed (use n Suc.prems(2) in auto)
  then show ?case using r Suc.prems(1) by (subst clock_loop.simps) (simp add: sh)
qed

lemma clock_loop_all:
  assumes "i < length refed" "\<And>j. j < length refed \<Longrightarrow> refed ! j"
  shows "\<exists>refed'. clock_loop i refed = Inr (i, refed')"
proof -
  let ?n = "length refed"
  let ?i = "Suc i mod ?n"
  let ?r = "refed[i := False]"
  have n: "0 < ?n" "?i < ?n" using assms(1) by (auto intro: mod_less_divisor)
  have wrap: "(?i + (?n - 1)) mod ?n = i"
  proof -
    have "(?i + (?n - 1)) mod ?n = (Suc i + (?n - 1)) mod ?n" by (rule mod_add_left_eq)
    also have "Suc i + (?n - 1) = i + ?n" using n by simp
    finally show ?thesis using assms(1) by simp
  qed
  have off: "(?i + j) mod ?n \<noteq> i" if "j < ?n - 1" for j
  proof -
    have "(?i + j) mod ?n = Suc (i + j) mod ?n" using mod_add_left_eq [of "Suc i" ?n j] by simp
    then show ?thesis using moved_on [OF assms(1), of j] that by simp
  qed
  have "\<exists>refed'. clock_loop ?i ?r = Inr ((?i + (?n - 1)) mod length ?r, refed')"
  proof (rule clock_loop_first)
    show "?r ! ((?i + j) mod length ?r)" if "j < ?n - 1" for j
      using off [OF that] assms(2) [of "(?i + j) mod ?n"] n by simp
  qed (use n wrap assms(1) in auto)
  then have "\<exists>refed'. clock_loop ?i ?r = Inr (i, refed')" unfolding length_list_update wrap .
  then show ?thesis using assms by (subst clock_loop.simps) simp
qed

lemma opt_scan_Inl: "opt_scan i vs fut = Inl f \<Longrightarrow> \<exists>k<length vs. f = i + k \<and> distance (vs ! k) fut = None"
proof (induction vs arbitrary: i)
  case (Cons v vs)
  show ?case
  proof (cases "distance v fut")
    case None
    then show ?thesis using Cons.prems by (intro exI [of _ 0]) simp
  next
    case (Some d)
    then have "opt_scan (Suc i) vs fut = Inl f" using Cons.prems by (auto split: sum.splits)
    then obtain k where "k < length vs" "f = Suc i + k" "distance (vs ! k) fut = None"
      using Cons.IH by blast
    then show ?thesis by (intro exI [of _ "Suc k"]) simp
  qed
qed simp

lemma opt_scan_Inr: "opt_scan i vs fut = Inr ds \<Longrightarrow>
  length ds = length vs \<and> (\<forall>k<length vs. distance (vs ! k) fut = Some (ds ! k))"
proof (induction vs arbitrary: i ds)
  case (Cons v vs)
  then obtain d es where d: "distance v fut = Some d" "opt_scan (Suc i) vs fut = Inr es" "ds = d # es"
    by (auto split: option.splits sum.splits)
  then show ?case using Cons.IH [OF d(2)] by (auto simp: nth_Cons split: nat.split)
qed simp

text \<open>The second loop ends with the first frame of the greatest distance.\<close>

lemma longest_result:
  "(longest ld lf i ds = lf \<and> (\<forall>d\<in>set ds. int d \<le> ld)) \<or>
   (\<exists>k<length ds. longest ld lf i ds = int (i + k) \<and> ld < int (ds ! k) \<and> (\<forall>d\<in>set ds. d \<le> ds ! k))"
proof (induction ds arbitrary: ld lf i)
  case (Cons d ds)
  show ?case
  proof (cases "ld < int d")
    case True
    from Cons.IH [of "int d" "int i" "Suc i"] show ?thesis
    proof (elim disjE exE conjE)
      assume "longest (int d) (int i) (Suc i) ds = int i" "\<forall>d'\<in>set ds. int d' \<le> int d"
      then show ?thesis using True by (intro disjI2 exI [of _ 0]) auto
    next
      fix k assume "k < length ds" "longest (int d) (int i) (Suc i) ds = int (Suc i + k)"
        "int d < int (ds ! k)" "\<forall>d'\<in>set ds. d' \<le> ds ! k"
      then show ?thesis using True by (intro disjI2 exI [of _ "Suc k"]) auto
    qed
  next
    case False
    from Cons.IH [of ld lf "Suc i"] show ?thesis
    proof (elim disjE exE conjE)
      assume "longest ld lf (Suc i) ds = lf" "\<forall>d'\<in>set ds. int d' \<le> ld"
      then show ?thesis using False by auto
    next
      fix k assume "k < length ds" "longest ld lf (Suc i) ds = int (Suc i + k)"
        "ld < int (ds ! k)" "\<forall>d'\<in>set ds. d' \<le> ds ! k"
      then show ?thesis using False by (intro disjI2 exI [of _ "Suc k"]) auto
    qed
  qed
qed simp

text \<open>The page in frame \<open>h\<close> is needed no later than the page in frame \<open>f\<close>.\<close>

definition needed_by :: "u64 list \<Rightarrow> u64 list \<Rightarrow> nat \<Rightarrow> nat \<Rightarrow> bool" where
  "needed_by vs fut h f \<longleftrightarrow>
     (case distance (vs ! f) fut of
        None \<Rightarrow> True
      | Some d \<Rightarrow> (case distance (vs ! h) fut of None \<Rightarrow> False | Some d' \<Rightarrow> d' \<le> d))"

lemma opt_evict_ok:
  assumes "vs \<noteq> []" "opt_curr g \<noteq> []"
  shows "\<exists>f. opt_evict vs g = Inr (int f, g) \<and> f < length vs \<and>
    (\<forall>h<length vs. needed_by vs (tl (opt_curr g)) h f)"
proof (cases "opt_scan 0 vs (tl (opt_curr g))")
  case (Inl f)
  then show ?thesis
    using opt_scan_Inl [OF Inl] assms by (intro exI [of _ f]) (auto simp: opt_evict_def needed_by_def)
next
  case (Inr ds)
  note ds = opt_scan_Inr [OF Inr]
  have "ds \<noteq> []" using ds assms(1) by auto
  then obtain k where k: "k < length ds" "longest (- 1) (- 1) 0 ds = int k" "\<forall>d\<in>set ds. d \<le> ds ! k"
    using longest_result [of "- 1" "- 1" 0 ds] by (cases ds) auto
  then show ?thesis
    using ds Inr assms by (intro exI [of _ k]) (auto simp: opt_evict_def needed_by_def)
qed

section \<open>Every algorithm meets the contract\<close>

definition fifo_ginv :: "nat \<Rightarrow> nat set \<Rightarrow> pol_globals \<Rightarrow> bool" where
  "fifo_ginv m U g \<longleftrightarrow> fifo_head g < m"

definition clock_ginv :: "nat \<Rightarrow> nat set \<Rightarrow> pol_globals \<Rightarrow> bool" where
  "clock_ginv m U g \<longleftrightarrow> clk_hand g < m \<and> length (clk_refed g) = m"

definition rand_ginv :: "nat \<Rightarrow> nat set \<Rightarrow> pol_globals \<Rightarrow> bool" where
  "rand_ginv m U g \<longleftrightarrow> True"

definition lru_ginv :: "pol_env \<Rightarrow> nat \<Rightarrow> nat set \<Rightarrow> pol_globals \<Rightarrow> bool" where
  "lru_ginv env m U g \<longleftrightarrow> good_pick (pick_node env) \<and> (\<exists>q. lru_rep m g q \<and> set q = U)"

definition opt_ginv :: "nat \<Rightarrow> nat set \<Rightarrow> pol_globals \<Rightarrow> bool" where
  "opt_ginv m U g \<longleftrightarrow> opt_head g \<noteq> [] \<and> opt_curr g \<noteq> []"

interpretation fifo_ev: evictor fifo_ref "\<lambda>m vs. fifo_evict m" fifo_ginv
  by unfold_locales (auto simp: fifo_ref_def fifo_evict_def fifo_ginv_def)

interpretation rand_ev: evictor rand_ref "\<lambda>m vs. rand_evict env m" rand_ginv for env
  by unfold_locales (auto simp: rand_ref_def rand_evict_def rand_ginv_def)

interpretation clock_ev: evictor clock_ref "\<lambda>m vs. clock_evict m" clock_ginv
proof
  show "\<exists>g'. clock_ref w g = Inr g' \<and> clock_ginv m (insert (frame_of w) U) g'"
    if "clock_ginv m U g" "frame_of w < m" for m U g w
    using that by (auto simp: clock_ref_def clock_ginv_def)
  show "\<exists>f g'. clock_evict m g = Inr (int f, g') \<and> f < m \<and> clock_ginv m ({..<m} - {f}) g'"
    if "clock_ginv m {..<m} g" "0 < m" for m g
    using that clock_loop_ok [of "clk_hand g" "clk_refed g"]
    by (auto simp: clock_evict_def clock_ginv_def)
qed

interpretation opt_ev: evictor opt_ref "\<lambda>m. opt_evict" opt_ginv
proof
  show "\<exists>g'. opt_ref w g = Inr g' \<and> opt_ginv m (insert (frame_of w) U) g'"
    if "opt_ginv m U g" for m U g w
    using that by (auto simp: opt_ref_def opt_ginv_def Let_def)
  show "\<exists>f g'. opt_evict vs g = Inr (int f, g') \<and> f < m \<and> opt_ginv m ({..<m} - {f}) g'"
    if "opt_ginv m {..<m} g" "0 < m" "length vs = m" for m g vs
    using that opt_evict_ok [of vs g] by (auto simp: opt_ginv_def)
qed

interpretation lru_ev: evictor "lru_ref env" "\<lambda>m vs. lru_evict_node" "lru_ginv env" for env
proof
  show "\<exists>g'. lru_ref env w g = Inr g' \<and> lru_ginv env m (insert (frame_of w) U) g'"
    if inv: "lru_ginv env m U g" and w: "frame_of w < m" for m U g w
  proof -
    obtain q where q: "good_pick (pick_node env)" "lru_rep m g q" "set q = U"
      using inv by (auto simp: lru_ginv_def)
    have "set (requeue (frame_of w) q) = insert (frame_of w) U" using q(3) by (auto simp: requeue_def)
    then show ?thesis using lru_ref_ok [OF q(2) w q(1)] q(1) by (auto simp: lru_ginv_def)
  qed
  show "\<exists>f g'. lru_evict_node g = Inr (int f, g') \<and> f < m \<and> lru_ginv env m ({..<m} - {f}) g'"
    if inv: "lru_ginv env m {..<m} g" and m: "0 < m" for m g
  proof -
    obtain q where q: "good_pick (pick_node env)" "lru_rep m g q" "set q = {..<m}"
      using inv by (auto simp: lru_ginv_def)
    then obtain f q' where f: "q = f # q'" using m by (cases q) auto
    have "distinct q" using q(2) by (simp add: lru_rep_def)
    then have "set q' = {..<m} - {f}" "f < m" using q(3) f by auto
    then show ?thesis using lru_evict_ok [of m g f q'] q f by (auto simp: lru_ginv_def)
  qed
qed

text \<open>The globals before any initialisation.\<close>

definition globals0 :: pol_globals where
  "globals0 = \<lparr>fifo_head = 0, clk_hand = 0, clk_refed = [], lru_head = 0, lru_tail = 0,
     lru_nodes = (\<lambda>_. None), lru_refed = [], opt_head = [], opt_curr = [], drawn = 0\<rparr>"

lemma lru_init_rep: "lru_rep m (lru_init m globals0) []"
  by (auto simp: lru_rep_def lru_nodes_ok_def lru_init_def globals0_def flags_ok_def)

lemma algs_contract:
  assumes a: "a \<in> set (algs env tracefile tv)" and m: "0 < m" and al: "good_pick (pick_node env)"
    and tr: "\<And>txt. tracefile = Some txt \<Longrightarrow> trace_refs (text_lines (MAXLINE - 1) txt) tv \<noteq> []"
      "tracefile \<noteq> None"
  obtains ginv g where "evictor (alg_ref a) (alg_evict a) ginv" "alg_init a m globals0 = Inr g" "ginv m {} g"
proof -
  obtain tx where tx: "tracefile = Some tx" using tr(2) by auto
  consider "a = \<lparr>alg_name = ''rand'', alg_init = (\<lambda>m g. Inr (rand_init m g)), alg_ref = rand_ref,
       alg_evict = (\<lambda>m vs. rand_evict env m)\<rparr>"
    | "a = \<lparr>alg_name = ''lru'', alg_init = (\<lambda>m g. Inr (lru_init m g)), alg_ref = lru_ref env,
       alg_evict = (\<lambda>m vs. lru_evict_node)\<rparr>"
    | "a = \<lparr>alg_name = ''fifo'', alg_init = (\<lambda>m g. Inr (fifo_init m g)), alg_ref = fifo_ref,
       alg_evict = (\<lambda>m vs. fifo_evict m)\<rparr>"
    | "a = \<lparr>alg_name = ''clock'', alg_init = (\<lambda>m g. Inr (clock_init m g)), alg_ref = clock_ref,
       alg_evict = (\<lambda>m vs. clock_evict m)\<rparr>"
    | "a = \<lparr>alg_name = ''opt'', alg_init = (\<lambda>m. opt_init tracefile tv), alg_ref = opt_ref,
       alg_evict = (\<lambda>m. opt_evict)\<rparr>"
    using a by (auto simp: algs_def)
  then show ?thesis
  proof cases
    case 1
    then show ?thesis
      using rand_ev.evictor_axioms [of env] by (intro that [of rand_ginv]) (auto simp: rand_ginv_def)
  next
    case 2
    then show ?thesis
      using lru_ev.evictor_axioms [of env] lru_init_rep [of m] al
      by (intro that [of "lru_ginv env"]) (auto simp: lru_ginv_def)
  next
    case 3
    then show ?thesis
      using m fifo_ev.evictor_axioms by (intro that [of fifo_ginv]) (auto simp: fifo_ginv_def fifo_init_def)
  next
    case 4
    then show ?thesis
      using m clock_ev.evictor_axioms by (intro that [of clock_ginv]) (auto simp: clock_ginv_def clock_init_def)
  next
    case 5
    then show ?thesis
      using tr(1) [OF tx] opt_ev.evictor_axioms
      by (intro that [of opt_ginv]) (auto simp: opt_ginv_def opt_init_def tx Let_def)
  qed
qed

section \<open>Properties\<close>

datatype lru_op = Ref u32 | Evict

fun run_lru :: "pol_env \<Rightarrow> lru_op list \<Rightarrow> pol_globals \<Rightarrow> (int list \<times> pol_globals) res" where
  "run_lru env [] g = Inr ([], g)"
| "run_lru env (Ref w # xs) g = bindE (lru_ref env w g) (run_lru env xs)"
| "run_lru env (Evict # xs) g =
     bindE (lru_evict_node g) (\<lambda>(f, g'). bindE (run_lru env xs g') (\<lambda>(fs, g''). Inr (f # fs, g'')))"

text \<open>The frames in the order of their last reference, the oldest first.\<close>

fun run_queue :: "lru_op list \<Rightarrow> nat list \<Rightarrow> (int list \<times> nat list) res" where
  "run_queue [] q = Inr ([], q)"
| "run_queue (Ref w # xs) q = run_queue xs (requeue (frame_of w) q)"
| "run_queue (Evict # xs) q =
     (case q of [] \<Rightarrow> Inl Assertion
      | f # q' \<Rightarrow> bindE (run_queue xs q') (\<lambda>(fs, q''). Inr (int f # fs, q'')))"

lemma lru_empty_evict: "lru_rep m g [] \<Longrightarrow> lru_evict_node g = Inl Assertion"
  by (auto simp: lru_rep_def lru_nodes_ok_def lru_evict_node_def)

lemma run_lru_queue:
  assumes "lru_rep m g q" "good_pick (pick_node env)" "\<And>w. Ref w \<in> set ops \<Longrightarrow> frame_of w < m"
  shows "case run_queue ops q of
      Inl e \<Rightarrow> run_lru env ops g = Inl e
    | Inr (fs, q') \<Rightarrow> \<exists>g'. run_lru env ops g = Inr (fs, g') \<and> lru_rep m g' q'"
  using assms(1,3)
proof (induction ops arbitrary: g q)
  case (Cons x ops)
  show ?case
  proof (cases x)
    case (Ref w)
    then obtain g' where g': "lru_ref env w g = Inr g'" "lru_rep m g' (requeue (frame_of w) q)"
      using lru_ref_ok [OF Cons.prems(1) _ assms(2)] Cons.prems(2) by auto
    have "case run_queue ops (requeue (frame_of w) q) of
          Inl e \<Rightarrow> run_lru env ops g' = Inl e
        | Inr (fs, q') \<Rightarrow> \<exists>g''. run_lru env ops g' = Inr (fs, g'') \<and> lru_rep m g'' q'"
      using Cons.IH [OF g'(2)] Cons.prems(2) by simp
    then show ?thesis
      using Ref g'(1) by (cases "run_queue ops (requeue (frame_of w) q)") auto
  next
    case Evict
    show ?thesis
    proof (cases q)
      case Nil
      then show ?thesis using Evict Cons.prems(1) lru_empty_evict by simp
    next
      case (Cons f q')
      then obtain g' where g': "lru_evict_node g = Inr (int f, g')" "lru_rep m g' q'"
        using lru_evict_ok Cons.prems(1) by blast
      have "case run_queue ops q' of
          Inl e \<Rightarrow> run_lru env ops g' = Inl e
        | Inr (fs, q') \<Rightarrow> \<exists>g''. run_lru env ops g' = Inr (fs, g'') \<and> lru_rep m g'' q'"
        using Cons.IH [OF g'(2)] Cons.prems(2) by simp
      then show ?thesis using Evict Cons g' by (cases "run_queue ops q'") auto
    qed
  qed
qed simp

text \<open>
  C30: for every sequence of references and evictions, the linked list of the LRU algorithm evicts
  the frame whose last reference lies furthest back, and an eviction fails its assertion exactly
  when no referenced frame is left.
\<close>

theorem lru_refines_queue:
  assumes "good_pick (pick_node env)" "\<And>w. Ref w \<in> set ops \<Longrightarrow> frame_of w < m"
  shows "case run_queue ops [] of
      Inl e \<Rightarrow> run_lru env ops (lru_init m globals0) = Inl e
    | Inr (fs, q) \<Rightarrow> \<exists>g. run_lru env ops (lru_init m globals0) = Inr (fs, g) \<and> lru_rep m g q"
  by (rule run_lru_queue [OF lru_init_rep assms])

definition pol_demo :: pol_env where
  "pol_demo = \<lparr>pick_node = first_fit, random = (\<lambda>_. 0)\<rparr>"

theorem lru_refines_queue_witness:
  "\<exists>g. run_lru pol_demo [Ref 0x0000, Ref 0x1000, Ref 0x0000, Evict] (lru_init 2 globals0) = Inr ([1], g)"
proof -
  have "frame_of w < 2" if "Ref w \<in> set [Ref 0x0000, Ref 0x1000, Ref 0x0000, Evict]" for w
    using that by (auto simp: frame_of_def PAGE_SHIFT_def)
  moreover have "good_pick (pick_node pol_demo)" by (simp add: pol_demo_def good_first_fit)
  ultimately show ?thesis
    using lru_refines_queue [of pol_demo "[Ref 0x0000, Ref 0x1000, Ref 0x0000, Evict]" 2]
    by (auto simp: requeue_def frame_of_def PAGE_SHIFT_def)
qed

text \<open>
  C32: the clock algorithm always returns, with the first frame from the hand on that was not
  referenced since the hand last passed, and with the frame at the hand when all were referenced;
  the hand is left on the victim.
\<close>

theorem clock_second_chance:
  assumes "length (clk_refed g) = m" "clk_hand g < m"
  shows "\<exists>j k g'. clock_evict m g = Inr (int j, g') \<and> clk_hand g' = j \<and>
    k < m \<and> j = (clk_hand g + k) mod m \<and>
    (\<forall>i<k. clk_refed g ! ((clk_hand g + i) mod m)) \<and>
    (\<not> clk_refed g ! j \<or> k = 0 \<and> (\<forall>f<m. clk_refed g ! f))"
proof (cases "\<exists>k<m. \<not> clk_refed g ! ((clk_hand g + k) mod m)")
  case True
  define k where "k = (LEAST k. k < m \<and> \<not> clk_refed g ! ((clk_hand g + k) mod m))"
  have k: "k < m" "\<not> clk_refed g ! ((clk_hand g + k) mod m)"
    using LeastI_ex [OF True] unfolding k_def by auto
  have least: "clk_refed g ! ((clk_hand g + i) mod m)" if "i < k" for i
    using not_less_Least [of i "\<lambda>k. k < m \<and> \<not> clk_refed g ! ((clk_hand g + k) mod m)"] that k(1)
    unfolding k_def by auto
  obtain refed' where "clock_loop (clk_hand g) (clk_refed g) = Inr ((clk_hand g + k) mod m, refed')"
    using clock_loop_first [of "clk_hand g" "clk_refed g" k] assms k least by auto
  then show ?thesis using assms k least by (auto simp: clock_evict_def intro!: exI [of _ k])
next
  case False
  have all: "clk_refed g ! f" if "f < m" for f
  proof -
    have "(clk_hand g + (m - clk_hand g + f) mod m) mod m = (clk_hand g + (m - clk_hand g + f)) mod m"
      by (rule mod_add_right_eq)
    also have "clk_hand g + (m - clk_hand g + f) = m + f" using assms(2) by simp
    finally show ?thesis using False that by (metis mod_add_self1 mod_less mod_less_divisor not_less0 not_gr_zero)
  qed
  then obtain refed' where "clock_loop (clk_hand g) (clk_refed g) = Inr (clk_hand g, refed')"
    using clock_loop_all [of "clk_hand g" "clk_refed g"] assms by auto
  then show ?thesis using assms all by (auto simp: clock_evict_def intro!: exI [of _ 0])
qed

theorem clock_second_chance_witness:
  "\<exists>g'. clock_evict 3 (globals0\<lparr>clk_hand := 1, clk_refed := [False, True, True]\<rparr>) = Inr (0, g') \<and> clk_hand g' = 0"
proof -
  let ?g = "globals0\<lparr>clk_hand := 1, clk_refed := [False, True, True]\<rparr>"
  obtain j k g' where r: "clock_evict 3 ?g = Inr (int j, g')" "clk_hand g' = j" "k < 3" "j = (1 + k) mod 3"
      "\<not> [False, True, True] ! j \<or> k = 0 \<and> (\<forall>f<3. [False, True, True] ! f)"
    using clock_second_chance [of ?g 3] by auto
  have "\<not> (\<forall>f<3. [False, True, True] ! f)" by (auto intro!: exI [of _ 0])
  moreover have "j = 0 \<or> j = 1 \<or> j = 2" using r(4) by auto
  ultimately have "j = 0" using r(5) by auto
  with r show ?thesis by auto
qed

text \<open>
  C31: the optimal algorithm evicts a frame whose page is needed again no sooner than the page of
  any other frame, by the references that follow the current one in the trace.
\<close>

theorem opt_evicts_furthest:
  assumes "vs \<noteq> []" "opt_curr g \<noteq> []"
  shows "\<exists>f. opt_evict vs g = Inr (int f, g) \<and> f < length vs \<and>
    (\<forall>h<length vs. needed_by vs (tl (opt_curr g)) h f)"
  by (rule opt_evict_ok [OF assms])

theorem opt_evicts_furthest_witness:
  "\<exists>f. opt_evict [0x1000, 0x2000] (globals0\<lparr>opt_curr := [0x3000, 0x1000, 0x2000]\<rparr>) =
     Inr (int f, globals0\<lparr>opt_curr := [0x3000, 0x1000, 0x2000]\<rparr>) \<and> f = 1"
proof -
  let ?g = "globals0\<lparr>opt_curr := [0x3000, 0x1000, 0x2000]\<rparr>"
  have d: "distance 0x1000 [0x1000, 0x2000] = Some 0" "distance 0x2000 [0x1000, 0x2000] = Some 1" by simp_all
  obtain f where f: "opt_evict [0x1000, 0x2000] ?g = Inr (int f, ?g)" "f < 2"
      "\<And>h. h < 2 \<Longrightarrow> needed_by [0x1000, 0x2000] [0x1000, 0x2000] h f"
    using opt_evicts_furthest [of "[0x1000, 0x2000]" ?g] by auto
  have "\<not> needed_by [0x1000, 0x2000] [0x1000, 0x2000] 1 0"
    unfolding needed_by_def by (simp only: nth_Cons_0 One_nat_def nth_Cons_Suc d) simp
  moreover have "needed_by [0x1000, 0x2000] [0x1000, 0x2000] 1 f" by (rule f(3)) simp
  ultimately have "f \<noteq> 0" by metis
  with f show ?thesis by auto
qed

end
