(* ===== verification/BB_Sim.thy ===== *)
theory BB_Sim
  imports BB_Evict BB_Types
begin

text \<open>
  The paging simulator that came before the virtual memory library:
  \<^verbatim>\<open>legacy/OldPageTable/experiment/pagetable.c\<close> and \<^verbatim>\<open>swap.c\<close> (a two level page table over a
  small physical memory, with pages swapped out to remote memory) and
  \<^verbatim>\<open>legacy/OldPageTable/vsystem.c\<close> (the replay of a reference trace). The client library it was
  written against (\<^verbatim>\<open>allocateRemoteMem\<close>, \<^verbatim>\<open>getRemoteMem\<close>, \<^verbatim>\<open>writeRemoteMem\<close>) is not in the
  repository and is a parameter.
\<close>

section \<open>Data\<close>

definition PGDIR_SHIFT :: nat where "PGDIR_SHIFT = 24"

definition PTRS_PER_PGDIR :: nat where "PTRS_PER_PGDIR = 4096"

definition PTRS_PER_PGTBL :: nat where "PTRS_PER_PGTBL = 4096"

definition SIMPAGESIZE :: nat where "SIMPAGESIZE = 4096"

definition PG_VALID :: u32 where "PG_VALID = 0x1"

definition PG_DIRTY :: u32 where "PG_DIRTY = 0x2"

definition PG_REF :: u32 where "PG_REF = 0x4"

definition PG_ONSWAP :: u32 where "PG_ONSWAP = 0x8"

definition INVALID_SWAP :: int where "INVALID_SWAP = - 1"

definition VALID_SWAP :: int where "VALID_SWAP = 1"

definition PGDIR_INDEX :: "u64 \<Rightarrow> nat" where
  "PGDIR_INDEX x = unat (ucast (drop_bit PGDIR_SHIFT x) :: u32)"

definition PGTBL_INDEX :: "u64 \<Rightarrow> nat" where
  "PGTBL_INDEX x = unat (drop_bit PAGE_SHIFT x AND 0xfff)"

record i6_ptr =
  swap_info :: int
  r_addr :: ip6_memaddr

record pgtbl_entry =
  pte_frame :: u32
  swap_off :: i6_ptr
  timestamp :: u64

text \<open>A pointer to a page table entry: the table it lies in and its index there.\<close>

type_synonym pte_ptr = "u64 \<times> nat"

record frame =
  in_use :: bool
  pte :: pte_ptr
  vaddr :: u64

record ('g, 'r) sim =
  pgdir :: "nat \<Rightarrow> u64"
  pgtbls :: "u64 \<rightharpoonup> (nat \<Rightarrow> pgtbl_entry)"
  coremap :: "frame list"
  physmem :: bytes
  hit_count :: nat
  miss_count :: nat
  ref_count :: nat
  evict_clean_count :: nat
  evict_dirty_count :: nat
  pol :: 'g
  remote :: 'r

record 'r remote_lib =
  allocateRemoteMem :: "'r \<Rightarrow> ip6_memaddr \<times> 'r"
  getRemoteMem :: "ip6_memaddr \<Rightarrow> 'r \<Rightarrow> bytes \<times> 'r"
  writeRemoteMem :: "bytes \<Rightarrow> ip6_memaddr \<Rightarrow> 'r \<Rightarrow> 'r"

text \<open>
  What the simulator runs with: the number of frames, \<^verbatim>\<open>posix_memalign\<close> (\<open>None\<close> when it fails), the
  contents of fresh memory, the client library, and the function pointers of the algorithm.
\<close>

record ('g, 'r) sim_env =
  memsize :: nat
  memalign :: "(u64 \<rightharpoonup> (nat \<Rightarrow> pgtbl_entry)) \<Rightarrow> u64 option"
  garbage :: "nat \<Rightarrow> pgtbl_entry"
  rlib :: "'r remote_lib"
  ref_fcn :: "u32 \<Rightarrow> 'g \<Rightarrow> 'g res"
  evict_fcn :: "nat \<Rightarrow> u64 list \<Rightarrow> 'g \<Rightarrow> (int \<times> 'g) res"

definition pte_read :: "('g, 'r) sim \<Rightarrow> pte_ptr \<Rightarrow> pgtbl_entry res" where
  "pte_read s p =
     (case pgtbls s (fst p) of
        None \<Rightarrow> Inl Segv
      | Some tb \<Rightarrow> if snd p < PTRS_PER_PGTBL then Inr (tb (snd p)) else Inl Segv)"

definition pte_upd :: "('g, 'r) sim \<Rightarrow> pte_ptr \<Rightarrow> (pgtbl_entry \<Rightarrow> pgtbl_entry) \<Rightarrow> ('g, 'r) sim res" where
  "pte_upd s p f =
     bindE (pte_read s p) (\<lambda>e.
       Inr (s\<lparr>pgtbls := (pgtbls s)(fst p \<mapsto> (the (pgtbls s (fst p)))(snd p := f e))\<rparr>))"

section \<open>Swapping pages to remote memory\<close>

definition swap_pagein :: "('g, 'r) sim_env \<Rightarrow> nat \<Rightarrow> i6_ptr \<Rightarrow> ('g, 'r) sim \<Rightarrow> ('g, 'r) sim res" where
  "swap_pagein env frame remoteMemory s =
     (let (bs, r) = getRemoteMem (rlib env) (r_addr remoteMemory) (remote s);
          frame_ptr = frame * SIMPAGESIZE in
      if SIMPAGESIZE \<le> length bs \<and> frame_ptr + SIMPAGESIZE \<le> length (physmem s)
      then Inr (s\<lparr>physmem := blit (physmem s) frame_ptr (take SIMPAGESIZE bs), remote := r\<rparr>)
      else Inl Segv)"

definition swap_pageout ::
  "('g, 'r) sim_env \<Rightarrow> nat \<Rightarrow> i6_ptr \<Rightarrow> ('g, 'r) sim \<Rightarrow> (i6_ptr \<times> ('g, 'r) sim) res" where
  "swap_pageout env frame swap_offset s =
     (let (sw, r) =
        (if swap_info swap_offset = INVALID_SWAP
         then let (a, r) = allocateRemoteMem (rlib env) (remote s)
              in (swap_offset\<lparr>r_addr := a, swap_info := VALID_SWAP\<rparr>, r)
         else (swap_offset, remote s))
      in if swap_info sw = INVALID_SWAP then Inl Assertion
         else let frame_ptr = frame * SIMPAGESIZE
              in Inr (sw, s\<lparr>remote := writeRemoteMem (rlib env) (drop frame_ptr (physmem s)) (r_addr sw) r\<rparr>))"

section \<open>The page table\<close>

text \<open>Writing the page of a victim back if it is dirty, and marking it as gone.\<close>

definition evict_page :: "('g, 'r) sim_env \<Rightarrow> nat \<Rightarrow> ('g, 'r) sim \<Rightarrow> ('g, 'r) sim res" where
  "evict_page env f s =
     (let victim = pte (coremap s ! f) in
      bindE (pte_read s victim) (\<lambda>v.
        if pte_frame v AND PG_DIRTY \<noteq> 0 then
          bindE (swap_pageout env f (swap_off v) s) (\<lambda>(sw, s1).
          bindE (pte_upd s1 victim (swap_off_update (\<lambda>_. sw))) (\<lambda>s2.
            if swap_info sw = INVALID_SWAP then Inl Assertion
            else
              bindE (pte_upd s2 victim (\<lambda>e. e\<lparr>pte_frame := (pte_frame e AND NOT PG_VALID) OR PG_ONSWAP\<rparr>)) (\<lambda>s3.
                Inr (s3\<lparr>evict_dirty_count := Suc (evict_dirty_count s3)\<rparr>))))
        else
          bindE (pte_upd s victim (\<lambda>e. e\<lparr>pte_frame := pte_frame e AND NOT PG_VALID\<rparr>)) (\<lambda>s2.
            Inr (s2\<lparr>evict_clean_count := Suc (evict_clean_count s2)\<rparr>))))"

definition set_frame :: "nat \<Rightarrow> (frame \<Rightarrow> frame) \<Rightarrow> ('g, 'r) sim \<Rightarrow> ('g, 'r) sim" where
  "set_frame f h s = s\<lparr>coremap := (coremap s)[f := h (coremap s ! f)]\<rparr>"

definition allocate_frame ::
  "('g, 'r) sim_env \<Rightarrow> pte_ptr \<Rightarrow> ('g, 'r) sim \<Rightarrow> (nat \<times> ('g, 'r) sim) res" where
  "allocate_frame env p s =
     bindE
       (case find (\<lambda>i. \<not> in_use (coremap s ! i)) [0..<memsize env] of
          Some i \<Rightarrow> Inr (i, s)
        | None \<Rightarrow>
            bindE (evict_fcn env (memsize env) (map vaddr (coremap s)) (pol s)) (\<lambda>(fr, g).
              if 0 \<le> fr \<and> fr < int (length (coremap s))
              then bindE (evict_page env (nat fr) (s\<lparr>pol := g\<rparr>)) (\<lambda>s1. Inr (nat fr, s1))
              else Inl Segv))
       (\<lambda>(f, s1). Inr (f, set_frame f (\<lambda>c. c\<lparr>in_use := True, pte := p\<rparr>) s1))"

definition init_pagetable :: "('g, 'r) sim \<Rightarrow> ('g, 'r) sim" where
  "init_pagetable s = s\<lparr>pgdir := (\<lambda>i. if i < PTRS_PER_PGDIR then 0 else pgdir s i)\<rparr>"

definition init_second_level :: "('g, 'r) sim_env \<Rightarrow> ('g, 'r) sim \<Rightarrow> (u64 \<times> ('g, 'r) sim) res" where
  "init_second_level env s =
     (case memalign env (pgtbls s) of
        None \<Rightarrow> Inl Exit
      | Some b \<Rightarrow>
          let pgtbl = (\<lambda>i. (garbage env i)\<lparr>pte_frame := 0,
                swap_off := (swap_off (garbage env i))\<lparr>swap_info := INVALID_SWAP\<rparr>\<rparr>)
          in Inr (b OR ucast PG_VALID, s\<lparr>pgtbls := (pgtbls s)(b \<mapsto> pgtbl)\<rparr>))"

definition init_frame :: "nat \<Rightarrow> u64 \<Rightarrow> ('g, 'r) sim \<Rightarrow> ('g, 'r) sim res" where
  "init_frame frame va s =
     (let mem_ptr = frame * SIMPAGESIZE; vaddr_ptr = mem_ptr + 4 in
      if mem_ptr + SIMPAGESIZE \<le> length (physmem s)
      then Inr (s\<lparr>physmem := blit (blit (physmem s) mem_ptr (replicate SIMPAGESIZE 0)) vaddr_ptr (le_bytes 8 va)\<rparr>)
      else Inl Segv)"

definition find_physpage ::
  "('g, 'r) sim_env \<Rightarrow> u64 \<Rightarrow> char \<Rightarrow> ('g, 'r) sim \<Rightarrow> (nat \<times> ('g, 'r) sim) res" where
  "find_physpage env va type s =
     (let idx = PGDIR_INDEX va in
      if PTRS_PER_PGDIR \<le> idx then Inl Segv
      else
        bindE (if pgdir s idx = 0
               then bindE (init_second_level env s) (\<lambda>(pde, s1). Inr (s1\<lparr>pgdir := (pgdir s1)(idx := pde)\<rparr>))
               else Inr s) (\<lambda>s1.
        let p = (pgdir s1 idx - 1, PGTBL_INDEX va) in
        bindE (pte_read s1 p) (\<lambda>e.
        bindE
          (if pte_frame e AND PG_VALID = 0 \<and> pte_frame e AND PG_ONSWAP = 0 then
             bindE (allocate_frame env p (s1\<lparr>miss_count := Suc (miss_count s1)\<rparr>)) (\<lambda>(f, s2).
             bindE (pte_upd s2 p (pte_frame_update (\<lambda>_. push_bit PAGE_SHIFT (of_nat f)))) (\<lambda>s3.
             bindE (init_frame f va s3) (\<lambda>s4.
             bindE (pte_upd s4 p (pte_frame_update (\<lambda>w. w OR PG_DIRTY))) (\<lambda>s5.
               Inr (set_frame f (vaddr_update (\<lambda>_. page_addr va)) s5)))))
           else if pte_frame e AND PG_VALID = 0 \<and> pte_frame e AND PG_ONSWAP \<noteq> 0 then
             bindE (allocate_frame env p (s1\<lparr>miss_count := Suc (miss_count s1)\<rparr>)) (\<lambda>(f, s2).
             bindE (pte_read s2 p) (\<lambda>e2.
             bindE (swap_pagein env f (swap_off e2) s2) (\<lambda>s3.
             bindE (pte_upd s3 p (pte_frame_update (\<lambda>_. push_bit PAGE_SHIFT (of_nat f)))) (\<lambda>s4.
             bindE (pte_upd s4 p (pte_frame_update (\<lambda>w. w AND NOT PG_DIRTY))) (\<lambda>s5.
             bindE (pte_upd s5 p (pte_frame_update (\<lambda>w. w OR PG_ONSWAP))) (\<lambda>s6.
               Inr (set_frame f (vaddr_update (\<lambda>_. page_addr va)) s6)))))))
           else Inr (s1\<lparr>hit_count := Suc (hit_count s1)\<rparr>)) (\<lambda>s7.
        bindE (pte_upd (s7\<lparr>ref_count := Suc (ref_count s7)\<rparr>) p (pte_frame_update (\<lambda>w.
            let w1 = (w OR PG_VALID) OR PG_REF
            in if type = CHR ''M'' \<or> type = CHR ''S'' then w1 OR PG_DIRTY else w1))) (\<lambda>s8.
        bindE (pte_read s8 p) (\<lambda>e8.
        bindE (ref_fcn env (pte_frame e8) (pol s8)) (\<lambda>g.
          Inr (frame_of (pte_frame e8) * SIMPAGESIZE, s8\<lparr>pol := g\<rparr>))))))))"

section \<open>Replaying a trace\<close>

definition access_mem :: "('g, 'r) sim_env \<Rightarrow> char \<Rightarrow> u64 \<Rightarrow> ('g, 'r) sim \<Rightarrow> ('g, 'r) sim res" where
  "access_mem env type va s =
     bindE (find_physpage env va type s) (\<lambda>(memptr, s1).
       if memptr + 12 \<le> length (physmem s1) then
         if type = CHR ''S'' \<or> type = CHR ''M'' then
           let version = le_word (slice (physmem s1) memptr 4) :: u32
           in Inr (s1\<lparr>physmem := blit (physmem s1) memptr (le_bytes 4 (version + 1))\<rparr>)
         else Inr s1
       else Inl Segv)"

fun run_refs :: "('g, 'r) sim_env \<Rightarrow> (char \<times> u64) list \<Rightarrow> ('g, 'r) sim \<Rightarrow> ('g, 'r) sim res" where
  "run_refs env [] s = Inr s"
| "run_refs env ((type, va) # rs) s = bindE (access_mem env type va s) (run_refs env rs)"

definition replay_trace ::
  "('g, 'r) sim_env \<Rightarrow> string \<Rightarrow> char \<Rightarrow> ('g, 'r) sim \<Rightarrow> ('g, 'r) sim res" where
  "replay_trace env txt type s = run_refs env (trace_refs (text_lines (MAXLINE - 1) txt) (type, 0)) s"

text \<open>
  \<^verbatim>\<open>main\<close> of \<^verbatim>\<open>vsystem.c\<close> after its options were read: \<open>cm0\<close> and \<open>pm0\<close> are the contents of the two
  fresh arrays, \<open>r0\<close> the remote memory. The algorithm is looked up only if one was named.
\<close>

definition sim_start :: "frame list \<Rightarrow> bytes \<Rightarrow> 'r \<Rightarrow> 'g \<Rightarrow> ('g, 'r) sim" where
  "sim_start cm0 pm0 r0 g =
     init_pagetable \<lparr>pgdir = (\<lambda>_. 0), pgtbls = (\<lambda>_. None), coremap = cm0, physmem = pm0, hit_count = 0,
       miss_count = 0, ref_count = 0, evict_clean_count = 0, evict_dirty_count = 0, pol = g, remote = r0\<rparr>"

definition sim_main ::
  "(pol_globals, 'r) sim_env \<Rightarrow> pol_env \<Rightarrow> string \<Rightarrow> char \<times> u64 \<Rightarrow> string option \<Rightarrow> frame list \<Rightarrow> bytes \<Rightarrow> 'r \<Rightarrow>
   (pol_globals, 'r) sim res" where
  "sim_main env penv txt tv replacement_alg cm0 pm0 r0 =
     (case replacement_alg of
        None \<Rightarrow> Inl Exit
      | Some nm \<Rightarrow>
          bindE (select_alg (algs penv (Some txt) tv) nm) (\<lambda>a.
          bindE (alg_init a (memsize env) globals0) (\<lambda>g.
            replay_trace (env\<lparr>ref_fcn := alg_ref a, evict_fcn := alg_evict a\<rparr>) txt (fst tv)
              (sim_start cm0 pm0 r0 g))))"

section \<open>The flags and the frame number of an entry\<close>

definition is_valid :: "pgtbl_entry \<Rightarrow> bool" where "is_valid e \<longleftrightarrow> bit (pte_frame e) 0"

definition is_dirty :: "pgtbl_entry \<Rightarrow> bool" where "is_dirty e \<longleftrightarrow> bit (pte_frame e) 1"

definition on_swap :: "pgtbl_entry \<Rightarrow> bool" where "on_swap e \<longleftrightarrow> bit (pte_frame e) 3"

abbreviation frame_no :: "pgtbl_entry \<Rightarrow> nat" where "frame_no e \<equiv> frame_of (pte_frame e)"

lemmas flag_defs = is_valid_def is_dirty_def on_swap_def
lemmas pg_defs = PG_VALID_def PG_DIRTY_def PG_REF_def PG_ONSWAP_def

lemma pg_tests:
  "pte_frame e AND PG_VALID = 0 \<longleftrightarrow> \<not> is_valid e"
  "pte_frame e AND PG_DIRTY = 0 \<longleftrightarrow> \<not> is_dirty e"
  "pte_frame e AND PG_ONSWAP = 0 \<longleftrightarrow> \<not> on_swap e"
  using and_exp_eq_0_iff_not_bit [of "pte_frame e" 0] and_exp_eq_0_iff_not_bit [of "pte_frame e" 1]
    and_exp_eq_0_iff_not_bit [of "pte_frame e" 3]
  by (simp_all add: flag_defs pg_defs)

lemma pg_bits: "bit PG_VALID n \<longleftrightarrow> n = 0" "bit PG_DIRTY n \<longleftrightarrow> n = 1" "bit PG_REF n \<longleftrightarrow> n = 2" "bit PG_ONSWAP n \<longleftrightarrow> n = 3"
proof -
  have e: "PG_VALID = 2 ^ 0" "PG_DIRTY = 2 ^ 1" "PG_REF = 2 ^ 2" "PG_ONSWAP = 2 ^ 3" by (simp_all add: pg_defs)
  have b: "bit (2 ^ m :: u32) n \<longleftrightarrow> m < 32 \<and> n = m" for m by (auto simp: bit_exp_iff)
  show "bit PG_VALID n \<longleftrightarrow> n = 0" "bit PG_DIRTY n \<longleftrightarrow> n = 1" "bit PG_REF n \<longleftrightarrow> n = 2" "bit PG_ONSWAP n \<longleftrightarrow> n = 3"
    unfolding e b by simp_all
qed

lemma frame_of_cong: "(\<And>n. 12 \<le> n \<Longrightarrow> bit v n = bit w n) \<Longrightarrow> frame_of v = frame_of w"
  unfolding frame_of_def PAGE_SHIFT_def
  by (rule arg_cong [where f = unat], rule bit_eqI) (simp add: bit_simps)

lemma frame_of_flags [simp]:
  "frame_of (w OR PG_VALID) = frame_of w" "frame_of (w OR PG_DIRTY) = frame_of w"
  "frame_of (w OR PG_REF) = frame_of w" "frame_of (w OR PG_ONSWAP) = frame_of w"
  "frame_of (w AND NOT PG_VALID) = frame_of w" "frame_of (w AND NOT PG_DIRTY) = frame_of w"
  by (rule frame_of_cong; simp add: bit_simps pg_bits; auto dest: bit_imp_le_length)+

lemma frame_of_shift [simp]: "f < 2 ^ 20 \<Longrightarrow> frame_of (push_bit PAGE_SHIFT (of_nat f)) = f"
proof -
  assume f: "f < 2 ^ 20"
  have "drop_bit 12 (push_bit 12 (of_nat f :: u32)) = of_nat f"
  proof (rule bit_word_eqI)
    fix n assume "n < LENGTH(32)"
    moreover have "\<not> bit f n" if "20 \<le> n" using f that by (metis bit_take_bit_iff not_less take_bit_nat_eq_self)
    ultimately show "bit (drop_bit 12 (push_bit 12 (of_nat f :: u32))) n \<longleftrightarrow> bit (of_nat f :: u32) n"
      by (force simp: bit_simps not_less)
  qed
  moreover have "f < 2 ^ 32" using f by simp
  ultimately show ?thesis by (simp add: frame_of_def PAGE_SHIFT_def unat_of_nat)
qed

lemma shift_flags [simp]: "n < 12 \<Longrightarrow> \<not> bit (push_bit PAGE_SHIFT (w :: u32)) n"
  by (simp add: bit_simps PAGE_SHIFT_def)

section \<open>Pages, frames and swap: the invariant\<close>

text \<open>
  A page is named by its two indices. \<open>V\<close> gives the entry of a page, \<open>R\<close> the contents of remote
  memory, \<open>K\<close> the page a frame holds, \<open>pm\<close> is physical memory.
\<close>

type_synonym page = "nat \<times> nat"

definition page_at :: "bytes \<Rightarrow> nat \<Rightarrow> bytes" where
  "page_at pm f = slice pm (f * SIMPAGESIZE) SIMPAGESIZE"

definition pages_ok ::
  "nat \<Rightarrow> (page \<rightharpoonup> pgtbl_entry) \<Rightarrow> (ip6_memaddr \<rightharpoonup> bytes) \<Rightarrow> (nat \<rightharpoonup> page) \<Rightarrow> bytes \<Rightarrow> bool" where
  "pages_ok m V R K pm \<longleftrightarrow>
     length pm = m * SIMPAGESIZE \<and>
     (\<forall>k e. V k = Some e \<longrightarrow> is_valid e \<longrightarrow> frame_no e < m \<and> K (frame_no e) = Some k) \<and>
     (\<forall>f k. K f = Some k \<longrightarrow> f < m \<and> (\<exists>e. V k = Some e \<and> is_valid e \<and> frame_no e = f)) \<and>
     (\<forall>k e. V k = Some e \<longrightarrow> (on_swap e \<longleftrightarrow> swap_info (swap_off e) \<noteq> INVALID_SWAP)) \<and>
     (\<forall>k e. V k = Some e \<longrightarrow> on_swap e \<longrightarrow> R (r_addr (swap_off e)) \<noteq> None) \<and>
     (\<forall>k e k' e'. V k = Some e \<longrightarrow> V k' = Some e' \<longrightarrow> on_swap e \<longrightarrow> on_swap e' \<longrightarrow>
        r_addr (swap_off e) = r_addr (swap_off e') \<longrightarrow> k = k') \<and>
     (\<forall>k e. V k = Some e \<longrightarrow> is_valid e \<longrightarrow> \<not> is_dirty e \<longrightarrow>
        on_swap e \<and> R (r_addr (swap_off e)) = Some (page_at pm (frame_no e)))"

text \<open>The contents of a page, wherever it is.\<close>

definition contents ::
  "(page \<rightharpoonup> pgtbl_entry) \<Rightarrow> (ip6_memaddr \<rightharpoonup> bytes) \<Rightarrow> bytes \<Rightarrow> page \<rightharpoonup> bytes" where
  "contents V R pm k =
     (case V k of
        None \<Rightarrow> None
      | Some e \<Rightarrow> if is_valid e then Some (page_at pm (frame_no e))
                 else if on_swap e then R (r_addr (swap_off e)) else None)"

lemma pages_okD:
  assumes "pages_ok m V R K pm"
  shows "length pm = m * SIMPAGESIZE"
    and "V k = Some e \<Longrightarrow> is_valid e \<Longrightarrow> frame_no e < m"
    and "V k = Some e \<Longrightarrow> is_valid e \<Longrightarrow> K (frame_no e) = Some k"
    and "K f = Some k \<Longrightarrow> f < m"
    and "K f = Some k \<Longrightarrow> \<exists>e. V k = Some e \<and> is_valid e \<and> frame_no e = f"
    and "V k = Some e \<Longrightarrow> on_swap e \<longleftrightarrow> swap_info (swap_off e) \<noteq> INVALID_SWAP"
    and "V k = Some e \<Longrightarrow> on_swap e \<Longrightarrow> R (r_addr (swap_off e)) \<noteq> None"
    and "V k = Some e \<Longrightarrow> V k' = Some e' \<Longrightarrow> on_swap e \<Longrightarrow> on_swap e' \<Longrightarrow>
        r_addr (swap_off e) = r_addr (swap_off e') \<Longrightarrow> k = k'"
    and "V k = Some e \<Longrightarrow> is_valid e \<Longrightarrow> \<not> is_dirty e \<Longrightarrow> on_swap e"
    and "V k = Some e \<Longrightarrow> is_valid e \<Longrightarrow> \<not> is_dirty e \<Longrightarrow> R (r_addr (swap_off e)) = Some (page_at pm (frame_no e))"
  using assms unfolding pages_ok_def by blast+

text \<open>A clean page is dropped.\<close>

lemma evict_clean_ok:
  assumes ok: "pages_ok m V R K pm" and K: "K f = Some k" and e: "V k = Some e" "\<not> is_dirty e"
    and e': "\<not> is_valid e'" "on_swap e' \<longleftrightarrow> on_swap e" "swap_off e' = swap_off e"
  shows "pages_ok m (V(k \<mapsto> e')) R (K(f := None)) pm" "contents (V(k \<mapsto> e')) R pm = contents V R pm"
proof -
  note D = pages_okD [OF ok]
  have v: "is_valid e" "frame_no e = f" using D(5) [OF K] e(1) by auto
  have other: "frame_no c \<noteq> f" if "V j = Some c" "is_valid c" "j \<noteq> k" for j c
    using D(3) [OF that(1,2)] K that(3) by auto
  show "pages_ok m (V(k \<mapsto> e')) R (K(f := None)) pm"
    unfolding pages_ok_def
  proof (intro conjI allI impI)
    fix j c assume "(V(k \<mapsto> e')) j = Some c" "is_valid c"
    then have *: "V j = Some c" "is_valid c" "j \<noteq> k" using e'(1) by (auto split: if_splits)
    show "frame_no c < m" by (rule D(2) [OF *(1,2)])
    show "(K(f := None)) (frame_no c) = Some j" using D(3) [OF *(1,2)] other [OF *] by simp
  next
    fix g j assume "(K(f := None)) g = Some j"
    then have *: "K g = Some j" "g \<noteq> f" by (auto split: if_splits)
    show "g < m" by (rule D(4) [OF *(1)])
    have "j \<noteq> k" using D(5) [OF *(1)] e(1) v *(2) by auto
    then show "\<exists>c. (V(k \<mapsto> e')) j = Some c \<and> is_valid c \<and> frame_no c = g" using D(5) [OF *(1)] by simp
  next
    fix j c assume "(V(k \<mapsto> e')) j = Some c" "is_valid c" "\<not> is_dirty c"
    then have *: "V j = Some c" using e'(1) by (auto split: if_splits)
    show "on_swap c" "R (r_addr (swap_off c)) = Some (page_at pm (frame_no c))"
      using D(9,10) [OF *] \<open>is_valid c\<close> \<open>\<not> is_dirty c\<close> by blast+
  qed (use D e e' in \<open>auto split: if_splits\<close>)
  show "contents (V(k \<mapsto> e')) R pm = contents V R pm"
  proof
    fix j
    show "contents (V(k \<mapsto> e')) R pm j = contents V R pm j"
      using D(9,10) [OF e(1) v(1) e(2)] e e' v by (auto simp: contents_def)
  qed
qed

text \<open>A dirty page is written to its place in remote memory, which is new or already its own.\<close>

lemma evict_dirty_ok:
  assumes ok: "pages_ok m V R K pm" and K: "K f = Some k" and e: "V k = Some e"
    and e': "\<not> is_valid e'" "on_swap e'" "swap_info (swap_off e') \<noteq> INVALID_SWAP"
    and a: "if on_swap e then swap_off e' = swap_off e else R (r_addr (swap_off e')) = None"
    and R': "R' = R(r_addr (swap_off e') \<mapsto> page_at pm f)"
  shows "pages_ok m (V(k \<mapsto> e')) R' (K(f := None)) pm" "contents (V(k \<mapsto> e')) R' pm = contents V R pm"
proof -
  note D = pages_okD [OF ok]
  have v: "is_valid e" "frame_no e = f" using D(5) [OF K] e(1) by auto
  have other: "frame_no c \<noteq> f" if "V j = Some c" "is_valid c" "j \<noteq> k" for j c
    using D(3) [OF that(1,2)] K that(3) by auto
  have addr: "r_addr (swap_off c) \<noteq> r_addr (swap_off e')" if "V j = Some c" "on_swap c" "j \<noteq> k" for j c
    using D(7) [OF that(1,2)] D(8) [OF that(1) e that(2)] a that(3) by (auto split: if_splits)
  show "pages_ok m (V(k \<mapsto> e')) R' (K(f := None)) pm"
    unfolding pages_ok_def
  proof (intro conjI allI impI)
    fix j c assume "(V(k \<mapsto> e')) j = Some c" "is_valid c"
    then have *: "V j = Some c" "is_valid c" "j \<noteq> k" using e'(1) by (auto split: if_splits)
    show "frame_no c < m" by (rule D(2) [OF *(1,2)])
    show "(K(f := None)) (frame_no c) = Some j" using D(3) [OF *(1,2)] other [OF *] by simp
  next
    fix g j assume "(K(f := None)) g = Some j"
    then have *: "K g = Some j" "g \<noteq> f" by (auto split: if_splits)
    show "g < m" by (rule D(4) [OF *(1)])
    have "j \<noteq> k" using D(5) [OF *(1)] e(1) v *(2) by auto
    then show "\<exists>c. (V(k \<mapsto> e')) j = Some c \<and> is_valid c \<and> frame_no c = g" using D(5) [OF *(1)] by simp
  next
    fix j c assume "(V(k \<mapsto> e')) j = Some c" "is_valid c" "\<not> is_dirty c"
    then have *: "V j = Some c" "j \<noteq> k" using e'(1) by (auto split: if_splits)
    show "on_swap c" "R' (r_addr (swap_off c)) = Some (page_at pm (frame_no c))"
      using D(9,10) [OF *(1)] addr [OF *(1) _ *(2)] \<open>is_valid c\<close> \<open>\<not> is_dirty c\<close> by (auto simp: R')
  next
    fix j c j' c'
    assume "(V(k \<mapsto> e')) j = Some c" "(V(k \<mapsto> e')) j' = Some c'" "on_swap c" "on_swap c'"
      "r_addr (swap_off c) = r_addr (swap_off c')"
    then show "j = j'"
      using addr [of j c] addr [of j' c'] D(8) [of j c j' c'] by (cases "j = k"; cases "j' = k") auto
  qed (use D e e' in \<open>auto simp: R' split: if_splits\<close>)
  show "contents (V(k \<mapsto> e')) R' pm = contents V R pm"
  proof
    fix j
    show "contents (V(k \<mapsto> e')) R' pm j = contents V R pm j"
      using addr e e' v by (auto simp: contents_def R' split: option.splits)
  qed
qed

lemma page_at_blit:
  assumes "length pm = m * SIMPAGESIZE" "f < m" "g < m" "length bs = SIMPAGESIZE"
  shows "page_at (blit pm (f * SIMPAGESIZE) bs) g = (if g = f then bs else page_at pm g)"
proof -
  have fit: "i * SIMPAGESIZE + SIMPAGESIZE \<le> length pm" if "i < m" for i
    using that assms(1) mult_le_mono1 [of "Suc i" m SIMPAGESIZE] by simp
  show ?thesis
  proof (cases "g = f")
    case True
    then show ?thesis using fit [OF assms(2)] assms(4) by (simp add: page_at_def slice_blit_same)
  next
    case False
    then have "g * SIMPAGESIZE + SIMPAGESIZE \<le> f * SIMPAGESIZE \<or> f * SIMPAGESIZE + SIMPAGESIZE \<le> g * SIMPAGESIZE"
      using mult_le_mono1 [of "Suc g" f SIMPAGESIZE] mult_le_mono1 [of "Suc f" g SIMPAGESIZE]
      by (cases "g < f") auto
    with False show ?thesis
      using fit [OF assms(2)] fit [OF assms(3)] assms(4) by (simp add: page_at_def slice_blit_other)
  qed
qed

text \<open>
  A page that was not in memory is put into a free frame, or the page in a frame is changed or
  marked.
\<close>

lemma place_ok:
  assumes ok: "pages_ok m V R K pm" and f: "f < m" and e: "V k = Some e"
    and K: "K f = None \<and> \<not> is_valid e \<or> K f = Some k"
    and e': "is_valid e'" "frame_no e' = f" "swap_off e' = swap_off e" "on_swap e' \<longleftrightarrow> on_swap e"
    and len: "length bs = SIMPAGESIZE"
    and clean: "is_dirty e' \<or> on_swap e \<and> R (r_addr (swap_off e)) = Some bs"
  shows "pages_ok m (V(k \<mapsto> e')) R (K(f \<mapsto> k)) (blit pm (f * SIMPAGESIZE) bs)"
    and "contents (V(k \<mapsto> e')) R (blit pm (f * SIMPAGESIZE) bs) = (contents V R pm)(k \<mapsto> bs)"
proof -
  note D = pages_okD [OF ok]
  let ?pm = "blit pm (f * SIMPAGESIZE) bs"
  have fit: "f * SIMPAGESIZE + SIMPAGESIZE \<le> length pm"
    using f D(1) mult_le_mono1 [of "Suc f" m SIMPAGESIZE] by simp
  have pg: "page_at ?pm g = (if g = f then bs else page_at pm g)" if "g < m" for g
    by (rule page_at_blit [OF D(1) f that len])
  have other: "frame_no c \<noteq> f" if "V j = Some c" "is_valid c" "j \<noteq> k" for j c
    using D(3) [OF that(1,2)] K that(3) by auto
  show "pages_ok m (V(k \<mapsto> e')) R (K(f \<mapsto> k)) ?pm"
    unfolding pages_ok_def
  proof (intro conjI allI impI)
    fix j c assume *: "(V(k \<mapsto> e')) j = Some c" "is_valid c"
    show "frame_no c < m" using * f e'(2) D(2) by (auto split: if_splits)
    show "(K(f \<mapsto> k)) (frame_no c) = Some j" using * e'(2) D(3) other by (auto split: if_splits)
  next
    fix g j assume *: "(K(f \<mapsto> k)) g = Some j"
    show "g < m" using * f D(4) by (auto split: if_splits)
    show "\<exists>c. (V(k \<mapsto> e')) j = Some c \<and> is_valid c \<and> frame_no c = g"
    proof (cases "g = f")
      case True
      then show ?thesis using * e' by auto
    next
      case False
      then have "K g = Some j" using * by simp
      moreover from this have "j \<noteq> k" using False K D(5) [of g k] D(5) [of f k] e by auto
      ultimately show ?thesis using D(5) by simp
    qed
  next
    fix j c assume *: "(V(k \<mapsto> e')) j = Some c" "is_valid c" "\<not> is_dirty c"
    show "on_swap c" using * e' clean D(9) by (auto split: if_splits)
    show "R (r_addr (swap_off c)) = Some (page_at ?pm (frame_no c))"
      using * e' clean D(2,10) other pg f by (auto split: if_splits)
  next
    fix j c j' c'
    assume "(V(k \<mapsto> e')) j = Some c" "(V(k \<mapsto> e')) j' = Some c'" "on_swap c" "on_swap c'"
      "r_addr (swap_off c) = r_addr (swap_off c')"
    then have "V j = Some (if j = k then e else c)" "V j' = Some (if j' = k then e else c')"
      "on_swap (if j = k then e else c)" "on_swap (if j' = k then e else c')"
      "r_addr (swap_off (if j = k then e else c)) = r_addr (swap_off (if j' = k then e else c'))"
      using e e'(3,4) by (auto split: if_splits)
    then show "j = j'" by (rule D(8))
  qed (use D e e' fit len in \<open>auto split: if_splits\<close>)
  show "contents (V(k \<mapsto> e')) R ?pm = (contents V R pm)(k \<mapsto> bs)"
  proof
    fix j
    show "contents (V(k \<mapsto> e')) R ?pm j = ((contents V R pm)(k \<mapsto> bs)) j"
      using e' pg f D(2) other by (auto simp: contents_def split: option.splits)
  qed
qed

text \<open>A new second level table: its pages have never been used.\<close>

lemma extend_ok:
  assumes ok: "pages_ok m V R K pm"
    and old: "\<And>k e. V k = Some e \<Longrightarrow> V' k = Some e"
    and new: "\<And>k e. V' k = Some e \<Longrightarrow> V k = None \<Longrightarrow>
        \<not> is_valid e \<and> \<not> on_swap e \<and> swap_info (swap_off e) = INVALID_SWAP"
  shows "pages_ok m V' R K pm" "contents V' R pm = contents V R pm"
proof -
  note D = pages_okD [OF ok]
  have *: "V k = Some e" if "V' k = Some e" "is_valid e \<or> on_swap e \<or> swap_info (swap_off e) \<noteq> INVALID_SWAP" for k e
  proof (cases "V k")
    case None
    then show ?thesis using new [OF that(1) None] that(2) by blast
  next
    case (Some c)
    then show ?thesis using old [OF Some] that(1) by simp
  qed
  show "pages_ok m V' R K pm"
    unfolding pages_ok_def
  proof (intro conjI allI impI)
    fix f k assume "K f = Some k"
    then show "f < m" "\<exists>e. V' k = Some e \<and> is_valid e \<and> frame_no e = f" using D(4,5) old by blast+
  next
    fix k e assume "V' k = Some e"
    then show "on_swap e \<longleftrightarrow> swap_info (swap_off e) \<noteq> INVALID_SWAP" using * D(6) by blast
  next
    fix j c j' c' assume a: "V' j = Some c" "V' j' = Some c'" "on_swap c" "on_swap c'"
      "r_addr (swap_off c) = r_addr (swap_off c')"
    then have "V j = Some c" "V j' = Some c'" using * by blast+
    then show "j = j'" using D(8) a by blast
  next
    fix k e assume a: "V' k = Some e" "is_valid e"
    then have b: "V k = Some e" using * by blast
    show "frame_no e < m" "K (frame_no e) = Some k" using D(2,3) [OF b a(2)] by blast+
    show "on_swap e" "R (r_addr (swap_off e)) = Some (page_at pm (frame_no e))" if "\<not> is_dirty e"
      using D(9,10) [OF b a(2) that] by blast+
  next
    fix k e assume a: "V' k = Some e" "on_swap e"
    then have "V k = Some e" using * by blast
    then show "R (r_addr (swap_off e)) \<noteq> None" using D(7) a(2) by blast
  qed (rule D(1))
  show "contents V' R pm = contents V R pm"
  proof
    fix k
    show "contents V' R pm k = contents V R pm k"
    proof (cases "V k")
      case None
      then show ?thesis using new [of k] by (cases "V' k") (auto simp: contents_def)
    next
      case (Some c)
      then show ?thesis using old [OF Some] by (simp add: contents_def)
    qed
  qed
qed

section \<open>The two level table as a map from pages to entries\<close>

definition entry_at :: "('g, 'r) sim \<Rightarrow> page \<rightharpoonup> pgtbl_entry" where
  "entry_at s = (\<lambda>(d, t).
     if d < PTRS_PER_PGDIR \<and> t < PTRS_PER_PGTBL \<and> pgdir s d \<noteq> 0
     then map_option (\<lambda>tb. tb t) (pgtbls s (pgdir s d - 1)) else None)"

definition ptr_of :: "('g, 'r) sim \<Rightarrow> page \<Rightarrow> pte_ptr" where
  "ptr_of s = (\<lambda>(d, t). (pgdir s d - 1, t))"

definition dir_ok :: "('g, 'r) sim \<Rightarrow> bool" where
  "dir_ok s \<longleftrightarrow>
     inj_on (pgdir s) {d. d < PTRS_PER_PGDIR \<and> pgdir s d \<noteq> 0} \<and>
     dom (pgtbls s) = (\<lambda>d. pgdir s d - 1) ` {d. d < PTRS_PER_PGDIR \<and> pgdir s d \<noteq> 0}"

definition put_entry :: "('g, 'r) sim \<Rightarrow> page \<Rightarrow> pgtbl_entry \<Rightarrow> ('g, 'r) sim" where
  "put_entry s k e = s\<lparr>pgtbls := (pgtbls s)(fst (ptr_of s k) \<mapsto> (the (pgtbls s (fst (ptr_of s k))))(snd k := e))\<rparr>"

lemma entry_at_SomeD:
  assumes "entry_at s (d, t) = Some e"
  shows "d < PTRS_PER_PGDIR" "t < PTRS_PER_PGTBL" "pgdir s d \<noteq> 0" "\<exists>tb. pgtbls s (pgdir s d - 1) = Some tb \<and> tb t = e"
  using assms by (auto simp: entry_at_def split: if_splits)

lemma pte_read_at: "entry_at s k = Some e \<Longrightarrow> pte_read s (ptr_of s k) = Inr e"
  by (cases k) (auto simp: entry_at_def pte_read_def ptr_of_def split: if_splits)

lemma pte_upd_at: "entry_at s k = Some e \<Longrightarrow> pte_upd s (ptr_of s k) f = Inr (put_entry s k (f e))"
  using pte_read_at [of s k e] by (cases k) (simp add: pte_upd_def put_entry_def ptr_of_def)

lemma put_entry_fields [simp]:
  "pgdir (put_entry s k e) = pgdir s" "coremap (put_entry s k e) = coremap s" "physmem (put_entry s k e) = physmem s"
  "pol (put_entry s k e) = pol s" "remote (put_entry s k e) = remote s" "hit_count (put_entry s k e) = hit_count s"
  "miss_count (put_entry s k e) = miss_count s" "ref_count (put_entry s k e) = ref_count s"
  by (simp_all add: put_entry_def)

lemma ptr_of_cong: "pgdir s' = pgdir s \<Longrightarrow> ptr_of s' = ptr_of s"
  by (simp add: ptr_of_def fun_eq_iff)

lemma ptr_of_put [simp]: "ptr_of (put_entry s k e) = ptr_of s"
  by (rule ptr_of_cong) simp

lemma entry_at_cong: "pgdir s' = pgdir s \<Longrightarrow> pgtbls s' = pgtbls s \<Longrightarrow> entry_at s' = entry_at s"
  by (simp add: entry_at_def fun_eq_iff)

lemma dir_ok_cong: "pgdir s' = pgdir s \<Longrightarrow> pgtbls s' = pgtbls s \<Longrightarrow> dir_ok s' = dir_ok s"
  by (simp add: dir_ok_def)

lemma dir_ok_put: "dir_ok s \<Longrightarrow> entry_at s k = Some c \<Longrightarrow> dir_ok (put_entry s k e)"
  by (cases k) (auto simp: entry_at_def dir_ok_def put_entry_def ptr_of_def split: if_splits)

lemma entry_at_put:
  assumes ok: "dir_ok s" and k: "entry_at s k = Some c"
  shows "entry_at (put_entry s k e) = (entry_at s)(k \<mapsto> e)"
proof
  fix j :: page
  obtain d t where k': "k = (d, t)" by (cases k)
  obtain d' t' where j: "j = (d', t')" by (cases j) blast
  note D = entry_at_SomeD [OF k [unfolded k']]
  have inj: "d' = d" if "pgdir s d' - 1 = pgdir s d - 1" "d' < PTRS_PER_PGDIR" "pgdir s d' \<noteq> 0"
    using ok that D(1,3) by (auto simp: dir_ok_def dest: inj_onD)
  show "entry_at (put_entry s k e) j = ((entry_at s)(k \<mapsto> e)) j"
    using D inj unfolding k' j entry_at_def put_entry_def ptr_of_def by (auto simp: fun_upd_def)
qed

text \<open>A new table for an unused directory slot.\<close>

definition memalign_ok :: "('g, 'r) sim_env \<Rightarrow> bool" where
  "memalign_ok env \<longleftrightarrow>
     (\<forall>T. card (dom T) < PTRS_PER_PGDIR \<longrightarrow>
        (\<exists>b. memalign env T = Some b \<and> b \<noteq> 0 \<and> b AND 0xfff = 0 \<and> T b = None))"

lemma aligned_tag:
  assumes "(b :: u64) AND 0xfff = 0"
  shows "(b OR ucast PG_VALID) - 1 = b" "b OR ucast PG_VALID \<noteq> 0"
proof -
  have "\<not> bit b 0"
  proof
    assume "bit b 0"
    then have "bit (b AND 0xfff) 0" by (simp add: bit_and_iff)
    with assms show False by simp
  qed
  then have "b AND 1 = 0" by (simp add: and_one_eq odd_iff_mod_2_eq_one bit_0 flip: even_iff_mod_2_eq_zero)
  then have "b OR 1 = b + 1" using disjunctive_add_eq_or [of b 1] by simp
  then show "(b OR ucast PG_VALID) - 1 = b" by (simp add: PG_VALID_def)
  show "b OR ucast PG_VALID \<noteq> 0" by (simp add: PG_VALID_def or_eq_0_iff)
qed

lemma used_slots:
  assumes "dir_ok s" "d < PTRS_PER_PGDIR" "pgdir s d = 0"
  shows "card (dom (pgtbls s)) < PTRS_PER_PGDIR"
proof -
  let ?U = "{d. d < PTRS_PER_PGDIR \<and> pgdir s d \<noteq> 0}"
  have fin: "finite ?U" by simp
  have "card (dom (pgtbls s)) \<le> card ?U"
    using assms(1) card_image_le [OF fin, of "\<lambda>d. pgdir s d - 1"] by (simp add: dir_ok_def)
  also have "\<dots> < card {..<PTRS_PER_PGDIR}"
    by (rule psubset_card_mono) (use assms(2,3) in auto)
  finally show ?thesis by simp
qed

lemma new_table:
  assumes ok: "dir_ok s" and d: "d < PTRS_PER_PGDIR" "pgdir s d = 0" and al: "memalign_ok env"
  obtains s1 b where "init_second_level env s = Inr (b OR ucast PG_VALID, s1)"
    "s1 = s\<lparr>pgtbls := pgtbls s1\<rparr>" "dir_ok (s1\<lparr>pgdir := (pgdir s1)(d := b OR ucast PG_VALID)\<rparr>)"
    "\<And>k e. entry_at s k = Some e \<Longrightarrow>
       entry_at (s1\<lparr>pgdir := (pgdir s1)(d := b OR ucast PG_VALID)\<rparr>) k = Some e \<and>
       ptr_of (s1\<lparr>pgdir := (pgdir s1)(d := b OR ucast PG_VALID)\<rparr>) k = ptr_of s k"
    "\<And>k e. entry_at (s1\<lparr>pgdir := (pgdir s1)(d := b OR ucast PG_VALID)\<rparr>) k = Some e \<Longrightarrow> entry_at s k = None \<Longrightarrow>
       \<not> is_valid e \<and> \<not> on_swap e \<and> swap_info (swap_off e) = INVALID_SWAP"
    "\<And>t. t < PTRS_PER_PGTBL \<Longrightarrow> entry_at (s1\<lparr>pgdir := (pgdir s1)(d := b OR ucast PG_VALID)\<rparr>) (d, t) \<noteq> None"
proof -
  obtain b where b: "memalign env (pgtbls s) = Some b" "b \<noteq> 0" "b AND 0xfff = 0" "pgtbls s b = None"
    using al used_slots [OF ok d] unfolding memalign_ok_def by blast
  note tag = aligned_tag [OF b(3)]
  define tb where "tb = (\<lambda>i. (garbage env i)\<lparr>pte_frame := 0,
    swap_off := (swap_off (garbage env i))\<lparr>swap_info := INVALID_SWAP\<rparr>\<rparr>)"
  define s1 where "s1 = s\<lparr>pgtbls := (pgtbls s)(b \<mapsto> tb)\<rparr>"
  define s2 where "s2 = s1\<lparr>pgdir := (pgdir s1)(d := b OR ucast PG_VALID)\<rparr>"
  have tbl: "pgdir s i - 1 \<noteq> b" if "i < PTRS_PER_PGDIR" "pgdir s i \<noteq> 0" for i
  proof -
    have "pgdir s i - 1 \<in> dom (pgtbls s)" using ok that by (auto simp: dir_ok_def)
    then show ?thesis using b(4) by auto
  qed
  have ne: "pgdir s i \<noteq> b OR ucast PG_VALID" if "i < PTRS_PER_PGDIR" "pgdir s i \<noteq> 0" for i
    using tbl [OF that] tag(1) by auto
  have used: "{i. i < PTRS_PER_PGDIR \<and> pgdir s2 i \<noteq> 0} = insert d {i. i < PTRS_PER_PGDIR \<and> pgdir s i \<noteq> 0}"
    using d tag(2) by (auto simp: s2_def s1_def)
  have "inj_on (pgdir s2) {i. i < PTRS_PER_PGDIR \<and> pgdir s2 i \<noteq> 0}"
    unfolding used
  proof (rule inj_onI)
    fix i j
    assume i: "i \<in> insert d {i. i < PTRS_PER_PGDIR \<and> pgdir s i \<noteq> 0}"
      and j: "j \<in> insert d {i. i < PTRS_PER_PGDIR \<and> pgdir s i \<noteq> 0}" and eq: "pgdir s2 i = pgdir s2 j"
    have at: "pgdir s2 k = (if k = d then b OR ucast PG_VALID else pgdir s k)" for k by (simp add: s2_def s1_def)
    have inj: "inj_on (pgdir s) {i. i < PTRS_PER_PGDIR \<and> pgdir s i \<noteq> 0}" using ok by (simp add: dir_ok_def)
    show "i = j"
      using i j eq ne [of i] ne [of j] inj_onD [OF inj, of i j] unfolding at
      by (cases "i = d"; cases "j = d") auto
  qed
  moreover have "dom (pgtbls s2) = (\<lambda>i. pgdir s2 i - 1) ` {i. i < PTRS_PER_PGDIR \<and> pgdir s2 i \<noteq> 0}"
  proof -
    have "(\<lambda>i. pgdir s2 i - 1) ` {i. i < PTRS_PER_PGDIR \<and> pgdir s i \<noteq> 0} =
        (\<lambda>i. pgdir s i - 1) ` {i. i < PTRS_PER_PGDIR \<and> pgdir s i \<noteq> 0}"
      by (rule image_cong) (use d in \<open>auto simp: s2_def s1_def\<close>)
    then show ?thesis
      unfolding used using ok tag(1) by (simp add: dir_ok_def) (auto simp: s2_def s1_def)
  qed
  ultimately have dir: "dir_ok s2" by (simp add: dir_ok_def)
  have init: "init_second_level env s = Inr (b OR ucast PG_VALID, s1)"
    using b(1) by (simp add: init_second_level_def s1_def tb_def)
  have old: "entry_at s2 k = Some e \<and> ptr_of s2 k = ptr_of s k" if "entry_at s k = Some e" for k e
  proof (cases k)
    case (Pair i t)
    note D = entry_at_SomeD [OF that [unfolded Pair]]
    have "i \<noteq> d" using D(3) d(2) by auto
    then show ?thesis
      using D tbl [OF D(1,3)] by (auto simp: Pair entry_at_def ptr_of_def s2_def s1_def)
  qed
  have new: "\<not> is_valid e \<and> \<not> on_swap e \<and> swap_info (swap_off e) = INVALID_SWAP"
    if "entry_at s2 k = Some e" "entry_at s k = None" for k e
  proof (cases k)
    case (Pair i t)
    note D = entry_at_SomeD [OF that(1) [unfolded Pair]]
    have "i = d"
    proof (rule ccontr)
      assume "i \<noteq> d"
      then have "entry_at s k = Some e" using that(1) tbl [of i] by (auto simp: Pair entry_at_def s2_def s1_def split: if_splits)
      with that(2) show False by simp
    qed
    then show ?thesis using D(4) tag(1) by (auto simp: s2_def s1_def tb_def flag_defs)
  qed
  have here: "entry_at s2 (d, t) \<noteq> None" if "t < PTRS_PER_PGTBL" for t
    using that d tag by (simp add: entry_at_def s2_def s1_def)
  show ?thesis
    by (rule that [of b s1, OF init _ dir [unfolded s2_def] old [unfolded s2_def] new [unfolded s2_def] here [unfolded s2_def]])
      (simp_all add: s1_def)
qed

section \<open>Remote memory\<close>

text \<open>
  What the simulator relies on in the client library: \<open>content r a\<close> is the page kept at a remote
  address and \<open>room r\<close> bounds the allocations still possible. A new allocation is at an unused
  address, a write is read back, and nothing else changes.
\<close>

definition remote_laws ::
  "'r remote_lib \<Rightarrow> ('r \<Rightarrow> ip6_memaddr \<rightharpoonup> bytes) \<Rightarrow> ('r \<Rightarrow> nat) \<Rightarrow> bool" where
  "remote_laws lib content room \<longleftrightarrow>
     (\<forall>r a r'. 0 < room r \<longrightarrow> allocateRemoteMem lib r = (a, r') \<longrightarrow>
        content r a = None \<and> (\<exists>bs. content r' = (content r)(a \<mapsto> bs)) \<and> room r \<le> Suc (room r')) \<and>
     (\<forall>r a bs. content r a \<noteq> None \<longrightarrow> SIMPAGESIZE \<le> length bs \<longrightarrow>
        content (writeRemoteMem lib bs a r) = (content r)(a \<mapsto> take SIMPAGESIZE bs) \<and>
        room (writeRemoteMem lib bs a r) = room r) \<and>
     (\<forall>r a bs bs' r'. content r a = Some bs \<longrightarrow> getRemoteMem lib a r = (bs', r') \<longrightarrow>
        SIMPAGESIZE \<le> length bs' \<and> take SIMPAGESIZE bs' = bs \<and> content r' = content r \<and> room r' = room r)"

section \<open>The state of the simulator\<close>

definition view :: "('r \<Rightarrow> ip6_memaddr \<rightharpoonup> bytes) \<Rightarrow> ('g, 'r) sim \<Rightarrow> page \<rightharpoonup> bytes" where
  "view content s = contents (entry_at s) (content (remote s)) (physmem s)"

definition tables_ok ::
  "('r \<Rightarrow> ip6_memaddr \<rightharpoonup> bytes) \<Rightarrow> nat \<Rightarrow> ('g, 'r) sim \<Rightarrow> (nat \<rightharpoonup> page) \<Rightarrow> bool" where
  "tables_ok content m s K \<longleftrightarrow>
     dir_ok s \<and> length (coremap s) = m \<and> (\<forall>f k. K f = Some k \<longrightarrow> pte (coremap s ! f) = ptr_of s k) \<and>
     pages_ok m (entry_at s) (content (remote s)) K (physmem s)"

definition used_frames :: "('g, 'r) sim \<Rightarrow> nat set" where
  "used_frames s = {f. f < length (coremap s) \<and> in_use (coremap s ! f)}"

lemma tables_okD:
  assumes "tables_ok content m s K"
  shows "dir_ok s" "length (coremap s) = m" "K f = Some k \<Longrightarrow> pte (coremap s ! f) = ptr_of s k"
    "pages_ok m (entry_at s) (content (remote s)) K (physmem s)"
  using assms unfolding tables_ok_def by blast+

text \<open>Replacing the entry of a page together with remote memory, the frame map and physical memory.\<close>

lemma tables_ok_put:
  assumes ok: "tables_ok content m s K" and e: "entry_at s k = Some e"
    and s': "pgdir s' = pgdir s" "pgtbls s' = pgtbls (put_entry s k e')" "coremap s' = coremap s"
    and pages: "pages_ok m ((entry_at s)(k \<mapsto> e')) (content (remote s')) K' (physmem s')"
    and K': "\<And>f j. K' f = Some j \<Longrightarrow> pte (coremap s ! f) = ptr_of s j"
  shows "tables_ok content m s' K'" "entry_at s' = (entry_at s)(k \<mapsto> e')" "ptr_of s' = ptr_of s"
proof -
  note D = tables_okD [OF ok]
  show 1: "entry_at s' = (entry_at s)(k \<mapsto> e')"
    using entry_at_put [OF D(1) e, of e'] entry_at_cong [of s' "put_entry s k e'"] s' by simp
  show 2: "ptr_of s' = ptr_of s" by (rule ptr_of_cong [OF s'(1)])
  have "dir_ok s'" using dir_ok_put [OF D(1) e, of e'] dir_ok_cong [of s' "put_entry s k e'"] s' by simp
  then show "tables_ok content m s' K'"
    using D(2) s'(3) pages K' 1 2 by (simp add: tables_ok_def)
qed

lemma drop_take_page: "page_at pm f = take SIMPAGESIZE (drop (f * SIMPAGESIZE) pm)"
  by (simp add: page_at_def slice_def)

lemma swap_pageout_ok:
  assumes laws: "remote_laws (rlib env) content room" and ok: "tables_ok content m s K"
    and K: "K f = Some k" and e: "entry_at s k = Some e" and room: "0 < room (remote s)"
  obtains sw r where "swap_pageout env f (swap_off e) s = Inr (sw, s\<lparr>remote := r\<rparr>)"
    "swap_info sw \<noteq> INVALID_SWAP" "content r = (content (remote s))(r_addr sw \<mapsto> page_at (physmem s) f)"
    "if on_swap e then sw = swap_off e else content (remote s) (r_addr sw) = None"
    "room (remote s) \<le> Suc (room r)"
proof -
  note D = tables_okD [OF ok]
  note P = pages_okD [OF D(4)]
  have f: "f < m" by (rule P(4) [OF K])
  have len: "SIMPAGESIZE \<le> length (drop (f * SIMPAGESIZE) (physmem s))"
    using P(1) f mult_le_mono1 [of "Suc f" m SIMPAGESIZE] by simp
  have wr: "content (writeRemoteMem (rlib env) bs a r) = (content r)(a \<mapsto> take SIMPAGESIZE bs)"
    "room (writeRemoteMem (rlib env) bs a r) = room r"
    if "content r a \<noteq> None" "SIMPAGESIZE \<le> length bs" for r a bs
    using laws that unfolding remote_laws_def by blast+
  show ?thesis
  proof (cases "on_swap e")
    case True
    then have i: "swap_info (swap_off e) \<noteq> INVALID_SWAP" and R: "content (remote s) (r_addr (swap_off e)) \<noteq> None"
      using P(6,7) [OF e] by auto
    show ?thesis
      by (rule that [of "swap_off e"])
        (use i wr [OF R len] True in \<open>auto simp: swap_pageout_def drop_take_page Let_def\<close>)
  next
    case False
    then have i: "swap_info (swap_off e) = INVALID_SWAP" using P(6) [OF e] by auto
    obtain a r where a: "allocateRemoteMem (rlib env) (remote s) = (a, r)" by (cases "allocateRemoteMem (rlib env) (remote s)")
    then obtain bs where bs: "content (remote s) a = None" "content r = (content (remote s))(a \<mapsto> bs)"
        "room (remote s) \<le> Suc (room r)"
      using laws room unfolding remote_laws_def by blast
    have R: "content r a \<noteq> None" using bs(2) by simp
    show ?thesis
      by (rule that [of "(swap_off e)\<lparr>r_addr := a, swap_info := VALID_SWAP\<rparr>"
            "writeRemoteMem (rlib env) (drop (f * SIMPAGESIZE) (physmem s)) a r"])
        (use i a wr [OF R len] bs False in
          \<open>auto simp: swap_pageout_def drop_take_page INVALID_SWAP_def VALID_SWAP_def Let_def\<close>)
  qed
qed

lemma gone_flags:
  "\<not> is_valid (e\<lparr>pte_frame := pte_frame e AND NOT PG_VALID\<rparr>)"
  "on_swap (e\<lparr>pte_frame := pte_frame e AND NOT PG_VALID\<rparr>) \<longleftrightarrow> on_swap e"
  "\<not> is_valid (e\<lparr>pte_frame := (pte_frame e AND NOT PG_VALID) OR PG_ONSWAP\<rparr>)"
  "on_swap (e\<lparr>pte_frame := (pte_frame e AND NOT PG_VALID) OR PG_ONSWAP\<rparr>)"
  by (auto simp: flag_defs bit_simps pg_bits)

lemma put_put: "put_entry (put_entry s k e1) k e2 = put_entry s k e2"
  by (simp add: put_entry_def ptr_of_def split: prod.split)

lemma evict_page_ok:
  assumes laws: "remote_laws (rlib env) content room" and ok: "tables_ok content m s K"
    and K: "K f = Some k" and room: "0 < room (remote s)"
  obtains s' e' where "evict_page env f s = Inr s'" "tables_ok content m s' (K(f := None))" "view content s' = view content s"
    "pgdir s' = pgdir s" "coremap s' = coremap s" "pol s' = pol s" "entry_at s' = (entry_at s)(k \<mapsto> e')"
    "room (remote s) \<le> Suc (room (remote s'))"
    "hit_count s' = hit_count s" "miss_count s' = miss_count s" "ref_count s' = ref_count s"
proof -
  note D = tables_okD [OF ok]
  note P = pages_okD [OF D(4)]
  obtain e where e: "entry_at s k = Some e" "is_valid e" "frame_no e = f" using P(5) [OF K] by blast
  have pt: "pte (coremap s ! f) = ptr_of s k" by (rule D(3) [OF K])
  have K': "pte (coremap s ! g) = ptr_of s j" if "(K(f := None)) g = Some j" for g j
    using that D(3) [of g j] by (auto split: if_splits)
  show ?thesis
  proof (cases "is_dirty e")
    case True
    obtain sw r where sw: "swap_pageout env f (swap_off e) s = Inr (sw, s\<lparr>remote := r\<rparr>)"
      "swap_info sw \<noteq> INVALID_SWAP" "content r = (content (remote s))(r_addr sw \<mapsto> page_at (physmem s) f)"
      "if on_swap e then sw = swap_off e else content (remote s) (r_addr sw) = None"
      "room (remote s) \<le> Suc (room r)"
      by (rule swap_pageout_ok [OF laws ok K e(1) room])
    define s1 where "s1 = s\<lparr>remote := r\<rparr>"
    define e1 where "e1 = e\<lparr>swap_off := sw\<rparr>"
    define e' where "e' = e1\<lparr>pte_frame := (pte_frame e1 AND NOT PG_VALID) OR PG_ONSWAP\<rparr>"
    define s' where "s' = (put_entry s1 k e')\<lparr>evict_dirty_count := Suc (evict_dirty_count s1)\<rparr>"
    have s1: "entry_at s1 = entry_at s" "ptr_of s1 = ptr_of s" "dir_ok s1"
      using entry_at_cong [of s1 s] ptr_of_cong [of s1 s] dir_ok_cong [of s1 s] D(1) by (simp_all add: s1_def)
    have e1': "entry_at (put_entry s1 k e1) k = Some e1"
      using entry_at_put [OF s1(3), of k e] s1(1) e(1) by simp
    have up: "pte_upd s1 (ptr_of s k) (swap_off_update (\<lambda>_. sw)) = Inr (put_entry s1 k e1)"
      "pte_upd (put_entry s1 k e1) (ptr_of s k) (\<lambda>e. e\<lparr>pte_frame := (pte_frame e AND NOT PG_VALID) OR PG_ONSWAP\<rparr>) =
        Inr (put_entry s1 k e')"
      using pte_upd_at [of s1 k e] pte_upd_at [OF e1'] s1 e(1) by (simp_all add: put_put e1_def e'_def)
    have run: "evict_page env f s = Inr s'"
      using pte_read_at [OF e(1)] True sw(1,2) up
      by (simp add: evict_page_def pt Let_def pg_tests s'_def put_entry_def flip: s1_def)
    have flags: "\<not> is_valid e'" "on_swap e'" "swap_off e' = sw" by (simp_all add: e'_def gone_flags) (simp add: e1_def)
    have "pages_ok m ((entry_at s)(k \<mapsto> e')) (content r) (K(f := None)) (physmem s) \<and>
        contents ((entry_at s)(k \<mapsto> e')) (content r) (physmem s) = view content s"
      using evict_dirty_ok [OF D(4) K e(1) flags(1,2), of "content r"] sw flags(3) by (simp add: view_def)
    note ev = this [THEN conjunct1] this [THEN conjunct2]
    have fields: "pgdir s' = pgdir s" "pgtbls s' = pgtbls (put_entry s k e')" "coremap s' = coremap s"
      "remote s' = r" "physmem s' = physmem s"
      by (simp_all add: s'_def s1_def put_entry_def ptr_of_def split: prod.split)
    have pg: "pages_ok m ((entry_at s)(k \<mapsto> e')) (content (remote s')) (K(f := None)) (physmem s')"
      using ev(1) fields by simp
    note put = tables_ok_put [OF ok e(1) fields(1-3) pg K']
    show ?thesis
    proof (rule that [OF run put(1) _ _ _ _ put(2)])
      show "view content s' = view content s" using ev(2) put(2) fields by (simp add: view_def)
    qed (use fields sw(5) in \<open>simp_all add: s'_def s1_def\<close>)
  next
    case False
    define e' where "e' = e\<lparr>pte_frame := pte_frame e AND NOT PG_VALID\<rparr>"
    define s' where "s' = (put_entry s k e')\<lparr>evict_clean_count := Suc (evict_clean_count s)\<rparr>"
    have run: "evict_page env f s = Inr s'"
      using pte_read_at [OF e(1)] False pte_upd_at [OF e(1)]
      by (simp add: evict_page_def pt Let_def pg_tests s'_def put_entry_def e'_def)
    have flags: "\<not> is_valid e'" "on_swap e' \<longleftrightarrow> on_swap e" "swap_off e' = swap_off e"
      by (simp_all add: e'_def gone_flags)
    note ev = evict_clean_ok [OF D(4) K e(1) False flags]
    have fields: "pgdir s' = pgdir s" "pgtbls s' = pgtbls (put_entry s k e')" "coremap s' = coremap s"
      "remote s' = remote s" "physmem s' = physmem s"
      by (simp_all add: s'_def)
    have pg: "pages_ok m ((entry_at s)(k \<mapsto> e')) (content (remote s')) (K(f := None)) (physmem s')"
      using ev(1) fields by simp
    note put = tables_ok_put [OF ok e(1) fields(1-3) pg K']
    show ?thesis
    proof (rule that [OF run put(1) _ _ _ _ put(2)])
      show "view content s' = view content s" using ev(2) put(2) fields by (simp add: view_def)
    qed (use fields in \<open>simp_all add: s'_def\<close>)
  qed
qed

end
