(* ===== verification/BB_Replay.thy ===== *)
theory BB_Replay
  imports BB_Sim
begin

text \<open>
  What a simulation does, from one call of \<^verbatim>\<open>allocate_frame\<close> up to the replay of a whole trace: the
  invariant of \<^verbatim>\<open>BB_Sim\<close> is kept by every step, for every algorithm that meets the contract
  \<open>evictor\<close>, and the pages of the simulated process are those the trace describes.
\<close>

section \<open>Getting a frame\<close>

text \<open>
  The state between references: the frames in use are those that hold a page, and the algorithm is
  in order for them.
\<close>

definition sim_inv ::
  "('r \<Rightarrow> ip6_memaddr \<rightharpoonup> bytes) \<Rightarrow> (nat \<Rightarrow> nat set \<Rightarrow> 'g \<Rightarrow> bool) \<Rightarrow> nat \<Rightarrow> ('g, 'r) sim \<Rightarrow> bool" where
  "sim_inv content ginv m s \<longleftrightarrow>
     (\<exists>K. tables_ok content m s K \<and> dom K = used_frames s) \<and> ginv m (used_frames s) (pol s)"

text \<open>After \<^verbatim>\<open>allocate_frame\<close>: frame \<open>f\<close> is reserved for page \<open>k\<close> and still empty.\<close>

definition reserved ::
  "('r \<Rightarrow> ip6_memaddr \<rightharpoonup> bytes) \<Rightarrow> (nat \<Rightarrow> nat set \<Rightarrow> 'g \<Rightarrow> bool) \<Rightarrow> nat \<Rightarrow> ('g, 'r) sim \<Rightarrow> page \<Rightarrow> nat \<Rightarrow>
   (nat \<rightharpoonup> page) \<Rightarrow> bool" where
  "reserved content ginv m s k f K \<longleftrightarrow>
     tables_ok content m s K \<and> K f = None \<and> f < m \<and> used_frames s = insert f (dom K) \<and>
     ginv m (used_frames s - {f}) (pol s) \<and> pte (coremap s ! f) = ptr_of s k"

lemma set_frame_fields [simp]:
  "pgdir (set_frame f h s) = pgdir s" "pgtbls (set_frame f h s) = pgtbls s" "physmem (set_frame f h s) = physmem s"
  "pol (set_frame f h s) = pol s" "remote (set_frame f h s) = remote s" "hit_count (set_frame f h s) = hit_count s"
  "miss_count (set_frame f h s) = miss_count s" "ref_count (set_frame f h s) = ref_count s"
  "length (coremap (set_frame f h s)) = length (coremap s)"
  by (simp_all add: set_frame_def)

lemma set_frame_view [simp]:
  "entry_at (set_frame f h s) = entry_at s" "ptr_of (set_frame f h s) = ptr_of s"
  "view content (set_frame f h s) = view content s" "dir_ok (set_frame f h s) = dir_ok s"
proof -
  show e: "entry_at (set_frame f h s) = entry_at s" by (rule entry_at_cong) simp_all
  show "ptr_of (set_frame f h s) = ptr_of s" by (rule ptr_of_cong) simp
  show "view content (set_frame f h s) = view content s" by (simp add: view_def e)
  show "dir_ok (set_frame f h s) = dir_ok s" by (rule dir_ok_cong) simp_all
qed

lemma set_frame_at: "f < length (coremap s) \<Longrightarrow>
  coremap (set_frame f h s) ! g = (if g = f then h (coremap s ! f) else coremap s ! g)"
  by (simp add: set_frame_def)

lemma reserve_frame:
  assumes ok: "tables_ok content m s K" and f: "f < m" "K f = None" and used: "used_frames s - {f} = dom K"
    and g: "ginv m (dom K) (pol s)"
  shows "reserved content ginv m (set_frame f (\<lambda>c. c\<lparr>in_use := True, pte := ptr_of s k\<rparr>) s) k f K"
proof -
  note D = tables_okD [OF ok]
  let ?s = "set_frame f (\<lambda>c. c\<lparr>in_use := True, pte := ptr_of s k\<rparr>) s"
  have fl: "f < length (coremap s)" using f(1) D(2) by simp
  have "used_frames ?s = insert f (used_frames s)"
    using fl by (auto simp: used_frames_def set_frame_at split: if_splits)
  then have "used_frames ?s = insert f (dom K)" using used by auto
  moreover have "used_frames ?s - {f} = dom K" using calculation f(2) by auto
  moreover have "tables_ok content m ?s K"
    using D f(2) fl by (auto simp: tables_ok_def set_frame_at)
  ultimately show ?thesis using f g fl by (simp add: reserved_def set_frame_at)
qed

lemma allocate_frame_ok:
  assumes laws: "remote_laws (rlib env) content room" and ev: "evictor (ref_fcn env) (evict_fcn env) ginv"
    and inv: "sim_inv content ginv m s" and m: "memsize env = m" "0 < m" and room: "0 < room (remote s)"
    and e: "entry_at s k = Some e" "\<not> is_valid e"
  obtains f s' K where "allocate_frame env (ptr_of s k) s = Inr (f, s')" "reserved content ginv m s' k f K"
    "view content s' = view content s" "entry_at s' k = Some e" "pgdir s' = pgdir s"
    "room (remote s) \<le> Suc (room (remote s'))"
    "hit_count s' = hit_count s" "miss_count s' = miss_count s" "ref_count s' = ref_count s"
proof -
  obtain K where K: "tables_ok content m s K" "dom K = used_frames s" using inv by (auto simp: sim_inv_def)
  have g: "ginv m (used_frames s) (pol s)" using inv by (simp add: sim_inv_def)
  note D = tables_okD [OF K(1)]
  show ?thesis
  proof (cases "find (\<lambda>i. \<not> in_use (coremap s ! i)) [0..<m]")
    case (Some f)
    then have f: "f < m" "\<not> in_use (coremap s ! f)" by (auto simp: find_Some_iff)
    then have Kf: "K f = None" "used_frames s - {f} = dom K" using K(2) by (auto simp: used_frames_def)
    show ?thesis
    proof (rule that [OF _ reserve_frame [where ginv = ginv and k = k, OF K(1) f(1) Kf]])
      show "allocate_frame env (ptr_of s k) s =
          Inr (f, set_frame f (\<lambda>c. c\<lparr>in_use := True, pte := ptr_of s k\<rparr>) s)"
        using Some m by (simp add: allocate_frame_def)
    qed (use g K(2) e in auto)
  next
    case None
    then have all: "used_frames s = {..<m}" using D(2) by (auto simp: find_None_iff used_frames_def)
    obtain f g' where f: "evict_fcn env m (map vaddr (coremap s)) (pol s) = Inr (int f, g')" "f < m"
        "ginv m ({..<m} - {f}) g'"
      using evictor.evict_ok [OF ev, of m "pol s" "map vaddr (coremap s)"] g all m D(2) by auto
    define s0 where "s0 = s\<lparr>pol := g'\<rparr>"
    have s0: "entry_at s0 = entry_at s" "ptr_of s0 = ptr_of s" "dir_ok s0 = dir_ok s" "coremap s0 = coremap s"
        "remote s0 = remote s" "physmem s0 = physmem s"
      using entry_at_cong [of s0 s] ptr_of_cong [of s0 s] dir_ok_cong [of s0 s] by (simp_all add: s0_def)
    have ok0: "tables_ok content m s0 K" using K(1) s0 by (simp add: tables_ok_def)
    have "f \<in> dom K" using K(2) all f(2) by simp
    then obtain j where j: "K f = Some j" by blast
    obtain c where c: "entry_at s j = Some c" "is_valid c" using pages_okD(5) [OF D(4) j] by auto
    have jk: "j \<noteq> k" using c e by auto
    have room0: "0 < room (remote s0)" using room by (simp add: s0(5))
    obtain s1 e' where s1: "evict_page env f s0 = Inr s1" "tables_ok content m s1 (K(f := None))"
      "view content s1 = view content s0" "pgdir s1 = pgdir s0" "coremap s1 = coremap s0" "pol s1 = pol s0"
      "entry_at s1 = (entry_at s0)(j \<mapsto> e')" "room (remote s0) \<le> Suc (room (remote s1))"
      "hit_count s1 = hit_count s0" "miss_count s1 = miss_count s0" "ref_count s1 = ref_count s0"
      by (rule evict_page_ok [OF laws ok0 j room0])
    have ptr: "ptr_of s1 = ptr_of s" using ptr_of_cong [OF s1(4)] s0(2) by simp
    have u: "used_frames s1 - {f} = dom (K(f := None))"
      using s1(5) s0(4) K(2) by (auto simp: used_frames_def)
    have g1: "ginv m (dom (K(f := None))) (pol s1)"
      using f(3) s1(6) K(2) all by (simp add: s0_def)
    show ?thesis
    proof (rule that [OF _ reserve_frame [where ginv = ginv and k = k, OF s1(2) f(2) _ u g1]])
      show "allocate_frame env (ptr_of s k) s =
          Inr (f, set_frame f (\<lambda>c. c\<lparr>in_use := True, pte := ptr_of s1 k\<rparr>) s1)"
        using None m f(1,2) D(2) s1(1) ptr by (simp add: allocate_frame_def flip: s0_def)
      show "view content (set_frame f (\<lambda>c. c\<lparr>in_use := True, pte := ptr_of s1 k\<rparr>) s1) = view content s"
        using s1(3) s0 by (simp add: view_def)
    qed (use s1 s0 jk e in \<open>simp_all add: s0_def\<close>)
  qed
qed

section \<open>Bringing a page in\<close>

text \<open>
  Page \<open>k\<close> is in frame \<open>f\<close> with everything done but the valid flag: whatever entry the last step
  writes, as long as it keeps the dirty flag, memory is in order and the pages are \<open>M\<close>.
\<close>

definition page_ready ::
  "('r \<Rightarrow> ip6_memaddr \<rightharpoonup> bytes) \<Rightarrow> (nat \<Rightarrow> nat set \<Rightarrow> 'g \<Rightarrow> bool) \<Rightarrow> nat \<Rightarrow> ('g, 'r) sim \<Rightarrow> page \<Rightarrow>
   (page \<rightharpoonup> bytes) \<Rightarrow> bool" where
  "page_ready content ginv m s k M \<longleftrightarrow>
     (\<exists>f K e. dir_ok s \<and> length (coremap s) = m \<and> f < m \<and> (\<forall>g j. K g = Some j \<longrightarrow> pte (coremap s ! g) = ptr_of s j) \<and>
       dom K = used_frames s \<and> f \<in> used_frames s \<and> (\<exists>U. insert f U = used_frames s \<and> ginv m U (pol s)) \<and>
       entry_at s k = Some e \<and> frame_no e = f \<and>
       (\<forall>e'. is_valid e' \<longrightarrow> frame_no e' = f \<longrightarrow> swap_off e' = swap_off e \<longrightarrow> on_swap e' = on_swap e \<longrightarrow>
          (is_dirty e \<longrightarrow> is_dirty e') \<longrightarrow>
          pages_ok m ((entry_at s)(k \<mapsto> e')) (content (remote s)) K (physmem s) \<and>
          contents ((entry_at s)(k \<mapsto> e')) (content (remote s)) (physmem s) = M))"

lemma blit_page_at: "(f + 1) * SIMPAGESIZE \<le> length pm \<Longrightarrow> blit pm (f * SIMPAGESIZE) (page_at pm f) = pm"
  by (rule nth_equalityI) (auto simp: page_at_def slice_def blit_def nth_append min_def)

lemma ready_hit:
  assumes inv: "sim_inv content ginv m s" and e: "entry_at s k = Some e" "is_valid e"
  shows "page_ready content ginv m s k (view content s)"
proof -
  obtain K where K: "tables_ok content m s K" "dom K = used_frames s" using inv by (auto simp: sim_inv_def)
  note D = tables_okD [OF K(1)]
  note P = pages_okD [OF D(4)]
  have f: "frame_no e < m" "K (frame_no e) = Some k" using P(2,3) [OF e] by auto
  have fu: "frame_no e \<in> used_frames s" using f(2) K(2) by auto
  have fit: "(frame_no e + 1) * SIMPAGESIZE \<le> length (physmem s)"
    using f(1) P(1) mult_le_mono1 [of "Suc (frame_no e)" m SIMPAGESIZE] by simp
  have len: "length (page_at (physmem s) (frame_no e)) = SIMPAGESIZE" using fit by (simp add: page_at_def)
  have cont: "(view content s)(k \<mapsto> page_at (physmem s) (frame_no e)) = view content s"
    using e by (auto simp: view_def contents_def)
  have "pages_ok m ((entry_at s)(k \<mapsto> e')) (content (remote s)) K (physmem s) \<and>
      contents ((entry_at s)(k \<mapsto> e')) (content (remote s)) (physmem s) = view content s"
    if e': "is_valid e'" "frame_no e' = frame_no e" "swap_off e' = swap_off e" "on_swap e' = on_swap e"
      "is_dirty e \<longrightarrow> is_dirty e'" for e'
  proof -
    have cl: "is_dirty e' \<or> on_swap e \<and> content (remote s) (r_addr (swap_off e)) = Some (page_at (physmem s) (frame_no e))"
      using P(9,10) [OF e] e'(5) by blast
    have KK: "K(frame_no e \<mapsto> k) = K" using f(2) by auto
    show ?thesis
      using place_ok [OF D(4) f(1) e(1) _ e'(1-4) len cl] f(2) cont blit_page_at [OF fit] KK
      by (simp add: view_def)
  qed
  moreover have "\<exists>U. insert (frame_no e) U = used_frames s \<and> ginv m U (pol s)"
    using inv fu by (intro exI [of _ "used_frames s"]) (auto simp: sim_inv_def)
  ultimately show ?thesis
    unfolding page_ready_def using D K(2) f(1) fu e(1) by (intro exI [of _ "frame_no e"] exI [of _ K] exI [of _ e]) auto
qed

lemma ready_placed:
  assumes res: "reserved content ginv m s k f K" and e: "entry_at s k = Some e" "\<not> is_valid e"
    and len: "length bs = SIMPAGESIZE"
    and e7: "frame_no e7 = f" "swap_off e7 = swap_off e" "on_swap e7 = on_swap e"
    and clean: "is_dirty e7 \<or> on_swap e \<and> content (remote s) (r_addr (swap_off e)) = Some bs"
    and s7: "pgdir s7 = pgdir s" "pgtbls s7 = pgtbls (put_entry s k e7)" "physmem s7 = blit (physmem s) (f * SIMPAGESIZE) bs"
      "content (remote s7) = content (remote s)" "pol s7 = pol s" "coremap s7 = coremap (set_frame f h s)"
      "\<And>c. in_use (h c) = in_use c \<and> pte (h c) = pte c"
  shows "page_ready content ginv m s7 k ((view content s)(k \<mapsto> bs))"
proof -
  have ok: "tables_ok content m s K" and f: "K f = None" "f < m" and u: "used_frames s = insert f (dom K)"
    and g: "ginv m (used_frames s - {f}) (pol s)" and pt: "pte (coremap s ! f) = ptr_of s k"
    using res by (auto simp: reserved_def)
  note D = tables_okD [OF ok]
  have fl: "f < length (coremap s)" using f(2) D(2) by simp
  have entry: "entry_at s7 = (entry_at s)(k \<mapsto> e7)"
    using entry_at_put [OF D(1) e(1), of e7] entry_at_cong [of s7 "put_entry s k e7"] s7(1,2) by simp
  have ptr: "ptr_of s7 = ptr_of s" by (rule ptr_of_cong [OF s7(1)])
  have dir: "dir_ok s7" using dir_ok_put [OF D(1) e(1), of e7] dir_ok_cong [of s7 "put_entry s k e7"] s7(1,2) by simp
  have at: "in_use (coremap s7 ! i) = in_use (coremap s ! i)" "pte (coremap s7 ! i) = pte (coremap s ! i)" for i
    using s7(6,7) fl by (simp_all add: set_frame_at)
  have ln: "length (coremap s7) = length (coremap s)" using s7(6) by simp
  have u7: "used_frames s7 = used_frames s" by (simp add: used_frames_def at ln)
  have pages: "pages_ok m ((entry_at s7)(k \<mapsto> e')) (content (remote s7)) (K(f \<mapsto> k)) (physmem s7) \<and>
      contents ((entry_at s7)(k \<mapsto> e')) (content (remote s7)) (physmem s7) = (view content s)(k \<mapsto> bs)"
    if e': "is_valid e'" "frame_no e' = f" "swap_off e' = swap_off e7" "on_swap e' = on_swap e7"
      "is_dirty e7 \<longrightarrow> is_dirty e'" for e'
  proof -
    have cl: "is_dirty e' \<or> on_swap e \<and> content (remote s) (r_addr (swap_off e)) = Some bs"
      using clean e'(5) by blast
    have sw: "swap_off e' = swap_off e" "on_swap e' \<longleftrightarrow> on_swap e" using e' e7 by auto
    show ?thesis
      using place_ok [OF D(4) f(2) e(1) _ e'(1,2) sw len cl] f(1) e(2) s7(3,4) entry by (simp add: view_def)
  qed
  have "\<forall>g j. (K(f \<mapsto> k)) g = Some j \<longrightarrow> pte (coremap s7 ! g) = ptr_of s7 j"
    using D(3) pt by (auto simp: at ptr simp del: split_paired_All)
  moreover have "\<exists>U. insert f U = used_frames s7 \<and> ginv m U (pol s7)"
    using g s7(5) u by (intro exI [of _ "used_frames s - {f}"]) (auto simp: u7)
  ultimately show ?thesis
    unfolding page_ready_def using dir ln D(2) f(2) u7 u entry e7(1) pages
    by (intro exI [of _ f] exI [of _ "K(f \<mapsto> k)"] exI [of _ e7]) (auto simp del: split_paired_All)
qed

lemma miss_flags:
  assumes "f < 2 ^ 20"
  shows "frame_no (e\<lparr>pte_frame := push_bit PAGE_SHIFT (of_nat f) OR PG_DIRTY\<rparr>) = f"
    "is_dirty (e\<lparr>pte_frame := push_bit PAGE_SHIFT (of_nat f) OR PG_DIRTY\<rparr>)"
    "\<not> on_swap (e\<lparr>pte_frame := push_bit PAGE_SHIFT (of_nat f) OR PG_DIRTY\<rparr>)"
    "frame_no (e\<lparr>pte_frame := (push_bit PAGE_SHIFT (of_nat f) AND NOT PG_DIRTY) OR PG_ONSWAP\<rparr>) = f"
    "on_swap (e\<lparr>pte_frame := (push_bit PAGE_SHIFT (of_nat f) AND NOT PG_DIRTY) OR PG_ONSWAP\<rparr>)"
  using assms by (auto simp: flag_defs bit_or_iff bit_and_iff pg_bits)

text \<open>What a frame holds right after its page is first used.\<close>

definition fresh_page :: "u64 \<Rightarrow> bytes" where
  "fresh_page va = blit (replicate SIMPAGESIZE 0) 4 (le_bytes 8 va)"

lemma length_fresh_page [simp]: "length (fresh_page va) = SIMPAGESIZE"
  by (simp add: fresh_page_def SIMPAGESIZE_def)

lemma init_frame_ok:
  assumes "length (physmem s) = m * SIMPAGESIZE" "f < m"
  shows "init_frame f va s = Inr (s\<lparr>physmem := blit (physmem s) (f * SIMPAGESIZE) (fresh_page va)\<rparr>)"
proof -
  have fit: "f * SIMPAGESIZE + SIMPAGESIZE \<le> length (physmem s)"
    using assms mult_le_mono1 [of "Suc f" m SIMPAGESIZE] by simp
  have "blit (blit (physmem s) (f * SIMPAGESIZE) (replicate SIMPAGESIZE 0)) (f * SIMPAGESIZE + 4) (le_bytes 8 va) =
      blit (physmem s) (f * SIMPAGESIZE) (fresh_page va)"
  proof (rule nth_equalityI)
    have s4: "4 + 8 \<le> SIMPAGESIZE" by (simp add: SIMPAGESIZE_def)
    show "length (blit (blit (physmem s) (f * SIMPAGESIZE) (replicate SIMPAGESIZE 0)) (f * SIMPAGESIZE + 4) (le_bytes 8 va)) =
        length (blit (physmem s) (f * SIMPAGESIZE) (fresh_page va))"
      using fit s4 by simp
    fix i assume "i < length (blit (blit (physmem s) (f * SIMPAGESIZE) (replicate SIMPAGESIZE 0)) (f * SIMPAGESIZE + 4) (le_bytes 8 va))"
    then have i: "i < length (physmem s)" using fit s4 by simp
    have l: "length (blit (physmem s) (f * SIMPAGESIZE) (replicate SIMPAGESIZE 0)) = length (physmem s)"
      using fit by simp
    show "blit (blit (physmem s) (f * SIMPAGESIZE) (replicate SIMPAGESIZE 0)) (f * SIMPAGESIZE + 4) (le_bytes 8 va) ! i =
        blit (physmem s) (f * SIMPAGESIZE) (fresh_page va) ! i"
      using fit i s4 l unfolding fresh_page_def
      by (auto simp: nth_blit)
  qed
  then show ?thesis using fit by (simp add: init_frame_def Let_def)
qed

lemma pte_upd_put:
  "dir_ok s \<Longrightarrow> entry_at s k = Some c \<Longrightarrow> pte_upd (put_entry s k e) (ptr_of s k) f = Inr (put_entry s k (f e))"
  using pte_upd_at [of "put_entry s k e" k e f] by (simp add: entry_at_put put_put)

lemma put_entry_swap:
  "put_entry (s\<lparr>physmem := pm\<rparr>) k e = (put_entry s k e)\<lparr>physmem := pm\<rparr>"
  by (simp add: put_entry_def ptr_of_def split: prod.split)

lemma first_use:
  assumes res: "reserved content ginv m s k f K" and e: "entry_at s k = Some e" "\<not> is_valid e" "\<not> on_swap e"
    and m: "m \<le> 2 ^ 20"
  obtains s7 where
    "bindE (pte_upd s (ptr_of s k) (pte_frame_update (\<lambda>_. push_bit PAGE_SHIFT (of_nat f)))) (\<lambda>s3.
     bindE (init_frame f va s3) (\<lambda>s4.
     bindE (pte_upd s4 (ptr_of s k) (pte_frame_update (\<lambda>w. w OR PG_DIRTY))) (\<lambda>s5.
       Inr (set_frame f (vaddr_update (\<lambda>_. page_addr va)) s5)))) = Inr s7"
    "page_ready content ginv m s7 k ((view content s)(k \<mapsto> fresh_page va))"
    "remote s7 = remote s" "pgdir s7 = pgdir s"
    "hit_count s7 = hit_count s" "miss_count s7 = miss_count s" "ref_count s7 = ref_count s"
proof -
  have ok: "tables_ok content m s K" and f: "f < m" using res by (auto simp: reserved_def)
  note D = tables_okD [OF ok]
  have f20: "f < 2 ^ 20" using f m by simp
  define e3 where "e3 = e\<lparr>pte_frame := push_bit PAGE_SHIFT (of_nat f)\<rparr>"
  define e7 where "e7 = e\<lparr>pte_frame := push_bit PAGE_SHIFT (of_nat f) OR PG_DIRTY\<rparr>"
  define pm where "pm = blit (physmem s) (f * SIMPAGESIZE) (fresh_page va)"
  define s' where "s' = s\<lparr>physmem := pm\<rparr>"
  have s': "entry_at s' = entry_at s" "ptr_of s' = ptr_of s" "dir_ok s'"
    using entry_at_cong [of s' s] ptr_of_cong [of s' s] dir_ok_cong [of s' s] D(1) by (simp_all add: s'_def)
  define s7 where "s7 = set_frame f (vaddr_update (\<lambda>_. page_addr va)) (put_entry s' k e7)"
  have 1: "pte_upd s (ptr_of s k) (pte_frame_update (\<lambda>_. push_bit PAGE_SHIFT (of_nat f))) = Inr (put_entry s k e3)"
    using pte_upd_at [OF e(1)] by (simp add: e3_def)
  have 2: "init_frame f va (put_entry s k e3) = Inr (put_entry s' k e3)"
    using init_frame_ok [of "put_entry s k e3" m f va] pages_okD(1) [OF D(4)] f
    by (simp add: s'_def pm_def put_entry_swap)
  have 3: "pte_upd (put_entry s' k e3) (ptr_of s k) (pte_frame_update (\<lambda>w. w OR PG_DIRTY)) = Inr (put_entry s' k e7)"
    using pte_upd_put [OF s'(3), of k e e3] s'(1,2) e(1) by (simp add: e3_def e7_def o_def)
  have fl: "frame_no e7 = f" "swap_off e7 = swap_off e" "on_swap e7 = on_swap e" "is_dirty e7"
    using miss_flags [OF f20, of e] e(3) by (simp_all add: e7_def)
  have "page_ready content ginv m s7 k ((view content s)(k \<mapsto> fresh_page va))"
  proof (rule ready_placed [OF res e(1,2) length_fresh_page fl(1-3) disjI1 [OF fl(4)], where h = "vaddr_update (\<lambda>_. page_addr va)"])
    show "pgtbls s7 = pgtbls (put_entry s k e7)"
      by (simp add: s7_def put_entry_def s'_def ptr_of_def split: prod.split)
  qed (simp_all add: s7_def s'_def pm_def set_frame_def)
  then show ?thesis using that [of s7] 1 2 3 by (simp add: s7_def s'_def)
qed

lemma swapped_in:
  assumes res: "reserved content ginv m s k f K" and e: "entry_at s k = Some e" "\<not> is_valid e" "on_swap e"
    and m: "m \<le> 2 ^ 20" and laws: "remote_laws (rlib env) content room"
  obtains s7 where
    "bindE (pte_read s (ptr_of s k)) (\<lambda>e2.
     bindE (swap_pagein env f (swap_off e2) s) (\<lambda>s3.
     bindE (pte_upd s3 (ptr_of s k) (pte_frame_update (\<lambda>_. push_bit PAGE_SHIFT (of_nat f)))) (\<lambda>s4.
     bindE (pte_upd s4 (ptr_of s k) (pte_frame_update (\<lambda>w. w AND NOT PG_DIRTY))) (\<lambda>s5.
     bindE (pte_upd s5 (ptr_of s k) (pte_frame_update (\<lambda>w. w OR PG_ONSWAP))) (\<lambda>s6.
       Inr (set_frame f (vaddr_update (\<lambda>_. page_addr va)) s6)))))) = Inr s7"
    "page_ready content ginv m s7 k (view content s)" "view content s k \<noteq> None"
    "room (remote s7) = room (remote s)" "pgdir s7 = pgdir s"
    "hit_count s7 = hit_count s" "miss_count s7 = miss_count s" "ref_count s7 = ref_count s"
proof -
  have ok: "tables_ok content m s K" and f: "f < m" using res by (auto simp: reserved_def)
  note D = tables_okD [OF ok]
  note P = pages_okD [OF D(4)]
  have f20: "f < 2 ^ 20" using f m by simp
  obtain bs where bs: "content (remote s) (r_addr (swap_off e)) = Some bs" using P(7) [OF e(1,3)] by auto
  obtain bs' r where g: "getRemoteMem (rlib env) (r_addr (swap_off e)) (remote s) = (bs', r)"
    by (cases "getRemoteMem (rlib env) (r_addr (swap_off e)) (remote s)")
  have r: "SIMPAGESIZE \<le> length bs'" "take SIMPAGESIZE bs' = bs" "content r = content (remote s)" "room r = room (remote s)"
    using laws bs g unfolding remote_laws_def by blast+
  have len: "length bs = SIMPAGESIZE" using r(1,2) by auto
  have fit: "f * SIMPAGESIZE + SIMPAGESIZE \<le> length (physmem s)"
    using f P(1) mult_le_mono1 [of "Suc f" m SIMPAGESIZE] by simp
  define s' where "s' = s\<lparr>physmem := blit (physmem s) (f * SIMPAGESIZE) bs, remote := r\<rparr>"
  define e4 where "e4 = e\<lparr>pte_frame := push_bit PAGE_SHIFT (of_nat f)\<rparr>"
  define e5 where "e5 = e\<lparr>pte_frame := push_bit PAGE_SHIFT (of_nat f) AND NOT PG_DIRTY\<rparr>"
  define e7 where "e7 = e\<lparr>pte_frame := (push_bit PAGE_SHIFT (of_nat f) AND NOT PG_DIRTY) OR PG_ONSWAP\<rparr>"
  have s': "entry_at s' = entry_at s" "ptr_of s' = ptr_of s" "dir_ok s'"
    using entry_at_cong [of s' s] ptr_of_cong [of s' s] dir_ok_cong [of s' s] D(1) by (simp_all add: s'_def)
  define s7 where "s7 = set_frame f (vaddr_update (\<lambda>_. page_addr va)) (put_entry s' k e7)"
  have 1: "swap_pagein env f (swap_off e) s = Inr s'"
    using g r(1,2) fit by (simp add: swap_pagein_def s'_def Let_def)
  have e': "entry_at s' k = Some e" using e(1) s'(1) by simp
  have 2: "pte_upd s' (ptr_of s k) (pte_frame_update (\<lambda>_. push_bit PAGE_SHIFT (of_nat f))) = Inr (put_entry s' k e4)"
    "pte_upd (put_entry s' k e4) (ptr_of s k) (pte_frame_update (\<lambda>w. w AND NOT PG_DIRTY)) = Inr (put_entry s' k e5)"
    "pte_upd (put_entry s' k e5) (ptr_of s k) (pte_frame_update (\<lambda>w. w OR PG_ONSWAP)) = Inr (put_entry s' k e7)"
    using pte_upd_at [OF e'] pte_upd_put [OF s'(3) e'] s'(2) by (simp_all add: e4_def e5_def e7_def o_def)
  have fl: "frame_no e7 = f" "swap_off e7 = swap_off e" "on_swap e7 = on_swap e"
    using miss_flags [OF f20, of e] e(3) by (simp_all add: e7_def)
  have vk: "view content s k = Some bs" using e bs by (simp add: view_def contents_def)
  have "page_ready content ginv m s7 k ((view content s)(k \<mapsto> bs))"
  proof (rule ready_placed [OF res e(1,2) len fl, where h = "vaddr_update (\<lambda>_. page_addr va)"])
    show "is_dirty e7 \<or> on_swap e \<and> content (remote s) (r_addr (swap_off e)) = Some bs" using e(3) bs by simp
    show "pgtbls s7 = pgtbls (put_entry s k e7)"
      by (simp add: s7_def put_entry_def s'_def ptr_of_def split: prod.split)
  qed (simp_all add: s7_def s'_def set_frame_def r(3))
  moreover have "(view content s)(k \<mapsto> bs) = view content s" using vk by auto
  ultimately have "page_ready content ginv m s7 k (view content s)" by simp
  then show ?thesis using that [of s7] 1 2 pte_read_at [OF e(1)] vk r(4) by (simp add: s7_def s'_def)
qed

section \<open>One reference\<close>

definition page_of :: "u64 \<Rightarrow> page" where
  "page_of va = (PGDIR_INDEX va, PGTBL_INDEX va)"

lemma PGTBL_INDEX_less: "PGTBL_INDEX va < PTRS_PER_PGTBL"
proof -
  have "drop_bit PAGE_SHIFT va AND 0xfff \<le> (0xfff :: u64)" by (rule word_and_le1)
  then show ?thesis by (simp add: PGTBL_INDEX_def PTRS_PER_PGTBL_def word_le_nat_alt)
qed

lemma open_table:
  assumes inv: "sim_inv content ginv m s" and al: "memalign_ok env" and d: "PGDIR_INDEX va < PTRS_PER_PGDIR"
  obtains s1 e where
    "(if pgdir s (PGDIR_INDEX va) = 0
      then bindE (init_second_level env s) (\<lambda>(pde, s1). Inr (s1\<lparr>pgdir := (pgdir s1)(PGDIR_INDEX va := pde)\<rparr>))
      else Inr s) = Inr s1"
    "sim_inv content ginv m s1" "view content s1 = view content s" "entry_at s1 (page_of va) = Some e"
    "remote s1 = remote s" "hit_count s1 = hit_count s" "miss_count s1 = miss_count s" "ref_count s1 = ref_count s"
proof (cases "pgdir s (PGDIR_INDEX va) = 0")
  case False
  obtain K where "tables_ok content m s K" using inv by (auto simp: sim_inv_def)
  then have "dir_ok s" by (rule tables_okD(1))
  then have "pgdir s (PGDIR_INDEX va) - 1 \<in> dom (pgtbls s)" using d False by (auto simp: dir_ok_def)
  then have "\<exists>e. entry_at s (page_of va) = Some e"
    using d False PGTBL_INDEX_less [of va] by (auto simp: entry_at_def page_of_def)
  then show ?thesis using that [of s] inv False by auto
next
  case True
  let ?d = "PGDIR_INDEX va"
  obtain K where K: "tables_ok content m s K" "dom K = used_frames s" using inv by (auto simp: sim_inv_def)
  note D = tables_okD [OF K(1)]
  obtain s1 b where n: "init_second_level env s = Inr (b OR ucast PG_VALID, s1)" "s1 = s\<lparr>pgtbls := pgtbls s1\<rparr>"
    "dir_ok (s1\<lparr>pgdir := (pgdir s1)(?d := b OR ucast PG_VALID)\<rparr>)"
    "\<And>k e. entry_at s k = Some e \<Longrightarrow>
       entry_at (s1\<lparr>pgdir := (pgdir s1)(?d := b OR ucast PG_VALID)\<rparr>) k = Some e \<and>
       ptr_of (s1\<lparr>pgdir := (pgdir s1)(?d := b OR ucast PG_VALID)\<rparr>) k = ptr_of s k"
    "\<And>k e. entry_at (s1\<lparr>pgdir := (pgdir s1)(?d := b OR ucast PG_VALID)\<rparr>) k = Some e \<Longrightarrow> entry_at s k = None \<Longrightarrow>
       \<not> is_valid e \<and> \<not> on_swap e \<and> swap_info (swap_off e) = INVALID_SWAP"
    "\<And>t. t < PTRS_PER_PGTBL \<Longrightarrow> entry_at (s1\<lparr>pgdir := (pgdir s1)(?d := b OR ucast PG_VALID)\<rparr>) (?d, t) \<noteq> None"
    by (rule new_table [OF D(1) d True al]) (rule that)
  define s2 where "s2 = s1\<lparr>pgdir := (pgdir s1)(?d := b OR ucast PG_VALID)\<rparr>"
  note n' = n(3-6) [folded s2_def]
  have f: "coremap s2 = coremap s" "physmem s2 = physmem s" "remote s2 = remote s" "pol s2 = pol s"
    "hit_count s2 = hit_count s" "miss_count s2 = miss_count s" "ref_count s2 = ref_count s"
    using n(2) by (cases s; cases s1; simp add: s2_def)+
  have ex: "pages_ok m (entry_at s2) (content (remote s)) K (physmem s)"
    "contents (entry_at s2) (content (remote s)) (physmem s) = contents (entry_at s) (content (remote s)) (physmem s)"
    using extend_ok [OF D(4), of "entry_at s2"] n'(2,3) by blast+
  have ptr: "pte (coremap s2 ! g) = ptr_of s2 j" if "K g = Some j" for g j
    using D(3) [OF that] pages_okD(5) [OF D(4) that] n'(2) [of j] f(1) by auto
  have "tables_ok content m s2 K"
    unfolding tables_ok_def using n'(1) D(2) f ex(1) ptr by (auto simp del: split_paired_All)
  moreover have "used_frames s2 = used_frames s" by (simp add: used_frames_def f)
  ultimately have "sim_inv content ginv m s2" using K(2) inv f by (auto simp: sim_inv_def)
  moreover have "view content s2 = view content s" using ex(2) f by (simp add: view_def)
  moreover obtain e where "entry_at s2 (page_of va) = Some e"
    using n'(4) [OF PGTBL_INDEX_less] by (auto simp: page_of_def)
  ultimately show ?thesis using that [of s2 e] n(1) True f by (simp add: s2_def)
qed

text \<open>The flags set on every reference.\<close>

definition marked :: "char \<Rightarrow> u32 \<Rightarrow> u32" where
  "marked type w =
     (let w1 = (w OR PG_VALID) OR PG_REF in if type = CHR ''M'' \<or> type = CHR ''S'' then w1 OR PG_DIRTY else w1)"

lemma marked_flags:
  "is_valid (e\<lparr>pte_frame := marked type (pte_frame e)\<rparr>)" "frame_of (marked type w) = frame_of w"
  "on_swap (e\<lparr>pte_frame := marked type (pte_frame e)\<rparr>) = on_swap e"
  "is_dirty (e\<lparr>pte_frame := marked type (pte_frame e)\<rparr>) \<longleftrightarrow> is_dirty e \<or> type = CHR ''M'' \<or> type = CHR ''S''"
  by (auto simp: marked_def Let_def flag_defs bit_or_iff pg_bits)

definition in_frame :: "('g, 'r) sim \<Rightarrow> page \<Rightarrow> char \<Rightarrow> nat \<Rightarrow> bool" where
  "in_frame s k type memptr \<longleftrightarrow>
     (\<exists>e. entry_at s k = Some e \<and> is_valid e \<and> memptr = frame_no e * SIMPAGESIZE \<and>
        (type = CHR ''M'' \<or> type = CHR ''S'' \<longrightarrow> is_dirty e))"

lemma mark_page:
  assumes rdy: "page_ready content ginv m s k M" and ev: "evictor (ref_fcn env) (evict_fcn env) ginv"
  obtains s' memptr where
    "bindE (pte_upd (s\<lparr>ref_count := Suc (ref_count s)\<rparr>) (ptr_of s k) (pte_frame_update (marked type))) (\<lambda>s8.
     bindE (pte_read s8 (ptr_of s k)) (\<lambda>e8.
     bindE (ref_fcn env (pte_frame e8) (pol s8)) (\<lambda>g.
       Inr (frame_of (pte_frame e8) * SIMPAGESIZE, s8\<lparr>pol := g\<rparr>)))) = Inr (memptr, s')"
    "sim_inv content ginv m s'" "view content s' = M" "in_frame s' k type memptr" "remote s' = remote s"
    "hit_count s' = hit_count s" "miss_count s' = miss_count s" "ref_count s' = Suc (ref_count s)"
proof -
  obtain f K e U where r: "dir_ok s" "length (coremap s) = m" "f < m"
    "\<And>g j. K g = Some j \<Longrightarrow> pte (coremap s ! g) = ptr_of s j" "dom K = used_frames s"
    "insert f U = used_frames s" "ginv m U (pol s)" "entry_at s k = Some e" "frame_no e = f"
    and fin: "\<And>e'. is_valid e' \<Longrightarrow> frame_no e' = f \<Longrightarrow> swap_off e' = swap_off e \<Longrightarrow> on_swap e' = on_swap e \<Longrightarrow>
          (is_dirty e \<longrightarrow> is_dirty e') \<Longrightarrow>
          pages_ok m ((entry_at s)(k \<mapsto> e')) (content (remote s)) K (physmem s) \<and>
          contents ((entry_at s)(k \<mapsto> e')) (content (remote s)) (physmem s) = M"
    using rdy unfolding page_ready_def by blast
  define e8 where "e8 = e\<lparr>pte_frame := marked type (pte_frame e)\<rparr>"
  have fl: "is_valid e8" "frame_no e8 = f" "swap_off e8 = swap_off e" "on_swap e8 = on_swap e"
    "is_dirty e8 \<longleftrightarrow> is_dirty e \<or> type = CHR ''M'' \<or> type = CHR ''S''"
    using r(9) by (simp_all add: e8_def marked_flags)
  have pages: "pages_ok m ((entry_at s)(k \<mapsto> e8)) (content (remote s)) K (physmem s)"
    "contents ((entry_at s)(k \<mapsto> e8)) (content (remote s)) (physmem s) = M"
    using fin [OF fl(1-4)] fl(5) by auto
  define s0 where "s0 = s\<lparr>ref_count := Suc (ref_count s)\<rparr>"
  have s0: "entry_at s0 = entry_at s" "ptr_of s0 = ptr_of s" "dir_ok s0"
    using entry_at_cong [of s0 s] ptr_of_cong [of s0 s] dir_ok_cong [of s0 s] r(1) by (simp_all add: s0_def)
  define s8 where "s8 = put_entry s0 k e8"
  have e0: "entry_at s0 k = Some e" using r(8) s0(1) by simp
  have en: "entry_at s8 = (entry_at s)(k \<mapsto> e8)"
    using entry_at_put [OF s0(3) e0, of e8] by (simp add: s8_def s0(1))
  have up: "pte_upd s0 (ptr_of s k) (pte_frame_update (marked type)) = Inr s8"
    using pte_upd_at [OF e0] s0(2) by (cases e) (simp add: s8_def e8_def)
  have rd: "pte_read s8 (ptr_of s k) = Inr e8"
    using pte_read_at [of s8 k e8] en s0(2) by (simp add: s8_def)
  obtain g where g: "ref_fcn env (pte_frame e8) (pol s) = Inr g" "ginv m (insert f U) g"
    using evictor.ref_ok [OF ev r(7), of "pte_frame e8"] r(3) fl(2) by auto
  define s' where "s' = s8\<lparr>pol := g\<rparr>"
  have f8: "remote s8 = remote s" "physmem s8 = physmem s" "coremap s8 = coremap s" "pol s8 = pol s"
    "hit_count s8 = hit_count s" "miss_count s8 = miss_count s" "ref_count s8 = Suc (ref_count s)"
    by (simp_all add: s8_def s0_def)
  have en': "entry_at s' = (entry_at s)(k \<mapsto> e8)" using entry_at_cong [of s' s8] en by (simp add: s'_def)
  have "ptr_of s' = ptr_of s" using ptr_of_cong [of s' s0] s0(2) by (simp add: s'_def s8_def)
  moreover have "dir_ok s'"
    using dir_ok_put [OF s0(3) e0, of e8] dir_ok_cong [of s' s8] by (simp add: s'_def s8_def)
  moreover have us: "used_frames s' = used_frames s" by (simp add: used_frames_def s'_def f8)
  ultimately have "tables_ok content m s' K"
    unfolding tables_ok_def using r(2,4) pages(1) en' by (simp add: s'_def f8)
  then have "sim_inv content ginv m s'"
    unfolding sim_inv_def us using r(5,6) g(2) by (auto simp: s'_def)
  moreover have "view content s' = M" using pages(2) en' by (simp add: view_def s'_def f8)
  moreover have "in_frame s' k type (f * SIMPAGESIZE)" using en' fl by (auto simp: in_frame_def)
  ultimately show ?thesis
    using up rd g(1) fl(2) by (intro that [of "f * SIMPAGESIZE" s']) (simp_all add: f8 s'_def flip: s0_def)
qed

text \<open>The pages after a reference, before the version counter is touched.\<close>

definition touch :: "u64 \<Rightarrow> (page \<rightharpoonup> bytes) \<Rightarrow> (page \<rightharpoonup> bytes)" where
  "touch va M = (case M (page_of va) of None \<Rightarrow> M(page_of va \<mapsto> fresh_page va) | Some bs \<Rightarrow> M)"

lemma sim_inv_cong:
  assumes "pgdir s' = pgdir s" "pgtbls s' = pgtbls s" "coremap s' = coremap s" "physmem s' = physmem s"
    "remote s' = remote s" "pol s' = pol s"
  shows "sim_inv content ginv m s' = sim_inv content ginv m s" "view content s' = view content s"
    "entry_at s' = entry_at s" "ptr_of s' = ptr_of s"
  using assms entry_at_cong [of s' s] ptr_of_cong [of s' s] dir_ok_cong [of s' s]
  by (simp_all add: sim_inv_def tables_ok_def used_frames_def view_def)

lemma find_physpage_ok:
  assumes laws: "remote_laws (rlib env) content room" and ev: "evictor (ref_fcn env) (evict_fcn env) ginv"
    and inv: "sim_inv content ginv m s" and m: "memsize env = m" "0 < m" "m \<le> 2 ^ 20"
    and al: "memalign_ok env" and d: "PGDIR_INDEX va < PTRS_PER_PGDIR" and room: "0 < room (remote s)"
  obtains s' memptr where "find_physpage env va type s = Inr (memptr, s')" "sim_inv content ginv m s'"
    "view content s' = touch va (view content s)" "in_frame s' (page_of va) type memptr"
    "room (remote s) \<le> Suc (room (remote s'))"
    "hit_count s' + miss_count s' = Suc (hit_count s + miss_count s)" "ref_count s' = Suc (ref_count s)"
proof -
  obtain s1 e where o: "(if pgdir s (PGDIR_INDEX va) = 0
      then bindE (init_second_level env s) (\<lambda>(pde, s1). Inr (s1\<lparr>pgdir := (pgdir s1)(PGDIR_INDEX va := pde)\<rparr>))
      else Inr s) = Inr s1"
    "sim_inv content ginv m s1" "view content s1 = view content s" "entry_at s1 (page_of va) = Some e"
    "remote s1 = remote s" "hit_count s1 = hit_count s" "miss_count s1 = miss_count s" "ref_count s1 = ref_count s"
    by (rule open_table [OF inv al d])
  let ?k = "page_of va"
  let ?p = "ptr_of s1 ?k"
  have p: "(pgdir s1 (PGDIR_INDEX va) - 1, PGTBL_INDEX va) = ?p" by (simp add: ptr_of_def page_of_def)
  have rd: "pte_read s1 ?p = Inr e" by (rule pte_read_at [OF o(4)])
  define brk where "brk = (if pte_frame e AND PG_VALID = 0 \<and> pte_frame e AND PG_ONSWAP = 0 then
             bindE (allocate_frame env ?p (s1\<lparr>miss_count := Suc (miss_count s1)\<rparr>)) (\<lambda>(f, s2).
             bindE (pte_upd s2 ?p (pte_frame_update (\<lambda>_. push_bit PAGE_SHIFT (of_nat f)))) (\<lambda>s3.
             bindE (init_frame f va s3) (\<lambda>s4.
             bindE (pte_upd s4 ?p (pte_frame_update (\<lambda>w. w OR PG_DIRTY))) (\<lambda>s5.
               Inr (set_frame f (vaddr_update (\<lambda>_. page_addr va)) s5)))))
           else if pte_frame e AND PG_VALID = 0 \<and> pte_frame e AND PG_ONSWAP \<noteq> 0 then
             bindE (allocate_frame env ?p (s1\<lparr>miss_count := Suc (miss_count s1)\<rparr>)) (\<lambda>(f, s2).
             bindE (pte_read s2 ?p) (\<lambda>e2.
             bindE (swap_pagein env f (swap_off e2) s2) (\<lambda>s3.
             bindE (pte_upd s3 ?p (pte_frame_update (\<lambda>_. push_bit PAGE_SHIFT (of_nat f)))) (\<lambda>s4.
             bindE (pte_upd s4 ?p (pte_frame_update (\<lambda>w. w AND NOT PG_DIRTY))) (\<lambda>s5.
             bindE (pte_upd s5 ?p (pte_frame_update (\<lambda>w. w OR PG_ONSWAP))) (\<lambda>s6.
               Inr (set_frame f (vaddr_update (\<lambda>_. page_addr va)) s6)))))))
           else Inr (s1\<lparr>hit_count := Suc (hit_count s1)\<rparr>))"
  have fp: "find_physpage env va type s = bindE brk (\<lambda>s7.
      bindE (pte_upd (s7\<lparr>ref_count := Suc (ref_count s7)\<rparr>) ?p (pte_frame_update (marked type))) (\<lambda>s8.
      bindE (pte_read s8 ?p) (\<lambda>e8.
      bindE (ref_fcn env (pte_frame e8) (pol s8)) (\<lambda>g.
        Inr (frame_of (pte_frame e8) * SIMPAGESIZE, s8\<lparr>pol := g\<rparr>)))))"
    using d unfolding find_physpage_def Let_def o(1) bindE_simps p rd brk_def marked_def by simp
  have "\<exists>s7. brk = Inr s7 \<and> page_ready content ginv m s7 ?k (touch va (view content s)) \<and> pgdir s7 = pgdir s1 \<and>
      room (remote s) \<le> Suc (room (remote s7)) \<and>
      hit_count s7 + miss_count s7 = Suc (hit_count s + miss_count s) \<and> ref_count s7 = ref_count s"
  proof (cases "is_valid e")
    case True
    let ?s7 = "s1\<lparr>hit_count := Suc (hit_count s1)\<rparr>"
    have c: "sim_inv content ginv m ?s7" "view content ?s7 = view content s" "entry_at ?s7 ?k = Some e"
      using sim_inv_cong [of ?s7 s1] o by simp_all
    have "view content s1 ?k \<noteq> None" using o(4) True by (simp add: view_def contents_def)
    then have "touch va (view content s) = view content s" using o(3) by (auto simp: touch_def)
    then show ?thesis
      using ready_hit [OF c(1,3) True] c(2) True o(5-8) by (simp add: brk_def pg_tests)
  next
    case False
    define s1' where "s1' = s1\<lparr>miss_count := Suc (miss_count s1)\<rparr>"
    have c: "sim_inv content ginv m s1'" "view content s1' = view content s" "entry_at s1' ?k = Some e" "ptr_of s1' = ptr_of s1"
      using sim_inv_cong [of s1' s1] o by (simp_all add: s1'_def)
    have room': "0 < room (remote s1')" using room o(5) by (simp add: s1'_def)
    obtain f s2 K where a: "allocate_frame env (ptr_of s1' ?k) s1' = Inr (f, s2)" "reserved content ginv m s2 ?k f K"
      "view content s2 = view content s1'" "entry_at s2 ?k = Some e" "pgdir s2 = pgdir s1'"
      "room (remote s1') \<le> Suc (room (remote s2))"
      "hit_count s2 = hit_count s1'" "miss_count s2 = miss_count s1'" "ref_count s2 = ref_count s1'"
      by (rule allocate_frame_ok [OF laws ev c(1) m(1,2) room' c(3) False])
    have p2: "ptr_of s2 = ptr_of s1" using ptr_of_cong [OF a(5)] c(4) by simp
    have r2: "room (remote s) \<le> Suc (room (remote s2))" using a(6) o(5) by (simp add: s1'_def)
    have cnt: "hit_count s2 = hit_count s" "miss_count s2 = Suc (miss_count s)" "ref_count s2 = ref_count s"
      "pgdir s2 = pgdir s1"
      using a(5,7-9) o(6-8) by (simp_all add: s1'_def)
    show ?thesis
    proof (cases "on_swap e")
      case False
      note ns = False
      have "view content s1 ?k = None" using o(4) ns \<open>\<not> is_valid e\<close> by (simp add: view_def contents_def)
      then have none: "view content s ?k = None" using o(3) by simp
      obtain s7 where
        "bindE (pte_upd s2 (ptr_of s2 ?k) (pte_frame_update (\<lambda>_. push_bit PAGE_SHIFT (of_nat f)))) (\<lambda>s3.
         bindE (init_frame f va s3) (\<lambda>s4.
         bindE (pte_upd s4 (ptr_of s2 ?k) (pte_frame_update (\<lambda>w. w OR PG_DIRTY))) (\<lambda>s5.
           Inr (set_frame f (vaddr_update (\<lambda>_. page_addr va)) s5)))) = Inr s7"
        "page_ready content ginv m s7 ?k ((view content s2)(?k \<mapsto> fresh_page va))"
        "remote s7 = remote s2" "pgdir s7 = pgdir s2"
        "hit_count s7 = hit_count s2" "miss_count s7 = miss_count s2" "ref_count s7 = ref_count s2"
        by (rule first_use [OF a(2,4) \<open>\<not> is_valid e\<close> ns m(3), of va])
      moreover have "(view content s2)(?k \<mapsto> fresh_page va) = touch va (view content s)"
        using a(3) c(2) none by (simp add: touch_def)
      ultimately show ?thesis
        using a(1) c(4) p2 \<open>\<not> is_valid e\<close> ns r2 cnt unfolding brk_def pg_tests
        by (intro exI [of _ s7]) (simp del: bindE_eq_Inr flip: s1'_def)
    next
      case True
      obtain s7 where
        "bindE (pte_read s2 (ptr_of s2 ?k)) (\<lambda>e2.
         bindE (swap_pagein env f (swap_off e2) s2) (\<lambda>s3.
         bindE (pte_upd s3 (ptr_of s2 ?k) (pte_frame_update (\<lambda>_. push_bit PAGE_SHIFT (of_nat f)))) (\<lambda>s4.
         bindE (pte_upd s4 (ptr_of s2 ?k) (pte_frame_update (\<lambda>w. w AND NOT PG_DIRTY))) (\<lambda>s5.
         bindE (pte_upd s5 (ptr_of s2 ?k) (pte_frame_update (\<lambda>w. w OR PG_ONSWAP))) (\<lambda>s6.
           Inr (set_frame f (vaddr_update (\<lambda>_. page_addr va)) s6)))))) = Inr s7"
        "page_ready content ginv m s7 ?k (view content s2)" "view content s2 ?k \<noteq> None"
        "room (remote s7) = room (remote s2)" "pgdir s7 = pgdir s2"
        "hit_count s7 = hit_count s2" "miss_count s7 = miss_count s2" "ref_count s7 = ref_count s2"
        by (rule swapped_in [OF a(2,4) \<open>\<not> is_valid e\<close> True m(3) laws, of va])
      moreover from this(3) have "view content s2 = touch va (view content s)"
        using a(3) c(2) by (auto simp: touch_def)
      ultimately show ?thesis
        using a(1) c(4) p2 \<open>\<not> is_valid e\<close> True r2 cnt unfolding brk_def pg_tests
        by (intro exI [of _ s7]) (simp del: bindE_eq_Inr flip: s1'_def)
    qed
  qed
  then obtain s7 where s7: "brk = Inr s7" "page_ready content ginv m s7 ?k (touch va (view content s))"
    "pgdir s7 = pgdir s1" "room (remote s) \<le> Suc (room (remote s7))"
    "hit_count s7 + miss_count s7 = Suc (hit_count s + miss_count s)" "ref_count s7 = ref_count s" by blast
  have p7: "ptr_of s7 = ptr_of s1" by (rule ptr_of_cong [OF s7(3)])
  show ?thesis
    by (rule mark_page [OF s7(2) ev, of type], rule that)
      (use fp s7 p7 in \<open>simp_all\<close>)
qed

section \<open>Traces\<close>

text \<open>
  The memory a trace describes: a page holds, from its first reference on, the address of that
  reference and the number of writes.
\<close>

definition bump :: "bytes \<Rightarrow> bytes" where
  "bump bs = blit bs 0 (le_bytes 4 (le_word (slice bs 0 4) + 1 :: u32))"

definition ref_page :: "char \<times> u64 \<Rightarrow> (page \<rightharpoonup> bytes) \<Rightarrow> (page \<rightharpoonup> bytes)" where
  "ref_page = (\<lambda>(type, va) M.
     let M' = touch va M in
     if type = CHR ''S'' \<or> type = CHR ''M'' then M'(page_of va \<mapsto> bump (the (M' (page_of va)))) else M')"

lemma bump_page:
  assumes "f * SIMPAGESIZE + SIMPAGESIZE \<le> length pm"
  shows "blit pm (f * SIMPAGESIZE) (le_bytes 4 (le_word (slice pm (f * SIMPAGESIZE) 4) + 1 :: u32)) =
    blit pm (f * SIMPAGESIZE) (bump (page_at pm f))" "length (bump (page_at pm f)) = SIMPAGESIZE"
proof -
  have s4: "4 \<le> SIMPAGESIZE" by (simp add: SIMPAGESIZE_def)
  have len: "length (page_at pm f) = SIMPAGESIZE" using assms by (simp add: page_at_def)
  show lb: "length (bump (page_at pm f)) = SIMPAGESIZE" using len s4 by (simp add: bump_def)
  have sl: "slice (page_at pm f) 0 4 = slice pm (f * SIMPAGESIZE) 4" using s4 by (simp add: page_at_def slice_slice)
  let ?v = "le_bytes 4 (le_word (slice pm (f * SIMPAGESIZE) 4) + 1 :: u32)"
  show "blit pm (f * SIMPAGESIZE) ?v = blit pm (f * SIMPAGESIZE) (bump (page_at pm f))"
  proof (rule nth_equalityI)
    show "length (blit pm (f * SIMPAGESIZE) ?v) = length (blit pm (f * SIMPAGESIZE) (bump (page_at pm f)))"
      using assms s4 lb by simp
    fix i assume "i < length (blit pm (f * SIMPAGESIZE) ?v)"
    then have i: "i < length pm" using assms s4 by simp
    have "page_at pm f ! j = pm ! (f * SIMPAGESIZE + j)" if "j < SIMPAGESIZE" for j
      using that assms by (simp add: page_at_def slice_def)
    then show "blit pm (f * SIMPAGESIZE) ?v ! i = blit pm (f * SIMPAGESIZE) (bump (page_at pm f)) ! i"
      using assms i s4 len lb unfolding bump_def sl by (auto simp: nth_blit)
  qed
qed

lemma access_mem_ok:
  assumes laws: "remote_laws (rlib env) content room" and ev: "evictor (ref_fcn env) (evict_fcn env) ginv"
    and inv: "sim_inv content ginv m s" and m: "memsize env = m" "0 < m" "m \<le> 2 ^ 20"
    and al: "memalign_ok env" and d: "PGDIR_INDEX va < PTRS_PER_PGDIR" and room: "0 < room (remote s)"
  obtains s' where "access_mem env type va s = Inr s'" "sim_inv content ginv m s'"
    "view content s' = ref_page (type, va) (view content s)" "room (remote s) \<le> Suc (room (remote s'))"
    "hit_count s' + miss_count s' = Suc (hit_count s + miss_count s)" "ref_count s' = Suc (ref_count s)"
proof -
  obtain s1 memptr where f: "find_physpage env va type s = Inr (memptr, s1)" "sim_inv content ginv m s1"
    "view content s1 = touch va (view content s)" "in_frame s1 (page_of va) type memptr"
    "room (remote s) \<le> Suc (room (remote s1))"
    "hit_count s1 + miss_count s1 = Suc (hit_count s + miss_count s)" "ref_count s1 = Suc (ref_count s)"
    by (rule find_physpage_ok [OF assms])
  obtain e where e: "entry_at s1 (page_of va) = Some e" "is_valid e" "memptr = frame_no e * SIMPAGESIZE"
    "type = CHR ''M'' \<or> type = CHR ''S'' \<longrightarrow> is_dirty e" using f(4) by (auto simp: in_frame_def)
  obtain K where K: "tables_ok content m s1 K" "dom K = used_frames s1" using f(2) by (auto simp: sim_inv_def)
  note D = tables_okD [OF K(1)]
  note P = pages_okD [OF D(4)]
  have fr: "frame_no e < m" "K (frame_no e) = Some (page_of va)" using P(2,3) [OF e(1,2)] by auto
  have fit: "frame_no e * SIMPAGESIZE + SIMPAGESIZE \<le> length (physmem s1)"
    using fr(1) P(1) mult_le_mono1 [of "Suc (frame_no e)" m SIMPAGESIZE] by simp
  then have fit12: "memptr + 12 \<le> length (physmem s1)" using e(3) by (simp add: SIMPAGESIZE_def)
  show ?thesis
  proof (cases "type = CHR ''S'' \<or> type = CHR ''M''")
    case False
    then show ?thesis using that [of s1] f fit12 by (simp add: access_mem_def ref_page_def)
  next
    case True
    note b = bump_page [OF fit]
    define bs where "bs = bump (page_at (physmem s1) (frame_no e))"
    define s' where "s' = s1\<lparr>physmem := blit (physmem s1) (frame_no e * SIMPAGESIZE) bs\<rparr>"
    have run: "access_mem env type va s = Inr s'"
      using f(1) fit12 True b(1) by (simp add: access_mem_def s'_def bs_def e(3) Let_def)
    have same: "entry_at s' = entry_at s1" "ptr_of s' = ptr_of s1" "dir_ok s' = dir_ok s1"
      using entry_at_cong [of s' s1] ptr_of_cong [of s' s1] dir_ok_cong [of s' s1] by (simp_all add: s'_def)
    have upd: "(entry_at s1)(page_of va \<mapsto> e) = entry_at s1" "K(frame_no e \<mapsto> page_of va) = K"
      using e(1) fr(2) by auto
    have lb: "length bs = SIMPAGESIZE" using b(2) by (simp add: bs_def)
    have dirty: "is_dirty e \<or> on_swap e \<and> content (remote s1) (r_addr (swap_off e)) = Some bs" using e(4) True by auto
    have res: "pages_ok m (entry_at s1) (content (remote s1)) K (physmem s')"
      "contents (entry_at s1) (content (remote s1)) (physmem s') = (view content s1)(page_of va \<mapsto> bs)"
      using place_ok [OF D(4) fr(1) e(1) disjI2 [OF fr(2)] e(2) refl refl refl lb dirty] upd
      by (simp_all add: s'_def view_def)
    have us: "used_frames s' = used_frames s1" by (simp add: used_frames_def s'_def)
    have "tables_ok content m s' K"
      unfolding tables_ok_def same using D res(1) by (simp add: s'_def)
    then have "sim_inv content ginv m s'"
      using K(2) f(2) unfolding sim_inv_def us by (auto simp: s'_def)
    moreover have "view content s1 (page_of va) = Some (page_at (physmem s1) (frame_no e))"
      using e(1,2) by (simp add: view_def contents_def)
    then have "view content s' = ref_page (type, va) (view content s)"
      using res(2) True f(3) same(1) by (simp add: view_def [of content s'] ref_page_def bs_def Let_def) (simp add: s'_def)
    ultimately show ?thesis using that [OF run] f(5-7) by (simp add: s'_def)
  qed
qed

lemma run_refs_ok:
  assumes laws: "remote_laws (rlib env) content room" and ev: "evictor (ref_fcn env) (evict_fcn env) ginv"
    and m: "memsize env = m" "0 < m" "m \<le> 2 ^ 20" and al: "memalign_ok env"
    and inv: "sim_inv content ginv m s" and room: "length refs \<le> room (remote s)"
    and d: "\<And>type va. (type, va) \<in> set refs \<Longrightarrow> PGDIR_INDEX va < PTRS_PER_PGDIR"
  shows "\<exists>s'. run_refs env refs s = Inr s' \<and> view content s' = fold ref_page refs (view content s) \<and>
    hit_count s' + miss_count s' = hit_count s + miss_count s + length refs \<and>
    ref_count s' = ref_count s + length refs"
  using inv room d
proof (induction refs arbitrary: s)
  case (Cons x refs)
  obtain type va where x: "x = (type, va)" by (cases x)
  have "PGDIR_INDEX va < PTRS_PER_PGDIR" using Cons.prems(3) [of type va] x by simp
  moreover have "0 < room (remote s)" using Cons.prems(2) by simp
  ultimately obtain s1 where s1: "access_mem env type va s = Inr s1" "sim_inv content ginv m s1"
    "view content s1 = ref_page (type, va) (view content s)" "room (remote s) \<le> Suc (room (remote s1))"
    "hit_count s1 + miss_count s1 = Suc (hit_count s + miss_count s)" "ref_count s1 = Suc (ref_count s)"
    by (rule access_mem_ok [OF laws ev Cons.prems(1) m al])
  have "length refs \<le> room (remote s1)" using Cons.prems(2) s1(4) by simp
  then obtain s' where "run_refs env refs s1 = Inr s'" "view content s' = fold ref_page refs (view content s1)"
    "hit_count s' + miss_count s' = hit_count s1 + miss_count s1 + length refs"
    "ref_count s' = ref_count s1 + length refs"
    using Cons.IH [OF s1(2)] Cons.prems(3) by fastforce
  then show ?case using s1 by (auto simp: x)
qed simp

lemma sim_start_inv:
  assumes "length cm0 = m" "list_all (\<lambda>c. \<not> in_use c) cm0" "length pm0 = m * SIMPAGESIZE" "ginv m {} g"
  shows "sim_inv content ginv m (sim_start cm0 pm0 r0 g)" "view content (sim_start cm0 pm0 r0 g) = (\<lambda>_. None)"
proof -
  let ?s = "sim_start cm0 pm0 r0 g"
  have e: "entry_at ?s = (\<lambda>_. None)" by (auto simp: entry_at_def sim_start_def init_pagetable_def)
  have u: "used_frames ?s = {}"
    using assms(2) by (auto simp: used_frames_def sim_start_def init_pagetable_def list_all_length)
  have "tables_ok content m ?s (\<lambda>_. None)"
    using assms(1,3) e by (simp add: tables_ok_def pages_ok_def dir_ok_def sim_start_def init_pagetable_def)
  then show "sim_inv content ginv m ?s"
    using u assms(4) by (auto simp: sim_inv_def sim_start_def init_pagetable_def)
  show "view content ?s = (\<lambda>_. None)" by (simp add: view_def contents_def e fun_eq_iff)
qed

lemma trace_refs_Nil: "trace_refs bufs tv = [] \<longleftrightarrow> trace_refs bufs tv' = []"
  by (induction bufs arbitrary: tv tv') (auto simp: Let_def)

lemma sim_run_ok:
  assumes a: "a \<in> set (algs penv (Some txt) tv)" and al: "good_pick (pick_node penv)" "memalign_ok env"
    and m: "0 < memsize env" "memsize env \<le> 2 ^ 20" and laws: "remote_laws (rlib env) content room"
    and refs: "refs = trace_refs (text_lines (MAXLINE - 1) txt) (fst tv, 0)" "refs \<noteq> []" "length refs \<le> room r0"
      "\<And>type va. (type, va) \<in> set refs \<Longrightarrow> PGDIR_INDEX va < PTRS_PER_PGDIR"
    and start: "length cm0 = memsize env" "list_all (\<lambda>c. \<not> in_use c) cm0"
      "length pm0 = memsize env * SIMPAGESIZE"
  shows "\<exists>g s. alg_init a (memsize env) globals0 = Inr g \<and>
    run_refs (env\<lparr>ref_fcn := alg_ref a, evict_fcn := alg_evict a\<rparr>) refs (sim_start cm0 pm0 r0 g) = Inr s \<and>
    view content s = fold ref_page refs (\<lambda>_. None) \<and>
    hit_count s + miss_count s = length refs \<and> ref_count s = length refs"
proof -
  let ?env = "env\<lparr>ref_fcn := alg_ref a, evict_fcn := alg_evict a\<rparr>"
  have tr: "trace_refs (text_lines (MAXLINE - 1) t) tv \<noteq> []" if "Some txt = Some t" for t
    using refs(1,2) trace_refs_Nil [of "text_lines (MAXLINE - 1) txt" tv "(fst tv, 0)"] that by auto
  obtain ginv g where g: "evictor (alg_ref a) (alg_evict a) ginv" "alg_init a (memsize env) globals0 = Inr g"
      "ginv (memsize env) {} g"
    by (rule algs_contract [OF a m(1) al(1) tr]) auto
  note st = sim_start_inv [where ginv = ginv and content = content and ?r0.0 = r0, OF start g(3)]
  have "length refs \<le> room (remote (sim_start cm0 pm0 r0 g))"
    using refs(3) by (simp add: sim_start_def init_pagetable_def)
  moreover have "memalign_ok ?env" using al(2) by (simp add: memalign_ok_def)
  ultimately obtain s where "run_refs ?env refs (sim_start cm0 pm0 r0 g) = Inr s"
    "view content s = fold ref_page refs (view content (sim_start cm0 pm0 r0 g))"
    "hit_count s + miss_count s = hit_count (sim_start cm0 pm0 r0 g) + miss_count (sim_start cm0 pm0 r0 g) + length refs"
    "ref_count s = ref_count (sim_start cm0 pm0 r0 g) + length refs"
    using run_refs_ok [of ?env content room ginv "memsize env" "sim_start cm0 pm0 r0 g" refs] laws g(1) m st(1) refs(4)
    by auto
  then show ?thesis using g(2) st(2) by (auto simp: sim_start_def init_pagetable_def)
qed

lemma select_alg_ok:
  "nm \<in> {''rand'', ''lru'', ''fifo'', ''clock'', ''opt''} \<Longrightarrow>
   \<exists>a. select_alg (algs penv tf tv) nm = Inr a \<and> a \<in> set (algs penv tf tv)"
  by (auto simp: select_alg_def algs_def)

section \<open>Properties\<close>


text \<open>A remote memory for the example: pages in a list, addressed by their number.\<close>

definition list_lib :: "bytes list remote_lib" where
  "list_lib =
     \<lparr>allocateRemoteMem = (\<lambda>r. (\<lparr>subid = 0, cmd = 0, args = 0, paddr = of_nat (length r)\<rparr>, r @ [[]])),
      getRemoteMem = (\<lambda>a r. (take SIMPAGESIZE (r ! unat (paddr a) @ replicate SIMPAGESIZE 0), r)),
      writeRemoteMem = (\<lambda>bs a r. r[unat (paddr a) := take SIMPAGESIZE bs])\<rparr>"

definition list_content :: "bytes list \<Rightarrow> ip6_memaddr \<rightharpoonup> bytes" where
  "list_content r a =
     (if subid a = 0 \<and> cmd a = 0 \<and> args a = 0 \<and> unat (paddr a) < length r
      then Some (take SIMPAGESIZE (r ! unat (paddr a) @ replicate SIMPAGESIZE 0)) else None)"

definition list_room :: "bytes list \<Rightarrow> nat" where
  "list_room r = 2 ^ 64 - length r"

lemma list_addr_eq:
  "subid a = 0 \<Longrightarrow> cmd a = 0 \<Longrightarrow> args a = 0 \<Longrightarrow> subid b = 0 \<Longrightarrow> cmd b = 0 \<Longrightarrow> args b = 0 \<Longrightarrow>
   unat (paddr a) = unat (paddr b) \<Longrightarrow> a = (b :: ip6_memaddr)"
  by (cases a; cases b) (simp add: word_unat_eq_iff)

lemma list_laws: "remote_laws list_lib list_content list_room"
  unfolding remote_laws_def
proof (intro conjI allI impI)
  fix r :: "bytes list" and a r' assume *: "0 < list_room r" "allocateRemoteMem list_lib r = (a, r')"
  then have a: "a = \<lparr>subid = 0, cmd = 0, args = 0, paddr = of_nat (length r)\<rparr>" "r' = r @ [[]]"
    by (auto simp: list_lib_def)
  have u: "unat (of_nat (length r) :: u64) = length r"
    using *(1) by (intro unat_of_nat_u64) (simp add: list_room_def)
  show "list_content r a = None" using u by (simp add: a list_content_def)
  have "list_content r' b = ((list_content r)(a \<mapsto> replicate SIMPAGESIZE 0)) b" for b
  proof (cases "b = a")
    case True
    then show ?thesis using u by (simp add: a list_content_def)
  next
    case False
    then have "\<not> (subid b = 0 \<and> cmd b = 0 \<and> args b = 0 \<and> unat (paddr b) = length r)"
      using list_addr_eq [of b a] u unfolding a(1) by auto
    then show ?thesis using False by (simp add: a(2) list_content_def nth_append less_Suc_eq) auto
  qed
  then show "\<exists>bs. list_content r' = (list_content r)(a \<mapsto> bs)" by blast
  show "list_room r \<le> Suc (list_room r')" by (simp add: a list_room_def)
next
  fix r :: "bytes list" and a and bs :: bytes assume *: "list_content r a \<noteq> None" "SIMPAGESIZE \<le> length bs"
  then have a: "subid a = 0" "cmd a = 0" "args a = 0" "unat (paddr a) < length r"
    by (auto simp: list_content_def split: if_splits)
  have "list_content (writeRemoteMem list_lib bs a r) b = ((list_content r)(a \<mapsto> take SIMPAGESIZE bs)) b" for b
  proof (cases "b = a")
    case True
    then show ?thesis using a *(2) by (simp add: list_content_def list_lib_def)
  next
    case False
    then have "\<not> (subid b = 0 \<and> cmd b = 0 \<and> args b = 0 \<and> unat (paddr b) = unat (paddr a))"
      using list_addr_eq [of b a] a by blast
    then show ?thesis using False by (simp add: list_content_def list_lib_def nth_list_update) auto
  qed
  then show "list_content (writeRemoteMem list_lib bs a r) = (list_content r)(a \<mapsto> take SIMPAGESIZE bs)" by blast
  show "list_room (writeRemoteMem list_lib bs a r) = list_room r" by (simp add: list_room_def list_lib_def)
next
  fix r :: "bytes list" and a and bs bs' :: bytes and r'
  assume "list_content r a = Some bs" "getRemoteMem list_lib a r = (bs', r')"
  then have *: "bs' = bs" "r' = r" "bs = take SIMPAGESIZE (r ! unat (paddr a) @ replicate SIMPAGESIZE 0)"
    by (auto simp: list_content_def list_lib_def split: if_splits)
  show "SIMPAGESIZE \<le> length bs'" "take SIMPAGESIZE bs' = bs" "list_content r' = list_content r" "list_room r' = list_room r"
    using * by simp_all
qed

definition table_slot :: "nat \<Rightarrow> u64" where
  "table_slot i = push_bit 12 (of_nat i)"

definition first_slot :: "(u64 \<rightharpoonup> (nat \<Rightarrow> pgtbl_entry)) \<Rightarrow> u64 option" where
  "first_slot T = map_option table_slot (find (\<lambda>i. T (table_slot i) = None) [1..<4098])"

definition null_entry :: pgtbl_entry where
  "null_entry = \<lparr>pte_frame = 0, swap_off = \<lparr>swap_info = 0, r_addr = \<lparr>subid = 0, cmd = 0, args = 0, paddr = 0\<rparr>\<rparr>, timestamp = 0\<rparr>"

definition sim_demo :: "(pol_globals, bytes list) sim_env" where
  "sim_demo = \<lparr>memsize = 1, memalign = first_slot, garbage = (\<lambda>_. null_entry), rlib = list_lib,
     ref_fcn = (\<lambda>_. Inr), evict_fcn = (\<lambda>_ _. \<lambda>g. Inr (0, g))\<rparr>"

lemma unat_table_slot: "i < 4098 \<Longrightarrow> unat (table_slot i) = 4096 * i"
proof -
  assume i: "i < 4098"
  have "table_slot i = of_nat (4096 * i)" by (simp add: table_slot_def push_bit_eq_mult mult.commute)
  then show ?thesis using i by (simp only:) (rule unat_of_nat_u64, simp)
qed

lemma first_slot_ok: "memalign_ok sim_demo"
  unfolding memalign_ok_def
proof (intro allI impI)
  fix T :: "u64 \<rightharpoonup> (nat \<Rightarrow> pgtbl_entry)" assume T: "card (dom T) < PTRS_PER_PGDIR"
  have inj: "inj_on table_slot {1..<4098}" by (rule inj_onI) (metis unat_table_slot atLeastLessThan_iff mult_cancel1 zero_neq_numeral)
  have "\<not> table_slot ` {1..<4098} \<subseteq> dom T"
  proof
    assume "table_slot ` {1..<4098} \<subseteq> dom T"
    then have "card (table_slot ` {1..<4098}) \<le> card (dom T)" by (intro card_mono) simp_all
    then show False using T card_image [OF inj] by (simp add: PTRS_PER_PGDIR_def)
  qed
  then have "find (\<lambda>i. T (table_slot i) = None) [1..<4098] \<noteq> None" by (auto simp: find_None_iff)
  then obtain i where i: "find (\<lambda>i. T (table_slot i) = None) [1..<4098] = Some i" by blast
  then have i': "1 \<le> i" "i < 4098" "T (table_slot i) = None" by (auto simp: find_Some_iff)
  have "unat (table_slot i) \<noteq> 0" using unat_table_slot [OF i'(2)] i'(1) by simp
  then have "table_slot i \<noteq> 0" by auto
  moreover have "table_slot i AND 0xfff = 0"
  proof -
    have "(0xfff :: u64) = mask 12" by (simp add: mask_eq_exp_minus_1)
    then show ?thesis unfolding table_slot_def by (simp only: flip: take_bit_eq_mask) (simp add: take_bit_push_bit)
  qed
  ultimately show "\<exists>b. memalign sim_demo T = Some b \<and> b \<noteq> 0 \<and> b AND 0xfff = 0 \<and> T b = None"
    using i i'(3) by (simp add: sim_demo_def first_slot_def)
qed

text \<open>Three references to two pages with a single frame: the first page is swapped out and back in.\<close>

definition sim_txt :: string where
  "sim_txt = ''S 1000'' @ newline # ''S 2000'' @ newline # ''S 1000''"

lemma sim_txt_refs: "trace_refs (text_lines (MAXLINE - 1) sim_txt) (CHR ''x'', 0) =
  [(CHR ''S'', 0x1000), (CHR ''S'', 0x2000), (CHR ''S'', 0x1000)]"
proof -
  have l: "text_lines 255 sim_txt = [''S 1000'' @ [newline], ''S 2000'' @ [newline], ''S 1000'']"
    by (simp add: sim_txt_def text_lines.simps eval_nat_numeral)
  show ?thesis
    by (simp add: MAXLINE_def l scan_ref_def scan_lx_def split_sign_def isspace_def digit_val_def Let_def)
qed


end
