(* ===== verification/BB_Loop.thy ===== *)
theory BB_Loop
  imports BB_Packet BB_Server
begin

text \<open>
  The receive loop of a server, \<^verbatim>\<open>ip6/lib/raw_backend/udp_raw_server.c\<close>, with the setup of the
  receive ring in \<^verbatim>\<open>udp_raw_receive.c\<close>: frames are taken from the ring the kernel fills and handed
  to \<^verbatim>\<open>process_request\<close>. The loop has no end; the model runs it for the answers of \<^verbatim>\<open>epoll_wait\<close>
  given so far.
\<close>

section \<open>Setting up the receive ring\<close>

text \<open>
  What the operating system answers: the index of the interface (0 when there is none), whether the
  calls succeed, and the memory \<^verbatim>\<open>mmap64\<close> maps for a size.
\<close>

record rx_os =
  os_ifindex :: nat
  os_socket :: bool
  os_epoll_create :: bool
  os_epoll_ctl :: bool
  os_rx_ring :: bool
  os_mmap :: "nat \<Rightarrow> bytes option"
  os_bind :: bool

definition setup_packet_mmap :: "rx_os \<Rightarrow> rx_state res" where
  "setup_packet_mmap os =
     (let tp_frame_nr = of_nat (C_RING_FRAMES * RX_RING_BLOCKS) :: u32;
          tp_frame_size = of_nat C_FRAMESIZE :: u32;
          sz = ucast (tp_frame_nr * tp_frame_size) :: u64
      in if \<not> os_rx_ring os then Inl Exit
         else case os_mmap os (unat sz) of
           None \<Rightarrow> Inl Exit
         | Some m \<Rightarrow> Inr \<lparr>ring_rx = m, tpacket_i = 0\<rparr>)"

definition init_epoll :: "rx_os \<Rightarrow> unit res" where
  "init_epoll os =
     (if \<not> os_epoll_create os then Inl Exit else if \<not> os_epoll_ctl os then Inl Exit else Inr ())"

text \<open>As the server calls it, with an epoll and no poll descriptor.\<close>

definition setup_rx_socket :: "rx_os \<Rightarrow> rx_state res" where
  "setup_rx_socket os =
     (if os_ifindex os = 0 then Inl Exit
      else if \<not> os_socket os then Inl Exit
      else
        bindE (init_epoll os) (\<lambda>_.
        bindE (setup_packet_mmap os) (\<lambda>ring.
          if \<not> os_bind os then Inl Exit else Inr ring)))"

section \<open>Setting up the transmit ring\<close>

text \<open>
  A ring that is not mapped, be it \<^verbatim>\<open>NULL\<close> or \<^verbatim>\<open>MAP_FAILED\<close>, is an empty buffer. \<^verbatim>\<open>mmap\<close> reports failure
  by \<^verbatim>\<open>MAP_FAILED\<close>, which is not \<^verbatim>\<open>NULL\<close>, so the tests \<^verbatim>\<open>!ring_tx\<close> after it never succeed.
\<close>

record tx_os =
  tx_ifindex :: nat
  tx_socket :: bool
  tx_packet_ring :: bool
  tx_mmap :: "nat \<Rightarrow> bytes option"
  tx_bind :: bool
  tx_munmap :: bool
  tx_close :: bool

definition init_packetsock_ring :: "tx_os \<Rightarrow> tx_state \<Rightarrow> int \<times> tx_state" where
  "init_packetsock_ring os st =
     (let tp_block_size = C_FRAMESIZE * C_RING_FRAMES
      in if \<not> tx_packet_ring os then (1, st)
         else (0, st\<lparr>ring_tx := (case tx_mmap os (tp_block_size * TX_RING_BLOCKS) of None \<Rightarrow> [] | Some m \<Rightarrow> m)\<rparr>))"

definition init_packetsock :: "tx_os \<Rightarrow> tx_state \<Rightarrow> int \<times> tx_state" where
  "init_packetsock os st =
     (if \<not> tx_socket os then (-1, st)
      else let (r, st1) = init_packetsock_ring os st in if r \<noteq> 0 then (-1, st1) else (0, st1))"

text \<open>The result of \<^verbatim>\<open>init_packetsock\<close> is dropped; to bind a socket that was not opened fails.\<close>

definition init_tx_socket :: "tx_os \<Rightarrow> bytes \<Rightarrow> bytes \<Rightarrow> config \<Rightarrow> tx_state \<Rightarrow> tx_state res" where
  "init_tx_socket os ip0 udp0 cfg st =
     bindE (configure_tx (tx_ifindex os) ip0 udp0 cfg st) (\<lambda>(iface, st1).
       let st2 = snd (init_packetsock os st1)
       in if tx_socket os \<and> tx_bind os then Inr st2 else Inl Exit)"

definition close_tx_socket :: "tx_os \<Rightarrow> tx_state \<Rightarrow> int \<times> tx_state" where
  "close_tx_socket os st =
     (if \<not> tx_munmap os then (1, st)
      else if \<not> tx_close os then (1, st)
      else (0, st\<lparr>ring_tx := [], ring_offset := 0\<rparr>))"

definition set_thread_id_tx :: "nat \<Rightarrow> tx_state \<Rightarrow> tx_state" where
  "set_thread_id_tx i st = st\<lparr>thread_id_tx := i\<rparr>"

section \<open>The loop\<close>

text \<open>
  The slot goes back to the kernel before \<^verbatim>\<open>process_request\<close> reads the destination and the payload
  through pointers into it; \<open>race\<close> is what the kernel does to the ring in between.
\<close>

definition handle_packet ::
  "placement \<Rightarrow> (bytes \<Rightarrow> bytes) \<Rightarrow> nat \<Rightarrow> sockaddr_in6 \<Rightarrow> rx_state \<Rightarrow> heap \<Rightarrow>
   (ip6_memaddr \<times> sockaddr_in6 \<times> rx_state \<times> heap \<times> pkt_rqst list) res" where
  "handle_packet pick race hdr target_ip st h =
     bindE (rx_frame_at (ring_rx st) hdr) (\<lambda>f.
       let eth_hdr = hdr + unat (le_word (slice (ring_rx st) (hdr + 16) 2) :: u16);
           payload = eth_hdr + ETH_HDRLEN + IP6_HDRLEN + UDP_HDRLEN;
           tgt = target_ip\<lparr>sin6_addr := rf_src f, sin6_port := rf_sport f\<rparr>;
           st1 = next_packet (st\<lparr>ring_rx := blit (ring_rx st) hdr (le_bytes 8 TP_STATUS_KERNEL)\<rparr>);
           ring = race (ring_rx st1)
       in bindE (process_request pick tgt (bytes_memaddr (slice ring (eth_hdr + ETH_HDRLEN + 24) 16))
                   (drop payload ring) (rf_size f) h) (\<lambda>(h', tgt', ps).
            Inr (rf_dst f, tgt', st1\<lparr>ring_rx := ring\<rparr>, h', ps)))"

text \<open>
  An answer of \<^verbatim>\<open>epoll_wait\<close>: the event flags it reports, what the kernel did to the ring before it,
  and what it does while a frame is handled. The event variable keeps its value when nothing is
  reported.
\<close>

type_synonym loop_answer = "bool list \<times> (bytes \<Rightarrow> bytes) \<times> (bytes \<Rightarrow> bytes)"

fun raw_rcv_loop ::
  "placement \<Rightarrow> bool \<Rightarrow> loop_answer list \<Rightarrow> ip6_memaddr \<Rightarrow> sockaddr_in6 \<Rightarrow> rx_state \<Rightarrow> heap \<Rightarrow>
   (rx_state \<times> heap \<times> pkt_rqst list) res" where
  "raw_rcv_loop pick ev [] remote target_ip st h = Inr (st, h, [])"
| "raw_rcv_loop pick ev ((evs, kern, race) # ws) remote target_ip st h =
     (let ev' = (case evs of [] \<Rightarrow> ev | e # _ \<Rightarrow> e);
          st0 = st\<lparr>ring_rx := kern (ring_rx st)\<rparr>;
          hdr = get_packet st0;
          tp_status = le_word (slice (ring_rx st0) hdr 8) :: u64
      in if \<not> ev' then raw_rcv_loop pick ev' ws remote target_ip st0 h
         else if (ucast tp_status :: u32) = ucast TP_STATUS_KERNEL
         then raw_rcv_loop pick ev' ws remote target_ip st0 h
         else if tp_status AND TP_STATUS_COPY \<noteq> 0
         then raw_rcv_loop pick ev' ws remote target_ip (next_packet st0) h
         else if tp_status AND TP_STATUS_LOSING \<noteq> 0
         then raw_rcv_loop pick ev' ws remote target_ip (next_packet st0) h
         else
           bindE (handle_packet pick race hdr target_ip st0 h) (\<lambda>(remote', tgt', st1, h', ps).
           bindE (raw_rcv_loop pick ev' ws remote' tgt' st1 h') (\<lambda>(st2, h'', qs).
             Inr (st2, h'', ps @ qs))))"

definition enter_raw_server_loop ::
  "placement \<Rightarrow> bool \<Rightarrow> loop_answer list \<Rightarrow> ip6_memaddr \<Rightarrow> u16 \<Rightarrow> rx_state \<Rightarrow> heap \<Rightarrow>
   (rx_state \<times> heap \<times> pkt_rqst list) res" where
  "enter_raw_server_loop pick ev ws remote serverp st h =
     raw_rcv_loop pick ev ws remote
       \<lparr>sin6_addr = \<lparr>subid = 0, cmd = 0, args = 0, paddr = 0\<rparr>, sin6_port = htons serverp\<rparr> st h"

text \<open>The server from start to loop.\<close>

definition launch_server_loop ::
  "placement \<Rightarrow> tx_os \<Rightarrow> rx_os \<Rightarrow> bytes \<Rightarrow> bytes \<Rightarrow> bool \<Rightarrow> loop_answer list \<Rightarrow> ip6_memaddr \<Rightarrow> config \<Rightarrow>
   tx_state \<Rightarrow> heap \<Rightarrow> (tx_state \<times> rx_state \<times> heap \<times> pkt_rqst list) res" where
  "launch_server_loop pick tos ros ip0 udp0 ev ws remote bb_conf tx h =
     bindE (init_tx_socket tos ip0 udp0 bb_conf tx) (\<lambda>tx1.
     bindE (setup_rx_socket ros) (\<lambda>st.
     bindE (enter_raw_server_loop pick ev ws remote (src_port bb_conf) st h) (\<lambda>r. Inr (tx1, r))))"

section \<open>What the properties speak of\<close>

text \<open>The request a frame carries, and requests that bring the operand their command reads.\<close>

definition request_of :: "bytes \<times> pkt_rqst \<Rightarrow> request" where
  "request_of = (\<lambda>(ef, pkt).
     (\<lparr>sin6_addr = bytes_memaddr (slice ef 22 16), sin6_port = le_word (slice ef 54 2)\<rparr>,
      dst_addr pkt, data pkt, of_nat (length (data pkt))))"

definition has_operand :: "pkt_rqst \<Rightarrow> bool" where
  "has_operand pkt \<longleftrightarrow>
     (cmd (dst_addr pkt) \<in> {READ_BULK_CMD, ALLOC_BULK_CMD, TRIM_CMD} \<longrightarrow> 8 \<le> length (data pkt))"

definition ready_answer :: loop_answer where
  "ready_answer = ([True], (\<lambda>r. r), (\<lambda>r. r))"

text \<open>A kernel that keeps the ring at its size, whatever it writes there.\<close>

definition keeps_size :: "loop_answer \<Rightarrow> bool" where
  "keeps_size = (\<lambda>(evs, kern, race). \<forall>r. length (kern r) = length r \<and> length (race r) = length r)"

section \<open>Lemmas\<close>

text \<open>A handler reads no more of the payload than the size of the message, or its operand.\<close>

lemma process_request_take:
  assumes "n = unat sz" "n \<le> length buf"
    and "cmd r \<in> {READ_BULK_CMD, ALLOC_BULK_CMD, TRIM_CMD} \<longrightarrow> 8 \<le> n"
  shows "process_request pick tgt r buf sz h = process_request pick tgt r (take n buf) sz h"
proof -
  have "memcpy_in h d buf (unat sz) = memcpy_in h d (take n buf) (unat sz)" for d
    using assms(1,2) by (simp add: memcpy_in_def)
  moreover have "payload_u64 buf = payload_u64 (take n buf)" if "8 \<le> n"
    using that assms(2) by (simp add: payload_u64_def min_def)
  moreover have "read_mem_ptr h buf tgt r = read_mem_ptr h (take n buf) tgt r" if "8 \<le> n"
    using that assms(2) by (simp add: read_mem_ptr_def POINTER_SIZE_def min_def)
  ultimately show ?thesis
    using assms(3) by (auto simp: process_request_def write_mem_def write_mem_bulk_def)
qed

lemma released_slot:
  assumes ok: "rx_ok st" and mac: "18 \<le> mac" "mac + 62 + n \<le> C_FRAMESIZE" and hdr: "hdr = tpacket_i st * C_FRAMESIZE"
    and off: "hdr + mac \<le> o'" "o' + k \<le> hdr + mac + 62 + n"
  shows "slice (blit (ring_rx st) hdr (le_bytes 8 TP_STATUS_KERNEL)) o' k = slice (ring_rx st) o' k"
proof -
  have room: "hdr + C_FRAMESIZE \<le> length (ring_rx st)"
    using ok hdr by (auto simp: rx_ok_def C_FRAMESIZE_def RX_FRAMES_def RX_RING_BLOCKS_def C_RING_FRAMES_def)
  show ?thesis
    by (rule slice_blit_other) (use room mac off in \<open>auto simp: C_FRAMESIZE_def\<close>)
qed

text \<open>One frame that is ready in the next slot, handled while the kernel leaves the ring alone.\<close>

lemma handle_packet_ready:
  assumes ok: "rx_ok st" and h: "rx_holds (ring_rx st) (tpacket_i st) (ef, pkt)" and op: "has_operand pkt"
  obtains st' where "handle_packet pick (\<lambda>r. r) (get_packet st) target_ip st hp =
      bindE (process_request pick \<lparr>sin6_addr = bytes_memaddr (slice ef 22 16), sin6_port = le_word (slice ef 54 2)\<rparr>
        (dst_addr pkt) (data pkt) (of_nat (length (data pkt))) hp)
        (\<lambda>(h', tgt', ps). Inr (dst_addr pkt, tgt', st', h', ps))"
    "rx_ok st'" "tpacket_i st' = Suc (tpacket_i st) mod RX_FRAMES"
    "\<And>i. i < RX_FRAMES \<Longrightarrow> i \<noteq> tpacket_i st \<Longrightarrow> slot_bytes (ring_rx st') i = slot_bytes (ring_rx st) i"
proof -
  let ?hdr = "tpacket_i st * C_FRAMESIZE"
  define mac where "mac = unat (le_word (slice (ring_rx st) (?hdr + 16) 2) :: u16)"
  have facts: "length ef = IP_MAXPACKET" "pkt_fits pkt" "18 \<le> mac" "mac + 62 + length (data pkt) \<le> C_FRAMESIZE"
    "slice (ring_rx st) (?hdr + mac) (62 + length (data pkt)) = frame_image ef pkt"
    using h by (simp_all add: rx_holds_def Let_def mac_def)
  obtain f where f: "rx_frame_at (ring_rx st) ?hdr = Inr f" "rf_src f = bytes_memaddr (slice ef 22 16)"
    "rf_dst f = dst_addr pkt" "rf_sport f = le_word (slice ef 54 2)" "unat (rf_size f) = length (data pkt)"
    using rx_frame_of_image [OF facts(1,2) _ facts(5)] by (metis mac_def)
  define st' where "st' = next_packet (st\<lparr>ring_rx := blit (ring_rx st) ?hdr (le_bytes 8 TP_STATUS_KERNEL)\<rparr>)"
  have st': "ring_rx st' = blit (ring_rx st) ?hdr (le_bytes 8 TP_STATUS_KERNEL)" by (simp add: st'_def next_packet_def)
  obtain f' where t: "rx_turn st = Inr (Some f', st')" "rx_ok st'" "tpacket_i st' = Suc (tpacket_i st) mod RX_FRAMES"
    "\<And>i. i < RX_FRAMES \<Longrightarrow> i \<noteq> tpacket_i st \<Longrightarrow> slot_bytes (ring_rx st') i = slot_bytes (ring_rx st) i"
  proof (rule rx_turn_holds [OF ok h])
    fix f' st2 assume *: "rx_turn st = Inr (Some f', st2)" "rx_ok st2" "tpacket_i st2 = Suc (tpacket_i st) mod RX_FRAMES"
      "\<And>i. i < RX_FRAMES \<Longrightarrow> i \<noteq> tpacket_i st \<Longrightarrow> slot_bytes (ring_rx st2) i = slot_bytes (ring_rx st) i"
    have "st2 = st'"
      using *(1) f(1) by (auto simp: rx_turn_def get_packet_def Let_def st'_def split: if_splits)
    with * show thesis using that by blast
  qed
  note same = released_slot [OF ok facts(3,4) refl]
  have dst: "slice (ring_rx st') (?hdr + mac + ETH_HDRLEN + 24) 16 = slice (frame_image ef pkt) 38 16"
    using same [of "?hdr + mac + 38" 16] slice_slice [of 38 16 "62 + length (data pkt)" "ring_rx st" "?hdr + mac"] facts(5)
    by (simp add: st' hdr_defs add.commute)
  have pl: "take (length (data pkt)) (drop (?hdr + mac + 62) (ring_rx st')) = data pkt"
    using same [of "?hdr + mac + 62" "length (data pkt)"] frame_image_slices(6) [OF facts(1), of pkt]
      slice_slice [of 62 "length (data pkt)" "62 + length (data pkt)" "ring_rx st" "?hdr + mac"] facts(5)
    by (simp add: st' slice_def)
  have room: "?hdr + C_FRAMESIZE \<le> length (ring_rx st')"
    using t(2) ok by (auto simp: rx_ok_def C_FRAMESIZE_def RX_FRAMES_def RX_RING_BLOCKS_def C_RING_FRAMES_def)
  have len: "length (data pkt) \<le> length (drop (?hdr + mac + 62) (ring_rx st'))"
    using room facts(4) by simp
  have sz: "rf_size f = of_nat (length (data pkt))" by (simp flip: f(5))
  have take: "process_request pick tgt (dst_addr pkt) (drop (?hdr + mac + 62) (ring_rx st')) (rf_size f) hp =
      process_request pick tgt (dst_addr pkt) (data pkt) (of_nat (length (data pkt))) hp" for tgt
    using process_request_take [OF f(5) [symmetric] len, of "dst_addr pkt" pick tgt hp] op pl sz
    by (simp add: has_operand_def)
  have dst': "bytes_memaddr (slice (ring_rx st') (?hdr + mac + ETH_HDRLEN + 24) 16) = dst_addr pkt"
    unfolding dst using frame_image_slices [OF facts(1), of pkt] by simp
  have "handle_packet pick (\<lambda>r. r) (get_packet st) target_ip st hp =
      bindE (process_request pick \<lparr>sin6_addr = bytes_memaddr (slice ef 22 16), sin6_port = le_word (slice ef 54 2)\<rparr>
        (dst_addr pkt) (data pkt) (of_nat (length (data pkt))) hp)
        (\<lambda>(h', tgt', ps). Inr (dst_addr pkt, tgt', st', h', ps))"
    using f(1-4) take dst'
    by (cases target_ip) (simp add: handle_packet_def get_packet_def Let_def hdr_defs add.assoc flip: mac_def st'_def)
  then show ?thesis using that t(2-4) by blast
qed

text \<open>The slots behind a ready one stay ready.\<close>

lemma ready_tail:
  assumes ok: "rx_ok st" and len: "Suc (length xs) \<le> RX_FRAMES"
    and h: "\<And>j. j < Suc (length xs) \<Longrightarrow> rx_holds (ring_rx st) ((tpacket_i st + j) mod RX_FRAMES) ((x # xs) ! j)"
    and i': "tpacket_i st' = Suc (tpacket_i st) mod RX_FRAMES"
    and same: "\<And>i. i < RX_FRAMES \<Longrightarrow> i \<noteq> tpacket_i st \<Longrightarrow> slot_bytes (ring_rx st') i = slot_bytes (ring_rx st) i"
    and j: "j < length xs"
  shows "rx_holds (ring_rx st') ((tpacket_i st' + j) mod RX_FRAMES) (xs ! j)"
proof -
  let ?i = "Suc (tpacket_i st + j) mod RX_FRAMES"
  have i: "tpacket_i st < RX_FRAMES" using ok by (simp add: rx_ok_def)
  have "?i \<noteq> tpacket_i st"
    using j i len by (cases "Suc (tpacket_i st + j) < RX_FRAMES") (simp_all add: le_mod_geq not_less)
  moreover have "rx_holds (ring_rx st) ?i (xs ! j)"
    using h [of "Suc j"] j by simp
  moreover have "?i < RX_FRAMES" using i by simp
  ultimately have "rx_holds (ring_rx st') ?i (xs ! j)"
    using rx_holds_slot [OF same] by blast
  then show ?thesis by (simp add: i' mod_simps)
qed

lemma raw_rcv_loop_ready:
  assumes "rx_ok st" "length xs \<le> RX_FRAMES" "list_all (\<lambda>x. has_operand (snd x)) xs"
    and "\<And>j. j < length xs \<Longrightarrow> rx_holds (ring_rx st) ((tpacket_i st + j) mod RX_FRAMES) (xs ! j)"
  shows "bindE (raw_rcv_loop pick ev (replicate (length xs) ready_answer) remote target_ip st h)
      (\<lambda>(st', h', ps). Inr (h', ps)) = serve pick (map request_of xs) h"
  using assms
proof (induction xs arbitrary: st h ev remote target_ip)
  case Nil
  then show ?case by simp
next
  case (Cons x xs)
  obtain ef pkt where x: "x = (ef, pkt)" by (cases x)
  have i: "tpacket_i st < RX_FRAMES" using Cons.prems(1) by (simp add: rx_ok_def)
  then have holds: "rx_holds (ring_rx st) (tpacket_i st) (ef, pkt)"
    using Cons.prems(4) [of 0] x by simp
  have op: "has_operand pkt" using Cons.prems(3) x by simp
  from handle_packet_ready [OF Cons.prems(1) holds op, of pick target_ip h] obtain st' where st':
    "handle_packet pick (\<lambda>r. r) (get_packet st) target_ip st h =
      bindE (process_request pick \<lparr>sin6_addr = bytes_memaddr (slice ef 22 16), sin6_port = le_word (slice ef 54 2)\<rparr>
        (dst_addr pkt) (data pkt) (of_nat (length (data pkt))) h)
        (\<lambda>(h', tgt', ps). Inr (dst_addr pkt, tgt', st', h', ps))"
    "rx_ok st'" "tpacket_i st' = Suc (tpacket_i st) mod RX_FRAMES"
    "\<And>i. i < RX_FRAMES \<Longrightarrow> i \<noteq> tpacket_i st \<Longrightarrow> slot_bytes (ring_rx st') i = slot_bytes (ring_rx st) i"
    by blast
  have IH: "bindE (raw_rcv_loop pick True (replicate (length xs) ready_answer) remote' tgt st' hp)
      (\<lambda>(st', h', ps). Inr (h', ps)) = serve pick (map request_of xs) hp" for remote' tgt hp
    by (rule Cons.IH [OF st'(2)])
      (use Cons.prems(2,3) ready_tail [OF Cons.prems(1) _ _ st'(3,4), of xs x] Cons.prems(4) in simp_all)
  have st: "st\<lparr>ring_rx := ring_rx st\<rparr> = st" by simp
  have guards: "(ucast (le_word (slice (ring_rx st) (get_packet st) 8) :: u64) :: u32) \<noteq> 0"
    "le_word (slice (ring_rx st) (get_packet st) 8) AND TP_STATUS_COPY = 0"
    "le_word (slice (ring_rx st) (get_packet st) 8) AND TP_STATUS_LOSING = 0"
    using holds by (simp_all add: rx_holds_def Let_def get_packet_def)
  have rest: "bindE (raw_rcv_loop pick True (replicate (length xs) ready_answer) remote' tgt st' hp)
      (\<lambda>(st', h', ps). Inr (h', qs @ ps)) =
    bindE (serve pick (map request_of xs) hp) (\<lambda>(h', ps). Inr (h', qs @ ps))" for remote' tgt hp qs
    by (simp add: bindE_assoc split_def flip: IH [of remote' tgt hp])
  have req: "request_of x = (\<lparr>sin6_addr = bytes_memaddr (slice ef 22 16), sin6_port = le_word (slice ef 54 2)\<rparr>,
      dst_addr pkt, data pkt, of_nat (length (data pkt)))"
    by (simp add: x request_of_def)
  have loop: "raw_rcv_loop pick ev (ready_answer # ws) remote target_ip st h =
      bindE (handle_packet pick (\<lambda>r. r) (get_packet st) target_ip st h) (\<lambda>(remote', tgt', st1, h', ps).
        bindE (raw_rcv_loop pick True ws remote' tgt' st1 h') (\<lambda>(st2, h'', qs). Inr (st2, h'', ps @ qs)))" for ws
    using guards by (simp add: ready_answer_def Let_def TP_STATUS_KERNEL_def)
  show ?case
    unfolding length_Cons replicate_Suc list.map req serve.simps loop st'(1)
    by (simp add: bindE_assoc split_def rest [unfolded split_def])
qed

text \<open>Whatever the kernel writes, the ring keeps its size and the heap its invariant.\<close>

lemma handle_packet_types:
  assumes "handle_packet pick race hdr target_ip st h = Inr (remote', tgt', st', h', ps)"
    and "rx_ok st" "heap_ok h" "\<And>r. length (race r) = length r" "hdr = get_packet st"
  shows "rx_ok st' \<and> heap_ok h'"
proof
  have room: "hdr + 8 \<le> length (ring_rx st)"
    using assms(2,5) by (auto simp: rx_ok_def get_packet_def C_FRAMESIZE_def RX_FRAMES_def RX_RING_BLOCKS_def C_RING_FRAMES_def)
  show "rx_ok st'"
    using assms(1,2,4) room
    by (auto simp: handle_packet_def Let_def rx_ok_def next_packet_def RX_FRAMES_def ring_defs split: prod.splits)
  show "heap_ok h'"
    using assms(1,3) by (auto simp: handle_packet_def Let_def dest!: process_request_step dest: heap_step_ok)
qed

lemma raw_rcv_loop_types:
  "raw_rcv_loop pick ev ws remote target_ip st h = Inr (st', h', ps) \<Longrightarrow> rx_ok st \<Longrightarrow> heap_ok h \<Longrightarrow>
   list_all keeps_size ws \<Longrightarrow> rx_ok st' \<and> heap_ok h'"
proof (induction pick ev ws remote target_ip st h arbitrary: ps rule: raw_rcv_loop.induct)
  case (2 pick ev evs kern race ws remote target_ip st h)
  let ?st = "st\<lparr>ring_rx := kern (ring_rx st)\<rparr>"
  have k: "\<And>r. length (kern r) = length r" "\<And>r. length (race r) = length r" "list_all keeps_size ws"
    using "2.prems"(4) by (simp_all add: keeps_size_def)
  have ok: "rx_ok ?st" "rx_ok (next_packet ?st)"
    using "2.prems"(2) k(1) by (simp_all add: rx_ok_def next_packet_def RX_FRAMES_def ring_defs)
  note IH = "2.IH" [OF refl refl refl refl]
  show ?case
  proof (cases "(case evs of [] \<Rightarrow> ev | e # _ \<Rightarrow> e) \<and>
      (ucast (le_word (slice (ring_rx ?st) (get_packet ?st) 8) :: u64) :: u32) \<noteq> ucast TP_STATUS_KERNEL \<and>
      le_word (slice (ring_rx ?st) (get_packet ?st) 8) AND TP_STATUS_COPY = 0 \<and>
      le_word (slice (ring_rx ?st) (get_packet ?st) 8) AND TP_STATUS_LOSING = 0")
    case True
    with "2.prems"(1) obtain remote1 tgt1 st1 h1 ps1 ps2 where
      "handle_packet pick race (get_packet ?st) target_ip ?st h = Inr (remote1, tgt1, st1, h1, ps1)"
      "raw_rcv_loop pick (case evs of [] \<Rightarrow> ev | e # _ \<Rightarrow> e) ws remote1 tgt1 st1 h1 = Inr (st', h', ps2)"
      by (auto simp: Let_def)
    with True IH(5) handle_packet_types [OF _ ok(1) "2.prems"(3) k(2) refl] k(3) show ?thesis
      by blast
  next
    case False
    with "2.prems"(1,3) IH(1-4) ok k(3) show ?thesis
      by (auto simp: Let_def split: if_splits)
  qed
qed simp

lemma setup_rx_socket_ok:
  assumes "setup_rx_socket os = Inr st" "\<And>n m. os_mmap os n = Some m \<Longrightarrow> length m = n"
  shows "rx_ok st"
  using assms
  by (auto simp: setup_rx_socket_def init_epoll_def setup_packet_mmap_def Let_def rx_ok_def RX_FRAMES_def ring_defs
      split: if_splits option.splits)

lemma init_tx_socket_ok:
  assumes "init_tx_socket os ip0 udp0 cfg st = Inr st'" "tx_packet_ring os"
    and "\<And>n. \<exists>m. tx_mmap os n = Some m \<and> length m = n"
    and "length (ether_frame st) = IP_MAXPACKET" "length ip0 = 40" "length udp0 = 8" "ring_offset st < C_RING_FRAMES"
  shows "tx_ok st'"
proof -
  from assms(1) obtain iface st1 where c: "configure_tx (tx_ifindex os) ip0 udp0 cfg st = Inr (iface, st1)"
    and st': "tx_socket os" "st' = snd (init_packetsock os st1)"
    by (auto simp: init_tx_socket_def Let_def split: if_splits)
  obtain m where "tx_mmap os (C_FRAMESIZE * C_RING_FRAMES * TX_RING_BLOCKS) = Some m"
    "length m = C_FRAMESIZE * C_RING_FRAMES * TX_RING_BLOCKS"
    using assms(3) by blast
  with st' assms(2,7) configure_tx_template [OF c assms(4-6)] show ?thesis
    by (simp add: tx_ok_def init_packetsock_def init_packetsock_ring_def Let_def TX_RING_BLOCKS_def)
qed

lemma prepare_packet_no_ring:
  "ring_tx st = [] \<Longrightarrow> prepare_packet pkt st = Inl Segv"
  by (simp add: prepare_packet_def send_mmap_def put_def Let_def)

definition sample_tx_os :: tx_os where
  "sample_tx_os = \<lparr>tx_ifindex = 1, tx_socket = True, tx_packet_ring = True, tx_mmap = (\<lambda>n. Some (replicate n 0)),
     tx_bind = True, tx_munmap = True, tx_close = True\<rparr>"

definition sample_rx_os :: rx_os where
  "sample_rx_os = \<lparr>os_ifindex = 1, os_socket = True, os_epoll_create = True, os_epoll_ctl = True, os_rx_ring = True,
     os_mmap = (\<lambda>n. Some (replicate n 0)), os_bind = True\<rparr>"

section \<open>Properties of the server loop\<close>

text \<open>
  C6: the receive loop is a server: when the slots of the ring from the current one on hold frames
  that are ready, and the kernel leaves the ring alone while they are handled, the loop serves the
  requests the frames carry, one after another in ring order, each with the sender's address and
  port as the one to answer; the heap and the replies are those of serving the requests directly.
\<close>

theorem server_loop_serves:
  assumes "rx_ok st" "length xs \<le> RX_FRAMES" "list_all (\<lambda>x. has_operand (snd x)) xs"
    and "\<And>j. j < length xs \<Longrightarrow> rx_holds (ring_rx st) ((tpacket_i st + j) mod RX_FRAMES) (xs ! j)"
  shows "bindE (enter_raw_server_loop pick ev (replicate (length xs) ready_answer) remote serverp st h)
      (\<lambda>(st', h', ps). Inr (h', ps)) = serve pick (map request_of xs) h"
  unfolding enter_raw_server_loop_def using assms by (rule raw_rcv_loop_ready)

theorem server_loop_serves_witness:
  "bindE (enter_raw_server_loop sample_place False [ready_answer] (dst_addr sample_pkt) 0
       \<lparr>ring_rx = sample_ring, tpacket_i = 0\<rparr> sample_heap) (\<lambda>(st', h', ps). Inr (h', ps)) =
   serve sample_place [request_of (ether_frame sample_tx, sample_pkt)] sample_heap"
  using server_loop_serves [of "\<lparr>ring_rx = sample_ring, tpacket_i = 0\<rparr>" "[(ether_frame sample_tx, sample_pkt)]"
      sample_place False "dst_addr sample_pkt" 0 sample_heap] sample_ring_holds sample_ring_slot(1)
  by (simp add: rx_ok_def RX_FRAMES_def ring_defs has_operand_def sample_pkt_def cmd_defs)



text \<open>
  a transmit ring that could not be mapped goes unnoticed at the start: \<^verbatim>\<open>init_tx_socket\<close> returns as
  after a success, and the first packet that is sent writes through the bad pointer.
\<close>

theorem tx_ring_failure_unnoticed:
  assumes "tx_ifindex os \<noteq> 0" "tx_socket os" "tx_packet_ring os" "tx_bind os" "\<And>n. tx_mmap os n = None"
  shows "\<exists>st'. init_tx_socket os ip0 udp0 cfg st = Inr st' \<and> (\<forall>pkt. prepare_packet pkt st' = Inl Segv)"
  using assms
  by (auto simp: init_tx_socket_def configure_tx_def init_packetsock_def init_packetsock_ring_def Let_def
      intro: prepare_packet_no_ring)

theorem tx_ring_failure_unnoticed_witness:
  "\<exists>st'. init_tx_socket (sample_tx_os\<lparr>tx_mmap := \<lambda>n. None\<rparr>) (replicate 40 0) (replicate 8 0) sample_cfg sample_tx = Inr st' \<and>
     prepare_packet sample_pkt st' = Inl Segv"
  using tx_ring_failure_unnoticed [of "sample_tx_os\<lparr>tx_mmap := \<lambda>n. None\<rparr>" "replicate 40 0" "replicate 8 0" sample_cfg sample_tx]
  by (auto simp: sample_tx_os_def)

end
