(* ===== verification/BB_Malloc.thy ===== *)
theory BB_Malloc
  imports BB_Prelude
begin

text \<open>
  \<^verbatim>\<open>malloc\<close> and \<^verbatim>\<open>free\<close> in the memory of a process, as the programs above the libraries use them for their
  buffers.
\<close>

section \<open>Allocating and freeing\<close>

text \<open>
  \<^verbatim>\<open>malloc\<close> in the memory of the process: \<open>mal\<close> picks the address and what was left there; the
  region it picks must be free. A request for no byte gives \<^verbatim>\<open>NULL\<close>.
\<close>

type_synonym mallocator = "mem \<Rightarrow> nat \<Rightarrow> u64 \<times> bytes"

definition fits :: "mem \<Rightarrow> nat \<Rightarrow> u64 \<times> bytes \<Rightarrow> bool" where
  "fits m n = (\<lambda>(a, junk). a \<noteq> 0 \<and> unat a + n \<le> 2 ^ 64 \<and> length junk = n \<and> (\<forall>i<n. m (a + of_nat i) = None))"

definition chunk_malloc :: "mallocator \<Rightarrow> mem \<Rightarrow> nat \<Rightarrow> u64 \<times> mem" where
  "chunk_malloc mal m n =
     (if 0 < n \<and> fits m n (mal m n) then (fst (mal m n), overwrite m (fst (mal m n)) (snd (mal m n))) else (0, m))"

text \<open>\<open>n\<close> is the size the chunk was allocated with.\<close>

definition chunk_free :: "u64 \<Rightarrow> nat \<Rightarrow> mem \<Rightarrow> mem" where
  "chunk_free a n m = (if a = 0 then m else (\<lambda>x. if in_range a n x then None else m x))"

text \<open>There is room for every buffer of less than four gigabytes.\<close>

definition has_room :: "mallocator \<Rightarrow> mem \<Rightarrow> bool" where
  "has_room mal m \<longleftrightarrow> (\<forall>n. 0 < n \<longrightarrow> n < 2 ^ 32 \<longrightarrow> fits m n (mal m n))"

text \<open>There is room for \<open>k\<close> buffers that live at the same time, whatever is written into them.\<close>

primrec rooms :: "nat \<Rightarrow> mallocator \<Rightarrow> mem \<Rightarrow> bool" where
  "rooms 0 mal m = True"
| "rooms (Suc k) mal m =
     (has_room mal m \<and>
      (\<forall>n bs. 0 < n \<longrightarrow> n < 2 ^ 32 \<longrightarrow> length bs = n \<longrightarrow> rooms k mal (overwrite m (fst (mal m n)) bs)))"

section \<open>Lemmas\<close>

lemma overwrite_twice: "length xs = length ys \<Longrightarrow> overwrite (overwrite m a ys) a xs = overwrite m a xs"
  by (simp add: overwrite_def fun_eq_iff)

lemma chunk_malloc_room:
  assumes "has_room mal m" "0 < n" "n < 2 ^ 32"
  obtains a junk where "chunk_malloc mal m n = (a, overwrite m a junk)" "a \<noteq> 0" "length junk = n"
    "mapped (overwrite m a junk) a n" "\<And>bs. length bs = n \<Longrightarrow> chunk_free a n (overwrite (overwrite m a junk) a bs) = m"
proof -
  obtain a junk where p: "mal m n = (a, junk)" by (cases "mal m n")
  have ok: "fits m n (mal m n)" using assms unfolding has_room_def by blast
  then have f: "a \<noteq> 0" "length junk = n" "\<forall>i<n. m (a + of_nat i) = None"
    using p by (auto simp: fits_def)
  have "mapped (overwrite m a junk) a n"
    using f(2) assms(3) by (auto simp: mapped_def overwrite_def)
  moreover have "chunk_free a n (overwrite (overwrite m a junk) a bs) = m" if "length bs = n" for bs
    using f that by (auto simp: chunk_free_def overwrite_def in_range_iff fun_eq_iff)
  ultimately show ?thesis
    using that [of a junk] assms(2) p f ok by (simp add: chunk_malloc_def)
qed

lemma chunk_free_commute: "chunk_free a n (chunk_free b k m) = chunk_free b k (chunk_free a n m)"
  by (auto simp: chunk_free_def fun_eq_iff)

text \<open>The same for a buffer that lives beside others: \<open>overwrite m a bs\<close> is the memory with it holding \<open>bs\<close>.\<close>

lemma chunk_malloc_live:
  assumes "has_room mal m" "0 < n" "n < 2 ^ 32"
  obtains a junk where "chunk_malloc mal m n = (a, overwrite m a junk)" "a = fst (mal m n)" "junk = snd (mal m n)" "length junk = n"
    "\<And>bs. length bs = n \<Longrightarrow> mapped (overwrite m a bs) a n" "\<And>bs. length bs = n \<Longrightarrow> load (overwrite m a bs) a n = Some bs"
    "\<And>bs. length bs = n \<Longrightarrow> chunk_free a n (overwrite m a bs) = m"
    "\<And>bs b k. length bs = n \<Longrightarrow> mapped m b k \<Longrightarrow> load (overwrite m a bs) b k = load m b k"
    "\<And>bs cs. length bs = n \<Longrightarrow> length cs = n \<Longrightarrow> store (overwrite m a bs) a cs = Some (overwrite m a cs)"
proof -
  let ?a = "fst (mal m n)" let ?junk = "snd (mal m n)"
  have ok: "fits m n (mal m n)" using assms unfolding has_room_def by blast
  then have f: "?a \<noteq> 0" "length ?junk = n" "\<forall>i<n. m (?a + of_nat i) = None" by (auto simp: fits_def)
  have out: "m x = None" if "in_range ?a n x" for x using f(3) that by (auto simp: in_range_iff)
  have mp: "mapped (overwrite m ?a bs) ?a n" if "length bs = n" for bs
    using that assms(3) by (auto simp: mapped_def overwrite_def)
  have ld: "load (overwrite m ?a bs) ?a n = Some bs" if "length bs = n" for bs
    using load_overwrite_same [of "overwrite m ?a bs" ?a bs] mp [OF that] that assms(3) by (simp add: overwrite_twice)
  have st: "store (overwrite m ?a bs) ?a cs = Some (overwrite m ?a cs)" if "length bs = n" "length cs = n" for bs cs
    using store_mapped [of cs "overwrite m ?a bs" ?a] mp [of bs] that assms(3) by (simp add: overwrite_twice)
  have fr: "chunk_free ?a n (overwrite m ?a bs) = m" if "length bs = n" for bs
    using f(1) out that by (auto simp: chunk_free_def overwrite_def fun_eq_iff)
  have ot: "load (overwrite m ?a bs) b k = load m b k" if "length bs = n" "mapped m b k" for bs b k
    using that out by (intro load_cong) (auto simp: mapped_def overwrite_def)
  have "chunk_malloc mal m n = (?a, overwrite m ?a ?junk)" using ok assms(2) by (simp add: chunk_malloc_def)
  from that [OF this refl refl f(2) mp ld fr ot st] show thesis .
qed

end
