(* ===== verification/BB_Buse.thy ===== *)
theory BB_Buse
  imports BB_Malloc
begin

text \<open>
  A block device in user space, \<^verbatim>\<open>ip6/lib/buse/buse.c\<close>: the kernel's network block device sends requests
  over a socket, and \<^verbatim>\<open>buse_main\<close> answers them with the operations it is given. What it needs of the
  operations is the locale \<open>block_device\<close>.
\<close>

section \<open>The socket\<close>

text \<open>
  What the kernel sends arrives in segments: a \<^verbatim>\<open>read\<close> takes at most the rest of one. No segment, or
  an empty one, is a \<^verbatim>\<open>read\<close> that returns no byte. \<open>wr\<close> is how many of the bytes a \<^verbatim>\<open>write\<close> takes,
  after what was written before.
\<close>

record sock =
  sk_in :: "bytes list"
  sk_out :: bytes

type_synonym writer = "bytes \<Rightarrow> nat \<Rightarrow> int"

definition sk_read :: "nat \<Rightarrow> sock \<Rightarrow> bytes \<times> sock" where
  "sk_read n sk =
     (case sk_in sk of
        [] \<Rightarrow> ([], sk)
      | seg # segs \<Rightarrow> (take n seg, sk\<lparr>sk_in := (if length seg \<le> n then segs else drop n seg # segs)\<rparr>))"

text \<open>A \<^verbatim>\<open>read\<close> into memory that is not mapped fails, as one that returns no byte does.\<close>

function read_all :: "u64 \<Rightarrow> nat \<Rightarrow> mem \<Rightarrow> sock \<Rightarrow> (mem \<times> sock) res" where
  "read_all buf count m sk =
     (if count = 0 then Inr (m, sk)
      else case sk_read count sk of (bs, sk1) \<Rightarrow>
        if bs = [] then Inl Assertion
        else case store m buf bs of
          None \<Rightarrow> Inl Assertion
        | Some m1 \<Rightarrow> read_all (buf + of_nat (length bs)) (count - length bs) m1 sk1)"
  by auto
termination
  by (relation "measure (\<lambda>(buf, count, m, sk). count)") auto

function write_all :: "writer \<Rightarrow> bytes \<Rightarrow> sock \<Rightarrow> sock res" where
  "write_all wr bs sk =
     (if bs = [] then Inr sk
      else
        let n = wr (sk_out sk) (length bs)
        in if n \<le> 0 then Inl Assertion
           else write_all wr (drop (nat n) bs) (sk\<lparr>sk_out := sk_out sk @ take (nat n) bs\<rparr>))"
  by auto
termination
  by (relation "measure (\<lambda>(wr, bs, sk). length bs)") auto

declare read_all.simps [simp del] write_all.simps [simp del]

section \<open>Requests\<close>

definition NBD_REQUEST_MAGIC :: u32 where "NBD_REQUEST_MAGIC = 0x25609513"

definition NBD_REPLY_MAGIC :: u32 where "NBD_REPLY_MAGIC = 0x67446698"

definition NBD_CMD_READ :: u32 where "NBD_CMD_READ = 0"

definition NBD_CMD_WRITE :: u32 where "NBD_CMD_WRITE = 1"

definition NBD_CMD_DISC :: u32 where "NBD_CMD_DISC = 2"

definition NBD_CMD_FLUSH :: u32 where "NBD_CMD_FLUSH = 3"

definition NBD_CMD_TRIM :: u32 where "NBD_CMD_TRIM = 4"

definition EPERM :: u32 where "EPERM = 1"

lemmas nbd_defs = NBD_REQUEST_MAGIC_def NBD_REPLY_MAGIC_def NBD_CMD_READ_def NBD_CMD_WRITE_def NBD_CMD_DISC_def
  NBD_CMD_FLUSH_def NBD_CMD_TRIM_def

definition ntohll :: "u64 \<Rightarrow> u64" where
  "ntohll a =
     (let lo = htonl (ucast (a AND 0xffffffff)); hi = htonl (ucast (drop_bit 32 a))
      in push_bit 32 (ucast lo) OR ucast hi)"

text \<open>
  \<^verbatim>\<open>struct buse_operations\<close> over the memory of the process and the state of the device. An operation
  that is not given is \<^verbatim>\<open>NULL\<close>.
\<close>

record 's buse_operations =
  op_read :: "(u64 \<Rightarrow> u32 \<Rightarrow> u64 \<Rightarrow> mem \<Rightarrow> 's \<Rightarrow> (int \<times> mem \<times> 's) res) option"
  op_write :: "(u64 \<Rightarrow> u32 \<Rightarrow> u64 \<Rightarrow> mem \<Rightarrow> 's \<Rightarrow> (int \<times> mem \<times> 's) res) option"
  op_disc :: "('s \<Rightarrow> 's) option"
  op_flush :: "('s \<Rightarrow> int \<times> 's) option"
  op_trim :: "(u64 \<Rightarrow> u32 \<Rightarrow> 's \<Rightarrow> int \<times> 's) option"
  op_size :: u64
  op_blksize :: u32
  op_size_blocks :: u64

text \<open>The image of \<^verbatim>\<open>struct nbd_reply\<close>, with the error as it is stored.\<close>

definition nbd_reply :: "u32 \<Rightarrow> bytes \<Rightarrow> bytes" where
  "nbd_reply err handle = le_bytes 4 (htonl NBD_REPLY_MAGIC) @ le_bytes 4 err @ handle"

definition transfer ::
  "(u64 \<Rightarrow> u32 \<Rightarrow> u64 \<Rightarrow> mem \<Rightarrow> 's \<Rightarrow> (int \<times> mem \<times> 's) res) option \<Rightarrow>
   u64 \<Rightarrow> u32 \<Rightarrow> u64 \<Rightarrow> mem \<Rightarrow> 's \<Rightarrow> (u32 \<times> mem \<times> 's) res" where
  "transfer f chunk len from m s =
     (case f of
        None \<Rightarrow> Inr (htonl EPERM, m, s)
      | Some g \<Rightarrow> bindE (g chunk len from m s) (\<lambda>(r, m', s'). Inr (of_int r, m', s')))"

definition buse_read ::
  "'s buse_operations \<Rightarrow> writer \<Rightarrow> mallocator \<Rightarrow> bytes \<Rightarrow> u32 \<Rightarrow> u64 \<Rightarrow> mem \<Rightarrow> 's \<Rightarrow> sock \<Rightarrow> (mem \<times> 's \<times> sock) res"
where
  "buse_read aop wr mal handle len from m s sk =
     (case chunk_malloc mal m (unat len) of (chunk, m1) \<Rightarrow>
      bindE (transfer (op_read aop) chunk len from m1 s) (\<lambda>(err, m2, s2).
      bindE (write_all wr (nbd_reply err handle) sk) (\<lambda>sk1.
      bindE (guardE Assertion (load m2 chunk (unat len))) (\<lambda>bs.
      bindE (write_all wr bs sk1) (\<lambda>sk2. Inr (chunk_free chunk (unat len) m2, s2, sk2))))))"

definition buse_write ::
  "'s buse_operations \<Rightarrow> writer \<Rightarrow> mallocator \<Rightarrow> bytes \<Rightarrow> u32 \<Rightarrow> u64 \<Rightarrow> mem \<Rightarrow> 's \<Rightarrow> sock \<Rightarrow> (mem \<times> 's \<times> sock) res"
where
  "buse_write aop wr mal handle len from m s sk =
     (case chunk_malloc mal m (unat len) of (chunk, m1) \<Rightarrow>
      bindE (read_all chunk (unat len) m1 sk) (\<lambda>(m2, sk1).
      bindE (transfer (op_write aop) chunk len from m2 s) (\<lambda>(err, m3, s2).
      bindE (write_all wr (nbd_reply err handle) sk1) (\<lambda>sk2.
        Inr (chunk_free chunk (unat len) m3, s2, sk2)))))"

text \<open>
  One turn of the loop on the 28 bytes of a \<^verbatim>\<open>struct nbd_request\<close>; the flag of the result says that the
  device was disconnected.
\<close>

definition buse_request ::
  "'s buse_operations \<Rightarrow> writer \<Rightarrow> mallocator \<Rightarrow> bytes \<Rightarrow> mem \<Rightarrow> 's \<Rightarrow> sock \<Rightarrow> (bool \<times> mem \<times> 's \<times> sock) res" where
  "buse_request aop wr mal request m s sk =
     (let handle = slice request 8 8;
          len = htonl (le_word (slice request 24 4));
          from = ntohll (le_word (slice request 16 8));
          type = htonl (le_word (slice request 4 4))
      in if le_word (slice request 0 4) \<noteq> htonl NBD_REQUEST_MAGIC then Inl Assertion
         else if type = NBD_CMD_READ
         then bindE (buse_read aop wr mal handle len from m s sk) (\<lambda>r. Inr (False, r))
         else if type = NBD_CMD_WRITE
         then bindE (buse_write aop wr mal handle len from m s sk) (\<lambda>r. Inr (False, r))
         else if type = NBD_CMD_DISC
         then Inr (True, m, (case op_disc aop of None \<Rightarrow> s | Some f \<Rightarrow> f s), sk)
         else if type = NBD_CMD_FLUSH
         then (case (case op_flush aop of None \<Rightarrow> (0, s) | Some f \<Rightarrow> f s) of (r, s') \<Rightarrow>
           bindE (write_all wr (nbd_reply (of_int r) handle) sk) (\<lambda>sk'. Inr (False, m, s', sk')))
         else if type = NBD_CMD_TRIM
         then (case (case op_trim aop of None \<Rightarrow> (0, s) | Some f \<Rightarrow> f from len s) of (r, s') \<Rightarrow>
           bindE (write_all wr (nbd_reply (of_int r) handle) sk) (\<lambda>sk'. Inr (False, m, s', sk')))
         else Inl Assertion)"

text \<open>The loop ends because every turn takes bytes from the socket.\<close>

definition pending_bytes :: "sock \<Rightarrow> nat" where
  "pending_bytes sk = length (concat (sk_in sk))"

lemma sk_read_bytes: "sk_read n sk = (bs, sk') \<Longrightarrow> pending_bytes sk = length bs + pending_bytes sk'"
  by (auto simp: sk_read_def pending_bytes_def split: list.splits if_splits)

lemma read_all_bytes: "read_all buf count m sk = Inr (m', sk') \<Longrightarrow> pending_bytes sk' \<le> pending_bytes sk"
proof (induction buf count m sk rule: read_all.induct)
  case (1 buf count m sk)
  obtain bs sk1 where r: "sk_read count sk = (bs, sk1)" by (cases "sk_read count sk")
  have run: "count = 0 \<and> sk' = sk \<or> (\<exists>m1. count \<noteq> 0 \<and> bs \<noteq> [] \<and> store m buf bs = Some m1 \<and>
      read_all (buf + of_nat (length bs)) (count - length bs) m1 sk1 = Inr (m', sk'))"
    using "1.prems" by (subst (asm) read_all.simps) (auto simp: r split: if_splits option.splits)
  then show ?case
    using "1.IH" [OF _ r [symmetric]] sk_read_bytes [OF r] by fastforce
qed

lemma write_all_in: "write_all wr bs sk = Inr sk' \<Longrightarrow> sk_in sk' = sk_in sk"
proof (induction wr bs sk rule: write_all.induct)
  case (1 wr bs sk)
  then show ?case
    by (subst (asm) (2) write_all.simps) (auto simp: Let_def split: if_splits)
qed

lemma buse_request_bytes:
  assumes "buse_request aop wr mal request m s sk = Inr (d, m', s', sk')"
  shows "pending_bytes sk' \<le> pending_bytes sk"
  using assms
  by (auto simp: buse_request_def buse_read_def buse_write_def Let_def pending_bytes_def split: if_splits prod.splits
      dest!: write_all_in read_all_bytes)

lemma bindE_cong [fundef_cong]:
  "x = y \<Longrightarrow> (\<And>v. y = Inr v \<Longrightarrow> f v = g v) \<Longrightarrow> bindE x f = bindE y g"
  by (cases y) simp_all

function buse_loop ::
  "'s buse_operations \<Rightarrow> writer \<Rightarrow> mallocator \<Rightarrow> mem \<Rightarrow> 's \<Rightarrow> sock \<Rightarrow> (mem \<times> 's \<times> sock) res" where
  "buse_loop aop wr mal m s sk =
     (case sk_read 28 sk of (request, sk1) \<Rightarrow>
        if request = [] then Inr (m, s, sk1)
        else if length request \<noteq> 28 then Inl Assertion
        else bindE (buse_request aop wr mal request m s sk1) (\<lambda>(disc, m', s', sk').
          if disc then Inr (m', s', sk') else buse_loop aop wr mal m' s' sk'))"
  by auto
termination
  by (relation "measure (\<lambda>(aop, wr, mal, m, s, sk). pending_bytes sk)")
    (auto dest!: buse_request_bytes sk_read_bytes [OF sym])

declare buse_loop.simps [simp del]

text \<open>
  The answers of the system calls before the loop. The child process only hands the other end of the
  socket to the kernel.
\<close>

record buse_os =
  b_socketpair :: bool
  b_open :: bool
  b_set_blksize :: bool
  b_set_size :: bool
  b_set_size_blocks :: bool
  b_clear_sock :: bool
  b_reopen :: bool

definition buse_main ::
  "'s buse_operations \<Rightarrow> buse_os \<Rightarrow> writer \<Rightarrow> mallocator \<Rightarrow> mem \<Rightarrow> 's \<Rightarrow> sock \<Rightarrow> (int \<times> mem \<times> 's \<times> sock) res" where
  "buse_main aop os wr mal m s sk =
     (if \<not> b_socketpair os then Inl Assertion
      else if \<not> b_open os then Inr (1, m, s, sk)
      else if op_blksize aop \<noteq> 0 \<and> \<not> b_set_blksize os then Inl Assertion
      else if op_size aop \<noteq> 0 \<and> \<not> b_set_size os then Inl Assertion
      else if op_size_blocks aop \<noteq> 0 \<and> \<not> b_set_size_blocks os then Inl Assertion
      else if \<not> b_clear_sock os then Inl Assertion
      else if \<not> b_reopen os then Inl Assertion
      else bindE (buse_loop aop wr mal m s sk) (\<lambda>r. Inr (0, r)))"

section \<open>What the properties speak of\<close>

text \<open>The requests of the protocol, as the kernel sends them, and a disk that is an array of bytes.\<close>

datatype nbd_request =
    Nbd_Read bytes u64 u32
  | Nbd_Write bytes u64 bytes
  | Nbd_Flush bytes
  | Nbd_Trim bytes u64 u32

definition nbd_header :: "u32 \<Rightarrow> bytes \<Rightarrow> u64 \<Rightarrow> u32 \<Rightarrow> bytes" where
  "nbd_header type handle from len =
     le_bytes 4 (htonl NBD_REQUEST_MAGIC) @ le_bytes 4 (htonl type) @ handle @ le_bytes 8 (ntohll from) @ le_bytes 4 (htonl len)"

fun nbd_image :: "nbd_request \<Rightarrow> bytes" where
  "nbd_image (Nbd_Read handle from len) = nbd_header NBD_CMD_READ handle from len"
| "nbd_image (Nbd_Write handle from bs) = nbd_header NBD_CMD_WRITE handle from (of_nat (length bs))"
| "nbd_image (Nbd_Flush handle) = nbd_header NBD_CMD_FLUSH handle 0 0"
| "nbd_image (Nbd_Trim handle from len) = nbd_header NBD_CMD_TRIM handle from len"

fun nbd_payload :: "nbd_request \<Rightarrow> bytes" where
  "nbd_payload (Nbd_Write handle from bs) = bs"
| "nbd_payload r = []"

fun in_disk :: "nat \<Rightarrow> nbd_request \<Rightarrow> bool" where
  "in_disk n (Nbd_Read handle from len) = (length handle = 8 \<and> unat from < n \<and> unat from + unat len \<le> n)"
| "in_disk n (Nbd_Write handle from bs) =
     (length handle = 8 \<and> unat from < n \<and> unat from + length bs \<le> n \<and> length bs < 2 ^ 32)"
| "in_disk n (Nbd_Flush handle) = (length handle = 8)"
| "in_disk n (Nbd_Trim handle from len) = (length handle = 8)"

text \<open>A request arrives as its header in one segment, and its payload in any non-empty segments.\<close>

definition arrives :: "nbd_request \<times> bytes list \<Rightarrow> bool" where
  "arrives = (\<lambda>(r, segs). concat segs = nbd_payload r \<and> [] \<notin> set segs)"

definition arrival :: "nbd_request \<times> bytes list \<Rightarrow> bytes list" where
  "arrival = (\<lambda>(r, segs). nbd_image r # segs)"

fun flat_request :: "nbd_request \<Rightarrow> bytes \<Rightarrow> bytes \<times> bytes" where
  "flat_request (Nbd_Read handle from len) d = (d, nbd_reply 0 handle @ slice d (unat from) (unat len))"
| "flat_request (Nbd_Write handle from bs) d = (blit d (unat from) bs, nbd_reply 0 handle)"
| "flat_request (Nbd_Flush handle) d = (d, nbd_reply 0 handle)"
| "flat_request (Nbd_Trim handle from len) d = (d, nbd_reply 0 handle)"

fun flat_disk :: "nbd_request list \<Rightarrow> bytes \<Rightarrow> bytes \<times> bytes" where
  "flat_disk [] d = (d, [])"
| "flat_disk (r # rs) d =
     (case flat_request r d of (d1, out1) \<Rightarrow> case flat_disk rs d1 of (d2, out2) \<Rightarrow> (d2, out1 @ out2))"

text \<open>The kernel takes some of what is written.\<close>

definition takes_some :: "writer \<Rightarrow> bool" where
  "takes_some wr \<longleftrightarrow> (\<forall>out n. 0 < n \<longrightarrow> 0 < wr out n)"

section \<open>Lemmas\<close>

lemma ntohll_ntohll [simp]: "ntohll (ntohll a) = a"
proof -
  define lo hi where "lo = htonl (ucast (a AND 0xffffffff))" and "hi = htonl (ucast (drop_bit 32 a))"
  have n: "ntohll a = push_bit 32 (ucast lo) OR ucast hi" by (simp add: ntohll_def lo_def hi_def)
  have mask: "(0xffffffff :: u64) = mask 32" by (simp add: mask_eq_exp_minus_1)
  have "ucast ((push_bit 32 (ucast lo) OR ucast hi :: u64) AND 0xffffffff) = hi"
    unfolding mask by (rule bit_word_eqI) (auto simp: bit_simps)
  moreover have "ucast (drop_bit 32 (push_bit 32 (ucast lo) OR ucast hi :: u64)) = lo"
    by (rule bit_word_eqI) (auto simp: bit_simps dest: bit_imp_le_length)
  ultimately have "ntohll (ntohll a) = push_bit 32 (ucast (htonl hi)) OR ucast (htonl lo)"
    by (simp add: n ntohll_def [of "push_bit 32 (ucast lo) OR ucast hi"] Let_def)
  also have "\<dots> = push_bit 32 (ucast (ucast (drop_bit 32 a) :: u32)) OR ucast (ucast (a AND 0xffffffff) :: u32)"
    by (simp add: lo_def hi_def)
  also have "\<dots> = a"
    unfolding mask by (rule bit_word_eqI) (auto simp: bit_simps)
  finally show ?thesis .
qed

lemma write_all_takes:
  "takes_some wr \<Longrightarrow> write_all wr bs sk = Inr (sk\<lparr>sk_out := sk_out sk @ bs\<rparr>)"
proof (induction wr bs sk rule: write_all.induct)
  case (1 wr bs sk)
  show ?case
  proof (cases "bs = []")
    case False
    then have "0 < wr (sk_out sk) (length bs)" using "1.prems" by (simp add: takes_some_def)
    with 1 False show ?thesis by (subst write_all.simps) (simp add: Let_def)
  qed (simp add: write_all.simps)
qed

lemma nbd_header_slices:
  assumes "length handle = 8"
  shows "length (nbd_header type handle from len) = 28" "slice (nbd_header type handle from len) 0 4 = le_bytes 4 (htonl NBD_REQUEST_MAGIC)"
    "slice (nbd_header type handle from len) 4 4 = le_bytes 4 (htonl type)" "slice (nbd_header type handle from len) 8 8 = handle"
    "slice (nbd_header type handle from len) 16 8 = le_bytes 8 (ntohll from)"
    "slice (nbd_header type handle from len) 24 4 = le_bytes 4 (htonl len)"
  using assms by (simp_all add: nbd_header_def slice_def)

text \<open>The payload of a write lands in the chunk, however it was cut into segments.\<close>

lemma read_all_segments:
  assumes "concat segs = bs" "[] \<notin> set segs" "mapped m buf (length bs)" "length bs < 2 ^ 32"
  shows "read_all buf (length bs) m \<lparr>sk_in = segs @ rest, sk_out = out\<rparr> =
    Inr (overwrite m buf bs, \<lparr>sk_in = rest, sk_out = out\<rparr>)"
  using assms
proof (induction segs arbitrary: bs m buf)
  case Nil
  then show ?case by (simp add: read_all.simps)
next
  case (Cons seg segs)
  let ?bs = "concat segs"
  have bs: "bs = seg @ ?bs" and ne: "seg \<noteq> []" using Cons.prems by auto
  have m: "mapped m buf (length seg)" "mapped m (buf + of_nat (length seg)) (length ?bs)"
    using Cons.prems(3) unfolding bs length_append mapped_add by simp_all
  have l: "length seg < 2 ^ 32" "length ?bs < 2 ^ 32" using Cons.prems(4) unfolding bs by simp_all
  have st: "store m buf seg = Some (overwrite m buf seg)" using m(1) l(1) by (intro store_mapped) simp_all
  have r: "sk_read (length bs) \<lparr>sk_in = (seg # segs) @ rest, sk_out = out\<rparr> = (seg, \<lparr>sk_in = segs @ rest, sk_out = out\<rparr>)"
    by (simp add: sk_read_def bs)
  have "read_all (buf + of_nat (length seg)) (length ?bs) (overwrite m buf seg) \<lparr>sk_in = segs @ rest, sk_out = out\<rparr> =
      Inr (overwrite (overwrite m buf seg) (buf + of_nat (length seg)) ?bs, \<lparr>sk_in = rest, sk_out = out\<rparr>)"
    by (rule Cons.IH) (use Cons.prems(2) m(2) l(2) in simp_all)
  moreover have "overwrite (overwrite m buf seg) (buf + of_nat (length seg)) ?bs = overwrite m buf bs"
    unfolding bs by (rule overwrite_append) (use l Cons.prems(4) bs in simp)
  ultimately show ?case
    using r st ne by (subst read_all.simps) (simp add: bs)
qed

lemma flat_request_length: "in_disk (length d) r \<Longrightarrow> length (fst (flat_request r d)) = length d"
  by (cases r) simp_all

section \<open>What the device needs of its operations\<close>

text \<open>
  \<open>flat s\<close> is the disk the state of the device stands for; the operations succeed on requests inside
  it, and do on it what they do on an array.
\<close>

locale block_device =
  fixes aop :: "'s buse_operations" and inv :: "'s \<Rightarrow> bool" and flat :: "'s \<Rightarrow> bytes"
  assumes read_law: "\<And>s m buf len from. inv s \<Longrightarrow> unat from < length (flat s) \<Longrightarrow>
      unat from + unat len \<le> length (flat s) \<Longrightarrow> mapped m buf (unat len) \<Longrightarrow>
      \<exists>f s'. op_read aop = Some f \<and> inv s' \<and> flat s' = flat s \<and>
        f buf len from m s = Inr (0, overwrite m buf (slice (flat s) (unat from) (unat len)), s')"
    and write_law: "\<And>s m buf len from bs. inv s \<Longrightarrow> unat from < length (flat s) \<Longrightarrow>
      unat from + unat len \<le> length (flat s) \<Longrightarrow> load m buf (unat len) = Some bs \<Longrightarrow>
      \<exists>f s'. op_write aop = Some f \<and> inv s' \<and> flat s' = blit (flat s) (unat from) bs \<and>
        f buf len from m s = Inr (0, m, s')"
    and flush_law: "\<And>s f. op_flush aop = Some f \<Longrightarrow> f s = (0, s)"
    and trim_law: "\<And>s from len g. op_trim aop = Some g \<Longrightarrow> g from len s = (0, s)"
begin

lemma read_request:
  assumes "inv s" "in_disk (length (flat s)) (Nbd_Read handle from len)" "has_room mal m" "takes_some wr"
  shows "\<exists>s'. buse_read aop wr mal handle len from m s sk =
      Inr (m, s', sk\<lparr>sk_out := sk_out sk @ snd (flat_request (Nbd_Read handle from len) (flat s))\<rparr>) \<and>
    inv s' \<and> flat s' = flat s"
proof (cases "unat len = 0")
  case True
  obtain f s' where f: "op_read aop = Some f" "inv s'" "flat s' = flat s" "f 0 len from m s = Inr (0, m, s')"
    using read_law [OF assms(1), of "from" len m 0] assms(2) True by (auto simp: slice_def)
  then show ?thesis
    using True assms(4)
    by (simp add: buse_read_def chunk_malloc_def transfer_def write_all_takes slice_def chunk_free_def guardE_def)
next
  case False
  let ?n = "unat len" let ?d = "slice (flat s) (unat from) ?n"
  have n: "0 < ?n" "?n < 2 ^ 32" using False unsigned_less [of len] by simp_all
  obtain a junk where a: "chunk_malloc mal m ?n = (a, overwrite m a junk)" "length junk = ?n"
      "mapped (overwrite m a junk) a ?n" "\<And>bs. length bs = ?n \<Longrightarrow> chunk_free a ?n (overwrite (overwrite m a junk) a bs) = m"
    using chunk_malloc_room [OF assms(3) n] by metis
  have l: "length ?d = ?n" using assms(2) by (auto simp: slice_def min_def)
  obtain f s' where f: "op_read aop = Some f" "inv s'" "flat s' = flat s"
      "f a len from (overwrite m a junk) s = Inr (0, overwrite (overwrite m a junk) a ?d, s')"
    using read_law [OF assms(1) _ _ a(3), of "from"] assms(2) by auto
  have "load (overwrite (overwrite m a junk) a ?d) a (length ?d) = Some ?d"
    using a(3) l n(2) by (intro load_overwrite_same) simp_all
  then have ld: "load (overwrite (overwrite m a junk) a ?d) a ?n = Some ?d" unfolding l .
  have "buse_read aop wr mal handle len from m s sk = Inr (m, s', sk\<lparr>sk_out := sk_out sk @ nbd_reply 0 handle @ ?d\<rparr>)"
    using a(4) [OF l] by (simp add: buse_read_def a(1) transfer_def f(1,4) write_all_takes [OF assms(4)] ld guardE_def)
  with f(2,3) show ?thesis by simp
qed

lemma write_request:
  assumes "inv s" "in_disk (length (flat s)) (Nbd_Write handle from bs)" "has_room mal m" "takes_some wr"
    and "concat segs = bs" "[] \<notin> set segs"
  shows "\<exists>s'. buse_write aop wr mal handle (of_nat (length bs)) from m s \<lparr>sk_in = segs @ rest, sk_out = out\<rparr> =
      Inr (m, s', \<lparr>sk_in = rest, sk_out = out @ nbd_reply 0 handle\<rparr>) \<and>
    inv s' \<and> flat s' = blit (flat s) (unat from) bs"
proof (cases "bs = []")
  case True
  then have segs: "segs = []" using assms(5,6) by (cases segs) auto
  obtain f s' where f: "op_write aop = Some f" "inv s'" "flat s' = flat s" "f 0 0 from m s = Inr (0, m, s')"
    using write_law [OF assms(1), of "from" 0 m 0 "[]"] assms(2) True by (auto simp: blit_def)
  then show ?thesis
    using True segs assms(4)
    by (simp add: buse_write_def chunk_malloc_def transfer_def write_all_takes chunk_free_def read_all.simps blit_def)
next
  case False
  let ?n = "length bs"
  have n: "0 < ?n" "?n < 2 ^ 32" "unat (of_nat ?n :: u32) = ?n"
    using False assms(2) by (simp_all add: unat_of_nat take_bit_nat_eq_self)
  obtain a junk where a: "chunk_malloc mal m ?n = (a, overwrite m a junk)" "length junk = ?n"
      "mapped (overwrite m a junk) a ?n" "\<And>bs. length bs = ?n \<Longrightarrow> chunk_free a ?n (overwrite (overwrite m a junk) a bs) = m"
    using chunk_malloc_room [OF assms(3) n(1,2)] by metis
  have ld: "load (overwrite (overwrite m a junk) a bs) a (unat (of_nat ?n :: u32)) = Some bs"
    unfolding n(3) using a(3) n(2) by (intro load_overwrite_same) simp_all
  obtain f s' where f: "op_write aop = Some f" "inv s'" "flat s' = blit (flat s) (unat from) bs"
      "f a (of_nat ?n) from (overwrite (overwrite m a junk) a bs) s = Inr (0, overwrite (overwrite m a junk) a bs, s')"
    using write_law [OF assms(1) _ _ ld, of "from"] assms(2) n(3) by auto
  have "buse_write aop wr mal handle (of_nat ?n) from m s \<lparr>sk_in = segs @ rest, sk_out = out\<rparr> =
      Inr (m, s', \<lparr>sk_in = rest, sk_out = out @ nbd_reply 0 handle\<rparr>)"
    using a(4) [OF refl] read_all_segments [OF assms(5,6) a(3) n(2), of rest out]
    by (simp add: buse_write_def n(3) a(1) transfer_def f(1,4) write_all_takes [OF assms(4)])
  with f(2,3) show ?thesis by blast
qed

text \<open>Every request is answered as by a flat disk, and the memory is as it was.\<close>

lemma one_request:
  assumes "inv s" "in_disk (length (flat s)) r" "has_room mal m" "takes_some wr" "arrives (r, segs)"
  shows "\<exists>s'. buse_request aop wr mal (nbd_image r) m s \<lparr>sk_in = segs @ rest, sk_out = out\<rparr> =
      Inr (False, m, s', \<lparr>sk_in = rest, sk_out = out @ snd (flat_request r (flat s))\<rparr>) \<and>
    inv s' \<and> flat s' = fst (flat_request r (flat s)) \<and> length (nbd_image r) = 28"
proof (cases r)
  case (Nbd_Read handle off len)
  then have segs: "segs = []" using assms(5) by (cases segs) (auto simp: arrives_def)
  show ?thesis
    using read_request [OF assms(1) _ assms(3,4), of handle off len "\<lparr>sk_in = rest, sk_out = out\<rparr>"] assms(2) segs
    by (auto simp: Nbd_Read buse_request_def nbd_header_slices nbd_defs)
next
  case (Nbd_Write handle off bs)
  then show ?thesis
    using write_request [OF assms(1) _ assms(3,4), of handle off bs segs rest out] assms(2,5)
    by (auto simp: Nbd_Write buse_request_def nbd_header_slices nbd_defs arrives_def)
next
  case (Nbd_Flush handle)
  then have segs: "segs = []" using assms(5) by (cases segs) (auto simp: arrives_def)
  have "(case op_flush aop of None \<Rightarrow> (0, s) | Some f \<Rightarrow> f s) = (0, s)"
    using flush_law by (cases "op_flush aop") simp_all
  then show ?thesis
    using assms(1,2,4) segs by (simp add: Nbd_Flush buse_request_def nbd_header_slices nbd_defs write_all_takes)
next
  case (Nbd_Trim handle off len)
  then have segs: "segs = []" using assms(5) by (cases segs) (auto simp: arrives_def)
  have "(case op_trim aop of None \<Rightarrow> (0, s) | Some f \<Rightarrow> f off len s) = (0, s)"
    using trim_law by (cases "op_trim aop") simp_all
  then show ?thesis
    using assms(1,2,4) segs by (simp add: Nbd_Trim buse_request_def nbd_header_slices nbd_defs write_all_takes)
qed

lemma serve_loop:
  assumes "inv s" "list_all (\<lambda>x. in_disk (length (flat s)) (fst x) \<and> arrives x) xs" "has_room mal m" "takes_some wr"
  shows "\<exists>s'. buse_loop aop wr mal m s \<lparr>sk_in = concat (map arrival xs), sk_out = out\<rparr> =
      Inr (m, s', \<lparr>sk_in = [], sk_out = out @ snd (flat_disk (map fst xs) (flat s))\<rparr>) \<and>
    inv s' \<and> flat s' = fst (flat_disk (map fst xs) (flat s))"
  using assms(1,2)
proof (induction xs arbitrary: s out)
  case Nil
  then show ?case by (auto simp: buse_loop.simps sk_read_def)
next
  case (Cons x xs)
  obtain r segs where x: "x = (r, segs)" by (cases x)
  let ?d = "flat s" let ?rest = "concat (map arrival xs)"
  have r: "in_disk (length ?d) r" "arrives (r, segs)" using Cons.prems(2) x by simp_all
  obtain s1 where s1: "buse_request aop wr mal (nbd_image r) m s \<lparr>sk_in = segs @ ?rest, sk_out = out\<rparr> =
      Inr (False, m, s1, \<lparr>sk_in = ?rest, sk_out = out @ snd (flat_request r ?d)\<rparr>)"
    "inv s1" "flat s1 = fst (flat_request r ?d)" "length (nbd_image r) = 28"
    using one_request [OF Cons.prems(1) r(1) assms(3,4) r(2)] by blast
  have "length (flat s1) = length ?d" using s1(3) flat_request_length [OF r(1)] by simp
  then obtain s2 where s2: "buse_loop aop wr mal m s1 \<lparr>sk_in = ?rest, sk_out = out @ snd (flat_request r ?d)\<rparr> =
      Inr (m, s2, \<lparr>sk_in = [], sk_out = (out @ snd (flat_request r ?d)) @ snd (flat_disk (map fst xs) (flat s1))\<rparr>)"
    "inv s2" "flat s2 = fst (flat_disk (map fst xs) (flat s1))"
    using Cons.IH [OF s1(2), of "out @ snd (flat_request r ?d)"] Cons.prems(2) by auto
  have "nbd_image r \<noteq> []" using s1(4) by auto
  then have "buse_loop aop wr mal m s \<lparr>sk_in = concat (map arrival (x # xs)), sk_out = out\<rparr> =
      buse_loop aop wr mal m s1 \<lparr>sk_in = ?rest, sk_out = out @ snd (flat_request r ?d)\<rparr>"
    using s1(1,4) by (subst buse_loop.simps) (simp add: x arrival_def sk_read_def)
  with s2 s1(3) show ?case by (auto simp: x split_def)
qed

end

end
