(* ===== verification/BB_Disk.thy ===== *)
theory BB_Disk
  imports BB_Vm BB_Buse
begin

text \<open>
  A disk on remote memory, \<^verbatim>\<open>ip6/apps/bb_disk.c\<close>: every block of the device is a block of remote memory,
  spread over the hosts; \<^verbatim>\<open>buse_main\<close> serves it to the kernel.
\<close>

section \<open>The operations\<close>

text \<open>
  \<^verbatim>\<open>struct rmem r\<close> with the rest of the client library's state. The library works on the memory of the
  process, where \<^verbatim>\<open>buse_main\<close> has its chunk.
\<close>

record 'n bd =
  bd_r :: rmem
  bd_net :: 'n
  bd_sub_ids :: "u16 \<Rightarrow> u32"

definition bd_client :: "mem \<Rightarrow> 'n bd \<Rightarrow> 'n client" where
  "bd_client m s = \<lparr>cl_mem = m, cl_net = bd_net s, cl_sub_ids = bd_sub_ids s\<rparr>"

definition bd_after :: "nat \<Rightarrow> ip6_memaddr list \<Rightarrow> sockaddr_in6 \<Rightarrow> 'n client \<Rightarrow> 'n bd \<Rightarrow> 'n bd" where
  "bd_after page_offset addrs target_ip c s =
     \<lparr>bd_r = (bd_r s)\<lparr>rm_target := target_ip, rm_list := take page_offset (rm_list (bd_r s)) @ addrs\<rparr>,
      bd_net = cl_net c, bd_sub_ids = cl_sub_ids c\<rparr>"

definition xmp_read :: "'n netif \<Rightarrow> u64 \<Rightarrow> u32 \<Rightarrow> u64 \<Rightarrow> mem \<Rightarrow> 'n bd \<Rightarrow> (int \<times> mem \<times> 'n bd) res" where
  "xmp_read nif buf len off m s =
     (let page_offset = unat (off div of_nat BLOCK_SIZE) in
      bindE (read_bulk_rmem nif (rm_target (bd_r s)) (drop page_offset (rm_list (bd_r s))) (unat len div BLOCK_SIZE) buf
          (unat len) (bd_client m s)) (\<lambda>(r, addrs, tgt, c).
        Inr (0, cl_mem c, bd_after page_offset addrs tgt c s)))"

definition xmp_write :: "'n netif \<Rightarrow> u64 \<Rightarrow> u32 \<Rightarrow> u64 \<Rightarrow> mem \<Rightarrow> 'n bd \<Rightarrow> (int \<times> mem \<times> 'n bd) res" where
  "xmp_write nif buf len off m s =
     (let page_offset = unat (off div of_nat BLOCK_SIZE) in
      bindE (guardE Segv (load m buf (unat len))) (\<lambda>bs.
      bindE (write_bulk_rmem nif (rm_target (bd_r s)) (drop page_offset (rm_list (bd_r s))) (unat len div BLOCK_SIZE) bs
          (unat len) (bd_client m s)) (\<lambda>(r, addrs, tgt, c).
        Inr (0, cl_mem c, bd_after page_offset addrs tgt c s))))"

definition xmp_disc :: "'n bd \<Rightarrow> 'n bd" where
  "xmp_disc s = s"

definition xmp_flush :: "'n bd \<Rightarrow> int \<times> 'n bd" where
  "xmp_flush s = (0, s)"

text \<open>The call of \<^verbatim>\<open>trim_rmem\<close> is commented out.\<close>

definition xmp_trim :: "u64 \<Rightarrow> u32 \<Rightarrow> 'n bd \<Rightarrow> int \<times> 'n bd" where
  "xmp_trim off len s = (0, s)"

text \<open>The size is 42 gigabytes in the program, and a parameter here.\<close>

definition AOP_SIZE :: u64 where "AOP_SIZE = 42 * 1024 * 1024 * 1024"

definition disk_aop :: "'n netif \<Rightarrow> u64 \<Rightarrow> 'n bd buse_operations" where
  "disk_aop nif sz = \<lparr>op_read = Some (xmp_read nif), op_write = Some (xmp_write nif), op_disc = Some xmp_disc,
     op_flush = Some xmp_flush, op_trim = Some xmp_trim, op_size = sz, op_blksize = 0, op_size_blocks = 0\<rparr>"

text \<open>
  After the arguments and the configuration: \<^verbatim>\<open>main\<close> spreads the blocks over the hosts by the loop that
  \<^verbatim>\<open>rmem_allocate\<close> has too, then serves.
\<close>

definition run_disk ::
  "u64 \<Rightarrow> 'n netif \<Rightarrow> host_list \<Rightarrow> sockaddr_in6 \<Rightarrow> ip6_memaddr \<Rightarrow> buse_os \<Rightarrow> writer \<Rightarrow> mallocator \<Rightarrow> 'n client \<Rightarrow> sock \<Rightarrow>
   (int \<times> mem \<times> 'n bd \<times> sock) res" where
  "run_disk sz nif hl target_ip junk os wr mal c sk =
     (let n = unat (sz div of_nat BLOCK_SIZE) in
      if nhosts hl = 0 then Inl Fpe
      else
        bindE (fill_rmem nif hl (n div nat (nhosts hl)) (nat (nhosts hl)) [0..<nat (nhosts hl)]
            \<lparr>rm_target = target_ip, rm_list = replicate n junk, rm_nblocks = n\<rparr> c) (\<lambda>(r, c1).
          buse_main (disk_aop nif sz) os wr mal (cl_mem c1) \<lparr>bd_r = r, bd_net = cl_net c1, bd_sub_ids = cl_sub_ids c1\<rparr> sk))"

definition bb_disk_main ::
  "nat \<Rightarrow> 'n netif \<Rightarrow> host_list \<Rightarrow> sockaddr_in6 \<Rightarrow> ip6_memaddr \<Rightarrow> buse_os \<Rightarrow> writer \<Rightarrow> mallocator \<Rightarrow> 'n client \<Rightarrow> 'n bd \<Rightarrow> sock \<Rightarrow>
   (int \<times> mem \<times> 'n bd \<times> sock) res" where
  "bb_disk_main argc nif hl target_ip junk os wr mal c s0 sk =
     (if argc \<noteq> 2 then Inr (1, cl_mem c, s0, sk) else run_disk AOP_SIZE nif hl target_ip junk os wr mal c sk)"

section \<open>What the properties speak of\<close>

definition disk_view :: "cluster bd \<Rightarrow> rview" where
  "disk_view s = cluster_view (bd_net s)"

definition disk_ready :: "topology \<Rightarrow> (u16 \<Rightarrow> bool) \<Rightarrow> cluster bd \<Rightarrow> bool" where
  "disk_ready topo host s \<longleftrightarrow>
     client_idle host (bd_client (\<lambda>_. None) s) \<and> sin6_port (rm_target (bd_r s)) = t_port topo \<and>
     remote_blocks host (disk_view s) (rm_list (bd_r s)) \<and> (\<forall>a\<in>set (rm_list (bd_r s)). in_table a)"

definition disk_bytes :: "cluster bd \<Rightarrow> bytes" where
  "disk_bytes s = concat (map (rload (disk_view s) BLOCK_SIZE) (rm_list (bd_r s)))"

section \<open>Lemmas\<close>

text \<open>A transfer changes no address, only the command and the arguments kept beside it.\<close>

definition same_place :: "ip6_memaddr list \<Rightarrow> ip6_memaddr list \<Rightarrow> bool" where
  "same_place as bs \<longleftrightarrow> map subid as = map subid bs \<and> map paddr as = map paddr bs"

lemma same_place_refl [simp]: "same_place as as"
  by (simp add: same_place_def)

lemma same_place_nth:
  assumes "same_place as bs"
  shows "length as = length bs" "i < length bs \<Longrightarrow> subid (as ! i) = subid (bs ! i)"
    "i < length bs \<Longrightarrow> paddr (as ! i) = paddr (bs ! i)"
  using assms nth_map [of i as subid] nth_map [of i as paddr]
  by (auto simp: same_place_def dest: map_eq_imp_length_eq)

lemma same_place_upd: "subid a = subid (hd as) \<Longrightarrow> paddr a = paddr (hd as) \<Longrightarrow> same_place (as[0 := a]) as"
  by (cases as) (simp_all add: same_place_def)

lemma write_bulk_place:
  "write_bulk_rmem nif tgt addrs n payload sz c = Inr (r, addrs', tgt', c') \<Longrightarrow> same_place addrs' addrs"
  by (auto simp: write_bulk_rmem_def write_rmem_def Let_def sub_array_def hd_take intro!: same_place_upd
      split: if_splits)

lemma read_bulk_place:
  "read_bulk_rmem nif tgt addrs n rx_buf sz c = Inr (r, addrs', tgt', c') \<Longrightarrow> same_place addrs' addrs"
  by (auto simp: read_bulk_rmem_def read_rmem_def Let_def sub_array_def hd_take intro!: same_place_upd
      split: if_splits)

lemma remote_blocks_place:
  assumes "same_place as bs" "remote_blocks host v bs" "\<And>b. rmapped v b BLOCK_SIZE \<Longrightarrow> rmapped v' b BLOCK_SIZE"
  shows "remote_blocks host v' as"
proof -
  note p = same_place_nth [OF assms(1)]
  have "host (subid (as ! i)) \<and> rmapped v' (as ! i) BLOCK_SIZE" if "i < length bs" for i
  proof -
    have "host (subid (bs ! i)) \<and> rmapped v' (bs ! i) BLOCK_SIZE" using assms(2,3) that by (simp add: remote_blocks_def)
    then show ?thesis using p(2,3) [OF that] by (simp add: rmapped_def)
  qed
  moreover have "chunk_sep (as ! i) (as ! j)" if "i < length bs" "j < length bs" "i \<noteq> j" for i j
    using assms(2) that p(2,3) [of i] p(2,3) [of j] by (simp add: remote_blocks_def chunk_sep_def)
  ultimately show ?thesis using p(1) by (auto simp: remote_blocks_def in_set_conv_nth)
qed

lemma rload_place: "same_place as bs \<Longrightarrow> map (rload v n) as = map (rload v n) bs"
  using same_place_nth [of as bs] by (auto simp: rload_def intro!: nth_equalityI)

lemma in_table_place: "same_place as bs \<Longrightarrow> \<forall>b\<in>set bs. in_table b \<Longrightarrow> \<forall>a\<in>set as. in_table a"
  using same_place_nth [of as bs] by (metis in_set_conv_nth in_table_def)

text \<open>Only the number of chunks is compared with the number of addresses.\<close>

lemma bulk_num_addrs:
  assumes "sz div BLOCK_SIZE \<le> n" "sz div BLOCK_SIZE \<le> k"
  shows "write_bulk_rmem nif tgt addrs n payload sz c = write_bulk_rmem nif tgt addrs k payload sz c"
    "read_bulk_rmem nif tgt addrs n rx_buf sz c = read_bulk_rmem nif tgt addrs k rx_buf sz c"
  using assms by (simp_all add: write_bulk_rmem_def read_bulk_rmem_def Let_def)

lemma concat_single: "\<forall>b\<in>set bs. length b = BLOCK_SIZE \<Longrightarrow> concat bs = map hd bs"
  by (induction bs) (auto simp: BLOCK_SIZE_def length_Suc_conv)

lemma map_blit: "map f (blit xs k ys) = blit (map f xs) k (map f ys)"
  by (simp add: blit_def take_map drop_map)

text \<open>Writing some of the blocks is writing part of the array they make up.\<close>

lemma blocks_put:
  assumes rb: "remote_blocks host v as" and k: "k + n \<le> length as" and pl: "BLOCK_SIZE * n \<le> length payload"
  shows "map (rload (put_chunks v (zip (take n (drop k as)) (chunks payload n))) BLOCK_SIZE) as =
    blit (map (rload v BLOCK_SIZE) as) k (chunks payload n)"
proof -
  let ?mid = "take n (drop k as)" let ?v = "put_chunks v (zip ?mid (chunks payload n))"
  have sep: "chunk_sep (as ! i) (as ! j)" if "i < length as" "j < length as" "i \<noteq> j" for i j
    using rb that by (simp add: remote_blocks_def)
  have lm: "length ?mid = n" using k by simp
  have "separate ?mid"
    unfolding separate_def sorted_wrt_iff_nth_less lm using k sep by simp
  then have mid: "map (rload ?v BLOCK_SIZE) ?mid = chunks payload n"
    using rb lm length_chunk [OF pl]
    by (intro rload_put_chunks) (auto simp: remote_blocks_def dest!: in_set_takeD in_set_dropD)
  have out: "rload ?v BLOCK_SIZE (as ! i) = rload v BLOCK_SIZE (as ! i)" if i: "i < length as" "i < k \<or> k + n \<le> i" for i
  proof (rule rload_put_chunks_other, clarify)
    fix b bs assume m: "(b, bs) \<in> set (zip ?mid (chunks payload n))"
    then obtain j where "j < n" "b = as ! (k + j)"
      using set_zip_leftD [OF m] k by (auto simp: in_set_conv_nth)
    then show "chunk_sep (as ! i) b \<and> length bs = BLOCK_SIZE"
      using sep [of i "k + j"] i k length_chunk [OF pl set_zip_rightD [OF m]] by auto
  qed
  show ?thesis
  proof (rule nth_equalityI)
    fix i assume "i < length (map (rload ?v BLOCK_SIZE) as)"
    then have i: "i < length as" by simp
    have "rload ?v BLOCK_SIZE (as ! i) = chunks payload n ! (i - k)" if "k \<le> i" "i < k + n"
      using nth_map [of "i - k" ?mid "rload ?v BLOCK_SIZE"] that lm mid i less_diff_conv2 [OF that(1), of n]
      by (simp add: add.commute)
    with out [OF i] show "map (rload ?v BLOCK_SIZE) as ! i = blit (map (rload v BLOCK_SIZE) as) k (chunks payload n) ! i"
      using i k by (auto simp: blit_def nth_append)
  qed (use k in \<open>simp add: blit_def\<close>)
qed

lemma disk_ready_facts:
  assumes "disk_ready topo host s"
  shows "cm.ready host (bd_client m s)" "sin6_port (rm_target (bd_r s)) = t_port topo"
    "cm.addrs_ok host (disk_view s) (drop k (rm_list (bd_r s)))"
    "\<forall>b\<in>set (map (rload (disk_view s) BLOCK_SIZE) (rm_list (bd_r s))). length b = BLOCK_SIZE"
    "length (disk_bytes s) = length (rm_list (bd_r s))"
  using assms
  by (auto simp: disk_ready_def client_idle_ready [symmetric] client_idle_def bd_client_def cm.addrs_ok_def remote_blocks_def
      disk_bytes_def length_concat_rload BLOCK_SIZE_def length_rload dest: in_set_dropD)

lemma disk_ready_after:
  assumes "disk_ready topo host s" "same_place addrs (drop k (rm_list (bd_r s)))" "k \<le> length (rm_list (bd_r s))"
    and "cm.ready host c" "sin6_port tgt = t_port topo"
    and "\<And>b. rmapped (disk_view s) b BLOCK_SIZE \<Longrightarrow> rmapped (cluster_view (cl_net c)) b BLOCK_SIZE"
  shows "disk_ready topo host (bd_after k addrs tgt c s)"
    "disk_bytes (bd_after k addrs tgt c s) = concat (map (rload (cluster_view (cl_net c)) BLOCK_SIZE) (rm_list (bd_r s)))"
proof -
  let ?l = "rm_list (bd_r s)"
  have "same_place (take k ?l @ addrs) (take k ?l @ drop k ?l)" using assms(2) by (simp add: same_place_def del: append_take_drop_id)
  then have p: "same_place (take k ?l @ addrs) ?l" by simp
  have "remote_blocks host (cluster_view (cl_net c)) (take k ?l @ addrs)"
    by (rule remote_blocks_place [OF p _ assms(6)]) (use assms(1) in \<open>simp_all add: disk_ready_def\<close>)
  then show "disk_ready topo host (bd_after k addrs tgt c s)"
    using assms(1,4,5) in_table_place [OF p]
    by (simp add: disk_ready_def bd_after_def disk_view_def client_idle_def bd_client_def client_idle_ready [symmetric])
  show "disk_bytes (bd_after k addrs tgt c s) = concat (map (rload (cluster_view (cl_net c)) BLOCK_SIZE) ?l)"
    using rload_place [OF p] by (simp add: disk_bytes_def disk_view_def bd_after_def)
qed

section \<open>The operations keep the contract of a block device\<close>

lemma xmp_read_ok:
  assumes r: "disk_ready topo host s" and off: "unat off < length (disk_bytes s)"
      "unat off + unat len \<le> length (disk_bytes s)" and m: "mapped m buf (unat len)"
  shows "\<exists>s'. disk_ready topo host s' \<and> disk_bytes s' = disk_bytes s \<and>
    xmp_read (cluster_net topo pick) buf len off m s =
      Inr (0, overwrite m buf (slice (disk_bytes s) (unat off) (unat len)), s')"
proof -
  note f = disk_ready_facts [OF r]
  let ?l = "rm_list (bd_r s)" let ?k = "unat off" let ?n = "unat len"
  have k: "unat (off div of_nat BLOCK_SIZE) = ?k" by (simp add: BLOCK_SIZE_def)
  have n: "?n div BLOCK_SIZE = ?n" by (simp add: BLOCK_SIZE_def)
  have d: "drop ?k ?l \<noteq> []" "?n div BLOCK_SIZE \<le> length (drop ?k ?l)" using off f(5) n by simp_all
  have "?n < 2 ^ 32" using unsigned_less [of len] by simp
  then have sz: "?n \<le> 2 ^ 32" by simp
  have v: "cluster_view (cl_net (bd_client m s)) = disk_view s" "cl_mem (bd_client m s) = m"
    by (simp_all add: bd_client_def disk_view_def)
  obtain addrs tgt c where c: "read_bulk_rmem (cluster_net topo pick) (rm_target (bd_r s)) (drop ?k ?l) (length (drop ?k ?l)) buf ?n
      (bd_client m s) = Inr (0, addrs, tgt, c)" "sin6_port tgt = t_port topo" "cm.ready host c" "cluster_view (cl_net c) = disk_view s"
    "cl_mem c = overwrite m buf (concat (map (rload (disk_view s) BLOCK_SIZE) (take ?n (drop ?k ?l))))"
    using cm.read_bulk_ok [OF f(1) [of m] f(2) _ d, of buf pick] f(3) [of ?k] m sz unfolding v n by blast
  have "concat (map (rload (disk_view s) BLOCK_SIZE) (take ?n (drop ?k ?l))) = slice (disk_bytes s) ?k ?n"
    using f(4) unfolding disk_bytes_def
    by (subst (1 2) concat_single) (auto simp: slice_def take_map drop_map dest!: in_set_takeD in_set_dropD)
  then have run: "xmp_read (cluster_net topo pick) buf len off m s =
      Inr (0, overwrite m buf (slice (disk_bytes s) ?k ?n), bd_after ?k addrs tgt c s)"
    using c(1,5) bulk_num_addrs(2) [OF order_refl d(2), of "cluster_net topo pick"] by (simp add: xmp_read_def Let_def k)
  have "disk_ready topo host (bd_after ?k addrs tgt c s)" "disk_bytes (bd_after ?k addrs tgt c s) = disk_bytes s"
    using disk_ready_after [OF r read_bulk_place [OF c(1)] _ c(3,2)] off(1) f(5) c(4) by (simp_all add: disk_bytes_def)
  with run show ?thesis by blast
qed

lemma xmp_write_ok:
  assumes r: "disk_ready topo host s" and off: "unat off < length (disk_bytes s)"
      "unat off + unat len \<le> length (disk_bytes s)" and m: "load m buf (unat len) = Some bs"
  shows "\<exists>s'. disk_ready topo host s' \<and> disk_bytes s' = blit (disk_bytes s) (unat off) bs \<and>
    xmp_write (cluster_net topo pick) buf len off m s = Inr (0, m, s')"
proof -
  note f = disk_ready_facts [OF r]
  let ?l = "rm_list (bd_r s)" let ?k = "unat off" let ?n = "unat len"
  have k: "unat (off div of_nat BLOCK_SIZE) = ?k" by (simp add: BLOCK_SIZE_def)
  have n: "?n div BLOCK_SIZE = ?n" by (simp add: BLOCK_SIZE_def)
  have d: "drop ?k ?l \<noteq> []" "?n div BLOCK_SIZE \<le> length (drop ?k ?l)" using off f(5) n by simp_all
  have lb: "length bs = ?n" by (rule load_length [OF m])
  have v: "cluster_view (cl_net (bd_client m s)) = disk_view s" "cl_mem (bd_client m s) = m"
    by (simp_all add: bd_client_def disk_view_def)
  obtain addrs tgt c where c: "write_bulk_rmem (cluster_net topo pick) (rm_target (bd_r s)) (drop ?k ?l) (length (drop ?k ?l)) bs ?n
      (bd_client m s) = Inr (0, addrs, tgt, c)" "sin6_port tgt = t_port topo" "cm.ready host c" "cl_mem c = m"
    "cluster_view (cl_net c) = put_chunks (disk_view s) (zip (take ?n (drop ?k ?l)) (chunks bs ?n))"
    using cm.write_bulk_ok [OF f(1) [of m] f(2) _ d, of bs pick] f(3) [of ?k] lb unfolding v n by auto
  have run: "xmp_write (cluster_net topo pick) buf len off m s = Inr (0, m, bd_after ?k addrs tgt c s)"
    using c(1,4) m bulk_num_addrs(1) [OF order_refl d(2), of "cluster_net topo pick"]
    by (simp add: xmp_write_def Let_def k guardE_def)
  have kn: "?k + ?n \<le> length ?l" and pl: "BLOCK_SIZE * ?n \<le> length bs" using off f(5) lb by (simp_all add: BLOCK_SIZE_def)
  have rb: "remote_blocks host (disk_view s) ?l" using r by (simp add: disk_ready_def)
  have "\<forall>b\<in>set (blit (map (rload (disk_view s) BLOCK_SIZE) ?l) ?k (chunks bs ?n)). length b = BLOCK_SIZE"
    using f(4) length_chunk [OF pl] by (auto simp: blit_def dest!: in_set_takeD in_set_dropD)
  then have "concat (blit (map (rload (disk_view s) BLOCK_SIZE) ?l) ?k (chunks bs ?n)) =
      blit (map hd (map (rload (disk_view s) BLOCK_SIZE) ?l)) ?k (map hd (chunks bs ?n))"
    by (simp only: concat_single map_blit)
  also have "map hd (chunks bs ?n) = bs"
    using concat_chunks [OF pl] concat_single [of "chunks bs ?n"] length_chunk [OF pl] lb by (simp add: BLOCK_SIZE_def)
  also have "map hd (map (rload (disk_view s) BLOCK_SIZE) ?l) = disk_bytes s"
    using concat_single [OF f(4)] by (simp add: disk_bytes_def)
  finally have bytes: "concat (blit (map (rload (disk_view s) BLOCK_SIZE) ?l) ?k (chunks bs ?n)) = blit (disk_bytes s) ?k bs" .
  have "disk_ready topo host (bd_after ?k addrs tgt c s)" "disk_bytes (bd_after ?k addrs tgt c s) = blit (disk_bytes s) ?k bs"
    using disk_ready_after [OF r write_bulk_place [OF c(1)] _ c(3,2)] off(1) f(5) blocks_put [OF rb kn pl] bytes
    by (simp_all add: c(5) rmapped_put_chunks)
  with run show ?thesis by blast
qed

interpretation nbd: block_device "disk_aop (cluster_net topo pick) sz" "disk_ready topo host" disk_bytes
  for topo pick sz host
proof
  fix s :: "cluster bd" and m and buf off :: u64 and len :: u32 and bs
  assume s: "disk_ready topo host s" "unat off < length (disk_bytes s)" "unat off + unat len \<le> length (disk_bytes s)"
  show "\<exists>f s'. op_read (disk_aop (cluster_net topo pick) sz) = Some f \<and> disk_ready topo host s' \<and> disk_bytes s' = disk_bytes s \<and>
      f buf len off m s = Inr (0, overwrite m buf (slice (disk_bytes s) (unat off) (unat len)), s')"
    if "mapped m buf (unat len)"
    using xmp_read_ok [OF s that, of pick] by (simp add: disk_aop_def)
  show "\<exists>f s'. op_write (disk_aop (cluster_net topo pick) sz) = Some f \<and> disk_ready topo host s' \<and>
      disk_bytes s' = blit (disk_bytes s) (unat off) bs \<and> f buf len off m s = Inr (0, m, s')"
    if "load m buf (unat len) = Some bs"
    using xmp_write_ok [OF s that, of pick] by (simp add: disk_aop_def)
qed (auto simp: disk_aop_def xmp_flush_def xmp_trim_def)

section \<open>The property\<close>

definition calls_succeed :: "buse_os \<Rightarrow> bool" where
  "calls_succeed os \<longleftrightarrow> b_socketpair os \<and> b_open os \<and> b_set_blksize os \<and> b_set_size os \<and> b_set_size_blocks os \<and>
     b_clear_sock os \<and> b_reopen os"

lemma fresh_disk:
  assumes "client_idle host c" "sin6_port (rm_target r) = t_port topo" "blocks_zero host (cluster_view (cl_net c)) (rm_list r)"
    and "\<And>s. host s \<Longrightarrow> unat s < USHRT_MAX"
  shows "disk_ready topo host \<lparr>bd_r = r, bd_net = cl_net c, bd_sub_ids = cl_sub_ids c\<rparr>"
    "disk_bytes \<lparr>bd_r = r, bd_net = cl_net c, bd_sub_ids = cl_sub_ids c\<rparr> = replicate (length (rm_list r)) 0"
proof -
  show "disk_ready topo host \<lparr>bd_r = r, bd_net = cl_net c, bd_sub_ids = cl_sub_ids c\<rparr>"
    using assms by (auto simp: disk_ready_def client_idle_def bd_client_def disk_view_def blocks_zero_def remote_blocks_def in_table_def)
  have "map (rload (cluster_view (cl_net c)) BLOCK_SIZE) (rm_list r) = replicate (length (rm_list r)) [0]"
    using assms(3) by (intro replicate_eqI) (auto simp: blocks_zero_def zero_block_def BLOCK_SIZE_def)
  then show "disk_bytes \<lparr>bd_r = r, bd_net = cl_net c, bd_sub_ids = cl_sub_ids c\<rparr> = replicate (length (rm_list r)) 0"
    by (simp add: disk_bytes_def disk_view_def)
qed



end
