(* ===== verification/BB_Books.thy ===== *)
theory BB_Books
  imports BB_Cluster
begin

text \<open>
  What the servers of a cluster have on their books: the blocks that are allocated. Transfers do not
  change them; an allocation adds a block and a free takes one off.
\<close>

section \<open>Transfers keep the books\<close>

definition same_books :: "cluster \<Rightarrow> cluster \<Rightarrow> bool" where
  "same_books n n' \<longleftrightarrow> (\<forall>s h'. servers n' s = Some h' \<longrightarrow> (\<exists>h. servers n s = Some h \<and> hblocks h' = hblocks h))"

lemma same_books_refl [simp]: "same_books n n"
  by (simp add: same_books_def)

lemma same_books_trans [trans]: "same_books n1 n2 \<Longrightarrow> same_books n2 n3 \<Longrightarrow> same_books n1 n3"
  unfolding same_books_def by metis

definition transfer_cmd :: "u16 \<Rightarrow> bool" where
  "transfer_cmd c \<longleftrightarrow> c \<in> {WRITE_CMD, WRITE_BULK_CMD, READ_CMD, READ_BULK_CMD}"

lemma transfer_cmds [simp]:
  "transfer_cmd WRITE_CMD" "transfer_cmd WRITE_BULK_CMD" "transfer_cmd READ_CMD" "transfer_cmd READ_BULK_CMD"
  by (simp_all add: transfer_cmd_def)

lemma memcpy_in_books: "memcpy_in h a bs n = Inr h' \<Longrightarrow> hblocks h' = hblocks h"
  by (auto simp: memcpy_in_def guardE_def split: option.splits if_splits)

lemma process_request_books:
  assumes "process_request pick tgt r buf sz h = Inr (h', tgt', ps)" "transfer_cmd (cmd r)"
  shows "hblocks h' = hblocks h"
  using assms
  by (auto simp: transfer_cmd_def process_request_cmd write_mem_def write_mem_bulk_def read_mem_def read_mem_ptr_def Let_def reply_def
      dest: memcpy_in_books split: if_splits)

lemma send_books:
  assumes "nif_send (cluster_net topo pick) pkt n = Inr n'" "transfer_cmd (cmd (dst_addr pkt))"
  shows "same_books n n'"
  using assms
  by (auto simp: cluster_net_def cluster_send_def Let_def same_books_def dest: process_request_books
      split: option.splits if_splits sum.splits)

lemma recv_books: "nif_recv (cluster_net topo pick) n = Inr (m, n') \<Longrightarrow> same_books n n'"
  by (auto simp: cluster_net_def cluster_recv_def same_books_def split: list.splits)

lemma c_send_books:
  "c_send (cluster_net topo pick) pkt c = Inr c' \<Longrightarrow> transfer_cmd (cmd (dst_addr pkt)) \<Longrightarrow> same_books (cl_net c) (cl_net c')"
  by (auto simp: c_send_def dest: send_books)

lemma rcv_books:
  "rcv_udp6_raw (cluster_net topo pick) buf c = Inr (k, tgt, a, c') \<Longrightarrow> same_books (cl_net c) (cl_net c')"
  by (auto simp: rcv_udp6_raw_def dest: recv_books)

lemma rcv_bulk_books:
  "rcv_udp6_raw_bulk (cluster_net topo pick) k c = Inr c' \<Longrightarrow> same_books (cl_net c) (cl_net c')"
proof (induction k arbitrary: c)
  case (Suc k)
  from Suc.prems obtain m n mm where r: "nif_recv (cluster_net topo pick) (cl_net c) = Inr (m, n)"
      "rcv_udp6_raw_bulk (cluster_net topo pick) k (c\<lparr>cl_net := n, cl_mem := mm\<rparr>) = Inr c'"
    by auto
  show ?case using same_books_trans [OF recv_books [OF r(1)]] Suc.IH [OF r(2)] by simp
qed simp

lemma send_batched_books:
  "send_udp_raw_batched (cluster_net topo pick) ps c = Inr c' \<Longrightarrow> \<forall>p\<in>set ps. transfer_cmd (cmd (dst_addr p)) \<Longrightarrow>
   same_books (cl_net c) (cl_net c')"
proof (induction ps arbitrary: c)
  case (Cons p ps)
  then obtain k c1 where c1: "c_send (cluster_net topo pick) (stamp_args p k) c = Inr c1"
      "send_udp_raw_batched (cluster_net topo pick) ps c1 = Inr c'"
    by auto
  have "transfer_cmd (cmd (dst_addr (stamp_args p k)))" using Cons.prems(2) by (simp add: stamp_args_def)
  with c_send_books [OF c1(1)] Cons.IH [OF c1(2)] Cons.prems(2) show ?case by (auto intro: same_books_trans)
qed simp

lemma wait_acks_books:
  "wait_acks (cluster_net topo pick) ks tgt c = Inr (tgt', c') \<Longrightarrow> same_books (cl_net c) (cl_net c')"
proof (induction ks arbitrary: c tgt)
  case (Cons k ks)
  then consider "wait_acks (cluster_net topo pick) ks tgt c = Inr (tgt', c')"
    | l t a c1 where "rcv_udp6_raw (cluster_net topo pick) None c = Inr (l, t, a, c1)" "wait_acks (cluster_net topo pick) ks t c1 = Inr (tgt', c')"
    by (auto split: if_splits)
  then show ?case using Cons.IH rcv_books same_books_trans by cases blast+
qed simp

lemma write_pkts_cmd:
  "write_pkts port payload k i as ids = Inr (ps, ids') \<Longrightarrow> \<forall>p\<in>set ps. transfer_cmd (cmd (dst_addr p))"
  by (induction port payload k i as ids arbitrary: ps ids' rule: write_pkts.induct) fastforce+

lemma read_pkts_cmd:
  "read_pkts port buffer k i as ids = Inr (ps, ids') \<Longrightarrow> \<forall>p\<in>set ps. transfer_cmd (cmd (dst_addr p))"
  by (induction port buffer k i as ids arbitrary: ps ids' rule: read_pkts.induct) fastforce+

lemma batch_write_books:
  assumes "batch_write (cluster_net topo pick) tgt as payload k c = Inr (tgt', c')"
  shows "same_books (cl_net c) (cl_net c')"
proof -
  obtain ps ids c1 where "write_pkts (sin6_port tgt) payload k 0 as (\<lambda>_. 0) = Inr (ps, ids)"
    "send_udp_raw_batched (cluster_net topo pick) ps (c\<lparr>cl_sub_ids := ids\<rparr>) = Inr c1"
    "wait_acks (cluster_net topo pick) [0..<USHRT_MAX] tgt c1 = Inr (tgt', c')"
    using assms by (auto simp: batch_write_def)
  then show ?thesis
    using send_batched_books [of topo pick ps] write_pkts_cmd wait_acks_books same_books_trans by fastforce
qed

lemma batch_read_books:
  assumes "batch_read (cluster_net topo pick) tgt as buf k c = Inr c'"
  shows "same_books (cl_net c) (cl_net c')"
proof -
  obtain ps ids c1 where "read_pkts (sin6_port tgt) buf k 0 as (\<lambda>_. 0) = Inr (ps, ids)"
    "send_udp_raw_batched (cluster_net topo pick) ps (c\<lparr>cl_sub_ids := ids\<rparr>) = Inr c1"
    "rcv_udp6_raw_bulk (cluster_net topo pick) (length as) c1 = Inr c'"
    using assms by (auto simp: batch_read_def)
  then show ?thesis
    using send_batched_books [of topo pick ps] read_pkts_cmd rcv_bulk_books same_books_trans by fastforce
qed

lemma write_batches_books:
  "write_batches (cluster_net topo pick) as payload i k tgt c = Inr (tgt', c') \<Longrightarrow> same_books (cl_net c) (cl_net c')"
proof (induction k arbitrary: i tgt c)
  case (Suc k)
  then obtain bs t c1 where "batch_write (cluster_net topo pick) tgt bs (drop (BLOCK_SIZE * i * BATCH_SIZE) payload) BLOCK_SIZE c = Inr (t, c1)"
      "write_batches (cluster_net topo pick) as payload (Suc i) k t c1 = Inr (tgt', c')"
    by auto
  with Suc.IH batch_write_books show ?case by (blast intro: same_books_trans)
qed simp

lemma read_batches_books:
  "read_batches (cluster_net topo pick) as buf i k tgt c = Inr c' \<Longrightarrow> same_books (cl_net c) (cl_net c')"
proof (induction k arbitrary: i tgt c)
  case (Suc k)
  then obtain bs b c1 where "batch_read (cluster_net topo pick) tgt bs b BLOCK_SIZE c = Inr c1"
      "read_batches (cluster_net topo pick) as buf (Suc i) k tgt c1 = Inr c'"
    by auto
  with Suc.IH batch_read_books show ?case by (blast intro: same_books_trans)
qed simp

lemma write_rmem_books:
  assumes "write_rmem (cluster_net topo pick) tgt a bs c = Inr (tgt', a', c')"
  shows "same_books (cl_net c) (cl_net c')"
proof -
  obtain c1 l t b where "c_send (cluster_net topo pick) (send_udp_raw bs (a\<lparr>cmd := WRITE_CMD\<rparr>) (sin6_port tgt)) c = Inr c1"
      "rcv_udp6_raw (cluster_net topo pick) None c1 = Inr (l, t, b, c')"
    using assms by (auto simp: write_rmem_def Let_def)
  then show ?thesis using c_send_books rcv_books same_books_trans by (fastforce simp: send_udp_raw_def)
qed

lemma read_rmem_books:
  assumes "read_rmem (cluster_net topo pick) tgt a buf k c = Inr (l, tgt', a', c')"
  shows "same_books (cl_net c) (cl_net c')"
proof -
  obtain c1 t b where "c_send (cluster_net topo pick) (send_udp_raw [] (a\<lparr>cmd := READ_CMD, args := ucast k\<rparr>) (sin6_port tgt)) c = Inr c1"
      "rcv_udp6_raw (cluster_net topo pick) (Some buf) c1 = Inr (l, t, b, c')"
    using assms by (auto simp: read_rmem_def Let_def)
  then show ?thesis using c_send_books rcv_books same_books_trans by (fastforce simp: send_udp_raw_def)
qed

lemmas transfer_books = write_rmem_books read_rmem_books batch_write_books batch_read_books write_batches_books read_batches_books

lemma write_bulk_books:
  assumes "write_bulk_rmem (cluster_net topo pick) tgt as k payload sz c = Inr (r, as', tgt', c')"
  shows "same_books (cl_net c) (cl_net c')"
proof (cases "sz \<le> BLOCK_SIZE")
  case True
  with assms show ?thesis by (auto simp: write_bulk_rmem_def dest: transfer_books)
next
  case False
  with assms consider "c' = c"
    | t1 c1 bs pl t2 where "write_batches (cluster_net topo pick) as payload 0 (sz div BLOCK_SIZE div BATCH_SIZE) tgt c = Inr (t1, c1)"
      "batch_write (cluster_net topo pick) t1 bs pl BLOCK_SIZE c1 = Inr (t2, c')"
    by (auto simp: write_bulk_rmem_def Let_def split: if_splits)
  then show ?thesis
  proof cases
    case 2
    show ?thesis by (rule same_books_trans [OF transfer_books(5) [OF 2(1)] transfer_books(3) [OF 2(2)]])
  qed simp
qed

lemma read_bulk_books:
  assumes "read_bulk_rmem (cluster_net topo pick) tgt as k buf sz c = Inr (r, as', tgt', c')"
  shows "same_books (cl_net c) (cl_net c')"
proof (cases "sz \<le> BLOCK_SIZE")
  case True
  with assms show ?thesis by (auto simp: read_bulk_rmem_def dest: transfer_books)
next
  case False
  with assms consider "c' = c"
    | k c1 bs b where "read_batches (cluster_net topo pick) as buf 0 k tgt c = Inr c1"
      "batch_read (cluster_net topo pick) tgt bs b BLOCK_SIZE c1 = Inr c'"
    by (auto simp: read_bulk_rmem_def Let_def split: if_splits)
  then show ?thesis
  proof cases
    case 2
    show ?thesis by (rule same_books_trans [OF transfer_books(6) [OF 2(1)] transfer_books(4) [OF 2(2)]])
  qed simp
qed

lemma uniform_books:
  "write_uniform_rmem (cluster_net topo pick) tgt b payload sz c = Inr (r, tgt', c') \<Longrightarrow> same_books (cl_net c) (cl_net c')"
  "read_uniform_rmem (cluster_net topo pick) tgt b buf sz c = Inr (r, tgt', c') \<Longrightarrow> same_books (cl_net c) (cl_net c')"
  by (auto simp: write_uniform_rmem_def read_uniform_rmem_def dest: write_bulk_books read_bulk_books)

section \<open>Allocation and free\<close>

text \<open>\<open>on_books n a\<close> is the size of the block that is allocated at an address.\<close>

definition on_books :: "cluster \<Rightarrow> ip6_memaddr \<Rightarrow> nat option" where
  "on_books n a = (case servers n (subid a) of None \<Rightarrow> None | Some h \<Rightarrow> hblocks h (paddr a))"

lemma same_books_on:
  assumes "same_books n n'" "cluster_ok host n'" "host (subid a)"
  shows "on_books n' a = on_books n a"
  using assms cluster_host [OF assms(2,3)] by (fastforce simp: same_books_def on_books_def)

text \<open>The server can grant the block.\<close>

definition grants :: "placement \<Rightarrow> cluster \<Rightarrow> u16 \<Rightarrow> nat \<Rightarrow> bool" where
  "grants pick n s k \<longleftrightarrow> (\<forall>h. servers n s = Some h \<longrightarrow> region_free h (pick h k) k)"

lemma request_blocks_exact:
  assumes "client_idle host c" "sin6_port tgt = t_port topo" "servers (cl_net c) (subid (sin6_addr tgt)) = Some h"
    and "region_free h (pick h k) k" "0 < k" "k < 2 ^ 64"
    and "request_blocks (cluster_net topo pick) tgt (of_nat k) c = Inr (ra, tgt', c')"
  shows "paddr ra = pick h k"
    "servers (cl_net c') = (servers (cl_net c))(subid (sin6_addr tgt) \<mapsto>
       \<lparr>hmem = (\<lambda>x. if in_range (pick h k) k x then Some 0 else hmem h x), hblocks = (hblocks h)(pick h k \<mapsto> k)\<rparr>)"
proof -
  have k: "unat (of_nat k :: u64) = k" "(of_nat k :: u64) \<noteq> 0"
    using assms(5,6) by (auto simp: unat_of_nat take_bit_nat_eq_self word_of_nat_eq_0_iff dest: nat_dvd_not_less)
  have p: "payload_u64 (le_bytes 8 (of_nat k :: u64)) = Inr (of_nat k)" by (simp add: payload_u64_def)
  have run: "process_request pick (t_client topo) ((sin6_addr tgt)\<lparr>cmd := ALLOC_BULK_CMD\<rparr>) (le_bytes 8 (of_nat k :: u64)) sz h =
      reply \<lparr>hmem = (\<lambda>x. if in_range (pick h k) k x then Some 0 else hmem h x), hblocks = (hblocks h)(pick h k \<mapsto> k)\<rparr>
        (set_return_id (t_client topo) ALLOC_BULK_CMD (pick h k)) []" for sz
    using assms(4,5) k by (simp add: process_request_cmd p allocate_mem_bulk_def calloc_def Let_def)
  have i: "inbox (cl_net c) = []" using assms(1) by (simp add: client_idle_def)
  show "paddr ra = pick h k"
    "servers (cl_net c') = (servers (cl_net c))(subid (sin6_addr tgt) \<mapsto>
       \<lparr>hmem = (\<lambda>x. if in_range (pick h k) k x then Some 0 else hmem h x), hblocks = (hblocks h)(pick h k \<mapsto> k)\<rparr>)"
    using assms(2,3,7) i run
    by (auto simp: request_blocks_def set_cmd_def Let_def c_send_def send_udp_raw_def cluster_net_def cluster_send_def
        reply_def set_return_id_def rcv_udp6_raw_def cluster_recv_def answer_def)
qed

lemma free_rmem_ok:
  assumes "client_idle host c" "sin6_port tgt = t_port topo" "host (subid a)" "on_books (cl_net c) a = Some k" "paddr a \<noteq> 0"
  shows "\<exists>tgt' a' c'. free_rmem (cluster_net topo pick) tgt a c = Inr (tgt', a', c') \<and> client_idle host c' \<and> cl_mem c' = cl_mem c \<and>
    sin6_port tgt' = t_port topo \<and>
    cluster_view (cl_net c') = (cluster_view (cl_net c))(subid a := \<lambda>x. if in_range (paddr a) k x then None else cluster_view (cl_net c) (subid a) x) \<and>
    (\<forall>b. subid b \<noteq> subid a \<or> paddr b \<noteq> paddr a \<longrightarrow> on_books (cl_net c') b = on_books (cl_net c) b)"
proof -
  obtain h where h: "servers (cl_net c) (subid a) = Some h" "heap_ok h"
    using assms(1) cluster_host [of host "cl_net c", OF _ assms(3)] by (auto simp: client_idle_def)
  have hb: "hblocks h (paddr a) = Some k" using assms(4) h(1) by (simp add: on_books_def)
  let ?h = "\<lparr>hmem = (\<lambda>x. if in_range (paddr a) k x then None else hmem h x), hblocks = (hblocks h)(paddr a := None)\<rparr>"
  have run: "process_request pick (t_client topo) (a\<lparr>cmd := FREE_CMD\<rparr>) [] sz h =
      reply ?h (set_return_id (t_client topo) FREE_CMD (paddr a)) []" for sz
    using hb assms(5) by (simp add: process_request_cmd free_mem_def cfree_def)
  have ok: "heap_ok ?h"
    using heap_step_ok [OF process_request_step [OF run [unfolded reply_def]] h(2)] .
  let ?c = "c\<lparr>cl_net := (cl_net c)\<lparr>servers := (servers (cl_net c))(subid a \<mapsto> ?h)\<rparr>\<rparr>"
  have i: "inbox (cl_net c) = []" "cluster_ok host (cl_net c)" using assms(1) by (simp_all add: client_idle_def)
  have "\<exists>tgt' a'. free_rmem (cluster_net topo pick) tgt a c = Inr (tgt', a', ?c) \<and> sin6_port tgt' = t_port topo"
    using assms(2) h(1) i(1) run
    by (cases c) (auto simp: free_rmem_def Let_def c_send_def send_udp_raw_def cluster_net_def cluster_send_def
        reply_def set_return_id_def rcv_udp6_raw_def cluster_recv_def answer_def)
  moreover have "client_idle host ?c" using i ok by (auto simp: client_idle_def cluster_ok_def)
  moreover have "cluster_view (cl_net ?c) =
      (cluster_view (cl_net c))(subid a := \<lambda>x. if in_range (paddr a) k x then None else cluster_view (cl_net c) (subid a) x)"
    using h(1) by (auto simp: cluster_view_def fun_eq_iff)
  moreover have "on_books (cl_net ?c) b = on_books (cl_net c) b" if "subid b \<noteq> subid a \<or> paddr b \<noteq> paddr a" for b
    using that h(1) by (auto simp: on_books_def)
  ultimately show ?thesis by fastforce
qed

end
