(* ===== verification/BB_Rpc.thy ===== *)
theory BB_Rpc
  imports BB_Stores BB_Books BB_Malloc BB_Stdio
begin

text \<open>
  Remote procedure calls on arrays, \<^verbatim>\<open>ip6/apps/thrift\<close>: the same service once with the arrays in
  remote memory and pointers to them in the calls (\<^verbatim>\<open>ddc_simple_arr_comp_server.c\<close>, \<^verbatim>\<open>ddc_client.c\<close>), and
  once with the arrays in the calls (\<^verbatim>\<open>tcp_simple_arr_comp_server.c\<close>). The code that Thrift generates and
  its transports are not part of the repository: a call is a parameter of the client. A length is a
  \<^verbatim>\<open>gint32\<close> that is not negative.
\<close>

section \<open>Shared by client and server\<close>

definition get_pointer ::
  "'n netif \<Rightarrow> host_list \<Rightarrow> nat \<Rightarrow> sockaddr_in6 \<Rightarrow> nat \<Rightarrow> 'n client \<Rightarrow>
   (ip6_memaddr_block \<times> sockaddr_in6 \<times> 'n client) res" where
  "get_pointer nif hl rnd tgt sz c =
     bindE (gen_rdm_ip6_target hl rnd) (\<lambda>ip.
       let num_ptrs = c_int (if sz = 0 then 1 else (sz + BLOCK_SIZE - 1) div BLOCK_SIZE)
       in allocate_uniform_rmem nif (tgt\<lparr>sin6_addr := ip\<rparr>) (of_int num_ptrs) c)"

definition marshall_shmem_ptr :: "bytes \<Rightarrow> ip6_memaddr \<Rightarrow> bytes" where
  "marshall_shmem_ptr ptr addr =
     ptr @ le_bytes 2 (subid addr) @ le_bytes 2 (cmd addr) @ le_bytes 4 (args addr) @ le_bytes 8 (paddr addr)"

definition unmarshall_shmem_ptr :: "bytes \<Rightarrow> ip6_memaddr res" where
  "unmarshall_shmem_ptr ptr = (if length ptr < 16 then Inl Segv else Inr (bytes_memaddr (take 16 ptr)))"

text \<open>\<open>rnd i\<close> is the value of the \<open>i\<close>-th call of \<^verbatim>\<open>rand()\<close>.\<close>

fun populate_array :: "(nat \<Rightarrow> nat) \<Rightarrow> bool \<Rightarrow> u8 \<Rightarrow> nat \<Rightarrow> bytes" where
  "populate_array rnd random num 0 = []"
| "populate_array rnd random num (Suc n) =
     num # populate_array (\<lambda>i. rnd (Suc i)) random
       (if \<not> random then (num + 1) mod 255 else of_nat (rnd 0) mod 255) n"

definition num_blocks :: "nat \<Rightarrow> u64" where
  "num_blocks len = (if len = 0 then 1 else of_nat (1 + (len - 1) div BLOCK_SIZE))"

text \<open>The buffer of an array, filled from remote memory. The offset of the block is not initialised.\<close>

definition fetch_array ::
  "'n netif \<Rightarrow> u64 \<Rightarrow> sockaddr_in6 \<Rightarrow> bytes \<Rightarrow> u64 \<Rightarrow> nat \<Rightarrow> 'n client \<Rightarrow> (sockaddr_in6 \<times> 'n client) res" where
  "fetch_array nif offset0 tgt ptr buf len c =
     bindE (unmarshall_shmem_ptr ptr) (\<lambda>a.
     bindE (read_uniform_rmem nif tgt \<lparr>memaddr = a, blk_length = num_blocks len, blk_offset = offset0\<rparr> buf len c) (\<lambda>(_, tgt', c').
       Inr (tgt', c')))"

section \<open>Handlers on pointers\<close>

definition increment_array ::
  "'n netif \<Rightarrow> host_list \<Rightarrow> nat \<Rightarrow> mallocator \<Rightarrow> u64 \<Rightarrow> bytes \<Rightarrow> u8 \<Rightarrow> nat \<Rightarrow> sockaddr_in6 \<Rightarrow> 'n client \<Rightarrow>
   (bytes \<times> sockaddr_in6 \<times> 'n client) res" where
  "increment_array nif hl rnd mal offset0 pointer value len target_ip c =
     bindE (get_pointer nif hl rnd target_ip len c) (\<lambda>(result_addr, tgt1, c1).
     case chunk_malloc mal (cl_mem c1) len of (int_arr, m1) \<Rightarrow>
     bindE (fetch_array nif offset0 tgt1 pointer int_arr len (c1\<lparr>cl_mem := m1\<rparr>)) (\<lambda>(tgt2, c2).
     bindE (guardE Segv (load (cl_mem c2) int_arr len)) (\<lambda>xs.
     let ys = map (\<lambda>x. x + value) xs in
     bindE (guardE Segv (store (cl_mem c2) int_arr ys)) (\<lambda>m3.
     bindE (write_uniform_rmem nif tgt2 result_addr ys len (c2\<lparr>cl_mem := m3\<rparr>)) (\<lambda>(_, tgt3, c3).
       Inr (marshall_shmem_ptr [] (memaddr result_addr) @ memaddr_bytes (memaddr result_addr), tgt3,
            c3\<lparr>cl_mem := chunk_free int_arr len (cl_mem c3)\<rparr>))))))"

definition add_arrays ::
  "'n netif \<Rightarrow> host_list \<Rightarrow> nat \<Rightarrow> mallocator \<Rightarrow> u64 \<Rightarrow> u64 \<Rightarrow> bytes \<Rightarrow> bytes \<Rightarrow> nat \<Rightarrow> sockaddr_in6 \<Rightarrow> 'n client \<Rightarrow>
   (bytes \<times> sockaddr_in6 \<times> 'n client) res" where
  "add_arrays nif hl rnd mal offset1 offset2 array1 array2 len target_ip c =
     bindE (get_pointer nif hl rnd target_ip len c) (\<lambda>(result_addr, tgt1, c1).
     case chunk_malloc mal (cl_mem c1) len of (arr1, m1) \<Rightarrow>
     case chunk_malloc mal m1 len of (arr2, m2) \<Rightarrow>
     bindE (fetch_array nif offset1 tgt1 array1 arr1 len (c1\<lparr>cl_mem := m2\<rparr>)) (\<lambda>(tgt2, c2).
     bindE (fetch_array nif offset2 tgt2 array2 arr2 len c2) (\<lambda>(tgt3, c3).
     case chunk_malloc mal (cl_mem c3) len of (result_array, m3) \<Rightarrow>
     bindE (guardE Segv (load m3 arr1 len)) (\<lambda>xs.
     bindE (guardE Segv (load m3 arr2 len)) (\<lambda>ys.
     let zs = map2 (+) xs ys in
     bindE (guardE Segv (store m3 result_array zs)) (\<lambda>m4.
     bindE (write_uniform_rmem nif tgt3 result_addr zs len (c3\<lparr>cl_mem := m4\<rparr>)) (\<lambda>(_, tgt4, c4).
       Inr (marshall_shmem_ptr [] (memaddr result_addr), tgt4,
            c4\<lparr>cl_mem := chunk_free arr2 len (chunk_free arr1 len (chunk_free result_array len (cl_mem c4)))\<rparr>))))))))"

text \<open>Here the length of the block is not initialised either: the line that should set it has no effect.\<close>

definition no_op ::
  "'n netif \<Rightarrow> host_list \<Rightarrow> nat \<Rightarrow> mallocator \<Rightarrow> u64 \<Rightarrow> u64 \<Rightarrow> bytes \<Rightarrow> nat \<Rightarrow> sockaddr_in6 \<Rightarrow> 'n client \<Rightarrow>
   (bytes \<times> sockaddr_in6 \<times> 'n client) res" where
  "no_op nif hl rnd mal length0 offset0 num_array len target_ip c =
     bindE (get_pointer nif hl rnd target_ip len c) (\<lambda>(result_addr, tgt1, c1).
     let ret = marshall_shmem_ptr [] (memaddr result_addr); result_addr1 = result_addr\<lparr>blk_length := of_nat len\<rparr> in
     case chunk_malloc mal (cl_mem c1) len of (int_arr, m1) \<Rightarrow>
     bindE (unmarshall_shmem_ptr num_array) (\<lambda>a.
     bindE (read_uniform_rmem nif tgt1 \<lparr>memaddr = a, blk_length = length0, blk_offset = offset0\<rparr> int_arr len
         (c1\<lparr>cl_mem := m1\<rparr>)) (\<lambda>(_, tgt2, c2).
     bindE (guardE Segv (load (cl_mem c2) int_arr len)) (\<lambda>xs.
     bindE (write_uniform_rmem nif tgt2 result_addr1 xs len c2) (\<lambda>(_, tgt3, c3).
       Inr (ret, tgt3, c3\<lparr>cl_mem := chunk_free int_arr len (cl_mem c3)\<rparr>))))))"

section \<open>Handlers on values\<close>

text \<open>\<^verbatim>\<open>g_array_index\<close> checks no bounds: an index past the end is an access past the buffer.\<close>

definition garray_index :: "'a list \<Rightarrow> nat \<Rightarrow> 'a res" where
  "garray_index xs i = (if i < length xs then Inr (xs ! i) else Inl Segv)"

fun tcp_increment_loop :: "bytes \<Rightarrow> u8 \<Rightarrow> nat list \<Rightarrow> bytes \<Rightarrow> bytes res" where
  "tcp_increment_loop arr value [] ret = Inr ret"
| "tcp_increment_loop arr value (i # is) ret =
     bindE (garray_index arr i) (\<lambda>x. tcp_increment_loop arr value is (ret @ [x + value]))"

definition tcp_increment_array :: "bytes \<Rightarrow> u8 \<Rightarrow> nat \<Rightarrow> bytes res" where
  "tcp_increment_array arr value len = tcp_increment_loop arr value [0..<len] []"

fun tcp_add_loop :: "bytes \<Rightarrow> bytes \<Rightarrow> nat list \<Rightarrow> bytes \<Rightarrow> bytes res" where
  "tcp_add_loop array1 array2 [] ret = Inr ret"
| "tcp_add_loop array1 array2 (i # is) ret =
     bindE (garray_index array1 i) (\<lambda>x.
     bindE (garray_index array2 i) (\<lambda>y. tcp_add_loop array1 array2 is (ret @ [x + y])))"

definition tcp_add_arrays :: "bytes \<Rightarrow> bytes \<Rightarrow> nat \<Rightarrow> bytes res" where
  "tcp_add_arrays array1 array2 len = tcp_add_loop array1 array2 [0..<len] []"

text \<open>The helper adds where a product of matrices multiplies.\<close>

fun dot_prod_helper :: "bytes \<Rightarrow> bytes \<Rightarrow> nat list \<Rightarrow> u8 \<Rightarrow> u8 res" where
  "dot_prod_helper x y [] r = Inr r"
| "dot_prod_helper x y (i # is) r =
     bindE (garray_index x i) (\<lambda>a.
     bindE (garray_index y i) (\<lambda>b. dot_prod_helper x y is (r + (a + b))))"

fun tcp_rows :: "bytes list \<Rightarrow> bytes \<Rightarrow> nat \<Rightarrow> nat list \<Rightarrow> bytes \<Rightarrow> bytes res" where
  "tcp_rows matrix array m [] ret = Inr ret"
| "tcp_rows matrix array m (i # is) ret =
     bindE (garray_index matrix i) (\<lambda>row.
     bindE (dot_prod_helper row array [0..<m] 0) (\<lambda>v. tcp_rows matrix array m is (ret @ [v])))"

text \<open>No answer when the dimensions do not match.\<close>

definition tcp_mat_multiply :: "bytes \<Rightarrow> bytes list \<Rightarrow> nat \<Rightarrow> nat \<times> nat \<Rightarrow> bytes option res" where
  "tcp_mat_multiply array matrix len = (\<lambda>(n, m).
     if len \<noteq> m then Inr None
     else bindE (tcp_rows matrix array m [0..<n] []) (\<lambda>r. Inr (Some r)))"

fun tcp_word_loop :: "bytes \<Rightarrow> nat list \<Rightarrow> nat \<Rightarrow> u8 \<Rightarrow> nat res" where
  "tcp_word_loop story [] wordcount prev = Inr wordcount"
| "tcp_word_loop story (i # is) wordcount prev =
     bindE (garray_index story i) (\<lambda>x.
       tcp_word_loop story is (if isspace (byte_char x) \<and> isgraph (byte_char prev) then wordcount + 1 else wordcount) x)"

definition tcp_word_count :: "bytes \<Rightarrow> nat \<Rightarrow> nat res" where
  "tcp_word_count story len = tcp_word_loop story [0..<len] 0 32"

definition tcp_no_op :: "bytes \<Rightarrow> nat \<Rightarrow> bytes res" where
  "tcp_no_op num_array len = (if length num_array < len then Inl Segv else Inr (take len num_array))"

section \<open>The client\<close>

text \<open>
  \<open>rpc\<close> is the call of the generated stub: from the pointer, the value and the length, and the network of
  memory servers, it gives the answer and the network as the server process leaves it.
\<close>

type_synonym 'n increment_call = "bytes \<Rightarrow> u8 \<Rightarrow> nat \<Rightarrow> 'n \<Rightarrow> (bytes \<times> 'n) res"

text \<open>
  The test up to the comparison: the result is the list of the indices that are reported as failed,
  with the two buffers and the two blocks that are still to be freed.
\<close>

definition increment_exchange ::
  "'n netif \<Rightarrow> host_list \<Rightarrow> nat \<Rightarrow> mallocator \<Rightarrow> u64 \<Rightarrow> 'n increment_call \<Rightarrow> nat \<Rightarrow> sockaddr_in6 \<Rightarrow> 'n client \<Rightarrow>
   (nat list \<times> u64 \<times> u64 \<times> ip6_memaddr \<times> ip6_memaddr \<times> sockaddr_in6 \<times> 'n client) res" where
  "increment_exchange nif hl rnd mal offset0 rpc arr_len target_ip c =
     (let incr_val = 1 in
      bindE (get_pointer nif hl rnd target_ip arr_len c) (\<lambda>(args_addr, tgt1, c1).
      case chunk_malloc mal (cl_mem c1) arr_len of (arr, m1) \<Rightarrow>
      bindE (guardE Segv (store m1 arr (populate_array (\<lambda>_. 0) False 0 arr_len))) (\<lambda>m2.
      bindE (guardE Segv (load m2 arr arr_len)) (\<lambda>xs.
      bindE (write_uniform_rmem nif tgt1 args_addr xs arr_len (c1\<lparr>cl_mem := m2\<rparr>)) (\<lambda>(_, tgt2, c2).
      bindE (rpc (marshall_shmem_ptr [] (memaddr args_addr)) incr_val arr_len (cl_net c2)) (\<lambda>(result_ptr, n).
      bindE (unmarshall_shmem_ptr result_ptr) (\<lambda>result_addr.
      case chunk_malloc mal (cl_mem c2) arr_len of (result_arr, m3) \<Rightarrow>
      bindE (read_uniform_rmem nif tgt2 \<lparr>memaddr = result_addr, blk_length = num_blocks arr_len, blk_offset = offset0\<rparr>
          result_arr arr_len (c2\<lparr>cl_net := n, cl_mem := m3\<rparr>)) (\<lambda>(_, tgt3, c3).
      bindE (guardE Segv (load (cl_mem c3) arr arr_len)) (\<lambda>xs.
      bindE (guardE Segv (load (cl_mem c3) result_arr arr_len)) (\<lambda>ys.
        Inr (filter (\<lambda>i. unat (ys ! i) \<noteq> unat (xs ! i) + unat incr_val) [0..<arr_len],
             arr, result_arr, memaddr args_addr, result_addr, tgt3, c3)))))))))))"

definition test_increment_array ::
  "'n netif \<Rightarrow> host_list \<Rightarrow> nat \<Rightarrow> mallocator \<Rightarrow> u64 \<Rightarrow> 'n increment_call \<Rightarrow> nat \<Rightarrow> sockaddr_in6 \<Rightarrow> 'n client \<Rightarrow>
   (nat list \<times> sockaddr_in6 \<times> 'n client) res" where
  "test_increment_array nif hl rnd mal offset0 rpc arr_len target_ip c =
     bindE (increment_exchange nif hl rnd mal offset0 rpc arr_len target_ip c)
       (\<lambda>(failed, arr, result_arr, args_addr, result_addr, tgt, c1).
     let c2 = c1\<lparr>cl_mem := chunk_free result_arr arr_len (chunk_free arr arr_len (cl_mem c1))\<rparr> in
     bindE (free_rmem nif tgt args_addr c2) (\<lambda>(tgt1, _, c3).
     bindE (free_rmem nif tgt1 result_addr c3) (\<lambda>(tgt2, _, c4). Inr (failed, tgt2, c4))))"

section \<open>What the properties speak of\<close>

text \<open>An array in remote memory, and a process that serves calls with its own library state.\<close>

definition remote_array :: "rview \<Rightarrow> ip6_memaddr \<Rightarrow> bytes \<Rightarrow> bool" where
  "remote_array v a xs \<longleftrightarrow> load (v (subid a)) (paddr a) (length xs) = Some xs"

record rpc_server =
  rs_hosts :: host_list
  rs_rand :: nat
  rs_malloc :: mallocator
  rs_offset :: u64
  rs_target :: sockaddr_in6
  rs_mem :: mem
  rs_sub_ids :: "u16 \<Rightarrow> u32"

definition rs_client :: "rpc_server \<Rightarrow> 'n \<Rightarrow> 'n client" where
  "rs_client p n = \<lparr>cl_mem = rs_mem p, cl_net = n, cl_sub_ids = rs_sub_ids p\<rparr>"

definition serve_increment :: "'n netif \<Rightarrow> rpc_server \<Rightarrow> 'n increment_call" where
  "serve_increment nif p ptr value len n =
     bindE (increment_array nif (rs_hosts p) (rs_rand p) (rs_malloc p) (rs_offset p) ptr value len (rs_target p) (rs_client p n))
       (\<lambda>(ret, tgt, c). Inr (ret, cl_net c))"

text \<open>Every host a call can choose is alive and has an entry in the table of subnets.\<close>

definition hosts_live :: "(u16 \<Rightarrow> bool) \<Rightarrow> host_list \<Rightarrow> bool" where
  "hosts_live host hl \<longleftrightarrow>
     0 < nhosts hl \<and> nhosts hl \<le> 256 \<and> nhosts hl \<le> int (length (hostList hl)) \<and> (\<forall>a\<in>set (hostList hl). host (subid a) \<and> in_table a)"

section \<open>Lemmas\<close>

lemma marshall_bytes: "marshall_shmem_ptr ptr a = ptr @ memaddr_bytes a"
  by (simp add: marshall_shmem_ptr_def memaddr_bytes_def)

lemma unmarshall_marshall [simp]: "unmarshall_shmem_ptr (memaddr_bytes a @ rest) = Inr a"
  by (simp add: unmarshall_shmem_ptr_def)

lemma block_addr_sub [simp]: "subid (block_addr a i) = subid a" "paddr (block_addr a i) = paddr a + of_nat i"
  by (simp_all add: block_addr_def BLOCK_SIZE_def)

lemma chunks_Suc: "chunks payload (Suc n) = chunks payload n @ [slice payload (BLOCK_SIZE * n) BLOCK_SIZE]"
  by (simp add: chunks_def)

lemma put_contiguous:
  "n \<le> length payload \<Longrightarrow> n \<le> 2 ^ 64 \<Longrightarrow>
   put_chunks v (zip (map (block_addr a) [0..<n]) (chunks payload n)) = put_chunk v (a, take n payload)"
proof (induction n)
  case 0
  then show ?case by (simp add: put_chunks_def)
next
  case (Suc n)
  have s: "slice payload n 1 = [payload ! n]" using Suc.prems by (simp add: slice_def take_Suc hd_drop_conv_nth)
  have "put_chunks v (zip (map (block_addr a) [0..<Suc n]) (chunks payload (Suc n))) =
      put_chunk (put_chunk v (a, take n payload)) (block_addr a n, [payload ! n])"
    using Suc s by (simp add: chunks_Suc put_chunks_def BLOCK_SIZE_def)
  also have "\<dots> = put_chunk v (a, take n payload @ [payload ! n])"
    using Suc.prems overwrite_append [of "take n payload" "[payload ! n]" "v (subid a)" "paddr a"]
    by (simp add: put_chunk_def)
  finally show ?case using Suc.prems by (simp add: take_Suc_conv_app_nth)
qed

lemma rload_contiguous:
  assumes "rmapped v a n"
  shows "concat (map (rload v BLOCK_SIZE) (map (block_addr a) [0..<n])) = rload v n a"
proof -
  have "rload v BLOCK_SIZE (block_addr a i) = [the (v (subid a) (paddr a + of_nat i))]" if "i < n" for i
    using assms that by (auto simp: rload_def BLOCK_SIZE_def rmapped_def mapped_def split: option.splits)
  then have "concat (map (rload v BLOCK_SIZE) (map (block_addr a) [0..<n])) = map (\<lambda>i. the (v (subid a) (paddr a + of_nat i))) [0..<n]"
    by (induction n) (auto simp: less_Suc_eq)
  then show ?thesis using assms by (simp add: rload_def rmapped_def load_mapped)
qed

lemma rmapped_block: "rmapped v a n \<Longrightarrow> i < n \<Longrightarrow> rmapped v (block_addr a i) BLOCK_SIZE"
  by (simp add: rmapped_def mapped_def BLOCK_SIZE_def)

text \<open>A uniform block that starts at its first unit is an array of bytes.\<close>

lemma uniform_write_ok:
  assumes "cm.ready host c" "sin6_port tgt = t_port topo" "host (subid a)" "in_table a" "rmapped (cluster_view (cl_net c)) a n"
    and "length payload = n" "0 < n" "n < 2 ^ 31"
  shows "\<exists>tgt' c'. write_uniform_rmem (cluster_net topo pick) tgt \<lparr>memaddr = a, blk_length = of_nat n, blk_offset = 0\<rparr> payload n c =
      Inr (0, tgt', c') \<and> sin6_port tgt' = t_port topo \<and> cm.ready host c' \<and> cl_mem c' = cl_mem c \<and>
    cluster_view (cl_net c') = put_chunk (cluster_view (cl_net c)) (a, payload)"
proof -
  let ?as = "map (block_addr a) [0..<n]"
  have ex: "expand_block \<lparr>memaddr = a, blk_length = of_nat n, blk_offset = 0\<rparr> = ?as" "unat (of_nat n :: u64) = n"
    using assms(8) by (simp_all add: expand_block_def unat_of_nat take_bit_nat_eq_self)
  have ok: "cm.addrs_ok host (cluster_view (cl_net c)) ?as"
    using assms(3-5) rmapped_block by (auto simp: cm.addrs_ok_def in_table_def)
  have n: "n div BLOCK_SIZE = n" by (simp add: BLOCK_SIZE_def)
  obtain as' tgt' c' where w: "write_bulk_rmem (cluster_net topo pick) tgt ?as (length ?as) payload n c = Inr (0, as', tgt', c')"
    "sin6_port tgt' = t_port topo" "cm.ready host c'" "cl_mem c' = cl_mem c"
    "cluster_view (cl_net c') = put_chunks (cluster_view (cl_net c)) (zip (take n ?as) (chunks payload n))"
    using cm.write_bulk_ok [OF assms(1,2) ok, of n payload pick] assms(6,7) unfolding n by auto
  have "cluster_view (cl_net c') = put_chunk (cluster_view (cl_net c)) (a, payload)"
    using w(5) put_contiguous [of n payload "cluster_view (cl_net c)" a] assms(6,8) by simp
  with w ex show ?thesis by (simp add: write_uniform_rmem_def)
qed

lemma uniform_read_ok:
  assumes "cm.ready host c" "sin6_port tgt = t_port topo" "host (subid a)" "in_table a" "remote_array (cluster_view (cl_net c)) a xs"
    and "length xs = n" "0 < n" "n < 2 ^ 31" "mapped (cl_mem c) buf n"
  shows "\<exists>tgt' c'. read_uniform_rmem (cluster_net topo pick) tgt \<lparr>memaddr = a, blk_length = of_nat n, blk_offset = 0\<rparr> buf n c =
      Inr (0, tgt', c') \<and> sin6_port tgt' = t_port topo \<and> cm.ready host c' \<and> cl_mem c' = overwrite (cl_mem c) buf xs \<and>
    cluster_view (cl_net c') = cluster_view (cl_net c)"
proof -
  let ?as = "map (block_addr a) [0..<n]" let ?v = "cluster_view (cl_net c)"
  have rm: "rmapped ?v a n" "rload ?v n a = xs"
    using assms(5,6) by (auto simp: remote_array_def rmapped_def rload_def load_eq_Some load_mapped)
  have ex: "expand_block \<lparr>memaddr = a, blk_length = of_nat n, blk_offset = 0\<rparr> = ?as" "unat (of_nat n :: u64) = n"
    using assms(8) by (simp_all add: expand_block_def unat_of_nat take_bit_nat_eq_self)
  have ok: "cm.addrs_ok host ?v ?as"
    using assms(3,4) rm rmapped_block by (auto simp: cm.addrs_ok_def in_table_def)
  have n: "n div BLOCK_SIZE = n" by (simp add: BLOCK_SIZE_def)
  obtain as' tgt' c' where w: "read_bulk_rmem (cluster_net topo pick) tgt ?as (length ?as) buf n c = Inr (0, as', tgt', c')"
    "sin6_port tgt' = t_port topo" "cm.ready host c'" "cluster_view (cl_net c') = ?v"
    "cl_mem c' = overwrite (cl_mem c) buf (concat (map (rload ?v BLOCK_SIZE) (take n ?as)))"
    using cm.read_bulk_ok [OF assms(1,2) ok, of n buf pick] assms(7-9) unfolding n by auto
  with ex rload_contiguous [OF rm(1)] rm(2) show ?thesis by (simp add: read_uniform_rmem_def)
qed

text \<open>A block that is granted was free, and is on the books of its server, where nothing else changes.\<close>

definition fresh_block :: "rview \<Rightarrow> ip6_memaddr \<Rightarrow> nat \<Rightarrow> bool" where
  "fresh_block v a k \<longleftrightarrow> paddr a \<noteq> 0 \<and> (\<forall>x. in_range (paddr a) k x \<longrightarrow> v (subid a) x = None)"

definition books_add :: "(u16 \<Rightarrow> bool) \<Rightarrow> cluster \<Rightarrow> ip6_memaddr \<Rightarrow> nat \<Rightarrow> cluster \<Rightarrow> bool" where
  "books_add host n a k n' \<longleftrightarrow> on_books n' a = Some k \<and>
     (\<forall>b. host (subid b) \<longrightarrow> subid b \<noteq> subid a \<or> paddr b \<noteq> paddr a \<longrightarrow> on_books n' b = on_books n b)"

lemma books_add_same:
  assumes "books_add host n a k n1" "same_books n1 n2" "cluster_ok host n2" "host (subid a)"
  shows "books_add host n a k n2"
  using assms same_books_on [OF assms(2,3)] by (auto simp: books_add_def)

lemma get_pointer_ok:
  assumes "cm.ready host c" "sin6_port tgt = t_port topo" "hosts_live host hl" "0 < n" "n < 2 ^ 31"
    and "\<forall>s. host s \<longrightarrow> grants pick (cl_net c) s n"
  shows "\<exists>ra h tgt' c'. get_pointer (cluster_net topo pick) hl rnd tgt n c =
      Inr (\<lparr>memaddr = ra, blk_length = of_nat n, blk_offset = 0\<rparr>, tgt', c') \<and> host (subid ra) \<and> in_table ra \<and>
    sin6_port tgt' = t_port topo \<and> cm.ready host c' \<and> cl_mem c' = cl_mem c \<and>
    fresh_block (cluster_view (cl_net c)) ra n \<and> books_add host (cl_net c) ra n (cl_net c') \<and>
    servers (cl_net c) (subid ra) = Some h \<and> paddr ra = pick h n \<and>
    cluster_view (cl_net c') = put_chunk (cluster_view (cl_net c)) (ra, replicate n 0)"
proof -
  let ?i = "int rnd mod nhosts hl"
  have i: "0 \<le> ?i" "?i < nhosts hl" using assms(3) by (simp_all add: hosts_live_def)
  then have u: "unat (of_int ?i :: u8) = nat ?i"
    using assms(3) by (simp add: hosts_live_def unat_eq_nat_uint uint_word_of_int_eq take_bit_int_eq_self)
  let ?ip = "hostList hl ! nat ?i" let ?t = "tgt\<lparr>sin6_addr := ?ip\<rparr>"
  have "?i < int (length (hostList hl))" using i(2) assms(3) unfolding hosts_live_def by linarith
  then have len: "nat ?i < length (hostList hl)" using i(1) by (simp add: nat_less_iff)
  have ip: "gen_rdm_ip6_target hl rnd = Inr ?ip" "host (subid ?ip)" "in_table ?ip"
    using len u assms(3) by (simp_all add: gen_rdm_ip6_target_def get_ip6_target_def hosts_live_def)
  have np: "of_int (c_int (if n = 0 then 1 else (n + BLOCK_SIZE - 1) div BLOCK_SIZE)) = (of_nat n :: u64)"
    using assms(4,5) by (simp add: c_int_def BLOCK_SIZE_def signed_of_nat signed_take_bit_int_eq_self)
  obtain ra tgt' c' where r: "request_blocks (cluster_net topo pick) ?t (of_nat n) c = Inr (ra, tgt', c')"
      "subid ra = subid ?ip" "sin6_port tgt' = t_port topo" "cm.ready host c'" "cl_mem c' = cl_mem c"
    using cm.request_blocks_ok [OF assms(1), of ?t topo pick "of_nat n"] assms(2) ip(2) by auto
  have idle: "client_idle host c" "cluster_ok host (cl_net c)" using assms(1) by (simp_all add: client_idle_ready cm.ready_def)
  obtain h where h: "servers (cl_net c) (subid ?ip) = Some h" using cluster_host [OF idle(2) ip(2)] by blast
  have free: "region_free h (pick h n) n" using assms(6) ip(2) h by (simp add: grants_def)
  have ex: "paddr ra = pick h n" "servers (cl_net c') = (servers (cl_net c))(subid ?ip \<mapsto>
       \<lparr>hmem = (\<lambda>x. if in_range (pick h n) n x then Some 0 else hmem h x), hblocks = (hblocks h)(pick h n \<mapsto> n)\<rparr>)"
    using request_blocks_exact [OF idle(1), of ?t topo h pick n ra tgt' c'] assms(2,4,5) h free r(1) by simp_all
  have "fresh_block (cluster_view (cl_net c)) ra n"
    using free h r(2) ex(1) by (auto simp: fresh_block_def region_free_def cluster_view_def in_range_iff)
  moreover have "books_add host (cl_net c) ra n (cl_net c')"
    using ex r(2) h by (auto simp: books_add_def on_books_def)
  moreover have "cluster_view (cl_net c') = put_chunk (cluster_view (cl_net c)) (ra, replicate n 0)"
    using ex r(2) h by (auto simp: cluster_view_def put_chunk_def overwrite_def fun_eq_iff in_range_def)
  ultimately show ?thesis
    using ip r h ex(1) by (simp add: get_pointer_def np allocate_uniform_rmem_def in_table_def)
qed

text \<open>Arrays of the view before are still there after a fresh block was filled.\<close>

lemma remote_array_put:
  assumes "length xs < 2 ^ 31" "fresh_block v a (length xs)"
  shows "remote_array (put_chunk v (a, xs)) a xs" "remote_array v b ys \<Longrightarrow> remote_array (put_chunk v (a, xs)) b ys"
proof -
  have "mapped (overwrite (v (subid a)) (paddr a) xs) (paddr a) (length xs)"
    using assms(1) by (auto simp: mapped_def overwrite_def)
  from load_overwrite_same [OF this] assms(1) show "remote_array (put_chunk v (a, xs)) a xs"
    by (simp add: remote_array_def put_chunk_def overwrite_twice)
  assume r: "remote_array v b ys"
  have "load (put_chunk v (a, xs) (subid b)) (paddr b) (length ys) = load (v (subid b)) (paddr b) (length ys)"
    using r assms(2) by (intro load_cong) (auto simp: remote_array_def load_eq_Some mapped_def put_chunk_def overwrite_def fresh_block_def)
  with r show "remote_array (put_chunk v (a, xs)) b ys" by (simp add: remote_array_def)
qed

lemma put_chunk_twice: "length xs = length ys \<Longrightarrow> put_chunk (put_chunk v (a, ys)) (a, xs) = put_chunk v (a, xs)"
  by (simp add: put_chunk_def overwrite_twice)

lemma num_blocks_nat: "0 < n \<Longrightarrow> num_blocks n = of_nat n"
  by (simp add: num_blocks_def BLOCK_SIZE_def flip: of_nat_Suc)

lemma write_result_ok:
  assumes "cm.ready host c" "sin6_port tgt = t_port topo" "host (subid ra)" "in_table ra"
    and "cluster_view (cl_net c) = put_chunk v (ra, replicate n 0)" "length ys = n" "0 < n" "n < 2 ^ 31"
  shows "\<exists>tgt' c'. write_uniform_rmem (cluster_net topo pick) tgt \<lparr>memaddr = ra, blk_length = of_nat n, blk_offset = 0\<rparr> ys n c =
      Inr (0, tgt', c') \<and> sin6_port tgt' = t_port topo \<and> cm.ready host c' \<and> cl_mem c' = cl_mem c \<and>
    cluster_view (cl_net c') = put_chunk v (ra, ys) \<and> same_books (cl_net c) (cl_net c')"
proof -
  have "rmapped (cluster_view (cl_net c)) ra n"
    using assms(5,8) by (auto simp: rmapped_def mapped_def put_chunk_def overwrite_def)
  from uniform_write_ok [OF assms(1-4) this assms(6-8), of pick] obtain tgt' c' where
    "write_uniform_rmem (cluster_net topo pick) tgt \<lparr>memaddr = ra, blk_length = of_nat n, blk_offset = 0\<rparr> ys n c = Inr (0, tgt', c')"
    "sin6_port tgt' = t_port topo" "cm.ready host c'" "cl_mem c' = cl_mem c"
    "cluster_view (cl_net c') = put_chunk (cluster_view (cl_net c)) (ra, ys)"
    by blast
  then show ?thesis using uniform_books(1) assms(5,6) put_chunk_twice [of ys "replicate n 0" v ra] by fastforce
qed

lemma read_result_ok:
  assumes "cm.ready host c" "sin6_port tgt = t_port topo" "host (subid a)" "in_table a" "remote_array (cluster_view (cl_net c)) a xs"
    and "length xs = n" "0 < n" "n < 2 ^ 31" "mapped (cl_mem c) buf n"
  shows "\<exists>tgt' c'. read_uniform_rmem (cluster_net topo pick) tgt \<lparr>memaddr = a, blk_length = num_blocks n, blk_offset = 0\<rparr> buf n c =
      Inr (0, tgt', c') \<and> sin6_port tgt' = t_port topo \<and> cm.ready host c' \<and> cl_mem c' = overwrite (cl_mem c) buf xs \<and>
    cluster_view (cl_net c') = cluster_view (cl_net c) \<and> same_books (cl_net c) (cl_net c')"
  using uniform_read_ok [OF assms, of pick] uniform_books(2) assms(7) num_blocks_nat by fastforce

section \<open>The handlers\<close>

lemma ready_net: "cm.ready host c = (cluster_ok host (cl_net c) \<and> inbox (cl_net c) = [])"
  by (simp add: cm.ready_def)

text \<open>A block of memory with an array in it.\<close>

lemma place_array_ok:
  assumes "cm.ready host c" "sin6_port tgt = t_port topo" "hosts_live host hl" "0 < n" "n < 2 ^ 31" "length xs = n"
    and "\<forall>s. host s \<longrightarrow> grants pick (cl_net c) s n"
  shows "\<exists>a h t1 c1. get_pointer (cluster_net topo pick) hl rnd tgt n c = Inr (\<lparr>memaddr = a, blk_length = of_nat n, blk_offset = 0\<rparr>, t1, c1) \<and>
    host (subid a) \<and> in_table a \<and> cl_mem c1 = cl_mem c \<and> fresh_block (cluster_view (cl_net c)) a n \<and>
    servers (cl_net c) (subid a) = Some h \<and> paddr a = pick h n \<and>
    (\<forall>m. \<exists>t2 c2. write_uniform_rmem (cluster_net topo pick) t1 \<lparr>memaddr = a, blk_length = of_nat n, blk_offset = 0\<rparr> xs n (c1\<lparr>cl_mem := m\<rparr>) =
        Inr (0, t2, c2) \<and> sin6_port t2 = t_port topo \<and> cm.ready host c2 \<and> cl_mem c2 = m \<and>
      cluster_view (cl_net c2) = put_chunk (cluster_view (cl_net c)) (a, xs) \<and> books_add host (cl_net c) a n (cl_net c2))"
proof -
  let ?net = "cluster_net topo pick" let ?v = "cluster_view (cl_net c)"
  obtain a h t1 c1 where a: "get_pointer ?net hl rnd tgt n c = Inr (\<lparr>memaddr = a, blk_length = of_nat n, blk_offset = 0\<rparr>, t1, c1)"
      "host (subid a)" "in_table a" "sin6_port t1 = t_port topo" "cm.ready host c1" "cl_mem c1 = cl_mem c" "fresh_block ?v a n"
      "books_add host (cl_net c) a n (cl_net c1)" "servers (cl_net c) (subid a) = Some h" "paddr a = pick h n"
      "cluster_view (cl_net c1) = put_chunk ?v (a, replicate n 0)"
    using get_pointer_ok [OF assms(1-5,7), of rnd] by blast
  have "\<exists>t2 c2. write_uniform_rmem ?net t1 \<lparr>memaddr = a, blk_length = of_nat n, blk_offset = 0\<rparr> xs n (c1\<lparr>cl_mem := m\<rparr>) = Inr (0, t2, c2) \<and>
      sin6_port t2 = t_port topo \<and> cm.ready host c2 \<and> cl_mem c2 = m \<and> cluster_view (cl_net c2) = put_chunk ?v (a, xs) \<and>
      books_add host (cl_net c) a n (cl_net c2)" for m
  proof -
    have c1: "cm.ready host (c1\<lparr>cl_mem := m\<rparr>)" "cluster_view (cl_net (c1\<lparr>cl_mem := m\<rparr>)) = put_chunk ?v (a, replicate n 0)"
      using a(5,11) by (simp_all add: ready_net)
    obtain t2 c2 where w: "write_uniform_rmem ?net t1 \<lparr>memaddr = a, blk_length = of_nat n, blk_offset = 0\<rparr> xs n (c1\<lparr>cl_mem := m\<rparr>) =
        Inr (0, t2, c2)" "sin6_port t2 = t_port topo" "cm.ready host c2" "cl_mem c2 = m"
        "cluster_view (cl_net c2) = put_chunk ?v (a, xs)" "same_books (cl_net c1) (cl_net c2)"
      using write_result_ok [OF c1(1) a(4,2,3) c1(2) assms(6,4,5), of pick] by auto
    then show ?thesis using books_add_same [OF a(8) w(6)] a(2) by (simp add: ready_net)
  qed
  with a show ?thesis by blast
qed

text \<open>The handler, for whatever \<open>zs\<close> reading the argument leaves in its buffer.\<close>

lemma increment_array_any:
  assumes "cm.ready host c" "sin6_port tgt = t_port topo" "hosts_live host hl" "0 < n" "n < 2 ^ 31" "has_room mal (cl_mem c)"
    and "\<forall>s. host s \<longrightarrow> grants pick (cl_net c) s n" "length zs = n"
    and fetch: "\<And>ra t c1 buf. sin6_port t = t_port topo \<Longrightarrow> cm.ready host c1 \<Longrightarrow> fresh_block (cluster_view (cl_net c)) ra n \<Longrightarrow>
      cluster_view (cl_net c1) = put_chunk (cluster_view (cl_net c)) (ra, replicate n 0) \<Longrightarrow>
      cl_mem c1 = overwrite (cl_mem c) buf (snd (mal (cl_mem c) n)) \<Longrightarrow> length (snd (mal (cl_mem c) n)) = n \<Longrightarrow> mapped (cl_mem c1) buf n \<Longrightarrow>
      \<exists>t2 c2. read_uniform_rmem (cluster_net topo pick) t \<lparr>memaddr = a, blk_length = num_blocks n, blk_offset = offset0\<rparr> buf n c1 =
          Inr (0, t2, c2) \<and> sin6_port t2 = t_port topo \<and> cm.ready host c2 \<and> cl_mem c2 = overwrite (cl_mem c) buf zs \<and>
        cluster_view (cl_net c2) = cluster_view (cl_net c1) \<and> same_books (cl_net c1) (cl_net c2)"
  shows "\<exists>ra tgt' c'. increment_array (cluster_net topo pick) hl rnd mal offset0 (memaddr_bytes a @ rest) value n tgt c =
      Inr (memaddr_bytes ra @ memaddr_bytes ra, tgt', c') \<and> host (subid ra) \<and> in_table ra \<and>
    sin6_port tgt' = t_port topo \<and> cm.ready host c' \<and> cl_mem c' = cl_mem c \<and>
    fresh_block (cluster_view (cl_net c)) ra n \<and> books_add host (cl_net c) ra n (cl_net c') \<and>
    cluster_view (cl_net c') = put_chunk (cluster_view (cl_net c)) (ra, map (\<lambda>x. x + value) zs)"
proof -
  let ?net = "cluster_net topo pick" let ?v = "cluster_view (cl_net c)" let ?ys = "map (\<lambda>x. x + value) zs"
  obtain ra t c1 where g: "get_pointer ?net hl rnd tgt n c = Inr (\<lparr>memaddr = ra, blk_length = of_nat n, blk_offset = 0\<rparr>, t, c1)"
      "host (subid ra)" "in_table ra" "sin6_port t = t_port topo" "cm.ready host c1" "cl_mem c1 = cl_mem c"
      "fresh_block ?v ra n" "books_add host (cl_net c) ra n (cl_net c1)"
      "cluster_view (cl_net c1) = put_chunk ?v (ra, replicate n 0)"
    using get_pointer_ok [OF assms(1-5,7), of rnd] by blast
  have n32: "n < 2 ^ 32" using assms(5) by simp
  obtain buf junk where b: "chunk_malloc mal (cl_mem c) n = (buf, overwrite (cl_mem c) buf junk)" "junk = snd (mal (cl_mem c) n)" "length junk = n"
      "\<And>bs. length bs = n \<Longrightarrow> mapped (overwrite (cl_mem c) buf bs) buf n" "\<And>bs. length bs = n \<Longrightarrow> load (overwrite (cl_mem c) buf bs) buf n = Some bs"
      "\<And>bs. length bs = n \<Longrightarrow> chunk_free buf n (overwrite (cl_mem c) buf bs) = cl_mem c"
      "\<And>bs cs. length bs = n \<Longrightarrow> length cs = n \<Longrightarrow> store (overwrite (cl_mem c) buf bs) buf cs = Some (overwrite (cl_mem c) buf cs)"
    by (rule chunk_malloc_live [OF assms(6,4) n32]) blast
  let ?c1 = "c1\<lparr>cl_mem := overwrite (cl_mem c) buf junk\<rparr>"
  have r1: "cm.ready host ?c1" using g(5) by (simp add: ready_net)
  obtain t2 c2 where f: "read_uniform_rmem ?net t \<lparr>memaddr = a, blk_length = num_blocks n, blk_offset = offset0\<rparr> buf n ?c1 = Inr (0, t2, c2)"
      "sin6_port t2 = t_port topo" "cm.ready host c2" "cl_mem c2 = overwrite (cl_mem c) buf zs"
      "cluster_view (cl_net c2) = cluster_view (cl_net c1)" "same_books (cl_net c1) (cl_net c2)"
    using fetch [OF g(4) r1 g(7), of buf] g(9) b(2-4) by auto
  let ?c2 = "c2\<lparr>cl_mem := overwrite (cl_mem c) buf ?ys\<rparr>"
  have r2: "cm.ready host ?c2" using f(3) by (simp add: ready_net)
  have v2: "cluster_view (cl_net ?c2) = put_chunk ?v (ra, replicate n 0)" using g(9) f(5) by simp
  obtain t3 c3 where w: "write_uniform_rmem ?net t2 \<lparr>memaddr = ra, blk_length = of_nat n, blk_offset = 0\<rparr> ?ys n ?c2 = Inr (0, t3, c3)"
      "sin6_port t3 = t_port topo" "cm.ready host c3" "cl_mem c3 = overwrite (cl_mem c) buf ?ys"
      "cluster_view (cl_net c3) = put_chunk ?v (ra, ?ys)" "same_books (cl_net c2) (cl_net c3)"
    using write_result_ok [OF r2 f(2) g(2,3) v2, of ?ys pick] assms(4,5,8) by auto
  have "books_add host (cl_net c) ra n (cl_net c3)"
    using books_add_same [OF g(8) same_books_trans [OF f(6) w(6)]] w(3) g(2) by (simp add: ready_net)
  moreover have "increment_array ?net hl rnd mal offset0 (memaddr_bytes a @ rest) value n tgt c =
      Inr (memaddr_bytes ra @ memaddr_bytes ra, t3, c3\<lparr>cl_mem := cl_mem c\<rparr>)"
    using g(1,6) b(1,5-7) f(1,4) w(1,4) assms(8)
    by (simp add: increment_array_def fetch_array_def guardE_def Let_def marshall_bytes)
  moreover have "cm.ready host (c3\<lparr>cl_mem := cl_mem c\<rparr>)" using w(3) by (simp add: ready_net)
  ultimately show ?thesis using w(2,5) g(2,3,7) by (intro exI [of _ ra] exI [of _ t3] exI [of _ "c3\<lparr>cl_mem := cl_mem c\<rparr>"]) simp
qed

lemma increment_array_ok:
  assumes "cm.ready host c" "sin6_port tgt = t_port topo" "hosts_live host hl" "host (subid a)" "in_table a"
    and "remote_array (cluster_view (cl_net c)) a xs" "length xs = n" "0 < n" "n < 2 ^ 31" "has_room mal (cl_mem c)"
    and "\<forall>s. host s \<longrightarrow> grants pick (cl_net c) s n"
  shows "\<exists>ra tgt' c'. increment_array (cluster_net topo pick) hl rnd mal 0 (memaddr_bytes a @ rest) value n tgt c =
      Inr (memaddr_bytes ra @ memaddr_bytes ra, tgt', c') \<and> host (subid ra) \<and> in_table ra \<and>
    sin6_port tgt' = t_port topo \<and> cm.ready host c' \<and> cl_mem c' = cl_mem c \<and>
    fresh_block (cluster_view (cl_net c)) ra n \<and> books_add host (cl_net c) ra n (cl_net c') \<and>
    cluster_view (cl_net c') = put_chunk (cluster_view (cl_net c)) (ra, map (\<lambda>x. x + value) xs)"
proof (rule increment_array_any [OF assms(1-3,8-11,7)])
  fix ra and t :: sockaddr_in6 and c1 :: "cluster client" and buf
  assume c1: "sin6_port t = t_port topo" "cm.ready host c1" "fresh_block (cluster_view (cl_net c)) ra n"
      "cluster_view (cl_net c1) = put_chunk (cluster_view (cl_net c)) (ra, replicate n 0)"
      "cl_mem c1 = overwrite (cl_mem c) buf (snd (mal (cl_mem c) n))" "length (snd (mal (cl_mem c) n)) = n" "mapped (cl_mem c1) buf n"
  have "remote_array (cluster_view (cl_net c1)) a xs"
    using remote_array_put(2) [of "replicate n 0" "cluster_view (cl_net c)" ra a xs] c1(3,4) assms(6,9) by simp
  from read_result_ok [OF c1(2,1) assms(4,5) this assms(7-9) c1(7), of pick] c1(5,6) assms(7)
  show "\<exists>t2 c2. read_uniform_rmem (cluster_net topo pick) t \<lparr>memaddr = a, blk_length = num_blocks n, blk_offset = 0\<rparr> buf n c1 = Inr (0, t2, c2) \<and>
      sin6_port t2 = t_port topo \<and> cm.ready host c2 \<and> cl_mem c2 = overwrite (cl_mem c) buf xs \<and>
      cluster_view (cl_net c2) = cluster_view (cl_net c1) \<and> same_books (cl_net c1) (cl_net c2)"
    by (auto simp: overwrite_twice)
qed

text \<open>With an offset inside the block, the read finds too few addresses and leaves the buffer as it is.\<close>

lemma read_offset_fails:
  assumes "1 < n" "n < 2 ^ 31" "0 < unat off" "unat off < n"
  shows "read_uniform_rmem nif tgt \<lparr>memaddr = a, blk_length = num_blocks n, blk_offset = off\<rparr> buf n c = Inr (0, tgt, c)"
proof -
  have "unat (of_nat n - off) = n - unat off"
    using assms by (subst unat_sub) (simp_all add: word_le_nat_alt unat_of_nat take_bit_nat_eq_self)
  then show ?thesis
    using assms by (simp add: read_uniform_rmem_def read_bulk_rmem_def num_blocks_nat BLOCK_SIZE_def Let_def)
qed

section \<open>The test\<close>

text \<open>Every server can grant two blocks, the second also when the first has been filled.\<close>

definition two_blocks :: "placement \<Rightarrow> (u16 \<Rightarrow> bool) \<Rightarrow> cluster \<Rightarrow> nat \<Rightarrow> bool" where
  "two_blocks pick host N n \<longleftrightarrow>
     (\<forall>s h h' bs. host s \<longrightarrow> servers N s = Some h \<longrightarrow> length bs = n \<longrightarrow>
        hmem h' = hmem h \<or> hmem h' = overwrite (hmem h) (pick h n) bs \<longrightarrow> region_free h' (pick h' n) n)"

lemma two_blocks_first: "two_blocks pick host N n \<Longrightarrow> host s \<Longrightarrow> grants pick N s n"
  unfolding two_blocks_def grants_def by (metis length_replicate)

lemma two_blocks_second:
  assumes "two_blocks pick host N n" "cluster_ok host N" "servers N (subid a) = Some h" "paddr a = pick h n" "length xs = n"
    and "cluster_view N' = put_chunk (cluster_view N) (a, xs)" "host s"
  shows "grants pick N' s n"
  unfolding grants_def
proof (intro allI impI)
  fix h' assume h': "servers N' s = Some h'"
  obtain h0 where h0: "servers N s = Some h0" using cluster_host [OF assms(2,7)] by blast
  have "hmem h' = hmem h0 \<or> hmem h' = overwrite (hmem h0) (pick h0 n) xs"
    using fun_cong [OF assms(6), of s] h' h0 assms(3,4) by (auto simp: cluster_view_def put_chunk_def split: if_splits)
  then show "region_free h' (pick h' n) n" using assms(1,5,7) h0 unfolding two_blocks_def by blast
qed

lemma populate_length [simp]: "length (populate_array rnd random num n) = n"
  by (induction rnd random num n rule: populate_array.induct) simp_all

lemma mod_255: "(x :: u8) mod 255 < 255"
  by (rule word_mod_less_divisor) simp

lemma populate_small: "num < 255 \<Longrightarrow> x \<in> set (populate_array rnd random num n) \<Longrightarrow> x < 255"
  by (induction rnd random num n rule: populate_array.induct) (auto simp: mod_255 split: if_splits)

lemma no_failure:
  fixes xs :: bytes
  assumes "\<forall>x\<in>set xs. x < 255" "length xs = n"
  shows "filter (\<lambda>i. unat (map (\<lambda>x. x + 1) xs ! i) \<noteq> unat (xs ! i) + unat (1 :: u8)) [0..<n] = []"
proof -
  have step: "unat (x + 1) = Suc (unat x)" if "x < 255" for x :: u8
    using that by (simp add: unat_word_ariths word_less_nat_alt)
  have "unat (xs ! i + 1) = Suc (unat (xs ! i))" if "i < n" for i
    by (rule step) (use assms that in simp)
  then show ?thesis using assms(2) by (simp add: filter_empty_conv)
qed

text \<open>Taking a block off the view again.\<close>

definition take_out :: "rview \<Rightarrow> ip6_memaddr \<Rightarrow> nat \<Rightarrow> rview" where
  "take_out v a k = v(subid a := \<lambda>x. if in_range (paddr a) k x then None else v (subid a) x)"

lemma free_takes_out:
  assumes "client_idle host c" "sin6_port tgt = t_port topo" "host (subid a)" "on_books (cl_net c) a = Some k" "paddr a \<noteq> 0"
  obtains tgt' a' c' where "free_rmem (cluster_net topo pick) tgt a c = Inr (tgt', a', c')" "client_idle host c'" "cl_mem c' = cl_mem c"
    "sin6_port tgt' = t_port topo" "cluster_view (cl_net c') = take_out (cluster_view (cl_net c)) a k"
    "\<And>b. subid b \<noteq> subid a \<or> paddr b \<noteq> paddr a \<Longrightarrow> on_books (cl_net c') b = on_books (cl_net c) b"
  using free_rmem_ok [OF assms, of pick] unfolding take_out_def by blast

lemma take_out_put: "fresh_block v a (length xs) \<Longrightarrow> take_out (put_chunk v (a, xs)) a (length xs) = v"
  by (auto simp: take_out_def put_chunk_def overwrite_def fresh_block_def fun_eq_iff)

lemma take_out_inner:
  assumes "fresh_block v a (length xs)" "fresh_block (put_chunk v (a, xs)) b (length ys)"
  shows "take_out (put_chunk (put_chunk v (a, xs)) (b, ys)) a (length xs) = put_chunk v (b, ys)" "fresh_block v b (length ys)"
  using assms
  by (auto simp: take_out_def put_chunk_def overwrite_def fresh_block_def fun_eq_iff split: if_splits)

lemma fresh_differs:
  assumes "fresh_block (put_chunk v (a, xs)) b n" "0 < n" "length xs = n"
  shows "subid a \<noteq> subid b \<or> paddr a \<noteq> paddr b"
  using assms by (auto simp: fresh_block_def put_chunk_def overwrite_def in_range_def dest: spec [of _ "paddr b"])

lemma serve_increment_ok:
  assumes "cluster_ok host N" "inbox N = []" "sin6_port (rs_target p) = t_port topo" "hosts_live host (rs_hosts p)" "host (subid a)" "in_table a"
    and "remote_array (cluster_view N) a xs" "length xs = n" "0 < n" "n < 2 ^ 31" "has_room (rs_malloc p) (rs_mem p)" "rs_offset p = 0"
    and "\<forall>s. host s \<longrightarrow> grants pick N s n"
  shows "\<exists>ra N'. serve_increment (cluster_net topo pick) p (memaddr_bytes a) value n N = Inr (memaddr_bytes ra @ memaddr_bytes ra, N') \<and>
    host (subid ra) \<and> in_table ra \<and> cluster_ok host N' \<and> inbox N' = [] \<and> fresh_block (cluster_view N) ra n \<and>
    books_add host N ra n N' \<and> cluster_view N' = put_chunk (cluster_view N) (ra, map (\<lambda>x. x + value) xs)"
  using increment_array_ok [of host "rs_client p N" "rs_target p" topo "rs_hosts p" a xs n "rs_malloc p" pick "rs_rand p" "[]" "value"] assms
  by (auto simp: serve_increment_def rs_client_def ready_net)

lemma increment_exchange_ok:
  assumes c: "cm.ready host c" "sin6_port tgt = t_port topo" "hosts_live host hl" "rooms 2 mal (cl_mem c)"
    and p: "sin6_port (rs_target p) = t_port topo'" "hosts_live host (rs_hosts p)" "has_room (rs_malloc p) (rs_mem p)" "rs_offset p = 0"
    and n: "0 < n" "n < 2 ^ 31" and two: "two_blocks pick host (cl_net c) n"
  shows "\<exists>arr res a b tgt' c'. increment_exchange (cluster_net topo pick) hl rnd mal 0 (serve_increment (cluster_net topo' pick) p) n tgt c =
      Inr ([], arr, res, a, b, tgt', c') \<and> chunk_free res n (chunk_free arr n (cl_mem c')) = cl_mem c \<and>
    host (subid a) \<and> host (subid b) \<and> sin6_port tgt' = t_port topo \<and> cm.ready host c' \<and>
    on_books (cl_net c') a = Some n \<and> on_books (cl_net c') b = Some n \<and> (subid a \<noteq> subid b \<or> paddr a \<noteq> paddr b) \<and>
    (\<exists>xs ys. length xs = n \<and> length ys = n \<and> fresh_block (cluster_view (cl_net c)) a n \<and>
      fresh_block (put_chunk (cluster_view (cl_net c)) (a, xs)) b n \<and>
      cluster_view (cl_net c') = put_chunk (put_chunk (cluster_view (cl_net c)) (a, xs)) (b, ys))"
proof -
  let ?net = "cluster_net topo pick" let ?v = "cluster_view (cl_net c)" let ?m = "cl_mem c"
  define xs where "xs = populate_array (\<lambda>_. 0) False 0 n"
  let ?ys = "map (\<lambda>x. x + 1) xs"
  have xs: "length xs = n" "\<forall>x\<in>set xs. x < 255" using populate_small [of 0] by (auto simp: xs_def)
  have n32: "n < 2 ^ 32" using n(2) by simp
  have ok: "cluster_ok host (cl_net c)" using c(1) by (simp add: ready_net)
  have gr: "\<forall>s. host s \<longrightarrow> grants pick (cl_net c) s n" using two_blocks_first [OF two] by blast
  obtain a h t1 c1 where a: "get_pointer ?net hl rnd tgt n c = Inr (\<lparr>memaddr = a, blk_length = of_nat n, blk_offset = 0\<rparr>, t1, c1)"
      "host (subid a)" "in_table a" "cl_mem c1 = ?m" "fresh_block ?v a n" "servers (cl_net c) (subid a) = Some h" "paddr a = pick h n"
      and place: "\<forall>m. \<exists>t2 c2. write_uniform_rmem ?net t1 \<lparr>memaddr = a, blk_length = of_nat n, blk_offset = 0\<rparr> xs n (c1\<lparr>cl_mem := m\<rparr>) =
          Inr (0, t2, c2) \<and> sin6_port t2 = t_port topo \<and> cm.ready host c2 \<and> cl_mem c2 = m \<and>
        cluster_view (cl_net c2) = put_chunk ?v (a, xs) \<and> books_add host (cl_net c) a n (cl_net c2)"
    using place_array_ok [OF c(1-3) n xs(1) gr, of rnd] by blast
  have room: "has_room mal ?m" "\<And>bs. length bs = n \<Longrightarrow> has_room mal (overwrite ?m (fst (mal ?m n)) bs)"
    using c(4) n(1) n32 by (simp_all add: numeral_2_eq_2)
  obtain arr j1 where m1: "chunk_malloc mal ?m n = (arr, overwrite ?m arr j1)" "arr = fst (mal ?m n)" "length j1 = n"
      "\<And>bs. length bs = n \<Longrightarrow> mapped (overwrite ?m arr bs) arr n" "\<And>bs. length bs = n \<Longrightarrow> load (overwrite ?m arr bs) arr n = Some bs"
      "\<And>bs. length bs = n \<Longrightarrow> chunk_free arr n (overwrite ?m arr bs) = ?m"
      "\<And>bs cs. length bs = n \<Longrightarrow> length cs = n \<Longrightarrow> store (overwrite ?m arr bs) arr cs = Some (overwrite ?m arr cs)"
    by (rule chunk_malloc_live [OF room(1) n(1) n32]) blast
  let ?m2 = "overwrite ?m arr xs"
  obtain t2 c2 where w: "write_uniform_rmem ?net t1 \<lparr>memaddr = a, blk_length = of_nat n, blk_offset = 0\<rparr> xs n (c1\<lparr>cl_mem := ?m2\<rparr>) = Inr (0, t2, c2)"
      "sin6_port t2 = t_port topo" "cm.ready host c2" "cl_mem c2 = ?m2" "cluster_view (cl_net c2) = put_chunk ?v (a, xs)"
      "books_add host (cl_net c) a n (cl_net c2)"
    using place by blast
  have ra: "remote_array (cluster_view (cl_net c2)) a xs" using remote_array_put(1) [of xs ?v a] a(5) xs(1) n(2) w(5) by simp
  have gr2: "\<forall>s. host s \<longrightarrow> grants pick (cl_net c2) s n" using two_blocks_second [OF two ok a(6,7) xs(1) w(5)] by blast
  obtain b N where b: "serve_increment (cluster_net topo' pick) p (memaddr_bytes a) 1 n (cl_net c2) = Inr (memaddr_bytes b @ memaddr_bytes b, N)"
      "host (subid b)" "in_table b" "cluster_ok host N" "inbox N = []" "fresh_block (put_chunk ?v (a, xs)) b n"
      "books_add host (cl_net c2) b n N" "cluster_view N = put_chunk (put_chunk ?v (a, xs)) (b, ?ys)"
    using serve_increment_ok [OF _ _ p(1,2) a(2,3) ra xs(1) n p(3,4) gr2, of 1] w(3,5) unfolding ready_net by auto
  obtain res j2 where m3: "chunk_malloc mal ?m2 n = (res, overwrite ?m2 res j2)" "length j2 = n"
      "\<And>bs. length bs = n \<Longrightarrow> mapped (overwrite ?m2 res bs) res n" "\<And>bs. length bs = n \<Longrightarrow> load (overwrite ?m2 res bs) res n = Some bs"
      "\<And>bs. length bs = n \<Longrightarrow> chunk_free res n (overwrite ?m2 res bs) = ?m2"
      "\<And>bs b k. length bs = n \<Longrightarrow> mapped ?m2 b k \<Longrightarrow> load (overwrite ?m2 res bs) b k = load ?m2 b k"
    by (rule chunk_malloc_live [OF room(2) [OF xs(1), folded m1(2)] n(1) n32]) blast
  let ?c2 = "c2\<lparr>cl_net := N, cl_mem := overwrite ?m2 res j2\<rparr>"
  have r2: "cm.ready host ?c2" using b(4,5) by (simp add: ready_net)
  have rb: "remote_array (cluster_view (cl_net ?c2)) b ?ys"
    using remote_array_put(1) [of ?ys "put_chunk ?v (a, xs)" b] b(6,8) xs(1) n(2) by simp
  obtain t3 c3 where f: "read_uniform_rmem ?net t2 \<lparr>memaddr = b, blk_length = num_blocks n, blk_offset = 0\<rparr> res n ?c2 = Inr (0, t3, c3)"
      "sin6_port t3 = t_port topo" "cm.ready host c3" "cl_mem c3 = overwrite ?m2 res ?ys"
      "cluster_view (cl_net c3) = cluster_view N" "same_books N (cl_net c3)"
    using read_result_ok [OF r2 w(2) b(2,3) rb _ n, of res pick] m3(2,3) xs(1) by (auto simp: overwrite_twice)
  have ld: "load (cl_mem c3) arr n = Some xs" "load (cl_mem c3) res n = Some ?ys"
    using f(4) m3(4,6) m1(4,5) xs(1) by simp_all
  have run: "increment_exchange ?net hl rnd mal 0 (serve_increment (cluster_net topo' pick) p) n tgt c = Inr ([], arr, res, a, b, t3, c3)"
    using a(1,4) m1(1,3,5,7) w(1,4) b(1) m3(1) f(1) ld xs(1) no_failure [OF xs(2,1)]
    by (simp add: increment_exchange_def Let_def guardE_def marshall_bytes flip: xs_def)
  have diff: "subid a \<noteq> subid b \<or> paddr a \<noteq> paddr b" by (rule fresh_differs [OF b(6) n(1) xs(1)])
  have books: "on_books (cl_net c3) a = Some n" "on_books (cl_net c3) b = Some n"
    using same_books_on [OF f(6)] f(3) w(6) b(2,7) a(2) diff by (auto simp: ready_net books_add_def)
  have mem: "chunk_free res n (chunk_free arr n (cl_mem c3)) = ?m"
    using chunk_free_commute m3(5) [of ?ys] m1(6) f(4) xs(1) by simp
  have "\<exists>xs ys. length xs = n \<and> length ys = n \<and> fresh_block ?v a n \<and> fresh_block (put_chunk ?v (a, xs)) b n \<and>
      cluster_view (cl_net c3) = put_chunk (put_chunk ?v (a, xs)) (b, ys)"
    using xs(1) a(5) b(6,8) f(5) by (intro exI [of _ xs] exI [of _ ?ys]) simp
  with run mem a(2) b(2) f(2,3) books diff show ?thesis by blast
qed

lemma tcp_increment_steps:
  "\<forall>i\<in>set is. i < length arr \<Longrightarrow> tcp_increment_loop arr value is ret = Inr (ret @ map (\<lambda>i. arr ! i + value) is)"
  by (induction "is" arbitrary: ret) (simp_all add: garray_index_def)

lemma tcp_increment_all: "tcp_increment_array arr value (length arr) = Inr (map (\<lambda>x. x + value) arr)"
proof -
  have "map (\<lambda>i. arr ! i + value) [0..<length arr] = map (\<lambda>x. x + value) (map ((!) arr) [0..<length arr])" by simp
  then show ?thesis by (simp add: tcp_increment_array_def tcp_increment_steps map_nth del: map_map)
qed

text \<open>A cluster, a client and a serving process to try the properties on: one host that places two blocks side by side.\<close>

definition pair_place :: placement where
  "pair_place h n = (if hmem h 0x3000 = None then 0x3000 else 0x4000)"

definition pair_malloc :: mallocator where
  "pair_malloc m n = (if m 0x100000000 = None then 0x100000000 else 0x300000000, replicate n 9)"

definition one_host :: host_list where
  "one_host = \<lparr>hostList = [sample_addr 0 0], nhosts = 1\<rparr>"

definition sample_rpc :: rpc_server where
  "sample_rpc = \<lparr>rs_hosts = one_host, rs_rand = 3, rs_malloc = pair_malloc, rs_offset = 0, rs_target = sample_target,
     rs_mem = (\<lambda>_. None), rs_sub_ids = (\<lambda>_. 0)\<rparr>"

lemma pair_fits:
  assumes "\<And>x. b \<le> x \<Longrightarrow> m x = None" "pair_malloc m n = (b, junk)" "b = 0x100000000 \<or> b = 0x300000000" "n < 2 ^ 32"
  shows "fits m n (pair_malloc m n)"
proof -
  have "b \<le> b + of_nat i" if "i < n" for i
    using that assms(3,4) by (auto simp: word_le_nat_alt unat_word_ariths unat_of_nat take_bit_nat_eq_self)
  moreover have "length junk = n" using assms(2) by (auto simp: pair_malloc_def)
  ultimately show ?thesis using assms by (auto simp: fits_def)
qed

lemma pair_room: "(\<And>x. 0x100000000 \<le> x \<Longrightarrow> m x = None) \<Longrightarrow> has_room pair_malloc m"
  unfolding has_room_def using pair_fits [of "0x100000000" m] by (simp add: pair_malloc_def)

lemma pair_rooms:
  assumes m: "\<And>x. 0x100000000 \<le> x \<Longrightarrow> m x = None"
  shows "rooms 2 pair_malloc m"
proof -
  have "has_room pair_malloc (overwrite m 0x100000000 bs)" if "0 < length bs" "length bs < 2 ^ 32" for bs
  proof -
    let ?m = "overwrite m 0x100000000 bs"
    have "?m x = None" if "0x300000000 \<le> x" for x
    proof -
      have "unat (0x300000000 :: u64) \<le> unat x" using that by (simp only: word_le_nat_alt)
      then have "\<not> in_range 0x100000000 (length bs) x" using \<open>length bs < 2 ^ 32\<close>
        by (auto simp: in_range_def unat_sub_if_size word_size)
      then show ?thesis using m [of x] order_trans [OF _ that, of "0x100000000"] by (simp add: overwrite_def)
    qed
    moreover have "?m 0x100000000 \<noteq> None" using \<open>0 < length bs\<close> by (simp add: overwrite_def in_range_def)
    ultimately show ?thesis
      unfolding has_room_def using pair_fits [of "0x300000000" ?m] by (auto simp: pair_malloc_def)
  qed
  moreover have "rooms 2 pair_malloc m = rooms (Suc (Suc 0)) pair_malloc m" by (simp only: numeral_2_eq_2)
  ultimately show ?thesis using pair_room [OF m] m by (auto simp: pair_malloc_def)
qed

lemma sample_low: "0x100000000 \<le> x \<Longrightarrow> cl_mem sample_process x = None"
  by (auto simp: sample_process_def in_range_def word_le_nat_alt unat_sub_if_size word_size)

lemma sample_one_host: "hosts_live sample_host one_host"
  by (simp add: hosts_live_def one_host_def sample_host_def sample_addr_def in_table_def USHRT_MAX_def)

lemma sample_two_blocks: "two_blocks pair_place sample_host (cl_net sample_process) 4"
proof -
  have free: "hmem sample_heap (0x3000 + of_nat i) = None" "hmem sample_heap (0x4000 + of_nat i) = None" if "i < 4" for i
    using that by (auto simp: sample_heap_def in_range_def unat_sub_if_size unat_word_ariths unat_of_nat take_bit_nat_eq_self word_size)
  have "region_free h' (pair_place h' 4) 4"
    if "length bs = 4" "hmem h' = hmem sample_heap \<or> hmem h' = overwrite (hmem sample_heap) (pair_place sample_heap 4) bs" for h' bs
    using that free free(1) [of 0]
    by (auto simp: region_free_def pair_place_def overwrite_def in_range_def unat_word_ariths unat_of_nat take_bit_nat_eq_self)
  then show ?thesis
    by (auto simp: two_blocks_def sample_host_def sample_process_def sample_cluster_def)
qed

lemma replicate_two: "replicate 2 x = [x, x]"
  by (simp add: numeral_2_eq_2)

lemma sample_room: "has_room pair_malloc (cl_mem sample_process)"
  by (rule pair_room [OF sample_low])

lemma sample_ports: "sin6_port sample_target = t_port sample_topo"
  by (simp add: sample_target_def sample_topo_def)

lemma sample_region: "sample_host s \<Longrightarrow> grants (\<lambda>h n. 0x3000) (cl_net sample_process) s 2"
  by (auto simp: grants_def sample_host_def sample_process_def sample_cluster_def sample_heap_def region_free_def in_range_def
      less_2_cases_iff)

section \<open>Properties\<close>





text \<open>
  C37: The offset of a block is part of what a read obeys, and no handler sets it: its value is what the stack holds. If it
  is not zero but smaller than the length, the handler reads nothing, is told of no error, and answers with a
  pointer to what \<^verbatim>\<open>malloc\<close> left in its buffer, incremented; the argument plays no part in it.
\<close>

theorem stale_offset_sends_garbage:
  assumes "client_idle host c" "sin6_port tgt = t_port topo" "hosts_live host hl" "1 < n" "n < 2 ^ 31"
    and "0 < unat off" "unat off < n" "has_room mal (cl_mem c)" "\<forall>s. host s \<longrightarrow> grants pick (cl_net c) s n"
  shows "\<exists>ra tgt' c'. increment_array (cluster_net topo pick) hl rnd mal off (memaddr_bytes a @ rest) value n tgt c =
      Inr (memaddr_bytes ra @ memaddr_bytes ra, tgt', c') \<and>
    remote_array (cluster_view (cl_net c')) ra (map (\<lambda>x. x + value) (snd (mal (cl_mem c) n)))"
proof -
  let ?zs = "snd (mal (cl_mem c) n)"
  have n: "0 < n" using assms(4) by simp
  have "fits (cl_mem c) n (mal (cl_mem c) n)" using assms(5,8) n by (simp add: has_room_def)
  then have len: "length ?zs = n" by (auto simp: fits_def)
  have r: "cm.ready host c" using assms(1) by (simp add: client_idle_ready)
  have "\<exists>ra tgt' c'. increment_array (cluster_net topo pick) hl rnd mal off (memaddr_bytes a @ rest) value n tgt c =
        Inr (memaddr_bytes ra @ memaddr_bytes ra, tgt', c') \<and> host (subid ra) \<and> in_table ra \<and> sin6_port tgt' = t_port topo \<and>
      cm.ready host c' \<and> cl_mem c' = cl_mem c \<and> fresh_block (cluster_view (cl_net c)) ra n \<and> books_add host (cl_net c) ra n (cl_net c') \<and>
      cluster_view (cl_net c') = put_chunk (cluster_view (cl_net c)) (ra, map (\<lambda>x. x + value) ?zs)"
    by (rule increment_array_any [OF r assms(2,3) n assms(5,8,9) len]) (simp add: read_offset_fails [OF assms(4-7)])
  then show ?thesis
    using remote_array_put(1) [of "map (\<lambda>x. x + value) ?zs"] len assms(5) by fastforce
qed

theorem stale_offset_sends_garbage_witness:
  "\<exists>ra tgt' c'. increment_array (cluster_net sample_topo (\<lambda>h n. 0x3000)) one_host 7 pair_malloc 1 (memaddr_bytes (sample_addr 0 0)) 1 2
      sample_target sample_process = Inr (memaddr_bytes ra @ memaddr_bytes ra, tgt', c') \<and>
    remote_array (cluster_view (cl_net c')) ra [10, 10]"
  using stale_offset_sends_garbage [OF sample_idle _ sample_one_host, of sample_target sample_topo 2 1 pair_malloc "\<lambda>h n. 0x3000" 7
      "sample_addr 0 0" "[]" 1] sample_region sample_room
  by (simp add: sample_ports pair_malloc_def replicate_two)

end
