(* ===== verification/BB_Bench.thy ===== *)
theory BB_Bench
  imports BB_Vm BB_Stdio "HOL-Library.Multiset"
begin

text \<open>
  Programs on the virtual memory, \<^verbatim>\<open>ip6/apps/rmem_test.c\<close>: they work on the bytes of
  \<^verbatim>\<open>virtmem\<close> through ordinary loads and stores, and are written here over any memory of bytes. What the
  programs need of a memory is the locale \<open>byte_memory\<close>; every virtual memory offers it, so a
  program on pages that live on servers prints what it prints on an array.
\<close>

section \<open>The programs\<close>

type_synonym 's loads = "u64 \<Rightarrow> 's \<Rightarrow> (u8 \<times> 's) res"
type_synonym 's stores = "u64 \<Rightarrow> u8 \<Rightarrow> 's \<Rightarrow> 's res"

primrec for_each :: "('a \<Rightarrow> 's \<Rightarrow> 's res) \<Rightarrow> 'a list \<Rightarrow> 's \<Rightarrow> 's res" where
  "for_each f [] s = Inr s"
| "for_each f (x # xs) s = bindE (f x s) (for_each f xs)"

text \<open>A loop over bytes that collects in \<open>t\<close>; a byte read as \<^verbatim>\<open>char\<close> is a signed number.\<close>

definition collect :: "'s loads \<Rightarrow> u64 \<Rightarrow> (u8 \<Rightarrow> 't \<Rightarrow> 't) \<Rightarrow> nat \<Rightarrow> 't \<times> 's \<Rightarrow> ('t \<times> 's) res" where
  "collect ld cdata g n = for_each (\<lambda>i (t, s). bindE (ld (cdata + of_nat i) s) (\<lambda>(x, s'). Inr (g x t, s'))) [0..<n]"

definition fill :: "'s stores \<Rightarrow> u64 \<Rightarrow> (nat \<Rightarrow> u8) \<Rightarrow> nat \<Rightarrow> 's \<Rightarrow> 's res" where
  "fill st cdata f n = for_each (\<lambda>i. st (cdata + of_nat i) (f i)) [0..<n]"

definition compare_bytes :: "u8 \<Rightarrow> u8 \<Rightarrow> int" where
  "compare_bytes pa pb = (let a = sint pa; b = sint pb in if a < b then - 1 else if a = b then 0 else 1)"

text \<open>
  \<^verbatim>\<open>focus_program\<close>: the \<open>k\<close>-th call of \<^verbatim>\<open>rand\<close> gives \<open>rnd k\<close>. C does not say which of the two calls in
  one assignment comes first; \<open>left\<close> says so here.
\<close>

definition focus_store :: "'s stores \<Rightarrow> (nat \<Rightarrow> nat) \<Rightarrow> bool \<Rightarrow> u64 \<Rightarrow> int \<Rightarrow> nat \<Rightarrow> int \<Rightarrow> nat \<Rightarrow> 's \<Rightarrow> 's res" where
  "focus_store st rnd left cdata len j start i s =
     (let k = 201 * j + 1 + 2 * i;
          at = rnd (if left then k else k + 1);
          x = rnd (if left then k + 1 else k)
      in st (cdata + word_of_int ((start + int at mod 25) mod \<bar>len\<bar>)) (of_nat x) s)"

definition focus_program :: "'s loads \<Rightarrow> 's stores \<Rightarrow> (nat \<Rightarrow> nat) \<Rightarrow> bool \<Rightarrow> u64 \<Rightarrow> int \<Rightarrow> 's \<Rightarrow> (u32 \<times> 's) res" where
  "focus_program ld st rnd left cdata len s =
     bindE (fill st cdata (\<lambda>i. 0) (nat len) s) (\<lambda>s1.
     bindE (for_each (\<lambda>j s.
         if len = 0 then Inl Fpe
         else for_each (focus_store st rnd left cdata len j (int (rnd (201 * j)) mod \<bar>len\<bar>)) [0..<100] s) [0..<100] s1) (\<lambda>s2.
       collect ld cdata (\<lambda>x t. t + scast x) (nat len) (0, s2)))"

text \<open>
  \<^verbatim>\<open>qsort\<close> with elements of one byte: the elements, read, put into the order of the comparison and
  written back.
\<close>

fun insert_by :: "('a \<Rightarrow> 'a \<Rightarrow> int) \<Rightarrow> 'a \<Rightarrow> 'a list \<Rightarrow> 'a list" where
  "insert_by cmp x [] = [x]"
| "insert_by cmp x (y # ys) = (if cmp x y \<le> 0 then x # y # ys else y # insert_by cmp x ys)"

definition qsort :: "'s loads \<Rightarrow> 's stores \<Rightarrow> (u8 \<Rightarrow> u8 \<Rightarrow> int) \<Rightarrow> u64 \<Rightarrow> nat \<Rightarrow> 's \<Rightarrow> 's res" where
  "qsort ld st cmp cdata n s =
     bindE (collect ld cdata (\<lambda>x xs. xs @ [x]) n ([], s)) (\<lambda>(xs, s1).
       fill st cdata ((!) (foldr (insert_by cmp) xs [])) n s1)"

definition sort_program :: "'s loads \<Rightarrow> 's stores \<Rightarrow> (nat \<Rightarrow> nat) \<Rightarrow> u64 \<Rightarrow> int \<Rightarrow> 's \<Rightarrow> (u32 \<times> 's) res" where
  "sort_program ld st rnd cdata len s =
     bindE (fill st cdata (\<lambda>i. of_nat (rnd i)) (nat len) s) (\<lambda>s1.
     bindE (qsort ld st compare_bytes cdata (nat len) s1) (\<lambda>s2.
       collect ld cdata (\<lambda>x t. t + scast x) (nat len) (0, s2)))"

text \<open>Here the index is unsigned, and \<^verbatim>\<open>length\<close> is converted to compare.\<close>

definition scan_program :: "'s loads \<Rightarrow> 's stores \<Rightarrow> u64 \<Rightarrow> int \<Rightarrow> 's \<Rightarrow> (u32 \<times> 's) res" where
  "scan_program ld st cdata len s =
     (let n = unat (word_of_int len :: u32) in
      bindE (fill st cdata (\<lambda>i. of_nat (i mod 256)) n s) (\<lambda>s1.
        for_each (\<lambda>j. collect ld cdata (\<lambda>x t. t + ucast x) n) [0..<10] (0 :: u32, s1)))"

definition isWord :: "u8 \<Rightarrow> u8 \<Rightarrow> bool" where
  "isWord prev cur \<longleftrightarrow> isspace (byte_char cur) \<and> isgraph (byte_char prev)"

text \<open>
  \<^verbatim>\<open>wc_program\<close>: \<^verbatim>\<open>symbol\<close> is a \<^verbatim>\<open>char\<close>, so a byte of 255 looks like \<^verbatim>\<open>EOF\<close> and ends the reading. Nothing is
  read when the input cannot be opened.
\<close>

definition wc_step :: "u8 \<Rightarrow> u8 \<times> u64 \<Rightarrow> u8 \<times> u64" where
  "wc_step x = (\<lambda>(prev, count). (x, if isWord prev x then count + 1 else count))"

definition wc_program :: "'s loads \<Rightarrow> 's stores \<Rightarrow> bytes option \<Rightarrow> u64 \<Rightarrow> 's \<Rightarrow> (u64 \<times> 's) res" where
  "wc_program ld st input cdata s =
     (let story = (case input of None \<Rightarrow> [] | Some bs \<Rightarrow> takeWhile (\<lambda>b. b \<noteq> 255) bs) in
      bindE (fill st cdata ((!) story) (length story) s) (\<lambda>s1.
      bindE (collect ld cdata wc_step (length story) ((32, 0), s1))
        (\<lambda>((_, count), s2). Inr (count, s2))))"

text \<open>What \<^verbatim>\<open>main\<close> runs on the \<open>np\<close> pages, and what the program prints.\<close>

datatype bench = BSort | BScan | BFocus | BWc

datatype printed = Total u32 | Words u64

fun run_bench ::
  "bench \<Rightarrow> 's loads \<Rightarrow> 's stores \<Rightarrow> (nat \<Rightarrow> nat) \<Rightarrow> bool \<Rightarrow> bytes option \<Rightarrow> nat \<Rightarrow> u64 \<Rightarrow> 's \<Rightarrow> (printed \<times> 's) res" where
  "run_bench BSort ld st rnd left input np virtmem s =
     bindE (sort_program ld st rnd virtmem (c_int (np * BLOCK_SIZE)) s) (\<lambda>(t, s'). Inr (Total t, s'))"
| "run_bench BScan ld st rnd left input np virtmem s =
     bindE (scan_program ld st virtmem (c_int (np * BLOCK_SIZE)) s) (\<lambda>(t, s'). Inr (Total t, s'))"
| "run_bench BFocus ld st rnd left input np virtmem s =
     bindE (focus_program ld st rnd left virtmem (c_int (np * BLOCK_SIZE)) s) (\<lambda>(t, s'). Inr (Total t, s'))"
| "run_bench BWc ld st rnd left input np virtmem s =
     bindE (wc_program ld st input virtmem s) (\<lambda>(n, s'). Inr (Words n, s'))"

section \<open>What the programs print on an array\<close>

definition scan_sum :: "nat \<Rightarrow> u32" where
  "scan_sum n = of_nat (10 * (\<Sum>i<n. i mod 256))"

definition char_sum :: "bytes \<Rightarrow> u32" where
  "char_sum xs = (\<Sum>x\<leftarrow>xs. scast x)"

definition focus_cell :: "(nat \<Rightarrow> nat) \<Rightarrow> bool \<Rightarrow> int \<Rightarrow> nat \<Rightarrow> nat \<Rightarrow> nat \<times> u8" where
  "focus_cell rnd left len j i =
     (let k = 201 * j + 1 + 2 * i in
      (nat ((int (rnd (201 * j)) mod len + int (rnd (if left then k else k + 1)) mod 25) mod len),
       of_nat (rnd (if left then k + 1 else k))))"

definition focus_cells :: "(nat \<Rightarrow> nat) \<Rightarrow> bool \<Rightarrow> int \<Rightarrow> nat \<Rightarrow> (nat \<times> u8) list" where
  "focus_cells rnd left len j = map (focus_cell rnd left len j) [0..<100]"

fun poke :: "nat \<times> u8 \<Rightarrow> bytes \<Rightarrow> bytes" where
  "poke (d, x) xs = xs[d := x]"

definition focus_array :: "(nat \<Rightarrow> nat) \<Rightarrow> bool \<Rightarrow> int \<Rightarrow> bytes" where
  "focus_array rnd left len =
     fold poke (concat (map (focus_cells rnd left len) [0..<100])) (replicate (nat len) 0)"

fun word_ends :: "u8 \<Rightarrow> bytes \<Rightarrow> nat" where
  "word_ends prev [] = 0"
| "word_ends prev (x # xs) = (if isWord prev x then 1 else 0) + word_ends x xs"

fun bench_result :: "bench \<Rightarrow> (nat \<Rightarrow> nat) \<Rightarrow> bool \<Rightarrow> bytes \<Rightarrow> nat \<Rightarrow> printed" where
  "bench_result BSort rnd left story n = Total (char_sum (map (\<lambda>i. of_nat (rnd i)) [0..<n]))"
| "bench_result BScan rnd left story n = Total (scan_sum n)"
| "bench_result BFocus rnd left story n = Total (char_sum (focus_array rnd left (int n)))"
| "bench_result BWc rnd left story n = Words (of_nat (word_ends 32 (takeWhile (\<lambda>b. b \<noteq> 255) story)))"

text \<open>The words of a text: what lies between white space.\<close>

abbreviation space :: "u8 \<Rightarrow> bool" where "space b \<equiv> isspace (byte_char b)"

function text_words :: "bytes \<Rightarrow> bytes list" where
  "text_words xs =
     (case dropWhile space xs of
        [] \<Rightarrow> []
      | y # ys \<Rightarrow> (y # takeWhile (\<lambda>b. \<not> space b) ys) # text_words (dropWhile (\<lambda>b. \<not> space b) ys))"
  by pat_completeness auto
termination
proof (relation "measure length")
  fix xs y ys
  assume "dropWhile space xs = y # ys"
  then have "Suc (length ys) \<le> length xs" by (metis length_Cons length_dropWhile_le)
  then show "(dropWhile (\<lambda>b. \<not> space b) ys, xs) \<in> measure length"
    using length_dropWhile_le [of "\<lambda>b. \<not> space b" ys] by simp
qed simp

declare text_words.simps [simp del]

section \<open>Lemmas\<close>

lemma text_words_Nil [simp]: "text_words [] = []"
  by (simp add: text_words.simps)

lemma text_words_space: "space x \<Longrightarrow> text_words (x # xs) = text_words xs"
  by (simp add: text_words.simps [of "x # xs"] text_words.simps [of xs])

lemma text_words_graph: "\<not> space x \<Longrightarrow> length (text_words (x # xs)) = Suc (length (text_words (dropWhile (\<lambda>b. \<not> space b) xs)))"
  by (simp add: text_words.simps [of "x # xs"])

lemma graph_no_space: "isgraph c \<Longrightarrow> \<not> isspace c"
  by (auto simp: isgraph_def isspace_def)

lemma word_ends_words:
  assumes "\<forall>x\<in>set (p # xs). space x \<or> isgraph (byte_char x)"
  shows "word_ends p xs + (if space (last (p # xs)) then 0 else 1) =
    (if space p then length (text_words xs) else Suc (length (text_words (dropWhile (\<lambda>b. \<not> space b) xs))))"
  using assms
proof (induction xs arbitrary: p)
  case (Cons x xs)
  have IH: "word_ends x xs + (if space (last (x # xs)) then 0 else 1) =
      (if space x then length (text_words xs) else Suc (length (text_words (dropWhile (\<lambda>b. \<not> space b) xs))))"
    by (rule Cons.IH) (use Cons.prems in simp)
  have p: "isgraph (byte_char p) = (\<not> space p)" using Cons.prems graph_no_space by auto
  show ?case using IH p by (auto simp: isWord_def text_words_space text_words_graph)
qed simp

lemma word_ends_le: "word_ends p xs \<le> length xs"
proof (induction xs arbitrary: p)
  case (Cons x xs)
  then show ?case using Cons.IH [of x] by (simp add: le_SucI)
qed simp

lemma fold_plus: "fold (\<lambda>x t. t + f x) xs t = t + (\<Sum>x\<leftarrow>xs. f x)" for t :: "'a::comm_monoid_add"
  by (induction xs arbitrary: t) (simp_all add: ac_simps)

lemma sum_scan: "(\<Sum>i\<leftarrow>[0..<n]. ucast (of_nat (i mod 256) :: u8)) = (of_nat (\<Sum>i<n. i mod 256) :: u32)"
proof -
  have "(ucast (of_nat (i mod 256) :: u8) :: u32) = of_nat (i mod 256)" for i :: nat
    by (simp add: unsigned_of_nat take_bit_nat_eq_self)
  then show ?thesis by (induction n) simp_all
qed

lemma insert_by_bytes: "insert_by compare_bytes x ys = insort_key sint x ys"
  by (induction ys) (auto simp: compare_bytes_def Let_def)

lemma qsort_bytes: "foldr (insert_by compare_bytes) xs [] = sort_key sint xs"
  by (induction xs) (simp_all add: insert_by_bytes)

lemma char_sum_sort: "char_sum (sort_key f xs) = char_sum xs"
  unfolding char_sum_def by (metis mset_map mset_sort sum_mset_sum_list)

lemma fold_words:
  "fold wc_step xs (p, c :: u64) =
   (last (p # xs), c + of_nat (word_ends p xs))"
  by (induction xs arbitrary: p c) (simp_all add: wc_step_def ac_simps)

lemma fold_snoc: "fold (\<lambda>x xs. xs @ [x]) xs ys = ys @ xs"
  by (induction xs arbitrary: ys) simp_all

lemma fold_poke_length [simp]: "length (fold poke ds xs) = length xs"
  by (induction ds arbitrary: xs) auto

lemma for_each_append: "for_each f (xs @ ys) s = bindE (for_each f xs s) (for_each f ys)"
proof (induction xs arbitrary: s)
  case (Cons x xs)
  then have "for_each f (xs @ ys) = (\<lambda>s. bindE (for_each f xs s) (for_each f ys))" by blast
  then show ?case by (simp add: bindE_assoc)
qed simp

lemma for_each_nested: "for_each (\<lambda>x. for_each f (g x)) xs s = for_each f (concat (map g xs)) s"
proof (induction xs arbitrary: s)
  case (Cons x xs)
  then have "for_each (\<lambda>x. for_each f (g x)) xs = for_each f (concat (map g xs))" by blast
  then show ?case by (simp add: for_each_append)
qed simp

lemma for_each_map: "for_each f (map g xs) s = for_each (\<lambda>x. f (g x)) xs s"
proof (induction xs arbitrary: s)
  case (Cons x xs)
  then have "for_each f (map g xs) = for_each (\<lambda>x. f (g x)) xs" by blast
  then show ?case by simp
qed simp

definition poke_cell :: "'s stores \<Rightarrow> u64 \<Rightarrow> nat \<times> u8 \<Rightarrow> 's \<Rightarrow> 's res" where
  "poke_cell st cdata = (\<lambda>(d, x). st (cdata + of_nat d) x)"

lemma focus_inner:
  assumes "0 < len"
  shows "for_each (focus_store st rnd left cdata len j (int (rnd (201 * j)) mod \<bar>len\<bar>)) [0..<100] =
    for_each (poke_cell st cdata) (focus_cells rnd left len j)"
proof -
  have w: "(word_of_int z :: u64) = of_nat (nat z)" if "0 \<le> z" for z using that by simp
  have "focus_store st rnd left cdata len j (int (rnd (201 * j)) mod \<bar>len\<bar>) = (\<lambda>i. poke_cell st cdata (focus_cell rnd left len j i))"
    using assms by (intro ext) (simp only: focus_store_def poke_cell_def focus_cell_def Let_def prod.case w pos_mod_sign abs_of_pos)
  then show ?thesis by (intro ext) (simp add: focus_cells_def for_each_map)
qed

lemma focus_cells_in: "0 < len \<Longrightarrow> c \<in> set (focus_cells rnd left len j) \<Longrightarrow> fst c < nat len"
  by (auto simp: focus_cells_def focus_cell_def Let_def)

section \<open>A memory of bytes\<close>

text \<open>
  \<open>holds s m\<close>: a memory in state \<open>s\<close> has the byte \<open>m d\<close> at the distance \<open>d\<close> from its start, for the \<open>sz\<close> bytes it has.
\<close>

locale byte_memory =
  fixes ld :: "'s loads" and st :: "'s stores" and base :: u64 and sz :: nat and holds :: "'s \<Rightarrow> (nat \<Rightarrow> u8) \<Rightarrow> bool"
  assumes ld_law: "holds s m \<Longrightarrow> unat (a - base) < sz \<Longrightarrow> \<exists>s'. ld a s = Inr (m (unat (a - base)), s') \<and> holds s' m"
    and st_law: "holds s m \<Longrightarrow> unat (a - base) < sz \<Longrightarrow> \<exists>s'. st a x s = Inr s' \<and> holds s' (m(unat (a - base) := x))"
    and sz_law: "holds s m \<Longrightarrow> sz \<le> 2 ^ 63"
begin

lemma ld_at: "holds s m \<Longrightarrow> i < sz \<Longrightarrow> \<exists>s'. ld (base + of_nat i) s = Inr (m i, s') \<and> holds s' m"
  using ld_law [of s m "base + of_nat i"] sz_law [of s m] by (simp add: unat_of_nat_u64)

lemma st_at: "holds s m \<Longrightarrow> i < sz \<Longrightarrow> \<exists>s'. st (base + of_nat i) x s = Inr s' \<and> holds s' (m(i := x))"
  using st_law [of s m "base + of_nat i" x] sz_law [of s m] by (simp add: unat_of_nat_u64)

lemma fill_ok:
  assumes "holds s m" "n \<le> sz"
  shows "\<exists>s'. fill st base f n s = Inr s' \<and> holds s' (\<lambda>d. if d < n then f d else m d)"
proof -
  have "\<exists>s'. for_each (\<lambda>i. st (base + of_nat i) (f i)) is s = Inr s' \<and> holds s' (\<lambda>d. if d \<in> set is then f d else m d)"
    if "holds s m" "\<forall>i\<in>set is. i < sz" "distinct is" for "is" s m
    using that
  proof (induction "is" arbitrary: s m)
    case (Cons i "is")
    from st_at [OF Cons.prems(1), of i "f i"] Cons.prems(2) obtain s1 where s1: "st (base + of_nat i) (f i) s = Inr s1" "holds s1 (m(i := f i))"
      by auto
    have "(\<lambda>d. if d \<in> set is then f d else (m(i := f i)) d) = (\<lambda>d. if d \<in> set (i # is) then f d else m d)" by auto
    then show ?case using Cons.IH [OF s1(2)] Cons.prems s1(1) by simp
  qed simp
  from this [OF assms(1), of "[0..<n]"] assms(2) show ?thesis by (simp add: fill_def)
qed

lemma collect_ok:
  assumes "holds s m" "n \<le> sz"
  shows "\<exists>s'. collect ld base g n (t, s) = Inr (fold g (map m [0..<n]) t, s') \<and> holds s' m"
proof -
  have "\<exists>s'. for_each (\<lambda>i (t, s). bindE (ld (base + of_nat i) s) (\<lambda>(x, s'). Inr (g x t, s'))) is (t, s) =
      Inr (fold g (map m is) t, s') \<and> holds s' m"
    if "holds s m" "\<forall>i\<in>set is. i < sz" for "is" s t
    using that
  proof (induction "is" arbitrary: s t)
    case (Cons i "is")
    from ld_at [OF Cons.prems(1), of i] Cons.prems(2) obtain s1 where s1: "ld (base + of_nat i) s = Inr (m i, s1)" "holds s1 m"
      by auto
    then show ?case using Cons.IH [OF s1(2)] Cons.prems by simp
  qed simp
  from this [OF assms(1), of "[0..<n]"] assms(2) show ?thesis by (simp add: collect_def)
qed

lemma collect_all:
  assumes "holds s m" "length xs \<le> sz" "\<And>i. i < length xs \<Longrightarrow> m i = xs ! i"
  shows "\<exists>s'. collect ld base g (length xs) (t, s) = Inr (fold g xs t, s') \<and> holds s' m"
proof -
  have "map m [0..<length xs] = xs" using assms(3) by (intro nth_equalityI) simp_all
  then show ?thesis using collect_ok [OF assms(1,2), of g t] by simp
qed

lemma scan_ok:
  assumes "holds s m" "unat (word_of_int len :: u32) \<le> sz"
  shows "\<exists>s' m'. scan_program ld st base len s = Inr (scan_sum (unat (word_of_int len :: u32)), s') \<and> holds s' m'"
proof -
  let ?n = "unat (word_of_int len :: u32)" let ?m = "\<lambda>d. if d < ?n then of_nat (d mod 256) else m d"
  obtain s1 where s1: "fill st base (\<lambda>i. of_nat (i mod 256)) ?n s = Inr s1" "holds s1 ?m" using fill_ok [OF assms] by blast
  have sum: "(\<Sum>x\<leftarrow>map ?m [0..<?n]. ucast x) = (of_nat (\<Sum>i<?n. i mod 256) :: u32)"
    unfolding sum_scan [symmetric] by (intro arg_cong [of _ _ sum_list]) simp
  have "\<exists>s'. for_each (\<lambda>j. collect ld base (\<lambda>x t. t + ucast x) ?n) js (t, s) =
      Inr (t + of_nat (length js * (\<Sum>i<?n. i mod 256)) :: u32, s') \<and> holds s' ?m" if "holds s ?m" for js :: "nat list" and t s
    using that
  proof (induction js arbitrary: t s)
    case (Cons j js)
    obtain s2 where s2: "collect ld base (\<lambda>x t. t + ucast x) ?n (t, s) = Inr (t + of_nat (\<Sum>i<?n. i mod 256), s2)" "holds s2 ?m"
      using collect_ok [OF Cons.prems assms(2), of "\<lambda>x t. t + ucast x" t] unfolding fold_plus sum by blast
    then show ?case using Cons.IH [OF s2(2), of "t + of_nat (\<Sum>i<?n. i mod 256)"] by (simp add: ac_simps)
  qed simp
  from this [OF s1(2), of "[0..<10]" 0] s1(1) show ?thesis by (auto simp: scan_program_def scan_sum_def)
qed

lemma sort_ok:
  fixes rnd :: "nat \<Rightarrow> nat"
  assumes "holds s m" "nat len \<le> sz"
  defines "xs \<equiv> map (\<lambda>i. of_nat (rnd i)) [0..<nat len]"
  shows "\<exists>s'. sort_program ld st rnd base len s = Inr (char_sum xs, s') \<and>
    holds s' (\<lambda>d. if d < nat len then sort_key sint xs ! d else m d)"
proof -
  let ?n = "nat len" let ?ys = "sort_key sint xs"
  have len: "length xs = ?n" by (simp add: xs_def)
  obtain s1 where s1: "fill st base (\<lambda>i. of_nat (rnd i)) ?n s = Inr s1" "holds s1 (\<lambda>d. if d < ?n then of_nat (rnd d) else m d)"
    using fill_ok [OF assms(1,2)] by blast
  obtain s2 where s2: "collect ld base (\<lambda>x xs. xs @ [x]) ?n ([], s1) = Inr (xs, s2)" "holds s2 (\<lambda>d. if d < ?n then of_nat (rnd d) else m d)"
    using collect_all [OF s1(2), of xs "\<lambda>x xs. xs @ [x]" "[]"] len assms(2) by (auto simp: fold_snoc xs_def)
  obtain s3 where s3: "fill st base ((!) ?ys) ?n s2 = Inr s3" "holds s3 (\<lambda>d. if d < ?n then ?ys ! d else if d < ?n then of_nat (rnd d) else m d)"
    using fill_ok [OF s2(2) assms(2)] by blast
  have h3: "holds s3 (\<lambda>d. if d < ?n then ?ys ! d else m d)" using s3(2) by (simp cong: if_cong)
  obtain s4 where s4: "collect ld base (\<lambda>x t. t + scast x) ?n (0, s3) = Inr (char_sum ?ys, s4)" "holds s4 (\<lambda>d. if d < ?n then ?ys ! d else m d)"
    using collect_all [OF h3, of ?ys "\<lambda>x t. t + scast x" 0] len assms(2) by (auto simp: fold_plus char_sum_def)
  show ?thesis
    using s1(1) s2(1) s3(1) s4 by (intro exI [of _ s4]) (simp add: sort_program_def qsort_def qsort_bytes char_sum_sort)
qed

lemma wc_ok:
  assumes "holds s m" "length (takeWhile (\<lambda>b. b \<noteq> 255) story) \<le> sz"
  shows "\<exists>s' m'. wc_program ld st (Some story) base s = Inr (of_nat (word_ends 32 (takeWhile (\<lambda>b. b \<noteq> 255) story)), s') \<and> holds s' m'"
proof -
  let ?xs = "takeWhile (\<lambda>b. b \<noteq> 255) story" let ?n = "length ?xs"
  obtain s1 where s1: "fill st base ((!) ?xs) ?n s = Inr s1" "holds s1 (\<lambda>d. if d < ?n then ?xs ! d else m d)"
    using fill_ok [OF assms] by blast
  obtain s2 where s2: "collect ld base wc_step ?n ((32, 0 :: u64), s1) =
      Inr ((last (32 # ?xs), of_nat (word_ends 32 ?xs)), s2)" "holds s2 (\<lambda>d. if d < ?n then ?xs ! d else m d)"
    using collect_all [OF s1(2) assms(2), of wc_step "(32, 0)"] by (auto simp: fold_words)
  show ?thesis using s1(1) s2 by (auto simp: wc_program_def Let_def)
qed

lemma poke_ok:
  assumes "holds s (\<lambda>d. if d < length xs then xs ! d else m d)" "\<forall>c\<in>set cs. fst c < length xs" "length xs \<le> sz"
  shows "\<exists>s'. for_each (poke_cell st base) cs s = Inr s' \<and>
    holds s' (\<lambda>d. if d < length xs then fold poke cs xs ! d else m d)"
  using assms
proof (induction cs arbitrary: s xs)
  case (Cons c cs)
  obtain d x where c: "c = (d, x)" by fastforce
  then have d: "d < length xs" using Cons.prems(2) by simp
  obtain s1 where s1: "st (base + of_nat d) x s = Inr s1" "holds s1 ((\<lambda>d. if d < length xs then xs ! d else m d)(d := x))"
    using st_at [OF Cons.prems(1), of d x] d Cons.prems(3) by auto
  have "(\<lambda>d. if d < length xs then xs ! d else m d)(d := x) = (\<lambda>e. if e < length (xs[d := x]) then xs[d := x] ! e else m e)"
    using d by (auto simp: fun_eq_iff nth_list_update)
  then show ?case using Cons.IH [of s1 "xs[d := x]"] s1 Cons.prems(2,3) c by (simp add: poke_cell_def cong: if_cong)
qed (simp cong: if_cong)

lemma focus_ok:
  assumes "holds s m" "0 < len" "nat len \<le> sz"
  shows "\<exists>s' m'. focus_program ld st rnd left base len s = Inr (char_sum (focus_array rnd left len), s') \<and> holds s' m'"
proof -
  let ?n = "nat len" let ?z = "replicate ?n 0 :: bytes" let ?cs = "concat (map (focus_cells rnd left len) [0..<100])"
  obtain s1 where s1: "fill st base (\<lambda>i. 0) ?n s = Inr s1" "holds s1 (\<lambda>d. if d < ?n then 0 else m d)"
    using fill_ok [OF assms(1,3)] by blast
  have "holds s1 (\<lambda>d. if d < length ?z then ?z ! d else m d)" using s1(2) by (simp cong: if_cong)
  then obtain s2 where s2: "for_each (poke_cell st base) ?cs s1 = Inr s2"
      "holds s2 (\<lambda>d. if d < ?n then focus_array rnd left len ! d else m d)"
    using poke_ok [of s1 ?z m ?cs] focus_cells_in [OF assms(2)] assms(3) by (auto simp: focus_array_def cong: if_cong)
  have len: "length (focus_array rnd left len) = ?n" by (simp add: focus_array_def)
  obtain s3 where s3: "collect ld base (\<lambda>x t. t + scast x) ?n (0, s2) = Inr (char_sum (focus_array rnd left len), s3)"
      "holds s3 (\<lambda>d. if d < ?n then focus_array rnd left len ! d else m d)"
    using collect_all [OF s2(2), of "focus_array rnd left len" "\<lambda>x t. t + scast x" 0] len assms(3) by (auto simp: fold_plus char_sum_def)
  show ?thesis
    using s1(1) s2(1) s3 assms(2) focus_inner [OF assms(2), of st rnd left base]
    by (intro exI [of _ s3] exI [of _ "\<lambda>d. if d < ?n then focus_array rnd left len ! d else m d"])
      (simp add: focus_program_def for_each_nested)
qed

end

text \<open>Every virtual memory is such a memory, whatever its policy and its store.\<close>

sublocale paging \<subseteq> bytes: byte_memory "cpu_load handler vbase 2" "cpu_store handler vbase 3" vbase "np * BLOCK_SIZE"
  "\<lambda>s m. \<exists>A. inv s A \<and> npages s = np \<and> np * BLOCK_SIZE \<le> 2 ^ 63 \<and> (\<forall>d<np * BLOCK_SIZE. vm_byte content s d = m d)" for vbase np
proof
  fix s m a x
  assume "\<exists>A. inv s A \<and> npages s = np \<and> np * BLOCK_SIZE \<le> 2 ^ 63 \<and> (\<forall>d<np * BLOCK_SIZE. vm_byte content s d = m d)"
  then obtain A where s: "inv s A" "npages s = np" "np * BLOCK_SIZE \<le> 2 ^ 63" "\<forall>d<np * BLOCK_SIZE. vm_byte content s d = m d" by blast
  show "np * BLOCK_SIZE \<le> 2 ^ 63" by (rule s(3))
  assume a: "unat (a - vbase) < np * BLOCK_SIZE"
  then have v: "in_virtmem vbase (npages s) a" "npages s * BLOCK_SIZE \<le> 2 ^ 63" using s(2,3) by (simp_all add: in_virtmem_def)
  show "\<exists>s'. cpu_load handler vbase 2 a s = Inr (m (unat (a - vbase)), s') \<and>
      (\<exists>A. inv s' A \<and> npages s' = np \<and> np * BLOCK_SIZE \<le> 2 ^ 63 \<and> (\<forall>d<np * BLOCK_SIZE. vm_byte content s' d = m d))"
    using s a by (rule_tac cpu_load_ok [OF s(1) v]) (auto intro!: exI)
  show "\<exists>s'. cpu_store handler vbase 3 a x s = Inr s' \<and>
      (\<exists>A. inv s' A \<and> npages s' = np \<and> np * BLOCK_SIZE \<le> 2 ^ 63 \<and> (\<forall>d<np * BLOCK_SIZE. vm_byte content s' d = (m(unat (a - vbase) := x)) d))"
    using cpu_store_ok [OF s(1) v, of x] s by fastforce
qed

section \<open>Properties\<close>

lemma c_int_pages: "np * BLOCK_SIZE < 2 ^ 31 \<Longrightarrow> c_int (np * BLOCK_SIZE) = int (np * BLOCK_SIZE)"
  by (rule c_int_small)

context paging
begin

lemma bench_ok:
  assumes "inv s A" "npages s = np" "0 < np" "np * BLOCK_SIZE < 2 ^ 31" "b = BWc \<longrightarrow> length (takeWhile (\<lambda>b. b \<noteq> 255) story) \<le> np * BLOCK_SIZE"
  shows "\<exists>s'. run_bench b (cpu_load handler vbase 2) (cpu_store handler vbase 3) rnd left (Some story) np vbase s =
    Inr (bench_result b rnd left story (np * BLOCK_SIZE), s')"
proof -
  let ?n = "np * BLOCK_SIZE"
  have h: "\<exists>A. inv s A \<and> npages s = np \<and> ?n \<le> 2 ^ 63 \<and> (\<forall>d<?n. vm_byte content s d = vm_byte content s d)"
    using assms(1,2,4) by auto
  have n: "nat (int ?n) \<le> ?n" "unat (word_of_int (int ?n) :: u32) = ?n" "0 < int ?n"
    using assms(3,4) by (simp_all add: unat_of_nat take_bit_nat_eq_self BLOCK_SIZE_def)
  show ?thesis
  proof (cases b)
    case BSort
    then show ?thesis using bytes.sort_ok [where vbase = vbase and rnd = rnd, OF h n(1)] c_int_pages [OF assms(4)] by (auto simp del: of_nat_mult)
  next
    case BScan
    then show ?thesis using bytes.scan_ok [where vbase = vbase and len = "int ?n", OF h] n(2) c_int_pages [OF assms(4)] by (auto simp del: of_nat_mult)
  next
    case BFocus
    then show ?thesis using bytes.focus_ok [where vbase = vbase and rnd = rnd and left = left, OF h n(3,1)] c_int_pages [OF assms(4)] by (auto simp del: of_nat_mult)
  next
    case BWc
    then show ?thesis using bytes.wc_ok [where vbase = vbase and story = story, OF h] assms(5) by auto
  qed
qed

end





end
