(* ===== verification/BB_Switch.thy ===== *)
theory BB_Switch
  imports BB_Packet
begin

text \<open>
  The switch of the emulated network, \<^verbatim>\<open>ip6/p4/p4_switch/ip6_16.p4\<close>: parser, ingress and deparser over the
  bits of a packet. A header that is not valid is \<open>None\<close>. The entries of the tables come from the control plane
  and are a parameter, as is what reading a field of an invalid header gives, which P4 leaves open. The architecture
  around the program is that of \<^verbatim>\<open>v1model\<close>: a parser that runs out of bits stops with the headers it has, a packet
  goes to a multicast group if one is set, is dropped if the port is 511, and otherwise leaves by the port, which is 0 unless set.
\<close>

section \<open>Bits\<close>

definition word_bits :: "'a::len word \<Rightarrow> bool list" where
  "word_bits w = map (bit w) (rev [0..<LENGTH('a)])"

definition bits_word :: "bool list \<Rightarrow> 'a::len word" where
  "bits_word bs = horner_sum of_bool 2 (rev bs)"

definition bytes_bits :: "bytes \<Rightarrow> bool list" where
  "bytes_bits bs = concat (map word_bits bs)"

definition field :: "nat \<Rightarrow> bool list \<Rightarrow> 'a::len word" where
  "field off b = bits_word (take LENGTH('a) (drop off b))"

section \<open>Headers\<close>

record ethernet_t =
  eth_dstAddr :: "48 word"
  eth_srcAddr :: "48 word"
  eth_etherType :: u16

record arp_t =
  arp_hType :: u16
  arp_pType :: u16
  arp_hSize :: u8
  arp_pSize :: u8
  arp_opcode :: u16
  arp_sMac :: "48 word"
  arp_sIP :: u32
  arp_dMac :: "48 word"
  arp_dIP :: u32

record icmp6_t =
  icmp6_ipType :: u8
  icmp6_code :: u8
  icmp6_checksum :: u16

record bb_t =
  bb_version :: "4 word"
  bb_trafficClass :: u8
  bb_flowLabel :: "20 word"
  bb_payloadLen :: u16
  bb_nextHdr :: u8
  bb_hopLimit :: u8
  bb_s_wildcard :: u32
  bb_s_subnet :: u16
  bb_s_cmd :: u16
  bb_s_bb_pointer :: u64
  bb_d_wildcard :: u32
  bb_d_subnet :: u16
  bb_d_cmd :: u16
  bb_d_bb_pointer :: u64

record bb_alloc_t =
  alloc_srcPort :: u16
  alloc_dstPort :: u16
  alloc_length :: u16
  alloc_checksum :: u16

record ipv4_t =
  ip4_version :: "4 word"
  ip4_ihl :: "4 word"
  ip4_diffserv :: u8
  ip4_totalLen :: u16
  ip4_identification :: u16
  ip4_flags :: "3 word"
  ip4_fragOffset :: "13 word"
  ip4_ttl :: u8
  ip4_protocol :: u8
  ip4_hdrChecksum :: u16
  ip4_srcAddr :: u32
  ip4_dstAddr :: u32

record ipv6_t =
  ip6_version :: "4 word"
  ip6_trafficClass :: u8
  ip6_flowLabel :: "20 word"
  ip6_payloadLen :: u16
  ip6_nextHdr :: u8
  ip6_hopLimit :: u8
  ip6_srcAddr :: "128 word"
  ip6_dstAddr :: "128 word"

record tcp_t =
  tcp_srcPort :: u16
  tcp_dstPort :: u16
  tcp_seqNo :: u32
  tcp_ackNo :: u32
  tcp_dataOffset :: "4 word"
  tcp_res :: "4 word"
  tcp_flags :: u8
  tcp_window :: u16
  tcp_checksum :: u16
  tcp_urgentPtr :: u16

record thrift_t =
  rpc_version :: u16
  rpc_ttype :: u16
  rpc_len :: u32
  rpc_name :: "128 word"
  rpc_seq :: u32

record thrift_ip_t =
  tip_crap :: "56 word"
  tip_wildcard :: u32
  tip_subnet :: u16
  tip_cmd :: u16
  tip_bb_pointer :: u64

record udp_t =
  udp_srcPort :: u16
  udp_dstPort :: u16
  udp_length :: u16
  udp_checksum :: u16

text \<open>Taking a header out of the bits of a packet, and writing it into them.\<close>

definition get_ethernet :: "bool list \<Rightarrow> ethernet_t" where
  "get_ethernet b =
     \<lparr>eth_dstAddr = field 0 b, eth_srcAddr = field 48 b, eth_etherType = field 96 b\<rparr>"

definition emit_ethernet :: "ethernet_t \<Rightarrow> bool list" where
  "emit_ethernet h =
     word_bits (eth_dstAddr h) @ word_bits (eth_srcAddr h) @ word_bits (eth_etherType h)"

definition get_arp :: "bool list \<Rightarrow> arp_t" where
  "get_arp b =
     \<lparr>arp_hType = field 0 b, arp_pType = field 16 b, arp_hSize = field 32 b, arp_pSize = field 40 b, arp_opcode = field 48 b,
      arp_sMac = field 64 b, arp_sIP = field 112 b, arp_dMac = field 144 b, arp_dIP = field 192 b\<rparr>"

definition emit_arp :: "arp_t \<Rightarrow> bool list" where
  "emit_arp h =
     word_bits (arp_hType h) @ word_bits (arp_pType h) @ word_bits (arp_hSize h) @ word_bits (arp_pSize h) @ word_bits (arp_opcode h) @
     word_bits (arp_sMac h) @ word_bits (arp_sIP h) @ word_bits (arp_dMac h) @ word_bits (arp_dIP h)"

definition get_icmp6 :: "bool list \<Rightarrow> icmp6_t" where
  "get_icmp6 b =
     \<lparr>icmp6_ipType = field 0 b, icmp6_code = field 8 b, icmp6_checksum = field 16 b\<rparr>"

definition emit_icmp6 :: "icmp6_t \<Rightarrow> bool list" where
  "emit_icmp6 h =
     word_bits (icmp6_ipType h) @ word_bits (icmp6_code h) @ word_bits (icmp6_checksum h)"

definition get_bb :: "bool list \<Rightarrow> bb_t" where
  "get_bb b =
     \<lparr>bb_version = field 0 b, bb_trafficClass = field 4 b, bb_flowLabel = field 12 b, bb_payloadLen = field 32 b,
      bb_nextHdr = field 48 b, bb_hopLimit = field 56 b, bb_s_wildcard = field 64 b, bb_s_subnet = field 96 b, bb_s_cmd = field 112 b,
      bb_s_bb_pointer = field 128 b, bb_d_wildcard = field 192 b, bb_d_subnet = field 224 b, bb_d_cmd = field 240 b,
      bb_d_bb_pointer = field 256 b\<rparr>"

definition emit_bb :: "bb_t \<Rightarrow> bool list" where
  "emit_bb h =
     word_bits (bb_version h) @ word_bits (bb_trafficClass h) @ word_bits (bb_flowLabel h) @ word_bits (bb_payloadLen h) @
     word_bits (bb_nextHdr h) @ word_bits (bb_hopLimit h) @ word_bits (bb_s_wildcard h) @ word_bits (bb_s_subnet h) @
     word_bits (bb_s_cmd h) @ word_bits (bb_s_bb_pointer h) @ word_bits (bb_d_wildcard h) @ word_bits (bb_d_subnet h) @
     word_bits (bb_d_cmd h) @ word_bits (bb_d_bb_pointer h)"

definition get_bb_alloc :: "bool list \<Rightarrow> bb_alloc_t" where
  "get_bb_alloc b =
     \<lparr>alloc_srcPort = field 0 b, alloc_dstPort = field 16 b, alloc_length = field 32 b, alloc_checksum = field 48 b\<rparr>"

definition emit_bb_alloc :: "bb_alloc_t \<Rightarrow> bool list" where
  "emit_bb_alloc h =
     word_bits (alloc_srcPort h) @ word_bits (alloc_dstPort h) @ word_bits (alloc_length h) @ word_bits (alloc_checksum h)"

definition get_ipv4 :: "bool list \<Rightarrow> ipv4_t" where
  "get_ipv4 b =
     \<lparr>ip4_version = field 0 b, ip4_ihl = field 4 b, ip4_diffserv = field 8 b, ip4_totalLen = field 16 b,
      ip4_identification = field 32 b, ip4_flags = field 48 b, ip4_fragOffset = field 51 b, ip4_ttl = field 64 b,
      ip4_protocol = field 72 b, ip4_hdrChecksum = field 80 b, ip4_srcAddr = field 96 b, ip4_dstAddr = field 128 b\<rparr>"

definition emit_ipv4 :: "ipv4_t \<Rightarrow> bool list" where
  "emit_ipv4 h =
     word_bits (ip4_version h) @ word_bits (ip4_ihl h) @ word_bits (ip4_diffserv h) @ word_bits (ip4_totalLen h) @
     word_bits (ip4_identification h) @ word_bits (ip4_flags h) @ word_bits (ip4_fragOffset h) @ word_bits (ip4_ttl h) @
     word_bits (ip4_protocol h) @ word_bits (ip4_hdrChecksum h) @ word_bits (ip4_srcAddr h) @ word_bits (ip4_dstAddr h)"

definition get_ipv6 :: "bool list \<Rightarrow> ipv6_t" where
  "get_ipv6 b =
     \<lparr>ip6_version = field 0 b, ip6_trafficClass = field 4 b, ip6_flowLabel = field 12 b, ip6_payloadLen = field 32 b,
      ip6_nextHdr = field 48 b, ip6_hopLimit = field 56 b, ip6_srcAddr = field 64 b, ip6_dstAddr = field 192 b\<rparr>"

definition emit_ipv6 :: "ipv6_t \<Rightarrow> bool list" where
  "emit_ipv6 h =
     word_bits (ip6_version h) @ word_bits (ip6_trafficClass h) @ word_bits (ip6_flowLabel h) @ word_bits (ip6_payloadLen h) @
     word_bits (ip6_nextHdr h) @ word_bits (ip6_hopLimit h) @ word_bits (ip6_srcAddr h) @ word_bits (ip6_dstAddr h)"

definition get_tcp :: "bool list \<Rightarrow> tcp_t" where
  "get_tcp b =
     \<lparr>tcp_srcPort = field 0 b, tcp_dstPort = field 16 b, tcp_seqNo = field 32 b, tcp_ackNo = field 64 b, tcp_dataOffset = field 96 b,
      tcp_res = field 100 b, tcp_flags = field 104 b, tcp_window = field 112 b, tcp_checksum = field 128 b, tcp_urgentPtr = field 144 b\<rparr>"

definition emit_tcp :: "tcp_t \<Rightarrow> bool list" where
  "emit_tcp h =
     word_bits (tcp_srcPort h) @ word_bits (tcp_dstPort h) @ word_bits (tcp_seqNo h) @ word_bits (tcp_ackNo h) @
     word_bits (tcp_dataOffset h) @ word_bits (tcp_res h) @ word_bits (tcp_flags h) @ word_bits (tcp_window h) @
     word_bits (tcp_checksum h) @ word_bits (tcp_urgentPtr h)"

definition get_thrift :: "bool list \<Rightarrow> thrift_t" where
  "get_thrift b =
     \<lparr>rpc_version = field 0 b, rpc_ttype = field 16 b, rpc_len = field 32 b, rpc_name = field 64 b, rpc_seq = field 192 b\<rparr>"

definition emit_thrift :: "thrift_t \<Rightarrow> bool list" where
  "emit_thrift h =
     word_bits (rpc_version h) @ word_bits (rpc_ttype h) @ word_bits (rpc_len h) @ word_bits (rpc_name h) @ word_bits (rpc_seq h)"

definition get_thrift_ip :: "bool list \<Rightarrow> thrift_ip_t" where
  "get_thrift_ip b =
     \<lparr>tip_crap = field 0 b, tip_wildcard = field 56 b, tip_subnet = field 88 b, tip_cmd = field 104 b, tip_bb_pointer = field 120 b\<rparr>"

definition emit_thrift_ip :: "thrift_ip_t \<Rightarrow> bool list" where
  "emit_thrift_ip h =
     word_bits (tip_crap h) @ word_bits (tip_wildcard h) @ word_bits (tip_subnet h) @ word_bits (tip_cmd h) @
     word_bits (tip_bb_pointer h)"

definition get_udp :: "bool list \<Rightarrow> udp_t" where
  "get_udp b =
     \<lparr>udp_srcPort = field 0 b, udp_dstPort = field 16 b, udp_length = field 32 b, udp_checksum = field 48 b\<rparr>"

definition emit_udp :: "udp_t \<Rightarrow> bool list" where
  "emit_udp h =
     word_bits (udp_srcPort h) @ word_bits (udp_dstPort h) @ word_bits (udp_length h) @ word_bits (udp_checksum h)"
record headers =
  h_arp :: "arp_t option"
  h_icmp6 :: "icmp6_t option"
  h_bb :: "bb_t option"
  h_bb_alloc :: "bb_alloc_t option"
  h_ethernet :: "ethernet_t option"
  h_ipv4 :: "ipv4_t option"
  h_ipv6 :: "ipv6_t option"
  h_tcp :: "tcp_t option"
  h_thrift :: "thrift_t option"
  h_thrift_ip :: "thrift_ip_t option"
  h_udp :: "udp_t option"

section \<open>The parser\<close>

text \<open>
  A state gives the headers found, the bits behind them, and whether the packet was too short. \<open>p4_extract\<close> takes
  \<open>n\<close> bits and goes on.
\<close>

type_synonym parsed = "headers \<times> bool list \<times> bool"

definition p4_extract ::
  "nat \<Rightarrow> (bool list \<Rightarrow> headers \<Rightarrow> headers) \<Rightarrow> (headers \<Rightarrow> bool list \<Rightarrow> parsed) \<Rightarrow> headers \<Rightarrow> bool list \<Rightarrow> parsed" where
  "p4_extract n sto k h b = (if length b < n then (h, b, True) else k (sto (take n b) h) (drop n b))"

definition accept :: "headers \<Rightarrow> bool list \<Rightarrow> parsed" where
  "accept h b = (h, b, False)"

definition parse_arp :: "headers \<Rightarrow> bool list \<Rightarrow> parsed" where
  "parse_arp = p4_extract 224 (\<lambda>b h. h\<lparr>h_arp := Some (get_arp b)\<rparr>) accept"

definition parse_ndp :: "headers \<Rightarrow> bool list \<Rightarrow> parsed" where
  "parse_ndp = p4_extract 32 (\<lambda>b h. h\<lparr>h_icmp6 := Some (get_icmp6 b)\<rparr>) accept"

definition parse_bb_alloc :: "headers \<Rightarrow> bool list \<Rightarrow> parsed" where
  "parse_bb_alloc = p4_extract 64 (\<lambda>b h. h\<lparr>h_bb_alloc := Some (get_bb_alloc b)\<rparr>) accept"

definition parse_bb :: "headers \<Rightarrow> bool list \<Rightarrow> parsed" where
  "parse_bb = p4_extract 320 (\<lambda>b h. h\<lparr>h_bb := Some (get_bb b)\<rparr>) (\<lambda>h b.
     let d_cmd = bb_d_cmd (the (h_bb h)) in
     if d_cmd = 0x100 \<or> d_cmd = 0x400 \<or> d_cmd = 0x600 then parse_bb_alloc h b else accept h b)"

definition parse_tcp :: "headers \<Rightarrow> bool list \<Rightarrow> parsed" where
  "parse_tcp = p4_extract 160 (\<lambda>b h. h\<lparr>h_tcp := Some (get_tcp b)\<rparr>) accept"

definition parse_thrift_ip :: "headers \<Rightarrow> bool list \<Rightarrow> parsed" where
  "parse_thrift_ip = p4_extract 184 (\<lambda>b h. h\<lparr>h_thrift_ip := Some (get_thrift_ip b)\<rparr>) accept"

definition parse_thrift :: "headers \<Rightarrow> bool list \<Rightarrow> parsed" where
  "parse_thrift = p4_extract 224 (\<lambda>b h. h\<lparr>h_thrift := Some (get_thrift b)\<rparr>) (\<lambda>h b.
     if rpc_version (the (h_thrift h)) = 0x8001 then parse_thrift_ip h b else accept h b)"

definition parse_udp :: "headers \<Rightarrow> bool list \<Rightarrow> parsed" where
  "parse_udp = p4_extract 64 (\<lambda>b h. h\<lparr>h_udp := Some (get_udp b)\<rparr>) parse_thrift"

definition parse_ipv4 :: "headers \<Rightarrow> bool list \<Rightarrow> parsed" where
  "parse_ipv4 = p4_extract 160 (\<lambda>b h. h\<lparr>h_ipv4 := Some (get_ipv4 b)\<rparr>) (\<lambda>h b.
     let protocol = ip4_protocol (the (h_ipv4 h)) in
     if protocol = 6 then parse_tcp h b else if protocol = 17 then parse_udp h b else accept h b)"

definition parse_ipv6 :: "headers \<Rightarrow> bool list \<Rightarrow> parsed" where
  "parse_ipv6 = p4_extract 320 (\<lambda>b h. h\<lparr>h_ipv6 := Some (get_ipv6 b)\<rparr>) (\<lambda>h b.
     let nextHdr = ip6_nextHdr (the (h_ipv6 h)) in
     if nextHdr = 6 then parse_tcp h b else if nextHdr = 17 then parse_udp h b
     else if nextHdr = 0x3a then parse_ndp h b else accept h b)"

definition parse_ethernet :: "headers \<Rightarrow> bool list \<Rightarrow> parsed" where
  "parse_ethernet = p4_extract 112 (\<lambda>b h. h\<lparr>h_ethernet := Some (get_ethernet b)\<rparr>) (\<lambda>h b.
     let etherType = eth_etherType (the (h_ethernet h)) in
     if etherType = 0x806 then parse_arp h b else if etherType = 0x800 then parse_ipv4 h b
     else if etherType = 0x86dd then parse_ipv6 h b else if etherType = 0xffff then parse_bb h b else accept h b)"

definition no_headers :: headers where
  "no_headers = \<lparr>h_arp = None, h_icmp6 = None, h_bb = None, h_bb_alloc = None, h_ethernet = None, h_ipv4 = None,
     h_ipv6 = None, h_tcp = None, h_thrift = None, h_thrift_ip = None, h_udp = None\<rparr>"

definition MyParser :: "bool list \<Rightarrow> parsed" where
  "MyParser packet = parse_ethernet no_headers packet"

section \<open>The deparser\<close>

definition emit :: "('h \<Rightarrow> bool list) \<Rightarrow> 'h option \<Rightarrow> bool list" where
  "emit f h = (case h of None \<Rightarrow> [] | Some x \<Rightarrow> f x)"

definition MyDeparser :: "headers \<Rightarrow> bool list" where
  "MyDeparser h =
     emit emit_ethernet (h_ethernet h) @ emit emit_arp (h_arp h) @ emit emit_ipv6 (h_ipv6 h) @ emit emit_icmp6 (h_icmp6 h) @
     emit emit_ipv4 (h_ipv4 h) @ emit emit_bb (h_bb h) @ emit emit_bb_alloc (h_bb_alloc h) @ emit emit_udp (h_udp h) @
     emit emit_thrift (h_thrift h) @ emit emit_thrift_ip (h_thrift_ip h) @ emit emit_tcp (h_tcp h)"

section \<open>The tables\<close>

datatype fwd = Fwd "9 word" | FwdDrop
datatype acl = AclNop | AclDrop

record tables =
  ipv4_tbl :: "(32 word \<times> nat \<times> fwd) list"
  ipv6_tbl :: "(128 word \<times> nat \<times> fwd) list"
  bb_acl_tbl :: "(16 word \<times> 64 word \<times> nat \<times> acl) list"
  bb_fwd_tbl :: "(16 word \<times> fwd) list"
  thrift_tbl :: "(128 word \<times> fwd) list"

text \<open>The match kind \<^verbatim>\<open>lpm\<close>: of the entries whose first \<open>n\<close> bits the key has, the one with the longest prefix.\<close>

definition prefix_match :: "'a::len word \<Rightarrow> nat \<Rightarrow> 'a word \<Rightarrow> bool" where
  "prefix_match v n key \<longleftrightarrow> take n (word_bits v) = take n (word_bits key)"

fun lpm :: "('a::len word \<times> nat \<times> 'r) list \<Rightarrow> 'a word \<Rightarrow> (nat \<times> 'r) option" where
  "lpm [] key = None"
| "lpm ((v, n, r) # es) key =
     (case lpm es key of
        None \<Rightarrow> if prefix_match v n key then Some (n, r) else None
      | Some (m, q) \<Rightarrow> if prefix_match v n key \<and> m \<le> n then Some (n, r) else Some (m, q))"

section \<open>Ingress\<close>

record std_meta =
  egress_spec :: "9 word"
  mcast_grp :: "16 word"

datatype digest =
    BbDigest "16 word" "16 word" "64 word" "16 word"
  | ThriftDigest "16 word" "16 word" "64 word" "16 word"

record pipeline =
  p_hdr :: headers
  p_meta :: std_meta
  p_digests :: "digest list"

text \<open>Headers that reading an invalid one amounts to.\<close>

record undef =
  u_ipv6 :: ipv6_t
  u_thrift_ip :: thrift_ip_t

definition p4_drop :: "pipeline \<Rightarrow> pipeline" where
  "p4_drop p = p\<lparr>p_meta := \<lparr>egress_spec = 511, mcast_grp = 0\<rparr>\<rparr>"

definition broadcast :: "pipeline \<Rightarrow> pipeline" where
  "broadcast p = p\<lparr>p_meta := (p_meta p)\<lparr>mcast_grp := 1\<rparr>\<rparr>"

text \<open>The actions \<^verbatim>\<open>set_bb\<close>, \<^verbatim>\<open>fwd_ip4\<close> and \<^verbatim>\<open>fwd_ip6\<close> are the same.\<close>

definition forward :: "9 word \<Rightarrow> pipeline \<Rightarrow> pipeline" where
  "forward port p = p\<lparr>p_meta := (p_meta p)\<lparr>egress_spec := port\<rparr>\<rparr>"

definition apply_fwd :: "fwd option \<Rightarrow> pipeline \<Rightarrow> pipeline" where
  "apply_fwd r p = (case r of None \<Rightarrow> p | Some FwdDrop \<Rightarrow> p4_drop p | Some (Fwd port) \<Rightarrow> forward port p)"

definition update_access_bb :: "pipeline \<Rightarrow> pipeline" where
  "update_access_bb p =
     (let bb = the (h_bb (p_hdr p)) in
      p\<lparr>p_digests := p_digests p @
        [BbDigest (bb_s_subnet bb) (bb_d_cmd bb) (bb_d_bb_pointer bb) (eth_etherType (the (h_ethernet (p_hdr p))))]\<rparr>)"

definition update_access_thrift :: "undef \<Rightarrow> pipeline \<Rightarrow> pipeline" where
  "update_access_thrift u p =
     (let tip = (case h_thrift_ip (p_hdr p) of None \<Rightarrow> u_thrift_ip u | Some x \<Rightarrow> x) in
      p\<lparr>p_digests := p_digests p @
        [ThriftDigest (tip_subnet tip) (tip_cmd tip) (tip_bb_pointer tip) (rpc_ttype (the (h_thrift (p_hdr p))))]\<rparr>)"

definition thrift_forward :: "9 word \<Rightarrow> pipeline \<Rightarrow> pipeline" where
  "thrift_forward port p =
     (let p1 = forward port p in
      p1\<lparr>p_hdr := (p_hdr p1)\<lparr>h_ipv6 := map_option (\<lambda>ip. ip\<lparr>ip6_hopLimit := ip6_hopLimit ip - 1\<rparr>) (h_ipv6 (p_hdr p1))\<rparr>\<rparr>)"

definition apply_ipv6 :: "tables \<Rightarrow> undef \<Rightarrow> pipeline \<Rightarrow> pipeline" where
  "apply_ipv6 t u p =
     (let ip = (case h_ipv6 (p_hdr p) of None \<Rightarrow> u_ipv6 u | Some x \<Rightarrow> x) in
      apply_fwd (map_option snd (lpm (ipv6_tbl t) (ip6_dstAddr ip))) p)"

definition apply_ipv4 :: "tables \<Rightarrow> pipeline \<Rightarrow> pipeline" where
  "apply_ipv4 t p = apply_fwd (map_option snd (lpm (ipv4_tbl t) (ip4_dstAddr (the (h_ipv4 (p_hdr p)))))) p"

definition apply_thrift :: "tables \<Rightarrow> pipeline \<Rightarrow> pipeline" where
  "apply_thrift t p =
     (case map_of (thrift_tbl t) (rpc_name (the (h_thrift (p_hdr p)))) of
        None \<Rightarrow> p | Some FwdDrop \<Rightarrow> p4_drop p | Some (Fwd port) \<Rightarrow> thrift_forward port p)"

definition apply_bb_fwd :: "tables \<Rightarrow> pipeline \<Rightarrow> pipeline" where
  "apply_bb_fwd t p = apply_fwd (map_of (bb_fwd_tbl t) (bb_d_subnet (the (h_bb (p_hdr p))))) p"

definition apply_bb_acl :: "tables \<Rightarrow> pipeline \<Rightarrow> pipeline" where
  "apply_bb_acl t p =
     (let bb = the (h_bb (p_hdr p)) in
      case lpm (map snd (filter (\<lambda>e. fst e = bb_d_subnet bb) (bb_acl_tbl t))) (bb_d_bb_pointer bb) of
        Some (_, AclNop) \<Rightarrow> p | _ \<Rightarrow> p4_drop p)"

definition MyIngress :: "tables \<Rightarrow> undef \<Rightarrow> pipeline \<Rightarrow> pipeline" where
  "MyIngress t u p =
     (let h = p_hdr p in
      if h_arp h \<noteq> None then broadcast p
      else if h_thrift h \<noteq> None \<and> rpc_version (the (h_thrift h)) = 0x8001 then
        (let p1 = update_access_thrift u p in
         if rpc_ttype (the (h_thrift h)) = 1 then apply_thrift t p1 else apply_ipv6 t u p1)
      else if h_ipv4 h \<noteq> None then apply_ipv4 t p
      else if h_ipv6 h \<noteq> None then (if h_icmp6 h \<noteq> None then broadcast p else apply_ipv6 t u p)
      else if h_bb h \<noteq> None then
        (let p1 = apply_bb_fwd t p in
         if h_bb_alloc h \<noteq> None \<and> alloc_srcPort (the (h_bb_alloc h)) = 0x1388 then update_access_bb p1 else apply_bb_acl t p1)
      else p)"

section \<open>The switch\<close>

datatype fate = Dropped | Unicast "9 word" "bool list" | Multicast "16 word" "bool list"

definition fate_of :: "std_meta \<Rightarrow> bool list \<Rightarrow> fate" where
  "fate_of m out =
     (if mcast_grp m \<noteq> 0 then Multicast (mcast_grp m) out
      else if egress_spec m = 511 then Dropped else Unicast (egress_spec m) out)"

text \<open>\<^verbatim>\<open>MyEgress\<close> and the two checksum controls are empty.\<close>

definition V1Switch :: "tables \<Rightarrow> undef \<Rightarrow> bool list \<Rightarrow> fate \<times> digest list" where
  "V1Switch t u packet =
     (case MyParser packet of (h, rest, err) \<Rightarrow>
        let p = MyIngress t u \<lparr>p_hdr = h, p_meta = \<lparr>egress_spec = 0, mcast_grp = 0\<rparr>, p_digests = []\<rparr>
        in (fate_of (p_meta p) (MyDeparser (p_hdr p) @ rest), p_digests p))"

section \<open>Lemmas\<close>

lemma length_word_bits [simp]: "length (word_bits (w :: 'a::len word)) = LENGTH('a)"
  by (simp add: word_bits_def)

lemma word_bits_word: "length bs = LENGTH('a) \<Longrightarrow> word_bits (bits_word bs :: 'a::len word) = bs"
  by (rule nth_equalityI) (simp_all add: word_bits_def bits_word_def bit_horner_sum_bit_word_iff rev_nth)

lemma bits_word_bits [simp]: "bits_word (word_bits w) = (w :: 'a::len word)"
  by (rule bit_word_eqI) (simp add: word_bits_def bits_word_def bit_horner_sum_bit_word_iff rev_map)

lemma field_bits: "off + LENGTH('a) \<le> length b \<Longrightarrow> word_bits (field off b :: 'a::len word) = take LENGTH('a) (drop off b)"
  by (simp add: field_def word_bits_word)

lemma pieces:
  "m = n + k \<Longrightarrow> take n (drop k b) @ drop m b = drop k b" "m = n \<Longrightarrow> take n b @ drop m b = b"
  "n = length b - k \<Longrightarrow> take n (drop k b) = drop k b"
proof -
  show "take n (drop k b) @ drop m b = drop k b" if "m = n + k" using that by (metis append_take_drop_id drop_drop)
qed simp_all

lemma emit_get_ethernet: "length b = 112 \<Longrightarrow> emit_ethernet (get_ethernet b) = b"
  by (simp add: emit_ethernet_def get_ethernet_def field_bits pieces)

lemma length_emit_ethernet [simp]: "length (emit_ethernet h) = 112"
  by (simp add: emit_ethernet_def)

lemma emit_get_arp: "length b = 224 \<Longrightarrow> emit_arp (get_arp b) = b"
  by (simp add: emit_arp_def get_arp_def field_bits pieces)

lemma length_emit_arp [simp]: "length (emit_arp h) = 224"
  by (simp add: emit_arp_def)

lemma emit_get_icmp6: "length b = 32 \<Longrightarrow> emit_icmp6 (get_icmp6 b) = b"
  by (simp add: emit_icmp6_def get_icmp6_def field_bits pieces)

lemma length_emit_icmp6 [simp]: "length (emit_icmp6 h) = 32"
  by (simp add: emit_icmp6_def)

lemma emit_get_bb: "length b = 320 \<Longrightarrow> emit_bb (get_bb b) = b"
  by (simp add: emit_bb_def get_bb_def field_bits pieces)

lemma length_emit_bb [simp]: "length (emit_bb h) = 320"
  by (simp add: emit_bb_def)

lemma emit_get_bb_alloc: "length b = 64 \<Longrightarrow> emit_bb_alloc (get_bb_alloc b) = b"
  by (simp add: emit_bb_alloc_def get_bb_alloc_def field_bits pieces)

lemma length_emit_bb_alloc [simp]: "length (emit_bb_alloc h) = 64"
  by (simp add: emit_bb_alloc_def)

lemma emit_get_ipv4: "length b = 160 \<Longrightarrow> emit_ipv4 (get_ipv4 b) = b"
  by (simp add: emit_ipv4_def get_ipv4_def field_bits pieces)

lemma length_emit_ipv4 [simp]: "length (emit_ipv4 h) = 160"
  by (simp add: emit_ipv4_def)

lemma emit_get_ipv6: "length b = 320 \<Longrightarrow> emit_ipv6 (get_ipv6 b) = b"
  by (simp add: emit_ipv6_def get_ipv6_def field_bits pieces)

lemma length_emit_ipv6 [simp]: "length (emit_ipv6 h) = 320"
  by (simp add: emit_ipv6_def)

lemma emit_get_tcp: "length b = 160 \<Longrightarrow> emit_tcp (get_tcp b) = b"
  by (simp add: emit_tcp_def get_tcp_def field_bits pieces)

lemma length_emit_tcp [simp]: "length (emit_tcp h) = 160"
  by (simp add: emit_tcp_def)

lemma emit_get_thrift: "length b = 224 \<Longrightarrow> emit_thrift (get_thrift b) = b"
  by (simp add: emit_thrift_def get_thrift_def field_bits pieces)

lemma length_emit_thrift [simp]: "length (emit_thrift h) = 224"
  by (simp add: emit_thrift_def)

lemma emit_get_thrift_ip: "length b = 184 \<Longrightarrow> emit_thrift_ip (get_thrift_ip b) = b"
  by (simp add: emit_thrift_ip_def get_thrift_ip_def field_bits pieces)

lemma length_emit_thrift_ip [simp]: "length (emit_thrift_ip h) = 184"
  by (simp add: emit_thrift_ip_def)

lemma emit_get_udp: "length b = 64 \<Longrightarrow> emit_udp (get_udp b) = b"
  by (simp add: emit_udp_def get_udp_def field_bits pieces)

lemma length_emit_udp [simp]: "length (emit_udp h) = 64"
  by (simp add: emit_udp_def)

section \<open>The deparser undoes the parser\<close>

lemmas emit_get = emit_get_ethernet emit_get_arp emit_get_icmp6 emit_get_bb emit_get_bb_alloc emit_get_ipv4 emit_get_ipv6 emit_get_tcp
  emit_get_thrift emit_get_thrift_ip emit_get_udp

text \<open>A parse state keeps the bits: what is parsed and what is left are together what was there.\<close>

definition keeps :: "(headers \<Rightarrow> bool) \<Rightarrow> (headers \<Rightarrow> bool list \<Rightarrow> parsed) \<Rightarrow> bool" where
  "keeps ok st \<longleftrightarrow> (\<forall>h b. ok h \<longrightarrow> (case st h b of (h', r, e) \<Rightarrow> MyDeparser h' @ r = MyDeparser h @ b))"

lemma keeps_accept: "keeps ok accept"
  by (simp add: keeps_def accept_def)

lemma keeps_extract:
  assumes "\<And>h b. ok h \<Longrightarrow> length b = n \<Longrightarrow> MyDeparser (sto b h) = MyDeparser h @ b"
    and "\<And>h b. ok h \<Longrightarrow> length b = n \<Longrightarrow> ok' (sto b h)" "keeps ok' k"
  shows "keeps ok (p4_extract n sto k)"
  unfolding keeps_def
proof (intro allI impI)
  fix h b
  assume h: "ok h"
  show "case p4_extract n sto k h b of (h', r, e) \<Rightarrow> MyDeparser h' @ r = MyDeparser h @ b"
  proof (cases "length b < n")
    case True
    then show ?thesis by (simp add: p4_extract_def)
  next
    case False
    then have l: "length (take n b) = n" by simp
    have "case k (sto (take n b) h) (drop n b) of (h', r, e) \<Rightarrow> MyDeparser h' @ r = MyDeparser (sto (take n b) h) @ drop n b"
      using assms(3) assms(2) [OF h l] by (simp add: keeps_def)
    then show ?thesis using False assms(1) [OF h l] by (auto simp: p4_extract_def)
  qed
qed

abbreviation last_tcp :: "headers \<Rightarrow> bool" where "last_tcp h \<equiv> h_tcp h = None"
abbreviation last_thrift_ip :: "headers \<Rightarrow> bool" where "last_thrift_ip h \<equiv> last_tcp h \<and> h_thrift_ip h = None"
abbreviation last_thrift :: "headers \<Rightarrow> bool" where "last_thrift h \<equiv> last_thrift_ip h \<and> h_thrift h = None"
abbreviation last_udp :: "headers \<Rightarrow> bool" where "last_udp h \<equiv> last_thrift h \<and> h_udp h = None"
abbreviation last_alloc :: "headers \<Rightarrow> bool" where "last_alloc h \<equiv> last_udp h \<and> h_bb_alloc h = None"
abbreviation last_bb :: "headers \<Rightarrow> bool" where "last_bb h \<equiv> last_alloc h \<and> h_bb h = None"
abbreviation last_ipv4 :: "headers \<Rightarrow> bool" where "last_ipv4 h \<equiv> last_bb h \<and> h_ipv4 h = None"
abbreviation last_icmp6 :: "headers \<Rightarrow> bool" where "last_icmp6 h \<equiv> last_ipv4 h \<and> h_icmp6 h = None"
abbreviation last_ipv6 :: "headers \<Rightarrow> bool" where "last_ipv6 h \<equiv> last_icmp6 h \<and> h_ipv6 h = None"
abbreviation last_arp :: "headers \<Rightarrow> bool" where "last_arp h \<equiv> last_ipv6 h \<and> h_arp h = None"
abbreviation last_ethernet :: "headers \<Rightarrow> bool" where "last_ethernet h \<equiv> last_arp h \<and> h_ethernet h = None"

lemma keeps_tcp: "keeps last_tcp parse_tcp"
  unfolding parse_tcp_def by (rule keeps_extract [OF _ _ keeps_accept]) (simp_all add: MyDeparser_def emit_def emit_get)

lemma keeps_thrift_ip: "keeps last_thrift_ip parse_thrift_ip"
  unfolding parse_thrift_ip_def by (rule keeps_extract [OF _ _ keeps_accept]) (simp_all add: MyDeparser_def emit_def emit_get)

lemma keeps_alloc: "keeps last_alloc parse_bb_alloc"
  unfolding parse_bb_alloc_def by (rule keeps_extract [OF _ _ keeps_accept]) (simp_all add: MyDeparser_def emit_def emit_get)

lemma keeps_ndp: "keeps last_icmp6 parse_ndp"
  unfolding parse_ndp_def by (rule keeps_extract [OF _ _ keeps_accept]) (simp_all add: MyDeparser_def emit_def emit_get)

lemma keeps_arp: "keeps last_arp parse_arp"
  unfolding parse_arp_def by (rule keeps_extract [OF _ _ keeps_accept]) (simp_all add: MyDeparser_def emit_def emit_get)

lemma keeps_if: "keeps ok a \<Longrightarrow> keeps ok b \<Longrightarrow> keeps ok (\<lambda>h bs. if c h then a h bs else b h bs)"
  by (simp add: keeps_def)

lemma keeps_weaken: "keeps ok a \<Longrightarrow> (\<And>h. ok' h \<Longrightarrow> ok h) \<Longrightarrow> keeps ok' a"
  by (simp add: keeps_def)

lemma keeps_thrift: "keeps last_thrift parse_thrift"
  unfolding parse_thrift_def
  by (rule keeps_extract [OF _ _ keeps_if [OF keeps_thrift_ip keeps_accept]]) (simp_all add: MyDeparser_def emit_def emit_get)

lemma keeps_udp: "keeps last_udp parse_udp"
  unfolding parse_udp_def by (rule keeps_extract [OF _ _ keeps_thrift]) (simp_all add: MyDeparser_def emit_def emit_get)

lemma keeps_bb: "keeps last_bb parse_bb"
  unfolding parse_bb_def Let_def
  by (rule keeps_extract [OF _ _ keeps_if [OF keeps_alloc keeps_accept]]) (simp_all add: MyDeparser_def emit_def emit_get)

lemma keeps_ipv4: "keeps last_ipv4 parse_ipv4"
proof -
  have k: "keeps last_bb parse_tcp" "keeps last_bb parse_udp"
    by (rule keeps_weaken [OF keeps_tcp], simp, rule keeps_weaken [OF keeps_udp], simp)
  show ?thesis unfolding parse_ipv4_def Let_def
    by (rule keeps_extract [OF _ _ keeps_if [OF k(1) keeps_if [OF k(2) keeps_accept]]]) (simp_all add: MyDeparser_def emit_def emit_get)
qed

lemma keeps_ipv6: "keeps last_ipv6 parse_ipv6"
proof -
  have k: "keeps last_icmp6 parse_tcp" "keeps last_icmp6 parse_udp"
    by (rule keeps_weaken [OF keeps_tcp], simp, rule keeps_weaken [OF keeps_udp], simp)
  show ?thesis unfolding parse_ipv6_def Let_def
    by (rule keeps_extract [OF _ _ keeps_if [OF k(1) keeps_if [OF k(2) keeps_if [OF keeps_ndp keeps_accept]]]]) (simp_all add: MyDeparser_def emit_def emit_get)
qed

lemma keeps_ethernet: "keeps last_ethernet parse_ethernet"
proof -
  have k: "keeps last_arp parse_ipv4" "keeps last_arp parse_ipv6" "keeps last_arp parse_bb"
    by (rule keeps_weaken [OF keeps_ipv4], simp, rule keeps_weaken [OF keeps_ipv6], simp, rule keeps_weaken [OF keeps_bb], simp)
  show ?thesis unfolding parse_ethernet_def Let_def
    by (rule keeps_extract [OF _ _ keeps_if [OF keeps_arp keeps_if [OF k(1) keeps_if [OF k(2) keeps_if [OF k(3) keeps_accept]]]]]) (simp_all add: MyDeparser_def emit_def emit_get)
qed

lemma parser_keeps:
  assumes "MyParser b = (h, r, e)"
  shows "MyDeparser h @ r = b"
proof -
  have "case parse_ethernet no_headers b of (h', r, e) \<Rightarrow> MyDeparser h' @ r = MyDeparser no_headers @ b"
    using keeps_ethernet unfolding keeps_def by (simp add: no_headers_def)
  moreover have "MyDeparser no_headers = []" by (simp add: MyDeparser_def no_headers_def emit_def)
  ultimately show ?thesis using assms by (simp add: MyParser_def)
qed

section \<open>The frames of the raw backend\<close>

lemma length_bytes_bits [simp]: "length (bytes_bits bs) = 8 * length bs"
  by (induction bs) (simp_all add: bytes_bits_def)

lemma bytes_bits_Nil [simp]: "bytes_bits [] = []"
  by (simp add: bytes_bits_def)

lemma bytes_bits_append: "bytes_bits (xs @ ys) = bytes_bits xs @ bytes_bits ys"
  by (simp add: bytes_bits_def)

lemma take_bytes_bits: "take (8 * n) (bytes_bits bs) = bytes_bits (take n bs)"
proof (cases "n \<le> length bs")
  case True
  have "bytes_bits bs = bytes_bits (take n bs) @ bytes_bits (drop n bs)" by (simp flip: bytes_bits_append)
  then show ?thesis using True by simp
qed simp

lemma drop_bytes_bits: "drop (8 * n) (bytes_bits bs) = bytes_bits (drop n bs)"
proof (cases "n \<le> length bs")
  case True
  have "bytes_bits bs = bytes_bits (take n bs) @ bytes_bits (drop n bs)" by (simp flip: bytes_bits_append)
  then show ?thesis using True by simp
qed simp

lemma field_bytes:
  assumes "off = 8 * k" "LENGTH('a) = 8 * m"
  shows "field off (bytes_bits bs) = (bits_word (bytes_bits (slice bs k m)) :: 'a::len word)"
  unfolding field_def assms by (simp only: drop_bytes_bits take_bytes_bits slice_def)

text \<open>The address of a block as the switch sees it, and the fixed fields of the template of \<^verbatim>\<open>configure_tx\<close>.\<close>

definition addr_key :: "ip6_memaddr \<Rightarrow> 128 word" where
  "addr_key a = bits_word (bytes_bits (memaddr_bytes a))"

definition udp_template :: "bytes \<Rightarrow> bool" where
  "udp_template ef \<longleftrightarrow> length ef = IP_MAXPACKET \<and> slice ef 12 2 = [0x86, 0xdd] \<and> slice ef 20 1 = [17]"

lemma slice_one: "i < length xs \<Longrightarrow> slice xs i 1 = [xs ! i]"
  by (rule nth_equalityI) (simp_all add: slice_def)

lemma list_update_two: "Suc i < length xs \<Longrightarrow> take 2 (drop i (xs[i := a, Suc i := b])) = [a, b]"
  by (rule nth_equalityI) (auto simp: less_2_cases_iff nth_list_update)

lemma configure_tx_udp:
  assumes "configure_tx ifindex ip0 udp0 cfg st = Inr (iface, st')"
    and "length (ether_frame st) = IP_MAXPACKET" "length ip0 = 40" "length udp0 = 8"
  shows "udp_template (ether_frame st')"
proof -
  let ?g = "blit (blit (ether_frame st) 0 [0xff, 0xff, 0xff, 0xff, 0xff, 0xff]) 6 [0xa0, 0x36, 0x9f, 0x45, 0xd8, 0x74]"
  let ?f = "?g[12 := 0x86, 13 := 0xdd]"
  let ?h = "blit (blit ip0 8 (memaddr_bytes (src_addr cfg))) 0 (le_bytes 4 (htonl (push_bit 28 6)))"
  let ?ip = "?h[6 := 17, 7 := 255]"
  let ?udp = "blit udp0 0 (le_bytes 2 (htons (htons (src_port cfg) + of_nat (thread_id_tx st))))"
  have st': "ether_frame st' = blit (blit ?f 14 ?ip) 54 ?udp"
    using assms(1) by (auto simp: configure_tx_def Let_def hdr_defs split: if_splits)
  have l: "length ?g = IP_MAXPACKET" "length ?f = IP_MAXPACKET" "length ?h = 40" "length ?ip = 40" "length ?udp = 8"
    using assms by (simp_all add: IP_MAXPACKET_def)
  have "slice (ether_frame st') 12 2 = slice ?f 12 2" using l by (simp add: st' slice_blit_other IP_MAXPACKET_def)
  also have "\<dots> = [0x86, 0xdd]" using list_update_two [of 12 ?g "0x86" "0xdd"] l(1) by (simp add: slice_def IP_MAXPACKET_def)
  finally have eth: "slice (ether_frame st') 12 2 = [0x86, 0xdd]" .
  have "slice (ether_frame st') 20 1 = slice (slice (blit ?f 14 ?ip) 14 40) 6 1"
    using l by (simp add: st' slice_blit_other slice_slice IP_MAXPACKET_def)
  also have "\<dots> = slice ?ip 6 1" using l by (simp add: slice_blit_same IP_MAXPACKET_def)
  also have "\<dots> = [17]" using slice_one [of 6 ?ip] l(3) by simp
  finally show ?thesis using eth l by (simp add: udp_template_def st' IP_MAXPACKET_def)
qed

lemma frame_parse:
  assumes "udp_template ef"
  shows "\<exists>h ip. MyParser (bytes_bits (frame_image ef pkt)) = parse_thrift h (bytes_bits (data pkt)) \<and>
    h_arp h = None \<and> h_ipv4 h = None \<and> h_icmp6 h = None \<and> h_thrift h = None \<and> h_thrift_ip h = None \<and>
    h_ipv6 h = Some ip \<and> ip6_dstAddr ip = addr_key (dst_addr pkt)"
proof -
  let ?f = "frame_image ef pkt"
  have ef: "length ef = IP_MAXPACKET" "slice ef 12 2 = [0x86, 0xdd]" "slice ef 20 1 = [17]"
    using assms by (simp_all add: udp_template_def)
  have len: "length ?f = 62 + length (data pkt)" using ef(1) by (simp add: length_frame_image)
  have s: "slice ?f 12 2 = [0x86, 0xdd]" "slice ?f 20 1 = [17]" "drop 62 ?f = data pkt"
    using ef by (simp_all add: frame_image_def slice_def drop_take IP_MAXPACKET_def)
  have a: "slice ?f 38 16 = memaddr_bytes (dst_addr pkt)" by (rule frame_image_slices(2) [OF ef(1)])
  have t: "take 112 (bytes_bits ?f) = bytes_bits (take 14 ?f)" "drop 112 (bytes_bits ?f) = bytes_bits (drop 14 ?f)"
    "take 320 (bytes_bits (drop 14 ?f)) = bytes_bits (slice ?f 14 40)" "drop 320 (bytes_bits (drop 14 ?f)) = bytes_bits (drop 54 ?f)"
    "drop 64 (bytes_bits (drop 54 ?f)) = bytes_bits (drop 62 ?f)"
    using take_bytes_bits [of 14 ?f] drop_bytes_bits [of 14 ?f] take_bytes_bits [of 40 "drop 14 ?f"] drop_bytes_bits [of 40 "drop 14 ?f"]
      drop_bytes_bits [of 8 "drop 54 ?f"] by (simp_all add: slice_def)
  have "field 96 (bytes_bits (take 14 ?f)) = (bits_word (bytes_bits (slice ?f 12 2)) :: u16)"
    using field_bytes [of 96 12 2 "take 14 ?f", where 'a = 16] by (simp add: slice_def drop_take)
  also have "\<dots> = 0x86dd" unfolding s(1) by code_simp
  finally have eth: "eth_etherType (get_ethernet (bytes_bits (take 14 ?f))) = 0x86dd" by (simp add: get_ethernet_def)
  have "field 48 (bytes_bits (slice ?f 14 40)) = (bits_word (bytes_bits (slice ?f 20 1)) :: u8)"
    using field_bytes [of 48 6 1 "slice ?f 14 40", where 'a = 8] slice_slice [of 6 1 40 ?f 14] by simp
  also have "\<dots> = 17" unfolding s(2) by code_simp
  finally have nxt: "ip6_nextHdr (get_ipv6 (bytes_bits (slice ?f 14 40))) = 17" by (simp add: get_ipv6_def)
  have dst: "ip6_dstAddr (get_ipv6 (bytes_bits (slice ?f 14 40))) = addr_key (dst_addr pkt)"
    using field_bytes [of 192 24 16 "slice ?f 14 40", where 'a = 128] slice_slice [of 24 16 40 ?f 14] a
    by (simp add: get_ipv6_def addr_key_def)
  show ?thesis
    using len eth nxt dst
    by (intro exI) (auto simp: MyParser_def parse_ethernet_def parse_ipv6_def parse_udp_def p4_extract_def t s(3) Let_def no_headers_def)
qed

lemma word_bits_inj: "word_bits a = word_bits b \<Longrightarrow> a = b"
  using bits_word_bits by metis

lemma rpc_version_bytes:
  assumes "2 \<le> length bs"
  shows "(field 0 (bytes_bits bs) :: u16) = 0x8001 \<longleftrightarrow> take 2 bs = [0x80, 0x01]"
proof -
  obtain a b rest where bs: "bs = a # b # rest" using assms by (cases bs; cases "tl bs") auto
  have f: "(field 0 (bytes_bits bs) :: u16) = bits_word (bytes_bits [a, b])"
    using field_bytes [of 0 0 2 bs, where 'a = 16] by (simp add: bs slice_def)
  have k: "word_bits (0x8001 :: u16) = bytes_bits [0x80, 0x01]" by code_simp
  show ?thesis
  proof
    assume "(field 0 (bytes_bits bs) :: u16) = 0x8001"
    then have "word_bits (bits_word (bytes_bits [a, b]) :: u16) = bytes_bits [0x80, 0x01]" using f k by simp
    then have "bytes_bits [a, b] = bytes_bits [0x80, 0x01]" by (simp add: word_bits_word)
    then have "word_bits a @ word_bits b = word_bits (0x80 :: u8) @ word_bits (0x01 :: u8)"
      by (simp only: bytes_bits_def list.map concat.simps append_Nil2)
    then have "word_bits a = word_bits (0x80 :: u8)" "word_bits b = word_bits (0x01 :: u8)"
      by (simp_all only: append_eq_append_conv length_word_bits simp_thms)
    from word_bits_inj [OF this(1)] word_bits_inj [OF this(2)] show "take 2 bs = [0x80, 0x01]" by (simp add: bs)
  next
    assume "take 2 bs = [0x80, 0x01]"
    then have "[a, b] = [0x80, 0x01]" by (simp add: bs)
    then show "(field 0 (bytes_bits bs) :: u16) = 0x8001" unfolding f using k [symmetric] by (simp only: bits_word_bits)
  qed
qed

definition looks_like_rpc :: "bytes \<Rightarrow> bool" where
  "looks_like_rpc d \<longleftrightarrow> 28 \<le> length d \<and> take 2 d = [0x80, 0x01]"

lemma parse_thrift_version:
  assumes "28 \<le> length d"
  shows "take 224 (bytes_bits d) = bytes_bits (take 28 d)"
    "rpc_version (get_thrift (bytes_bits (take 28 d))) = 0x8001 \<longleftrightarrow> looks_like_rpc d"
  using take_bytes_bits [of 28 d] rpc_version_bytes [of "take 28 d"] assms by (simp_all add: get_thrift_def looks_like_rpc_def)

lemma parse_thrift_plain:
  assumes "\<not> looks_like_rpc d" "h_thrift h = None"
  shows "\<exists>th r e. parse_thrift h (bytes_bits d) = (h\<lparr>h_thrift := th\<rparr>, r, e) \<and> (th \<noteq> None \<longrightarrow> rpc_version (the th) \<noteq> 0x8001)"
proof (cases "28 \<le> length d")
  case True
  then show ?thesis
    using assms parse_thrift_version [OF True] by (auto simp: parse_thrift_def p4_extract_def accept_def intro!: exI)
next
  case False
  then show ?thesis using assms(2) by (auto simp: parse_thrift_def p4_extract_def intro!: exI [of _ None])
qed

text \<open>What the table of IPv6 routes does with a packet.\<close>

fun routed :: "(nat \<times> fwd) option \<Rightarrow> bool list \<Rightarrow> fate" where
  "routed None b = Unicast 0 b"
| "routed (Some (n, FwdDrop)) b = Dropped"
| "routed (Some (n, Fwd port)) b = (if port = 511 then Dropped else Unicast port b)"

lemma fate_routed:
  "fate_of (p_meta (apply_fwd (map_option snd r) \<lparr>p_hdr = h, p_meta = \<lparr>egress_spec = 0, mcast_grp = 0\<rparr>, p_digests = []\<rparr>)) b = routed r b"
  by (cases "(r, b)" rule: routed.cases) (auto simp: apply_fwd_def fate_of_def p4_drop_def forward_def)

lemma apply_fwd_hdr [simp]: "p_hdr (apply_fwd r p) = p_hdr p" "p_digests (apply_fwd r p) = p_digests p"
  by (auto simp: apply_fwd_def p4_drop_def forward_def split: option.splits fwd.splits)

lemma switch_plain:
  assumes "udp_template ef" "\<not> looks_like_rpc (data pkt)"
  shows "V1Switch t u (bytes_bits (frame_image ef pkt)) =
    (routed (lpm (ipv6_tbl t) (addr_key (dst_addr pkt))) (bytes_bits (frame_image ef pkt)), [])"
proof -
  obtain h ip where h: "MyParser (bytes_bits (frame_image ef pkt)) = parse_thrift h (bytes_bits (data pkt))"
      "h_arp h = None" "h_ipv4 h = None" "h_icmp6 h = None" "h_thrift h = None" "h_ipv6 h = Some ip" "ip6_dstAddr ip = addr_key (dst_addr pkt)"
    using frame_parse [OF assms(1), of pkt] by blast
  obtain th r e where th: "parse_thrift h (bytes_bits (data pkt)) = (h\<lparr>h_thrift := th\<rparr>, r, e)"
      "th \<noteq> None \<longrightarrow> rpc_version (the th) \<noteq> 0x8001"
    using parse_thrift_plain [OF assms(2) h(5)] by blast
  have out: "MyDeparser (h\<lparr>h_thrift := th\<rparr>) @ r = bytes_bits (frame_image ef pkt)"
    by (rule parser_keeps) (simp add: h(1) th(1))
  show ?thesis
    using h th out by (auto simp: V1Switch_def MyIngress_def apply_ipv6_def Let_def fate_routed)
qed

lemma lpm_None: "lpm es key = None \<longleftrightarrow> (\<forall>v n r. (v, n, r) \<in> set es \<longrightarrow> \<not> prefix_match v n key)"
proof (induction es key rule: lpm.induct)
  case (2 v m q es key)
  then show ?case by (cases "lpm es key") (auto split: if_splits)
qed simp

lemma lpm_longest:
  "lpm es key = Some (n, r) \<Longrightarrow> (\<exists>v. (v, n, r) \<in> set es \<and> prefix_match v n key) \<and>
     (\<forall>v' n' r'. (v', n', r') \<in> set es \<longrightarrow> prefix_match v' n' key \<longrightarrow> n' \<le> n)"
proof (induction es key arbitrary: n r rule: lpm.induct)
  case (2 v m q es key)
  show ?case
  proof (cases "lpm es key")
    case None
    then have "\<forall>v n r. (v, n, r) \<in> set es \<longrightarrow> \<not> prefix_match v n key" by (simp add: lpm_None)
    then show ?thesis using "2.prems" None by (auto split: if_splits)
  next
    case (Some x)
    obtain k p where x: "x = (k, p)" by fastforce
    note IH = "2.IH" [OF Some [unfolded x]]
    show ?thesis using "2.prems" Some x IH by (auto split: if_splits) (meson order_trans)
  qed
qed simp

lemma switch_rpc:
  assumes "udp_template ef" "looks_like_rpc (data pkt)" "slice (data pkt) 2 2 = [0, 1]"
    and "map_of (thrift_tbl t) (bits_word (bytes_bits (slice (data pkt) 8 16))) = None"
  shows "\<exists>d. V1Switch t u (bytes_bits (frame_image ef pkt)) = (Unicast 0 (bytes_bits (frame_image ef pkt)), [d])"
proof -
  let ?d = "data pkt" let ?th = "get_thrift (bytes_bits (take 28 ?d))"
  obtain h where h: "MyParser (bytes_bits (frame_image ef pkt)) = parse_thrift h (bytes_bits ?d)" "h_arp h = None"
    using frame_parse [OF assms(1), of pkt] by blast
  have len: "28 \<le> length ?d" using assms(2) by (simp add: looks_like_rpc_def)
  have v: "rpc_version ?th = 0x8001" using parse_thrift_version(2) [OF len] assms(2) by simp
  have "rpc_ttype ?th = bits_word (bytes_bits (slice ?d 2 2))" "rpc_name ?th = bits_word (bytes_bits (slice ?d 8 16))"
    using field_bytes [of 16 2 2 "take 28 ?d", where 'a = 16] field_bytes [of 64 8 16 "take 28 ?d", where 'a = 128]
    by (simp_all add: get_thrift_def slice_def drop_take)
  moreover have "(bits_word (bytes_bits [0, 1]) :: u16) = 1" by code_simp
  ultimately have th: "rpc_ttype ?th = 1" "rpc_name ?th = bits_word (bytes_bits (slice ?d 8 16))" using assms(3) by simp_all
  obtain tip r e where p: "parse_thrift h (bytes_bits ?d) = (h\<lparr>h_thrift := Some ?th, h_thrift_ip := tip\<rparr>, r, e)"
    using len v parse_thrift_version(1) [OF len]
    by (cases "length (drop 224 (bytes_bits ?d)) < 184")
      (auto simp: parse_thrift_def parse_thrift_ip_def p4_extract_def accept_def intro: that [of "h_thrift_ip h"])
  have out: "MyDeparser (h\<lparr>h_thrift := Some ?th, h_thrift_ip := tip\<rparr>) @ r = bytes_bits (frame_image ef pkt)"
    by (rule parser_keeps) (simp add: h(1) p)
  show ?thesis
    using h p out v th assms(4)
    by (auto simp: V1Switch_def MyIngress_def apply_thrift_def update_access_thrift_def Let_def fate_of_def)
qed

section \<open>Properties\<close>

text \<open>
  C19: The deparser undoes the parser: for every packet, of whatever protocol and however short, the headers found, written
  out in the order of the deparser, and the rest behind them are the bits that came in. So a packet leaves the
  switch as it came unless ingress changes a header.
\<close>

theorem deparser_undoes_parser:
  "case MyParser packet of (h, rest, err) \<Rightarrow> MyDeparser h @ rest = packet"
  using parser_keeps by (auto split: prod.splits)

text \<open>
  C8: The frames of BlueBridge are routed by the address of the block. What \<^verbatim>\<open>prepare_packet\<close> puts into the ring leaves the
  switch bit for bit unchanged, by the port of the longest prefix of the destination in the IPv6 table, and the control plane
  is told nothing; unless the data is at least as long as a Thrift header and starts like one.
\<close>

theorem switch_routes_frames:
  assumes "configure_tx ifindex ip0 udp0 cfg st0 = Inr (iface, st)" "tx_ok st0" "length ip0 = 40" "length udp0 = 8"
    and "pkt_fits pkt" "\<not> looks_like_rpc (data pkt)"
  shows "\<exists>st' frame. prepare_packet pkt st = Inr st' \<and> slot_frame (slot_bytes (ring_tx st') (ring_offset st)) = frame \<and>
    V1Switch t u (bytes_bits frame) = (routed (lpm (ipv6_tbl t) (addr_key (dst_addr pkt))) (bytes_bits frame), [])"
proof -
  have ef: "length (ether_frame st0) = IP_MAXPACKET" using assms(2) by (simp add: tx_ok_def)
  note cfg = configure_tx_template [OF assms(1) ef assms(3,4)]
  have ok: "tx_ok st" using assms(2) cfg(1,4,5) by (simp add: tx_ok_def)
  obtain st' where "prepare_packet pkt st = Inr st'"
    "slot_frame (slot_bytes (ring_tx st') (ring_offset st)) = frame_image (ether_frame st) pkt"
    using prepare_packet_ok [OF ok assms(5)] by metis
  then show ?thesis using switch_plain [OF configure_tx_udp [OF assms(1) ef assms(3,4)] assms(6)] by auto
qed

definition sample_tables :: tables where
  "sample_tables = \<lparr>ipv4_tbl = [], ipv6_tbl = [(0, 0, Fwd 3)], bb_acl_tbl = [], bb_fwd_tbl = [], thrift_tbl = []\<rparr>"

definition sample_undef :: undef where
  "sample_undef = \<lparr>u_ipv6 = get_ipv6 [], u_thrift_ip = get_thrift_ip []\<rparr>"

lemma sample_configured: "\<exists>iface st. configure_tx 1 (replicate 40 0xcc) (replicate 8 0xcc) sample_cfg sample_tx = Inr (iface, st)"
  by (simp add: configure_tx_def Let_def)

theorem switch_routes_frames_witness:
  "\<exists>iface st st' frame. configure_tx 1 (replicate 40 0xcc) (replicate 8 0xcc) sample_cfg sample_tx = Inr (iface, st) \<and>
     prepare_packet sample_pkt st = Inr st' \<and> slot_frame (slot_bytes (ring_tx st') (ring_offset st)) = frame \<and>
     V1Switch sample_tables sample_undef (bytes_bits frame) = (Unicast 3 (bytes_bits frame), [])"
proof -
  obtain iface st where c: "configure_tx 1 (replicate 40 0xcc) (replicate 8 0xcc) sample_cfg sample_tx = Inr (iface, st)"
    using sample_configured by blast
  have "\<not> looks_like_rpc (data sample_pkt)" by (simp add: looks_like_rpc_def sample_pkt_def)
  then show ?thesis
    using c switch_routes_frames [OF c sample_tx_ok length_replicate length_replicate sample_pkt_fits, of sample_tables sample_undef]
    by (auto simp: sample_tables_def prefix_match_def)
qed



end
