(* ===== verification/BB_Return.thy ===== *)
theory BB_Return
  imports BB_Threads BB_Disk BB_Rpc
begin

text \<open>
  Memory is given back. What a process holds on the servers is a list of blocks that were free when it
  started. Allocations add to the list, transfers keep it, and when every block is freed the servers have
  the memory they had.
\<close>

section \<open>What a process holds\<close>

definition outside :: "(ip6_memaddr \<times> nat) list \<Rightarrow> u16 \<Rightarrow> u64 \<Rightarrow> bool" where
  "outside hs s x \<longleftrightarrow> (\<forall>(a, k)\<in>set hs. \<not> (s = subid a \<and> in_range (paddr a) k x))"

definition held :: "(u16 \<Rightarrow> bool) \<Rightarrow> rview \<Rightarrow> cluster \<Rightarrow> ip6_memaddr \<Rightarrow> nat \<Rightarrow> bool" where
  "held host v0 n a k \<longleftrightarrow>
     host (subid a) \<and> paddr a \<noteq> 0 \<and> 0 < k \<and> on_books n a = Some k \<and> (\<forall>x. in_range (paddr a) k x \<longrightarrow> v0 (subid a) x = None)"

text \<open>\<open>v0\<close> is the memory of the servers before, \<open>hs\<close> the blocks with their lengths.\<close>

definition holding :: "(u16 \<Rightarrow> bool) \<Rightarrow> rview \<Rightarrow> (ip6_memaddr \<times> nat) list \<Rightarrow> cluster \<Rightarrow> bool" where
  "holding host v0 hs n \<longleftrightarrow>
     (\<forall>(a, k)\<in>set hs. held host v0 n a k) \<and> distinct (map (\<lambda>(a, k). (subid a, paddr a)) hs) \<and>
     (\<forall>s x. outside hs s x \<longrightarrow> cluster_view n s x = v0 s x)"

lemma holding_nil: "holding host v0 [] n \<longleftrightarrow> cluster_view n = v0"
  by (auto simp: holding_def outside_def fun_eq_iff)

lemma holding_same:
  assumes "holding host v0 hs n" "same_books n n'" "cluster_ok host n'"
    and "\<And>s x. outside hs s x \<Longrightarrow> cluster_view n' s x = cluster_view n s x"
  shows "holding host v0 hs n'"
proof -
  have "held host v0 n' a k" if "(a, k) \<in> set hs" for a k
  proof -
    have "held host v0 n a k" using assms(1) that by (auto simp: holding_def)
    then show ?thesis using same_books_on [OF assms(2,3), of a] by (simp add: held_def)
  qed
  then show ?thesis using assms(1,4) by (auto simp: holding_def)
qed

lemma books_mapped:
  assumes "cluster_ok host n" "host (subid a)" "on_books n a = Some k" "in_range (paddr a) k x"
  shows "cluster_view n (subid a) x \<noteq> None"
proof -
  obtain h where h: "servers n (subid a) = Some h" "heap_ok h" using cluster_host [OF assms(1,2)] by auto
  then show ?thesis using assms(3,4) heap_ok_dom [OF h(2), of x] by (auto simp: on_books_def cluster_view_def)
qed

lemma held_place: "held host v0 n b k \<Longrightarrow> subid b = subid a \<Longrightarrow> paddr b = paddr a \<Longrightarrow> held host v0 n a k"
  by (simp add: held_def on_books_def cong: option.case_cong)

lemma outside_place:
  "map (\<lambda>(a, k). (subid a, paddr a, k)) hs = map (\<lambda>(a, k). (subid a, paddr a, k)) gs \<Longrightarrow> outside hs s x = outside gs s x"
proof -
  have "outside fs s x = (\<forall>(t, p, k)\<in>set (map (\<lambda>(a, k). (subid a, paddr a, k)) fs). \<not> (s = t \<and> in_range p k x))" for fs
    by (auto simp: outside_def)
  then show "map (\<lambda>(a, k). (subid a, paddr a, k)) hs = map (\<lambda>(a, k). (subid a, paddr a, k)) gs \<Longrightarrow> outside hs s x = outside gs s x"
    by (simp only:)
qed

lemma holding_place:
  assumes "map (\<lambda>(a, k). (subid a, paddr a, k)) hs = map (\<lambda>(a, k). (subid a, paddr a, k)) gs" "holding host v0 gs n"
  shows "holding host v0 hs n"
proof -
  have d: "map (\<lambda>(a, k). (subid a, paddr a)) hs = map (\<lambda>(a, k). (subid a, paddr a)) gs"
    using arg_cong [OF assms(1), of "map (\<lambda>(s, p, k). (s, p))"] by (simp add: case_prod_unfold comp_def)
  have "held host v0 n a k" if ak: "(a, k) \<in> set hs" for a k
  proof -
    have "(subid a, paddr a, k) \<in> set (map (\<lambda>(a, k). (subid a, paddr a, k)) gs)" unfolding assms(1) [symmetric] using ak by force
    then obtain b where "(b, k) \<in> set gs" "subid b = subid a" "paddr b = paddr a" by auto
    moreover have "held host v0 n b k" using assms(2) calculation(1) by (auto simp: holding_def)
    ultimately show ?thesis by (blast intro: held_place)
  qed
  then show ?thesis using assms(2) outside_place [OF assms(1)] d by (auto simp: holding_def)
qed

text \<open>An allocation that is granted.\<close>

lemma holding_add:
  assumes "holding host v0 hs n" "cluster_ok host n" "host (subid a)" "paddr a \<noteq> 0" "0 < k"
    and "on_books n' a = Some k" "\<And>b. subid b \<noteq> subid a \<or> paddr b \<noteq> paddr a \<Longrightarrow> on_books n' b = on_books n b"
    and free: "\<And>x. in_range (paddr a) k x \<Longrightarrow> cluster_view n (subid a) x = None"
    and other: "\<And>s x. s \<noteq> subid a \<or> \<not> in_range (paddr a) k x \<Longrightarrow> cluster_view n' s x = cluster_view n s x"
  shows "holding host v0 (hs @ [(a, k)]) n'"
proof -
  have h: "held host v0 n b j" if "(b, j) \<in> set hs" for b j using assms(1) that by (auto simp: holding_def)
  have new: "subid b \<noteq> subid a \<or> paddr b \<noteq> paddr a" if b: "(b, j) \<in> set hs" for b j
  proof -
    have "cluster_view n (subid b) (paddr b) \<noteq> None"
      using h [OF b] books_mapped [OF assms(2), of b j "paddr b"] by (simp add: held_def in_range_first)
    then show ?thesis using free [of "paddr a"] assms(5) by (auto simp: in_range_first)
  qed
  have "v0 (subid a) x = None" if x: "in_range (paddr a) k x" for x
  proof (cases "outside hs (subid a) x")
    case True
    then have "cluster_view n (subid a) x = v0 (subid a) x" using assms(1) by (auto simp: holding_def)
    then show ?thesis using free [OF x] by simp
  next
    case False
    then show ?thesis using h by (auto simp: outside_def held_def)
  qed
  then have "held host v0 n' a k" using assms(3-6) by (simp add: held_def)
  moreover have "held host v0 n' b j" if "(b, j) \<in> set hs" for b j
    using h [OF that] assms(7) [OF new [OF that]] by (simp add: held_def)
  moreover have "cluster_view n' s x = v0 s x" if "outside (hs @ [(a, k)]) s x" for s x
    using that other [of s x] assms(1) by (auto simp: outside_def holding_def)
  moreover have "(subid a, paddr a) \<notin> set (map (\<lambda>(b, j). (subid b, paddr b)) hs)" using new by fastforce
  ultimately show ?thesis using assms(1) by (simp add: holding_def) auto
qed

text \<open>The first block is freed.\<close>

lemma holding_free:
  assumes "holding host v0 ((a, k) # hs) n" "\<And>b. subid b \<noteq> subid a \<or> paddr b \<noteq> paddr a \<Longrightarrow> on_books n' b = on_books n b"
    and "cluster_view n' = (cluster_view n)(subid a := \<lambda>x. if in_range (paddr a) k x then None else cluster_view n (subid a) x)"
  shows "holding host v0 hs n'"
proof -
  have "on_books n' b = on_books n b" if "(b, j) \<in> set hs" for b j
    using assms(1) assms(2) [of b] that by (force simp: holding_def)
  then have "held host v0 n' b j" if "(b, j) \<in> set hs" for b j using assms(1) that by (auto simp: holding_def held_def)
  moreover have "cluster_view n' s x = v0 s x" if "outside hs s x" for s x
    using that assms(1) by (auto simp: assms(3) holding_def outside_def held_def)
  ultimately show ?thesis using assms(1) by (auto simp: holding_def)
qed

lemma free_held:
  assumes "holding host v0 ((a, k) # hs) (cl_net c)" "client_idle host c" "sin6_port tgt = t_port topo"
  shows "\<exists>tgt' a' c'. free_rmem (cluster_net topo pick) tgt a c = Inr (tgt', a', c') \<and> client_idle host c' \<and> cl_mem c' = cl_mem c \<and>
    sin6_port tgt' = t_port topo \<and> holding host v0 hs (cl_net c')"
proof -
  have a: "host (subid a)" "on_books (cl_net c) a = Some k" "paddr a \<noteq> 0" using assms(1) by (simp_all add: holding_def held_def)
  from free_rmem_ok [OF assms(2,3) a] obtain tgt' a' c' where f: "free_rmem (cluster_net topo pick) tgt a c = Inr (tgt', a', c')"
      "client_idle host c'" "cl_mem c' = cl_mem c" "sin6_port tgt' = t_port topo"
      "cluster_view (cl_net c') = (cluster_view (cl_net c))(subid a := \<lambda>x. if in_range (paddr a) k x then None else cluster_view (cl_net c) (subid a) x)"
      "\<forall>b. subid b \<noteq> subid a \<or> paddr b \<noteq> paddr a \<longrightarrow> on_books (cl_net c') b = on_books (cl_net c) b"
    by blast
  have "holding host v0 hs (cl_net c')" by (rule holding_free [OF assms(1) _ f(5)]) (use f(6) in blast)
  with f(1-4) show ?thesis by blast
qed

section \<open>Allocations\<close>

text \<open>What the answer of an allocation is worth: a server that has no memory answers with the null address.\<close>

lemma alloc_request:
  assumes "client_idle host c" "sin6_port tgt = t_port topo" "servers (cl_net c) (subid (sin6_addr tgt)) = Some h"
    and "0 < k" "k < 2 ^ 64"
    and "request_blocks (cluster_net topo pick) tgt (of_nat k) c = Inr (ra, tgt', c')" "paddr ra \<noteq> 0"
  shows "region_free h (pick h k) k"
proof (rule ccontr)
  assume no: "\<not> region_free h (pick h k) k"
  have k: "unat (of_nat k :: u64) = k" "(of_nat k :: u64) \<noteq> 0"
    using assms(4,5) by (auto simp: unat_of_nat take_bit_nat_eq_self word_of_nat_eq_0_iff dest: nat_dvd_not_less)
  have p: "payload_u64 (le_bytes 8 (of_nat k :: u64)) = Inr (of_nat k)" by (simp add: payload_u64_def)
  have run: "process_request pick (t_client topo) ((sin6_addr tgt)\<lparr>cmd := ALLOC_BULK_CMD\<rparr>) (le_bytes 8 (of_nat k :: u64)) sz h =
      reply h (set_return_id (t_client topo) ALLOC_BULK_CMD 0) []" for sz
    using no assms(4) k by (simp add: process_request_cmd p allocate_mem_bulk_def calloc_def Let_def)
  have "inbox (cl_net c) = []" using assms(1) by (simp add: client_idle_def)
  then have "paddr ra = 0"
    using assms(2,3,6) run
    by (auto simp: request_blocks_def set_cmd_def Let_def c_send_def send_udp_raw_def cluster_net_def cluster_send_def
        reply_def set_return_id_def rcv_udp6_raw_def cluster_recv_def answer_def)
  then show False using assms(7) by simp
qed

lemma holding_request:
  assumes "client_idle host c" "sin6_port tgt = t_port topo" "host (subid (sin6_addr tgt))" "0 < k" "k < 2 ^ 64"
    and "request_blocks (cluster_net topo pick) tgt (of_nat k) c = Inr (ra, tgt', c')" "paddr ra \<noteq> 0"
    and "subid ra = subid (sin6_addr tgt)" "holding host v0 hs (cl_net c)"
  shows "holding host v0 (hs @ [(ra, k)]) (cl_net c')"
proof -
  have ok: "cluster_ok host (cl_net c)" using assms(1) by (simp add: client_idle_def)
  obtain h where h: "servers (cl_net c) (subid (sin6_addr tgt)) = Some h" using cluster_host [OF ok assms(3)] by auto
  note free = alloc_request [OF assms(1,2) h assms(4-7)]
  note ex = request_blocks_exact [OF assms(1,2) h free assms(4-6)]
  show ?thesis
  proof (rule holding_add [OF assms(9) ok _ assms(7,4)])
    show "host (subid ra)" using assms(3,8) by simp
    show "on_books (cl_net c') ra = Some k" unfolding on_books_def ex(2) using ex(1) assms(8) by simp
    show "on_books (cl_net c') b = on_books (cl_net c) b" if "subid b \<noteq> subid ra \<or> paddr b \<noteq> paddr ra" for b
      unfolding on_books_def ex(2) using that ex(1) assms(8) h by auto
    show "cluster_view (cl_net c) (subid ra) x = None" if "in_range (paddr ra) k x" for x
      using region_free_in_range [OF free, of x] that ex(1) assms(8) h by (simp add: cluster_view_def)
    show "cluster_view (cl_net c') s x = cluster_view (cl_net c) s x" if "s \<noteq> subid ra \<or> \<not> in_range (paddr ra) k x" for s x
      unfolding cluster_view_def ex(2) using that ex(1) assms(8) h by auto
  qed
qed

section \<open>Remote memory\<close>

text \<open>The blocks of remote memory: one for each host, with the share of that host.\<close>

definition share_len :: "nat \<Rightarrow> nat \<Rightarrow> nat \<Rightarrow> nat \<Rightarrow> nat" where
  "share_len split nh n i = (if i = nh - 1 then n - split * i else split)"

definition rmem_shares :: "nat \<Rightarrow> nat \<Rightarrow> ip6_memaddr list \<Rightarrow> nat list \<Rightarrow> (ip6_memaddr \<times> nat) list" where
  "rmem_shares split nh l is = map (\<lambda>i. (l ! (split * i), share_len split nh (length l) i)) is"

text \<open>The addresses of a share count up from the first.\<close>

definition runs :: "nat \<Rightarrow> nat \<Rightarrow> ip6_memaddr list \<Rightarrow> nat \<Rightarrow> bool" where
  "runs split nh l k \<longleftrightarrow> (\<forall>i<k. \<forall>j<(share_len split nh (length l) i).
     subid (l ! (split * i + j)) = subid (l ! (split * i)) \<and> paddr (l ! (split * i + j)) = paddr (l ! (split * i)) + of_nat j)"

lemma share_end:
  assumes "split * nh \<le> n" "k < nh"
  shows "split * k + share_len split nh n k = blocks_before split nh n (Suc k)" "split * k + share_len split nh n k \<le> n"
    "i < k \<Longrightarrow> j < share_len split nh n i \<Longrightarrow> split * i + j < split * k"
proof -
  have "split * k + split \<le> split * nh" using mult_le_mono2 [of "Suc k" nh split] assms(2) by simp
  then show "split * k + share_len split nh n k = blocks_before split nh n (Suc k)" "split * k + share_len split nh n k \<le> n"
    using assms by (auto simp: blocks_before_def share_len_def)
  show "split * i + j < split * k" if "i < k" "j < share_len split nh n i"
    using mult_le_mono2 [of "Suc i" k split] that assms(2) by (simp add: share_len_def split: if_splits)
qed

lemma runs_extend:
  assumes "runs split nh l k" "split * nh \<le> n" "k < nh" "length l = n" "length l' = n"
    and "take (split * k + share_len split nh n k) l' = take (split * k) l @ map (block_addr ra) [0..<share_len split nh n k]"
  shows "runs split nh l' (Suc k)" "\<And>i. i < k \<Longrightarrow> 0 < split \<Longrightarrow> l' ! (split * i) = l ! (split * i)"
    "0 < share_len split nh n k \<Longrightarrow> l' ! (split * k) = block_addr ra 0"
proof -
  let ?off = "split * k" and ?len = "share_len split nh n k"
  note se = share_end [OF assms(2,3)]
  have at: "l' ! x = (take ?off l @ map (block_addr ra) [0..<?len]) ! x" if "x < ?off + ?len" for x
    using nth_take [OF that, of l'] unfolding assms(6) by simp
  have low: "l' ! x = l ! x" if "x < ?off" for x using at [of x] that se(2) assms(4) by (simp add: nth_append)
  have high: "l' ! (?off + j) = block_addr ra j" if "j < ?len" for j using at [of "?off + j"] that se(2) assms(4) by (simp add: nth_append)
  show "runs split nh l' (Suc k)" unfolding runs_def assms(5)
  proof (intro allI impI)
    fix i j assume i: "i < Suc k" and j: "j < share_len split nh n i"
    show "subid (l' ! (split * i + j)) = subid (l' ! (split * i)) \<and> paddr (l' ! (split * i + j)) = paddr (l' ! (split * i)) + of_nat j"
    proof (cases "i = k")
      case True
      then show ?thesis using high [of j] high [of 0] j by (simp add: block_addr_def BLOCK_SIZE_def)
    next
      case False
      then have "i < k" using i by simp
      moreover have "split * i < split * k" by (rule le_less_trans [OF le_add1 se(3) [OF \<open>i < k\<close> j]])
      ultimately show ?thesis using low se(3) j assms(1,4) by (simp add: runs_def)
    qed
  qed
  show "l' ! (split * i) = l ! (split * i)" if "i < k" "0 < split" for i using low that by simp
  show "0 < ?len \<Longrightarrow> l' ! ?off = block_addr ra 0" using high [of 0] by simp
qed

lemma fill_holds:
  fixes topo pick host
  defines "net \<equiv> cluster_net topo pick"
  assumes hosts: "\<forall>i<nh. i < length (hostList hl) \<and> host (subid (hostList hl ! i))" "nh \<le> 256"
    and n: "0 < split" "split * nh \<le> n" "n < 2 ^ 64"
    and c: "client_idle host c" and r: "sin6_port (rm_target r) = t_port topo" "rm_nblocks r = n" "length (rm_list r) = n"
    and k: "k \<le> nh" and run: "fill_rmem net hl split nh [k..<nh] r c = Inr (r', c')"
    and granted: "\<forall>i<nh. paddr (rm_list r' ! (split * i)) \<noteq> 0"
    and hold: "holding host v0 (rmem_shares split nh (rm_list r) [0..<k]) (cl_net c)" "runs split nh (rm_list r) k"
  shows "holding host v0 (rmem_shares split nh (rm_list r') [0..<nh]) (cl_net c') \<and> runs split nh (rm_list r') nh"
  using c r k run hold
proof (induction "nh - k" arbitrary: k r c)
  case 0
  then show ?case by simp
next
  case (Suc x)
  then have kn: "k < nh" and x: "x = nh - Suc k" by auto
  define len where "len = share_len split nh n k"
  note se = share_end [OF n(2) kn, folded len_def]
  have len: "0 < len" "len < 2 ^ 64" "unat (of_nat len :: u64) = len"
    using n kn se mult_le_mono2 [of "Suc k" nh split] by (auto simp: len_def share_len_def unat_of_nat)
  let ?ip = "hostList hl ! k" let ?tgt = "(rm_target r)\<lparr>sin6_addr := ?ip\<rparr>"
  have ip: "get_ip6_target hl (of_nat k) = Inr ?ip" "host (subid ?ip)"
    using hosts kn by (simp_all add: get_ip6_target_def unat_of_nat)
  obtain ra tgt1 c1 where req: "request_blocks net ?tgt (of_nat len) c = Inr (ra, tgt1, c1)" "subid ra = subid ?ip"
      "sin6_port tgt1 = t_port topo" "client_idle host c1"
    using cm.request_blocks_ok [of host c ?tgt topo pick "of_nat len"] Suc.prems(1,2) ip(2)
    unfolding net_def client_idle_ready by auto
  let ?temp = "map (block_addr ra) [0..<len]"
  let ?r1 = "r\<lparr>rm_target := tgt1, rm_list := blit (rm_list r) (split * k) ?temp\<rparr>"
  have step: "fill_rmem net hl split nh [Suc k..<nh] ?r1 c1 = Inr (r', c')"
    using Suc.prems(6) unfolding upt_conv_Cons [OF kn] fill_rmem.simps(2) Let_def Suc.prems(3) share_len_def [symmetric] len_def [symmetric]
    using ip(1) req(1) len(3) by (simp add: allocate_bulk_rmem_def)
  have r1: "sin6_port (rm_target ?r1) = t_port topo" "rm_nblocks ?r1 = n" "length (rm_list ?r1) = n"
    using req(3) Suc.prems(3,4) se(2) by simp_all
  have pre: "take (split * k + len) (rm_list ?r1) = take (split * k) (rm_list r) @ ?temp" using se(2) Suc.prems(4) by (simp add: blit_def)
  obtain q c2 where q: "fill_rmem net hl split nh [Suc k..<nh] ?r1 c1 = Inr (q, c2)" "length (rm_list q) = n"
      "take (blocks_before split nh n (Suc k)) (rm_list q) = take (blocks_before split nh n (Suc k)) (rm_list ?r1)"
    using fill_rmem_ok [OF hosts n(2,3) req(4) r1 Suc_leI [OF kn], of pick] unfolding net_def by blast
  have keep: "take (split * k + len) (rm_list r') = take (split * k) (rm_list r) @ ?temp" "length (rm_list r') = n"
    using step q unfolding pre [symmetric] se(1) by simp_all
  note new = runs_extend [OF Suc.prems(8) n(2) kn Suc.prems(4), folded len_def, OF r1(3) pre]
  have "rm_list r' ! (split * k) = block_addr ra 0"
    using runs_extend(3) [OF Suc.prems(8) n(2) kn Suc.prems(4), folded len_def, OF keep(2,1) len(1)] .
  then have nz: "paddr ra \<noteq> 0" using granted kn by (auto simp: block_addr_def)
  have "holding host v0 (rmem_shares split nh (rm_list r) [0..<k] @ [(ra, len)]) (cl_net c1)"
    using holding_request [OF Suc.prems(1) _ _ len(1,2) req(1) [unfolded net_def] nz _ Suc.prems(7)] Suc.prems(2) ip(2) req(2) by simp
  then have "holding host v0 (rmem_shares split nh (rm_list ?r1) [0..<Suc k]) (cl_net c1)"
    using r1(3) Suc.prems(4) new(2,3) n(1) len(1)
    by (elim holding_place [rotated]) (simp add: rmem_shares_def len_def block_addr_def)
  then show ?case using Suc.hyps(1) [OF x req(4) r1 _ step _ new(1)] kn by simp
qed

lemma free_holds:
  assumes "client_idle host c" "sin6_port (rm_target r) = t_port topo" "0 < split" "distinct is" "\<forall>i\<in>set is. split * i < length (rm_list r)"
    and "holding host v0 (rmem_shares split nh (rm_list r) is) (cl_net c)"
  shows "\<exists>r' c'. free_hosts (cluster_net topo pick) split is r c = Inr (r', c') \<and> client_idle host c' \<and> cl_mem c' = cl_mem c \<and>
    cluster_view (cl_net c') = v0"
  using assms
proof (induction "is" arbitrary: r c)
  case Nil
  then show ?case by (simp add: rmem_shares_def holding_nil)
next
  case (Cons i "is")
  let ?a = "rm_list r ! (split * i)"
  have h: "holding host v0 ((?a, share_len split nh (length (rm_list r)) i) # rmem_shares split nh (rm_list r) is) (cl_net c)"
    using Cons.prems(6) by (simp add: rmem_shares_def)
  from free_held [OF h Cons.prems(1,2)] obtain tgt' a' c1
    where f: "free_rmem (cluster_net topo pick) (rm_target r) ?a c = Inr (tgt', a', c1)" "client_idle host c1" "cl_mem c1 = cl_mem c"
      "sin6_port tgt' = t_port topo" "holding host v0 (rmem_shares split nh (rm_list r) is) (cl_net c1)"
    by blast
  let ?r = "r\<lparr>rm_target := tgt', rm_list := (rm_list r)[split * i := a']\<rparr>"
  have "rmem_shares split nh (rm_list ?r) is = rmem_shares split nh (rm_list r) is"
    using Cons.prems(3,4) by (auto simp: rmem_shares_def intro!: nth_list_update_neq)
  then show ?case using Cons.IH [of c1 ?r] f Cons.prems(3-5) by simp
qed

text \<open>Every block lies in the share of a host.\<close>

lemma share_of:
  assumes "runs split nh l nh" "0 < split" "0 < nh" "split * nh \<le> length l" "length l < 2 ^ 64" "p < length l"
  shows "\<not> outside (rmem_shares split nh l [0..<nh]) (subid (l ! p)) (paddr (l ! p))"
proof -
  define i where "i = min (p div split) (nh - 1)"
  define j where "j = p - split * i"
  have "split * i \<le> split * (p div split)" by (simp add: i_def)
  also have "\<dots> \<le> p" by (rule times_div_less_eq_dividend)
  finally have p: "p = split * i + j" by (simp add: j_def)
  have i: "i < nh" using assms(3) by (auto simp: i_def)
  have j: "j < share_len split nh (length l) i"
  proof (cases "i = nh - 1")
    case True
    then show ?thesis using assms(6) p by (simp add: share_len_def)
  next
    case False
    then have "i = p div split" by (simp add: i_def min_def split: if_splits)
    then have "j = p mod split" by (simp add: j_def minus_mult_div_eq_mod)
    then show ?thesis using False assms(2) by (simp add: share_len_def)
  qed
  have "unat (of_nat j :: u64) = j" using p assms(5,6) by (simp add: unat_of_nat)
  then have "subid (l ! p) = subid (l ! (split * i))" "in_range (paddr (l ! (split * i))) (share_len split nh (length l) i) (paddr (l ! p))"
    using assms(1) i j p by (simp_all add: runs_def in_range_def)
  then show ?thesis using i by (force simp: outside_def rmem_shares_def)
qed

lemma shares_place: "same_place l' l \<Longrightarrow> \<forall>i\<in>set is. split * i < length l \<Longrightarrow>
   map (\<lambda>(a, k). (subid a, paddr a, k)) (rmem_shares split nh l' is) = map (\<lambda>(a, k). (subid a, paddr a, k)) (rmem_shares split nh l is)"
  using same_place_nth [of l' l] by (auto simp: rmem_shares_def)

lemma runs_place:
  assumes "same_place l' l" "runs split nh l nh" "split * nh \<le> length l"
  shows "runs split nh l' nh"
proof -
  note sp = same_place_nth [OF assms(1)]
  have "split * i + j < length l" if "i < nh" "j < share_len split nh (length l) i" for i j
    using share_end(2) [OF assms(3) that(1)] that(2) by simp
  moreover from this have "split * i < length l" if "i < nh" "j < share_len split nh (length l) i" for i j
    using that by (meson add_lessD1)
  ultimately show ?thesis using assms(2) by (simp add: runs_def sp)
qed

section \<open>The store keeps what it holds\<close>

definition keeps_shares :: "(u16 \<Rightarrow> bool) \<Rightarrow> rview \<Rightarrow> nat \<Rightarrow> nat \<Rightarrow> ip6_memaddr list \<Rightarrow> cluster \<Rightarrow> bool" where
  "keeps_shares host v0 split nh l n \<longleftrightarrow>
     holding host v0 (rmem_shares split nh l [0..<nh]) n \<and> runs split nh l nh \<and>
     0 < split \<and> 0 < nh \<and> split * nh \<le> length l \<and> length l < 2 ^ 64"

lemma keeps_frame:
  assumes "keeps_shares host v0 split nh l n" "same_place l' l" "same_books n n'" "cluster_ok host n'"
    and "\<And>s x. outside (rmem_shares split nh l [0..<nh]) s x \<Longrightarrow> cluster_view n' s x = cluster_view n s x"
  shows "keeps_shares host v0 split nh l' n'"
proof -
  have l: "0 < split" "0 < nh" "split * nh \<le> length l" "length l < 2 ^ 64" "runs split nh l nh"
      "holding host v0 (rmem_shares split nh l [0..<nh]) n"
    using assms(1) by (simp_all add: keeps_shares_def)
  have "split * i < length l" if "i < nh" for i
    using less_le_trans [of "split * i" "split * nh" "length l"] l(1,3) that by simp
  then have "\<forall>i\<in>set [0..<nh]. split * i < length l" by simp
  from holding_place [OF shares_place [OF assms(2) this, of nh] holding_same [OF l(6) assms(3,4)]] assms(5)
  have "holding host v0 (rmem_shares split nh l' [0..<nh]) n'" by blast
  then show ?thesis using l runs_place [OF assms(2) l(5,3)] same_place_nth(1) [OF assms(2)] by (simp add: keeps_shares_def)
qed

lemma put_in_share:
  assumes "keeps_shares host v0 split nh l n" "p < length l" "length d = BLOCK_SIZE" "outside (rmem_shares split nh l [0..<nh]) s x"
  shows "put_chunk v (l ! p, d) s x = v s x"
proof -
  have "\<not> outside (rmem_shares split nh l [0..<nh]) (subid (l ! p)) (paddr (l ! p))"
    using share_of [of split nh l p] assms(1,2) by (simp add: keeps_shares_def)
  then have "s \<noteq> subid (l ! p) \<or> x \<noteq> paddr (l ! p)" using assms(4) by auto
  then show ?thesis using assms(3) by (auto simp: put_chunk_def overwrite_def in_range_def BLOCK_SIZE_def unat_eq_zero)
qed

lemma place_upd:
  assumes "subid a = subid (as ! i)" "paddr a = paddr (as ! i)"
  shows "same_place (as[i := a]) as"
proof (cases "i < length as")
  case True
  then show ?thesis using assms by (simp add: same_place_def map_update list_update_same_conv)
qed (simp add: list_update_beyond)

definition rmem_kept :: "topology \<Rightarrow> (u16 \<Rightarrow> bool) \<Rightarrow> u64 \<Rightarrow> nat \<Rightarrow> rview \<Rightarrow> nat \<Rightarrow> nat \<Rightarrow> cluster backends \<Rightarrow> bool" where
  "rmem_kept topo host dst nb v0 split nh b \<longleftrightarrow>
     rmem_sinv topo host dst nb b \<and> keeps_shares host v0 split nh (rm_list (bk_rmem b)) (cl_net (bk_client b))"

lemma rmem_read_frame:
  assumes "rmem_sinv topo host dst nb b" "p < nb" "store_read RMEM_PAGING (cluster_net topo pick) dst p b = Inr (bs, b')"
  shows "same_books (cl_net (bk_client b)) (cl_net (bk_client b'))" "same_place (rm_list (bk_rmem b')) (rm_list (bk_rmem b))"
    "cluster_view (cl_net (bk_client b')) = cluster_view (cl_net (bk_client b))"
proof -
  let ?r = "bk_rmem b" and ?c = "bk_client b"
  let ?a = "rm_list ?r ! p"
  have inv: "cm.ready host ?c" "sin6_port (rm_target ?r) = t_port topo" "mapped (cl_mem ?c) dst BLOCK_SIZE"
      "host (subid ?a)" "rmapped (cluster_view (cl_net ?c)) ?a BLOCK_SIZE"
    using assms(1,2) by (simp_all add: rmem_sinv_def client_idle_ready remote_blocks_def)
  obtain k tgt' a' c' where c': "read_rmem (cluster_net topo pick) (rm_target ?r) ?a dst (of_nat BLOCK_SIZE) ?c = Inr (k, tgt', a', c')"
      "b' = b\<lparr>bk_rmem := ?r\<lparr>rm_target := tgt', rm_list := (rm_list ?r)[p := a']\<rparr>, bk_client := c'\<rparr>"
    using assms(3) by (auto simp: rmem_read_def split: if_splits)
  have "unat (of_nat BLOCK_SIZE :: u16) = BLOCK_SIZE" "BLOCK_SIZE \<le> MAX_DATA" by (simp_all add: BLOCK_SIZE_def MAX_DATA_def)
  with cm.read_rmem_ok [OF inv(1,2,4), of "of_nat BLOCK_SIZE" dst pick] inv(3,5) c'(1)
  have a': "subid a' = subid ?a" "paddr a' = paddr ?a" "cluster_view (cl_net c') = cluster_view (cl_net ?c)" by auto
  show "same_books (cl_net ?c) (cl_net (bk_client b'))" using read_rmem_books [OF c'(1)] c'(2) by simp
  show "same_place (rm_list (bk_rmem b')) (rm_list ?r)" using place_upd [OF a'(1,2)] c'(2) by simp
  show "cluster_view (cl_net (bk_client b')) = cluster_view (cl_net ?c)" using a'(3) c'(2) by simp
qed

lemma rmem_write_frame:
  assumes "rmem_sinv topo host dst nb b" "p < nb" "length d = BLOCK_SIZE" "store_write RMEM_PAGING (cluster_net topo pick) p d b = Inr b'"
  shows "same_books (cl_net (bk_client b)) (cl_net (bk_client b'))" "same_place (rm_list (bk_rmem b')) (rm_list (bk_rmem b))"
    "cluster_view (cl_net (bk_client b')) = put_chunk (cluster_view (cl_net (bk_client b))) (rm_list (bk_rmem b) ! p, d)"
proof -
  let ?r = "bk_rmem b" and ?c = "bk_client b"
  let ?a = "rm_list ?r ! p"
  have inv: "cm.ready host ?c" "sin6_port (rm_target ?r) = t_port topo" "host (subid ?a)" "rmapped (cluster_view (cl_net ?c)) ?a (length d)"
    using assms(1-3) by (simp_all add: rmem_sinv_def client_idle_ready remote_blocks_def)
  obtain tgt' a' c' where c': "write_rmem (cluster_net topo pick) (rm_target ?r) ?a d ?c = Inr (tgt', a', c')"
      "b' = b\<lparr>bk_rmem := ?r\<lparr>rm_target := tgt', rm_list := (rm_list ?r)[p := a']\<rparr>, bk_client := c'\<rparr>"
    using assms(3,4) by (auto simp: rmem_write_def split: if_splits)
  have "length d \<le> MAX_DATA" using assms(3) by (simp add: BLOCK_SIZE_def MAX_DATA_def)
  with cm.write_rmem_ok [OF inv, of pick] c'(1)
  have a': "subid a' = subid ?a" "paddr a' = paddr ?a" "cluster_view (cl_net c') = put_chunk (cluster_view (cl_net ?c)) (?a, d)" by auto
  show "same_books (cl_net ?c) (cl_net (bk_client b'))" using write_rmem_books [OF c'(1)] c'(2) by simp
  show "same_place (rm_list (bk_rmem b')) (rm_list ?r)" using place_upd [OF a'(1,2)] c'(2) by simp
  show "cluster_view (cl_net (bk_client b')) = put_chunk (cluster_view (cl_net ?c)) (?a, d)" using a'(3) c'(2) by simp
qed

lemma rmem_sinv_ok: "rmem_sinv topo host dst nb b \<Longrightarrow> cluster_ok host (cl_net (bk_client b)) \<and> length (rm_list (bk_rmem b)) = nb"
  by (simp add: rmem_sinv_def client_idle_def)

interpretation kept_bs: block_store "pager_of RMEM_PAGING (cluster_net topo pick) dst" rmem_content "rmem_kept topo host dst nb v0 split nh" nb
  for topo pick host dst nb v0 split nh
proof
  fix b :: "cluster backends" and p and d :: bytes
  assume "rmem_kept topo host dst nb v0 split nh b" and p: "p < nb"
  then have b: "rmem_sinv topo host dst nb b" "keeps_shares host v0 split nh (rm_list (bk_rmem b)) (cl_net (bk_client b))"
    by (simp_all add: rmem_kept_def)
  show "length (rmem_content b p) = BLOCK_SIZE" by (rule rmem_bs.content_len [OF b(1) p])
  obtain b1 where b1: "pg_read (pager_of RMEM_PAGING (cluster_net topo pick) dst) p b = Inr (rmem_content b p, b1)"
      "rmem_sinv topo host dst nb b1" "\<forall>q<nb. rmem_content b1 q = rmem_content b q"
    using rmem_bs.read_ok [OF b(1) p] by blast
  note f = rmem_read_frame [OF b(1) p b1(1) [unfolded pager_of_def pager.simps]]
  have "keeps_shares host v0 split nh (rm_list (bk_rmem b1)) (cl_net (bk_client b1))"
    by (rule keeps_frame [OF b(2) f(2,1)]) (use rmem_sinv_ok [OF b1(2)] f(3) in simp_all)
  then show "\<exists>b'. pg_read (pager_of RMEM_PAGING (cluster_net topo pick) dst) p b = Inr (rmem_content b p, b') \<and>
      rmem_kept topo host dst nb v0 split nh b' \<and> (\<forall>q<nb. rmem_content b' q = rmem_content b q)"
    using b1 by (auto simp: rmem_kept_def)
  show "\<exists>b'. pg_write (pager_of RMEM_PAGING (cluster_net topo pick) dst) p d b = Inr b' \<and>
      rmem_kept topo host dst nb v0 split nh b' \<and> rmem_content b' p = d \<and> (\<forall>q<nb. q \<noteq> p \<longrightarrow> rmem_content b' q = rmem_content b q)"
    if d: "length d = BLOCK_SIZE"
  proof -
    obtain b2 where b2: "pg_write (pager_of RMEM_PAGING (cluster_net topo pick) dst) p d b = Inr b2" "rmem_sinv topo host dst nb b2"
        "rmem_content b2 p = d" "\<forall>q<nb. q \<noteq> p \<longrightarrow> rmem_content b2 q = rmem_content b q"
      using rmem_bs.write_ok [OF b(1) p d] by blast
    note f = rmem_write_frame [OF b(1) p d b2(1) [unfolded pager_of_def pager.simps]]
    have "keeps_shares host v0 split nh (rm_list (bk_rmem b2)) (cl_net (bk_client b2))"
      by (rule keeps_frame [OF b(2) f(2,1)]) (use rmem_sinv_ok [OF b2(2)] rmem_sinv_ok [OF b(1)] f(3) put_in_share [OF b(2) _ d] p in simp_all)
    then show ?thesis using b2 by (auto simp: rmem_kept_def)
  qed
qed

section \<open>Cleaning up\<close>

lemma hash_finite:
  assumes "hash_ok nf h m"
  shows "finite (dom m)"
proof -
  have h: "finite (dom (hnodes h))" "holds_map (hnodes h) m" using assms by (auto simp: hash_ok_def hash_rep_def)
  have "dom m \<subseteq> hkey ` ran (hnodes h)" using holds_mapD2 [OF h(2)] by (fastforce intro: ranI)
  then show ?thesis using finite_ran [OF h(1)] by (meson finite_imageI finite_subset)
qed

lemma bucket_first:
  assumes "hash_ok nf h m" "i < nf"
  shows "\<exists>b. bucket h i = Inr b \<and> (bhead b \<noteq> 0 \<longrightarrow> (\<exists>n. deref (hnodes h) (bhead b) = Inr n \<and> hkey n \<in> dom m))"
proof -
  obtain B where B: "hash_rep nf h B" "holds_map (hnodes h) m" using assms(1) by (auto simp: hash_ok_def)
  have b: "bucket h i = Inr (buckets h ! i)" "chain hnext (hnodes h) (bhead (buckets h ! i)) (B ! i)"
    using B(1) assms(2) by (simp_all add: hash_rep_def bucket_def)
  have "\<exists>n. deref (hnodes h) (bhead (buckets h ! i)) = Inr n \<and> hkey n \<in> dom m" if "bhead (buckets h ! i) \<noteq> 0"
    using b(2) that B(2) by (cases "B ! i") (auto simp: deref_def holds_map_def)
  then show ?thesis using b(1) by blast
qed

lemma clean_bucket_ok:
  assumes "hash_ok nf h m" "i < nf"
  shows "\<exists>h' m'. clean_bucket nf i h = Some (Inr h') \<and> hash_ok nf h' m'"
  using assms(1)
proof (induction "card (dom m)" arbitrary: h m rule: less_induct)
  case less
  obtain b where b: "bucket h i = Inr b" "bhead b \<noteq> 0 \<longrightarrow> (\<exists>n. deref (hnodes h) (bhead b) = Inr n \<and> hkey n \<in> dom m)"
    using bucket_first [OF less.prems assms(2)] by blast
  show ?case
  proof (cases "bhead b = 0")
    case True
    then show ?thesis using b(1) less.prems by (subst clean_bucket.simps) auto
  next
    case False
    then obtain n where n: "deref (hnodes h) (bhead b) = Inr n" "hkey n \<in> dom m" using b(2) by blast
    obtain h1 where h1: "deleteHashNode nf (hkey n) h = Inr h1" "hash_ok nf h1 (m(hkey n := None))" using delete_hash_ok [OF less.prems] .
    have "card (dom (m(hkey n := None))) < card (dom m)"
      using n(2) hash_finite [OF less.prems] by (simp add: card_Diff1_less del: card_Diff_insert)
    from less.hyps [OF this h1(2)] show ?thesis using b(1) False n(1) h1(1) by (subst clean_bucket.simps) simp
  qed
qed

lemma clean_buckets_ok:
  "hash_ok nf h m \<Longrightarrow> \<forall>i\<in>set is. i < nf \<Longrightarrow> \<exists>h'. clean_buckets nf is h = Inr h'"
proof (induction "is" arbitrary: h m)
  case (Cons i "is")
  obtain b where b: "bucket h i = Inr b" using bucket_first [OF Cons.prems(1), of i] Cons.prems(2) by auto
  obtain h1 m1 where h1: "clean_bucket nf i h = Some (Inr h1)" "hash_ok nf h1 m1" using clean_bucket_ok [OF Cons.prems(1), of i] Cons.prems(2) by auto
  show ?case using b h1 Cons.IH [OF Cons.prems(1)] Cons.IH [OF h1(2)] Cons.prems(2) by (simp add: ended_def)
qed simp

lemma clean_policy_ok:
  assumes "vm_inv p al content sinv nb s A"
  shows "\<exists>P. clean_policy p (nframes s) (pol s) = Inr P"
proof (cases p)
  case RAND
  then show ?thesis using assms clean_buckets_ok [of "nframes s" "hashT (pol s)" _ "[0..<nframes s]"]
    by (fastforce simp: policy_inv_def list_inv_def rand_inv_def)
next
  case LFU
  then have "lfu_inv al (nframes s) (pol s) A" using assms by (simp add: policy_inv_def list_inv_def)
  from lfu.clean_list_ok [OF this, of "\<lambda>P. qcount (freq P)" "deleteLFU (nframes s) 0"] LFU show ?thesis
    by (auto simp: lfu_size_def lfu_evict_def ended_def)
next
  case LRU
  then have "lru_inv al (nframes s) (pol s) A" using assms by (simp add: policy_inv_def list_inv_def)
  from lru.clean_list_ok [OF this, of "\<lambda>P. dcount (dll P)" "deleteLRU (nframes s) 0"] LRU show ?thesis
    by (auto simp: lru_size_def lru_evict_def ended_def)
next
  case FFIFO
  then have "lru_inv al (nframes s) (pol s) A" using assms by (simp add: policy_inv_def list_inv_def)
  from lru.clean_list_ok [OF this, of "\<lambda>P. dcount (dll P)" "deleteLRU (nframes s) 0"] FFIFO show ?thesis
    by (auto simp: lru_size_def lru_evict_def ended_def)
qed simp

section \<open>From start to end\<close>

lemma vm_inv_store: "vm_inv p al content sinv nb s A \<Longrightarrow> sinv (backing s)"
  by (cases p) (simp_all add: policy_inv_def list_inv_def fifo_inv_def vm_core_def)

lemma rmem_allocate_keeps:
  assumes "client_idle host c" "hosts_serve host hl" "sin6_port tgt = t_port topo" "n < 2 ^ 64" "get_num_hosts hl \<le> int n"
    and "rmem_allocate (cluster_net topo pick) hl tgt junk n c = Inr (r, c')" "shares_granted hl r"
  shows "keeps_shares host (cluster_view (cl_net c)) (n div nat (get_num_hosts hl)) (nat (get_num_hosts hl)) (rm_list r) (cl_net c')"
proof -
  define nh where "nh = nat (get_num_hosts hl)"
  have nh: "0 < nh" "nh \<le> 256" "\<forall>i<nh. i < length (hostList hl) \<and> host (subid (hostList hl ! i))" "nh \<le> n"
    using assms(2,5) by (simp_all add: hosts_serve_def nh_def nat_le_iff)
  have sp: "0 < n div nh" "n div nh * nh \<le> n" using nh(1,4) by (simp_all add: div_greater_zero_iff)
  let ?r0 = "\<lparr>rm_target = tgt, rm_list = replicate n junk, rm_nblocks = n\<rparr>"
  have run: "fill_rmem (cluster_net topo pick) hl (n div nh) nh [0..<nh] ?r0 c = Inr (r, c')"
    using assms(6) nh(1) by (simp add: rmem_allocate_def Let_def flip: nh_def)
  have r: "rm_nblocks r = n" "length (rm_list r) = n" using rmem_allocate_ok [OF assms(1-4), of pick junk] assms(6) by auto
  have "n div nh * i < n" if "i < nh" for i
    using less_le_trans [of "n div nh * i" "n div nh * nh" n] sp that by simp
  then have g: "\<forall>i<nh. paddr (rm_list r ! (n div nh * i)) \<noteq> 0" using assms(7) r(1) by (simp add: shares_granted_def Let_def flip: nh_def)
  have "holding host (cluster_view (cl_net c)) (rmem_shares (n div nh) nh (rm_list ?r0) [0..<0]) (cl_net c)" "runs (n div nh) nh (rm_list ?r0) 0"
    by (simp_all add: rmem_shares_def holding_nil runs_def)
  with fill_holds [OF nh(3,2) sp assms(4,1) _ _ _ le0 run g] assms(3) show ?thesis
    using sp nh(1) r(2) assms(4) by (simp add: keeps_shares_def flip: nh_def)
qed

lemma rmem_deallocate_ok:
  assumes "client_idle host c" "sin6_port (rm_target r) = t_port topo" "nh = nat (get_num_hosts hl)" "rm_nblocks r = length (rm_list r)"
    and "keeps_shares host v0 (rm_nblocks r div nh) nh (rm_list r) (cl_net c)"
  shows "\<exists>c'. rmem_deallocate (cluster_net topo pick) hl r c = Inr c' \<and> client_idle host c' \<and> cl_mem c' = cl_mem c \<and>
    cluster_view (cl_net c') = v0"
proof -
  let ?s = "rm_nblocks r div nh"
  have k: "0 < ?s" "0 < nh" "?s * nh \<le> length (rm_list r)" "holding host v0 (rmem_shares ?s nh (rm_list r) [0..<nh]) (cl_net c)"
    using assms(5) by (simp_all add: keeps_shares_def)
  have "?s * i < length (rm_list r)" if "i < nh" for i
    using less_le_trans [of "?s * i" "?s * nh" "length (rm_list r)"] k(1,3) that by simp
  then have "\<forall>i\<in>set [0..<nh]. ?s * i < length (rm_list r)" by simp
  from free_holds [OF assms(1,2) k(1) _ this k(4), of pick] show ?thesis
    using k(2) by (auto simp: rmem_deallocate_def Let_def simp flip: assms(3))
qed



end
