(* ===== verification/BB_Testing.thy ===== *)
theory BB_Testing
  imports BB_Return
begin

text \<open>
  The test of the basic operations, \<^verbatim>\<open>ip6/apps/testing.c\<close>: allocate blocks on all hosts, write random data
  to them and read it back, twice, and free them, block by block or in bulk. The clock, the files of
  latencies and the messages are left out; that the arrays of latencies are written inside their bounds
  is not.
\<close>

section \<open>The program\<close>

text \<open>\<open>rnd seed i\<close> is what the \<open>i\<close>-th call of \<^verbatim>\<open>rand\<close> returns after \<^verbatim>\<open>srand(seed)\<close>.\<close>

definition gen_rdm_bytestream :: "(int \<Rightarrow> nat \<Rightarrow> nat) \<Rightarrow> nat \<Rightarrow> int \<Rightarrow> bytes" where
  "gen_rdm_bytestream rnd num_bytes seed = map (\<lambda>i. of_nat (rnd seed i)) [0..<num_bytes]"

text \<open>
  The loops run over the list of their indices. \<^verbatim>\<open>length\<close> is an \<^verbatim>\<open>int\<close>; \<^verbatim>\<open>latency\<close> has an entry for each
  iteration.
\<close>

fun alloc_batched ::
  "'n netif \<Rightarrow> host_list \<Rightarrow> nat \<Rightarrow> nat \<Rightarrow> nat \<Rightarrow> nat list \<Rightarrow> ip6_memaddr list \<Rightarrow> sockaddr_in6 \<Rightarrow> 'n client \<Rightarrow>
   (ip6_memaddr list \<times> sockaddr_in6 \<times> 'n client) res" where
  "alloc_batched nif hl nh split iterations [] r_addr tgt c = Inr (r_addr, tgt, c)"
| "alloc_batched nif hl nh split iterations (i # is) r_addr tgt c =
     (let offset = split * i;
          len = c_int (if i = nh - 1 then iterations - offset else split)
      in bindE (get_ip6_target hl (of_nat i)) (\<lambda>ip.
         bindE (allocate_bulk_rmem nif (tgt\<lparr>sin6_addr := ip\<rparr>) (word_of_int len) c) (\<lambda>(temp, tgt', c').
           if len < 0 \<or> iterations \<le> i then Inl Segv
           else alloc_batched nif hl nh split iterations is (blit r_addr offset temp) tgt' c')))"

fun alloc_single ::
  "'n netif \<Rightarrow> host_list \<Rightarrow> nat \<Rightarrow> nat list \<Rightarrow> ip6_memaddr list \<Rightarrow> sockaddr_in6 \<Rightarrow> 'n client \<Rightarrow>
   (ip6_memaddr list \<times> sockaddr_in6 \<times> 'n client) res" where
  "alloc_single nif hl nh [] r_addr tgt c = Inr (r_addr, tgt, c)"
| "alloc_single nif hl nh (i # is) r_addr tgt c =
     (if nh = 0 then Inl Fpe
      else
        bindE (get_ip6_target hl (of_nat (i mod nh))) (\<lambda>ip.
        bindE (allocate_rmem nif (tgt\<lparr>sin6_addr := ip\<rparr>) c) (\<lambda>(a, tgt', c').
          if length r_addr \<le> i then Inl Segv
          else alloc_single nif hl nh is (r_addr[i := a]) tgt' c')))"

definition alloc_test ::
  "'n netif \<Rightarrow> host_list \<Rightarrow> bool \<Rightarrow> nat \<Rightarrow> ip6_memaddr list \<Rightarrow> sockaddr_in6 \<Rightarrow> 'n client \<Rightarrow>
   (ip6_memaddr list \<times> sockaddr_in6 \<times> 'n client) res" where
  "alloc_test nif hl batched iterations r_addr tgt c =
     (let nh = nat (get_num_hosts hl) in
      if batched
      then if nh = 0 then Inl Fpe
           else alloc_batched nif hl nh (iterations div nh) iterations [0..<nh] r_addr tgt c
      else alloc_single nif hl nh [0..<iterations] r_addr tgt c)"

fun write_single ::
  "'n netif \<Rightarrow> ip6_memaddr list \<Rightarrow> bytes \<Rightarrow> nat list \<Rightarrow> sockaddr_in6 \<Rightarrow> 'n client \<Rightarrow> (sockaddr_in6 \<times> 'n client) res" where
  "write_single nif r_addr payload [] tgt c = Inr (tgt, c)"
| "write_single nif r_addr payload (i # is) tgt c =
     (if length r_addr \<le> i then Inl Segv
      else
        bindE (sub_array payload (i * BLOCK_SIZE) BLOCK_SIZE) (\<lambda>bs.
        bindE (write_rmem nif tgt (r_addr ! i) bs c) (\<lambda>(tgt', _, c').
          write_single nif r_addr payload is tgt' c')))"

definition write_test ::
  "'n netif \<Rightarrow> bool \<Rightarrow> nat \<Rightarrow> bytes \<Rightarrow> ip6_memaddr list \<Rightarrow> sockaddr_in6 \<Rightarrow> 'n client \<Rightarrow>
   (ip6_memaddr list \<times> sockaddr_in6 \<times> 'n client) res" where
  "write_test nif batched iterations payload r_addr tgt c =
     (if batched
      then
        bindE (write_bulk_rmem nif tgt r_addr iterations payload (BLOCK_SIZE * iterations) c) (\<lambda>(_, r_addr', tgt', c').
          if iterations = 0 then Inl Segv else Inr (r_addr', tgt', c'))
      else bindE (write_single nif r_addr payload [0..<iterations] tgt c) (\<lambda>(tgt', c'). Inr (r_addr, tgt', c')))"

text \<open>A block that differs from what is expected ends the program.\<close>

fun check_blocks :: "bytes \<Rightarrow> bytes \<Rightarrow> nat list \<Rightarrow> unit res" where
  "check_blocks test expected [] = Inr ()"
| "check_blocks test expected (i # is) =
     bindE (sub_array test (i * BLOCK_SIZE) BLOCK_SIZE) (\<lambda>got.
     bindE (sub_array expected (i * BLOCK_SIZE) BLOCK_SIZE) (\<lambda>want.
       if got \<noteq> want then Inl Exit else check_blocks test expected is))"

fun read_single ::
  "'n netif \<Rightarrow> u64 \<Rightarrow> ip6_memaddr list \<Rightarrow> bytes \<Rightarrow> nat list \<Rightarrow> sockaddr_in6 \<Rightarrow> 'n client \<Rightarrow> (sockaddr_in6 \<times> 'n client) res" where
  "read_single nif test r_addr expected [] tgt c = Inr (tgt, c)"
| "read_single nif test r_addr expected (i # is) tgt c =
     (if length r_addr \<le> i then Inl Segv
      else
        bindE (read_rmem nif tgt (r_addr ! i) test (of_nat BLOCK_SIZE) c) (\<lambda>(_, tgt', _, c').
        bindE (load_res (cl_mem c') test BLOCK_SIZE) (\<lambda>got.
        bindE (sub_array expected (i * BLOCK_SIZE) BLOCK_SIZE) (\<lambda>want.
          if got \<noteq> want then Inl Exit else read_single nif test r_addr expected is tgt' c'))))"

text \<open>\<open>stack\<close> is the address of the local array \<^verbatim>\<open>test\<close>; in batched mode \<^verbatim>\<open>test\<close> is allocated.\<close>

definition read_test ::
  "'n netif \<Rightarrow> bool \<Rightarrow> mallocator \<Rightarrow> u64 \<Rightarrow> nat \<Rightarrow> bytes \<Rightarrow> ip6_memaddr list \<Rightarrow> sockaddr_in6 \<Rightarrow> 'n client \<Rightarrow>
   (ip6_memaddr list \<times> sockaddr_in6 \<times> 'n client) res" where
  "read_test nif batched mal stack iterations expected r_addr tgt c =
     (if batched
      then
        case chunk_malloc mal (cl_mem c) (BLOCK_SIZE * iterations) of (test, m) \<Rightarrow>
        bindE (read_bulk_rmem nif tgt r_addr iterations test (BLOCK_SIZE * iterations) (c\<lparr>cl_mem := m\<rparr>)) (\<lambda>(_, r_addr', tgt', c').
        if iterations = 0 then Inl Segv
        else
          bindE (load_res (cl_mem c') test (BLOCK_SIZE * iterations)) (\<lambda>got.
          bindE (check_blocks got expected [0..<iterations]) (\<lambda>_.
            Inr (r_addr', tgt', c'\<lparr>cl_mem := chunk_free test (BLOCK_SIZE * iterations) (cl_mem c')\<rparr>))))
      else bindE (read_single nif stack r_addr expected [0..<iterations] tgt c) (\<lambda>(tgt', c'). Inr (r_addr, tgt', c')))"

fun free_batched ::
  "'n netif \<Rightarrow> nat \<Rightarrow> nat \<Rightarrow> nat list \<Rightarrow> ip6_memaddr list \<Rightarrow> sockaddr_in6 \<Rightarrow> 'n client \<Rightarrow> (sockaddr_in6 \<times> 'n client) res" where
  "free_batched nif split iterations [] r_addr tgt c = Inr (tgt, c)"
| "free_batched nif split iterations (i # is) r_addr tgt c =
     (let offset = split * i in
      if length r_addr \<le> offset then Inl Segv
      else
        bindE (free_rmem nif tgt (r_addr ! offset) c) (\<lambda>(tgt', a', c').
          if iterations \<le> i then Inl Segv
          else free_batched nif split iterations is (r_addr[offset := a']) tgt' c'))"

fun free_single ::
  "'n netif \<Rightarrow> nat list \<Rightarrow> ip6_memaddr list \<Rightarrow> sockaddr_in6 \<Rightarrow> 'n client \<Rightarrow> (sockaddr_in6 \<times> 'n client) res" where
  "free_single nif [] r_addr tgt c = Inr (tgt, c)"
| "free_single nif (i # is) r_addr tgt c =
     (if length r_addr \<le> i then Inl Segv
      else bindE (free_rmem nif tgt (r_addr ! i) c) (\<lambda>(tgt', _, c'). free_single nif is r_addr tgt' c'))"

definition free_test ::
  "'n netif \<Rightarrow> host_list \<Rightarrow> bool \<Rightarrow> nat \<Rightarrow> ip6_memaddr list \<Rightarrow> sockaddr_in6 \<Rightarrow> 'n client \<Rightarrow> (sockaddr_in6 \<times> 'n client) res" where
  "free_test nif hl batched iterations r_addr tgt c =
     (let nh = nat (get_num_hosts hl) in
      if batched
      then if nh = 0 then Inl Fpe
           else free_batched nif (iterations div nh) iterations [0..<nh] r_addr tgt c
      else free_single nif [0..<iterations] r_addr tgt c)"

text \<open>\<open>junk\<close> is what \<^verbatim>\<open>malloc\<close> leaves in the array of addresses.\<close>

definition launch_tests ::
  "'n netif \<Rightarrow> host_list \<Rightarrow> bool \<Rightarrow> mallocator \<Rightarrow> u64 \<Rightarrow> (int \<Rightarrow> nat \<Rightarrow> nat) \<Rightarrow> ip6_memaddr \<Rightarrow> nat \<Rightarrow> sockaddr_in6 \<Rightarrow> 'n client \<Rightarrow>
   (sockaddr_in6 \<times> 'n client) res" where
  "launch_tests nif hl batched mal stack rnd junk num_iterations target_ip c =
     (let r_addr = replicate num_iterations junk;
          payload1 = gen_rdm_bytestream rnd (BLOCK_SIZE * num_iterations) 1;
          payload2 = gen_rdm_bytestream rnd (BLOCK_SIZE * num_iterations) 2
      in bindE (alloc_test nif hl batched num_iterations r_addr target_ip c) (\<lambda>(as1, tgt1, c1).
         bindE (write_test nif batched num_iterations payload1 as1 tgt1 c1) (\<lambda>(as2, tgt2, c2).
         bindE (read_test nif batched mal stack num_iterations payload1 as2 tgt2 c2) (\<lambda>(as3, tgt3, c3).
         bindE (write_test nif batched num_iterations payload2 as3 tgt3 c3) (\<lambda>(as4, tgt4, c4).
         bindE (read_test nif batched mal stack num_iterations payload2 as4 tgt4 c4) (\<lambda>(as5, tgt5, c5).
           free_test nif hl batched num_iterations as5 tgt5 c5))))))"

section \<open>The batched loops are those of remote memory\<close>

lemma alloc_batched_fill:
  assumes "n < 2 ^ 31" "nh \<le> n" "split \<le> n"
  shows "\<forall>i\<in>set is. i < nh \<Longrightarrow> alloc_batched nif hl nh split n is l tgt c =
    bindE (fill_rmem nif hl split nh is \<lparr>rm_target = tgt, rm_list = l, rm_nblocks = n\<rparr> c) (\<lambda>(r, c'). Inr (rm_list r, rm_target r, c'))"
proof (induction "is" arbitrary: l tgt c)
  case (Cons i "is")
  let ?len = "if i = nh - 1 then n - split * i else split"
  have "?len \<le> n" using assms(3) by simp
  then have "?len < 2 ^ 31" using assms(1) by simp
  then have len: "c_int ?len = int ?len" by (rule c_int_small)
  show ?case
    unfolding alloc_batched.simps fill_rmem.simps Let_def len
    using Cons.prems Cons.IH assms(2) by (auto simp: bindE_def split: sum.splits prod.splits if_splits)
qed simp

lemma free_batched_hosts:
  "\<forall>i\<in>set is. i < n \<Longrightarrow> free_batched nif split n is l tgt c =
    bindE (free_hosts nif split is \<lparr>rm_target = tgt, rm_list = l, rm_nblocks = k\<rparr> c) (\<lambda>(r, c'). Inr (rm_target r, c'))"
proof (induction "is" arbitrary: l tgt c)
  case (Cons i "is")
  then show ?case by (auto simp: Let_def bindE_def split: sum.splits prod.splits)
qed simp

section \<open>Single blocks\<close>

definition singles :: "ip6_memaddr list \<Rightarrow> (ip6_memaddr \<times> nat) list" where
  "singles l = map (\<lambda>a. (a, BLOCK_SIZE)) l"

lemma allocate_rmem_held:
  assumes "client_idle host c" "sin6_port tgt = t_port topo" "host (subid (sin6_addr tgt))"
  shows "\<exists>ra tgt' c'. allocate_rmem (cluster_net topo pick) tgt c = Inr (ra, tgt', c') \<and> subid ra = subid (sin6_addr tgt) \<and>
    sin6_port tgt' = t_port topo \<and> client_idle host c' \<and> cl_mem c' = cl_mem c \<and>
    (paddr ra \<noteq> 0 \<longrightarrow> (\<forall>hs. holding host v0 hs (cl_net c) \<longrightarrow> holding host v0 (hs @ [(ra, BLOCK_SIZE)]) (cl_net c')))"
proof -
  have i: "inbox (cl_net c) = []" "cluster_ok host (cl_net c)" using assms(1) by (simp_all add: client_idle_def)
  obtain h where h: "servers (cl_net c) (subid (sin6_addr tgt)) = Some h" "heap_ok h" using cluster_host [OF i(2) assms(3)] by auto
  obtain p h1 where p: "calloc pick h BLOCK_SIZE = (p, h1)" by (cases "calloc pick h BLOCK_SIZE")
  have run: "process_request pick (t_client topo) ((sin6_addr tgt)\<lparr>cmd := ALLOC_CMD\<rparr>) [] sz h =
      reply h1 (set_return_id (t_client topo) ALLOC_CMD p) []" for sz
    using p by (simp add: process_request_cmd allocate_mem_def)
  let ?n = "(cl_net c)\<lparr>servers := (servers (cl_net c))(subid (sin6_addr tgt) \<mapsto> h1)\<rparr>"
  have ok: "heap_ok h1" using heap_step_ok [OF process_request_step [OF run [unfolded reply_def]] h(2)] .
  have "\<exists>ra tgt'. allocate_rmem (cluster_net topo pick) tgt c = Inr (ra, tgt', c\<lparr>cl_net := ?n\<rparr>) \<and> subid ra = subid (sin6_addr tgt) \<and>
      paddr ra = p \<and> sin6_port tgt' = t_port topo"
    using assms(2) h(1) i(1) run
    by (cases c) (auto simp: allocate_rmem_def set_cmd_def Let_def c_send_def send_udp_raw_def cluster_net_def cluster_send_def
        reply_def set_return_id_def rcv_udp6_raw_def cluster_recv_def answer_def)
  then obtain ra tgt' where ra: "allocate_rmem (cluster_net topo pick) tgt c = Inr (ra, tgt', c\<lparr>cl_net := ?n\<rparr>)" "subid ra = subid (sin6_addr tgt)"
      "paddr ra = p" "sin6_port tgt' = t_port topo" by blast
  have "holding host v0 (hs @ [(ra, BLOCK_SIZE)]) ?n" if nz: "paddr ra \<noteq> 0" and hs: "holding host v0 hs (cl_net c)" for hs
  proof -
    have c: "region_free h p BLOCK_SIZE"
        "h1 = \<lparr>hmem = (\<lambda>x. if in_range p BLOCK_SIZE x then Some 0 else hmem h x), hblocks = (hblocks h)(p \<mapsto> BLOCK_SIZE)\<rparr>"
      using p nz ra(3) by (auto simp: calloc_def Let_def split: if_splits)
    show ?thesis
    proof (rule holding_add [OF hs i(2) _ nz])
      show "cluster_view (cl_net c) (subid ra) x = None" if "in_range (paddr ra) BLOCK_SIZE x" for x
        using region_free_in_range [OF c(1), of x] that ra(2,3) h(1) by (simp add: cluster_view_def)
    qed (use assms(3) ra(2,3) c(2) h(1) in \<open>auto simp: on_books_def cluster_view_def\<close>)
  qed
  moreover have "client_idle host (c\<lparr>cl_net := ?n\<rparr>)" using i ok by (auto simp: client_idle_def cluster_ok_def)
  ultimately show ?thesis using ra by (intro exI [of _ ra] exI [of _ tgt'] exI [of _ "c\<lparr>cl_net := ?n\<rparr>"]) simp
qed

lemma alloc_single_ok:
  fixes topo pick host v0
  defines "net \<equiv> cluster_net topo pick"
  assumes hosts: "\<forall>i<nh. i < length (hostList hl) \<and> host (subid (hostList hl ! i))" "nh \<le> 256" "0 < nh"
    and c: "client_idle host c" "sin6_port tgt = t_port topo" "length l = n" "k \<le> n"
  shows "\<exists>l' tgt' c'. alloc_single net hl nh [k..<n] l tgt c = Inr (l', tgt', c') \<and> client_idle host c' \<and> cl_mem c' = cl_mem c \<and>
    sin6_port tgt' = t_port topo \<and> length l' = n \<and> take k l' = take k l \<and>
    (holding host v0 (singles (take k l)) (cl_net c) \<longrightarrow> (\<forall>a\<in>set l'. paddr a \<noteq> 0) \<longrightarrow> holding host v0 (singles l') (cl_net c'))"
  using c
proof (induction "n - k" arbitrary: k l tgt c)
  case 0
  then show ?case by simp
next
  case (Suc x)
  then have kn: "k < n" and x: "x = n - Suc k" by auto
  let ?ip = "hostList hl ! (k mod nh)"
  have m: "k mod nh < nh" using hosts(3) by simp
  then have "unat (of_nat (k mod nh) :: u8) = k mod nh" using hosts(2) by (simp add: unat_of_nat)
  then have ip: "get_ip6_target hl (of_nat (k mod nh)) = Inr ?ip" "host (subid ?ip)"
    using hosts(1) m by (simp_all add: get_ip6_target_def)
  obtain ra tgt1 c1 where ra: "allocate_rmem net (tgt\<lparr>sin6_addr := ?ip\<rparr>) c = Inr (ra, tgt1, c1)" "subid ra = subid ?ip"
      "sin6_port tgt1 = t_port topo" "client_idle host c1" "cl_mem c1 = cl_mem c"
      "paddr ra \<noteq> 0 \<longrightarrow> (\<forall>hs. holding host v0 hs (cl_net c) \<longrightarrow> holding host v0 (hs @ [(ra, BLOCK_SIZE)]) (cl_net c1))"
    using allocate_rmem_held [OF Suc.prems(1), of "tgt\<lparr>sin6_addr := ?ip\<rparr>" topo pick v0] Suc.prems(2) ip(2) unfolding net_def by auto
  obtain l' tgt' c' where l': "alloc_single net hl nh [Suc k..<n] (l[k := ra]) tgt1 c1 = Inr (l', tgt', c')" "client_idle host c'"
      "cl_mem c' = cl_mem c1" "sin6_port tgt' = t_port topo" "length l' = n" "take (Suc k) l' = take (Suc k) (l[k := ra])"
      "holding host v0 (singles (take (Suc k) (l[k := ra]))) (cl_net c1) \<longrightarrow> (\<forall>a\<in>set l'. paddr a \<noteq> 0) \<longrightarrow> holding host v0 (singles l') (cl_net c')"
    using Suc.hyps(1) [OF x ra(4,3), of "l[k := ra]"] Suc.prems(3) kn by auto
  have step: "alloc_single net hl nh [k..<n] l tgt c = Inr (l', tgt', c')"
    unfolding upt_conv_Cons [OF kn] using l'(1) ra(1) ip(1) hosts(3) kn Suc.prems(3) by simp
  have tk: "take (Suc k) (l[k := ra]) = take k l @ [ra]" using kn Suc.prems(3) by (simp add: take_Suc_conv_app_nth)
  have lk: "l' ! k = ra" "take k l' = take k l"
    using l'(6) take_Suc_conv_app_nth [of k l'] kn l'(5) unfolding tk by simp_all
  have "ra \<in> set l'" using lk(1) kn l'(5) by (metis nth_mem)
  then have "holding host v0 (singles l') (cl_net c')" if "holding host v0 (singles (take k l)) (cl_net c)" "\<forall>a\<in>set l'. paddr a \<noteq> 0"
    using ra(6) l'(7) that unfolding tk by (simp add: singles_def)
  with step l'(2-5) ra(5) lk(2) show ?case by (intro exI [of _ l'] exI [of _ tgt'] exI [of _ c']) simp
qed

lemma free_single_ok:
  assumes "client_idle host c" "sin6_port tgt = t_port topo" "holding host v0 (singles (drop k l)) (cl_net c)" "k \<le> length l"
  shows "\<exists>tgt' c'. free_single (cluster_net topo pick) [k..<length l] l tgt c = Inr (tgt', c') \<and> client_idle host c' \<and>
    cluster_view (cl_net c') = v0"
  using assms
proof (induction "length l - k" arbitrary: k tgt c)
  case 0
  then show ?case by (simp add: singles_def holding_nil)
next
  case (Suc x)
  then have kn: "k < length l" and x: "x = length l - Suc k" by auto
  have h: "holding host v0 ((l ! k, BLOCK_SIZE) # singles (drop (Suc k) l)) (cl_net c)"
    using Suc.prems(3) Cons_nth_drop_Suc [OF kn] by (metis list.simps(9) singles_def)
  obtain tgt1 a' c1 where f: "free_rmem (cluster_net topo pick) tgt (l ! k) c = Inr (tgt1, a', c1)" "client_idle host c1"
      "sin6_port tgt1 = t_port topo" "holding host v0 (singles (drop (Suc k) l)) (cl_net c1)"
    using free_held [OF h Suc.prems(1,2)] by blast
  show ?case using Suc.hyps(1) [OF x f(2-4)] kn f(1) by (simp add: upt_conv_Cons [OF kn])
qed

lemma singles_apart:
  assumes "holding host v0 (singles l) n" "cluster_ok host n"
  shows "remote_blocks host (cluster_view n) l"
proof -
  have h: "held host v0 n a BLOCK_SIZE" if "a \<in> set l" for a using assms(1) that by (auto simp: holding_def singles_def)
  have "host (subid a) \<and> rmapped (cluster_view n) a BLOCK_SIZE" if "a \<in> set l" for a
    using h [OF that] books_mapped [OF assms(2), of a BLOCK_SIZE] by (auto simp: held_def rmapped_def mapped_def in_range_first BLOCK_SIZE_def)
  moreover have "chunk_sep (l ! i) (l ! j)" if "i < length l" "j < length l" "i \<noteq> j" for i j
  proof -
    have "distinct (map (\<lambda>a. (subid a, paddr a)) l)" using assms(1) by (simp add: holding_def singles_def comp_def)
    then have "(subid (l ! i), paddr (l ! i)) \<noteq> (subid (l ! j), paddr (l ! j))" using that by (auto simp: distinct_conv_nth)
    then show ?thesis by (auto simp: chunk_sep_def disjoint_ranges_def in_range_def BLOCK_SIZE_def unat_eq_zero)
  qed
  ultimately show ?thesis by (simp add: remote_blocks_def)
qed

section \<open>The state of the test\<close>

definition in_test :: "(u16 \<Rightarrow> bool) \<Rightarrow> rview \<Rightarrow> bool \<Rightarrow> nat \<Rightarrow> ip6_memaddr list \<Rightarrow> cluster \<Rightarrow> bool" where
  "in_test host v0 batched nh l n \<longleftrightarrow>
     (if batched then keeps_shares host v0 (length l div nh) nh l n else holding host v0 (singles l) n)"

lemma singles_covered: "a \<in> set l \<Longrightarrow> \<not> outside (singles l) (subid a) (paddr a)"
  by (auto simp: outside_def singles_def in_range_first BLOCK_SIZE_def)

lemma put_covered:
  assumes "\<And>a. a \<in> set l \<Longrightarrow> \<not> outside hs (subid a) (paddr a)" "\<forall>(a, d)\<in>set xs. a \<in> set l \<and> length d = BLOCK_SIZE" "outside hs s x"
  shows "put_chunks v xs s x = v s x"
proof (rule put_chunks_outside, clarify)
  fix a d assume ad: "(a, d) \<in> set xs" "s = subid a" "in_range (paddr a) (length d) x"
  then have "x = paddr a" using assms(2) by (auto simp: in_range_def BLOCK_SIZE_def unat_eq_zero)
  then show False using assms(1) [of a] assms(2,3) ad(1,2) by auto
qed

lemma in_test_frame:
  assumes "in_test host v0 batched nh l n" "same_place l' l" "same_books n n'" "cluster_ok host n'"
    and "cluster_view n' = put_chunks (cluster_view n) xs" "\<forall>(a, d)\<in>set xs. a \<in> set l \<and> length d = BLOCK_SIZE"
  shows "in_test host v0 batched nh l' n'"
proof (cases batched)
  case True
  then have k: "keeps_shares host v0 (length l div nh) nh l n" using assms(1) by (simp add: in_test_def)
  then have "\<not> outside (rmem_shares (length l div nh) nh l [0..<nh]) (subid a) (paddr a)" if "a \<in> set l" for a
    using share_of [of "length l div nh" nh l] that by (auto simp: keeps_shares_def in_set_conv_nth)
  from keeps_frame [OF k assms(2-4)] put_covered [OF this assms(6)] show ?thesis
    using True same_place_nth(1) [OF assms(2)] unfolding assms(5) in_test_def by auto
next
  case False
  then have h: "holding host v0 (singles l) n" using assms(1) by (simp add: in_test_def)
  have "holding host v0 (singles l) n'"
    by (rule holding_same [OF h assms(3,4)]) (use put_covered [OF singles_covered assms(6)] in \<open>simp add: assms(5)\<close>)
  moreover have "map (\<lambda>(a, k). (subid a, paddr a, k)) (singles l') = map (\<lambda>(a, k). (subid a, paddr a, k)) (singles l)"
    using same_place_nth [OF assms(2)] by (auto simp: singles_def intro!: nth_equalityI)
  ultimately show ?thesis using False holding_place by (simp add: in_test_def)
qed

definition test_ok :: "topology \<Rightarrow> (u16 \<Rightarrow> bool) \<Rightarrow> rview \<Rightarrow> bool \<Rightarrow> nat \<Rightarrow> nat \<Rightarrow> ip6_memaddr list \<Rightarrow> sockaddr_in6 \<Rightarrow> cluster client \<Rightarrow> bool" where
  "test_ok topo host v0 batched nh n l tgt c \<longleftrightarrow>
     client_idle host c \<and> sin6_port tgt = t_port topo \<and> length l = n \<and> in_test host v0 batched nh l (cl_net c) \<and>
     remote_blocks host (cluster_view (cl_net c)) l \<and> (\<forall>a\<in>set l. in_table a)"

lemma test_okD:
  assumes "test_ok topo host v0 batched nh n l tgt c"
  shows "cm.ready host c" "sin6_port tgt = t_port topo" "length l = n" "cm.addrs_ok host (cluster_view (cl_net c)) l"
    "\<And>i. i < n \<Longrightarrow> host (subid (l ! i)) \<and> rmapped (cluster_view (cl_net c)) (l ! i) BLOCK_SIZE"
  using assms by (auto simp: test_ok_def client_idle_ready remote_blocks_def cm.addrs_ok_def)

lemma test_ok_frame:
  assumes "test_ok topo host v0 batched nh n l tgt c" "same_place l' l" "same_books (cl_net c) (cl_net c')" "cm.ready host c'"
    and "sin6_port tgt' = t_port topo" "cluster_view (cl_net c') = put_chunks (cluster_view (cl_net c)) xs"
    and "\<forall>(a, d)\<in>set xs. a \<in> set l \<and> length d = BLOCK_SIZE"
  shows "test_ok topo host v0 batched nh n l' tgt' c'"
proof -
  have ok: "cluster_ok host (cl_net c')" using assms(4) by (simp add: ready_net)
  have t: "in_test host v0 batched nh l (cl_net c)" "remote_blocks host (cluster_view (cl_net c)) l" "\<forall>a\<in>set l. in_table a"
    using assms(1) by (simp_all add: test_ok_def)
  have "remote_blocks host (cluster_view (cl_net c')) l'"
    using remote_blocks_place [OF assms(2) t(2), of "cluster_view (cl_net c')"] by (simp add: assms(6) rmapped_put_chunks)
  then show ?thesis
    using assms(1,4,5) in_test_frame [OF t(1) assms(2,3) ok assms(6,7)] in_table_place [OF assms(2) t(3)] same_place_nth(1) [OF assms(2)]
    by (simp add: test_ok_def client_idle_ready)
qed

section \<open>Each test\<close>

lemma alloc_test_ok:
  assumes "client_idle host c" "sin6_port tgt = t_port topo" "hosts_serve host hl" "\<And>s. host s \<Longrightarrow> unat s < USHRT_MAX"
    and "n < 2 ^ 31" "length l0 = n" "batched \<Longrightarrow> get_num_hosts hl \<le> int n"
    and run: "alloc_test (cluster_net topo pick) hl batched n l0 tgt c = Inr (l, tgt1, c1)" and nz: "\<forall>a\<in>set l. paddr a \<noteq> 0"
  shows "test_ok topo host (cluster_view (cl_net c)) batched (nat (get_num_hosts hl)) n l tgt1 c1 \<and> cl_mem c1 = cl_mem c"
proof -
  define nh where "nh = nat (get_num_hosts hl)"
  let ?v = "cluster_view (cl_net c)"
  have nh: "\<forall>i<nh. i < length (hostList hl) \<and> host (subid (hostList hl ! i))" "nh \<le> 256" "0 < nh"
    using assms(3) by (simp_all add: hosts_serve_def nh_def nat_le_iff)
  have tb: "\<forall>a\<in>set l. in_table a" if "remote_blocks host v l" for v
    using that assms(4) by (simp add: remote_blocks_def in_table_def)
  show ?thesis
  proof (cases batched)
    case True
    then have nn: "nh \<le> n" using assms(7) by (simp add: nh_def)
    let ?s = "n div nh" and ?r0 = "\<lparr>rm_target = tgt, rm_list = l0, rm_nblocks = n\<rparr>"
    have sp: "0 < ?s" "?s * nh \<le> n" "?s \<le> n" "n < 2 ^ 64" using nn nh(3) assms(5) by (simp_all add: div_greater_zero_iff)
    obtain r where r: "fill_rmem (cluster_net topo pick) hl ?s nh [0..<nh] ?r0 c = Inr (r, c1)" "l = rm_list r" "tgt1 = rm_target r"
      using run True nh(3) alloc_batched_fill [OF assms(5) nn sp(3), of "[0..<nh]" "cluster_net topo pick" hl l0 tgt c]
      by (auto simp: alloc_test_def Let_def simp flip: nh_def)
    have r0: "sin6_port (rm_target ?r0) = t_port topo" "rm_nblocks ?r0 = n" "length (rm_list ?r0) = n" using assms(2,6) by simp_all
    have "?s * i < n" if "i < nh" for i using less_le_trans [of "?s * i" "?s * nh" n] sp that by simp
    moreover have z: "blocks_zero host w []" for w by (simp add: blocks_zero_def remote_blocks_def)
    ultimately have f: "client_idle host c1" "cl_mem c1 = cl_mem c" "sin6_port tgt1 = t_port topo" "length l = n"
        "blocks_zero host (cluster_view (cl_net c1)) l" and g: "\<forall>i<nh. paddr (l ! (?s * i)) \<noteq> 0"
      using fill_rmem_ok [OF nh(1,2) sp(2,4) assms(1) r0 le0, of pick] r nz nh(3) by (auto simp: blocks_before_def)
    have "holding host ?v (rmem_shares ?s nh (rm_list ?r0) [0..<0]) (cl_net c)" "runs ?s nh (rm_list ?r0) 0"
      by (simp_all add: rmem_shares_def holding_nil runs_def)
    from fill_holds [OF nh(1,2) sp(1,2,4) assms(1) r0 le0 r(1) g [unfolded r(2)] this]
    have "keeps_shares host ?v ?s nh l (cl_net c1)" using sp nh(3) f(4) r(2) by (simp add: keeps_shares_def)
    then show ?thesis using True f tb [of "cluster_view (cl_net c1)"] by (simp add: test_ok_def in_test_def blocks_zero_def flip: nh_def)
  next
    case False
    then have a: "client_idle host c1" "cl_mem c1 = cl_mem c" "sin6_port tgt1 = t_port topo" "length l = n" "holding host ?v (singles l) (cl_net c1)"
      using alloc_single_ok [OF nh assms(1,2,6) le0, of pick ?v] run nz
      by (auto simp: alloc_test_def Let_def singles_def holding_nil simp flip: nh_def)
    have "remote_blocks host (cluster_view (cl_net c1)) l" using singles_apart [OF a(5)] a(1) by (simp add: client_idle_def)
    then show ?thesis using False a tb [of "cluster_view (cl_net c1)"] by (simp add: test_ok_def in_test_def)
  qed
qed

lemma write_single_ok:
  assumes "test_ok topo host v0 batched nh n l tgt c" "length payload = BLOCK_SIZE * n" "k \<le> n"
  shows "\<exists>tgt' c'. write_single (cluster_net topo pick) l payload [k..<n] tgt c = Inr (tgt', c') \<and> test_ok topo host v0 batched nh n l tgt' c' \<and>
    cl_mem c' = cl_mem c \<and> cluster_view (cl_net c') = put_chunks (cluster_view (cl_net c)) (zip (drop k l) (drop k (chunks payload n)))"
  using assms
proof (induction "n - k" arbitrary: k tgt c)
  case 0
  then show ?case by (simp add: test_ok_def)
next
  case (Suc x)
  then have kn: "k < n" and x: "x = n - Suc k" by auto
  note t = test_okD [OF Suc.prems(1)]
  let ?bs = "chunks payload n ! k"
  have bs: "sub_array payload (k * BLOCK_SIZE) BLOCK_SIZE = Inr ?bs" "length ?bs = BLOCK_SIZE"
    using kn Suc.prems(2) by (simp_all add: sub_array_def nth_chunks slice_def BLOCK_SIZE_def)
  have "length ?bs \<le> MAX_DATA" by (simp add: bs(2) BLOCK_SIZE_le_MAX)
  then obtain tgt1 a c1 where w: "write_rmem (cluster_net topo pick) tgt (l ! k) ?bs c = Inr (tgt1, a, c1)" "sin6_port tgt1 = t_port topo"
      "cm.ready host c1" "cl_mem c1 = cl_mem c" "cluster_view (cl_net c1) = put_chunk (cluster_view (cl_net c)) (l ! k, ?bs)"
    using cm.write_rmem_ok [OF t(1,2), of "l ! k" ?bs pick] t(5) [OF kn] bs(2) by auto
  have "test_ok topo host v0 batched nh n l tgt1 c1"
    using test_ok_frame [OF Suc.prems(1) same_place_refl write_rmem_books [OF w(1)] w(3,2), of "[(l ! k, ?bs)]"] w(5) bs(2) kn t(3) by simp
  from Suc.hyps(1) [OF x this Suc.prems(2)] kn obtain tgt' c'
    where c': "write_single (cluster_net topo pick) l payload [Suc k..<n] tgt1 c1 = Inr (tgt', c')" "test_ok topo host v0 batched nh n l tgt' c'"
      "cl_mem c' = cl_mem c1" "cluster_view (cl_net c') = put_chunks (cluster_view (cl_net c1)) (zip (drop (Suc k) l) (drop (Suc k) (chunks payload n)))"
    by auto
  have "zip (drop k l) (drop k (chunks payload n)) = (l ! k, ?bs) # zip (drop (Suc k) l) (drop (Suc k) (chunks payload n))"
    using Cons_nth_drop_Suc [of k l] Cons_nth_drop_Suc [of k "chunks payload n"] kn t(3) by (metis length_chunks zip_Cons_Cons)
  then show ?case using c' w(1,4,5) bs(1) kn t(3) by (simp add: upt_conv_Cons [OF kn])
qed

lemma write_test_ok:
  assumes "test_ok topo host v0 batched nh n l tgt c" "length payload = BLOCK_SIZE * n" "0 < n"
  shows "\<exists>l' tgt' c'. write_test (cluster_net topo pick) batched n payload l tgt c = Inr (l', tgt', c') \<and> test_ok topo host v0 batched nh n l' tgt' c' \<and>
    cl_mem c' = cl_mem c \<and> map (rload (cluster_view (cl_net c')) BLOCK_SIZE) l' = chunks payload n"
proof -
  note t = test_okD [OF assms(1)]
  have pl: "BLOCK_SIZE * n \<le> length payload" using assms(2) by simp
  have rb: "remote_blocks host (cluster_view (cl_net c)) l" using assms(1) by (simp add: test_ok_def)
  have rd: "map (rload (put_chunks (cluster_view (cl_net c)) (zip l (chunks payload n))) BLOCK_SIZE) l = chunks payload n"
    using blocks_put [OF rb, of 0 n payload] pl t(3) by (simp add: blit_def)
  show ?thesis
  proof (cases batched)
    case True
    have d: "BLOCK_SIZE * n div BLOCK_SIZE = n" by (simp add: BLOCK_SIZE_def)
    obtain l' tgt' c' where w: "write_bulk_rmem (cluster_net topo pick) tgt l n payload (BLOCK_SIZE * n) c = Inr (0, l', tgt', c')"
        "sin6_port tgt' = t_port topo" "cm.ready host c'" "cl_mem c' = cl_mem c"
        "cluster_view (cl_net c') = put_chunks (cluster_view (cl_net c)) (zip l (chunks payload n))"
      using cm.write_bulk_ok [OF t(1,2,4), of "BLOCK_SIZE * n" payload pick] assms(3) pl t(3) d by fastforce
    have ok: "test_ok topo host v0 batched nh n l' tgt' c'"
      by (rule test_ok_frame [OF assms(1) write_bulk_place [OF w(1)] write_bulk_books [OF w(1)] w(3,2,5)])
        (use length_chunk [OF pl] in \<open>auto dest: set_zip_leftD set_zip_rightD\<close>)
    show ?thesis using w(1,4,5) ok True assms(3) rload_place [OF write_bulk_place [OF w(1)]] rd by (auto simp: write_test_def)
  next
    case False
    then show ?thesis using write_single_ok [OF assms(1,2) le0, of pick] rd by (fastforce simp: write_test_def)
  qed
qed

lemma check_blocks_same: "length xs = BLOCK_SIZE * n \<Longrightarrow> \<forall>i\<in>set is. i < n \<Longrightarrow> check_blocks xs xs is = Inr ()"
  by (induction "is") (auto simp: sub_array_def BLOCK_SIZE_def)

lemma read_single_ok:
  assumes "test_ok topo host v0 batched nh n l tgt c" "length payload = BLOCK_SIZE * n" "k \<le> n" "mapped (cl_mem c) stack BLOCK_SIZE"
    and "map (rload (cluster_view (cl_net c)) BLOCK_SIZE) l = chunks payload n"
  shows "\<exists>tgt' c'. read_single (cluster_net topo pick) stack l payload [k..<n] tgt c = Inr (tgt', c') \<and> test_ok topo host v0 batched nh n l tgt' c' \<and>
    mapped (cl_mem c') stack BLOCK_SIZE"
  using assms
proof (induction "n - k" arbitrary: k tgt c)
  case 0
  then show ?case by simp
next
  case (Suc x)
  then have kn: "k < n" and x: "x = n - Suc k" by auto
  note t = test_okD [OF Suc.prems(1)]
  let ?bs = "chunks payload n ! k"
  have bs: "sub_array payload (k * BLOCK_SIZE) BLOCK_SIZE = Inr ?bs" "length ?bs = BLOCK_SIZE"
    using kn Suc.prems(2) by (simp_all add: sub_array_def nth_chunks slice_def BLOCK_SIZE_def)
  have rl: "rload (cluster_view (cl_net c)) BLOCK_SIZE (l ! k) = ?bs"
    using arg_cong [OF Suc.prems(5), of "\<lambda>xs. xs ! k"] kn t(3) by simp
  have u: "unat (of_nat BLOCK_SIZE :: u16) = BLOCK_SIZE" by (simp add: BLOCK_SIZE_def)
  obtain tgt1 a c1 where r: "read_rmem (cluster_net topo pick) tgt (l ! k) stack (of_nat BLOCK_SIZE) c = Inr (BLOCK_SIZE, tgt1, a, c1)"
      "sin6_port tgt1 = t_port topo" "cm.ready host c1" "cluster_view (cl_net c1) = cluster_view (cl_net c)" "cl_mem c1 = overwrite (cl_mem c) stack ?bs"
    using cm.read_rmem_ok [OF t(1,2), of "l ! k" "of_nat BLOCK_SIZE" stack pick] t(5) [OF kn] Suc.prems(4) BLOCK_SIZE_le_MAX unfolding u rl by auto
  have ld: "load (cl_mem c1) stack BLOCK_SIZE = Some ?bs" "mapped (cl_mem c1) stack BLOCK_SIZE"
    using load_overwrite_same [of "cl_mem c" stack ?bs] mapped_overwrite [of "cl_mem c" stack BLOCK_SIZE] Suc.prems(4) r(5) bs(2)
    by (simp_all add: BLOCK_SIZE_def)
  have ok: "test_ok topo host v0 batched nh n l tgt1 c1"
    using test_ok_frame [OF Suc.prems(1) same_place_refl read_rmem_books [OF r(1)] r(3,2), of "[]"] r(4) by simp
  show ?case
    using Suc.hyps(1) [OF x ok Suc.prems(2) _ ld(2)] Suc.prems(5) r(1,4) ld(1) bs(1) kn t(3)
    by (simp add: upt_conv_Cons [OF kn] load_res_def guardE_def)
qed

lemma read_test_ok:
  assumes "test_ok topo host v0 batched nh n l tgt c" "length payload = BLOCK_SIZE * n" "0 < n" "n < 2 ^ 31"
    and "map (rload (cluster_view (cl_net c)) BLOCK_SIZE) l = chunks payload n"
    and "batched \<Longrightarrow> has_room mal (cl_mem c)" "\<not> batched \<Longrightarrow> mapped (cl_mem c) stack BLOCK_SIZE"
  shows "\<exists>l' tgt' c'. read_test (cluster_net topo pick) batched mal stack n payload l tgt c = Inr (l', tgt', c') \<and>
    test_ok topo host v0 batched nh n l' tgt' c' \<and> (batched \<longrightarrow> cl_mem c' = cl_mem c) \<and> (\<not> batched \<longrightarrow> mapped (cl_mem c') stack BLOCK_SIZE)"
proof (cases batched)
  case True
  note t = test_okD [OF assms(1)]
  let ?N = "BLOCK_SIZE * n"
  have N: "0 < ?N" "?N < 2 ^ 32" "?N \<le> 2 ^ 32" "?N div BLOCK_SIZE = n" "l \<noteq> []" using assms(3,4) t(3) by (auto simp: BLOCK_SIZE_def)
  obtain a junk where a: "chunk_malloc mal (cl_mem c) ?N = (a, overwrite (cl_mem c) a junk)" "a \<noteq> 0" "length junk = ?N"
      "mapped (overwrite (cl_mem c) a junk) a ?N" "\<And>bs. length bs = ?N \<Longrightarrow> chunk_free a ?N (overwrite (overwrite (cl_mem c) a junk) a bs) = cl_mem c"
    using chunk_malloc_room [OF assms(6) [OF True] N(1,2)] by metis
  let ?c = "c\<lparr>cl_mem := overwrite (cl_mem c) a junk\<rparr>"
  have rdy: "cm.ready host ?c" "cl_net ?c = cl_net c" using t(1) by (simp_all add: ready_net)
  have cat: "concat (map (rload (cluster_view (cl_net c)) BLOCK_SIZE) (take n l)) = payload"
    using assms(2,5) t(3) concat_chunks [of n payload] by simp
  obtain l' tgt' c' where r: "read_bulk_rmem (cluster_net topo pick) tgt l n a ?N ?c = Inr (0, l', tgt', c')" "sin6_port tgt' = t_port topo"
      "cm.ready host c'" "cluster_view (cl_net c') = cluster_view (cl_net c)" "cl_mem c' = overwrite (cl_mem ?c) a payload"
    using cm.read_bulk_ok [OF rdy(1) t(2) _ N(5) _ _ N(3), of a pick] t(3,4) a(4) N(4) cat by auto
  have ld: "load (cl_mem c') a ?N = Some payload"
    using load_overwrite_same [of "cl_mem ?c" a payload] a(4) assms(2) N(2) r(5) by simp
  have t0: "test_ok topo host v0 batched nh n l tgt ?c" using assms(1) by (simp add: test_ok_def client_idle_def)
  have t1: "test_ok topo host v0 batched nh n l' tgt' c'"
    using test_ok_frame [OF t0 read_bulk_place [OF r(1)] read_bulk_books [OF r(1)] r(3,2), of "[]"] r(4) by simp
  then have "test_ok topo host v0 batched nh n l' tgt' (c'\<lparr>cl_mem := cl_mem c\<rparr>)" by (simp add: test_ok_def client_idle_def)
  moreover have "chunk_free a ?N (cl_mem c') = cl_mem c" using a(5) [OF assms(2)] r(5) by simp
  ultimately show ?thesis
    using True a(1) r(1) ld assms(3) check_blocks_same [OF assms(2)] by (simp add: read_test_def load_res_def guardE_def)
next
  case False
  then show ?thesis
    using read_single_ok [OF assms(1,2) le0 assms(7) [OF False] assms(5), of pick] by (auto simp: read_test_def)
qed

lemma free_test_ok:
  assumes "test_ok topo host v0 batched (nat (get_num_hosts hl)) n l tgt c"
  shows "\<exists>tgt' c'. free_test (cluster_net topo pick) hl batched n l tgt c = Inr (tgt', c') \<and> client_idle host c' \<and> cluster_view (cl_net c') = v0"
proof -
  define nh where "nh = nat (get_num_hosts hl)"
  have t: "client_idle host c" "sin6_port tgt = t_port topo" "length l = n" "in_test host v0 batched nh l (cl_net c)"
    using assms by (simp_all add: test_ok_def nh_def)
  show ?thesis
  proof (cases batched)
    case True
    let ?s = "n div nh" and ?r = "\<lparr>rm_target = tgt, rm_list = l, rm_nblocks = n\<rparr>"
    have k: "0 < ?s" "0 < nh" "?s * nh \<le> n" "holding host v0 (rmem_shares ?s nh (rm_list ?r) [0..<nh]) (cl_net c)"
      using t(3,4) True by (simp_all add: in_test_def keeps_shares_def)
    have "?s * i < n" if "i < nh" for i using less_le_trans [of "?s * i" "?s * nh" n] k(1,3) that by simp
    then have "\<forall>i\<in>set [0..<nh]. ?s * i < length (rm_list ?r)" using t(3) by simp
    from free_holds [OF t(1) _ k(1) _ this k(4), of topo pick] t(2) obtain r' c'
      where f: "free_hosts (cluster_net topo pick) ?s [0..<nh] ?r c = Inr (r', c')" "client_idle host c'" "cluster_view (cl_net c') = v0"
      by auto
    have "nh \<le> n" using k(1,2) by (simp add: div_greater_zero_iff)
    then show ?thesis
      using True k(2) f free_batched_hosts [of "[0..<nh]" n "cluster_net topo pick" ?s l tgt c n] by (simp add: free_test_def Let_def flip: nh_def)
  next
    case False
    then show ?thesis using free_single_ok [OF t(1,2), of v0 0 l pick] t(3,4) by (simp add: in_test_def free_test_def)
  qed
qed

section \<open>The whole program\<close>

lemma length_gen_rdm [simp]: "length (gen_rdm_bytestream rnd n seed) = n"
  by (simp add: gen_rdm_bytestream_def)


text \<open>Two blocks on the server of the small cluster, in bulk.\<close>

lemma demo_alloc_test:
  "\<exists>as1 tgt1 c1. alloc_test (cluster_net sample_topo sample_place) (e_hosts demo_env) True 2 (replicate 2 (sample_addr 0 0)) sample_target demo_client =
     Inr (as1, tgt1, c1) \<and> (\<forall>a\<in>set as1. paddr a \<noteq> 0)"
proof -
  have le: "le_bytes 8 (2 :: u64) = [2, 0, 0, 0, 0, 0, 0, 0]" by code_simp
  have a: "(sample_addr 0 0)\<lparr>cmd := ALLOC_BULK_CMD\<rparr> = sample_addr ALLOC_BULK_CMD 0" "subid (sample_addr c n) = 1" for c n by (simp_all add: sample_addr_def)
  show ?thesis
    by (simp add: demo_env_def demo_client_def alloc_test_def get_num_hosts_def Let_def get_ip6_target_def allocate_bulk_rmem_def c_int_small
      request_blocks_def c_send_def cluster_net_def cluster_send_def send_udp_raw_def set_cmd_def le sample_topo_def sample_target_def a sample_run_alloc
      cluster_recv_def rcv_udp6_raw_def blit_def answer_def upt_rec block_addr_def BLOCK_SIZE_def)
qed


end
