(* ===== verification/Spec2Isabelle.thy ===== *)
theory Spec2Isabelle
  imports BB_Prelude BB_Types BB_Server BB_Packet BB_Checksum BB_Client BB_Remote BB_Cluster BB_Raid
    BB_Pointers BB_Hash BB_Dll BB_Lfu BB_Vmem BB_Paging BB_Policy BB_Faults BB_Session BB_Stores BB_Vm BB_Flush BB_Threads
    BB_Stdio BB_Config BB_Bitmap BB_Evict BB_Sim BB_Replay BB_Loop BB_Malloc BB_Buse BB_Disk BB_Books BB_Rpc BB_Bench BB_Switch
    BB_Return BB_Testing
begin

text \<open>
  A verification development for BlueBridge, remote memory over IPv6. Paths are below \<^verbatim>\<open>src/\<close>.

  \<^bold>\<open>The program.\<close> BlueBridge keeps memory on servers and lets clients address it by IPv6 addresses: an
  \<^verbatim>\<open>ip6_memaddr\<close> is at once the destination address of a packet and a pointer into the heap of the server
  that receives it. A server (\<^verbatim>\<open>ip6/lib/server_lib.c\<close>) allocates, reads, writes, trims and frees blocks on
  request. A client links the client library (\<^verbatim>\<open>ip6/lib/client_lib.c\<close>), which turns calls into packets sent
  through memory mapped rings of raw sockets (\<^verbatim>\<open>ip6/lib/raw_backend\<close>, \<^verbatim>\<open>ip6/lib/network.c\<close>). On top of
  it lie striped and redundant blocks (\<^verbatim>\<open>ip6/lib/vmem/rrmem.c\<close>), a user space virtual memory that keeps its
  pages in process memory, in a file or on servers (\<^verbatim>\<open>ip6/lib/vmem\<close>), a block device (\<^verbatim>\<open>ip6/lib/buse\<close>,
  \<^verbatim>\<open>ip6/apps/bb_disk.c\<close>) and remote procedure calls that pass pointers to remote memory
  (\<^verbatim>\<open>ip6/apps/thrift\<close>). The paging simulator of \<^verbatim>\<open>legacy/OldPageTable\<close> is an ancestor of the virtual memory.

  \<^bold>\<open>How it is modelled.\<close> A C function that can crash, exit or block for ever is a function into
  \<open>fault + 'a\<close> (\<^verbatim>\<open>BB_Prelude\<close>); reading or writing through a bad pointer is the fault \<open>Segv\<close>. Integers are words of
  their C width. Process memory is a partial map from addresses to bytes; linked structures are one store per
  struct type (\<^verbatim>\<open>BB_Pointers\<close>). The choices of an allocator, of \<^verbatim>\<open>rand\<close>, of the kernel (when a ring frame is
  ready, how many bytes a socket takes) and the contents of uninitialised variables are arguments. The
  interfaces between components are locales, each interpreted on the model's own definitions.

  \<^bold>\<open>Foundations.\<close>
  \<^item> \<^verbatim>\<open>BB_Prelude\<close>: machine integers, faults, byte images of integers, byte addressed memory.
  \<^item> \<^verbatim>\<open>BB_Types\<close>: \<^verbatim>\<open>ip6/lib/types.h\<close>, the address and its sixteen bytes, the constants of the protocol.
  \<^item> \<^verbatim>\<open>BB_Malloc\<close>, \<^verbatim>\<open>BB_Stdio\<close>: \<^verbatim>\<open>malloc\<close> and \<^verbatim>\<open>free\<close> in process memory; \<^verbatim>\<open>fgets\<close>, \<^verbatim>\<open>strtok\<close>, \<^verbatim>\<open>atoi\<close>, \<^verbatim>\<open>sscanf\<close>.
  \<^item> \<^verbatim>\<open>BB_Pointers\<close>: stores of nodes, paths through them, and the locale \<open>dnode\<close> of nodes with two links.

  \<^bold>\<open>The wire and the servers.\<close>
  \<^item> \<^verbatim>\<open>BB_Server\<close>: every handler of \<^verbatim>\<open>server_lib.c\<close> and the dispatch. The heap stays a set of disjoint blocks that
    are exactly the mapped bytes; a request touches only the range it names; what is written is read;
    allocations are fresh; who is answered.
  \<^item> \<^verbatim>\<open>BB_Packet\<close>: \<^verbatim>\<open>udp_raw_send.c\<close>, \<^verbatim>\<open>udp_raw_client.c\<close>, \<^verbatim>\<open>network.c\<close>: the frame template, the transmit ring, batches, both
    receive loops. A frame carries what was sent; batches are in order as long as they fit the ring, and overrun
    it otherwise; the flush returns if and only if the kernel takes the frames.
  \<^item> \<^verbatim>\<open>BB_Checksum\<close>: \<^verbatim>\<open>checksum\<close> and \<^verbatim>\<open>udp6_checksum\<close> against RFC 1071 and RFC 2460.
  \<^item> \<^verbatim>\<open>BB_Loop\<close>: the setup of the rings and the receive loop of a server, \<^verbatim>\<open>udp_raw_receive.c\<close>,
    \<^verbatim>\<open>udp_raw_server.c\<close>. The loop serves the requests of the frames in ring order.

  \<^bold>\<open>The client library.\<close>
  \<^item> \<^verbatim>\<open>BB_Client\<close>: \<^verbatim>\<open>client_lib.c\<close> over the interface \<open>netif\<close> of a network.
  \<^item> \<^verbatim>\<open>BB_Remote\<close>: the locale \<open>memory_service\<close>, what a network of memory servers promises, and what the
    library's transfers do over it.
  \<^item> \<^verbatim>\<open>BB_Cluster\<close>: one client and a server of \<^verbatim>\<open>BB_Server\<close> per subnet, the interpretation \<open>cm\<close> of that locale; round
    trips of bulk and uniform transfers. \<^verbatim>\<open>BB_Books\<close>: which blocks the servers have allocated, through every call.
  \<^item> \<^verbatim>\<open>BB_Raid\<close>: \<^verbatim>\<open>rrmem.c\<close>, stripes, parity and repair. A block survives one lost host at level 4; at level 5 the
    repair is wrong when the parity is not on the last host.

  \<^bold>\<open>Virtual memory.\<close>
  \<^item> \<^verbatim>\<open>BB_Hash\<close>, \<^verbatim>\<open>BB_Dll\<close>, \<^verbatim>\<open>BB_Lfu\<close>: the index and the lists of \<^verbatim>\<open>page_table.c\<close>, as a map, a recency list and
    a multiset of use counts.
  \<^item> \<^verbatim>\<open>BB_Vmem\<close>: the page table and the locale \<open>block_store\<close> of a backing store. \<^verbatim>\<open>BB_Paging\<close>: the fault handlers.
    \<^verbatim>\<open>BB_Policy\<close>: the locale \<open>replacement\<close>, interpreted for LRU, FFIFO and LFU. \<^verbatim>\<open>BB_Faults\<close>: every handler
    returns with the page resident and the memory unchanged.
  \<^item> \<^verbatim>\<open>BB_Session\<close>: loads and stores of a process, the locale \<open>paging\<close>. \<^verbatim>\<open>BB_Stores\<close>: \<^verbatim>\<open>mem.c\<close>, \<^verbatim>\<open>disk.c\<close>,
    \<^verbatim>\<open>rmem.c\<close> as block stores. \<^verbatim>\<open>BB_Vm\<close>: \<^verbatim>\<open>init_virtual_memory\<close>; a process whose pages live on servers sees a
    flat array. \<^verbatim>\<open>BB_Flush\<close>: flushing and cleaning up; the file then holds the memory. \<^verbatim>\<open>BB_Threads\<close>: the frames of threads.
  \<^item> \<^verbatim>\<open>BB_Return\<close>: what a process holds on the servers. The interpretation \<open>kept_bs\<close> shows that the store keeps it, and
    cleaning up gives every server its memory back, under each policy.

  \<^bold>\<open>Programs.\<close>
  \<^item> \<^verbatim>\<open>BB_Config\<close>: \<^verbatim>\<open>ip6/lib/config.c\<close>, reading the configuration file.
  \<^item> \<^verbatim>\<open>BB_Buse\<close>, \<^verbatim>\<open>BB_Disk\<close>: \<^verbatim>\<open>buse.c\<close> and \<^verbatim>\<open>bb_disk.c\<close>. The locale \<open>block_device\<close> is interpreted on the
    disk as \<open>nbd\<close>; the device answers as an array of bytes does.
  \<^item> \<^verbatim>\<open>BB_Rpc\<close>: \<^verbatim>\<open>ip6/apps/thrift\<close>, calls on pointers and calls on values. The increment test passes; the two kinds of call
    agree; an uninitialised offset sends garbage.
  \<^item> \<^verbatim>\<open>BB_Testing\<close>: \<^verbatim>\<open>ip6/apps/testing.c\<close>. The test of the basic operations passes, single and batched, and gives
    the memory back.
  \<^item> \<^verbatim>\<open>BB_Bench\<close>: the programs of \<^verbatim>\<open>ip6/apps/rmem_test.c\<close> over the locale \<open>byte_memory\<close>, which every virtual memory
    offers: they print on remote memory what they print on an array.
  \<^item> \<^verbatim>\<open>BB_Switch\<close>: \<^verbatim>\<open>ip6/p4/p4_switch/ip6_16.p4\<close>, the switch of the emulated network, over the bits of packets. The deparser undoes
    the parser; frames of the raw backend are routed by the address of the block, unless their data looks like a Thrift call.
  \<^item> \<^verbatim>\<open>BB_Bitmap\<close>, \<^verbatim>\<open>BB_Evict\<close>, \<^verbatim>\<open>BB_Sim\<close>, \<^verbatim>\<open>BB_Replay\<close>: the simulator of \<^verbatim>\<open>legacy/OldPageTable\<close>: swap slots, the
    replacement algorithms (locale \<open>evictor\<close>, one interpretation per algorithm), the page table, the replay of a
    trace. The simulated memory ends as the trace describes under each algorithm.

  \<^bold>\<open>Bounds and fuel.\<close> Where the code loops until something outside happens, the model takes the list of what happens
  (epoll answers, kernel attempts, segments of a socket): the list ending is the program still running, the value
  \<open>Inl Blocked\<close>, and theorems about results assume a list that is long enough or prove when it is. The reader of the
  configuration takes fuel, the length of the text, and every line consumes a character. A load retries
  after at most one fault and a store after at most two, so two and three rounds suffice and are proved to. The clock
  search runs at most twice around. Ages of frames are natural numbers, where the C counter is an \<^verbatim>\<open>int\<close>. Block
  counts that the code holds in an \<^verbatim>\<open>int\<close> are assumed below \<open>2 ^ 31\<close>, and the memory of the simulator at most \<open>2 ^ 20\<close> frames.
  The network of \<^verbatim>\<open>BB_Cluster\<close> loses, duplicates and reorders nothing: the protocol has no retransmission, so
  nothing could be said of a client on any other.

  \<^bold>\<open>Not modelled.\<close>
  \<^item> \<^verbatim>\<open>ip6/lib/dpdk_backend\<close>: calls into DPDK, outside the repository; its packets are those of the raw backend.
  \<^item> \<^verbatim>\<open>ip6/lib/uthash\<close>: third party macros that are included and used nowhere.
  \<^item> \<^verbatim>\<open>ip6/lib/utils.c\<close>: printing and clocks (the random payload is in \<^verbatim>\<open>BB_Testing\<close>). \<^verbatim>\<open>set_interface_ip\<close> of \<^verbatim>\<open>config.c\<close>, the packet filter and the
    neighbour lookup: calls into the kernel.
  \<^item> \<^verbatim>\<open>ip6/apps\<close>: \<^verbatim>\<open>mem_tests.c\<close>, \<^verbatim>\<open>tcp_client.c\<close> and the rest of \<^verbatim>\<open>ddc_client.c\<close> time calls of the libraries; the
    Thrift and Arrow libraries are outside the repository. In \<^verbatim>\<open>rmem_test.c\<close>, page rank, which computes with floating point
    numbers, and the threaded word count. In \<^verbatim>\<open>testing.c\<close>, the files of latencies, the threads and the options.
  \<^item> \<^verbatim>\<open>ip6/p4/p4_switch/ip6_14.p4\<close>, the older form of the switch program, and \<^verbatim>\<open>heimdall\<close>, a driver of the switch framework;
    \<^verbatim>\<open>ip6/scripts\<close>, \<^verbatim>\<open>ip6/graph_gen_code\<close>, \<^verbatim>\<open>run_emulation.py\<close>: starting the emulation, and plots.
  \<^item> \<^verbatim>\<open>legacy\<close> apart from \<^verbatim>\<open>OldPageTable\<close>: \<^verbatim>\<open>ndpproxy.c\<close>, \<^verbatim>\<open>AsyncTCPLinux\<close>, \<^verbatim>\<open>pagerank\<close>, \<^verbatim>\<open>TestApps\<close>, programs that use
    neither library.
\<close>

end
